(* ===== verification/PC_Prelude.thy ===== *)
theory PC_Prelude
  imports Main "HOL-Library.Word"
begin

text \<open>
  Shared vocabulary of the development: machine types, the result type of C functions that may
  fail, byte buffers with checked access, and the little-endian layout of integers in memory.

  A C function that can fail returns \<open>cerror + 'a\<close>. \<open>PcError\<close> is a call of
  \<open>pcerror\<close> (lib/pc_mem.c): both installed handlers leave the function (\<open>exit(1)\<close> by
  default, \<open>ereport(ERROR)\<close> under PostgreSQL), so the call ends the computation.
  \<open>AssertFailed\<close> is a failing \<open>assert\<close>. \<open>OutOfBounds\<close> is a read or write outside the
  buffer a pointer belongs to. \<open>Unspecified\<close> is a library call outside its domain (for example
  \<open>lround\<close> of a value no \<open>long\<close> holds).

  A buffer is the list of its bytes; a pointer into it is an offset. \<open>rd\<close> and \<open>wr\<close> are
  \<open>memcpy\<close> out of and into a buffer. The byte order is that of the machines the code runs on
  in practice (x86-64, AArch64): little endian. Sizes and counts are natural numbers; the places
  where the code computes in 32 bits write the reduction modulo \<open>2 ^ 32\<close> out.
\<close>

unbundle bit_operations_syntax

section \<open>Machine types and results\<close>

type_synonym byte = "8 word"
type_synonym double = "64 word"

datatype cerror =
    PcError string
  | AssertFailed
  | OutOfBounds
  | Unspecified

type_synonym 'a res = "cerror + 'a"

definition bindE :: "'a res \<Rightarrow> ('a \<Rightarrow> 'b res) \<Rightarrow> 'b res" where
  "bindE m f = (case m of Inl e \<Rightarrow> Inl e | Inr x \<Rightarrow> f x)"

named_theorems bind_simps "evaluation of the result monad"
named_theorems buf_simps "access to byte buffers"
named_theorems le_simps "little-endian layout"

lemma bindE_Inr [simp, bind_simps]: "bindE (Inr x) f = f x"
  by (simp add: bindE_def)

lemma bindE_Inl [simp, bind_simps]: "bindE (Inl e) f = Inl e"
  by (simp add: bindE_def)

lemma bindE_eq_Inr [bind_simps]: "bindE m f = Inr y \<longleftrightarrow> (\<exists>x. m = Inr x \<and> f x = Inr y)"
  by (cases m) auto

lemma bindE_cong [fundef_cong]:
  "m = m' \<Longrightarrow> (\<And>x. m' = Inr x \<Longrightarrow> f x = f' x) \<Longrightarrow> bindE m f = bindE m' f'"
  by (cases m') auto

lemma bindE_assoc: "bindE (bindE m f) g = bindE m (\<lambda>x. bindE (f x) g)"
  by (cases m) auto

lemma bindE_return [simp]: "bindE m Inr = m"
  by (cases m) auto

text \<open>A C \<open>for\<close> loop that threads a state over the elements of a list.\<close>

fun foldE :: "('a \<Rightarrow> 's \<Rightarrow> 's res) \<Rightarrow> 'a list \<Rightarrow> 's \<Rightarrow> 's res" where
  "foldE f [] s = Inr s"
| "foldE f (x # xs) s = bindE (f x s) (foldE f xs)"

fun mapE :: "('a \<Rightarrow> 'b res) \<Rightarrow> 'a list \<Rightarrow> 'b list res" where
  "mapE f [] = Inr []"
| "mapE f (x # xs) = bindE (f x) (\<lambda>y. bindE (mapE f xs) (\<lambda>ys. Inr (y # ys)))"

lemma foldE_cong [fundef_cong]:
  "xs = ys \<Longrightarrow> s = t \<Longrightarrow> (\<And>x u. x \<in> set ys \<Longrightarrow> f x u = g x u) \<Longrightarrow> foldE f xs s = foldE g ys t"
proof (induction ys arbitrary: xs s t)
  case (Cons y ys)
  have "bindE (g y t) (foldE f ys) = bindE (g y t) (foldE g ys)"
    using Cons.IH Cons.prems(3) by (auto intro!: bindE_cong)
  then show ?case using Cons.prems by simp
qed simp

lemma foldE_append: "foldE f (xs @ ys) s = bindE (foldE f xs s) (foldE f ys)"
  by (induction xs arbitrary: s) (auto simp: bindE_assoc intro!: bindE_cong)

lemma foldE_Nil [simp]: "foldE f [] = Inr"
  by (rule ext) simp

lemma foldE_upt_Suc: "foldE f [0..<Suc n] s = bindE (foldE f [0..<n] s) (f n)"
proof -
  have "foldE f [n] = f n" by (rule ext) simp
  then show ?thesis by (simp add: foldE_append)
qed

lemma foldE_Inr: "(\<And>x s. x \<in> set xs \<Longrightarrow> f x s = Inr (g x s)) \<Longrightarrow> foldE f xs s = Inr (fold g xs s)"
  by (induction xs arbitrary: s) auto

lemma foldE_invariant:
  assumes "foldE f xs s = Inr t" and "I s"
    and "\<And>x s s'. x \<in> set xs \<Longrightarrow> I s \<Longrightarrow> f x s = Inr s' \<Longrightarrow> I s'"
  shows "I t"
  using assms
proof (induction xs arbitrary: s)
  case (Cons x xs)
  from Cons.prems(1) obtain u where u: "f x s = Inr u" "foldE f xs u = Inr t"
    by (auto simp: bindE_eq_Inr)
  have "I u" using Cons.prems u(1) by auto
  show ?case
  proof (rule Cons.IH [OF u(2) \<open>I u\<close>])
    show "I s'" if "y \<in> set xs" "I s" "f y s = Inr s'" for y s s'
      using Cons.prems(3) [of y s s'] that by simp
  qed
qed simp

lemma mapE_Inr: "(\<And>x. x \<in> set xs \<Longrightarrow> f x = Inr (g x)) \<Longrightarrow> mapE f xs = Inr (map g xs)"
  by (induction xs) auto

lemma mapE_eq_Inr_length: "mapE f xs = Inr ys \<Longrightarrow> length ys = length xs"
  by (induction xs arbitrary: ys) (auto simp: bindE_eq_Inr)

lemma mapE_eq_Inr_nth: "mapE f xs = Inr ys \<Longrightarrow> i < length xs \<Longrightarrow> f (xs ! i) = Inr (ys ! i)"
  by (induction xs arbitrary: ys i) (auto simp: bindE_eq_Inr nth_Cons split: nat.splits)

lemma mapE_eq_InrI:
  "length ys = length xs \<Longrightarrow> (\<And>i. i < length xs \<Longrightarrow> f (xs ! i) = Inr (ys ! i)) \<Longrightarrow> mapE f xs = Inr ys"
proof (induction xs arbitrary: ys)
  case (Cons x xs)
  then obtain y zs where ys: "ys = y # zs" by (cases ys) auto
  have "f x = Inr y" using Cons.prems(2) [of 0] ys by simp
  moreover have "mapE f xs = Inr zs"
    using Cons.IH [of zs] Cons.prems ys by fastforce
  ultimately show ?case using ys by simp
qed simp

section \<open>Byte buffers\<close>

definition rd :: "byte list \<Rightarrow> nat \<Rightarrow> nat \<Rightarrow> byte list res" where
  "rd buf off n = (if off + n \<le> length buf then Inr (take n (drop off buf)) else Inl OutOfBounds)"

definition wr :: "byte list \<Rightarrow> nat \<Rightarrow> byte list \<Rightarrow> byte list res" where
  "wr buf off bs = (if off + length bs \<le> length buf
     then Inr (take off buf @ bs @ drop (off + length bs) buf) else Inl OutOfBounds)"

text \<open>Access to one element of an array of any type.\<close>

definition rdx :: "'b list \<Rightarrow> nat \<Rightarrow> 'b res" where
  "rdx xs i = (if i < length xs then Inr (xs ! i) else Inl OutOfBounds)"

definition wrx :: "'b list \<Rightarrow> nat \<Rightarrow> 'b \<Rightarrow> 'b list res" where
  "wrx xs i x = (if i < length xs then Inr (xs[i := x]) else Inl OutOfBounds)"

definition pcalloc :: "nat \<Rightarrow> byte list" where
  "pcalloc n = replicate n 0"

lemma length_pcalloc [simp, buf_simps]: "length (pcalloc n) = n"
  by (simp add: pcalloc_def)

lemma rd_ok [buf_simps]: "off + n \<le> length buf \<Longrightarrow> rd buf off n = Inr (take n (drop off buf))"
  by (simp add: rd_def)

lemma rd_all [simp]: "rd buf 0 (length buf) = Inr buf"
  by (simp add: rd_def)

lemma rd_eq_Inr: "rd buf off n = Inr bs \<longleftrightarrow> off + n \<le> length buf \<and> bs = take n (drop off buf)"
  by (auto simp: rd_def)

lemma rd_length: "rd buf off n = Inr bs \<Longrightarrow> length bs = n"
  by (auto simp: rd_def split: if_splits)

lemma rd_mid [buf_simps]: "off = length a \<Longrightarrow> n = length b \<Longrightarrow> rd (a @ b @ c) off n = Inr b"
  by (simp add: rd_def)

lemma wr_ok [buf_simps]: "off + length bs \<le> length buf \<Longrightarrow>
   wr buf off bs = Inr (take off buf @ bs @ drop (off + length bs) buf)"
  by (simp add: wr_def)

lemma wr_length: "wr buf off bs = Inr buf' \<Longrightarrow> length buf' = length buf"
  by (auto simp: wr_def split: if_splits)

lemma wr_mid [buf_simps]:
  "off = length a \<Longrightarrow> length b = length b' \<Longrightarrow> wr (a @ b @ c) off b' = Inr (a @ b' @ c)"
  by (simp add: wr_def)

lemma rd_wr_same: "wr buf off bs = Inr buf' \<Longrightarrow> rd buf' off (length bs) = Inr bs"
  by (auto simp: wr_def rd_def min_def split: if_splits)

lemma wr_self: "off + n \<le> length buf \<Longrightarrow> wr buf off (take n (drop off buf)) = Inr buf"
proof -
  assume len: "off + n \<le> length buf"
  have "drop (off + n) buf = drop n (drop off buf)" by (simp add: add.commute)
  then have "take off buf @ take n (drop off buf) @ drop (off + n) buf = buf"
    by (simp only: append_take_drop_id)
  moreover have "length (take n (drop off buf)) = n" using len by simp
  ultimately show ?thesis using len by (simp only: wr_def) simp
qed

lemma nth_wr:
  "off + length bs \<le> length buf \<Longrightarrow> k < length buf \<Longrightarrow>
   (take off buf @ bs @ drop (off + length bs) buf) ! k =
     (if off \<le> k \<and> k < off + length bs then bs ! (k - off) else buf ! k)"
  by (auto simp: nth_append min_def)

lemma rd_wr_disjoint:
  assumes "wr buf off bs = Inr buf'" "o' + n \<le> off \<or> off + length bs \<le> o'"
  shows "rd buf' o' n = rd buf o' n"
proof -
  from assms(1) have len: "off + length bs \<le> length buf"
    and b: "buf' = take off buf @ bs @ drop (off + length bs) buf"
    by (auto simp: wr_def split: if_splits)
  have lb: "length buf' = length buf" using assms(1) by (rule wr_length)
  show ?thesis
  proof (cases "o' + n \<le> length buf")
    case True
    have "take n (drop o' buf') = take n (drop o' buf)"
    proof (rule nth_equalityI)
      show "length (take n (drop o' buf')) = length (take n (drop o' buf))"
        by (simp add: lb)
    next
      fix i assume "i < length (take n (drop o' buf'))"
      then have i: "i < n" "o' + i < length buf" using True by (simp_all add: lb)
      then have "buf' ! (o' + i) = buf ! (o' + i)"
        unfolding b using nth_wr [OF len i(2)] assms(2) by auto
      then show "take n (drop o' buf') ! i = take n (drop o' buf) ! i"
        using i True by (simp add: lb)
    qed
    then show ?thesis using True by (simp add: rd_def lb)
  next
    case False
    then show ?thesis by (simp add: rd_def lb)
  qed
qed

section \<open>Integers in memory\<close>

lemma unat_byte: "unat (b :: byte) < 256"
proof -
  have "unat b < 2 ^ LENGTH(8)" by (rule unsigned_less)
  then show ?thesis by simp
qed

fun le_nat :: "byte list \<Rightarrow> nat" where
  "le_nat [] = 0"
| "le_nat (b # bs) = unat b + 256 * le_nat bs"

fun le_bytes :: "nat \<Rightarrow> nat \<Rightarrow> byte list" where
  "le_bytes 0 v = []"
| "le_bytes (Suc n) v = word_of_nat (v mod 256) # le_bytes n (v div 256)"

lemma le_bytes_numeral [simp, le_simps]:
  "le_bytes (numeral k) v = word_of_nat (v mod 256) # le_bytes (pred_numeral k) (v div 256)"
  using le_bytes.simps(2) [of "pred_numeral k" v] by (simp only: numeral_eq_Suc [symmetric])

lemma length_le_bytes [simp, le_simps]: "length (le_bytes n v) = n"
  by (induction n arbitrary: v) auto

lemma le_bytes_le_nat [simp, le_simps]: "le_bytes (length bs) (le_nat bs) = bs"
proof (induction bs)
  case (Cons b bs)
  have "unat b < 256" by (rule unat_byte)
  then have "(unat b + 256 * le_nat bs) mod 256 = unat b"
    and "(unat b + 256 * le_nat bs) div 256 = le_nat bs" by simp_all
  then show ?case using Cons by simp
qed simp

lemma le_nat_le_bytes [le_simps]: "le_nat (le_bytes n v) = v mod 256 ^ n"
proof (induction n arbitrary: v)
  case (Suc n)
  have "unat (word_of_nat (v mod 256) :: byte) = v mod 256"
    by (simp add: unat_of_nat)
  then show ?case
    by (simp add: Suc mod_mult2_eq)
qed simp

lemma le_nat_less [le_simps]: "le_nat bs < 256 ^ length bs"
proof (induction bs)
  case (Cons b bs)
  have "unat b < 256" by (rule unat_byte)
  then show ?case using Cons by simp
qed simp

lemma le_nat_inj: "length as = length bs \<Longrightarrow> le_nat as = le_nat bs \<Longrightarrow> as = bs"
  by (metis le_bytes_le_nat)

lemma le_nat_append: "le_nat (as @ bs) = le_nat as + 256 ^ length as * le_nat bs"
  by (induction as) (auto simp: algebra_simps)

text \<open>A fixed-width integer as the code reads and writes it with \<open>memcpy\<close>.\<close>

definition word_size :: "'a::len itself \<Rightarrow> nat" where
  "word_size _ = LENGTH('a) div 8"

definition word_of_bytes :: "byte list \<Rightarrow> 'a::len word" where
  "word_of_bytes bs = word_of_nat (le_nat bs)"

definition bytes_of_word :: "'a::len word \<Rightarrow> byte list" where
  "bytes_of_word w = le_bytes (word_size TYPE('a)) (unat w)"

lemma length_bytes_of_word [simp, le_simps]: "length (bytes_of_word (w :: 'a::len word)) = word_size TYPE('a)"
  by (simp add: bytes_of_word_def)

lemma power_256: "(256::nat) ^ n = 2 ^ (8 * n)"
  by (simp add: power_mult)

lemma word_of_bytes_of_word [simp, le_simps]:
  assumes "8 dvd LENGTH('a)"
  shows "word_of_bytes (bytes_of_word w) = (w :: 'a::len word)"
proof -
  have "(256::nat) ^ word_size TYPE('a) = 2 ^ LENGTH('a)"
    using assms by (simp add: power_256 word_size_def)
  then show ?thesis
    by (simp add: word_of_bytes_def bytes_of_word_def le_nat_le_bytes unsigned_less)
qed

lemma bytes_of_word_of_bytes [le_simps]:
  assumes "8 dvd LENGTH('a)" "length bs = word_size TYPE('a)"
  shows "bytes_of_word (word_of_bytes bs :: 'a::len word) = bs"
proof -
  have "le_nat bs < 2 ^ LENGTH('a)"
    using le_nat_less [of bs] assms by (simp add: power_256 word_size_def)
  then have "unat (word_of_bytes bs :: 'a word) = le_nat bs"
    by (simp add: word_of_bytes_def unat_of_nat)
  then show ?thesis by (metis assms(2) bytes_of_word_def le_bytes_le_nat)
qed

lemma unat_word_of_bytes:
  assumes "length bs \<le> word_size TYPE('a)"
  shows "unat (word_of_bytes bs :: 'a::len word) = le_nat bs"
proof -
  have "le_nat bs < 256 ^ length bs" by (rule le_nat_less)
  also have "\<dots> \<le> 2 ^ (8 * word_size TYPE('a))" using assms by (simp add: power_256)
  also have "\<dots> \<le> 2 ^ LENGTH('a)" by (rule power_increasing) (auto simp: word_size_def)
  finally show ?thesis by (simp add: word_of_bytes_def unat_of_nat)
qed

lemma word_sizes [simp]:
  "word_size TYPE(8) = 1" "word_size TYPE(16) = 2" "word_size TYPE(32) = 4" "word_size TYPE(64) = 8"
  by (simp_all add: word_size_def)

text \<open>
  The consecutive \<open>n\<close>-byte pieces of a buffer that holds an array of \<open>k\<close> elements.
\<close>

definition elems :: "nat \<Rightarrow> nat \<Rightarrow> byte list \<Rightarrow> byte list list" where
  "elems n k buf = map (\<lambda>i. take n (drop (i * n) buf)) [0..<k]"

lemma length_elems [simp]: "length (elems n k buf) = k"
  by (simp add: elems_def)

lemma nth_elems [simp]: "i < k \<Longrightarrow> elems n k buf ! i = take n (drop (i * n) buf)"
  by (simp add: elems_def)

lemma elems_0 [simp]: "elems n 0 buf = []"
  by (simp add: elems_def)

lemma elems_Suc: "elems n (Suc k) buf = take n buf # elems n k (drop n buf)"
  unfolding elems_def by (subst upt_conv_Cons) (auto simp: map_Suc_upt [symmetric] ac_simps
      simp del: upt_Suc)

lemma elem_bound: "i < k \<Longrightarrow> i * n + n \<le> k * (n::nat)"
proof -
  assume "i < k"
  then have "Suc i * n \<le> k * n" by (intro mult_le_mono1) simp
  then show ?thesis by simp
qed

lemma elems_snoc: "elems n (Suc k) buf = elems n k buf @ [take n (drop (k * n) buf)]"
  by (simp add: elems_def)

lemma elems_prefix: "elems n k (take (k * n) buf) = elems n k buf"
proof -
  have "take n (drop (i * n) (take (k * n) buf)) = take n (drop (i * n) buf)" if "i < k" for i
    using elem_bound [OF that, of n] by (simp add: drop_take min_def)
  then show ?thesis by (simp add: elems_def)
qed

lemma elems_take_cong: "take (k * n) a = take (k * n) b \<Longrightarrow> elems n k a = elems n k b"
  by (metis elems_prefix)

lemma length_nth_elems: "k * n \<le> length buf \<Longrightarrow> i < k \<Longrightarrow> length (elems n k buf ! i) = n"
  using elem_bound [of i k n] by simp

lemma elems_lengths: "k * n \<le> length buf \<Longrightarrow> e \<in> set (elems n k buf) \<Longrightarrow> length e = n"
  by (metis in_set_conv_nth length_elems length_nth_elems)

lemma concat_elems: "k * n \<le> length buf \<Longrightarrow> concat (elems n k buf) = take (k * n) buf"
proof (induction k arbitrary: buf)
  case (Suc k)
  have "concat (elems n k (drop n buf)) = take (k * n) (drop n buf)"
    using Suc.prems by (intro Suc.IH) simp
  then show ?case by (simp add: elems_Suc take_add)
qed simp

lemma elems_concat:
  "(\<And>e. e \<in> set es \<Longrightarrow> length e = n) \<Longrightarrow> elems n (length es) (concat es @ rest) = es"
  by (induction es) (auto simp: elems_Suc)

lemma length_concat_const: "(\<And>e. e \<in> set es \<Longrightarrow> length e = n) \<Longrightarrow> length (concat es) = length es * n"
  by (induction es) auto

lemma length_concat_replicate [simp]: "length (concat (replicate c v)) = c * length v"
  by (induction c) auto

end
