(* ===== verification/PC_Double.thy ===== *)
theory PC_Double
  imports PC_Prelude
begin

text \<open>
  The C types \<open>double\<close> and \<open>float\<close> and the operations the library uses on them, as IEEE-754
  binary64 and binary32 in round-to-nearest-even. A \<open>double\<close> is its bit pattern, so that
  \<open>memcpy\<close> of a double is the little-endian layout of PC_Prelude and every operation computes.

  A format is given by its precision \<open>p\<close> (53, 24) and the width \<open>w\<close> of its exponent field
  (11, 8). The \<^emph>\<open>magnitude\<close> of a pattern is the pattern without its sign bit; magnitudes are
  ordered as the absolute values they stand for (\<open>mag_units_less_iff\<close>). Arithmetic decodes to
  \<open>m * 2 ^ e\<close>, computes exactly and rounds once (\<open>round_mag\<close>). C leaves sign and payload of
  a NaN result open; the model takes the positive quiet NaN.
\<close>

section \<open>Formats, decoding and rounding\<close>

datatype fp = FNaN | FInf bool | FNum bool nat int

definition emin :: "nat \<Rightarrow> nat \<Rightarrow> int" where
  "emin p w = 3 - 2 ^ (w - 1) - int p"

definition inf_mag :: "nat \<Rightarrow> nat \<Rightarrow> nat" where
  "inf_mag p w = (2 ^ w - 1) * 2 ^ (p - 1)"

definition decode_mag :: "nat \<Rightarrow> nat \<Rightarrow> bool \<Rightarrow> nat \<Rightarrow> fp" where
  "decode_mag p w s mag =
     (if inf_mag p w < mag then FNaN
      else if mag = inf_mag p w then FInf s
      else let be = mag div 2 ^ (p - 1); fr = mag mod 2 ^ (p - 1)
           in if be = 0 then FNum s fr (emin p w)
              else FNum s (2 ^ (p - 1) + fr) (emin p w + int be - 1))"

fun bitlen :: "nat \<Rightarrow> nat" where
  "bitlen n = (if n = 0 then 0 else Suc (bitlen (n div 2)))"

declare bitlen.simps [simp del]

definition rne_shift :: "nat \<Rightarrow> nat \<Rightarrow> nat" where
  "rne_shift m r = (let q = m div 2 ^ r; rem = m mod 2 ^ r
     in if 2 ^ r < 2 * rem \<or> (2 * rem = 2 ^ r \<and> odd q) then q + 1 else q)"

definition round_mag :: "nat \<Rightarrow> nat \<Rightarrow> nat \<Rightarrow> int \<Rightarrow> nat" where
  "round_mag p w m e =
     (if m = 0 then 0
      else let e' = max (e + int (bitlen m) - int p) (emin p w);
               q = (if e' \<le> e then m * 2 ^ nat (e - e') else rne_shift m (nat (e' - e)))
           in min (q + nat (e' - emin p w) * 2 ^ (p - 1)) (inf_mag p w))"

section \<open>The C types\<close>

type_synonym float32 = "32 word"

definition d_neg :: "double \<Rightarrow> bool" where
  "d_neg d = (2 ^ 63 \<le> unat d)"

definition d_mag :: "double \<Rightarrow> nat" where
  "d_mag d = unat d mod 2 ^ 63"

definition decode64 :: "double \<Rightarrow> fp" where
  "decode64 d = decode_mag 53 11 (d_neg d) (d_mag d)"

definition decode32 :: "float32 \<Rightarrow> fp" where
  "decode32 f = decode_mag 24 8 (2 ^ 31 \<le> unat f) (unat f mod 2 ^ 31)"

fun encode64 :: "fp \<Rightarrow> double" where
  "encode64 FNaN = 0x7FF8000000000000"
| "encode64 (FInf s) = (if s then 0xFFF0000000000000 else 0x7FF0000000000000)"
| "encode64 (FNum s m e) = word_of_nat ((if s then 2 ^ 63 else 0) + round_mag 53 11 m e)"

fun encode32 :: "fp \<Rightarrow> float32" where
  "encode32 FNaN = 0x7FC00000"
| "encode32 (FInf s) = (if s then 0xFF800000 else 0x7F800000)"
| "encode32 (FNum s m e) = word_of_nat ((if s then 2 ^ 31 else 0) + round_mag 24 8 m e)"

definition d_isnan :: "double \<Rightarrow> bool" where
  "d_isnan d = (inf_mag 53 11 < d_mag d)"

definition d_key :: "double \<Rightarrow> int" where
  "d_key d = (if d_neg d then - int (d_mag d) else int (d_mag d))"

text \<open>The C comparisons; all are false on a NaN, except \<open>!=\<close>. The keys identify the two zeros.\<close>

definition d_lt :: "double \<Rightarrow> double \<Rightarrow> bool" where
  "d_lt a b = (\<not> d_isnan a \<and> \<not> d_isnan b \<and> d_key a < d_key b)"

definition d_eq :: "double \<Rightarrow> double \<Rightarrow> bool" where
  "d_eq a b = (\<not> d_isnan a \<and> \<not> d_isnan b \<and> d_key a = d_key b)"

definition d_of_int :: "int \<Rightarrow> double" where
  "d_of_int i = encode64 (FNum (i < 0) (nat \<bar>i\<bar>) 0)"

definition d_of_float :: "float32 \<Rightarrow> double" where
  "d_of_float f = encode64 (decode32 f)"

definition float_of_d :: "double \<Rightarrow> float32" where
  "float_of_d d = encode32 (decode64 d)"

definition fp_sgn :: "bool \<Rightarrow> int" where
  "fp_sgn s = (if s then -1 else 1)"

fun fp_uminus :: "fp \<Rightarrow> fp" where
  "fp_uminus FNaN = FNaN"
| "fp_uminus (FInf s) = FInf (\<not> s)"
| "fp_uminus (FNum s m e) = FNum (\<not> s) m e"

fun fp_add :: "fp \<Rightarrow> fp \<Rightarrow> fp" where
  "fp_add FNaN y = FNaN"
| "fp_add x FNaN = FNaN"
| "fp_add (FInf s) (FInf t) = (if s = t then FInf s else FNaN)"
| "fp_add (FInf s) (FNum t n f) = FInf s"
| "fp_add (FNum s m e) (FInf t) = FInf t"
| "fp_add (FNum s m e) (FNum t n f) =
     (let g = min e f;
          v = fp_sgn s * int m * 2 ^ nat (e - g) + fp_sgn t * int n * 2 ^ nat (f - g)
      in if v = 0 then FNum (s \<and> t) 0 0 else FNum (v < 0) (nat \<bar>v\<bar>) g)"

fun fp_mul :: "fp \<Rightarrow> fp \<Rightarrow> fp" where
  "fp_mul FNaN y = FNaN"
| "fp_mul x FNaN = FNaN"
| "fp_mul (FInf s) (FInf t) = FInf (s \<noteq> t)"
| "fp_mul (FInf s) (FNum t n f) = (if n = 0 then FNaN else FInf (s \<noteq> t))"
| "fp_mul (FNum s m e) (FInf t) = (if m = 0 then FNaN else FInf (s \<noteq> t))"
| "fp_mul (FNum s m e) (FNum t n f) = FNum (s \<noteq> t) (m * n) (e + f)"

text \<open>
  Division keeps at least 55 significant bits of the quotient and one sticky bit, so that the
  final rounding of \<open>encode64\<close> is the rounding of the exact quotient.
\<close>

fun fp_div :: "fp \<Rightarrow> fp \<Rightarrow> fp" where
  "fp_div FNaN y = FNaN"
| "fp_div x FNaN = FNaN"
| "fp_div (FInf s) (FInf t) = FNaN"
| "fp_div (FInf s) (FNum t n f) = FInf (s \<noteq> t)"
| "fp_div (FNum s m e) (FInf t) = FNum (s \<noteq> t) 0 0"
| "fp_div (FNum s m e) (FNum t n f) =
     (if n = 0 then (if m = 0 then FNaN else FInf (s \<noteq> t))
      else let k = bitlen n + 55; q = m * 2 ^ k div n;
               st = (if m * 2 ^ k mod n = 0 then 0 else 1)
           in FNum (s \<noteq> t) (2 * q + st) (e - f - int k - 1))"

definition d_add :: "double \<Rightarrow> double \<Rightarrow> double" where
  "d_add a b = encode64 (fp_add (decode64 a) (decode64 b))"

definition d_sub :: "double \<Rightarrow> double \<Rightarrow> double" where
  "d_sub a b = encode64 (fp_add (decode64 a) (fp_uminus (decode64 b)))"

definition d_mul :: "double \<Rightarrow> double \<Rightarrow> double" where
  "d_mul a b = encode64 (fp_mul (decode64 a) (decode64 b))"

definition d_div :: "double \<Rightarrow> double \<Rightarrow> double" where
  "d_div a b = encode64 (fp_div (decode64 a) (decode64 b))"

text \<open>
  \<open>lround\<close> of math.h with a 64-bit \<open>long\<close>: to the nearest integer, halves away from zero;
  the result for a NaN, an infinity or a value no \<open>long\<close> holds is unspecified.
\<close>

fun fp_lround :: "fp \<Rightarrow> int res" where
  "fp_lround FNaN = Inl Unspecified"
| "fp_lround (FInf s) = Inl Unspecified"
| "fp_lround (FNum s m e) =
     (let a = (if 0 \<le> e then m * 2 ^ nat e
               else (m + 2 ^ (nat (- e) - 1)) div 2 ^ nat (- e));
          v = fp_sgn s * int a
      in if - (2 ^ 63) \<le> v \<and> v < 2 ^ 63 then Inr v else Inl Unspecified)"

definition lround :: "double \<Rightarrow> int res" where
  "lround d = fp_lround (decode64 d)"

definition d_zero :: double where "d_zero = 0"
definition d_one :: double where "d_one = 0x3FF0000000000000"
definition FLT_MAX :: double where "FLT_MAX = 0x47EFFFFFE0000000"
definition minus_FLT_MAX :: double where "minus_FLT_MAX = 0xC7EFFFFFE0000000"
definition DBL_MAX :: double where "DBL_MAX = 0x7FEFFFFFFFFFFFFF"
definition minus_DBL_MAX :: double where "minus_DBL_MAX = 0xFFEFFFFFFFFFFFFF"

section \<open>The comparison\<close>

lemma d_lt_irrefl [simp]: "\<not> d_lt a a"
  by (simp add: d_lt_def)

lemma d_lt_asym: "d_lt a b \<Longrightarrow> \<not> d_lt b a"
  by (simp add: d_lt_def)

lemma d_lt_trans: "d_lt a b \<Longrightarrow> d_lt b c \<Longrightarrow> d_lt a c"
  by (simp add: d_lt_def)

lemma d_lt_linear: "\<not> d_isnan a \<Longrightarrow> \<not> d_isnan b \<Longrightarrow> d_lt a b \<or> d_eq a b \<or> d_lt b a"
  by (auto simp: d_lt_def d_eq_def)

lemma d_not_lt_trans:
  "\<not> d_isnan b \<Longrightarrow> \<not> d_lt b a \<Longrightarrow> \<not> d_lt c b \<Longrightarrow> \<not> d_lt c a"
  by (auto simp: d_lt_def)

section \<open>Magnitudes and values\<close>

text \<open>The value of a finite magnitude, in units of the smallest positive number of the format.\<close>

definition mag_units :: "nat \<Rightarrow> nat \<Rightarrow> nat" where
  "mag_units p mag = (let be = mag div 2 ^ (p - 1); fr = mag mod 2 ^ (p - 1)
     in if be = 0 then fr else (2 ^ (p - 1) + fr) * 2 ^ (be - 1))"

lemma mag_units_split:
  "fr < 2 ^ (p - 1) \<Longrightarrow> mag_units p (be * 2 ^ (p - 1) + fr) =
     (if be = 0 then fr else (2 ^ (p - 1) + fr) * 2 ^ (be - 1))"
  by (simp add: mag_units_def)

lemma mag_units_Suc: "mag_units p mag < mag_units p (Suc mag)"
proof -
  let ?P = "2 ^ (p - 1) :: nat"
  define be fr where "be = mag div ?P" and "fr = mag mod ?P"
  have m: "mag = be * ?P + fr" unfolding be_def fr_def by (rule div_mult_mod_eq [symmetric])
  have fr: "fr < ?P" by (simp add: fr_def)
  show ?thesis
  proof (cases "Suc fr < ?P")
    case True
    have "Suc mag = be * ?P + Suc fr" by (simp add: m)
    then show ?thesis
      using mag_units_split [OF True, of be] mag_units_split [OF fr, of be]
      by (simp only: m) (auto intro: mult_strict_right_mono)
  next
    case False
    then have "Suc mag = Suc be * ?P + 0" using fr by (simp add: m)
    then have "mag_units p (Suc mag) = ?P * 2 ^ be"
      using mag_units_split [of 0 p "Suc be"] by simp
    moreover have "mag_units p mag < ?P * 2 ^ be"
    proof (cases be)
      case 0
      then show ?thesis using fr mag_units_split [OF fr, of be] by (simp add: m)
    next
      case (Suc b)
      have "(?P + fr) * 2 ^ b < (2 * ?P) * 2 ^ b" using fr by (intro mult_strict_right_mono) auto
      then show ?thesis using Suc mag_units_split [OF fr, of be] by (simp add: m mult.commute mult.left_commute)
    qed
    ultimately show ?thesis by simp
  qed
qed

lemma mag_units_mono: "strict_mono (mag_units p)"
  by (rule strict_mono_Suc_iff [THEN iffD2]) (simp add: mag_units_Suc)

lemma mag_units_less_iff: "mag_units p a < mag_units p b \<longleftrightarrow> a < b"
  by (rule strict_mono_less [OF mag_units_mono])

lemma mag_units_eq_iff: "mag_units p a = mag_units p b \<longleftrightarrow> a = b"
  by (rule strict_mono_eq [OF mag_units_mono])

lemma bitlen_0 [simp]: "bitlen 0 = 0"
  by (simp add: bitlen.simps)

lemma bitlen_bounds: "0 < n \<Longrightarrow> 2 ^ (bitlen n - 1) \<le> n \<and> n < 2 ^ bitlen n \<and> 0 < bitlen n"
proof (induction n rule: bitlen.induct)
  case (1 n)
  show ?case
  proof (cases "n div 2 = 0")
    case True
    then have "n = 1" using "1.prems" by linarith
    then show ?thesis by (simp add: bitlen.simps)
  next
    case False
    then have IH: "2 ^ (bitlen (n div 2) - 1) \<le> n div 2 \<and> n div 2 < 2 ^ bitlen (n div 2) \<and> 0 < bitlen (n div 2)"
      using "1.IH" "1.prems" by simp
    have b: "bitlen n = Suc (bitlen (n div 2))" using "1.prems" by (simp add: bitlen.simps [of n])
    obtain k where k: "bitlen (n div 2) = Suc k" using IH by (cases "bitlen (n div 2)") auto
    then have "2 ^ k \<le> n div 2" "n div 2 < 2 * 2 ^ k" using IH by simp_all
    then have "2 * 2 ^ k \<le> n" "n < 2 * (2 * 2 ^ k)" by arith+
    then show ?thesis by (simp add: b k)
  qed
qed

lemma bitlen_le_iff: "bitlen n \<le> k \<longleftrightarrow> n < 2 ^ k"
proof (cases "n = 0")
  case False
  then have b: "2 ^ (bitlen n - 1) \<le> n" "n < 2 ^ bitlen n" "0 < bitlen n" using bitlen_bounds by auto
  show ?thesis
  proof
    assume "bitlen n \<le> k"
    then have "(2::nat) ^ bitlen n \<le> 2 ^ k" by (rule power_increasing) simp
    with b(2) show "n < 2 ^ k" by (rule less_le_trans)
  next
    assume "n < 2 ^ k"
    with b(1) have "(2::nat) ^ (bitlen n - 1) < 2 ^ k" by (rule le_less_trans)
    then have "bitlen n - 1 < k" by simp
    then show "bitlen n \<le> k" by simp
  qed
qed simp

lemma bitlen_shift: "0 < n \<Longrightarrow> bitlen (n * 2 ^ k) = bitlen n + k"
proof -
  assume n: "0 < n"
  have b: "2 ^ (bitlen n - 1) \<le> n" "n < 2 ^ bitlen n" "0 < bitlen n" using bitlen_bounds [OF n] by auto
  have "bitlen (n * 2 ^ k) \<le> bitlen n + k" using b(2) by (simp add: bitlen_le_iff power_add)
  moreover have "\<not> bitlen (n * 2 ^ k) \<le> bitlen n - 1 + k"
    using b(1) by (simp add: bitlen_le_iff power_add)
  ultimately show ?thesis using b(3) by simp
qed

lemma mag_units_small:
  assumes "q < 2 * 2 ^ (p - 1)" "j = 0 \<or> 2 ^ (p - 1) \<le> q"
  shows "mag_units p (q + j * 2 ^ (p - 1)) = q * 2 ^ j"
proof -
  let ?P = "2 ^ (p - 1) :: nat"
  show ?thesis
  proof (cases "q < ?P")
    case True
    with assms(2) have "j = 0" by simp
    then show ?thesis using mag_units_split [OF True, of 0] by simp
  next
    case False
    then have e: "q + j * ?P = Suc j * ?P + (q - ?P)" by simp
    have "q - ?P < ?P" using assms(1) False by simp
    then show ?thesis
      using mag_units_split [of "q - ?P" p "Suc j"] False by (simp only: e) simp
  qed
qed

text \<open>A number that the format holds exactly is encoded without rounding.\<close>

lemma round_mag_exact:
  assumes p: "0 < p" and m: "0 < m" "bitlen m \<le> p" and e: "emin p w \<le> e"
    and top: "e + int (bitlen m) - int p - emin p w \<le> 2 ^ w - 3" and w: "2 \<le> w"
  shows "mag_units p (round_mag p w m e) = m * 2 ^ nat (e - emin p w)"
    and "round_mag p w m e < inf_mag p w"
proof -
  let ?P = "2 ^ (p - 1) :: nat"
  define e' where "e' = max (e + int (bitlen m) - int p) (emin p w)"
  define q where "q = m * 2 ^ nat (e - e')"
  define j where "j = nat (e' - emin p w)"
  have le: "e' \<le> e" using m(2) e by (simp add: e'_def)
  have PP: "2 * ?P = 2 ^ p" using p by (cases p) auto
  have bq: "bitlen q = bitlen m + nat (e - e')" using bitlen_shift [OF m(1)] by (simp add: q_def)
  have "bitlen q \<le> p" using le unfolding bq e'_def by (simp add: max_def split: if_splits) 
  then have q2: "q < 2 * ?P" unfolding PP by (simp add: bitlen_le_iff)
  have j2: "j = 0 \<or> ?P \<le> q"
  proof (cases "e + int (bitlen m) - int p \<le> emin p w")
    case True
    then show ?thesis by (simp add: j_def e'_def)
  next
    case False
    then have "bitlen q = p" using m(2) unfolding bq e'_def by simp
    moreover have "0 < q" using m(1) by (simp add: q_def)
    ultimately show ?thesis using bitlen_bounds [of q] by simp
  qed
  have jb: "int j \<le> 2 ^ w - 3" using top w
    by (auto simp: j_def e'_def max_def intro: order_trans [of _ "4 - 3"] dest: power_increasing [of 2 w "2::int"])
  have "q + j * ?P < inf_mag p w"
  proof -
    have w4: "(4::nat) \<le> 2 ^ w" using w power_increasing [of 2 w "2::nat"] by simp
    have "int j + 3 \<le> 2 ^ w" using jb by simp
    then have "j + 3 \<le> 2 ^ w" by (metis (mono_tags) numeral_power_eq_of_nat_cancel_iff of_nat_add of_nat_le_iff of_nat_numeral of_nat_power)
    then have "j + 2 \<le> 2 ^ w - 1" by simp
    then have "(j + 2) * ?P \<le> inf_mag p w" unfolding inf_mag_def by (rule mult_le_mono1)
    moreover have "q + j * ?P < (j + 2) * ?P" using q2 by (simp add: algebra_simps)
    ultimately show ?thesis by simp
  qed
  then have r: "round_mag p w m e = q + j * ?P"
    using m(1) le by (simp add: round_mag_def Let_def e'_def [symmetric] q_def [symmetric] j_def [symmetric])
  show "round_mag p w m e < inf_mag p w" using \<open>q + j * ?P < inf_mag p w\<close> by (simp add: r)
  have "emin p w \<le> e'" by (simp add: e'_def)
  then have "nat (e - emin p w) = nat (e - e') + j"
    using le unfolding j_def by linarith
  then show "mag_units p (round_mag p w m e) = m * 2 ^ nat (e - emin p w)"
    using mag_units_small [OF q2 j2] by (simp add: r q_def power_add mult.assoc)
qed

lemma decode_mag_FNum:
  assumes p: "0 < p" and mag: "mag < inf_mag p w"
  obtains m e where "decode_mag p w s mag = FNum s m e"
    and "m * 2 ^ nat (e - emin p w) = mag_units p mag" and "emin p w \<le> e" and "m < 2 ^ p"
    and "e \<le> emin p w + 2 ^ w - 3 \<or> e = emin p w" and "e = emin p w \<or> 2 ^ (p - 1) \<le> m"
proof -
  let ?P = "2 ^ (p - 1) :: nat"
  define be fr where "be = mag div ?P" and "fr = mag mod ?P"
  have PP: "2 * ?P = 2 ^ p" using p by (cases p) auto
  have fr: "fr < ?P" by (simp add: fr_def)
  have be: "be < 2 ^ w - 1"
    using mag unfolding inf_mag_def be_def by (simp add: less_mult_imp_div_less)
  show thesis
  proof (cases "be = 0")
    case True
    then have "decode_mag p w s mag = FNum s fr (emin p w)" "mag_units p mag = fr"
      using mag by (simp_all add: decode_mag_def mag_units_def be_def fr_def Let_def)
    moreover have "fr < 2 ^ p" using fr PP by linarith
    ultimately show thesis using that [of fr "emin p w"] by simp
  next
    case False
    have d: "decode_mag p w s mag = FNum s (?P + fr) (emin p w + int be - 1)"
      using mag False by (simp add: decode_mag_def be_def fr_def Let_def)
    have u: "mag_units p mag = (?P + fr) * 2 ^ (be - 1)"
      using False by (simp add: mag_units_def be_def fr_def Let_def)
    have n: "nat (emin p w + int be - 1 - emin p w) = be - 1" using False by linarith
    have "be + 2 \<le> 2 ^ w" using be by linarith
    then have "int be + 2 \<le> 2 ^ w"
      by (metis (mono_tags) numeral_power_eq_of_nat_cancel_iff of_nat_add of_nat_le_iff of_nat_numeral of_nat_power)
    moreover have "?P + fr < 2 ^ p" using fr PP by linarith
    moreover have "emin p w \<le> emin p w + int be - 1" using False by linarith
    ultimately show thesis using that [OF d] u n by simp
  qed
qed

lemma round_mag_decode:
  assumes p: "0 < p" "2 \<le> w" and mag: "mag < inf_mag p w" "mag \<noteq> 0"
    and d: "decode_mag p w s mag = FNum s m e"
  shows "round_mag p w m e = mag"
proof -
  obtain m' e' where de: "decode_mag p w s mag = FNum s m' e'"
    and u: "m' * 2 ^ nat (e' - emin p w) = mag_units p mag" and e: "emin p w \<le> e'" and m: "m' < 2 ^ p"
    and eb: "e' \<le> emin p w + 2 ^ w - 3 \<or> e' = emin p w" and mb: "e' = emin p w \<or> 2 ^ (p - 1) \<le> m'"
    using decode_mag_FNum [OF p(1) mag(1), of s] by blast
  from de d have [simp]: "m' = m" "e' = e" by simp_all
  have "mag_units p 0 < mag_units p mag" using mag(2) by (simp add: mag_units_less_iff)
  then have "0 < m" using u by (cases "m = 0") auto
  moreover have bl: "bitlen m \<le> p" using m by (simp add: bitlen_le_iff)
  moreover have "e + int (bitlen m) - int p - emin p w \<le> 2 ^ w - 3"
  proof -
    have "(2::int) ^ 2 \<le> 2 ^ w" using p(2) by (intro power_increasing) auto
    then show ?thesis using eb bl by auto
  qed
  ultimately have "mag_units p (round_mag p w m e) = mag_units p mag"
    using round_mag_exact(1) [OF p(1), of m w e] e u p(2) by simp
  then show ?thesis by (simp add: mag_units_eq_iff)
qed

text \<open>Rounding depends on the value \<open>m * 2 ^ e\<close> only.\<close>

lemma rne_shift_scale: "rne_shift (m * 2 ^ k) (r + k) = rne_shift m r"
proof -
  have d: "m * 2 ^ k div 2 ^ (r + k) = m div 2 ^ r" by (simp add: power_add)
  have m: "m * 2 ^ k mod 2 ^ (r + k) = (m mod 2 ^ r) * 2 ^ k"
    by (simp add: power_add mult_mod_left)
  have a: "2 ^ (r + k) < 2 * ((m mod 2 ^ r) * 2 ^ k) \<longleftrightarrow> 2 ^ r < 2 * (m mod 2 ^ r)"
    by (simp add: power_add mult.assoc [symmetric])
  have b: "2 * ((m mod 2 ^ r) * 2 ^ k) = 2 ^ (r + k) \<longleftrightarrow> 2 * (m mod 2 ^ r) = 2 ^ r"
    by (simp add: power_add mult.assoc [symmetric])
  show ?thesis unfolding rne_shift_def Let_def d m a b ..
qed

lemma rne_shift_exact: "rne_shift (q * 2 ^ r) r = q"
  by (simp add: rne_shift_def)

lemma round_mag_scale:
  "round_mag p w (m * 2 ^ k) (e - int k) = round_mag p w m e"
proof (cases "m = 0")
  case False
  then have bl: "bitlen (m * 2 ^ k) = bitlen m + k" by (simp add: bitlen_shift)
  define e' where "e' = max (e + int (bitlen m) - int p) (emin p w)"
  have e2: "max (e - int k + int (bitlen (m * 2 ^ k)) - int p) (emin p w) = e'"
    by (simp add: bl e'_def)
  let ?q = "if e' \<le> e then m * 2 ^ nat (e - e') else rne_shift m (nat (e' - e))"
  let ?q' = "if e' \<le> e - int k then m * 2 ^ k * 2 ^ nat (e - int k - e')
             else rne_shift (m * 2 ^ k) (nat (e' - (e - int k)))"
  have "?q' = ?q"
  proof (cases "e' \<le> e - int k")
    case True
    then have "nat (e - e') = k + nat (e - int k - e')" by linarith
    then show ?thesis using True by (simp add: power_add)
  next
    case nle: False
    show ?thesis
    proof (cases "e' \<le> e")
      case True
      define r where "r = nat (e' - (e - int k))"
      have k: "k = nat (e - e') + r" using True nle by (simp add: r_def)
      have "m * 2 ^ k = (m * 2 ^ nat (e - e')) * 2 ^ r" unfolding k power_add by simp
      then have "rne_shift (m * 2 ^ k) r = m * 2 ^ nat (e - e')" by (simp only: rne_shift_exact)
      then show ?thesis using True nle by (simp add: r_def)
    next
      case False
      then have "nat (e' - (e - int k)) = nat (e' - e) + k" by linarith
      then show ?thesis using False nle by (simp add: rne_shift_scale)
    qed
  qed
  then show ?thesis
    using False unfolding round_mag_def Let_def e2 e'_def [symmetric] by simp
qed (simp add: round_mag_def)

section \<open>Integers and floats as doubles\<close>

lemma format_consts [simp]:
  "emin 53 11 = -1074" "emin 24 8 = -149"
  "inf_mag 53 11 = 0x7FF0000000000000" "inf_mag 24 8 = 0x7F800000"
  by (simp_all add: emin_def inf_mag_def)

lemma unat_sign64: "mag < 2 ^ 63 \<Longrightarrow>
   unat (word_of_nat ((if s then 2 ^ 63 else 0) + mag) :: double) = (if s then 2 ^ 63 else 0) + mag"
  unfolding unat_of_nat by simp

lemma unat_sign32: "mag < 2 ^ 31 \<Longrightarrow>
   unat (word_of_nat ((if s then 2 ^ 31 else 0) + mag) :: float32) = (if s then 2 ^ 31 else 0) + mag"
  unfolding unat_of_nat by simp

lemma round_mag_le_inf: "round_mag p w m e \<le> inf_mag p w"
  by (simp add: round_mag_def Let_def)

lemma d_fields_encode64:
  "d_mag (encode64 (FNum s m e)) = round_mag 53 11 m e" "d_neg (encode64 (FNum s m e)) = s"
proof -
  have "round_mag 53 11 m e \<le> 0x7FF0000000000000" using round_mag_le_inf [of 53 11 m e] by simp
  then have lt: "round_mag 53 11 m e < 2 ^ 63" by simp
  then show "d_mag (encode64 (FNum s m e)) = round_mag 53 11 m e"
    unfolding d_mag_def encode64.simps unat_sign64 [OF lt] by simp
  show "d_neg (encode64 (FNum s m e)) = s"
    using lt unfolding d_neg_def encode64.simps unat_sign64 [OF lt] by simp
qed

lemma round_mag_int:
  assumes "0 < n" "n \<le> 2 ^ 53"
  shows "mag_units 53 (round_mag 53 11 n 0) = n * 2 ^ 1074" "round_mag 53 11 n 0 < inf_mag 53 11"
proof -
  obtain n' k where n': "n = n' * 2 ^ k" "0 < n'" "bitlen n' \<le> 53" "k \<le> 1"
  proof (cases "n = 2 ^ 53")
    case True
    show thesis by (rule that [of "2 ^ 52" 1]) (simp_all add: True bitlen_le_iff)
  next
    case False
    show thesis by (rule that [of n 0]) (use False assms in \<open>simp_all add: bitlen_le_iff\<close>)
  qed
  have r: "round_mag 53 11 n 0 = round_mag 53 11 n' (int k)"
    using round_mag_scale [of 53 11 n' k "int k"] by (simp add: n'(1))
  have "int k + int (bitlen n') - int 53 - emin 53 11 \<le> 2 ^ 11 - 3" using n' by simp
  note ex = round_mag_exact [OF _ n'(2,3) _ this]
  show "round_mag 53 11 n 0 < inf_mag 53 11" unfolding r by (rule ex(2)) simp_all
  have "mag_units 53 (round_mag 53 11 n' (int k)) = n' * 2 ^ nat (int k - emin 53 11)"
    by (rule ex(1)) simp_all
  also have "nat (int k - emin 53 11) = k + 1074" by (simp add: nat_add_distrib)
  also have "n' * 2 ^ (k + 1074) = n * 2 ^ 1074" by (simp only: n'(1) power_add mult.assoc)
  finally show "mag_units 53 (round_mag 53 11 n 0) = n * 2 ^ 1074" by (simp only: r)
qed

lemma round_mag_0 [simp]: "round_mag p w 0 e = 0"
  by (simp add: round_mag_def)

definition exact_int :: "int \<Rightarrow> bool" where
  "exact_int i = (\<bar>i\<bar> \<le> 2 ^ 53)"

lemma d_of_int_fields:
  assumes "exact_int i"
  shows "mag_units 53 (d_mag (d_of_int i)) = nat \<bar>i\<bar> * 2 ^ 1074"
    and "d_mag (d_of_int i) < inf_mag 53 11" and "d_neg (d_of_int i) = (i < 0)"
proof -
  show "d_neg (d_of_int i) = (i < 0)" unfolding d_of_int_def by (rule d_fields_encode64)
  have n: "nat \<bar>i\<bar> \<le> 2 ^ 53" using assms by (simp add: exact_int_def)
  have m: "d_mag (d_of_int i) = round_mag 53 11 (nat \<bar>i\<bar>) 0"
    unfolding d_of_int_def by (rule d_fields_encode64)
  show "mag_units 53 (d_mag (d_of_int i)) = nat \<bar>i\<bar> * 2 ^ 1074"
    and "d_mag (d_of_int i) < inf_mag 53 11"
  proof (atomize (full), cases "i = 0")
    case True
    then have z: "d_mag (d_of_int i) = 0" unfolding m by simp
    show "mag_units 53 (d_mag (d_of_int i)) = nat \<bar>i\<bar> * 2 ^ 1074 \<and> d_mag (d_of_int i) < inf_mag 53 11"
      unfolding z by (simp add: mag_units_def True)
  next
    case False
    then have "0 < nat \<bar>i\<bar>" by simp
    from round_mag_int [OF this n]
    show "mag_units 53 (d_mag (d_of_int i)) = nat \<bar>i\<bar> * 2 ^ 1074 \<and> d_mag (d_of_int i) < inf_mag 53 11"
      unfolding m by blast
  qed
qed

lemma d_of_int_not_nan: "exact_int i \<Longrightarrow> \<not> d_isnan (d_of_int i)"
  using d_of_int_fields(2) by (fastforce simp: d_isnan_def)

lemma d_key_of_int_less:
  assumes "exact_int i" "exact_int j"
  shows "d_key (d_of_int i) < d_key (d_of_int j) \<longleftrightarrow> i < j"
proof -
  have mag: "d_mag (d_of_int a) < d_mag (d_of_int b) \<longleftrightarrow> \<bar>a\<bar> < \<bar>b\<bar>"
    if "exact_int a" "exact_int b" for a b
  proof -
    have "d_mag (d_of_int a) < d_mag (d_of_int b) \<longleftrightarrow>
        nat \<bar>a\<bar> * 2 ^ 1074 < nat \<bar>b\<bar> * (2 ^ 1074 :: nat)"
      using mag_units_less_iff [of 53 "d_mag (d_of_int a)" "d_mag (d_of_int b)"]
      by (simp only: d_of_int_fields(1) [OF that(1)] d_of_int_fields(1) [OF that(2)])
    also have "\<dots> \<longleftrightarrow> \<bar>a\<bar> < \<bar>b\<bar>" by (simp only: mult_less_cancel2) auto
    finally show ?thesis .
  qed
  have z: "d_mag (d_of_int 0) = 0" by (simp add: d_of_int_def d_fields_encode64 del: encode64.simps)
  have pos: "0 < d_mag (d_of_int a) \<longleftrightarrow> a \<noteq> 0" if "exact_int a" for a
    using mag [of 0 a] that by (simp add: z exact_int_def)
  show ?thesis
    using mag [OF assms] mag [OF assms(2,1)] pos [OF assms(1)] pos [OF assms(2)]
    unfolding d_key_def d_of_int_fields(3) [OF assms(1)] d_of_int_fields(3) [OF assms(2)]
    by (cases "i < 0"; cases "j < 0") auto
qed

lemma d_lt_of_int [simp]:
  "exact_int i \<Longrightarrow> exact_int j \<Longrightarrow> d_lt (d_of_int i) (d_of_int j) \<longleftrightarrow> i < j"
  by (simp add: d_lt_def d_of_int_not_nan d_key_of_int_less)

lemma d_eq_of_int [simp]:
  "exact_int i \<Longrightarrow> exact_int j \<Longrightarrow> d_eq (d_of_int i) (d_of_int j) \<longleftrightarrow> i = j"
  using d_key_of_int_less [of i j] d_key_of_int_less [of j i]
  by (auto simp: d_eq_def d_of_int_not_nan)

lemma fp_lround_int:
  assumes u: "m * 2 ^ nat (e + 1074) = nat \<bar>i\<bar> * 2 ^ 1074" and e: "-1074 \<le> e" and i: "exact_int i"
  shows "fp_lround (FNum (i < 0) m e) = Inr i"
proof -
  have a: "(if 0 \<le> e then m * 2 ^ nat e else (m + 2 ^ (nat (- e) - 1)) div 2 ^ nat (- e)) = nat \<bar>i\<bar>"
  proof (cases "0 \<le> e")
    case True
    then have "nat (e + 1074) = nat e + 1074" by (simp add: nat_add_distrib)
    then have "(m * 2 ^ nat e) * 2 ^ 1074 = nat \<bar>i\<bar> * 2 ^ 1074"
      using u by (simp only: power_add mult.assoc)
    then have "m * 2 ^ nat e = nat \<bar>i\<bar>" by (simp only: mult_cancel2) simp
    then show ?thesis using True by simp
  next
    case False
    define k where "k = nat (- e)"
    have k: "0 < k" "nat (e + 1074) + k = 1074" using False e by (simp_all add: k_def)
    have "(m * 2 ^ nat (e + 1074)) = (nat \<bar>i\<bar> * 2 ^ k) * 2 ^ nat (e + 1074)"
      unfolding u by (subst k(2) [symmetric]) (simp add: power_add)
    then have m: "m = nat \<bar>i\<bar> * 2 ^ k" by (simp only: mult_cancel2) simp
    have "(m + 2 ^ (k - 1)) div 2 ^ k = nat \<bar>i\<bar>"
    proof (rule div_nat_eqI)
      show "2 ^ k * nat \<bar>i\<bar> \<le> m + 2 ^ (k - 1)" by (simp add: m)
      have "(2::nat) ^ (k - 1) < 2 ^ k" using k(1) by (intro power_strict_increasing) auto
      then show "m + 2 ^ (k - 1) < 2 ^ k * Suc (nat \<bar>i\<bar>)" by (simp add: m)
    qed
    then show ?thesis using False by (simp add: k_def)
  qed
  have s: "fp_sgn (i < 0) * int (nat \<bar>i\<bar>) = i" by (auto simp: fp_sgn_def)
  have b: "- (2 ^ 63) \<le> i \<and> i < 2 ^ 63"
  proof -
    have "\<bar>i\<bar> \<le> 9007199254740992" using i by (simp add: exact_int_def)
    then have "-9007199254740992 \<le> i \<and> i \<le> 9007199254740992" by linarith
    then show ?thesis by simp
  qed
  show ?thesis using b by (simp only: fp_lround.simps Let_def a s) simp
qed

lemma decode_of_int:
  assumes "exact_int i"
  obtains m e where "decode64 (d_of_int i) = FNum (i < 0) m e"
    and "m * 2 ^ nat (e + 1074) = nat \<bar>i\<bar> * 2 ^ 1074" and "-1074 \<le> e"
proof -
  note f = d_of_int_fields [OF assms]
  show thesis
  proof (rule decode_mag_FNum [OF _ f(2), of "i < 0"])
    fix m e
    assume d: "decode_mag 53 11 (i < 0) (d_mag (d_of_int i)) = FNum (i < 0) m e"
      and u: "m * 2 ^ nat (e - emin 53 11) = mag_units 53 (d_mag (d_of_int i))"
      and e: "emin 53 11 \<le> e"
    have "m * 2 ^ nat (e + 1074) = nat \<bar>i\<bar> * 2 ^ 1074" using u unfolding f(1) by simp
    moreover have "decode64 (d_of_int i) = FNum (i < 0) m e" by (simp only: decode64_def f(3) d)
    ultimately show thesis using that e by simp
  qed simp
qed

lemma lround_of_int:
  assumes "exact_int i"
  shows "lround (d_of_int i) = Inr i"
  by (rule decode_of_int [OF assms]) (simp only: lround_def fp_lround_int [OF _ _ assms])

lemma d_add_of_int:
  assumes "exact_int i" "exact_int j"
  shows "d_add (d_of_int i) (d_of_int j) = d_of_int (i + j)"
proof -
  obtain m e where d1: "decode64 (d_of_int i) = FNum (i < 0) m e" and e1: "-1074 \<le> e"
    and u1: "m * 2 ^ nat (e + 1074) = nat \<bar>i\<bar> * 2 ^ 1074" by (rule decode_of_int [OF assms(1)])
  obtain n f where d2: "decode64 (d_of_int j) = FNum (j < 0) n f" and e2: "-1074 \<le> f"
    and u2: "n * 2 ^ nat (f + 1074) = nat \<bar>j\<bar> * 2 ^ 1074" by (rule decode_of_int [OF assms(2)])
  have u: "fp_sgn (i < 0) * int m * 2 ^ nat (e + 1074) = i * 2 ^ 1074"
    "fp_sgn (j < 0) * int n * 2 ^ nat (f + 1074) = j * 2 ^ 1074"
    using arg_cong [OF u1, of int] arg_cong [OF u2, of int]
    by (auto simp: fp_sgn_def abs_if mult.assoc)
  note d = d1 d2 and e = e1 e2
  define g where "g = min e f"
  define v where "v = fp_sgn (i < 0) * int m * 2 ^ nat (e - g) + fp_sgn (j < 0) * int n * 2 ^ nat (f - g)"
  have ng: "nat (e + 1074) = nat (e - g) + nat (g + 1074)" "nat (f + 1074) = nat (f - g) + nat (g + 1074)"
    using e by (simp_all add: g_def nat_add_distrib [symmetric] min_def)
  have v: "v * 2 ^ nat (g + 1074) = (i + j) * 2 ^ 1074"
    using u unfolding ng by (simp only: v_def distrib_right power_add mult.assoc)
  have p: "(0 :: int) < 2 ^ nat (g + 1074)" by simp
  have sg: "v = 0 \<longleftrightarrow> i + j = 0" "v < 0 \<longleftrightarrow> i + j < 0"
    using v p by (metis mult_eq_0_iff power_not_zero zero_neq_numeral, metis mult_less_0_iff not_less_iff_gr_or_eq zero_less_numeral zero_less_power)
  have mg: "nat \<bar>v\<bar> * 2 ^ nat (g + 1074) = nat \<bar>i + j\<bar> * 2 ^ 1074"
  proof -
    have "\<bar>v\<bar> * 2 ^ nat (g + 1074) = \<bar>i + j\<bar> * 2 ^ 1074"
      using arg_cong [OF v, of abs] by (simp only: abs_mult) simp
    then have "int (nat \<bar>v\<bar> * 2 ^ nat (g + 1074)) = int (nat \<bar>i + j\<bar> * 2 ^ 1074)" by simp
    then show ?thesis by (simp only: of_nat_eq_iff)
  qed
  have g: "g - int (nat (g + 1074)) = -1074" using e by (auto simp: g_def min_def)
  have "round_mag 53 11 (nat \<bar>v\<bar>) g = round_mag 53 11 (nat \<bar>v\<bar> * 2 ^ nat (g + 1074)) (-1074)"
    using round_mag_scale [of 53 11 "nat \<bar>v\<bar>" "nat (g + 1074)" g] g by simp
  also have "\<dots> = round_mag 53 11 (nat \<bar>i + j\<bar>) 0"
    unfolding mg using round_mag_scale [of 53 11 "nat \<bar>i + j\<bar>" 1074 0] by simp
  finally have r: "round_mag 53 11 (nat \<bar>v\<bar>) g = round_mag 53 11 (nat \<bar>i + j\<bar>) 0" .
  have "fp_add (FNum (i < 0) m e) (FNum (j < 0) n f) =
      (if v = 0 then FNum (i < 0 \<and> j < 0) 0 0 else FNum (v < 0) (nat \<bar>v\<bar>) g)"
    by (simp add: v_def g_def Let_def)
  then have "d_add (d_of_int i) (d_of_int j) =
      encode64 (if v = 0 then FNum (i < 0 \<and> j < 0) 0 0 else FNum (v < 0) (nat \<bar>v\<bar>) g)"
    by (simp only: d_add_def d)
  also have "\<dots> = encode64 (FNum (i + j < 0) (nat \<bar>i + j\<bar>) 0)" using r sg by auto
  finally show ?thesis by (simp only: d_of_int_def)
qed
definition float_isnan :: "float32 \<Rightarrow> bool" where
  "float_isnan f = (inf_mag 24 8 < unat f mod 2 ^ 31)"

lemma float_split: "unat (f :: float32) = (if 2 ^ 31 \<le> unat f then 2 ^ 31 else 0) + unat f mod 2 ^ 31"
proof -
  have "unat f < 2 ^ LENGTH(32)" by (rule unsigned_less)
  then have "unat f < 2 * 2 ^ 31" by simp
  then show ?thesis by (auto simp: mod_if)
qed

text \<open>A float survives the trip through double, every finite value and the infinities.\<close>

lemma decode64_encode64_exact:
  assumes m: "0 < m" "bitlen m \<le> 53" and e: "-1074 \<le> e" "e + int (bitlen m) \<le> 1024"
  obtains m' k where "decode64 (encode64 (FNum s m e)) = FNum s (m * 2 ^ k) (e - int k)"
    | m' k where "decode64 (encode64 (FNum s m e)) = FNum s m' (e + int k)" "m = m' * 2 ^ k"
proof -
  have top: "e + int (bitlen m) - int 53 - emin 53 11 \<le> 2 ^ 11 - 3" using e by simp
  have ex: "mag_units 53 (round_mag 53 11 m e) = m * 2 ^ nat (e + 1074)"
    "round_mag 53 11 m e < inf_mag 53 11"
    using round_mag_exact [OF _ m _ top] e by simp_all
  have dd: "decode64 (encode64 (FNum s m e)) = decode_mag 53 11 s (round_mag 53 11 m e)"
    by (simp only: decode64_def d_fields_encode64)
  obtain m' e' where d: "decode_mag 53 11 s (round_mag 53 11 m e) = FNum s m' e'"
    and u: "m' * 2 ^ nat (e' + 1074) = m * 2 ^ nat (e + 1074)" and e': "-1074 \<le> e'"
    by (rule decode_mag_FNum [OF _ ex(2), of s]) (use ex(1) in auto)
  show thesis
  proof (cases "e' \<le> e")
    case True
    define k where "k = nat (e - e')"
    have "nat (e + 1074) = k + nat (e' + 1074)" using True e' by (simp add: k_def)
    then have "m' * 2 ^ nat (e' + 1074) = (m * 2 ^ k) * 2 ^ nat (e' + 1074)"
      by (simp only: u power_add mult.assoc)
    then have "m' = m * 2 ^ k" by (simp only: mult_cancel2) simp
    moreover have "e' = e - int k" using True by (simp add: k_def)
    ultimately show thesis using that(1) [of k] dd d by simp
  next
    case False
    define k where "k = nat (e' - e)"
    have "nat (e' + 1074) = k + nat (e + 1074)" using False e by (simp add: k_def)
    then have "m * 2 ^ nat (e + 1074) = (m' * 2 ^ k) * 2 ^ nat (e + 1074)"
      by (simp only: u [symmetric] power_add mult.assoc)
    then have "m = m' * 2 ^ k" by (simp only: mult_cancel2) simp
    moreover have "e' = e + int k" using False by (simp add: k_def)
    ultimately show thesis using that(2) [of m' k] dd d by simp
  qed
qed

lemma float_of_d_of_float:
  assumes "\<not> float_isnan f"
  shows "float_of_d (d_of_float f) = f"
proof -
  let ?s = "2 ^ 31 \<le> unat f" and ?mag = "unat f mod 2 ^ 31"
  have f: "word_of_nat ((if ?s then 2 ^ 31 else 0) + ?mag) = f"
    unfolding float_split [of f, symmetric] by simp
  have le: "?mag \<le> inf_mag 24 8" using assms unfolding float_isnan_def by (rule leI)
  consider (inf) "?mag = inf_mag 24 8" | (zero) "?mag = 0" | (num) "?mag < inf_mag 24 8" "0 < ?mag"
    using le by (metis gr0I le_neq_implies_less)
  then show ?thesis
  proof cases
    case inf
    have "decode32 f = FInf ?s" unfolding decode32_def decode_mag_def inf by simp
    moreover have "decode64 (encode64 (FInf s)) = FInf s" for s
      by (cases s) (simp_all add: decode64_def decode_mag_def d_neg_def d_mag_def)
    ultimately show ?thesis using f inf
      by (auto simp: float_of_d_def d_of_float_def split: if_splits)
  next
    case zero
    have "decode32 f = FNum ?s 0 (emin 24 8)" unfolding decode32_def decode_mag_def zero by simp
    moreover have "decode64 (encode64 (FNum s 0 e)) = FNum s 0 (-1074)" for s e
      unfolding decode64_def d_fields_encode64 by (simp add: decode_mag_def)
    ultimately show ?thesis using f zero
      by (simp add: float_of_d_def d_of_float_def del: encode64.simps)
  next
    case num
    obtain m e where d: "decode_mag 24 8 ?s ?mag = FNum ?s m e"
      and u: "m * 2 ^ nat (e - emin 24 8) = mag_units 24 ?mag" and e: "emin 24 8 \<le> e"
      and m: "m < 2 ^ 24" and eb: "e \<le> emin 24 8 + 2 ^ 8 - 3 \<or> e = emin 24 8"
      by (rule decode_mag_FNum [OF _ num(1), of ?s]) auto
    have "mag_units 24 0 < mag_units 24 ?mag" using num(2) by (simp only: mag_units_less_iff)
    then have m0: "0 < m" using u by (cases "m = 0") auto
    have bl: "bitlen m \<le> 24" unfolding bitlen_le_iff by (rule m)
    have eb: "-1074 \<le> e" "e + int (bitlen m) \<le> 1024" using e eb bl by auto
    have c: "\<exists>m' e'. decode64 (encode64 (FNum ?s m e)) = FNum ?s m' e'
        \<and> round_mag 24 8 m' e' = round_mag 24 8 m e"
    proof (rule decode64_encode64_exact [OF m0 _ eb, of ?s])
      show "bitlen m \<le> 53" using bl by simp
    next
      fix k assume "decode64 (encode64 (FNum ?s m e)) = FNum ?s (m * 2 ^ k) (e - int k)"
      then show ?thesis using round_mag_scale [of 24 8 m k e] by blast
    next
      fix m' k assume "decode64 (encode64 (FNum ?s m e)) = FNum ?s m' (e + int k)" "m = m' * 2 ^ k"
      then show ?thesis using round_mag_scale [of 24 8 m' k "e + int k"] by auto
    qed
    have "round_mag 24 8 m e = ?mag" by (rule round_mag_decode [OF _ _ num(1) _ d]) (use num in simp_all)
    moreover obtain m' e' where "decode64 (encode64 (FNum ?s m e)) = FNum ?s m' e'"
      "round_mag 24 8 m' e' = round_mag 24 8 m e" using c by blast
    moreover have "decode32 f = FNum ?s m e" unfolding decode32_def by (rule d)
    ultimately have "float_of_d (d_of_float f) = word_of_nat ((if ?s then 2 ^ 31 else 0) + ?mag)"
      by (simp only: float_of_d_def d_of_float_def encode32.simps)
    then show ?thesis using f by simp
  qed
qed

text \<open>The definitions that evaluate closed floating point terms by simplification.\<close>

lemmas fp_eval =
  d_add_def d_sub_def d_mul_def d_div_def lround_def d_of_int_def d_of_float_def float_of_d_def
  d_lt_def d_eq_def d_key_def d_isnan_def decode64_def decode32_def decode_mag_def d_neg_def
  d_mag_def round_mag_def rne_shift_def fp_sgn_def bitlen.simps Let_def

end
