(* ===== verification/PC_Val.thy ===== *)
theory PC_Val
  imports PC_Double
begin

text \<open>
  lib/pc_val.c and the dimension record of lib/pc_api.h: the interpretations of a dimension, the
  conversion of a stored value to \<open>double\<close> and back, and the scale and offset of a dimension.
  The lemmas show that a value that a \<open>double\<close> holds exactly is written back unchanged, and that
  a value out of range is clamped to the nearest bound of the type.
\<close>

section \<open>Dimensions and interpretations\<close>

abbreviation (input) "PC_UNKNOWN \<equiv> 0 :: nat"
abbreviation (input) "PC_INT8 \<equiv> 1 :: nat"
abbreviation (input) "PC_UINT8 \<equiv> 2 :: nat"
abbreviation (input) "PC_INT16 \<equiv> 3 :: nat"
abbreviation (input) "PC_UINT16 \<equiv> 4 :: nat"
abbreviation (input) "PC_INT32 \<equiv> 5 :: nat"
abbreviation (input) "PC_UINT32 \<equiv> 6 :: nat"
abbreviation (input) "PC_INT64 \<equiv> 7 :: nat"
abbreviation (input) "PC_UINT64 \<equiv> 8 :: nat"
abbreviation (input) "PC_DOUBLE \<equiv> 9 :: nat"
abbreviation (input) "PC_FLOAT \<equiv> 10 :: nat"
abbreviation (input) "NUM_INTERPRETATIONS \<equiv> 11 :: nat"

abbreviation (input) "PC_TRUE \<equiv> 1 :: nat"
abbreviation (input) "PC_FALSE \<equiv> 0 :: nat"
abbreviation (input) "PC_SUCCESS \<equiv> 1 :: nat"
abbreviation (input) "PC_FAILURE \<equiv> 0 :: nat"

record PCDIMENSION =
  dim_name :: "string option"
  dim_description :: "string option"
  dim_position :: nat
  dim_size :: nat
  dim_byteoffset :: nat
  dim_interpretation :: nat
  dim_scale :: double
  dim_offset :: double
  dim_active :: nat

text \<open>The entry for \<open>PC_UNKNOWN\<close> is \<open>-1\<close> converted to the 64-bit \<open>size_t\<close>.\<close>

definition INTERPRETATION_SIZES :: "nat list" where
  "INTERPRETATION_SIZES = [2 ^ 64 - 1, 1, 1, 2, 2, 4, 4, 8, 8, 8, 4]"

definition pc_interpretation_size :: "nat \<Rightarrow> nat res" where
  "pc_interpretation_size interp =
     (if interp < NUM_INTERPRETATIONS then Inr (INTERPRETATION_SIZES ! interp)
      else Inl (PcError ''pc_interpretation_size: invalid interpretation''))"

text \<open>The width of a known interpretation, for the statements.\<close>

definition isize :: "nat \<Rightarrow> nat" where
  "isize interp = INTERPRETATION_SIZES ! interp"

definition known_interp :: "nat \<Rightarrow> bool" where
  "known_interp interp = (1 \<le> interp \<and> interp \<le> 10)"

lemma known_interp_cases:
  assumes "known_interp t"
  obtains "t = 1" | "t = 2" | "t = 3" | "t = 4" | "t = 5" | "t = 6" | "t = 7" | "t = 8" | "t = 9" | "t = 10"
  using assms unfolding known_interp_def by atomize_elim presburger

lemma isize_simps [simp]:
  "isize (Suc 0) = 1" "isize 2 = 1" "isize 3 = 2" "isize 4 = 2" "isize 5 = 4" "isize 6 = 4" "isize 7 = 8"
  "isize 8 = 8" "isize 9 = 8" "isize 10 = 4"
  by (simp_all add: isize_def INTERPRETATION_SIZES_def)

lemma pc_interpretation_size_known [simp]:
  "known_interp t \<Longrightarrow> pc_interpretation_size t = Inr (isize t)"
  by (simp add: pc_interpretation_size_def isize_def known_interp_def)

lemma isize_pos: "known_interp t \<Longrightarrow> 0 < isize t"
  by (erule known_interp_cases) simp_all

lemma isize_le_8: "known_interp t \<Longrightarrow> isize t \<le> 8"
  by (erule known_interp_cases) simp_all

section \<open>Scale and offset\<close>

definition pc_value_unscale_unoffset :: "double \<Rightarrow> PCDIMENSION \<Rightarrow> double" where
  "pc_value_unscale_unoffset v dim =
     (let v = (if \<not> d_eq (dim_offset dim) d_zero then d_sub v (dim_offset dim) else v)
      in if \<not> d_eq (dim_scale dim) d_one then d_div v (dim_scale dim) else v)"

definition pc_value_scale_offset :: "double \<Rightarrow> PCDIMENSION \<Rightarrow> double" where
  "pc_value_scale_offset v dim =
     (let v = (if \<not> d_eq (dim_scale dim) d_one then d_mul v (dim_scale dim) else v)
      in if \<not> d_eq (dim_offset dim) d_zero then d_add v (dim_offset dim) else v)"

section \<open>Stored values\<close>

definition pc_double_from_ptr :: "byte list \<Rightarrow> nat \<Rightarrow> nat \<Rightarrow> double res" where
  "pc_double_from_ptr buf off interp =
    (if interp = PC_UINT8 then
       bindE (rd buf off 1) (\<lambda>b. Inr (d_of_int (uint (word_of_bytes b :: 8 word))))
     else if interp = PC_UINT16 then
       bindE (rd buf off 2) (\<lambda>b. Inr (d_of_int (uint (word_of_bytes b :: 16 word))))
     else if interp = PC_UINT32 then
       bindE (rd buf off 4) (\<lambda>b. Inr (d_of_int (uint (word_of_bytes b :: 32 word))))
     else if interp = PC_UINT64 then
       bindE (rd buf off 8) (\<lambda>b. Inr (d_of_int (uint (word_of_bytes b :: 64 word))))
     else if interp = PC_INT8 then
       bindE (rd buf off 1) (\<lambda>b. Inr (d_of_int (sint (word_of_bytes b :: 8 word))))
     else if interp = PC_INT16 then
       bindE (rd buf off 2) (\<lambda>b. Inr (d_of_int (sint (word_of_bytes b :: 16 word))))
     else if interp = PC_INT32 then
       bindE (rd buf off 4) (\<lambda>b. Inr (d_of_int (sint (word_of_bytes b :: 32 word))))
     else if interp = PC_INT64 then
       bindE (rd buf off 8) (\<lambda>b. Inr (d_of_int (sint (word_of_bytes b :: 64 word))))
     else if interp = PC_FLOAT then
       bindE (rd buf off 4) (\<lambda>b. Inr (d_of_float (word_of_bytes b)))
     else if interp = PC_DOUBLE then
       bindE (rd buf off 8) (\<lambda>b. Inr (word_of_bytes b))
     else Inl (PcError ''unknown interpretation type %d encountered in pc_double_from_ptr''))"

definition pc_value_from_ptr :: "byte list \<Rightarrow> nat \<Rightarrow> PCDIMENSION \<Rightarrow> double res" where
  "pc_value_from_ptr buf off dim =
     bindE (pc_double_from_ptr buf off (dim_interpretation dim)) (\<lambda>v. Inr (pc_value_scale_offset v dim))"

text \<open>\<open>CLAMP\<close>: the bounds are integer constants, converted to \<open>double\<close> in the comparison.\<close>

definition CLAMP :: "double \<Rightarrow> int \<Rightarrow> int \<Rightarrow> double" where
  "CLAMP v lo hi = (if d_lt (d_of_int hi) v then d_of_int hi
     else if d_lt v (d_of_int lo) then d_of_int lo else v)"

definition pc_double_to_ptr :: "byte list \<Rightarrow> nat \<Rightarrow> nat \<Rightarrow> double \<Rightarrow> byte list res" where
  "pc_double_to_ptr buf off interp v =
    (if interp = PC_UINT8 then
       bindE (lround (CLAMP v 0 255)) (\<lambda>i. wr buf off (bytes_of_word (word_of_int i :: 8 word)))
     else if interp = PC_UINT16 then
       bindE (lround (CLAMP v 0 65535)) (\<lambda>i. wr buf off (bytes_of_word (word_of_int i :: 16 word)))
     else if interp = PC_UINT32 then
       bindE (lround (CLAMP v 0 4294967295)) (\<lambda>i. wr buf off (bytes_of_word (word_of_int i :: 32 word)))
     else if interp = PC_UINT64 then
       bindE (lround (CLAMP v 0 18446744073709551615))
         (\<lambda>i. wr buf off (bytes_of_word (word_of_int i :: 64 word)))
     else if interp = PC_INT8 then
       bindE (lround (CLAMP v (- 128) 127)) (\<lambda>i. wr buf off (bytes_of_word (word_of_int i :: 8 word)))
     else if interp = PC_INT16 then
       bindE (lround (CLAMP v (- 32768) 32767)) (\<lambda>i. wr buf off (bytes_of_word (word_of_int i :: 16 word)))
     else if interp = PC_INT32 then
       bindE (lround (CLAMP v (- 2147483648) 2147483647))
         (\<lambda>i. wr buf off (bytes_of_word (word_of_int i :: 32 word)))
     else if interp = PC_INT64 then
       bindE (lround (CLAMP v (- 9223372036854775808) 9223372036854775807))
         (\<lambda>i. wr buf off (bytes_of_word (word_of_int i :: 64 word)))
     else if interp = PC_FLOAT then
       wr buf off (bytes_of_word (float_of_d v))
     else if interp = PC_DOUBLE then
       wr buf off (bytes_of_word v)
     else Inl (PcError ''unknown interpretation type %d encountered in pc_double_to_ptr''))"

section \<open>Range and exactness\<close>

definition int_interp :: "nat \<Rightarrow> bool" where
  "int_interp t = (1 \<le> t \<and> t \<le> 6)"

definition interp_min :: "nat \<Rightarrow> int" where
  "interp_min t = (if t = PC_INT8 then - 128 else if t = PC_INT16 then - 32768
     else if t = PC_INT32 then - 2147483648 else 0)"

definition interp_max :: "nat \<Rightarrow> int" where
  "interp_max t = (if t = PC_INT8 then 127 else if t = PC_UINT8 then 255
     else if t = PC_INT16 then 32767 else if t = PC_UINT16 then 65535
     else if t = PC_INT32 then 2147483647 else 4294967295)"

text \<open>The stored value is one that the C \<open>double\<close> holds exactly.\<close>

definition val_exact :: "nat \<Rightarrow> byte list \<Rightarrow> bool" where
  "val_exact t bs =
     (if t = PC_INT64 then exact_int (sint (word_of_bytes bs :: 64 word))
      else if t = PC_UINT64 then exact_int (uint (word_of_bytes bs :: 64 word))
      else if t = PC_FLOAT then \<not> float_isnan (word_of_bytes bs)
      else known_interp t)"

lemma CLAMP_of_int:
  "exact_int i \<Longrightarrow> exact_int lo \<Longrightarrow> exact_int hi \<Longrightarrow> lo \<le> hi \<Longrightarrow>
   CLAMP (d_of_int i) lo hi = d_of_int (max lo (min hi i))"
  by (auto simp: CLAMP_def max_def min_def)

lemma lround_CLAMP:
  assumes "exact_int i" "exact_int lo" "exact_int hi" "lo \<le> hi"
  shows "lround (CLAMP (d_of_int i) lo hi) = Inr (max lo (min hi i))"
proof -
  have "exact_int (max lo (min hi i))" using assms by (auto simp: max_def min_def)
  then show ?thesis by (simp add: CLAMP_of_int assms lround_of_int)
qed

lemma exact_bounds [simp]:
  "exact_int 0" "exact_int 255" "exact_int 65535" "exact_int 4294967295"
  "exact_int (- 128)" "exact_int 127" "exact_int (- 32768)" "exact_int 32767"
  "exact_int (- 2147483648)" "exact_int 2147483647"
  by (simp_all add: exact_int_def)

lemma bytes_of_word_of_int:
  assumes "8 dvd LENGTH('a)"
  shows "bytes_of_word (word_of_int i :: 'a::len word) =
    le_bytes (word_size TYPE('a)) (nat (i mod 2 ^ (8 * word_size TYPE('a))))"
proof -
  have "8 * word_size TYPE('a) = LENGTH('a)" using assms by (simp add: word_size_def)
  then show ?thesis
    unfolding bytes_of_word_def by (simp add: nat_uint_eq [symmetric] uint_word_of_int_eq take_bit_eq_mod)
qed

lemma to_ptr_clamps:
  assumes "int_interp t" "exact_int i"
  shows "pc_double_to_ptr buf off t (d_of_int i) =
    wr buf off (le_bytes (isize t) (nat (max (interp_min t) (min (interp_max t) i) mod 2 ^ (8 * isize t))))"
proof -
  consider "t = 1" | "t = 2" | "t = 3" | "t = 4" | "t = 5" | "t = 6"
    using assms(1) unfolding int_interp_def by atomize_elim presburger
  then show ?thesis
    by cases (simp_all add: pc_double_to_ptr_def lround_CLAMP assms(2) bytes_of_word_of_int
        interp_min_def interp_max_def)
qed

lemma uint_bounds:
  "uint (w8 :: 8 word) \<le> 255 \<and> 0 \<le> uint w8" "uint (w16 :: 16 word) \<le> 65535 \<and> 0 \<le> uint w16"
  "uint (w32 :: 32 word) \<le> 4294967295 \<and> 0 \<le> uint w32"
proof -
  have "uint w8 < 2 ^ LENGTH(8)" "uint w16 < 2 ^ LENGTH(16)" "uint w32 < 2 ^ LENGTH(32)"
    by (rule unsigned_less)+
  then show "uint w8 \<le> 255 \<and> 0 \<le> uint w8" "uint w16 \<le> 65535 \<and> 0 \<le> uint w16"
    "uint w32 \<le> 4294967295 \<and> 0 \<le> uint w32" by simp_all
qed

lemma sint_bounds:
  "sint (w8 :: 8 word) \<le> 127 \<and> - 128 \<le> sint w8" "sint (w16 :: 16 word) \<le> 32767 \<and> - 32768 \<le> sint w16"
  "sint (w32 :: 32 word) \<le> 2147483647 \<and> - 2147483648 \<le> sint w32"
  using sint_lt [of w8] sint_ge [of w8] sint_lt [of w16] sint_ge [of w16] sint_lt [of w32] sint_ge [of w32]
  by simp_all

lemma exact_small: "\<bar>i\<bar> \<le> 4294967295 \<Longrightarrow> exact_int i"
  by (simp add: exact_int_def)

lemma lround_CLAMP_id:
  assumes "exact_int i" "lo \<le> i" "i \<le> hi" "exact_int lo" "exact_int hi"
  shows "lround (CLAMP (d_of_int i) lo hi) = Inr i"
  using lround_CLAMP [of i lo hi] assms by simp

text \<open>The bounds of the 64-bit types are no doubles, but lie beyond every exact integer.\<close>

lemma CLAMP_exact_64:
  assumes "exact_int i"
  shows "CLAMP (d_of_int i) (- 9223372036854775808) 9223372036854775807 = d_of_int i"
    and "0 \<le> i \<Longrightarrow> CLAMP (d_of_int i) 0 18446744073709551615 = d_of_int i"
proof -
  have e: "exact_int (2 ^ 53)" "exact_int (- (2 ^ 53))" by (simp_all add: exact_int_def)
  have k: "d_key (d_of_int (2 ^ 53)) = 0x4340000000000000" "d_key (d_of_int (- (2 ^ 53))) = - 0x4340000000000000"
    "d_key (d_of_int 9223372036854775807) = 0x43E0000000000000"
    "d_key (d_of_int 18446744073709551615) = 0x43F0000000000000"
    "d_key (d_of_int (- 9223372036854775808)) = - 0x43E0000000000000"
    by (simp_all add: fp_eval)
  have "i \<le> 2 ^ 53" "- (2 ^ 53) \<le> i" using assms unfolding exact_int_def by linarith+
  then have b: "d_key (d_of_int i) \<le> 0x4340000000000000" "- 0x4340000000000000 \<le> d_key (d_of_int i)"
    using d_key_of_int_less [OF e(1) assms] d_key_of_int_less [OF assms e(2)] unfolding k by linarith+
  show "CLAMP (d_of_int i) (- 9223372036854775808) 9223372036854775807 = d_of_int i"
    using b by (simp add: CLAMP_def d_lt_def k)
  show "CLAMP (d_of_int i) 0 18446744073709551615 = d_of_int i" if "0 \<le> i"
    using b d_lt_of_int [OF assms, of 0] that by (simp add: CLAMP_def d_lt_def [of "d_of_int 18446744073709551615"] k)
qed

lemma double_roundtrip:
  assumes "pc_double_from_ptr buf off t = Inr d" "val_exact t (take (isize t) (drop off buf))"
  shows "pc_double_to_ptr buf' off' t d = wr buf' off' (take (isize t) (drop off buf))"
proof -
  have t: "known_interp t" using assms(2) by (auto simp: val_exact_def known_interp_def split: if_splits)
  have e8: "exact_int (uint (w :: 8 word))" "exact_int (sint w)" for w
    using uint_bounds(1) [of w] sint_bounds(1) [of w] by (auto intro!: exact_small simp: abs_if)
  have e16: "exact_int (uint (w :: 16 word))" "exact_int (sint w)" for w
    using uint_bounds(2) [of w] sint_bounds(2) [of w] by (auto intro!: exact_small simp: abs_if)
  have e32: "exact_int (uint (w :: 32 word))" "exact_int (sint w)" for w
    using uint_bounds(3) [of w] sint_bounds(3) [of w] by (auto intro!: exact_small simp: abs_if)
  note small = e8 e16 e32 uint_bounds sint_bounds lround_CLAMP_id bytes_of_word_of_bytes
  from t show ?thesis
  proof (cases rule: known_interp_cases)
    case 7
    then show ?thesis using assms
      by (auto simp: pc_double_from_ptr_def pc_double_to_ptr_def val_exact_def bindE_eq_Inr rd_eq_Inr
          CLAMP_exact_64 lround_of_int bytes_of_word_of_bytes)
  next
    case 8
    then show ?thesis using assms
      by (auto simp: pc_double_from_ptr_def pc_double_to_ptr_def val_exact_def bindE_eq_Inr rd_eq_Inr
          CLAMP_exact_64 lround_of_int bytes_of_word_of_bytes)
  next
    case 10
    then show ?thesis using assms
      by (auto simp: pc_double_from_ptr_def pc_double_to_ptr_def val_exact_def bindE_eq_Inr rd_eq_Inr
          float_of_d_of_float bytes_of_word_of_bytes)
  qed (use assms in \<open>auto simp: pc_double_from_ptr_def pc_double_to_ptr_def bindE_eq_Inr rd_eq_Inr small\<close>)
qed

section \<open>Properties\<close>

text \<open>
  A stored value that a \<open>double\<close> holds exactly (every value of the 8, 16 and 32-bit types, the
  64-bit integers up to 2^53, every float and double that is not a NaN float) survives being read as
  a \<open>double\<close> and written back in the same interpretation: the buffer is unchanged.
\<close>

theorem stored_value_roundtrip:
  assumes "off + isize t \<le> length buf" "val_exact t (take (isize t) (drop off buf))"
    and "pc_double_from_ptr buf off t = Inr d"
  shows "pc_double_to_ptr buf off t d = Inr buf"
  using double_roundtrip [OF assms(3,2), of buf off] wr_self [OF assms(1)] by simp

theorem stored_value_roundtrip_witness:
  "pc_double_to_ptr [7, 0xFE, 0xFF, 9] 1 PC_INT16 (d_of_int (- 2)) = Inr [7, 0xFE, 0xFF, 9]"
proof (rule stored_value_roundtrip)
  show "val_exact PC_INT16 (take (isize PC_INT16) (drop 1 [7, 0xFE, 0xFF, 9]))"
    by (simp add: val_exact_def known_interp_def)
  show "pc_double_from_ptr [7, 0xFE, 0xFF, 9] 1 PC_INT16 = Inr (d_of_int (- 2))"
  proof -
    have "sint (word_of_bytes [0xFE, 0xFF] :: 16 word) = - 2"
      by (simp add: word_of_bytes_def)
    then show ?thesis by (simp add: pc_double_from_ptr_def rd_def)
  qed
qed simp

text \<open>
  Writing an integral value to an integer dimension of 8, 16 or 32 bits stores the value when the
  type holds it and the nearest bound of the type otherwise, in two's complement.
\<close>

theorem written_value_saturates:
  assumes "int_interp t" "exact_int i"
  shows "pc_double_to_ptr buf off t (d_of_int i) =
    wr buf off (le_bytes (isize t) (nat (max (interp_min t) (min (interp_max t) i) mod 2 ^ (8 * isize t))))"
  by (rule to_ptr_clamps [OF assms])

theorem written_value_saturates_witness:
  "pc_double_to_ptr [1, 2, 3] 1 PC_INT8 (d_of_int (- 1000)) = Inr [1, 128, 3]"
proof -
  have "pc_double_to_ptr [1, 2, 3] 1 PC_INT8 (d_of_int (- 1000)) = wr [1, 2, 3] 1
     (le_bytes (isize PC_INT8) (nat (max (interp_min PC_INT8) (min (interp_max PC_INT8) (- 1000)) mod 2 ^ (8 * isize PC_INT8))))"
    by (rule written_value_saturates) (simp_all add: int_interp_def exact_int_def)
  then show ?thesis by (simp add: interp_min_def interp_max_def wr_def)
qed

end
