(* ===== verification/PC_Hashtable.thy ===== *)
theory PC_Hashtable
  imports PC_Double "HOL-Library.Multiset"
begin

text \<open>
  lib/hashtable.c: the chained hash table that maps dimension names to dimensions. The table is the
  list of its buckets, a bucket the list of its entries, front first. Keys are hashed to 32-bit
  words with the wrap-around of the code. A C string is the list of its characters before the
  terminating NUL. Memory is never exhausted (\<open>malloc\<close> is \<open>pcalloc\<close>, which reports failure
  through \<open>pcerror\<close>), so the second plan of \<open>hashtable_expand\<close> is not reached.

  The lemmas show the table invariant, that growing keeps the entries, and that search after insert
  and remove is the update of a map, for any hash function that respects the key equality; the two
  string functions of the file are such a pair.
\<close>

section \<open>Keys\<close>

definition tolower :: "char \<Rightarrow> char" where
  "tolower c = (if 65 \<le> (of_char c :: nat) \<and> of_char c \<le> (90 :: nat)
     then char_of (of_char c + 32 :: nat) else c)"

text \<open>A \<open>char\<close> is signed; it is widened to \<open>int\<close> and added to an \<open>unsigned int\<close>.\<close>

definition char_word :: "char \<Rightarrow> 32 word" where
  "char_word c = word_of_int (sint (of_char c :: 8 word))"

definition hash_str :: "string \<Rightarrow> 32 word" where
  "hash_str str = fold (\<lambda>ch hash. char_word (tolower ch) + push_bit 6 hash + push_bit 16 hash - hash) str 0"

text \<open>\<open>strcasecmp (a, b) == 0\<close>\<close>

definition str_eq :: "string \<Rightarrow> string \<Rightarrow> bool" where
  "str_eq a b = (map tolower a = map tolower b)"

section \<open>The table\<close>

definition primes :: "nat list" where
  "primes = [53, 97, 193, 389, 769, 1543, 3079, 6151, 12289, 24593, 49157, 98317, 196613, 393241,
     786433, 1572869, 3145739, 6291469, 12582917, 25165843, 50331653, 100663319, 201326611,
     402653189, 805306457, 1610612741]"

abbreviation (input) prime_table_length :: nat where
  "prime_table_length \<equiv> 26"

record ('k, 'v) entry =
  e_k :: 'k
  e_v :: 'v
  e_h :: "32 word"

record ('k, 'v) hashtable =
  tablelength :: nat
  tbl :: "('k, 'v) entry list list"
  entrycount :: "32 word"
  loadlimit :: "32 word"
  primeindex :: nat
  hashfn :: "'k \<Rightarrow> 32 word"
  eqfn :: "'k \<Rightarrow> 'k \<Rightarrow> bool"

text \<open>
  \<open>(unsigned int)ceil(size * max_load_factor)\<close>: the factor is the \<open>float\<close> nearest 0.65, the
  product is a \<open>float\<close>.
\<close>

definition max_load_factor :: float32 where
  "max_load_factor = 0x3F266666"

fun fp_ceil :: "fp \<Rightarrow> nat" where
  "fp_ceil (FNum s m e) = (if 0 \<le> e then m * 2 ^ nat e else (m + 2 ^ nat (- e) - 1) div 2 ^ nat (- e))"
| "fp_ceil _ = 0"

definition load_limit :: "nat \<Rightarrow> 32 word" where
  "load_limit sz = word_of_nat (fp_ceil (decode32 (float_of_d
     (d_mul (d_of_float (float_of_d (d_of_int (int sz)))) (d_of_float max_load_factor)))))"

fun first_prime :: "nat \<Rightarrow> nat \<Rightarrow> nat list \<Rightarrow> nat \<times> nat" where
  "first_prime minsize i [] = (i, primes ! 0)"
| "first_prime minsize i (p # ps) = (if minsize < p then (i, p) else first_prime minsize (Suc i) ps)"

definition create_hashtable ::
  "nat \<Rightarrow> ('k \<Rightarrow> 32 word) \<Rightarrow> ('k \<Rightarrow> 'k \<Rightarrow> bool) \<Rightarrow> ('k, 'v) hashtable option" where
  "create_hashtable minsize hashf eqf =
     (if 2 ^ 30 < minsize then None
      else let (pindex, sz) = first_prime minsize 0 primes
           in Some \<lparr>tablelength = sz, tbl = replicate sz [], entrycount = 0, loadlimit = load_limit sz,
                    primeindex = pindex, hashfn = hashf, eqfn = eqf\<rparr>)"

definition create_string_hashtable :: "(string, 'v) hashtable option" where
  "create_string_hashtable = create_hashtable 16 hash_str str_eq"

definition hash :: "('k, 'v) hashtable \<Rightarrow> 'k \<Rightarrow> 32 word" where
  "hash h k = (let i = hashfn h k;
     i = i + NOT (push_bit 9 i);
     i = i XOR (drop_bit 14 i OR push_bit 18 i);
     i = i + push_bit 4 i;
     i = i XOR (drop_bit 10 i OR push_bit 22 i)
   in i)"

definition indexFor :: "nat \<Rightarrow> 32 word \<Rightarrow> nat" where
  "indexFor len hv = unat hv mod len"

definition push_entry :: "('k, 'v) entry \<Rightarrow> ('k, 'v) entry list list \<Rightarrow> ('k, 'v) entry list list" where
  "push_entry e t = (let index = indexFor (length t) (e_h e) in t[index := e # t ! index])"

text \<open>The result \<open>0\<close> of the code is the unchanged table; its caller ignores the result.\<close>

definition hashtable_expand :: "('k, 'v) hashtable \<Rightarrow> ('k, 'v) hashtable" where
  "hashtable_expand h =
     (if primeindex h = prime_table_length - 1 then h
      else let newsize = primes ! (primeindex h + 1)
           in h\<lparr>primeindex := primeindex h + 1,
                tbl := fold (\<lambda>bucket t. fold push_entry bucket t) (tbl h) (replicate newsize []),
                tablelength := newsize,
                loadlimit := load_limit newsize\<rparr>)"

definition hashtable_count :: "('k, 'v) hashtable \<Rightarrow> 32 word" where
  "hashtable_count h = entrycount h"

definition hashtable_insert :: "('k, 'v) hashtable \<Rightarrow> 'k \<Rightarrow> 'v \<Rightarrow> ('k, 'v) hashtable" where
  "hashtable_insert h k v =
     (let h = h\<lparr>entrycount := entrycount h + 1\<rparr>;
          h = (if loadlimit h < entrycount h then hashtable_expand h else h);
          e = \<lparr>e_k = k, e_v = v, e_h = hash h k\<rparr>;
          index = indexFor (tablelength h) (e_h e)
      in h\<lparr>tbl := (tbl h)[index := e # tbl h ! index]\<rparr>)"

fun bucket_search :: "('k \<Rightarrow> 'k \<Rightarrow> bool) \<Rightarrow> 32 word \<Rightarrow> 'k \<Rightarrow> ('k, 'v) entry list \<Rightarrow> 'v option" where
  "bucket_search eqf hv k [] = None"
| "bucket_search eqf hv k (e # es) =
     (if hv = e_h e \<and> eqf k (e_k e) then Some (e_v e) else bucket_search eqf hv k es)"

definition hashtable_search :: "('k, 'v) hashtable \<Rightarrow> 'k \<Rightarrow> 'v option" where
  "hashtable_search h k =
     (let hashvalue = hash h k; index = indexFor (tablelength h) hashvalue
      in bucket_search (eqfn h) hashvalue k (tbl h ! index))"

fun bucket_remove ::
  "('k \<Rightarrow> 'k \<Rightarrow> bool) \<Rightarrow> 32 word \<Rightarrow> 'k \<Rightarrow> ('k, 'v) entry list \<Rightarrow> ('v \<times> ('k, 'v) entry list) option" where
  "bucket_remove eqf hv k [] = None"
| "bucket_remove eqf hv k (e # es) =
     (if hv = e_h e \<and> eqf k (e_k e) then Some (e_v e, es)
      else case bucket_remove eqf hv k es of None \<Rightarrow> None | Some (v, es') \<Rightarrow> Some (v, e # es'))"

definition hashtable_remove :: "('k, 'v) hashtable \<Rightarrow> 'k \<Rightarrow> 'v option \<times> ('k, 'v) hashtable" where
  "hashtable_remove h k =
     (let hashvalue = hash h k; index = indexFor (tablelength h) (hash h k)
      in case bucket_remove (eqfn h) hashvalue k (tbl h ! index) of
           None \<Rightarrow> (None, h)
         | Some (v, es) \<Rightarrow> (Some v, h\<lparr>tbl := (tbl h)[index := es], entrycount := entrycount h - 1\<rparr>))"

section \<open>Invariant\<close>

definition entries :: "('k, 'v) hashtable \<Rightarrow> ('k, 'v) entry list" where
  "entries h = concat (tbl h)"

definition buckets_ok :: "('k, 'v) hashtable \<Rightarrow> bool" where
  "buckets_ok h = (\<forall>i < tablelength h. \<forall>e \<in> set (tbl h ! i).
     e_h e = hash h (e_k e) \<and> indexFor (tablelength h) (e_h e) = i)"

definition ht_ok :: "('k, 'v) hashtable \<Rightarrow> bool" where
  "ht_ok h = (0 < tablelength h \<and> length (tbl h) = tablelength h \<and> primeindex h < prime_table_length
     \<and> buckets_ok h \<and> entrycount h = word_of_nat (length (entries h)))"

text \<open>No two entries have equal keys.\<close>

definition ht_unique :: "('k, 'v) hashtable \<Rightarrow> bool" where
  "ht_unique h = (distinct (entries h) \<and>
     (\<forall>e \<in> set (entries h). \<forall>e' \<in> set (entries h). eqfn h (e_k e) (e_k e') \<longrightarrow> e = e'))"

lemma mset_concat_update:
  "i < length t \<Longrightarrow> mset (concat (t[i := b])) + mset (t ! i) = mset (concat t) + mset b"
proof (induction t arbitrary: i)
  case (Cons x t)
  then show ?case by (cases i) (auto simp: add.commute add.left_commute add.assoc)
qed simp

lemma push_entry_props:
  assumes "0 < length t"
  shows "length (push_entry e t) = length t"
    and "mset (concat (push_entry e t)) = add_mset e (mset (concat t))"
proof -
  show "length (push_entry e t) = length t" by (simp add: push_entry_def Let_def)
  have "indexFor (length t) (e_h e) < length t" using assms by (simp add: indexFor_def)
  from mset_concat_update [OF this, of "e # t ! indexFor (length t) (e_h e)"]
  show "mset (concat (push_entry e t)) = add_mset e (mset (concat t))"
    by (simp add: push_entry_def Let_def)
qed

definition placed :: "('k, 'v) entry list list \<Rightarrow> bool" where
  "placed t = (\<forall>i < length t. \<forall>e \<in> set (t ! i). indexFor (length t) (e_h e) = i)"

lemma placed_push: "0 < length t \<Longrightarrow> placed t \<Longrightarrow> placed (push_entry e t)"
proof -
  assume t: "0 < length t" and pl: "placed t"
  have "indexFor (length t) (e_h e) < length t" using t by (simp add: indexFor_def)
  then show ?thesis
    using pl unfolding placed_def push_entry_def Let_def by (auto simp: nth_list_update)
qed

lemma fold_push:
  assumes "0 < length t"
  shows "length (fold push_entry es t) = length t \<and>
    mset (concat (fold push_entry es t)) = mset es + mset (concat t) \<and>
    (placed t \<longrightarrow> placed (fold push_entry es t))"
  using assms
proof (induction es arbitrary: t)
  case (Cons e es)
  have "0 < length (push_entry e t)" using Cons.prems push_entry_props(1) by metis
  from Cons.IH [OF this] show ?case
    using Cons.prems push_entry_props [OF Cons.prems, of e] placed_push by auto
qed simp

lemma fold_fold_concat: "fold (\<lambda>b t. fold f b t) bs t = fold f (concat bs) t"
  by (induction bs arbitrary: t) auto

lemma expand_props:
  assumes "ht_ok h"
  shows "ht_ok (hashtable_expand h)" "mset (entries (hashtable_expand h)) = mset (entries h)"
    "hashfn (hashtable_expand h) = hashfn h" "eqfn (hashtable_expand h) = eqfn h"
    "entrycount (hashtable_expand h) = entrycount h"
proof -
  define n where "n = primes ! (primeindex h + 1)"
  show f: "hashfn (hashtable_expand h) = hashfn h" "eqfn (hashtable_expand h) = eqfn h"
    and c: "entrycount (hashtable_expand h) = entrycount h"
    by (simp_all add: hashtable_expand_def Let_def)
  have hh: "hash (hashtable_expand h) k = hash h k" for k by (simp add: hash_def f)
  have "ht_ok (hashtable_expand h) \<and> mset (entries (hashtable_expand h)) = mset (entries h)"
  proof (cases "primeindex h = prime_table_length - 1")
    case True
    then show ?thesis using assms by (simp add: hashtable_expand_def)
  next
    case False
    then have p: "primeindex h + 1 < prime_table_length" using assms by (simp add: ht_ok_def)
    then have "n \<in> set primes" unfolding n_def by (intro nth_mem) (simp add: primes_def)
    then have n: "0 < n" by (auto simp: primes_def)
    let ?t = "fold push_entry (entries h) (replicate n [])"
    have t: "tbl (hashtable_expand h) = ?t" "tablelength (hashtable_expand h) = n"
      "primeindex (hashtable_expand h) = primeindex h + 1"
      using False by (simp_all add: hashtable_expand_def Let_def fold_fold_concat entries_def n_def)
    have "concat (replicate m ([] :: 'x list)) = []" for m by (induction m) auto
    moreover have "placed (replicate n ([] :: ('a, 'b) entry list))" by (simp add: placed_def)
    ultimately have ft: "length ?t = n" "mset (concat ?t) = mset (entries h)" "placed ?t"
      using fold_push [of "replicate n []" "entries h"] n by simp_all
    have old: "\<forall>e \<in> set (entries h). e_h e = hash h (e_k e)"
      using assms by (fastforce simp: ht_ok_def buckets_ok_def entries_def in_set_conv_nth)
    have "set (concat ?t) = set (entries h)" using ft(2) by (metis set_mset_mset)
    then have new: "\<forall>i < n. \<forall>e \<in> set (?t ! i). e_h e = hash h (e_k e)"
      using old ft(1) by (metis concat_eq_concat_iff in_set_conv_nth nth_mem UN_I set_concat)
    have "length (concat ?t) = length (entries h)" using ft(2) by (metis size_mset)
    then have "entrycount h = word_of_nat (length (concat ?t))" using assms by (simp add: ht_ok_def)
    then show ?thesis
      using new ft n p by (auto simp: ht_ok_def buckets_ok_def entries_def t hh c placed_def)
  qed
  then show "ht_ok (hashtable_expand h)" "mset (entries (hashtable_expand h)) = mset (entries h)" by auto
qed

section \<open>Search, insert and remove\<close>

definition ht_for :: "('k \<Rightarrow> 32 word) \<Rightarrow> ('k \<Rightarrow> 'k \<Rightarrow> bool) \<Rightarrow> ('k, 'v) hashtable \<Rightarrow> bool" where
  "ht_for hashf eqf h = (ht_ok h \<and> hashfn h = hashf \<and> eqfn h = eqf)"

text \<open>
  The contract of a pair of key functions: equality is an equivalence and equal keys have equal
  hashes. Under it the table is a map.
\<close>

locale hash_keys =
  fixes hashf :: "'k \<Rightarrow> 32 word" and eqf :: "'k \<Rightarrow> 'k \<Rightarrow> bool"
  assumes eqf_refl: "eqf k k"
    and eqf_sym: "eqf k k' \<Longrightarrow> eqf k' k"
    and eqf_trans: "eqf k k' \<Longrightarrow> eqf k' k'' \<Longrightarrow> eqf k k''"
    and eqf_hash: "eqf k k' \<Longrightarrow> hashf k = hashf k'"
begin

lemma hash_cong: "ht_for hashf eqf h \<Longrightarrow> eqf k k' \<Longrightarrow> hash h k = hash h k'"
  by (simp add: ht_for_def hash_def eqf_hash)

lemma bucket_search_Some:
  "bucket_search eqf hv k es = Some v \<Longrightarrow> \<exists>e \<in> set es. hv = e_h e \<and> eqf k (e_k e) \<and> e_v e = v"
  by (induction es) (auto split: if_splits)

lemma bucket_search_None:
  "bucket_search eqf hv k es = None \<longleftrightarrow> (\<forall>e \<in> set es. \<not> (hv = e_h e \<and> eqf k (e_k e)))"
  by (induction es) auto

lemma in_bucket:
  assumes "ht_for hashf eqf h" "e \<in> set (entries h)" "eqf k (e_k e)"
  shows "e \<in> set (tbl h ! indexFor (tablelength h) (hash h k))" "e_h e = hash h k"
proof -
  obtain i where i: "i < tablelength h" "e \<in> set (tbl h ! i)"
    using assms(1,2) by (auto simp: entries_def in_set_conv_nth ht_for_def ht_ok_def) (metis nth_mem)
  then have "e_h e = hash h (e_k e)" "indexFor (tablelength h) (e_h e) = i"
    using assms(1) unfolding ht_for_def ht_ok_def buckets_ok_def by blast+
  then show "e_h e = hash h k" "e \<in> set (tbl h ! indexFor (tablelength h) (hash h k))"
    using hash_cong [OF assms(1,3)] i by simp_all
qed

lemma bucket_entries: "ht_for hashf eqf h \<Longrightarrow> set (tbl h ! indexFor (tablelength h) hv) \<subseteq> set (entries h)"
proof -
  assume "ht_for hashf eqf h"
  then have "indexFor (tablelength h) hv < length (tbl h)" by (simp add: ht_for_def ht_ok_def indexFor_def)
  then have "tbl h ! indexFor (tablelength h) hv \<in> set (tbl h)" by (rule nth_mem)
  then show ?thesis by (auto simp: entries_def)
qed

lemma search_iff:
  assumes "ht_for hashf eqf h" "ht_unique h"
  shows "hashtable_search h k = Some v \<longleftrightarrow> (\<exists>e \<in> set (entries h). eqf k (e_k e) \<and> e_v e = v)"
proof
  assume "hashtable_search h k = Some v"
  then show "\<exists>e \<in> set (entries h). eqf k (e_k e) \<and> e_v e = v"
    using bucket_search_Some bucket_entries [OF assms(1)] assms(1)
    by (fastforce simp: hashtable_search_def Let_def ht_for_def)
next
  assume "\<exists>e \<in> set (entries h). eqf k (e_k e) \<and> e_v e = v"
  then obtain e where e: "e \<in> set (entries h)" "eqf k (e_k e)" "e_v e = v" by blast
  note b = in_bucket [OF assms(1) e(1,2)]
  have eq: "eqfn h = eqf" using assms(1) by (simp add: ht_for_def)
  then obtain v' where v': "hashtable_search h k = Some v'"
    using b e(2) bucket_search_None by (fastforce simp: hashtable_search_def Let_def)
  then obtain e' where e': "e' \<in> set (entries h)" "eqf k (e_k e')" "e_v e' = v'"
    using bucket_search_Some bucket_entries [OF assms(1)] eq
    by (fastforce simp: hashtable_search_def Let_def)
  have "eqf (e_k e) (e_k e')" using e(2) e'(2) eqf_sym eqf_trans by blast
  then have "e = e'" using assms(2) e(1) e'(1) eq by (auto simp: ht_unique_def)
  then show "hashtable_search h k = Some v" using v' e(3) e'(3) by simp
qed

lemma insert_entries:
  assumes "ht_for hashf eqf h"
  shows "ht_for hashf eqf (hashtable_insert h k v)"
    and "mset (entries (hashtable_insert h k v)) =
      add_mset \<lparr>e_k = k, e_v = v, e_h = hash h k\<rparr> (mset (entries h))"
proof -
  define h1 where "h1 = h\<lparr>entrycount := entrycount h + 1\<rparr>"
  define h2 where "h2 = (if loadlimit h1 < entrycount h1 then hashtable_expand h1 else h1)"
  define g where "g = h2\<lparr>entrycount := entrycount h2 - 1\<rparr>"
  have ho: "ht_ok h" using assms by (simp add: ht_for_def)
  let ?e = "\<lparr>e_k = k, e_v = v, e_h = hash h k\<rparr>"
  have ex: "hashtable_expand h1 = (hashtable_expand h)\<lparr>entrycount := entrycount h + 1\<rparr>"
    by (simp add: h1_def hashtable_expand_def Let_def)
  have g: "g = (if loadlimit h1 < entrycount h1 then hashtable_expand h else h)"
    unfolding g_def h2_def by (simp add: ex expand_props(5) [OF ho]) (simp add: h1_def)
  have gp: "ht_ok g" "mset (entries g) = mset (entries h)" "hashfn g = hashf" "eqfn g = eqf"
    using expand_props [OF ho] assms unfolding g by (auto simp: ht_for_def)
  have fields: "tbl h2 = tbl g" "tablelength h2 = tablelength g" "hashfn h2 = hashfn g"
    "eqfn h2 = eqfn g" "primeindex h2 = primeindex g" "entrycount h2 = entrycount g + 1"
    by (simp_all add: g_def)
  have hh: "hash h2 = hash h" "hash g = hash h" using gp(3) assms fields
    by (auto simp: hash_def ht_for_def fun_eq_iff)
  let ?i = "indexFor (tablelength g) (hash h k)"
  have ins: "hashtable_insert h k v = h2\<lparr>tbl := (tbl g)[?i := ?e # tbl g ! ?i]\<rparr>"
    unfolding hashtable_insert_def Let_def h1_def [symmetric] h2_def [symmetric]
    by (simp add: hh fields)
  have i: "?i < length (tbl g)" "length (tbl g) = tablelength g"
    using gp(1) by (simp_all add: ht_ok_def indexFor_def)
  show m: "mset (entries (hashtable_insert h k v)) = add_mset ?e (mset (entries h))"
    using mset_concat_update [OF i(1), of "?e # tbl g ! ?i"] gp(2) by (simp add: ins entries_def)
  then have "length (entries (hashtable_insert h k v)) = Suc (length (entries h))"
    by (metis size_mset size_add_mset)
  moreover have "length (entries g) = length (entries h)" using gp(2) by (metis size_mset)
  ultimately have "entrycount h2 = word_of_nat (length (entries (hashtable_insert h k v)))"
    using gp(1) by (simp add: fields ht_ok_def)
  moreover have "buckets_ok (hashtable_insert h k v)"
  proof -
    have hi: "hash (hashtable_insert h k v) = hash h" by (simp add: ins hash_def hh [symmetric] fun_eq_iff)
    have "e_h e = hash h (e_k e) \<and> indexFor (tablelength g) (e_h e) = j"
      if j: "j < tablelength g" "e \<in> set (((tbl g)[?i := ?e # tbl g ! ?i]) ! j)" for j e
    proof (cases "e = ?e \<and> j = ?i")
      case False
      then have "e \<in> set (tbl g ! j)" using j i by (cases "j = ?i") auto
      then show ?thesis using gp(1) j(1) unfolding ht_ok_def buckets_ok_def hh by blast
    qed simp
    moreover have "tbl (hashtable_insert h k v) = (tbl g)[?i := ?e # tbl g ! ?i]"
      "tablelength (hashtable_insert h k v) = tablelength g" by (simp_all add: ins fields)
    ultimately show ?thesis unfolding buckets_ok_def hi by (simp only:) blast
  qed
  ultimately show "ht_for hashf eqf (hashtable_insert h k v)"
    using gp(1,3,4) i by (simp add: ht_for_def ht_ok_def ins fields)
qed

lemma insert_unique:
  assumes "ht_for hashf eqf h" "ht_unique h" "hashtable_search h k = None"
  shows "ht_unique (hashtable_insert h k v)"
proof -
  let ?e = "\<lparr>e_k = k, e_v = v, e_h = hash h k\<rparr>"
  note m = insert_entries(2) [OF assms(1), of k v]
  have s: "set (entries (hashtable_insert h k v)) = insert ?e (set (entries h))"
    using m by (metis set_mset_add_mset_insert set_mset_mset)
  have new: "\<not> eqf k (e_k e)" if "e \<in> set (entries h)" for e
    using search_iff [OF assms(1,2), of k "e_v e"] assms(3) that by auto
  then have "?e \<notin> set (entries h)" using eqf_refl by fastforce
  then have "distinct (?e # entries h)" using assms(2) by (simp add: ht_unique_def)
  then have d: "distinct (entries (hashtable_insert h k v))"
    using m by (metis mset.simps(2) mset_eq_imp_distinct_iff)
  have eq: "eqfn h = eqf" "eqfn (hashtable_insert h k v) = eqf"
    using assms(1) insert_entries(1) [OF assms(1)] by (auto simp: ht_for_def)
  show ?thesis unfolding ht_unique_def s eq
    using d assms(2) new eqf_sym by (fastforce simp: ht_unique_def eq)
qed

lemma search_insert:
  assumes "ht_for hashf eqf h" "ht_unique h" "hashtable_search h k = None"
  shows "hashtable_search (hashtable_insert h k v) k' =
    (if eqf k' k then Some v else hashtable_search h k')"
proof -
  let ?e = "\<lparr>e_k = k, e_v = v, e_h = hash h k\<rparr>" and ?h = "hashtable_insert h k v"
  have s: "set (entries ?h) = insert ?e (set (entries h))"
    using insert_entries(2) [OF assms(1), of k v] by (metis set_mset_add_mset_insert set_mset_mset)
  note iff = search_iff [OF insert_entries(1) [OF assms(1)] insert_unique [OF assms]]
  have new: "\<not> eqf k (e_k e)" if "e \<in> set (entries h)" for e
    using search_iff [OF assms(1,2), of k "e_v e"] assms(3) that by auto
  have "hashtable_search ?h k' = Some x \<longleftrightarrow> (if eqf k' k then Some v else hashtable_search h k') = Some x" for x
  proof (cases "eqf k' k")
    case True
    then have "\<not> eqf k' (e_k e)" if "e \<in> set (entries h)" for e
      using new [OF that] eqf_sym eqf_trans by blast
    then show ?thesis using True by (auto simp: iff s)
  next
    case False
    then show ?thesis using search_iff [OF assms(1,2)] by (auto simp: iff s)
  qed
  then show ?thesis by (metis option.exhaust)
qed

lemma bucket_remove_Some:
  "bucket_remove eqf hv k es = Some (v, es') \<Longrightarrow>
   bucket_search eqf hv k es = Some v \<and>
   (\<exists>e. e_v e = v \<and> eqf k (e_k e) \<and> mset es = add_mset e (mset es'))"
  by (induction es arbitrary: es') (auto split: if_splits option.splits)

lemma bucket_remove_None: "bucket_remove eqf hv k es = None \<longleftrightarrow> bucket_search eqf hv k es = None"
  by (induction es) (auto split: option.splits)

lemma remove_found:
  assumes "ht_for hashf eqf h" "hashtable_remove h k = (Some v, h')"
  obtains e where "e_v e = v" "eqf k (e_k e)" "mset (entries h) = add_mset e (mset (entries h'))"
    "ht_for hashf eqf h'"
proof -
  let ?i = "indexFor (tablelength h) (hash h k)"
  have eq: "eqfn h = eqf" and ho: "ht_ok h" and hf: "hashfn h = hashf"
    using assms(1) by (simp_all add: ht_for_def)
  have i: "?i < length (tbl h)" "length (tbl h) = tablelength h" "?i < tablelength h"
    using ho by (simp_all add: ht_ok_def indexFor_def)
  from assms(2) obtain es where es: "bucket_remove eqf (hash h k) k (tbl h ! ?i) = Some (v, es)"
    and h': "h' = h\<lparr>tbl := (tbl h)[?i := es], entrycount := entrycount h - 1\<rparr>"
    by (auto simp: hashtable_remove_def Let_def eq split: option.splits)
  from bucket_remove_Some [OF es] obtain e where e: "e_v e = v" "eqf k (e_k e)"
    and m: "mset (tbl h ! ?i) = add_mset e (mset es)" by blast
  have me: "mset (entries h) = add_mset e (mset (entries h'))"
    using mset_concat_update [OF i(1), of es] m by (simp add: entries_def h')
  have hh: "hash h' = hash h" by (simp add: h' hash_def fun_eq_iff)
  have "set es \<subseteq> set (tbl h ! ?i)" using m by (metis set_mset_mset subset_insertI set_mset_add_mset_insert)
  have "buckets_ok h'"
  proof -
    have "e \<in> set (tbl h ! j)" if "j < tablelength h" "e \<in> set (((tbl h)[?i := es]) ! j)" for j e
      using that i \<open>set es \<subseteq> set (tbl h ! ?i)\<close> by (cases "j = ?i") auto
    moreover have "tbl h' = (tbl h)[?i := es]" "tablelength h' = tablelength h" by (simp_all add: h')
    ultimately show ?thesis using ho unfolding ht_ok_def buckets_ok_def hh by (simp only:) blast
  qed
  moreover have "entrycount h' = word_of_nat (length (entries h'))"
  proof -
    have "length (entries h) = Suc (length (entries h'))" using me by (metis size_mset size_add_mset)
    moreover have "entrycount h = word_of_nat (length (entries h))" using ho by (simp add: ht_ok_def)
    ultimately have "entrycount h - 1 = word_of_nat (length (entries h'))" by simp
    moreover have "entrycount h' = entrycount h - 1" by (simp add: h')
    ultimately show ?thesis by simp
  qed
  ultimately have "ht_for hashf eqf h'" using ho eq hf i by (simp add: ht_for_def ht_ok_def h')
  then show thesis using that e me by blast
qed

lemma remove_search:
  assumes "ht_for hashf eqf h" "ht_unique h"
  shows "fst (hashtable_remove h k) = hashtable_search h k"
    and "hashtable_search (snd (hashtable_remove h k)) k' = (if eqf k' k then None else hashtable_search h k')"
    and "ht_unique (snd (hashtable_remove h k))"
proof -
  have eq: "eqfn h = eqf" using assms(1) by (simp add: ht_for_def)
  show f: "fst (hashtable_remove h k) = hashtable_search h k"
  proof (cases "bucket_remove eqf (hash h k) k (tbl h ! indexFor (tablelength h) (hash h k))")
    case None
    then show ?thesis using bucket_remove_None [THEN iffD1, OF None]
      by (simp add: hashtable_remove_def hashtable_search_def Let_def eq)
  next
    case (Some p)
    then obtain v es where "p = (v, es)" by (cases p)
    with Some show ?thesis using bucket_remove_Some [of "hash h k" k _ v es]
      by (simp add: hashtable_remove_def hashtable_search_def Let_def eq)
  qed
  have "hashtable_search (snd (hashtable_remove h k)) k' = (if eqf k' k then None else hashtable_search h k')
    \<and> ht_unique (snd (hashtable_remove h k))"
  proof (cases "hashtable_remove h k")
    case (Pair r h')
    show ?thesis
    proof (cases r)
      case None
      then have "snd (hashtable_remove h k) = h"
        using Pair by (auto simp: hashtable_remove_def Let_def split: option.splits)
      moreover have "hashtable_search h k' = None" if "eqf k' k"
      proof (rule ccontr)
        assume "hashtable_search h k' \<noteq> None"
        then obtain e where e: "e \<in> set (entries h)" "eqf k' (e_k e)" using search_iff [OF assms] by blast
        then have "eqf k (e_k e)" using that eqf_sym eqf_trans by blast
        then show False using f e(1) None Pair search_iff [OF assms, of k "e_v e"] by auto
      qed
      ultimately show ?thesis using assms(2) by simp
    next
      case (Some v)
      then obtain e where e: "e_v e = v" "eqf k (e_k e)"
        and m: "mset (entries h) = add_mset e (mset (entries h'))" and h': "ht_for hashf eqf h'"
        using remove_found [OF assms(1)] Pair by blast
      have eqf': "eqfn h' = eqf" using h' by (simp add: ht_for_def)
      have s: "set (entries h) = insert e (set (entries h'))"
        using m by (metis set_mset_add_mset_insert set_mset_mset)
      have d: "distinct (e # entries h')"
        using m assms(2) by (metis ht_unique_def mset.simps(2) mset_eq_imp_distinct_iff)
      then have u: "ht_unique h'" using assms(2) by (auto simp: ht_unique_def s eq eqf')
      have only: "\<not> eqf k'' (e_k e')" if "eqf k'' k" "e' \<in> set (entries h')" for e' k''
      proof
        assume "eqf k'' (e_k e')"
        then have "eqf (e_k e) (e_k e')" using that(1) e(2) eqf_sym eqf_trans by blast
        then have "e = e'" using assms(2) that(2) by (auto simp: ht_unique_def s eq)
        then show False using d that(2) by simp
      qed
      have k2: "eqf k' (e_k e) \<longleftrightarrow> eqf k' k" using e(2) eqf_sym eqf_trans by blast
      have "hashtable_search h' k' = Some x \<longleftrightarrow>
          (if eqf k' k then None else hashtable_search h k') = Some x" for x
        using only search_iff [OF h' u] search_iff [OF assms] k2 by (auto simp: s)
      then show ?thesis using u Pair by (metis option.exhaust snd_conv)
    qed
  qed
  then show "hashtable_search (snd (hashtable_remove h k)) k' = (if eqf k' k then None else hashtable_search h k')"
    and "ht_unique (snd (hashtable_remove h k))" by auto
qed

end

interpretation names: hash_keys hash_str str_eq
proof
  have f: "fold (\<lambda>ch hash. char_word (tolower ch) + push_bit 6 hash + push_bit 16 hash - hash) str a
      = fold (\<lambda>ch hash. char_word ch + push_bit 6 hash + push_bit 16 hash - hash) (map tolower str) a"
    for str a by (induction str arbitrary: a) simp_all
  show "hash_str k = hash_str k'" if "str_eq k k'" for k k'
    using that unfolding hash_str_def f str_eq_def by simp
qed (simp_all add: str_eq_def)

text \<open>A new table is empty.\<close>

lemma first_prime_in:
  "first_prime m i ps = (j, p) \<Longrightarrow> (p \<in> set ps \<and> i \<le> j \<and> j < i + length ps) \<or> (p = 53 \<and> j = i + length ps)"
proof (induction ps arbitrary: i)
  case (Cons q ps)
  then show ?case by (cases "m < q") fastforce+
qed (simp add: primes_def)

lemma create_string_hashtable_ok:
  obtains h :: "(string, 'v) hashtable" where "create_string_hashtable = Some h" "ht_for hash_str str_eq h" "entries h = []"
    "ht_unique h" "\<And>k. hashtable_search h k = None"
proof -
  have p: "first_prime 16 0 primes = (0, 53)" by (simp add: primes_def)
  define h :: "(string, 'v) hashtable" where "h = \<lparr>tablelength = 53, tbl = replicate 53 [], entrycount = 0, loadlimit = load_limit 53,
     primeindex = 0, hashfn = hash_str, eqfn = str_eq\<rparr>"
  have c: "create_string_hashtable = Some h"
    by (simp add: create_string_hashtable_def create_hashtable_def p h_def)
  have e: "entries h = []" by (simp add: entries_def h_def)
  have "ht_ok h" unfolding ht_ok_def e by (simp add: h_def buckets_ok_def)
  then have f: "ht_for hash_str str_eq h" by (simp add: ht_for_def h_def)
  have u: "ht_unique h" by (simp add: ht_unique_def e)
  have "hashtable_search h k = None" for k
    using names.search_iff [OF f u, of k] e by (cases "hashtable_search h k") auto
  then show thesis using that [OF c f e u] by blast
qed

section \<open>Properties\<close>

text \<open>
  Inserting a key that the name table does not hold makes search return the new value for that
  key (up to case) and leaves every other lookup as it was, also when the table grows.
\<close>

theorem name_table_insert_search:
  assumes "ht_for hash_str str_eq h" "ht_unique h" "hashtable_search h k = None"
  shows "hashtable_search (hashtable_insert h k v) k' = (if str_eq k' k then Some v else hashtable_search h k')"
  by (rule names.search_insert [OF assms])

definition demo_table :: "(string, nat) hashtable" where
  "demo_table = (case create_string_hashtable of Some h \<Rightarrow> hashtable_insert h ''X'' 0 | None \<Rightarrow> undefined)"

lemma lower_letters:
  "tolower CHR ''X'' = CHR ''x''" "tolower CHR ''x'' = CHR ''x''"
  "tolower CHR ''Y'' = CHR ''y''" "tolower CHR ''y'' = CHR ''y''"
  by code_simp+

lemma demo_table_props:
  "ht_for hash_str str_eq demo_table" "ht_unique demo_table"
  "hashtable_search demo_table k = (if str_eq k ''X'' then Some 0 else None)"
proof -
  obtain h :: "(string, nat) hashtable" where h: "create_string_hashtable = Some h"
    "ht_for hash_str str_eq h" "ht_unique h" "\<And>k. hashtable_search h k = None"
    using create_string_hashtable_ok by blast
  have d: "demo_table = hashtable_insert h ''X'' 0" unfolding demo_table_def h(1) by simp
  show "ht_for hash_str str_eq demo_table" "ht_unique demo_table"
    "hashtable_search demo_table k = (if str_eq k ''X'' then Some 0 else None)"
    using names.insert_entries(1) [OF h(2)] names.insert_unique [OF h(2,3)] names.search_insert [OF h(2,3)] h(2-4)
    by (simp_all add: d)
qed

theorem name_table_insert_search_witness:
  "hashtable_search (hashtable_insert demo_table ''Y'' 1) ''y'' = Some 1 \<and>
   hashtable_search (hashtable_insert demo_table ''Y'' 1) ''x'' = Some 0"
  using name_table_insert_search [OF demo_table_props(1,2), of "''Y''" 1 "''y''"]
    name_table_insert_search [OF demo_table_props(1,2), of "''Y''" 1 "''x''"]
  by (simp add: demo_table_props(3) str_eq_def lower_letters)

text \<open>
  Removing a key returns what search returned, makes the key unknown and leaves every other
  lookup as it was.
\<close>

theorem name_table_remove:
  assumes "ht_for hash_str str_eq h" "ht_unique h"
  shows "fst (hashtable_remove h k) = hashtable_search h k \<and>
    hashtable_search (snd (hashtable_remove h k)) k' = (if str_eq k' k then None else hashtable_search h k')"
  using names.remove_search [OF assms] by simp

theorem name_table_remove_witness:
  "fst (hashtable_remove demo_table ''x'') = Some 0 \<and>
   hashtable_search (snd (hashtable_remove demo_table ''x'')) ''X'' = None"
  using name_table_remove [OF demo_table_props(1,2), of "''x''" "''X''"]
  by (simp add: demo_table_props(3) str_eq_def lower_letters)

text \<open>
  Growing the table keeps its invariant (every entry in the bucket of its hash, the entry count
  right) and its entries, though their order changes.
\<close>

theorem expand_keeps_entries:
  assumes "ht_ok h"
  shows "ht_ok (hashtable_expand h) \<and> mset (entries (hashtable_expand h)) = mset (entries h) \<and>
    length (tbl (hashtable_expand h)) = tablelength (hashtable_expand h)"
  using expand_props [OF assms] by (simp add: ht_ok_def)

theorem expand_keeps_entries_witness:
  "mset (entries (hashtable_expand demo_table)) = mset (entries demo_table)"
proof -
  have "ht_ok demo_table" using demo_table_props(1) by (simp add: ht_for_def)
  from expand_keeps_entries [OF this] show ?thesis by blast
qed

end
