(* ===== verification/PC_Schema.thy ===== *)
theory PC_Schema
  imports PC_Val PC_Hashtable
begin

text \<open>
  lib/pc_schema.c: the schema of a point cloud, its construction from the parsed XML, lookup of
  dimensions by position and name, validity, cloning and comparison.

  The code keeps pointers to dimensions in four places: the array \<open>dims\<close>, the name table and the
  shortcuts \<open>xdim\<close> .. \<open>mdim\<close>; the dimensions are updated in place
  (\<open>pc_schema_calculate_byteoffsets\<close>) after they have been entered there. The model keeps this
  aliasing: \<open>sc_heap\<close> holds the dimension records, and every pointer is an index into it.

  libxml2 is a parameter: a parsed document is what its two XPath queries return
  (\<open>xml_doc\<close>). \<open>atoi\<close> and \<open>atof\<close> are those of the C library.
\<close>

section \<open>Tables\<close>

definition INTERPRETATION_STRINGS :: "string list" where
  "INTERPRETATION_STRINGS = [''unknown'', ''int8_t'', ''uint8_t'', ''int16_t'', ''uint16_t'',
     ''int32_t'', ''uint32_t'', ''int64_t'', ''uint64_t'', ''double'', ''float'']"

definition pc_interpretation_string :: "nat \<Rightarrow> string" where
  "pc_interpretation_string interp =
     (if interp < NUM_INTERPRETATIONS then INTERPRETATION_STRINGS ! interp else ''unknown'')"

text \<open>\<open>str[i]\<close>: the terminating NUL can be read, nothing beyond it.\<close>

definition char_at :: "string \<Rightarrow> nat \<Rightarrow> char res" where
  "char_at str i = (if i < length str then Inr (str ! i)
     else if i = length str then Inr (CHR 0x00) else Inl OutOfBounds)"

definition pc_interpretation_number :: "string \<Rightarrow> nat res" where
  "pc_interpretation_number str =
     bindE (char_at str 0) (\<lambda>c.
     if c = CHR ''i'' \<or> c = CHR ''I'' then
       bindE (char_at str 3) (\<lambda>d.
         Inr (if d = CHR ''8'' then PC_INT8 else if d = CHR ''1'' then PC_INT16
              else if d = CHR ''3'' then PC_INT32 else if d = CHR ''6'' then PC_INT64 else PC_UNKNOWN))
     else if c = CHR ''u'' \<or> c = CHR ''U'' then
       bindE (char_at str 4) (\<lambda>d.
         Inr (if d = CHR ''8'' then PC_UINT8 else if d = CHR ''1'' then PC_UINT16
              else if d = CHR ''3'' then PC_UINT32 else if d = CHR ''6'' then PC_UINT64 else PC_UNKNOWN))
     else if c = CHR ''d'' \<or> c = CHR ''D'' then Inr PC_DOUBLE
     else if c = CHR ''f'' \<or> c = CHR ''F'' then Inr PC_FLOAT
     else Inr PC_UNKNOWN)"

abbreviation (input) "PC_NONE \<equiv> 0 :: nat"
abbreviation (input) "PC_DIMENSIONAL \<equiv> 1 :: nat"
abbreviation (input) "PC_LAZPERF \<equiv> 2 :: nat"

definition pc_compression_name :: "int \<Rightarrow> string" where
  "pc_compression_name num = (if num = 0 then ''none'' else if num = 1 then ''dimensional''
     else if num = 2 then ''laz'' else ''UNKNOWN'')"

text \<open>The first-letter tests of the code are implied by the comparison that follows them.\<close>

definition pc_compression_number :: "string option \<Rightarrow> nat res" where
  "pc_compression_number s = (case s of None \<Rightarrow> Inr PC_NONE
     | Some str \<Rightarrow> bindE (char_at str 0) (\<lambda>c. Inr
         (if (c = CHR ''d'' \<or> c = CHR ''D'') \<and> str_eq str ''dimensional'' then PC_DIMENSIONAL
          else if (c = CHR ''l'' \<or> c = CHR ''L'') \<and> str_eq str ''laz'' then PC_LAZPERF
          else if (c = CHR ''n'' \<or> c = CHR ''N'') \<and> str_eq str ''none'' then PC_NONE
          else PC_NONE)))"

section \<open>Schemas\<close>

record PCSCHEMA =
  sc_pcid :: nat
  sc_ndims :: nat
  sc_size :: nat
  sc_dims :: "nat option list"
  sc_srid :: nat
  sc_xdim :: "nat option"
  sc_ydim :: "nat option"
  sc_zdim :: "nat option"
  sc_mdim :: "nat option"
  sc_compression :: nat
  sc_namehash :: "(string, nat) hashtable option"
  sc_heap :: "PCDIMENSION list"

text \<open>The dimension a pointer of the schema points to.\<close>

definition deref :: "PCSCHEMA \<Rightarrow> nat option \<Rightarrow> PCDIMENSION option" where
  "deref s p = map_option (\<lambda>r. sc_heap s ! r) p"

definition pc_dimension_new :: PCDIMENSION where
  "pc_dimension_new = \<lparr>dim_name = None, dim_description = None, dim_position = 0, dim_size = 0,
     dim_byteoffset = 0, dim_interpretation = 0, dim_scale = d_one, dim_offset = d_zero, dim_active = 0\<rparr>"

text \<open>A clone is a new record with the same contents; \<open>pcstrdup\<close> copies the strings.\<close>

definition pc_dimension_clone :: "PCDIMENSION \<Rightarrow> PCDIMENSION" where
  "pc_dimension_clone dim = dim"

definition pc_schema_new :: "nat \<Rightarrow> PCSCHEMA" where
  "pc_schema_new ndims = \<lparr>sc_pcid = 0, sc_ndims = ndims, sc_size = 0, sc_dims = replicate ndims None,
     sc_srid = 0, sc_xdim = None, sc_ydim = None, sc_zdim = None, sc_mdim = None,
     sc_compression = 0, sc_namehash = create_string_hashtable, sc_heap = []\<rparr>"

text \<open>
  The width of a dimension is stored in a \<open>uint32_t\<close>, so that \<open>PC_UNKNOWN\<close> becomes
  4294967295; so is its byte offset. The running offset is a \<open>size_t\<close>.
\<close>

definition byteoffset_step ::
  "nat option list \<Rightarrow> nat \<Rightarrow> PCDIMENSION list \<times> nat \<Rightarrow> (PCDIMENSION list \<times> nat) res" where
  "byteoffset_step dims i st = (case st of (heap, byteoffset) \<Rightarrow>
     (case dims ! i of None \<Rightarrow> Inr (heap, byteoffset)
      | Some r \<Rightarrow> bindE (pc_interpretation_size (dim_interpretation (heap ! r))) (\<lambda>sz.
          Inr (heap[r := (heap ! r)\<lparr>dim_byteoffset := byteoffset mod 2 ^ 32, dim_size := sz mod 2 ^ 32\<rparr>],
               (byteoffset + sz mod 2 ^ 32) mod 2 ^ 64))))"

definition pc_schema_calculate_byteoffsets :: "PCSCHEMA \<Rightarrow> PCSCHEMA res" where
  "pc_schema_calculate_byteoffsets s =
     bindE (foldE (byteoffset_step (sc_dims s)) [0..<sc_ndims s] (sc_heap s, 0)) (\<lambda>(heap, byteoffset).
     Inr (s\<lparr>sc_heap := heap, sc_size := byteoffset\<rparr>))"

text \<open>The dimension handed over is a record of its own; it becomes the next one of the heap.\<close>

definition pc_schema_set_dimension :: "PCSCHEMA \<Rightarrow> PCDIMENSION \<Rightarrow> PCSCHEMA res" where
  "pc_schema_set_dimension s d =
     (if length (sc_dims s) \<le> dim_position d then Inl OutOfBounds
      else let r = length (sc_heap s);
               s = s\<lparr>sc_heap := sc_heap s @ [d], sc_dims := (sc_dims s)[dim_position d := Some r]\<rparr>
           in bindE (case dim_name d of None \<Rightarrow> Inr s
                | Some name \<Rightarrow> (case sc_namehash s of None \<Rightarrow> Inl OutOfBounds
                    | Some h \<Rightarrow> Inr (s\<lparr>sc_namehash := Some (hashtable_insert h name r)\<rparr>)))
              pc_schema_calculate_byteoffsets)"

definition clone_ref :: "PCSCHEMA \<Rightarrow> PCSCHEMA \<Rightarrow> nat option \<Rightarrow> nat option res" where
  "clone_ref s pcs p = (case p of None \<Rightarrow> Inr None
     | Some r \<Rightarrow> let pos = dim_position (sc_heap s ! r)
         in if pos < length (sc_dims pcs) then Inr (sc_dims pcs ! pos) else Inl OutOfBounds)"

definition pc_schema_clone :: "PCSCHEMA \<Rightarrow> PCSCHEMA res" where
  "pc_schema_clone s =
     bindE (foldE (\<lambda>i pcs. case sc_dims s ! i of None \<Rightarrow> Inr pcs
              | Some r \<Rightarrow> pc_schema_set_dimension pcs (pc_dimension_clone (sc_heap s ! r)))
            [0..<sc_ndims s]
            ((pc_schema_new (sc_ndims s))\<lparr>sc_pcid := sc_pcid s, sc_srid := sc_srid s,
               sc_compression := sc_compression s\<rparr>)) (\<lambda>pcs.
     bindE (clone_ref s pcs (sc_xdim s)) (\<lambda>x. bindE (clone_ref s pcs (sc_ydim s)) (\<lambda>y.
     bindE (clone_ref s pcs (sc_zdim s)) (\<lambda>z. bindE (clone_ref s pcs (sc_mdim s)) (\<lambda>m.
     pc_schema_calculate_byteoffsets
       (pcs\<lparr>sc_xdim := x, sc_ydim := y, sc_zdim := z, sc_mdim := m\<rparr>))))))"

definition check_xyzm_step :: "nat \<Rightarrow> PCSCHEMA \<Rightarrow> PCSCHEMA res" where
  "check_xyzm_step i s = (case sc_dims s ! i of None \<Rightarrow> Inl OutOfBounds
     | Some r \<Rightarrow> (case dim_name (sc_heap s ! r) of None \<Rightarrow> Inr s
        | Some dimname \<Rightarrow> Inr (
            if str_eq dimname ''X'' \<or> str_eq dimname ''Longitude'' \<or> str_eq dimname ''Lon''
            then s\<lparr>sc_xdim := Some r\<rparr>
            else if str_eq dimname ''Y'' \<or> str_eq dimname ''Latitude'' \<or> str_eq dimname ''Lat''
            then s\<lparr>sc_ydim := Some r\<rparr>
            else if str_eq dimname ''Z'' \<or> str_eq dimname ''H'' \<or> str_eq dimname ''Height''
            then s\<lparr>sc_zdim := Some r\<rparr>
            else if str_eq dimname ''M'' \<or> str_eq dimname ''T'' \<or> str_eq dimname ''Time''
                 \<or> str_eq dimname ''GPSTime''
            then s\<lparr>sc_mdim := Some r\<rparr>
            else s)))"

definition pc_schema_check_xyzm :: "PCSCHEMA \<Rightarrow> PCSCHEMA res" where
  "pc_schema_check_xyzm s = foldE check_xyzm_step [0..<sc_ndims s] s"

definition pc_schema_is_valid :: "PCSCHEMA \<Rightarrow> bool" where
  "pc_schema_is_valid s =
     (if sc_xdim s = None then False
      else if sc_ydim s = None then False
      else if sc_ndims s = 0 then False
      else list_all (\<lambda>i. sc_dims s ! i \<noteq> None) [0..<sc_ndims s])"

definition pc_schema_get_dimension :: "PCSCHEMA \<Rightarrow> nat \<Rightarrow> PCDIMENSION option" where
  "pc_schema_get_dimension s dim = (if dim < sc_ndims s then deref s (sc_dims s ! dim) else None)"

definition pc_schema_get_dimension_by_name :: "PCSCHEMA \<Rightarrow> string \<Rightarrow> PCDIMENSION option" where
  "pc_schema_get_dimension_by_name s name = (case sc_namehash s of None \<Rightarrow> None
     | Some h \<Rightarrow> deref s (hashtable_search h name))"

definition pc_schema_get_size :: "PCSCHEMA \<Rightarrow> nat" where
  "pc_schema_get_size s = sc_size s"

text \<open>Both comparisons leave at the first difference; a missing dimension or name is a null pointer.\<close>

definition same_dim :: "PCDIMENSION option \<Rightarrow> PCDIMENSION option \<Rightarrow> bool res" where
  "same_dim p q = (case (p, q) of
       (Some d1, Some d2) \<Rightarrow> (case (dim_name d1, dim_name d2) of
           (Some n1, Some n2) \<Rightarrow> Inr (str_eq n1 n2 \<and> dim_interpretation d1 = dim_interpretation d2)
         | _ \<Rightarrow> Inl OutOfBounds)
     | _ \<Rightarrow> Inl OutOfBounds)"

fun all_until :: "('a \<Rightarrow> bool res) \<Rightarrow> 'a list \<Rightarrow> bool res" where
  "all_until f [] = Inr True"
| "all_until f (x # xs) = bindE (f x) (\<lambda>b. if b then all_until f xs else Inr False)"

definition pc_schema_same_dimensions :: "PCSCHEMA \<Rightarrow> PCSCHEMA \<Rightarrow> bool res" where
  "pc_schema_same_dimensions s1 s2 =
     (if sc_ndims s1 \<noteq> sc_ndims s2 then Inr False
      else all_until (\<lambda>i. same_dim (deref s1 (sc_dims s1 ! i)) (deref s2 (sc_dims s2 ! i))) [0..<sc_ndims s1])"

definition same_interp_dim :: "PCSCHEMA \<Rightarrow> PCDIMENSION option \<Rightarrow> bool res" where
  "same_interp_dim s1 p = (case p of None \<Rightarrow> Inl OutOfBounds
     | Some s2dim \<Rightarrow> (case dim_name s2dim of None \<Rightarrow> Inl OutOfBounds
        | Some name \<Rightarrow> Inr (case pc_schema_get_dimension_by_name s1 name of None \<Rightarrow> True
            | Some s1dim \<Rightarrow>
                (if dim_interpretation s1dim \<noteq> dim_interpretation s2dim then False
                 else if \<not> d_eq (dim_scale s1dim) (dim_scale s2dim) then False
                 else if \<not> d_eq (dim_offset s1dim) (dim_offset s2dim) then False
                 else True))))"

definition pc_schema_same_interpretations :: "PCSCHEMA \<Rightarrow> PCSCHEMA \<Rightarrow> bool res" where
  "pc_schema_same_interpretations s1 s2 =
     (if sc_srid s1 \<noteq> sc_srid s2 then Inr False
      else all_until (\<lambda>i. same_interp_dim s1 (deref s2 (sc_dims s2 ! i))) [0..<sc_ndims s2])"

section \<open>Layout\<close>

text \<open>The width of a dimension as stored, and the offset of position \<open>i\<close> before truncation.\<close>

definition width :: "PCDIMENSION \<Rightarrow> nat" where
  "width d = isize (dim_interpretation d) mod 2 ^ 32"

definition slot_width :: "PCDIMENSION list \<Rightarrow> nat option \<Rightarrow> nat" where
  "slot_width heap p = (case p of None \<Rightarrow> 0 | Some r \<Rightarrow> width (heap ! r))"

definition layout_off :: "PCDIMENSION list \<Rightarrow> nat option list \<Rightarrow> nat \<Rightarrow> nat" where
  "layout_off heap dims i = (\<Sum>j<i. slot_width heap (dims ! j))"

text \<open>Every pointer is valid, no two positions share a dimension, and every interpretation has a width.\<close>

definition refs_ok :: "PCDIMENSION list \<Rightarrow> nat option list \<Rightarrow> bool" where
  "refs_ok heap dims =
     ((\<forall>i < length dims. \<forall>r. dims ! i = Some r \<longrightarrow>
         r < length heap \<and> dim_interpretation (heap ! r) < NUM_INTERPRETATIONS) \<and>
      (\<forall>i < length dims. \<forall>j < length dims. dims ! i = dims ! j \<longrightarrow> dims ! i \<noteq> None \<longrightarrow> i = j))"

definition laid_out :: "PCDIMENSION list \<Rightarrow> nat option list \<Rightarrow> nat \<Rightarrow> PCDIMENSION list \<Rightarrow> bool" where
  "laid_out heap dims k heap' = (length heap' = length heap \<and>
     (\<forall>r < length heap. heap' ! r =
        (case find (\<lambda>i. dims ! i = Some r) [0..<k] of None \<Rightarrow> heap ! r
         | Some i \<Rightarrow> (heap ! r)\<lparr>dim_byteoffset := layout_off heap dims i mod 2 ^ 32, dim_size := width (heap ! r)\<rparr>)))"

lemma find_append: "find P (xs @ ys) = (case find P xs of None \<Rightarrow> find P ys | Some x \<Rightarrow> Some x)"
  by (induction xs) auto

lemma find_upt_Some: "find P [0..<k] = Some i \<Longrightarrow> i < k \<and> P i"
  by (auto simp: find_Some_iff)

lemma find_upt_None: "find P [0..<k] = None \<longleftrightarrow> (\<forall>i < k. \<not> P i)"
  by (auto simp: find_None_iff)

lemma pc_interpretation_size_lt:
  "t < NUM_INTERPRETATIONS \<Longrightarrow> pc_interpretation_size t = Inr (isize t)"
  by (simp add: pc_interpretation_size_def isize_def)

lemma byteoffsets_prefix:
  assumes ok: "refs_ok heap dims" and k: "k \<le> length dims"
  shows "\<exists>heap'. foldE (byteoffset_step dims) [0..<k] (heap, 0) =
      Inr (heap', layout_off heap dims k mod 2 ^ 64) \<and> laid_out heap dims k heap'"
  using k
proof (induction k)
  case 0
  then show ?case by (simp add: laid_out_def layout_off_def)
next
  case (Suc k)
  then obtain h1 where h1: "foldE (byteoffset_step dims) [0..<k] (heap, 0) =
      Inr (h1, layout_off heap dims k mod 2 ^ 64)" and l1: "laid_out heap dims k h1" by auto
  have fold: "foldE (byteoffset_step dims) [0..<Suc k] (heap, 0) =
      byteoffset_step dims k (h1, layout_off heap dims k mod 2 ^ 64)"
    by (simp only: foldE_upt_Suc h1 bindE_Inr)
  show ?case
  proof (cases "dims ! k")
    case None
    have "find (\<lambda>i. dims ! i = Some r) [0..<Suc k] = find (\<lambda>i. dims ! i = Some r) [0..<k]" for r
      by (simp add: find_append None split: option.split)
    then have "laid_out heap dims (Suc k) h1" using l1 by (simp add: laid_out_def)
    then show ?thesis unfolding fold
      by (simp add: byteoffset_step_def None layout_off_def slot_width_def)
  next
    case (Some r)
    have r: "r < length heap" "dim_interpretation (heap ! r) < NUM_INTERPRETATIONS"
      using ok Suc_le_lessD [OF Suc.prems] Some unfolding refs_ok_def by blast+
    have new: "find (\<lambda>i. dims ! i = Some r) [0..<k] = None"
      using ok Suc.prems Some unfolding refs_ok_def find_upt_None
      by (metis Suc_le_lessD less_irrefl less_trans option.distinct(1))
    have hr: "h1 ! r = heap ! r" using l1 r new by (simp add: laid_out_def)
    let ?o = "layout_off heap dims k"
    let ?h = "h1[r := (heap ! r)\<lparr>dim_byteoffset := ?o mod 2 ^ 64 mod 2 ^ 32, dim_size := width (heap ! r)\<rparr>]"
    have mm: "?o mod 2 ^ 64 mod 2 ^ 32 = ?o mod 2 ^ 32"
      by (rule mod_mod_cancel) simp
    have "laid_out heap dims (Suc k) ?h"
      unfolding laid_out_def
    proof (intro conjI allI impI)
      show "length ?h = length heap" using l1 by (simp add: laid_out_def)
    next
      fix q assume q: "q < length heap"
      show "?h ! q = (case find (\<lambda>i. dims ! i = Some q) [0..<Suc k] of None \<Rightarrow> heap ! q
         | Some i \<Rightarrow> (heap ! q)\<lparr>dim_byteoffset := layout_off heap dims i mod 2 ^ 32, dim_size := width (heap ! q)\<rparr>)"
      proof (cases "q = r")
        case True
        then show ?thesis using r(1) l1 new Some mm by (simp add: find_append laid_out_def)
      next
        case False
        then have "find (\<lambda>i. dims ! i = Some q) [0..<Suc k] = find (\<lambda>i. dims ! i = Some q) [0..<k]"
          using Some by (simp add: find_append split: option.split)
        then show ?thesis using False q l1 by (simp add: laid_out_def)
      qed
    qed
    moreover have "(?o mod 2 ^ 64 + width (heap ! r)) mod 2 ^ 64 = layout_off heap dims (Suc k) mod 2 ^ 64"
      by (simp add: layout_off_def slot_width_def Some mod_add_left_eq)
    ultimately show ?thesis unfolding fold
      using r by (simp add: byteoffset_step_def Some hr pc_interpretation_size_lt width_def)
  qed
qed

lemma calculate_byteoffsets_eq:
  assumes "refs_ok (sc_heap s) (sc_dims s)" "length (sc_dims s) = sc_ndims s"
  obtains heap' where "pc_schema_calculate_byteoffsets s =
      Inr (s\<lparr>sc_heap := heap', sc_size := layout_off (sc_heap s) (sc_dims s) (sc_ndims s) mod 2 ^ 64\<rparr>)"
    "laid_out (sc_heap s) (sc_dims s) (sc_ndims s) heap'"
  using byteoffsets_prefix [OF assms(1), of "sc_ndims s"] assms(2) that
  by (auto simp: pc_schema_calculate_byteoffsets_def)

section \<open>Well-formed schemas\<close>

definition layout_ok :: "PCSCHEMA \<Rightarrow> bool" where
  "layout_ok s = ((\<forall>i < sc_ndims s. \<forall>r. sc_dims s ! i = Some r \<longrightarrow>
       dim_byteoffset (sc_heap s ! r) = layout_off (sc_heap s) (sc_dims s) i mod 2 ^ 32 \<and>
       dim_size (sc_heap s ! r) = width (sc_heap s ! r)) \<and>
     sc_size s = layout_off (sc_heap s) (sc_dims s) (sc_ndims s) mod 2 ^ 64)"

text \<open>The name table holds one entry per named dimension, and it refers to that dimension.\<close>

definition names_ok :: "PCDIMENSION list \<Rightarrow> nat option list \<Rightarrow> (string, nat) hashtable \<Rightarrow> bool" where
  "names_ok heap dims h = (ht_for hash_str str_eq h \<and> distinct (map e_v (entries h)) \<and>
     (\<forall>k r. (k, r) \<in> (\<lambda>e. (e_k e, e_v e)) ` set (entries h) \<longleftrightarrow>
        Some r \<in> set dims \<and> dim_name (heap ! r) = Some k))"

definition schema_wf :: "PCSCHEMA \<Rightarrow> bool" where
  "schema_wf s = (length (sc_dims s) = sc_ndims s \<and> refs_ok (sc_heap s) (sc_dims s) \<and>
     (\<forall>i < sc_ndims s. \<forall>r. sc_dims s ! i = Some r \<longrightarrow> dim_position (sc_heap s ! r) = i) \<and>
     layout_ok s \<and> (\<exists>h. sc_namehash s = Some h \<and> names_ok (sc_heap s) (sc_dims s) h))"

lemma laid_out_nth:
  assumes "laid_out heap dims k heap'" "r < length heap"
  shows "dim_name (heap' ! r) = dim_name (heap ! r)"
    "dim_position (heap' ! r) = dim_position (heap ! r)"
    "dim_interpretation (heap' ! r) = dim_interpretation (heap ! r)"
    "dim_scale (heap' ! r) = dim_scale (heap ! r)"
    "dim_offset (heap' ! r) = dim_offset (heap ! r)"
  using assms by (simp_all add: laid_out_def split: option.split)

lemma laid_out_shape:
  assumes "laid_out heap dims k heap'" "r < length heap"
  shows "\<exists>a b. heap' ! r = (heap ! r)\<lparr>dim_byteoffset := a, dim_size := b\<rparr>"
proof (cases "find (\<lambda>i. dims ! i = Some r) [0..<k]")
  case None
  then have "heap' ! r = (heap ! r)\<lparr>dim_byteoffset := dim_byteoffset (heap ! r), dim_size := dim_size (heap ! r)\<rparr>"
    using assms by (simp add: laid_out_def)
  then show ?thesis by blast
next
  case (Some i)
  then have "heap' ! r = (heap ! r)\<lparr>dim_byteoffset := layout_off heap dims i mod 2 ^ 32, dim_size := width (heap ! r)\<rparr>"
    using assms by (simp add: laid_out_def)
  then show ?thesis by blast
qed

lemma laid_out_layout_off:
  assumes "laid_out heap dims k heap'" "refs_ok heap dims" "i \<le> length dims"
  shows "layout_off heap' dims i = layout_off heap dims i"
  unfolding layout_off_def
proof (rule sum.cong)
  fix j assume "j \<in> {..<i}"
  then have "j < length dims" using assms(3) by simp
  then have "r < length heap" if "dims ! j = Some r" for r
    using assms(2) that unfolding refs_ok_def by blast
  then show "slot_width heap' (dims ! j) = slot_width heap (dims ! j)"
    using laid_out_nth(3) [OF assms(1)]
    by (auto simp: slot_width_def width_def split: option.split)
qed simp

lemma laid_out_at:
  assumes "laid_out heap dims (length dims) heap'" "refs_ok heap dims" "i < length dims" "dims ! i = Some r"
  shows "dim_byteoffset (heap' ! r) = layout_off heap dims i mod 2 ^ 32" "dim_size (heap' ! r) = width (heap ! r)"
proof -
  have "find (\<lambda>j. dims ! j = Some r) [0..<length dims] = Some i"
  proof (cases "find (\<lambda>j. dims ! j = Some r) [0..<length dims]")
    case None
    then show ?thesis using assms(3,4) by (simp add: find_upt_None)
  next
    case (Some j)
    then have "j < length dims" "dims ! j = Some r" by (auto dest: find_upt_Some)
    then show ?thesis using Some assms(2-4) unfolding refs_ok_def by auto
  qed
  moreover have "r < length heap" using assms(2-4) unfolding refs_ok_def by auto
  ultimately show "dim_byteoffset (heap' ! r) = layout_off heap dims i mod 2 ^ 32"
    "dim_size (heap' ! r) = width (heap ! r)"
    using assms(1) by (simp_all add: laid_out_def)
qed

lemma refs_ok_valid: "refs_ok heap dims \<Longrightarrow> Some r \<in> set dims \<Longrightarrow> r < length heap"
  unfolding refs_ok_def in_set_conv_nth by blast

lemma calculate_wf:
  assumes refs: "refs_ok (sc_heap s) (sc_dims s)" and len: "length (sc_dims s) = sc_ndims s"
    and pos: "\<forall>i < sc_ndims s. \<forall>r. sc_dims s ! i = Some r \<longrightarrow> dim_position (sc_heap s ! r) = i"
    and names: "sc_namehash s = Some h" "names_ok (sc_heap s) (sc_dims s) h"
  obtains heap' sz where "pc_schema_calculate_byteoffsets s = Inr (s\<lparr>sc_heap := heap', sc_size := sz\<rparr>)"
    "schema_wf (s\<lparr>sc_heap := heap', sc_size := sz\<rparr>)" "laid_out (sc_heap s) (sc_dims s) (sc_ndims s) heap'"
proof -
  obtain heap' where c: "pc_schema_calculate_byteoffsets s =
      Inr (s\<lparr>sc_heap := heap', sc_size := layout_off (sc_heap s) (sc_dims s) (sc_ndims s) mod 2 ^ 64\<rparr>)"
    and l: "laid_out (sc_heap s) (sc_dims s) (sc_ndims s) heap'"
    by (rule calculate_byteoffsets_eq [OF refs len])
  let ?s = "s\<lparr>sc_heap := heap', sc_size := layout_off (sc_heap s) (sc_dims s) (sc_ndims s) mod 2 ^ 64\<rparr>"
  have lh: "length heap' = length (sc_heap s)" using l by (simp add: laid_out_def)
  have valid: "r < length (sc_heap s)" if "sc_dims s ! i = Some r" "i < sc_ndims s" for i r
    using refs that len unfolding refs_ok_def by auto
  have "refs_ok heap' (sc_dims s)"
    using refs laid_out_nth(3) [OF l] lh unfolding refs_ok_def by auto
  moreover have "\<forall>i < sc_ndims s. \<forall>r. sc_dims s ! i = Some r \<longrightarrow> dim_position (heap' ! r) = i"
    using pos laid_out_nth(2) [OF l] valid by auto
  moreover have "layout_ok ?s"
    using laid_out_at [of "sc_heap s" "sc_dims s" heap'] laid_out_layout_off [OF l refs] refs l len valid
      laid_out_nth(3) [OF l]
    by (auto simp: layout_ok_def width_def)
  moreover have "names_ok heap' (sc_dims s) h"
    using names(2) laid_out_nth(1) [OF l] refs_ok_valid [OF refs] unfolding names_ok_def by auto
  ultimately have "schema_wf ?s" using len names(1) by (simp add: schema_wf_def)
  then show thesis using that c l by blast
qed

text \<open>Entering a dimension at a free position keeps the schema well-formed.\<close>

lemma set_dimension_wf:
  assumes wf: "schema_wf s" and p: "dim_position d < sc_ndims s" "sc_dims s ! dim_position d = None"
    and t: "dim_interpretation d < NUM_INTERPRETATIONS"
  obtains s' where "pc_schema_set_dimension s d = Inr s'" "schema_wf s'"
    "sc_dims s' = (sc_dims s)[dim_position d := Some (length (sc_heap s))]" "sc_ndims s' = sc_ndims s"
    "length (sc_heap s') = Suc (length (sc_heap s))"
    "laid_out (sc_heap s @ [d]) (sc_dims s') (sc_ndims s) (sc_heap s')"
    "sc_pcid s' = sc_pcid s" "sc_srid s' = sc_srid s" "sc_compression s' = sc_compression s"
    "sc_xdim s' = sc_xdim s" "sc_ydim s' = sc_ydim s" "sc_zdim s' = sc_zdim s" "sc_mdim s' = sc_mdim s"
proof -
  let ?r = "length (sc_heap s)" and ?p = "dim_position d"
  let ?heap = "sc_heap s @ [d]" and ?dims = "(sc_dims s)[?p := Some (length (sc_heap s))]"
  obtain h where h: "sc_namehash s = Some h" "names_ok (sc_heap s) (sc_dims s) h"
    and len: "length (sc_dims s) = sc_ndims s" and refs: "refs_ok (sc_heap s) (sc_dims s)"
    and pos: "\<forall>i < sc_ndims s. \<forall>r. sc_dims s ! i = Some r \<longrightarrow> dim_position (sc_heap s ! r) = i"
    using wf unfolding schema_wf_def by blast
  define h' where "h' = (case dim_name d of None \<Rightarrow> h | Some n \<Rightarrow> hashtable_insert h n ?r)"
  define s1 where "s1 = s\<lparr>sc_heap := ?heap, sc_dims := ?dims, sc_namehash := Some h'\<rparr>"
  have valid: "\<And>i r. i < sc_ndims s \<Longrightarrow> sc_dims s ! i = Some r \<Longrightarrow> r < length (sc_heap s)"
    using refs len unfolding refs_ok_def by auto
  have nth: "?heap ! r = sc_heap s ! r" if "r < ?r" for r using that by (simp add: nth_append)
  have hs: "s\<lparr>sc_namehash := Some h\<rparr> = s" using h(1) by (cases s) simp
  have "s\<lparr>sc_heap := ?heap, sc_dims := ?dims, sc_namehash := Some h\<rparr> =
      (s\<lparr>sc_namehash := Some h\<rparr>)\<lparr>sc_heap := ?heap, sc_dims := ?dims\<rparr>" by simp
  then have hs: "s\<lparr>sc_heap := ?heap, sc_dims := ?dims, sc_namehash := Some h\<rparr> =
      s\<lparr>sc_heap := ?heap, sc_dims := ?dims\<rparr>" by (simp only: hs)
  have e: "pc_schema_set_dimension s d = pc_schema_calculate_byteoffsets s1"
    using p(1) len h(1)
    by (cases "dim_name d") (simp_all add: pc_schema_set_dimension_def Let_def s1_def h'_def hs)
  have s1: "sc_heap s1 = ?heap" "sc_dims s1 = ?dims" "sc_ndims s1 = sc_ndims s" "sc_namehash s1 = Some h'"
    by (simp_all add: s1_def)
  have upd: "?dims ! i = (if i = ?p then Some ?r else sc_dims s ! i)" if "i < sc_ndims s" for i
    using that len by simp
  have refs1: "refs_ok ?heap ?dims"
    unfolding refs_ok_def
  proof (intro conjI allI impI)
    fix i r assume i: "i < length ?dims" "?dims ! i = Some r"
    have "r < length ?heap \<and> dim_interpretation (?heap ! r) < NUM_INTERPRETATIONS"
    proof (cases "i = ?p")
      case True
      then have "r = ?r" using i upd p(1) by simp
      then show ?thesis using t by simp
    next
      case False
      then have "sc_dims s ! i = Some r" "i < length (sc_dims s)" using i upd len by auto
      then have "r < ?r \<and> dim_interpretation (sc_heap s ! r) < NUM_INTERPRETATIONS"
        using refs unfolding refs_ok_def by blast
      then show ?thesis using nth by simp
    qed
    then show "r < length ?heap" "dim_interpretation (?heap ! r) < NUM_INTERPRETATIONS" by auto
  next
    fix i j assume ij: "i < length ?dims" "j < length ?dims" "?dims ! i = ?dims ! j" "?dims ! i \<noteq> None"
    then have l: "i < sc_ndims s" "j < sc_ndims s" using len by simp_all
    have no: "sc_dims s ! i \<noteq> Some ?r" "sc_dims s ! j \<noteq> Some ?r" using valid l by fastforce+
    then have "i = ?p \<longleftrightarrow> j = ?p" using ij(3) by (auto simp: upd l split: if_splits)
    moreover have "i = j" if "i \<noteq> ?p" "j \<noteq> ?p"
      using ij l that refs len unfolding refs_ok_def by (auto simp: upd)
    ultimately show "i = j" by blast
  qed
  have pos1: "\<forall>i < sc_ndims s. \<forall>r. ?dims ! i = Some r \<longrightarrow> dim_position (?heap ! r) = i"
  proof (intro allI impI)
    fix i r assume i: "i < sc_ndims s" "?dims ! i = Some r"
    then show "dim_position (?heap ! r) = i"
      using pos valid [of i r] nth [of r] by (cases "i = ?p") (auto simp: upd)
  qed
  have set_dims: "Some r \<in> set ?dims \<longleftrightarrow> Some r \<in> set (sc_dims s) \<or> r = ?r" for r
  proof
    assume "Some r \<in> set ?dims"
    then show "Some r \<in> set (sc_dims s) \<or> r = ?r" using set_update_subset_insert by fastforce
  next
    assume "Some r \<in> set (sc_dims s) \<or> r = ?r"
    then show "Some r \<in> set ?dims"
    proof
      assume "Some r \<in> set (sc_dims s)"
      then obtain i where i: "i < sc_ndims s" "sc_dims s ! i = Some r" using len by (auto simp: in_set_conv_nth)
      then have "?dims ! i = Some r" using p(2) len by (cases "i = ?p") auto
      then show ?thesis using i len by (metis length_list_update nth_mem)
    next
      assume "r = ?r"
      then show ?thesis using p(1) len by (metis set_update_memI)
    qed
  qed
  have fresh: "Some ?r \<notin> set (sc_dims s)" using refs_ok_valid [OF refs] by blast
  have names1: "names_ok ?heap ?dims h'"
  proof (cases "dim_name d")
    case None
    have "Some r \<in> set ?dims \<and> dim_name (?heap ! r) = Some k \<longleftrightarrow>
        Some r \<in> set (sc_dims s) \<and> dim_name (sc_heap s ! r) = Some k" for r k
      using None nth refs_ok_valid [OF refs] by (auto simp: set_dims)
    then show ?thesis using h(2) None by (simp add: names_ok_def h'_def)
  next
    case (Some n)
    then have h'': "h' = hashtable_insert h n ?r" by (simp add: h'_def)
    have ho: "ht_for hash_str str_eq h" using h(2) by (simp add: names_ok_def)
    let ?e = "\<lparr>e_k = n, e_v = ?r, e_h = hash h n\<rparr>"
    note m = names.insert_entries(2) [OF ho, of n ?r]
    have st: "set (entries h') = insert ?e (set (entries h))"
      using m unfolding h'' by (metis set_mset_add_mset_insert set_mset_mset)
    have mv: "mset (map e_v (entries h')) = add_mset ?r (mset (map e_v (entries h)))"
      using m unfolding h'' by (metis (no_types, lifting) entry.select_convs(2) image_mset_add_mset mset_map)
    have old: "\<And>k r. (k, r) \<in> (\<lambda>e. (e_k e, e_v e)) ` set (entries h) \<longleftrightarrow>
        Some r \<in> set (sc_dims s) \<and> dim_name (sc_heap s ! r) = Some k"
      using h(2) by (simp add: names_ok_def)
    have "?r \<notin> e_v ` set (entries h)" using old fresh by force
    then have "distinct (?r # map e_v (entries h))" using h(2) by (simp add: names_ok_def)
    then have d: "distinct (map e_v (entries h'))"
      using mv by (metis mset.simps(2) mset_eq_imp_distinct_iff)
    have "(k, r) \<in> (\<lambda>e. (e_k e, e_v e)) ` set (entries h') \<longleftrightarrow>
        Some r \<in> set ?dims \<and> dim_name (?heap ! r) = Some k" for k r
    proof -
      have "(k, r) \<in> (\<lambda>e. (e_k e, e_v e)) ` set (entries h') \<longleftrightarrow>
        (k = n \<and> r = ?r) \<or> (k, r) \<in> (\<lambda>e. (e_k e, e_v e)) ` set (entries h)"
        by (auto simp: st)
      then show ?thesis unfolding old set_dims
        using Some fresh refs_ok_valid [OF refs, of r] nth [of r] by auto
    qed
    then show ?thesis using d names.insert_entries(1) [OF ho, of n ?r] h'' by (simp add: names_ok_def)
  qed
  have len1: "length (sc_dims s1) = sc_ndims s1" using len by (simp add: s1)
  obtain heap' sz where c: "pc_schema_calculate_byteoffsets s1 = Inr (s1\<lparr>sc_heap := heap', sc_size := sz\<rparr>)"
    and w: "schema_wf (s1\<lparr>sc_heap := heap', sc_size := sz\<rparr>)"
    and l: "laid_out ?heap ?dims (sc_ndims s) heap'"
    by (rule calculate_wf [of s1 h']) (use refs1 len1 pos1 names1 s1 in auto)
  show thesis
    by (rule that [of "s1\<lparr>sc_heap := heap', sc_size := sz\<rparr>"])
      (use e c w l in \<open>simp_all add: s1_def laid_out_def\<close>)
qed

text \<open>The empty schema is well-formed.\<close>

lemma schema_new_wf: "schema_wf (pc_schema_new n)"
proof -
  obtain h :: "(string, nat) hashtable" where h: "create_string_hashtable = Some h"
    "ht_for hash_str str_eq h" "entries h = []"
    by (rule create_string_hashtable_ok)
  then have "names_ok [] (replicate n None) h" by (auto simp: names_ok_def)
  moreover have "layout_off [] (replicate n None) n = 0"
    by (simp add: layout_off_def slot_width_def)
  ultimately show ?thesis using h(1)
    by (auto simp: schema_wf_def pc_schema_new_def refs_ok_def layout_ok_def)
qed

text \<open>Lookup by name finds exactly the dimension of that name, when the names differ.\<close>

definition distinct_names :: "PCSCHEMA \<Rightarrow> bool" where
  "distinct_names s = (\<forall>i < sc_ndims s. \<forall>j < sc_ndims s. \<forall>d e m n.
     deref s (sc_dims s ! i) = Some d \<longrightarrow> deref s (sc_dims s ! j) = Some e \<longrightarrow>
     dim_name d = Some m \<longrightarrow> dim_name e = Some n \<longrightarrow> str_eq m n \<longrightarrow> i = j)"

lemma by_name_iff:
  assumes wf: "schema_wf s" and dn: "distinct_names s"
  shows "pc_schema_get_dimension_by_name s name = Some d \<longleftrightarrow>
    (\<exists>i n. pc_schema_get_dimension s i = Some d \<and> dim_name d = Some n \<and> str_eq name n)"
proof -
  obtain h where h: "sc_namehash s = Some h" "ht_for hash_str str_eq h" "distinct (map e_v (entries h))"
    and ent: "\<And>k r. (k, r) \<in> (\<lambda>e. (e_k e, e_v e)) ` set (entries h) \<longleftrightarrow>
        Some r \<in> set (sc_dims s) \<and> dim_name (sc_heap s ! r) = Some k"
    and len: "length (sc_dims s) = sc_ndims s"
    using wf unfolding schema_wf_def names_ok_def by blast
  have eq: "eqfn h = str_eq" using h(2) by (simp add: ht_for_def)
  have "e = e'" if e: "e \<in> set (entries h)" "e' \<in> set (entries h)" and k: "str_eq (e_k e) (e_k e')" for e e'
  proof -
    have "Some (e_v e) \<in> set (sc_dims s)" "dim_name (sc_heap s ! e_v e) = Some (e_k e)"
      "Some (e_v e') \<in> set (sc_dims s)" "dim_name (sc_heap s ! e_v e') = Some (e_k e')"
      using ent e by blast+
    moreover then obtain i j where "i < sc_ndims s" "sc_dims s ! i = Some (e_v e)"
      "j < sc_ndims s" "sc_dims s ! j = Some (e_v e')" using len by (metis in_set_conv_nth)
    ultimately have "e_v e = e_v e'" using dn k unfolding distinct_names_def deref_def by fastforce
    then show ?thesis using h(3) e by (metis distinct_map inj_onD)
  qed
  then have u: "ht_unique h" using h(3) by (auto simp: ht_unique_def eq distinct_map)
  note sr = names.search_iff [OF h(2) u, of name]
  have "pc_schema_get_dimension_by_name s name = Some d \<longleftrightarrow>
      (\<exists>r. hashtable_search h name = Some r \<and> d = sc_heap s ! r)"
    by (auto simp: pc_schema_get_dimension_by_name_def h(1) deref_def)
  also have "\<dots> \<longleftrightarrow> (\<exists>r n. (n, r) \<in> (\<lambda>e. (e_k e, e_v e)) ` set (entries h) \<and> str_eq name n \<and> d = sc_heap s ! r)"
    unfolding sr by (auto simp: image_iff)
  also have "\<dots> \<longleftrightarrow> (\<exists>r n. Some r \<in> set (sc_dims s) \<and> d = sc_heap s ! r \<and> dim_name d = Some n \<and> str_eq name n)"
    unfolding ent by blast
  also have "\<dots> \<longleftrightarrow> (\<exists>i n. pc_schema_get_dimension s i = Some d \<and> dim_name d = Some n \<and> str_eq name n)"
    using len by (auto simp: pc_schema_get_dimension_def deref_def in_set_conv_nth)
  finally show ?thesis .
qed

section \<open>Schemas that points and patches use\<close>

text \<open>
  \<open>sdim s i\<close> is the dimension at position \<open>i\<close>. A schema is \<^emph>\<open>ready\<close> when it is well-formed, every
  position holds a dimension of a known interpretation, and the offsets fit in 32 bits.
\<close>

definition sdim :: "PCSCHEMA \<Rightarrow> nat \<Rightarrow> PCDIMENSION" where
  "sdim s i = sc_heap s ! the (sc_dims s ! i)"

definition schema_ready :: "PCSCHEMA \<Rightarrow> bool" where
  "schema_ready s = (schema_wf s \<and> sc_ndims s < 2 ^ 29 \<and>
     (\<forall>i < sc_ndims s. sc_dims s ! i \<noteq> None \<and> known_interp (dim_interpretation (sdim s i))))"

lemma ready_dims:
  assumes "schema_ready s" "i < sc_ndims s"
  shows "pc_schema_get_dimension s i = Some (sdim s i)" "deref s (sc_dims s ! i) = Some (sdim s i)"
    "known_interp (dim_interpretation (sdim s i))"
  using assms by (auto simp: schema_ready_def pc_schema_get_dimension_def deref_def sdim_def)

lemma ready_layout:
  assumes s: "schema_ready s"
  shows "i < sc_ndims s \<Longrightarrow> dim_size (sdim s i) = isize (dim_interpretation (sdim s i))"
    and "i < sc_ndims s \<Longrightarrow> dim_byteoffset (sdim s i) = (\<Sum>j<i. dim_size (sdim s j))"
    and "sc_size s = (\<Sum>j < sc_ndims s. dim_size (sdim s j))"
    and "sc_size s < 2 ^ 32"
proof -
  let ?n = "sc_ndims s"
  have lo: "layout_ok s" and n: "?n < 2 ^ 29" using s by (simp_all add: schema_ready_def schema_wf_def)
  have some: "sc_dims s ! i = Some (the (sc_dims s ! i))" if "i < ?n" for i
    using s that by (auto simp: schema_ready_def)
  have w: "width (sdim s i) = isize (dim_interpretation (sdim s i))" "width (sdim s i) \<le> 8" if "i < ?n" for i
    using isize_le_8 [OF ready_dims(3) [OF s that]] by (simp_all add: width_def)
  have sw: "slot_width (sc_heap s) (sc_dims s ! i) = width (sdim s i)" if "i < ?n" for i
    by (subst some [OF that]) (simp add: slot_width_def sdim_def)
  have sz: "dim_size (sdim s i) = width (sdim s i)" if "i < ?n" for i
    using lo some [OF that] that unfolding layout_ok_def sdim_def by blast
  have off: "layout_off (sc_heap s) (sc_dims s) i = (\<Sum>j<i. dim_size (sdim s j))" if "i \<le> ?n" for i
    unfolding layout_off_def using that sw sz by (intro sum.cong) auto
  have lt: "(\<Sum>j<i. dim_size (sdim s j)) < 2 ^ 32" if "i \<le> ?n" for i
  proof -
    have "(\<Sum>j<i. dim_size (sdim s j)) \<le> (\<Sum>j<i. 8)" using that w sz by (intro sum_mono) auto
    also have "\<dots> < 2 ^ 32" using that n by simp
    finally show ?thesis .
  qed
  show "i < ?n \<Longrightarrow> dim_size (sdim s i) = isize (dim_interpretation (sdim s i))" using sz w by simp
  show "i < ?n \<Longrightarrow> dim_byteoffset (sdim s i) = (\<Sum>j<i. dim_size (sdim s j))"
    using lo some [of i] off [of i] lt [of i] unfolding layout_ok_def sdim_def by fastforce
  show "sc_size s = (\<Sum>j<?n. dim_size (sdim s j))"
    using lo off [of ?n] lt [of ?n] unfolding layout_ok_def by simp
  then show "sc_size s < 2 ^ 32" using lt [of ?n] by simp
qed

lemma sum_prefix_le: "(i::nat) < j \<Longrightarrow> (\<Sum>k<i. f k) + f i \<le> (\<Sum>k<j. (f k :: nat))"
proof -
  assume "i < j"
  then have "(\<Sum>k<Suc i. f k) \<le> (\<Sum>k<j. f k)" by (intro sum_mono2) auto
  then show ?thesis by simp
qed

text \<open>The fields of a point do not overlap and lie inside it.\<close>

lemma ready_disjoint:
  assumes "schema_ready s" "i < j" "j < sc_ndims s"
  shows "dim_byteoffset (sdim s i) + dim_size (sdim s i) \<le> dim_byteoffset (sdim s j)"
  using ready_layout(2) [OF assms(1)] assms sum_prefix_le [OF assms(2), of "\<lambda>k. dim_size (sdim s k)"] by simp

lemma ready_inside:
  assumes "schema_ready s" "i < sc_ndims s"
  shows "dim_byteoffset (sdim s i) + dim_size (sdim s i) \<le> sc_size s"
  using ready_layout(2,3) [OF assms(1)] assms sum_prefix_le [OF assms(2), of "\<lambda>k. dim_size (sdim s k)"] by simp

section \<open>An example\<close>

text \<open>A schema of two dimensions, used to evaluate the properties: \<open>X\<close> of 4 bytes and \<open>Y\<close> of 1.\<close>

definition demo_x :: PCDIMENSION where
  "demo_x = pc_dimension_new\<lparr>dim_name := Some ''X'', dim_interpretation := PC_INT32\<rparr>"

definition demo_y :: PCDIMENSION where
  "demo_y = pc_dimension_new\<lparr>dim_name := Some ''Y'', dim_position := 1, dim_interpretation := PC_UINT8\<rparr>"

definition demo_schema :: PCSCHEMA where
  "demo_schema = (case bindE (pc_schema_set_dimension (pc_schema_new 2) demo_x)
      (\<lambda>s. pc_schema_set_dimension s demo_y) of Inr s \<Rightarrow> s | Inl _ \<Rightarrow> pc_schema_new 0)"

lemma demo_schema_wf: "schema_wf demo_schema" "sc_ndims demo_schema = 2"
  "sc_dims demo_schema = [Some 0, Some 1]"
  "dim_name (sdim demo_schema 0) = Some ''X''" "dim_name (sdim demo_schema 1) = Some ''Y''"
  "dim_interpretation (sdim demo_schema 0) = PC_INT32" "dim_interpretation (sdim demo_schema 1) = PC_UINT8"
  "dim_scale (sdim demo_schema 0) = d_one" "dim_scale (sdim demo_schema 1) = d_one"
  "dim_offset (sdim demo_schema 0) = d_zero" "dim_offset (sdim demo_schema 1) = d_zero"
proof -
  have n: "sc_ndims (pc_schema_new 2) = 2" "sc_dims (pc_schema_new 2) = [None, None]"
    "sc_heap (pc_schema_new 2) = []"
    by (simp_all add: pc_schema_new_def numeral_2_eq_2)
  obtain s1 where s1: "pc_schema_set_dimension (pc_schema_new 2) demo_x = Inr s1" "schema_wf s1"
    "sc_dims s1 = [Some 0, None]" "sc_ndims s1 = 2" "length (sc_heap s1) = 1"
    and l1: "laid_out [demo_x] [Some 0, None] 2 (sc_heap s1)"
    by (rule set_dimension_wf [OF schema_new_wf, of demo_x 2]) (simp_all add: n demo_x_def pc_dimension_new_def)
  obtain s2 where s2: "pc_schema_set_dimension s1 demo_y = Inr s2" "schema_wf s2"
    "sc_dims s2 = [Some 0, Some 1]" "sc_ndims s2 = 2"
    and l2: "laid_out (sc_heap s1 @ [demo_y]) [Some 0, Some 1] 2 (sc_heap s2)"
    by (rule set_dimension_wf [OF s1(2), of demo_y]) (simp_all add: s1 demo_y_def pc_dimension_new_def)
  have d: "demo_schema = s2" by (simp add: demo_schema_def s1(1) s2(1))
  show "schema_wf demo_schema" "sc_ndims demo_schema = 2" "sc_dims demo_schema = [Some 0, Some 1]"
    using s2 by (simp_all add: d)
  note n1 = laid_out_nth [OF l1]
  note n2 = laid_out_nth [OF l2]
  have "sdim demo_schema 0 = sc_heap s2 ! 0" "sdim demo_schema 1 = sc_heap s2 ! 1"
    using s2(3) by (simp_all add: sdim_def d)
  then show "dim_name (sdim demo_schema 0) = Some ''X''" "dim_name (sdim demo_schema 1) = Some ''Y''"
    "dim_interpretation (sdim demo_schema 0) = PC_INT32" "dim_interpretation (sdim demo_schema 1) = PC_UINT8"
    "dim_scale (sdim demo_schema 0) = d_one" "dim_scale (sdim demo_schema 1) = d_one"
    "dim_offset (sdim demo_schema 0) = d_zero" "dim_offset (sdim demo_schema 1) = d_zero"
    using n1 n2 s1(5)
    by (simp_all add: nth_append demo_x_def demo_y_def pc_dimension_new_def)
qed

lemma demo_schema_dims:
  "\<exists>a b. sdim demo_schema 0 = demo_x\<lparr>dim_byteoffset := a, dim_size := b\<rparr>"
  "\<exists>a b. sdim demo_schema 1 = demo_y\<lparr>dim_byteoffset := a, dim_size := b\<rparr>"
proof -
  have n: "sc_ndims (pc_schema_new 2) = 2" "sc_dims (pc_schema_new 2) = [None, None]" "sc_heap (pc_schema_new 2) = []"
    by (simp_all add: pc_schema_new_def numeral_2_eq_2)
  obtain s1 where s1: "pc_schema_set_dimension (pc_schema_new 2) demo_x = Inr s1" "schema_wf s1"
    "sc_dims s1 = [Some 0, None]" "sc_ndims s1 = 2" "length (sc_heap s1) = 1"
    and l1: "laid_out [demo_x] [Some 0, None] 2 (sc_heap s1)"
    by (rule set_dimension_wf [OF schema_new_wf, of demo_x 2]) (simp_all add: n demo_x_def pc_dimension_new_def)
  obtain s2 where s2: "pc_schema_set_dimension s1 demo_y = Inr s2" "sc_dims s2 = [Some 0, Some 1]"
    and l2: "laid_out (sc_heap s1 @ [demo_y]) [Some 0, Some 1] 2 (sc_heap s2)"
    by (rule set_dimension_wf [OF s1(2), of demo_y]) (simp_all add: s1 demo_y_def pc_dimension_new_def)
  have d: "demo_schema = s2" by (simp add: demo_schema_def s1(1) s2(1))
  obtain a b a' b' where "sc_heap s1 ! 0 = demo_x\<lparr>dim_byteoffset := a, dim_size := b\<rparr>"
    "sc_heap s2 ! 0 = (sc_heap s1 ! 0)\<lparr>dim_byteoffset := a', dim_size := b'\<rparr>"
    using laid_out_shape [OF l1, of 0] laid_out_shape [OF l2, of 0] s1(5) by (auto simp: nth_append)
  then show "\<exists>a b. sdim demo_schema 0 = demo_x\<lparr>dim_byteoffset := a, dim_size := b\<rparr>"
    using s2(2) by (intro exI [of _ a'] exI [of _ b']) (simp add: sdim_def d)
  show "\<exists>a b. sdim demo_schema 1 = demo_y\<lparr>dim_byteoffset := a, dim_size := b\<rparr>"
    using laid_out_shape [OF l2, of 1] s1(5) s2(2) by (simp add: sdim_def d nth_append)
qed

lemma demo_schema_pcid: "sc_pcid demo_schema = 0"
proof -
  obtain s1 where s1: "pc_schema_set_dimension (pc_schema_new 2) demo_x = Inr s1" "schema_wf s1"
    "sc_dims s1 = [Some 0, None]" "sc_ndims s1 = 2" "sc_pcid s1 = 0"
    by (rule set_dimension_wf [OF schema_new_wf, of demo_x 2])
      (simp_all add: pc_schema_new_def demo_x_def pc_dimension_new_def numeral_2_eq_2)
  obtain s2 where "pc_schema_set_dimension s1 demo_y = Inr s2" "sc_pcid s2 = 0"
    by (rule set_dimension_wf [OF s1(2), of demo_y]) (simp_all add: s1 demo_y_def pc_dimension_new_def)
  then show ?thesis by (simp add: demo_schema_def s1(1))
qed

lemmas demo_facts = demo_schema_wf [unfolded One_nat_def]

lemma less_2: "(i::nat) < 2 \<longleftrightarrow> i = 0 \<or> i = 1"
  by auto

lemma demo_schema_ready: "schema_ready demo_schema"
  using demo_schema_wf by (auto simp: schema_ready_def less_2 known_interp_def)

lemma demo_schema_names: "distinct_names demo_schema"
proof -
  have "deref demo_schema (sc_dims demo_schema ! i) = Some (sdim demo_schema i)" if "i < 2" for i
    using ready_dims(2) [OF demo_schema_ready, of i] that by (simp add: demo_schema_wf(2))
  then show ?thesis unfolding distinct_names_def demo_schema_wf(2)
    by (auto simp: less_2 demo_facts str_eq_def lower_letters)
qed

lemma demo_schema_size: "sc_size demo_schema = 5" "dim_size (sdim demo_schema 0) = 4"
  "dim_size (sdim demo_schema 1) = 1" "dim_byteoffset (sdim demo_schema 0) = 0" "dim_byteoffset (sdim demo_schema 1) = 4"
  using ready_layout(1,2) [OF demo_schema_ready, of 0] ready_layout(1,2) [OF demo_schema_ready, of 1]
    ready_layout(3) [OF demo_schema_ready, unfolded demo_schema_wf(2) numeral_2_eq_2]
  by (simp_all add: demo_facts)

lemmas demo_sizes = demo_schema_size [unfolded One_nat_def]

section \<open>Properties\<close>

text \<open>
  Entering a dimension at a free position of a well-formed schema succeeds and keeps the schema
  well-formed: positions, byte offsets, sizes and name table agree, although the code updates the
  dimensions in place through shared pointers.
\<close>

theorem set_dimension_keeps_schema:
  assumes "schema_wf s" "dim_position d < sc_ndims s" "sc_dims s ! dim_position d = None"
    and "dim_interpretation d < NUM_INTERPRETATIONS"
  shows "\<exists>s'. pc_schema_set_dimension s d = Inr s' \<and> schema_wf s' \<and>
    sc_dims s' = (sc_dims s)[dim_position d := Some (length (sc_heap s))]"
  by (rule set_dimension_wf [OF assms]) blast

theorem set_dimension_keeps_schema_witness:
  "\<exists>s'. pc_schema_set_dimension (pc_schema_new 2) demo_y = Inr s' \<and> schema_wf s' \<and>
     sc_dims s' = [None, Some 0]"
  using set_dimension_keeps_schema [OF schema_new_wf, of demo_y 2]
  by (simp add: pc_schema_new_def demo_y_def pc_dimension_new_def numeral_2_eq_2)

text \<open>
  In a well-formed schema whose names differ, lookup by name finds a dimension exactly when it is
  one of the schema's dimensions and bears that name up to case.
\<close>

theorem lookup_by_name:
  assumes "schema_wf s" "distinct_names s"
  shows "pc_schema_get_dimension_by_name s name = Some d \<longleftrightarrow>
    (\<exists>i n. pc_schema_get_dimension s i = Some d \<and> dim_name d = Some n \<and> str_eq name n)"
  by (rule by_name_iff [OF assms])

theorem lookup_by_name_witness:
  "pc_schema_get_dimension_by_name demo_schema ''y'' = Some (sdim demo_schema 1)"
proof -
  have "pc_schema_get_dimension demo_schema 1 = Some (sdim demo_schema 1)"
    using ready_dims(1) [OF demo_schema_ready, of 1] demo_schema_wf(2) by simp
  moreover have "str_eq ''y'' ''Y''" by (simp add: str_eq_def lower_letters)
  ultimately show ?thesis
    using lookup_by_name [OF demo_schema_wf(1) demo_schema_names] demo_schema_wf(5) by blast
qed

text \<open>
  C4: Laying out a schema, whatever offsets, sizes and total were in it, places the field of each dimension
  right behind the fields of the positions before it, with the width of its type, and changes nothing
  else of the dimensions; so two fields never overlap, all of them lie inside the point, and the point is
  exactly as wide as its fields together.
\<close>

theorem byteoffsets_place_fields:
  assumes "refs_ok (sc_heap s) (sc_dims s)" "length (sc_dims s) = sc_ndims s" "sc_ndims s < 2 ^ 29"
    and "\<forall>i < sc_ndims s. sc_dims s ! i \<noteq> None \<and> known_interp (dim_interpretation (sdim s i))"
  shows "\<exists>s'. pc_schema_calculate_byteoffsets s = Inr s' \<and> sc_dims s' = sc_dims s \<and> sc_ndims s' = sc_ndims s \<and>
    (\<forall>i < sc_ndims s. sdim s' i = (sdim s i)\<lparr>dim_byteoffset := \<Sum>k<i. isize (dim_interpretation (sdim s k)),
        dim_size := isize (dim_interpretation (sdim s i))\<rparr>) \<and>
    sc_size s' = (\<Sum>k < sc_ndims s. isize (dim_interpretation (sdim s k))) \<and>
    (\<forall>j < sc_ndims s. dim_byteoffset (sdim s' j) + dim_size (sdim s' j) \<le> sc_size s' \<and>
      (\<forall>i < j. dim_byteoffset (sdim s' i) + dim_size (sdim s' i) \<le> dim_byteoffset (sdim s' j)))"
proof -
  let ?n = "sc_ndims s" and ?w = "\<lambda>k. isize (dim_interpretation (sdim s k))"
  obtain heap' where h: "pc_schema_calculate_byteoffsets s =
      Inr (s\<lparr>sc_heap := heap', sc_size := layout_off (sc_heap s) (sc_dims s) ?n mod 2 ^ 64\<rparr>)" "laid_out (sc_heap s) (sc_dims s) ?n heap'"
    by (rule calculate_byteoffsets_eq [OF assms(1,2)])
  have some: "sc_dims s ! i = Some (the (sc_dims s ! i))" if "i < ?n" for i using assms(4) that by auto
  have w: "width (sdim s i) = ?w i" "?w i \<le> 8" if "i < ?n" for i
    using isize_le_8 [of "dim_interpretation (sdim s i)"] assms(4) that by (simp_all add: width_def)
  have "slot_width (sc_heap s) (sc_dims s ! i) = ?w i" if "i < ?n" for i
    by (subst some [OF that]) (use w [OF that] in \<open>simp add: slot_width_def sdim_def\<close>)
  then have off: "layout_off (sc_heap s) (sc_dims s) i = (\<Sum>k<i. ?w k)" if "i \<le> ?n" for i
    unfolding layout_off_def using that by (intro sum.cong) auto
  have lt: "(\<Sum>k<i. ?w k) < 2 ^ 32" if "i \<le> ?n" for i
  proof -
    have "(\<Sum>k<i. ?w k) \<le> (\<Sum>k<i. 8)" using that w by (intro sum_mono) auto
    also have "\<dots> < 2 ^ 32" using that assms(3) by simp
    finally show ?thesis .
  qed
  let ?s = "s\<lparr>sc_heap := heap', sc_size := layout_off (sc_heap s) (sc_dims s) ?n mod 2 ^ 64\<rparr>"
  have d: "sdim ?s i = (sdim s i)\<lparr>dim_byteoffset := \<Sum>k<i. ?w k, dim_size := ?w i\<rparr>" if i: "i < ?n" for i
  proof -
    let ?r = "the (sc_dims s ! i)"
    have il: "i < length (sc_dims s)" using i assms(2) by simp
    have r: "?r < length (sc_heap s)" using assms(1) some [OF i] il unfolding refs_ok_def by blast
    obtain a b where e: "heap' ! ?r = (sc_heap s ! ?r)\<lparr>dim_byteoffset := a, dim_size := b\<rparr>" using laid_out_shape [OF h(2) r] by blast
    have "a = (\<Sum>k<i. ?w k)" "b = ?w i"
      using laid_out_at [OF h(2) [folded assms(2)] assms(1) il some [OF i]] e off [of i] lt [of i] w(1) [OF i] i by (simp_all add: sdim_def)
    then show ?thesis using e by (simp add: sdim_def)
  qed
  have sz: "sc_size ?s = (\<Sum>k<?n. ?w k)" using off [of ?n] lt [of ?n] by simp
  have "dim_byteoffset (sdim ?s j) + dim_size (sdim ?s j) \<le> sc_size ?s \<and>
      (\<forall>i < j. dim_byteoffset (sdim ?s i) + dim_size (sdim ?s i) \<le> dim_byteoffset (sdim ?s j))" if "j < ?n" for j
    unfolding sz using d that sum_prefix_le [of _ _ ?w] by simp
  then show ?thesis using h(1) d sz by (intro exI [of _ ?s]) simp
qed

text \<open>The two dimensions of the example with offsets and sizes that mean nothing.\<close>

theorem byteoffsets_place_fields_witness:
  "\<exists>s'. pc_schema_calculate_byteoffsets ((pc_schema_new 2)\<lparr>sc_heap := [demo_x\<lparr>dim_byteoffset := 7\<rparr>, demo_y\<lparr>dim_size := 99\<rparr>],
       sc_dims := [Some 0, Some 1], sc_size := 3\<rparr>) = Inr s' \<and>
     dim_byteoffset (sdim s' 0) = 0 \<and> dim_size (sdim s' 0) = 4 \<and> dim_byteoffset (sdim s' 1) = 4 \<and> dim_size (sdim s' 1) = 1 \<and> sc_size s' = 5"
proof -
  define s where "s = (pc_schema_new 2)\<lparr>sc_heap := [demo_x\<lparr>dim_byteoffset := 7\<rparr>, demo_y\<lparr>dim_size := 99\<rparr>], sc_dims := [Some 0, Some 1], sc_size := 3\<rparr>"
  have n: "sc_ndims s = 2" "length (sc_dims s) = 2" by (simp_all add: s_def pc_schema_new_def)
  have l: "length (sc_dims s) = sc_ndims s" "sc_ndims s < 2 ^ 29" using n by simp_all
  have t: "dim_interpretation (sdim s 0) = PC_INT32" "dim_interpretation (sdim s (Suc 0)) = PC_UINT8"
    by (simp_all add: s_def sdim_def demo_x_def demo_y_def)
  have r: "refs_ok (sc_heap s) (sc_dims s)" by (auto simp: s_def refs_ok_def less_Suc_eq demo_x_def demo_y_def nth_Cons')
  have k: "\<forall>i < sc_ndims s. sc_dims s ! i \<noteq> None \<and> known_interp (dim_interpretation (sdim s i))"
    using t unfolding n by (auto simp: s_def less_Suc_eq numeral_2_eq_2 known_interp_def)
  have z: "isize PC_INT32 = 4" "isize PC_UINT8 = 1" by (simp_all add: isize_def INTERPRETATION_SIZES_def)
  obtain s' where s': "pc_schema_calculate_byteoffsets s = Inr s'"
    and d: "\<forall>i < 2. sdim s' i = (sdim s i)\<lparr>dim_byteoffset := \<Sum>k<i. isize (dim_interpretation (sdim s k)),
        dim_size := isize (dim_interpretation (sdim s i))\<rparr>" and sz: "sc_size s' = (\<Sum>k<2. isize (dim_interpretation (sdim s k)))"
    using byteoffsets_place_fields [OF r l k] unfolding n by blast
  have "(\<Sum>k<2. f k) = f 0 + f (Suc 0)" for f :: "nat \<Rightarrow> nat" by (simp add: numeral_2_eq_2)
  then have "(\<Sum>k<2. isize (dim_interpretation (sdim s k))) = 5" by (simp only: t z)
  then have "\<exists>s'. pc_schema_calculate_byteoffsets s = Inr s' \<and> dim_byteoffset (sdim s' 0) = 0 \<and> dim_size (sdim s' 0) = 4 \<and>
      dim_byteoffset (sdim s' 1) = 4 \<and> dim_size (sdim s' 1) = 1 \<and> sc_size s' = 5"
    using s' d [rule_format, of 0] d [rule_format, of 1] sz t z by (intro exI [of _ s']) simp
  then show ?thesis by (simp only: s_def)
qed

end
