(* ===== verification/PC_Util.thy ===== *)
theory PC_Util
  imports PC_Prelude
begin

text \<open>
  lib/pc_util.c without the functions that need schemas and points: hexadecimal text, the byte
  order of the machine, byte swaps, and the fixed-position fields of the WKB form of a point or
  patch. A \<open>uint8_t *wkb\<close> is a buffer together with an offset into it.
\<close>

section \<open>Swapping the bytes of a word in place\<close>

text \<open>
  The loop \<open>for (n = 0; n < size / 2; n++)\<close> that exchanges \<open>ptr[n]\<close> and
  \<open>ptr[size - n - 1]\<close>; the library spells it out in \<open>int32_flip_endian\<close>, the RLE and
  significant-bits flips and \<open>uncompressed_bytes_flip_endian\<close>.
\<close>

definition swap_at :: "nat \<Rightarrow> nat \<Rightarrow> byte list \<Rightarrow> byte list" where
  "swap_at sz n b = b[n := b ! (sz - n - 1), sz - n - 1 := b ! n]"

definition flip_word :: "nat \<Rightarrow> byte list \<Rightarrow> byte list" where
  "flip_word sz b = fold (swap_at sz) [0..<sz div 2] b"

lemma length_swap_at [simp]: "length (swap_at s n b) = length b"
  by (simp add: swap_at_def)

lemma flip_word_prefix:
  "length b = sz \<Longrightarrow> k \<le> sz div 2 \<Longrightarrow> length (fold (swap_at sz) [0..<k] b) = sz \<and>
   (\<forall>i < sz. fold (swap_at sz) [0..<k] b ! i =
      (if i < k \<or> sz - k \<le> i then b ! (sz - 1 - i) else b ! i))"
proof (induction k)
  case (Suc k)
  define c where "c = fold (swap_at sz) [0..<k] b"
  have IH: "length c = sz" "\<And>i. i < sz \<Longrightarrow> c ! i = (if i < k \<or> sz - k \<le> i then b ! (sz - 1 - i) else b ! i)"
    using Suc by (auto simp: c_def)
  have kk: "k < sz - k - 1" "sz - k - 1 < sz" using Suc.prems by linarith+
  have s: "fold (swap_at sz) [0..<Suc k] b = swap_at sz k c" by (simp add: c_def)
  have ck: "c ! k = b ! k" "c ! (sz - k - 1) = b ! (sz - k - 1)"
    using IH(2) [of k] IH(2) [of "sz - k - 1"] kk by auto
  have "swap_at sz k c ! i = (if i < Suc k \<or> sz - Suc k \<le> i then b ! (sz - 1 - i) else b ! i)"
    if i: "i < sz" for i
  proof -
    consider "i = k" | "i = sz - k - 1" | "i \<noteq> k" "i \<noteq> sz - k - 1" by blast
    then show ?thesis
    proof cases
      case 1
      then have "swap_at sz k c ! i = b ! (sz - k - 1)"
        using IH(1) kk ck by (simp add: swap_at_def nth_list_update)
      then show ?thesis using 1 by simp
    next
      case 2
      then have "swap_at sz k c ! i = b ! k"
        using IH(1) kk ck by (simp add: swap_at_def nth_list_update)
      moreover have "sz - 1 - i = k" "sz - Suc k \<le> i" using 2 kk by linarith+
      ultimately show ?thesis by simp
    next
      case 3
      then have "swap_at sz k c ! i = c ! i" by (simp add: swap_at_def nth_list_update)
      moreover have "i < Suc k \<longleftrightarrow> i < k" "sz - Suc k \<le> i \<longleftrightarrow> sz - k \<le> i" using 3 by auto
      ultimately show ?thesis using IH(2) [OF i] by simp
    qed
  qed
  then show ?case using IH(1) unfolding s by simp
qed simp

lemma flip_word_rev: "length b = sz \<Longrightarrow> flip_word sz b = rev b"
proof -
  assume len: "length b = sz"
  note p = flip_word_prefix [OF len order_refl]
  show ?thesis unfolding flip_word_def
  proof (rule nth_equalityI)
    show "length (fold (swap_at sz) [0..<sz div 2] b) = length (rev b)" using p len by simp
  next
    fix i assume "i < length (fold (swap_at sz) [0..<sz div 2] b)"
    then have i: "i < sz" using p by simp
    then have e: "fold (swap_at sz) [0..<sz div 2] b ! i =
      (if i < sz div 2 \<or> sz - sz div 2 \<le> i then b ! (sz - 1 - i) else b ! i)"
      using p by blast
    have "\<not> (i < sz div 2 \<or> sz - sz div 2 \<le> i) \<Longrightarrow> i = sz - 1 - i" using i by linarith
    then show "fold (swap_at sz) [0..<sz div 2] b ! i = rev b ! i"
      using e i len by (auto simp: rev_nth)
  qed
qed

lemma length_flip_word [simp]: "length (flip_word sz b) = length b"
proof -
  have "length (fold (swap_at sz) ns b) = length b" for ns by (induction ns arbitrary: b) simp_all
  then show ?thesis by (simp add: flip_word_def)
qed

lemma flip_word_twice: "length b = sz \<Longrightarrow> flip_word sz (flip_word sz b) = b"
  using flip_word_rev [of b sz] flip_word_rev [of "rev b" sz] by simp

section \<open>Hexadecimal text\<close>

text \<open>\<open>hex2char\<close>: the value of a hex digit, 20 for every other character.\<close>

definition hex2char :: "byte list" where
  "hex2char = replicate 48 20 @ [0, 1, 2, 3, 4, 5, 6, 7, 8, 9] @ replicate 7 20
     @ [10, 11, 12, 13, 14, 15] @ replicate 26 20 @ [10, 11, 12, 13, 14, 15] @ replicate 153 20"

text \<open>
  The index is \<open>(int)hexbuf[i]\<close> of a (signed) \<open>char\<close>: a byte above 127 reads before the
  table.
\<close>

definition hex_value :: "byte \<Rightarrow> byte res" where
  "hex_value c = (if sint c < 0 then Inl OutOfBounds else Inr (hex2char ! nat (sint c)))"

definition pc_bytes_from_hexbytes :: "byte list \<Rightarrow> nat \<Rightarrow> byte list res" where
  "pc_bytes_from_hexbytes hexbuf hexsize =
     (if hexsize mod 2 \<noteq> 0 then Inl (PcError ''Invalid hex string, length has to be a multiple of two!'')
      else mapE (\<lambda>i.
        bindE (bindE (rd hexbuf (2 * i) 1) (\<lambda>b. hex_value (hd b))) (\<lambda>h1.
        bindE (bindE (rd hexbuf (2 * i + 1) 1) (\<lambda>b. hex_value (hd b))) (\<lambda>h2.
        if 15 < h1 then Inl (PcError ''Invalid hex character encountered'')
        else if 15 < h2 then Inl (PcError ''Invalid hex character encountered'')
        else Inr (push_bit 4 (h1 AND 0x0F) OR (h2 AND 0x0F)))))
        [0..<hexsize div 2])"

text \<open>\<open>hexchr\<close>, the characters 0-9 and A-F.\<close>

definition hexchr :: "byte list" where
  "hexchr = [48, 49, 50, 51, 52, 53, 54, 55, 56, 57, 65, 66, 67, 68, 69, 70]"

definition pc_hexbytes_from_bytes :: "byte list \<Rightarrow> nat \<Rightarrow> byte list res" where
  "pc_hexbytes_from_bytes bytebuf bytesize =
     foldE (\<lambda>i buf. bindE (rd bytebuf i 1) (\<lambda>b.
         bindE (wr buf (2 * i) [hexchr ! unat (drop_bit 4 (hd b))]) (\<lambda>buf.
         wr buf (2 * i + 1) [hexchr ! unat (hd b AND 0x0F)])))
       [0..<bytesize] (pcalloc (2 * bytesize + 1))"

section \<open>Byte order\<close>

text \<open>\<open>machine_endian\<close> reads the first byte of the \<open>int\<close> 1: 1 on a little-endian machine.\<close>

definition machine_endian :: byte where
  "machine_endian = hd (bytes_of_word (1 :: 32 word))"

definition int32_flip_endian :: "32 word \<Rightarrow> 32 word" where
  "int32_flip_endian v = word_of_bytes (flip_word 4 (bytes_of_word v))"

definition int16_flip_endian :: "16 word \<Rightarrow> 16 word" where
  "int16_flip_endian v = word_of_bytes (swap_at 2 0 (bytes_of_word v))"

section \<open>Fields of a WKB buffer\<close>

definition wkb_get_int32 :: "byte list \<Rightarrow> nat \<Rightarrow> bool \<Rightarrow> 32 word res" where
  "wkb_get_int32 wkb off flip_endian = bindE (rd wkb off 4) (\<lambda>b.
     Inr (if flip_endian then int32_flip_endian (word_of_bytes b) else word_of_bytes b))"

definition wkb_get_int16 :: "byte list \<Rightarrow> nat \<Rightarrow> bool \<Rightarrow> 16 word res" where
  "wkb_get_int16 wkb off flip_endian = bindE (rd wkb off 2) (\<lambda>b.
     Inr (if flip_endian then int16_flip_endian (word_of_bytes b) else word_of_bytes b))"

text \<open>The setters return the buffer and the advanced write position.\<close>

definition wkb_set_double :: "byte list \<Rightarrow> nat \<Rightarrow> double \<Rightarrow> (byte list \<times> nat) res" where
  "wkb_set_double wkb off d = bindE (wr wkb off (bytes_of_word d)) (\<lambda>w. Inr (w, off + 8))"

definition wkb_set_uint32 :: "byte list \<Rightarrow> nat \<Rightarrow> 32 word \<Rightarrow> (byte list \<times> nat) res" where
  "wkb_set_uint32 wkb off i = bindE (wr wkb off (bytes_of_word i)) (\<lambda>w. Inr (w, off + 4))"

definition wkb_set_char :: "byte list \<Rightarrow> nat \<Rightarrow> byte \<Rightarrow> (byte list \<times> nat) res" where
  "wkb_set_char wkb off c = bindE (wr wkb off [c]) (\<lambda>w. Inr (w, off + 1))"

definition pc_wkb_get_pcid :: "byte list \<Rightarrow> 32 word res" where
  "pc_wkb_get_pcid wkb = bindE (rd wkb 1 4) (\<lambda>b. bindE (rd wkb 0 1) (\<lambda>e.
     Inr (if hd e \<noteq> machine_endian then int32_flip_endian (word_of_bytes b) else word_of_bytes b)))"

definition wkb_get_compression :: "byte list \<Rightarrow> 32 word res" where
  "wkb_get_compression wkb = bindE (rd wkb (1 + 4) 4) (\<lambda>b. bindE (rd wkb 0 1) (\<lambda>e.
     Inr (if hd e \<noteq> machine_endian then int32_flip_endian (word_of_bytes b) else word_of_bytes b)))"

definition wkb_get_npoints :: "byte list \<Rightarrow> 32 word res" where
  "wkb_get_npoints wkb = bindE (rd wkb (1 + 4 + 4) 4) (\<lambda>b. bindE (rd wkb 0 1) (\<lambda>e.
     Inr (if hd e \<noteq> machine_endian then int32_flip_endian (word_of_bytes b) else word_of_bytes b)))"

lemma machine_endian_1 [simp]: "machine_endian = 1"
  by (simp add: machine_endian_def bytes_of_word_def)

lemma int32_flip_endian_twice [simp]: "int32_flip_endian (int32_flip_endian v) = v"
  by (simp add: int32_flip_endian_def bytes_of_word_of_bytes flip_word_twice)

lemma int32_flip_endian_bytes: "bytes_of_word (int32_flip_endian v) = rev (bytes_of_word v)"
  by (simp add: int32_flip_endian_def bytes_of_word_of_bytes flip_word_rev)

lemma swap_at_2: "length b = 2 \<Longrightarrow> swap_at 2 0 b = rev b"
  using flip_word_rev [of b 2] by (simp add: flip_word_def)

lemma int16_flip_endian_twice [simp]: "int16_flip_endian (int16_flip_endian v) = v"
  by (simp add: int16_flip_endian_def bytes_of_word_of_bytes swap_at_2)

section \<open>Hexadecimal round trip\<close>

lemma length_hex2char [simp]: "length hex2char = 256"
  by (simp add: hex2char_def)

lemma nibble_bound: "unat (drop_bit 4 (b :: byte)) < 16" "unat (b AND 15) < 16"
proof -
  show "unat (drop_bit 4 b) < 16"
    using unat_byte [of b] unfolding unat_drop_bit_eq by (simp add: drop_bit_eq_div less_mult_imp_div_less)
  have "b AND 15 = take_bit 4 b" by (simp add: take_bit_eq_mask mask_numeral)
  show "unat (b AND 15) < 16"
    unfolding \<open>b AND 15 = take_bit 4 b\<close> unsigned_take_bit_eq by (simp add: take_bit_eq_mod)
qed

lemma hex_value_hexchr: "k < 16 \<Longrightarrow> hex_value (hexchr ! k) = Inr (word_of_nat k)"
proof -
  have "\<forall>k \<in> set [0..<16]. hex_value (hexchr ! k) = Inr (word_of_nat k)"
    unfolding hex_value_def hexchr_def hex2char_def
    by (simp add: upt_rec [of _ "_::nat"] nth_append)
  then show "k < 16 \<Longrightarrow> hex_value (hexchr ! k) = Inr (word_of_nat k)" by simp
qed

definition hex_pair :: "byte \<Rightarrow> byte list" where
  "hex_pair b = [hexchr ! unat (drop_bit 4 b), hexchr ! unat (b AND 15)]"

lemma hex_pair_join: "push_bit 4 (drop_bit 4 b AND 15) OR (b AND 15 AND 15) = (b :: byte)"
proof -
  have m: "(15 :: byte) = mask 4" by (simp add: mask_numeral)
  show ?thesis unfolding m by (rule bit_word_eqI) (auto simp: bit_simps)
qed

lemma hex_pair_join': "push_bit 4 (drop_bit 4 b) AND 240 OR b AND 15 = (b :: byte)"
proof -
  have m: "(15 :: byte) = mask 4" by (simp add: mask_numeral)
  have n: "(240 :: byte) = push_bit 4 (mask 4)" by (simp add: mask_numeral)
  show ?thesis unfolding m n by (rule bit_word_eqI) (auto simp: bit_simps)
qed

lemma pc_hexbytes_from_bytes_eq:
  "pc_hexbytes_from_bytes bs (length bs) = Inr (concat (map hex_pair bs) @ [0])"
proof -
  let ?n = "length bs"
  let ?step = "\<lambda>i buf. bindE (rd bs i 1) (\<lambda>b.
         bindE (wr buf (2 * i) [hexchr ! unat (drop_bit 4 (hd b))]) (\<lambda>buf.
         wr buf (2 * i + 1) [hexchr ! unat (hd b AND 0x0F)]))"
  have "foldE ?step [0..<k] (pcalloc (2 * ?n + 1)) =
      Inr (concat (map hex_pair (take k bs)) @ replicate (2 * (?n - k) + 1) 0)" if "k \<le> ?n" for k
    using that
  proof (induction k)
    case (Suc k)
    let ?pre = "concat (map hex_pair (take k bs))"
    have len: "length ?pre = 2 * k"
      using Suc.prems by (subst length_concat_const [of _ 2]) (auto simp: hex_pair_def)
    have r: "replicate (2 * (?n - k) + 1) (0::byte) = [0] @ [0] @ replicate (2 * (?n - Suc k) + 1) 0"
      using Suc.prems by (simp add: Suc_diff_Suc [symmetric] del: replicate.simps) simp
    have b: "rd bs k 1 = Inr [bs ! k]" using Suc.prems by (simp add: rd_def Cons_nth_drop_Suc [symmetric])
    have w1: "wr (?pre @ [0] @ [0] @ c) (2 * k) [x] = Inr (?pre @ [x] @ [0] @ c)" for x c
      by (rule wr_mid) (simp_all add: len)
    have w2: "wr (?pre @ [x] @ [0] @ c) (2 * k + 1) [y] = Inr (?pre @ [x] @ [y] @ c)" for x y c
      using wr_mid [of "2 * k + 1" "?pre @ [x]" "[0]" "[y]" c] by (simp add: len)
    have "foldE ?step [0..<Suc k] (pcalloc (2 * ?n + 1)) =
        bindE (foldE ?step [0..<k] (pcalloc (2 * ?n + 1))) (?step k)"
      by (simp add: foldE_append del: foldE.simps(2)) (simp add: bindE_def split: sum.splits)
    also have "\<dots> = ?step k (?pre @ [0] @ [0] @ replicate (2 * (?n - Suc k) + 1) 0)"
      unfolding Suc.IH [OF Suc_leD [OF Suc.prems]] bindE_Inr r ..
    also have "\<dots> = Inr (concat (map hex_pair (take (Suc k) bs)) @ replicate (2 * (?n - Suc k) + 1) 0)"
      unfolding b bindE_Inr w1 w2 using Suc.prems
      by (simp add: take_Suc_conv_app_nth hex_pair_def)
    finally show ?case .
  qed (simp add: pcalloc_def)
  from this [of ?n] show ?thesis by (simp add: pc_hexbytes_from_bytes_def)
qed

lemma hex_pair_at:
  assumes "i < length bs"
  shows "rd (concat (map hex_pair bs) @ r) (2 * i) 1 = Inr [hexchr ! unat (drop_bit 4 (bs ! i))]"
    and "rd (concat (map hex_pair bs) @ r) (2 * i + 1) 1 = Inr [hexchr ! unat (bs ! i AND 15)]"
proof -
  let ?a = "concat (map hex_pair (take i bs))" and ?c = "concat (map hex_pair (drop (Suc i) bs)) @ r"
  have "bs = take i bs @ bs ! i # drop (Suc i) bs" using assms by (rule id_take_nth_drop)
  then have s: "concat (map hex_pair bs) @ r = ?a @ hex_pair (bs ! i) @ ?c"
    by (metis append_assoc concat.simps(2) concat_append list.simps(9) map_append)
  have len: "length ?a = 2 * i"
    using assms by (subst length_concat_const [of _ 2]) (auto simp: hex_pair_def)
  show "rd (concat (map hex_pair bs) @ r) (2 * i) 1 = Inr [hexchr ! unat (drop_bit 4 (bs ! i))]"
    unfolding s by (simp add: rd_def len hex_pair_def)
  show "rd (concat (map hex_pair bs) @ r) (2 * i + 1) 1 = Inr [hexchr ! unat (bs ! i AND 15)]"
    unfolding s by (simp add: rd_def len hex_pair_def)
qed

lemma hex_roundtrip: "pc_bytes_from_hexbytes (concat (map hex_pair bs) @ r) (2 * length bs) = Inr bs"
proof -
  have lt: "\<not> (15 :: byte) < drop_bit 4 b" "\<not> (15 :: byte) < b AND 15" for b :: byte
    using nibble_bound [of b] by (simp_all add: word_less_nat_alt)
  show ?thesis unfolding pc_bytes_from_hexbytes_def
    by (simp, rule mapE_eq_InrI)
      (simp_all add: hex_pair_at hex_pair_at [simplified] hex_value_hexchr nibble_bound lt hex_pair_join hex_pair_join')
qed

section \<open>Properties\<close>

text \<open>Converting bytes to hexadecimal text and back gives the bytes, for every byte string.\<close>

theorem hex_text_roundtrip:
  "bindE (pc_hexbytes_from_bytes bs (length bs)) (\<lambda>hex. pc_bytes_from_hexbytes hex (2 * length bs)) = Inr bs"
  by (simp add: pc_hexbytes_from_bytes_eq hex_roundtrip)

end
