(* ===== verification/PC_Bytes_Base.thy ===== *)
theory PC_Bytes_Base
  imports PC_Val PC_Util
begin

text \<open>
  The byte array of one dimension (\<open>PCBYTES\<close> of lib/pc_api.h) and the operations of
  lib/pc_bytes.c that do not depend on its compression. \<open>pb_size\<close> is the field \<open>size\<close>; a
  well-formed array has it equal to the length of its buffer. The code's counters are \<open>int\<close>:
  the model speaks of arrays of fewer than \<open>2 ^ 31\<close> points.
\<close>

abbreviation (input) "PC_DIM_NONE \<equiv> 0 :: nat"
abbreviation (input) "PC_DIM_RLE \<equiv> 1 :: nat"
abbreviation (input) "PC_DIM_SIGBITS \<equiv> 2 :: nat"
abbreviation (input) "PC_DIM_ZLIB \<equiv> 3 :: nat"

record PCBYTES =
  pb_size :: nat
  pb_npoints :: nat
  pb_interpretation :: nat
  pb_compression :: nat
  pb_readonly :: nat
  pb_bytes :: "byte list"

definition pc_bytes_empty :: "PCBYTES \<Rightarrow> bool" where
  "pc_bytes_empty pcb = (pb_npoints pcb = 0 \<or> pb_size pcb = 0)"

text \<open>The product of two \<open>uint32_t\<close> wraps.\<close>

definition pc_bytes_make :: "PCDIMENSION \<Rightarrow> nat \<Rightarrow> PCBYTES" where
  "pc_bytes_make dim npoints = (let sz = dim_size dim * npoints mod 2 ^ 32 in
     \<lparr>pb_size = sz, pb_npoints = npoints, pb_interpretation = dim_interpretation dim,
      pb_compression = PC_DIM_NONE, pb_readonly = PC_FALSE, pb_bytes = pcalloc sz\<rparr>)"

definition pc_bytes_clone :: "PCBYTES \<Rightarrow> PCBYTES res" where
  "pc_bytes_clone pcb =
     (if \<not> pc_bytes_empty pcb
      then bindE (rd (pb_bytes pcb) 0 (pb_size pcb)) (\<lambda>b. Inr (pcb\<lparr>pb_bytes := b, pb_readonly := PC_FALSE\<rparr>))
      else Inr (pcb\<lparr>pb_readonly := PC_FALSE\<rparr>))"

text \<open>
  A plain array: uncompressed, of a known interpretation, its buffer exactly the \<open>npoints\<close> values.
  \<open>vals pcb\<close> are the values.
\<close>

definition plain :: "PCBYTES \<Rightarrow> bool" where
  "plain pcb = (pb_compression pcb = PC_DIM_NONE \<and> known_interp (pb_interpretation pcb) \<and>
     pb_size pcb = pb_npoints pcb * isize (pb_interpretation pcb) \<and>
     length (pb_bytes pcb) = pb_size pcb \<and> pb_npoints pcb < 2 ^ 31)"

definition vals :: "PCBYTES \<Rightarrow> byte list list" where
  "vals pcb = elems (isize (pb_interpretation pcb)) (pb_npoints pcb) (pb_bytes pcb)"

lemma plain_size: "plain pcb \<Longrightarrow> pc_interpretation_size (pb_interpretation pcb) = Inr (isize (pb_interpretation pcb))"
  by (simp add: plain_def)

lemma length_vals [simp]: "length (vals pcb) = pb_npoints pcb"
  by (simp add: vals_def)

lemma vals_width: "plain pcb \<Longrightarrow> v \<in> set (vals pcb) \<Longrightarrow> length v = isize (pb_interpretation pcb)"
  unfolding vals_def plain_def by (rule elems_lengths) auto

lemma concat_vals: "plain pcb \<Longrightarrow> concat (vals pcb) = pb_bytes pcb"
  unfolding vals_def plain_def by (simp add: concat_elems)

lemma vals_nth_rd:
  assumes "plain pcb" "i < pb_npoints pcb"
  shows "rd (pb_bytes pcb) (i * isize (pb_interpretation pcb)) (isize (pb_interpretation pcb)) = Inr (vals pcb ! i)"
proof -
  have "Suc i * isize (pb_interpretation pcb) \<le> pb_npoints pcb * isize (pb_interpretation pcb)"
    using assms(2) by (intro mult_le_mono1) simp
  then show ?thesis using assms by (simp add: plain_def vals_def rd_def)
qed

lemma clone_plain: "plain pcb \<Longrightarrow> pc_bytes_clone pcb = Inr (pcb\<lparr>pb_readonly := PC_FALSE\<rparr>)"
proof -
  assume p: "plain pcb"
  then have "rd (pb_bytes pcb) 0 (pb_size pcb) = Inr (pb_bytes pcb)" by (simp add: plain_def rd_def)
  moreover have "pcb\<lparr>pb_bytes := pb_bytes pcb, pb_readonly := PC_FALSE\<rparr> = pcb\<lparr>pb_readonly := PC_FALSE\<rparr>"
    by (cases pcb) simp
  ultimately show ?thesis by (simp add: pc_bytes_clone_def)
qed

end
