(* ===== verification/PC_Point.thy ===== *)
theory PC_Point
  imports PC_Schema PC_Bytes_Base
begin

text \<open>
  lib/pc_point.c: one point, the bytes of its dimensions in the order of the schema; and the byte-order
  change of uncompressed points of lib/pc_util.c.

  A point made by \<open>pc_point_from_data\<close> refers to memory of the caller; \<open>pt_data\<close> is the contents of
  that memory. Only \<open>pt_readonly\<close> tells such a point from one that owns its bytes. A null schema is
  \<open>None\<close>. The result of a function that reports \<open>PC_FAILURE\<close> is \<open>None\<close> inside the result type.
\<close>

record PCPOINT =
  pt_readonly :: nat
  pt_schema :: PCSCHEMA
  pt_data :: "byte list"

definition pc_point_make :: "PCSCHEMA option \<Rightarrow> PCPOINT res" where
  "pc_point_make s = (case s of None \<Rightarrow> Inl (PcError ''null schema passed into pc_point_make'')
     | Some s \<Rightarrow> (let sz = sc_size s in
         if sz = 0 then Inl (PcError ''invalid size calculation in pc_point_make'')
         else Inr \<lparr>pt_readonly = PC_FALSE, pt_schema = s, pt_data = pcalloc sz\<rparr>))"

definition pc_point_from_data :: "PCSCHEMA option \<Rightarrow> byte list \<Rightarrow> PCPOINT res" where
  "pc_point_from_data s data = (case s of None \<Rightarrow> Inl (PcError ''null schema passed into pc_point_from_data'')
     | Some s \<Rightarrow> Inr \<lparr>pt_readonly = PC_TRUE, pt_schema = s, pt_data = data\<rparr>)"

section \<open>Values\<close>

definition pc_point_get_double :: "PCPOINT \<Rightarrow> PCDIMENSION option \<Rightarrow> double option res" where
  "pc_point_get_double pt dim = (case dim of None \<Rightarrow> Inr None
     | Some dim \<Rightarrow> bindE (pc_double_from_ptr (pt_data pt) (dim_byteoffset dim) (dim_interpretation dim)) (\<lambda>d.
         Inr (Some (pc_value_scale_offset d dim))))"

definition pc_point_get_double_by_name :: "PCPOINT \<Rightarrow> string \<Rightarrow> double option res" where
  "pc_point_get_double_by_name pt name =
     pc_point_get_double pt (pc_schema_get_dimension_by_name (pt_schema pt) name)"

definition pc_point_get_double_by_index :: "PCPOINT \<Rightarrow> nat \<Rightarrow> double option res" where
  "pc_point_get_double_by_index pt idx = pc_point_get_double pt (pc_schema_get_dimension (pt_schema pt) idx)"

definition pc_point_set_double :: "PCPOINT \<Rightarrow> PCDIMENSION option \<Rightarrow> double \<Rightarrow> PCPOINT option res" where
  "pc_point_set_double pt dim val = (case dim of None \<Rightarrow> Inr None
     | Some dim \<Rightarrow> let val = pc_value_unscale_unoffset val dim in
         bindE (pc_double_to_ptr (pt_data pt) (dim_byteoffset dim) (dim_interpretation dim) val) (\<lambda>data.
         Inr (Some (pt\<lparr>pt_data := data\<rparr>))))"

definition pc_point_set_double_by_index :: "PCPOINT \<Rightarrow> nat \<Rightarrow> double \<Rightarrow> PCPOINT option res" where
  "pc_point_set_double_by_index pt idx val =
     pc_point_set_double pt (pc_schema_get_dimension (pt_schema pt) idx) val"

definition pc_point_set_double_by_name :: "PCPOINT \<Rightarrow> string \<Rightarrow> double \<Rightarrow> PCPOINT option res" where
  "pc_point_set_double_by_name pt name val =
     pc_point_set_double pt (pc_schema_get_dimension_by_name (pt_schema pt) name) val"

definition pc_point_get_x :: "PCPOINT \<Rightarrow> double option res" where
  "pc_point_get_x pt = pc_point_get_double pt (deref (pt_schema pt) (sc_xdim (pt_schema pt)))"

definition pc_point_get_y :: "PCPOINT \<Rightarrow> double option res" where
  "pc_point_get_y pt = pc_point_get_double pt (deref (pt_schema pt) (sc_ydim (pt_schema pt)))"

definition pc_point_get_z :: "PCPOINT \<Rightarrow> double option res" where
  "pc_point_get_z pt = pc_point_get_double pt (deref (pt_schema pt) (sc_zdim (pt_schema pt)))"

definition pc_point_get_m :: "PCPOINT \<Rightarrow> double option res" where
  "pc_point_get_m pt = pc_point_get_double pt (deref (pt_schema pt) (sc_mdim (pt_schema pt)))"

definition pc_point_set_x :: "PCPOINT \<Rightarrow> double \<Rightarrow> PCPOINT option res" where
  "pc_point_set_x pt val = pc_point_set_double pt (deref (pt_schema pt) (sc_xdim (pt_schema pt))) val"

definition pc_point_set_y :: "PCPOINT \<Rightarrow> double \<Rightarrow> PCPOINT option res" where
  "pc_point_set_y pt val = pc_point_set_double pt (deref (pt_schema pt) (sc_ydim (pt_schema pt))) val"

definition pc_point_set_z :: "PCPOINT \<Rightarrow> double \<Rightarrow> PCPOINT option res" where
  "pc_point_set_z pt val = pc_point_set_double pt (deref (pt_schema pt) (sc_zdim (pt_schema pt))) val"

definition pc_point_set_m :: "PCPOINT \<Rightarrow> double \<Rightarrow> PCPOINT option res" where
  "pc_point_set_m pt val = pc_point_set_double pt (deref (pt_schema pt) (sc_mdim (pt_schema pt))) val"

text \<open>The index \<open>offset + i\<close> is a \<open>uint32_t\<close>.\<close>

definition pc_point_from_double_array :: "PCSCHEMA option \<Rightarrow> double list \<Rightarrow> nat \<Rightarrow> nat \<Rightarrow> PCPOINT res" where
  "pc_point_from_double_array s arr offset stride = (case s of
       None \<Rightarrow> Inl (PcError ''null schema passed into pc_point_from_double_array'')
     | Some s \<Rightarrow>
         if stride \<noteq> sc_ndims s
         then Inl (PcError ''number of elements in schema and array do not match in pc_point_from_double_array'')
         else foldE (\<lambda>i pt. bindE (rdx arr ((offset + i) mod 2 ^ 32)) (\<lambda>v.
                  bindE (pc_point_set_double_by_index pt i v) (\<lambda>r. case r of
                      None \<Rightarrow> Inl (PcError ''failed to write value into dimension %d in pc_point_from_double_array'')
                    | Some pt \<Rightarrow> Inr pt)))
                [0..<stride] \<lparr>pt_readonly = PC_FALSE, pt_schema = s, pt_data = pcalloc (sc_size s)\<rparr>)"

text \<open>A slot of the array stays zero when its dimension cannot be read.\<close>

definition pc_point_to_double_array :: "PCPOINT \<Rightarrow> double list res" where
  "pc_point_to_double_array p =
     foldE (\<lambda>i a. bindE (pc_point_get_double_by_index p i) (\<lambda>r. case r of None \<Rightarrow> Inr a | Some d \<Rightarrow> wrx a i d))
       [0..<sc_ndims (pt_schema p)] (replicate (sc_ndims (pt_schema p)) 0)"

section \<open>Well-known binary\<close>

text \<open>One field: the bytes at \<open>p\<close> are swapped pairwise from both ends.\<close>

definition flip_field :: "byte list \<Rightarrow> nat \<Rightarrow> nat \<Rightarrow> byte list res" where
  "flip_field buf p sz = bindE (rd buf p sz) (\<lambda>w. wr buf p (flip_word sz w))"

definition flip_point_fields :: "PCSCHEMA \<Rightarrow> nat \<Rightarrow> byte list \<Rightarrow> byte list res" where
  "flip_point_fields schema i buf =
     foldE (\<lambda>j buf. case deref schema (sc_dims schema ! j) of None \<Rightarrow> Inl OutOfBounds
         | Some dimension \<Rightarrow> flip_field buf (i * sc_size schema + dim_byteoffset dimension) (dim_size dimension))
       [0..<sc_ndims schema] buf"

definition uncompressed_bytes_flip_endian :: "byte list \<Rightarrow> nat \<Rightarrow> PCSCHEMA \<Rightarrow> nat \<Rightarrow> byte list res" where
  "uncompressed_bytes_flip_endian bytebuf off schema npoints =
     (let bufsize = sc_size schema * npoints mod 2 ^ 64 in
     bindE (rd bytebuf off bufsize) (\<lambda>buf. foldE (flip_point_fields schema) [0..<npoints] buf))"

definition pc_point_from_wkb :: "PCSCHEMA \<Rightarrow> byte list \<Rightarrow> nat \<Rightarrow> PCPOINT res" where
  "pc_point_from_wkb schema wkb wkblen =
     (let hdrsz = 1 + 4 in
     if wkblen = 0 then Inl (PcError ''pc_point_from_wkb: zero length wkb'')
     else bindE (rd wkb 0 1) (\<lambda>wkb_endian.
     let datalen = nat ((int wkblen - int hdrsz) mod 2 ^ 64) in
     if datalen \<noteq> sc_size schema
     then Inl (PcError ''pc_point_from_wkb: wkb size inconsistent with schema size'')
     else bindE (if hd wkb_endian \<noteq> machine_endian
                 then uncompressed_bytes_flip_endian wkb hdrsz schema 1
                 else bindE (rd wkb hdrsz datalen) (\<lambda>b. wr (pcalloc (sc_size schema)) 0 b)) (\<lambda>data.
     bindE (pc_point_from_data (Some schema) data) (\<lambda>pt. Inr (pt\<lparr>pt_readonly := PC_FALSE\<rparr>)))))"

definition pc_point_to_wkb :: "PCPOINT \<Rightarrow> (byte list \<times> nat) res" where
  "pc_point_to_wkb pt =
     (let sz = 1 + 4 + sc_size (pt_schema pt); wkb = pcalloc sz in
     bindE (wr wkb 0 [machine_endian]) (\<lambda>wkb.
     bindE (wr wkb 1 (bytes_of_word (word_of_nat (sc_pcid (pt_schema pt)) :: 32 word))) (\<lambda>wkb.
     bindE (rd (pt_data pt) 0 (sc_size (pt_schema pt))) (\<lambda>d.
     bindE (wr wkb 5 d) (\<lambda>wkb. Inr (wkb, sz))))))"

definition srid_mask :: "32 word" where "srid_mask = 0x20000000"
definition m_mask :: "32 word" where "m_mask = 0x40000000"
definition z_mask :: "32 word" where "z_mask = 0x80000000"

definition pc_point_to_geometry_wkb :: "PCPOINT \<Rightarrow> (byte list \<times> nat) option res" where
  "pc_point_to_geometry_wkb pt =
     (let srid = sc_srid (pt_schema pt) in
     bindE (pc_point_get_x pt) (\<lambda>x. bindE (pc_point_get_y pt) (\<lambda>y.
     bindE (pc_point_get_z pt) (\<lambda>z. bindE (pc_point_get_m pt) (\<lambda>m.
     case (x, y) of
       (Some x, Some y) \<Rightarrow>
         (let wkbtype = 1; sz = 1 + 4 + 8 + 8;
              (wkbtype, sz) = (if srid \<noteq> 0 then (wkbtype OR srid_mask, sz + 4) else (wkbtype, sz));
              (wkbtype, sz) = (if z \<noteq> None then (wkbtype OR z_mask, sz + 8) else (wkbtype, sz));
              (wkbtype, sz) = (if m \<noteq> None then (wkbtype OR m_mask, sz + 8) else (wkbtype, sz)) in
         bindE (wkb_set_char (pcalloc sz) 0 machine_endian) (\<lambda>(wkb, p).
         bindE (wkb_set_uint32 wkb p wkbtype) (\<lambda>(wkb, p).
         bindE (if srid \<noteq> 0 then wkb_set_uint32 wkb p (word_of_nat srid) else Inr (wkb, p)) (\<lambda>(wkb, p).
         bindE (wkb_set_double wkb p x) (\<lambda>(wkb, p).
         bindE (wkb_set_double wkb p y) (\<lambda>(wkb, p).
         bindE (case z of Some z \<Rightarrow> wkb_set_double wkb p z | None \<Rightarrow> Inr (wkb, p)) (\<lambda>(wkb, p).
         bindE (case m of Some m \<Rightarrow> wkb_set_double wkb p m | None \<Rightarrow> Inr (wkb, p)) (\<lambda>(wkb, p).
         Inr (Some (wkb, sz))))))))))
     | _ \<Rightarrow> Inr None)))))"

section \<open>The fields of a point\<close>

text \<open>\<open>fld s data j\<close> are the bytes of dimension \<open>j\<close>. The fields in order make up the point.\<close>

definition fld :: "PCSCHEMA \<Rightarrow> byte list \<Rightarrow> nat \<Rightarrow> byte list" where
  "fld s data j = take (dim_size (sdim s j)) (drop (dim_byteoffset (sdim s j)) data)"

definition flds :: "PCSCHEMA \<Rightarrow> byte list \<Rightarrow> byte list list" where
  "flds s data = map (fld s data) [0..<sc_ndims s]"

lemma length_flds [simp]: "length (flds s data) = sc_ndims s"
  by (simp add: flds_def)

lemma length_fld:
  "schema_ready s \<Longrightarrow> j < sc_ndims s \<Longrightarrow> length data = sc_size s \<Longrightarrow> length (fld s data j) = dim_size (sdim s j)"
  using ready_inside [of s j] by (simp add: fld_def)

lemma fld_prefix:
  assumes "schema_ready s" "length data = sc_size s" "k \<le> sc_ndims s"
  shows "concat (map (fld s data) [0..<k]) = take (\<Sum>j<k. dim_size (sdim s j)) data"
  using assms(3)
proof (induction k)
  case (Suc k)
  then show ?case using ready_layout(2) [OF assms(1), of k] by (simp add: fld_def take_add)
qed simp

lemma concat_flds: "schema_ready s \<Longrightarrow> length data = sc_size s \<Longrightarrow> concat (flds s data) = data"
  using fld_prefix [of s data "sc_ndims s"] ready_layout(3) [of s] by (simp add: flds_def)

lemma length_concat_take:
  "(\<And>j. j < length xs \<Longrightarrow> length (xs ! j) = w j) \<Longrightarrow> k \<le> length xs \<Longrightarrow>
   length (concat (take k xs)) = (\<Sum>j<k. w j)"
proof (induction k)
  case (Suc k)
  then show ?case by (simp add: take_Suc_conv_app_nth)
qed simp

lemma concat_slice:
  assumes "\<And>j. j < length xs \<Longrightarrow> length (xs ! j) = w j" "i < length xs"
  shows "take (w i) (drop (\<Sum>j<i. w j) (concat xs)) = xs ! i"
proof -
  have "concat xs = concat (take i xs) @ xs ! i @ concat (drop (Suc i) xs)"
    using assms(2) by (metis append_assoc concat.simps(2) concat_append id_take_nth_drop)
  moreover have "length (concat (take i xs)) = (\<Sum>j<i. w j)"
    by (rule length_concat_take [OF assms(1)]) (use assms(2) in simp_all)
  ultimately show ?thesis using assms by simp
qed

lemma flds_concat:
  assumes "schema_ready s" "length xs = sc_ndims s" "\<And>j. j < sc_ndims s \<Longrightarrow> length (xs ! j) = dim_size (sdim s j)"
  shows "flds s (concat xs) = xs" "length (concat xs) = sc_size s"
proof -
  have w: "\<And>j. j < length xs \<Longrightarrow> length (xs ! j) = dim_size (sdim s j)" using assms(2,3) by simp
  show "flds s (concat xs) = xs"
  proof (rule nth_equalityI)
    fix i assume i: "i < length (flds s (concat xs))"
    then have "i < length xs" using assms(2) by simp
    from concat_slice [of xs "\<lambda>j. dim_size (sdim s j)", OF w this] i
    show "flds s (concat xs) ! i = xs ! i" using ready_layout(2) [OF assms(1), of i] by (simp add: flds_def fld_def)
  qed (use assms in simp)
  show "length (concat xs) = sc_size s"
    using length_concat_take [of xs "\<lambda>j. dim_size (sdim s j)" "length xs", OF w] ready_layout(3) [OF assms(1)] assms(2)
    by simp
qed

text \<open>A loop that writes the fields one after the other writes the point.\<close>

lemma write_fields:
  assumes s: "schema_ready s" and vs: "length vs = sc_ndims s" "\<And>j. j < sc_ndims s \<Longrightarrow> length (vs ! j) = dim_size (sdim s j)"
    and room: "o' + sc_size s \<le> length buf"
    and step: "\<And>j b. j < sc_ndims s \<Longrightarrow> length b = length buf \<Longrightarrow>
      f j b = wr b (o' + dim_byteoffset (sdim s j)) (vs ! j)"
  shows "foldE f [0..<sc_ndims s] buf = wr buf o' (concat vs)"
proof -
  let ?off = "\<lambda>k. \<Sum>j<k. dim_size (sdim s j)" and ?R = "\<lambda>k. concat (take k vs)"
  have lR: "length (?R k) = ?off k" if "k \<le> sc_ndims s" for k
    by (rule length_concat_take [of vs]) (use vs that in simp_all)
  have "foldE f [0..<k] buf = Inr (take o' buf @ ?R k @ drop (o' + ?off k) buf)" if "k \<le> sc_ndims s" for k
    using that
  proof (induction k)
    case (Suc k)
    let ?n = "dim_size (sdim s k)"
    have k: "k < sc_ndims s" using Suc.prems by simp
    have o: "dim_byteoffset (sdim s k) = ?off k" using ready_layout(2) [OF s] k by simp
    have le: "?off k + ?n \<le> sc_size s" using ready_inside [OF s k] o by simp
    have d: "drop (o' + ?off k) buf = take ?n (drop (o' + ?off k) buf) @ drop (o' + ?off (Suc k)) buf"
      using append_take_drop_id [of ?n "drop (o' + ?off k) buf"] by (simp add: ac_simps)
    have "f k (take o' buf @ ?R k @ drop (o' + ?off k) buf) =
        wr ((take o' buf @ ?R k) @ take ?n (drop (o' + ?off k) buf) @ drop (o' + ?off (Suc k)) buf) (o' + ?off k) (vs ! k)"
      using d lR [of k] k room le by (subst step) (simp_all add: o)
    also have "\<dots> = Inr ((take o' buf @ ?R k) @ vs ! k @ drop (o' + ?off (Suc k)) buf)"
      by (rule wr_mid) (use lR [of k] vs(2) k room le in simp_all)
    finally have "f k (take o' buf @ ?R k @ drop (o' + ?off k) buf) =
        Inr (take o' buf @ ?R (Suc k) @ drop (o' + ?off (Suc k)) buf)"
      using k vs(1) by (simp add: take_Suc_conv_app_nth)
    then show ?case using Suc by (simp only: foldE_upt_Suc) simp
  qed simp
  from this [of "sc_ndims s"] show ?thesis
    using ready_layout(3) [OF s] vs lR [of "sc_ndims s"] room by (simp add: wr_def)
qed

section \<open>Byte order\<close>

definition flip_point :: "PCSCHEMA \<Rightarrow> byte list \<Rightarrow> byte list" where
  "flip_point s w = concat (map rev (flds s w))"

lemma flds_flip_point:
  assumes "schema_ready s" "length w = sc_size s"
  shows "flds s (flip_point s w) = map rev (flds s w)" "length (flip_point s w) = sc_size s"
  unfolding flip_point_def
  by (rule flds_concat [OF assms(1)]; use length_fld [OF assms(1) _ assms(2)] in \<open>simp add: flds_def\<close>)+

lemma flip_point_twice:
  "schema_ready s \<Longrightarrow> length w = sc_size s \<Longrightarrow> flip_point s (flip_point s w) = w"
  using flds_flip_point [of s w] concat_flds [of s w] by (simp add: flip_point_def [of s "flip_point s w"] rev_map)

lemma flip_point_fields_eq:
  assumes s: "schema_ready s" and w: "length w = sc_size s" and p: "length pre = i * sc_size s"
  shows "flip_point_fields s i (pre @ w @ post) = Inr (pre @ flip_point s w @ post)"
proof -
  let ?off = "\<lambda>k. \<Sum>j<k. dim_size (sdim s j)"
  let ?f = "\<lambda>j buf. case deref s (sc_dims s ! j) of None \<Rightarrow> Inl OutOfBounds
     | Some d \<Rightarrow> flip_field buf (i * sc_size s + dim_byteoffset d) (dim_size d)"
  let ?R = "\<lambda>k. concat (map (\<lambda>j. rev (fld s w j)) [0..<k])"
  have lR: "length (?R k) = ?off k" if "k \<le> sc_ndims s" for k
    using that by (induction k) (simp_all add: length_fld [OF s _ w])
  have "foldE ?f [0..<k] (pre @ w @ post) = Inr (pre @ ?R k @ drop (?off k) w @ post)" if "k \<le> sc_ndims s" for k
    using that
  proof (induction k)
    case (Suc k)
    let ?sz = "dim_size (sdim s k)"
    have k: "k < sc_ndims s" using Suc.prems by simp
    have o: "dim_byteoffset (sdim s k) = ?off k" using ready_layout(2) [OF s] k by simp
    have l: "length (fld s w k) = ?sz" by (rule length_fld [OF s k w])
    have d: "drop (?off k) w = fld s w k @ drop (?off (Suc k)) w"
      using append_take_drop_id [of ?sz "drop (?off k) w"] by (simp add: fld_def o add.commute)
    have a: "i * sc_size s + ?off k = length (pre @ ?R k)" using p lR [of k] k by simp
    have "foldE ?f [0..<Suc k] (pre @ w @ post) = ?f k (pre @ ?R k @ drop (?off k) w @ post)"
      using Suc by (simp only: foldE_upt_Suc) simp
    also have "\<dots> = flip_field ((pre @ ?R k) @ fld s w k @ drop (?off (Suc k)) w @ post) (i * sc_size s + ?off k) ?sz"
      by (simp only: ready_dims(2) [OF s k] option.case o d append_assoc)
    also have "\<dots> = Inr ((pre @ ?R k) @ rev (fld s w k) @ drop (?off (Suc k)) w @ post)"
      unfolding flip_field_def
      by (simp only: rd_mid [OF a l [symmetric]] bindE_Inr flip_word_rev [OF l])
        (rule wr_mid [OF a], simp)
    finally show ?case by simp
  qed simp
  from this [of "sc_ndims s"] show ?thesis
    using ready_layout(3) [OF s] w by (simp add: flip_point_fields_def flip_point_def flds_def comp_def)
qed

lemma flip_points:
  assumes s: "schema_ready s" and w: "\<And>w. w \<in> set ws \<Longrightarrow> length w = sc_size s"
  shows "foldE (flip_point_fields s) [0..<length ws] (concat ws @ rest) =
    Inr (concat (map (flip_point s) ws) @ rest)"
proof -
  have "foldE (flip_point_fields s) [0..<k] (concat ws @ rest) =
      Inr (concat (map (flip_point s) (take k ws)) @ concat (drop k ws) @ rest)" if "k \<le> length ws" for k
    using that
  proof (induction k)
    case (Suc k)
    have k: "k < length ws" using Suc.prems by simp
    let ?pre = "concat (map (flip_point s) (take k ws))"
    have l: "length ?pre = k * sc_size s"
      using length_concat_const [of "map (flip_point s) (take k ws)" "sc_size s"]
        flds_flip_point(2) [OF s] w k by (auto dest: in_set_takeD)
    have d: "concat (drop k ws) = ws ! k @ concat (drop (Suc k) ws)"
      by (simp only: Cons_nth_drop_Suc [OF k, symmetric] concat.simps)
    have "foldE (flip_point_fields s) [0..<Suc k] (concat ws @ rest) =
        flip_point_fields s k (?pre @ ws ! k @ concat (drop (Suc k) ws) @ rest)"
      using Suc k by (simp only: foldE_upt_Suc) (simp add: d)
    also have "\<dots> = Inr (?pre @ flip_point s (ws ! k) @ concat (drop (Suc k) ws) @ rest)"
      by (rule flip_point_fields_eq [OF s w l]) (use k in simp)
    finally show ?case using k by (simp add: take_Suc_conv_app_nth)
  qed simp
  from this [of "length ws"] show ?thesis by simp
qed

lemma flip_endian_eq:
  assumes s: "schema_ready s" and b: "buf = a @ data @ c" "off = length a"
    and n: "length data = npoints * sc_size s" "npoints < 2 ^ 32"
  shows "uncompressed_bytes_flip_endian buf off s npoints =
    Inr (concat (map (flip_point s) (elems (sc_size s) npoints data)))"
proof -
  let ?ws = "elems (sc_size s) npoints data"
  have w: "length w = sc_size s" if "w \<in> set ?ws" for w
    using that n(1) by (intro elems_lengths) simp_all
  have c: "concat ?ws = data" using concat_elems [of npoints "sc_size s" data] n(1) by simp
  have "sc_size s * npoints < 2 ^ 32 * 2 ^ 32"
    using ready_layout(4) [OF s] n(2) by (intro mult_strict_mono) simp_all
  then have m: "sc_size s * npoints mod 2 ^ 64 = length data" using n(1) by (simp add: mult.commute)
  have "rd buf off (length data) = Inr data" by (simp add: b rd_def)
  then show ?thesis
    using flip_points [OF s w, of ?ws "[]"] c m by (simp add: uncompressed_bytes_flip_endian_def Let_def)
qed

section \<open>Reading and writing values\<close>

definition point_ok :: "PCPOINT \<Rightarrow> bool" where
  "point_ok pt = (schema_ready (pt_schema pt) \<and> length (pt_data pt) = sc_size (pt_schema pt))"

lemma point_read:
  assumes "point_ok pt" "j < sc_ndims (pt_schema pt)"
  shows "rd (pt_data pt) (dim_byteoffset (sdim (pt_schema pt) j)) (dim_size (sdim (pt_schema pt) j)) =
    Inr (fld (pt_schema pt) (pt_data pt) j)"
  using ready_inside [of "pt_schema pt" j] assms by (simp add: point_ok_def rd_def fld_def)

lemma written_bytes:
  "wr buf off (bytes_of_word (w :: 'a::len word)) = Inr buf' \<Longrightarrow> word_size TYPE('a) = n \<Longrightarrow>
   \<exists>b. length b = n \<and> wr buf off b = Inr buf'"
  by (rule exI [of _ "bytes_of_word w"]) simp

lemma double_to_ptr_writes:
  assumes t: "known_interp t" and w: "pc_double_to_ptr buf off t v = Inr buf'"
  shows "\<exists>b. length b = isize t \<and> wr buf off b = Inr buf'"
  using t by (cases rule: known_interp_cases;
    use w in \<open>auto simp: pc_double_to_ptr_def bindE_eq_Inr word_size_def elim!: written_bytes\<close>)

lemma double_from_field:
  assumes "known_interp t" "rd buf off (isize t) = rd buf' off' (isize t)"
  shows "pc_double_from_ptr buf off t = pc_double_from_ptr buf' off' t"
  using assms by (cases rule: known_interp_cases) (simp_all add: pc_double_from_ptr_def)

lemma set_double_fields:
  assumes pt: "point_ok pt" and i: "i < sc_ndims (pt_schema pt)"
    and w: "pc_point_set_double pt (Some (sdim (pt_schema pt) i)) v = Inr (Some pt')"
  shows "point_ok pt'" "pt_schema pt' = pt_schema pt"
    and "j < sc_ndims (pt_schema pt) \<Longrightarrow> j \<noteq> i \<Longrightarrow> fld (pt_schema pt) (pt_data pt') j = fld (pt_schema pt) (pt_data pt) j"
proof -
  let ?s = "pt_schema pt" and ?d = "sdim (pt_schema pt) i"
  have s: "schema_ready ?s" using pt by (simp add: point_ok_def)
  note t = ready_dims(3) [OF s i]
  obtain data where data: "pc_double_to_ptr (pt_data pt) (dim_byteoffset ?d) (dim_interpretation ?d)
      (pc_value_unscale_unoffset v ?d) = Inr data" "pt' = pt\<lparr>pt_data := data\<rparr>"
    using w by (auto simp: pc_point_set_double_def Let_def bindE_eq_Inr)
  obtain b where b: "length b = isize (dim_interpretation ?d)" "wr (pt_data pt) (dim_byteoffset ?d) b = Inr data"
    using double_to_ptr_writes [OF t data(1)] by blast
  show sc: "pt_schema pt' = pt_schema pt" by (simp add: data(2))
  show ok: "point_ok pt'" using pt wr_length [OF b(2)] by (simp add: point_ok_def data(2))
  show "fld ?s (pt_data pt') j = fld ?s (pt_data pt) j" if j: "j < sc_ndims ?s" "j \<noteq> i"
  proof -
    let ?e = "sdim ?s j"
    have l: "length b = dim_size ?d" using b(1) ready_layout(1) [OF s i] by simp
    have "dim_byteoffset ?e + dim_size ?e \<le> dim_byteoffset ?d \<or> dim_byteoffset ?d + length b \<le> dim_byteoffset ?e"
      using ready_disjoint [OF s, of i j] ready_disjoint [OF s, of j i] i j l by (cases "i < j") auto
    from rd_wr_disjoint [OF b(2) this]
    have "rd (pt_data pt') (dim_byteoffset ?e) (dim_size ?e) = rd (pt_data pt) (dim_byteoffset ?e) (dim_size ?e)"
      by (simp add: data(2))
    then show ?thesis using point_read [OF pt j(1)] point_read [OF ok] j(1) sc by simp
  qed
qed

lemma get_double_fld:
  assumes "point_ok pt" "j < sc_ndims (pt_schema pt)" "point_ok pt'" "pt_schema pt' = pt_schema pt"
    and "fld (pt_schema pt) (pt_data pt') j = fld (pt_schema pt) (pt_data pt) j"
  shows "pc_point_get_double pt' (Some (sdim (pt_schema pt) j)) = pc_point_get_double pt (Some (sdim (pt_schema pt) j))"
proof -
  have s: "schema_ready (pt_schema pt)" using assms(1) by (simp add: point_ok_def)
  have "rd (pt_data pt') (dim_byteoffset (sdim (pt_schema pt) j)) (dim_size (sdim (pt_schema pt) j)) =
      rd (pt_data pt) (dim_byteoffset (sdim (pt_schema pt) j)) (dim_size (sdim (pt_schema pt) j))"
    using point_read [OF assms(1,2)] point_read [OF assms(3)] assms(2,4,5) by simp
  from double_from_field [OF ready_dims(3) [OF s assms(2)] this [unfolded ready_layout(1) [OF s assms(2)]]]
  show ?thesis by (simp add: pc_point_get_double_def)
qed

section \<open>Binary form\<close>

lemma point_to_wkb_eq:
  assumes "point_ok pt"
  shows "pc_point_to_wkb pt = Inr (1 # bytes_of_word (word_of_nat (sc_pcid (pt_schema pt)) :: 32 word) @ pt_data pt,
    5 + sc_size (pt_schema pt))"
proof -
  let ?n = "sc_size (pt_schema pt)" and ?p = "bytes_of_word (word_of_nat (sc_pcid (pt_schema pt)) :: 32 word)"
  have l: "length ?p = 4" "length (pt_data pt) = ?n" using assms by (simp_all add: point_ok_def word_size_def)
  have w1: "wr (pcalloc (1 + 4 + ?n)) 0 [machine_endian] = Inr (1 # replicate 4 0 @ replicate ?n 0)"
    by (simp add: pcalloc_def wr_def replicate_add)
  have w2: "wr (1 # replicate 4 0 @ replicate ?n 0) 1 ?p = Inr ((1 # ?p) @ replicate ?n 0)"
    using l by (simp add: wr_def)
  have w3: "wr ((1 # ?p) @ replicate ?n 0) 5 (pt_data pt) = Inr ((1 # ?p) @ pt_data pt)"
    using wr_mid [of 5 "1 # ?p" "replicate ?n 0" "pt_data pt" "[]"] l by simp
  have r: "rd (pt_data pt) 0 ?n = Inr (pt_data pt)" using l(2) by (simp add: rd_def)
  show ?thesis unfolding pc_point_to_wkb_def Let_def w1 bindE_Inr w2 r w3 by simp
qed

lemma point_from_wkb_eq:
  assumes s: "schema_ready s" and d: "length data = sc_size s" "length hdr = 4"
  shows "pc_point_from_wkb s (e # hdr @ data) (length (e # hdr @ data)) =
    Inr \<lparr>pt_readonly = PC_FALSE, pt_schema = s, pt_data = (if e = 1 then data else flip_point s data)\<rparr>"
proof -
  have len: "nat ((int (length (e # hdr @ data)) - int (1 + 4)) mod 2 ^ 64) = sc_size s"
    using d ready_layout(4) [OF s] by simp
  have r: "rd (e # hdr @ data) (1 + 4) (sc_size s) = Inr data" using d by (simp add: rd_def)
  have w: "wr (pcalloc (sc_size s)) 0 data = Inr data" using d by (simp add: wr_def)
  have f: "uncompressed_bytes_flip_endian (e # hdr @ data) (1 + 4) s 1 = Inr (flip_point s data)"
    using flip_endian_eq [OF s, of "e # hdr @ data" "e # hdr" data "[]" 5 1] d by (simp add: elems_Suc)
  have c: "rd (e # hdr @ data) 0 1 = Inr [e]" by (simp add: rd_def)
  show ?thesis unfolding pc_point_from_wkb_def Let_def len c bindE_Inr r w f
    by (simp add: pc_point_from_data_def)
qed

lemma read_written_int:
  assumes "wr buf off (le_bytes (word_size TYPE('a)) (nat (c mod 2 ^ (8 * word_size TYPE('a))))) = Inr buf'"
    and "8 dvd LENGTH('a::len)" "n = word_size TYPE('a)"
  shows "\<exists>bs. rd buf' off n = Inr bs \<and> word_of_bytes bs = (word_of_int c :: 'a word)"
  using rd_wr_same [OF assms(1)] assms(2,3) bytes_of_word_of_int [where 'a = 'a, of c]
  by (metis length_le_bytes word_of_bytes_of_word)

lemma read_clamped:
  assumes t: "int_interp t" and c: "interp_min t \<le> c" "c \<le> interp_max t"
    and w: "wr buf off (le_bytes (isize t) (nat (c mod 2 ^ (8 * isize t)))) = Inr buf'"
  shows "pc_double_from_ptr buf' off t = Inr (d_of_int c)"
proof -
  consider "t = 1" | "t = 2" | "t = 3" | "t = 4" | "t = 5" | "t = 6"
    using t unfolding int_interp_def by atomize_elim presburger
  then show ?thesis
  proof cases
    case 1
    have "\<exists>bs. rd buf' off 1 = Inr bs \<and> word_of_bytes bs = (word_of_int c :: 8 word)"
      by (rule read_written_int [where 'a = 8]) (use w 1 in \<open>simp_all add: word_size_def del: le_bytes_numeral\<close>)
    then show ?thesis using c 1
      by (auto simp: pc_double_from_ptr_def interp_min_def interp_max_def signed_of_int signed_take_bit_int_eq_self)
  next
    case 2
    have "\<exists>bs. rd buf' off 1 = Inr bs \<and> word_of_bytes bs = (word_of_int c :: 8 word)"
      by (rule read_written_int [where 'a = 8]) (use w 2 in \<open>simp_all add: word_size_def del: le_bytes_numeral\<close>)
    then show ?thesis using c 2
      by (auto simp: pc_double_from_ptr_def interp_min_def interp_max_def unsigned_of_int take_bit_int_eq_self)
  next
    case 3
    have "\<exists>bs. rd buf' off 2 = Inr bs \<and> word_of_bytes bs = (word_of_int c :: 16 word)"
      by (rule read_written_int [where 'a = 16]) (use w 3 in \<open>simp_all add: word_size_def del: le_bytes_numeral\<close>)
    then show ?thesis using c 3
      by (auto simp: pc_double_from_ptr_def interp_min_def interp_max_def signed_of_int signed_take_bit_int_eq_self)
  next
    case 4
    have "\<exists>bs. rd buf' off 2 = Inr bs \<and> word_of_bytes bs = (word_of_int c :: 16 word)"
      by (rule read_written_int [where 'a = 16]) (use w 4 in \<open>simp_all add: word_size_def del: le_bytes_numeral\<close>)
    then show ?thesis using c 4
      by (auto simp: pc_double_from_ptr_def interp_min_def interp_max_def unsigned_of_int take_bit_int_eq_self)
  next
    case 5
    have "\<exists>bs. rd buf' off 4 = Inr bs \<and> word_of_bytes bs = (word_of_int c :: 32 word)"
      by (rule read_written_int [where 'a = 32]) (use w 5 in \<open>simp_all add: word_size_def del: le_bytes_numeral\<close>)
    then show ?thesis using c 5
      by (auto simp: pc_double_from_ptr_def interp_min_def interp_max_def signed_of_int signed_take_bit_int_eq_self)
  next
    case 6
    have "\<exists>bs. rd buf' off 4 = Inr bs \<and> word_of_bytes bs = (word_of_int c :: 32 word)"
      by (rule read_written_int [where 'a = 32]) (use w 6 in \<open>simp_all add: word_size_def del: le_bytes_numeral\<close>)
    then show ?thesis using c 6
      by (auto simp: pc_double_from_ptr_def interp_min_def interp_max_def unsigned_of_int take_bit_int_eq_self)
  qed
qed

section \<open>Geometry\<close>

definition opt_bytes :: "double option \<Rightarrow> byte list" where
  "opt_bytes d = (case d of None \<Rightarrow> [] | Some d \<Rightarrow> bytes_of_word d)"

definition geometry_type :: "nat \<Rightarrow> double option \<Rightarrow> double option \<Rightarrow> 32 word" where
  "geometry_type srid z m = (((1 OR (if srid \<noteq> 0 then srid_mask else 0)) OR (if z \<noteq> None then z_mask else 0))
     OR (if m \<noteq> None then m_mask else 0))"

definition geometry_bytes :: "nat \<Rightarrow> double \<Rightarrow> double \<Rightarrow> double option \<Rightarrow> double option \<Rightarrow> byte list" where
  "geometry_bytes srid x y z m = 1 # bytes_of_word (geometry_type srid z m) @
     (if srid \<noteq> 0 then bytes_of_word (word_of_nat srid :: 32 word) else []) @
     bytes_of_word x @ bytes_of_word y @ opt_bytes z @ opt_bytes m"

lemma geometry_eq:
  assumes "pc_point_get_x pt = Inr (Some x)" "pc_point_get_y pt = Inr (Some y)"
    "pc_point_get_z pt = Inr z" "pc_point_get_m pt = Inr m"
  shows "pc_point_to_geometry_wkb pt =
    Inr (Some (geometry_bytes (sc_srid (pt_schema pt)) x y z m,
               length (geometry_bytes (sc_srid (pt_schema pt)) x y z m)))"
  using assms
  by (cases z; cases m; cases "sc_srid (pt_schema pt) = 0")
    (simp_all add: pc_point_to_geometry_wkb_def Let_def pcalloc_def geometry_bytes_def geometry_type_def opt_bytes_def
      word_size_def wkb_set_char_def wkb_set_uint32_def wkb_set_double_def wr_def)

lemma unit_consts: "d_eq d_one d_one" "d_eq d_zero d_zero"
  by (simp_all add: d_eq_def d_isnan_def d_mag_def d_one_def d_zero_def)

section \<open>Properties\<close>

definition demo_point :: PCPOINT where
  "demo_point = \<lparr>pt_readonly = PC_FALSE, pt_schema = demo_schema, pt_data = [1, 2, 3, 4, 5]\<rparr>"

lemma demo_point_ok: "point_ok demo_point" "pt_schema demo_point = demo_schema" "pt_readonly demo_point = PC_FALSE"
  using demo_schema_ready demo_schema_size by (simp_all add: point_ok_def demo_point_def)

text \<open>
  Setting one dimension of a point changes no other: every other dimension reads as before, and the
  point keeps its schema and its width.
\<close>

theorem set_leaves_other_fields:
  assumes "point_ok pt" "i < sc_ndims (pt_schema pt)" "j < sc_ndims (pt_schema pt)" "j \<noteq> i"
    and "pc_point_set_double_by_index pt i v = Inr (Some pt')"
  shows "pc_point_get_double_by_index pt' j = pc_point_get_double_by_index pt j \<and> point_ok pt' \<and>
    pt_schema pt' = pt_schema pt"
proof -
  have s: "schema_ready (pt_schema pt)" using assms(1) by (simp add: point_ok_def)
  have w: "pc_point_set_double pt (Some (sdim (pt_schema pt) i)) v = Inr (Some pt')"
    using assms(5) ready_dims(1) [OF s assms(2)] by (simp add: pc_point_set_double_by_index_def)
  note f = set_double_fields [OF assms(1,2) w]
  show ?thesis using get_double_fld [OF assms(1,3) f(1,2) f(3) [OF assms(3,4)]] ready_dims(1) [OF s assms(3)] f(1,2)
    by (simp add: pc_point_get_double_by_index_def)
qed

theorem set_leaves_other_fields_witness:
  "\<exists>pt'. pc_point_set_double_by_index demo_point 1 (d_of_int 9) = Inr (Some pt') \<and>
     pc_point_get_double_by_index pt' 0 = pc_point_get_double_by_index demo_point 0"
proof -
  have g: "pc_schema_get_dimension demo_schema 1 = Some (sdim demo_schema 1)"
    by (rule ready_dims(1) [OF demo_schema_ready]) (simp add: demo_facts)
  have u: "pc_value_unscale_unoffset (d_of_int 9) (sdim demo_schema 1) = d_of_int 9"
    by (simp add: pc_value_unscale_unoffset_def demo_facts) (simp add: d_zero_def d_one_def fp_eval)
  have w: "\<exists>data. pc_double_to_ptr [1, 2, 3, 4, 5] 4 2 (d_of_int 9) = Inr data"
    using to_ptr_clamps [of 2 9] by (simp add: int_interp_def exact_int_def interp_min_def interp_max_def wr_def)
  obtain pt' where p: "pc_point_set_double_by_index demo_point 1 (d_of_int 9) = Inr (Some pt')"
    using w g u by (auto simp: pc_point_set_double_by_index_def pc_point_set_double_def demo_point_def demo_facts demo_sizes)
  from set_leaves_other_fields [OF demo_point_ok(1) _ _ _ p, of 0] p show ?thesis
    by (simp add: demo_point_ok demo_facts)
qed

text \<open>
  A value written to an unscaled integer dimension is read back as that value when the type holds
  it, and as the nearest bound of the type otherwise.
\<close>

theorem set_then_get:
  assumes "point_ok pt" "i < sc_ndims (pt_schema pt)" "dim_interpretation (sdim (pt_schema pt) i) = t" "int_interp t"
    and "dim_scale (sdim (pt_schema pt) i) = d_one" "dim_offset (sdim (pt_schema pt) i) = d_zero" "exact_int n"
  shows "\<exists>pt'. pc_point_set_double_by_index pt i (d_of_int n) = Inr (Some pt') \<and>
    pc_point_get_double_by_index pt' i =
      Inr (Some (d_of_int (max (interp_min t) (min (interp_max t) n))))"
proof -
  let ?s = "pt_schema pt" and ?d = "sdim (pt_schema pt) i"
  let ?c = "max (interp_min t) (min (interp_max t) n)"
  have s: "schema_ready ?s" and l: "length (pt_data pt) = sc_size ?s" using assms(1) by (simp_all add: point_ok_def)
  have id: "pc_value_unscale_unoffset v ?d = v" "pc_value_scale_offset v ?d = v" for v
    using assms(5,6) by (simp_all add: pc_value_unscale_unoffset_def pc_value_scale_offset_def unit_consts)
  have k: "dim_byteoffset ?d + isize t \<le> length (pt_data pt)"
    using ready_inside [OF s assms(2)] ready_layout(1) [OF s assms(2)] assms(3) l by simp
  obtain data where w: "wr (pt_data pt) (dim_byteoffset ?d) (le_bytes (isize t) (nat (?c mod 2 ^ (8 * isize t)))) = Inr data"
    using k by (simp add: wr_def)
  have c: "interp_min t \<le> ?c" "?c \<le> interp_max t"
    by (auto simp: interp_min_def interp_max_def)
  have "pc_point_set_double_by_index pt i (d_of_int n) = Inr (Some (pt\<lparr>pt_data := data\<rparr>))"
    using ready_dims(1) [OF s assms(2)] to_ptr_clamps [OF assms(4,7)] w assms(3)
    by (simp add: pc_point_set_double_by_index_def pc_point_set_double_def id Let_def)
  moreover have "pc_point_get_double_by_index (pt\<lparr>pt_data := data\<rparr>) i = Inr (Some (d_of_int ?c))"
    using ready_dims(1) [OF s assms(2)] read_clamped [OF assms(4) c w] assms(3)
    by (simp add: pc_point_get_double_by_index_def pc_point_get_double_def id)
  ultimately show ?thesis by blast
qed

theorem set_then_get_witness:
  "\<exists>pt'. pc_point_set_double_by_index demo_point 1 (d_of_int 300) = Inr (Some pt') \<and>
     pc_point_get_double_by_index pt' 1 = Inr (Some (d_of_int 255))"
  using set_then_get [OF demo_point_ok(1), of 1 2 300]
  by (simp add: demo_point_ok demo_facts int_interp_def exact_int_def interp_min_def interp_max_def)

text \<open>
  Reading the binary form of a point that was written on the same machine gives the point back.
\<close>

theorem point_wkb_roundtrip:
  assumes "point_ok pt"
  shows "\<exists>wkb n. pc_point_to_wkb pt = Inr (wkb, n) \<and> n = length wkb \<and>
    pc_point_from_wkb (pt_schema pt) wkb n = Inr (pt\<lparr>pt_readonly := PC_FALSE\<rparr>)"
proof -
  have "schema_ready (pt_schema pt)" "length (pt_data pt) = sc_size (pt_schema pt)"
    using assms by (simp_all add: point_ok_def)
  from point_from_wkb_eq [OF this, of _ 1] this(2) show ?thesis
    using point_to_wkb_eq [OF assms] by (cases pt) (simp add: word_size_def)
qed

theorem point_wkb_roundtrip_witness:
  "\<exists>wkb n. pc_point_to_wkb demo_point = Inr (wkb, n) \<and> pc_point_from_wkb demo_schema wkb n = Inr demo_point"
  using point_wkb_roundtrip [OF demo_point_ok(1)] demo_point_ok(2,3) by auto

text \<open>
  Reading the binary form of a point from a machine of the other byte order, in which the bytes of
  every field stand in reverse, gives the point.
\<close>

theorem foreign_point_wkb:
  assumes "point_ok pt" "e \<noteq> 1" "length hdr = 4"
    and "length body = sc_size (pt_schema pt)" "flds (pt_schema pt) body = map rev (flds (pt_schema pt) (pt_data pt))"
  shows "pc_point_from_wkb (pt_schema pt) (e # hdr @ body) (5 + sc_size (pt_schema pt)) =
    Inr (pt\<lparr>pt_readonly := PC_FALSE\<rparr>)"
proof -
  have s: "schema_ready (pt_schema pt)" "length (pt_data pt) = sc_size (pt_schema pt)"
    using assms(1) by (simp_all add: point_ok_def)
  have "flip_point (pt_schema pt) body = pt_data pt"
    using assms(5) concat_flds [OF s] by (simp add: flip_point_def rev_map)
  then show ?thesis using point_from_wkb_eq [OF s(1) assms(4,3), of e] assms(2,3,4)
    by (cases pt) simp
qed

theorem foreign_point_wkb_witness:
  "pc_point_from_wkb demo_schema [0, 9, 9, 9, 9, 4, 3, 2, 1, 5] 10 = Inr demo_point"
proof -
  have f: "flds demo_schema d = [take 4 d, take 1 (drop 4 d)]" for d
    by (simp add: flds_def fld_def demo_facts demo_sizes upt_rec)
  have "flds demo_schema [4, 3, 2, 1, 5] = map rev (flds demo_schema (pt_data demo_point))"
    by (simp add: f demo_point_def)
  from foreign_point_wkb [OF demo_point_ok(1), of 0 "[9, 9, 9, 9]" "[4, 3, 2, 1, 5]"] this show ?thesis
    by (simp add: demo_point_ok demo_sizes)
qed

text \<open>
  Changing the byte order of uncompressed points reverses every field of every point in its place;
  doing it twice gives the points back.
\<close>

theorem flip_endian_reverses_fields:
  assumes "schema_ready s" "length data = npoints * sc_size s" "npoints < 2 ^ 32"
  shows "\<exists>out. uncompressed_bytes_flip_endian data 0 s npoints = Inr out \<and> length out = length data \<and>
    (\<forall>i < npoints. flds s (elems (sc_size s) npoints out ! i) =
       map rev (flds s (elems (sc_size s) npoints data ! i))) \<and>
    uncompressed_bytes_flip_endian out 0 s npoints = Inr data"
proof -
  let ?ws = "elems (sc_size s) npoints data"
  let ?out = "concat (map (flip_point s) ?ws)"
  have w: "\<And>w. w \<in> set ?ws \<Longrightarrow> length w = sc_size s" using assms(2) by (intro elems_lengths) simp_all
  have w': "\<And>w. w \<in> set (map (flip_point s) ?ws) \<Longrightarrow> length w = sc_size s"
    using w flds_flip_point(2) [OF assms(1)] by auto
  have "length ?out = length (map (flip_point s) ?ws) * sc_size s" by (rule length_concat_const [OF w'])
  then have l: "length ?out = npoints * sc_size s" by (simp only: length_map length_elems)
  have e: "elems (sc_size s) npoints ?out = map (flip_point s) ?ws"
    using elems_concat [of "map (flip_point s) ?ws" "sc_size s" "[]"] w' by simp
  have c: "concat ?ws = data" using concat_elems [of npoints "sc_size s" data] assms(2) by simp
  have tw: "map (flip_point s \<circ> flip_point s) ?ws = ?ws"
    using flip_point_twice [OF assms(1)] w by (intro map_idI) simp
  have "uncompressed_bytes_flip_endian data 0 s npoints = Inr ?out"
    using flip_endian_eq [OF assms(1), of data "[]" data "[]" 0] assms(2,3) by simp
  moreover have "uncompressed_bytes_flip_endian ?out 0 s npoints = Inr data"
    using flip_endian_eq [OF assms(1), of ?out "[]" ?out "[]" 0] assms(3) l e tw c by simp
  moreover have "\<forall>i < npoints. flds s (elems (sc_size s) npoints ?out ! i) = map rev (flds s (?ws ! i))"
    unfolding e using flds_flip_point(1) [OF assms(1)] w by (simp del: nth_elems)
  ultimately show ?thesis using l assms(2) by auto
qed

theorem flip_endian_reverses_fields_witness:
  "\<exists>out. uncompressed_bytes_flip_endian [1, 2, 3, 4, 5, 6, 7, 8, 9, 10] 0 demo_schema 2 = Inr out \<and>
     uncompressed_bytes_flip_endian out 0 demo_schema 2 = Inr [1, 2, 3, 4, 5, 6, 7, 8, 9, 10]"
  using flip_endian_reverses_fields [OF demo_schema_ready, of "[1, 2, 3, 4, 5, 6, 7, 8, 9, 10]" 2]
  by (auto simp: demo_sizes)

text \<open>
  The geometry of a point is the EWKB of its coordinates: byte order, type with the flags of the
  parts that are present, SRID if not zero, X, Y and the present ones of Z and M; the buffer is exactly
  as long as that.
\<close>

theorem geometry_wkb:
  assumes "pc_point_get_x pt = Inr (Some x)" "pc_point_get_y pt = Inr (Some y)"
    "pc_point_get_z pt = Inr z" "pc_point_get_m pt = Inr m"
  shows "pc_point_to_geometry_wkb pt =
    Inr (Some (geometry_bytes (sc_srid (pt_schema pt)) x y z m,
               length (geometry_bytes (sc_srid (pt_schema pt)) x y z m)))"
  by (rule geometry_eq [OF assms])

theorem geometry_wkb_witness:
  "\<exists>wkb. pc_point_to_geometry_wkb (demo_point\<lparr>pt_schema := demo_schema
      \<lparr>sc_srid := 4326, sc_xdim := Some 0, sc_ydim := Some 1, sc_zdim := Some 1, sc_mdim := None\<rparr>\<rparr>) =
     Inr (Some (wkb, 33))"
proof -
  let ?s = "demo_schema\<lparr>sc_srid := 4326, sc_xdim := Some 0, sc_ydim := Some 1, sc_zdim := Some 1, sc_mdim := None\<rparr>"
  let ?pt = "demo_point\<lparr>pt_schema := ?s\<rparr>"
  have h: "sc_heap demo_schema ! 0 = sdim demo_schema 0" "sc_heap demo_schema ! 1 = sdim demo_schema 1"
    by (simp_all add: sdim_def demo_facts)
  have x: "\<exists>x. pc_point_get_x ?pt = Inr (Some x)" "\<exists>y. pc_point_get_y ?pt = Inr (Some y)"
    "\<exists>z. pc_point_get_z ?pt = Inr (Some z)"
    by (simp_all add: pc_point_get_x_def pc_point_get_y_def pc_point_get_z_def pc_point_get_double_def deref_def
        h [unfolded One_nat_def] demo_facts demo_sizes demo_point_def pc_double_from_ptr_def rd_def)
  have m: "pc_point_get_m ?pt = Inr None" by (simp add: pc_point_get_m_def pc_point_get_double_def deref_def)
  obtain x y z where "pc_point_get_x ?pt = Inr (Some x)" "pc_point_get_y ?pt = Inr (Some y)"
    "pc_point_get_z ?pt = Inr (Some z)" using x by blast
  from geometry_wkb [OF this m] show ?thesis
    by (simp add: geometry_bytes_def opt_bytes_def word_size_def)
qed

end
