(* ===== verification/PC_Bytes_RLE.thy ===== *)
theory PC_Bytes_RLE
  imports PC_Bytes_Base
begin

text \<open>
  Run-length encoding of lib/pc_bytes.c. A pointer into a buffer is an offset; the running pointers
  and counters of a loop are the components of its state. The abstract view of an encoded buffer is
  its list of runs (\<open>rle_bytes\<close>); the lemmas relate every loop to it.
\<close>

section \<open>Operations\<close>

definition pc_bytes_run_count :: "PCBYTES \<Rightarrow> nat res" where
  "pc_bytes_run_count pcb =
     bindE (pc_interpretation_size (pb_interpretation pcb)) (\<lambda>sz.
     foldE (\<lambda>i runcount.
         bindE (rd (pb_bytes pcb) ((i - 1) * sz) sz) (\<lambda>a.
         bindE (rd (pb_bytes pcb) (i * sz) sz) (\<lambda>b.
         Inr (if a \<noteq> b then runcount + 1 else runcount))))
       [1..<pb_npoints pcb] 1)"

text \<open>State: output buffer, write position, start of the run, run length.\<close>

type_synonym rle_state = "byte list \<times> nat \<times> nat \<times> byte"

definition rle_step :: "nat \<Rightarrow> nat \<Rightarrow> byte list \<Rightarrow> nat \<Rightarrow> rle_state \<Rightarrow> rle_state res" where
  "rle_step npoints sz bytes i st = (case st of (buf, bufptr, runstart, runlength) \<Rightarrow>
     bindE (if i < npoints \<and> runlength < 255
            then bindE (rd bytes runstart sz) (\<lambda>a. bindE (rd bytes (i * sz) sz) (\<lambda>b. Inr (a = b)))
            else Inr False) (\<lambda>continues.
     if continues then Inr (buf, bufptr, runstart, runlength + 1)
     else bindE (wr buf bufptr [runlength]) (\<lambda>buf.
          bindE (rd bytes runstart sz) (\<lambda>v.
          bindE (wr buf (bufptr + 1) v) (\<lambda>buf.
          Inr (buf, bufptr + 1 + sz, i * sz, 1))))))"

definition pc_bytes_run_length_encode :: "PCBYTES \<Rightarrow> PCBYTES res" where
  "pc_bytes_run_length_encode pcb =
     bindE (pc_interpretation_size (pb_interpretation pcb)) (\<lambda>sz.
     bindE (foldE (rle_step (pb_npoints pcb) sz (pb_bytes pcb)) [1..<Suc (pb_npoints pcb)]
              (pcalloc (pb_npoints pcb * sz + pb_npoints pcb), 0, 0, 1)) (\<lambda>(buf, bufptr, _, _).
     bindE (rd buf 0 bufptr) (\<lambda>bytes_rle.
     Inr (pcb\<lparr>pb_size := bufptr, pb_bytes := bytes_rle, pb_compression := PC_DIM_RLE,
              pb_readonly := PC_FALSE\<rparr>))))"

function rle_total :: "byte list \<Rightarrow> nat \<Rightarrow> nat \<Rightarrow> nat \<Rightarrow> nat \<Rightarrow> nat res" where
  "rle_total bytes end sz ptr npoints =
     (if ptr < end then bindE (rd bytes ptr 1) (\<lambda>c.
        rle_total bytes end sz (ptr + 1 + sz) ((npoints + unat (hd c)) mod 2 ^ 32))
      else Inr npoints)"
  by pat_completeness auto
termination rle_total by (relation "measure (\<lambda>(bytes, end, sz, ptr, npoints). end - ptr)") auto

declare rle_total.simps [simp del]

function rle_expand :: "byte list \<Rightarrow> nat \<Rightarrow> nat \<Rightarrow> nat \<Rightarrow> byte list \<Rightarrow> nat \<Rightarrow> byte list res" where
  "rle_expand rle end sz ptr bytes bptr =
     (if ptr < end then bindE (rd rle ptr 1) (\<lambda>c.
        bindE (foldE (\<lambda>i (bytes, bptr). bindE (rd rle (ptr + 1) sz) (\<lambda>v.
                 bindE (wr bytes bptr v) (\<lambda>bytes. Inr (bytes, bptr + sz))))
               [0..<unat (hd c)] (bytes, bptr)) (\<lambda>(bytes, bptr).
        rle_expand rle end sz (ptr + 1 + sz) bytes bptr))
      else Inr bytes)"
  by pat_completeness auto
termination rle_expand by (relation "measure (\<lambda>(rle, end, sz, ptr, bytes, bptr). end - ptr)") auto

declare rle_expand.simps [simp del]

definition pc_bytes_run_length_decode :: "PCBYTES \<Rightarrow> PCBYTES res" where
  "pc_bytes_run_length_decode pcb =
     bindE (pc_interpretation_size (pb_interpretation pcb)) (\<lambda>sz.
     if pb_compression pcb \<noteq> PC_DIM_RLE then Inl AssertFailed
     else bindE (rle_total (pb_bytes pcb) (pb_size pcb) sz 0 0) (\<lambda>npoints.
     if npoints \<noteq> pb_npoints pcb then Inl AssertFailed
     else bindE (rle_expand (pb_bytes pcb) (pb_size pcb) sz 0 (pcalloc (sz * npoints)) 0) (\<lambda>bytes.
     Inr (pcb\<lparr>pb_compression := PC_DIM_NONE, pb_size := sz * npoints, pb_bytes := bytes,
              pb_readonly := PC_FALSE\<rparr>))))"

function rle_flip :: "nat \<Rightarrow> nat \<Rightarrow> byte list \<Rightarrow> nat \<Rightarrow> byte list res" where
  "rle_flip end sz bytes ptr =
     (if ptr < end then bindE (rd bytes ptr sz) (\<lambda>w.
        bindE (wr bytes ptr (flip_word sz w)) (\<lambda>bytes.
        rle_flip end sz bytes (ptr + sz + 1)))
      else Inr bytes)"
  by pat_completeness auto
termination rle_flip by (relation "measure (\<lambda>(end, sz, bytes, ptr). end - ptr)") auto

declare rle_flip.simps [simp del]

text \<open>A read-only array is copied first; in the model the result is a new buffer in either case.\<close>

definition pc_bytes_run_length_flip_endian :: "PCBYTES \<Rightarrow> PCBYTES res" where
  "pc_bytes_run_length_flip_endian pcb =
     bindE (pc_interpretation_size (pb_interpretation pcb)) (\<lambda>sz.
     if pb_compression pcb \<noteq> PC_DIM_RLE then Inl AssertFailed
     else if pb_npoints pcb = 0 then Inl AssertFailed
     else if sz < 2 then Inr pcb
     else bindE (if pb_readonly pcb = PC_TRUE
                 then bindE (rd (pb_bytes pcb) 0 (pb_size pcb)) (\<lambda>b.
                        Inr (pcb\<lparr>pb_bytes := b, pb_readonly := PC_FALSE\<rparr>))
                 else Inr pcb) (\<lambda>pcb.
          bindE (rle_flip (pb_size pcb) sz (pb_bytes pcb) 1) (\<lambda>bytes.
          Inr (pcb\<lparr>pb_bytes := bytes\<rparr>))))"

function rle_find :: "byte list \<Rightarrow> nat \<Rightarrow> nat \<Rightarrow> nat \<Rightarrow> int \<Rightarrow> byte list res" where
  "rle_find bytes end sz ptr n =
     (if ptr < end then bindE (rd bytes ptr 1) (\<lambda>c. let run = int (unat (hd c)) in
        if n < run then rd bytes (ptr + 1) sz
        else rle_find bytes end sz (ptr + 1 + sz) (n - run))
      else Inl (PcError ''pc_bytes_run_length_to_ptr: out of bound''))"
  by pat_completeness auto
termination rle_find by (relation "measure (\<lambda>(bytes, end, sz, ptr, n). end - ptr)") auto

declare rle_find.simps [simp del]

text \<open>The functions that copy a value into a caller's buffer return the copied bytes.\<close>

definition pc_bytes_run_length_to_ptr :: "PCBYTES \<Rightarrow> int \<Rightarrow> byte list res" where
  "pc_bytes_run_length_to_ptr pcb n =
     bindE (pc_interpretation_size (pb_interpretation pcb)) (\<lambda>sz.
     if pb_compression pcb \<noteq> PC_DIM_RLE then Inl AssertFailed
     else rle_find (pb_bytes pcb) (pb_size pcb) sz 0 n)"

section \<open>Runs\<close>

type_synonym runs = "(nat \<times> byte list) list"

text \<open>The runs of a list whose current run has length \<open>r\<close> and value \<open>v\<close>.\<close>

fun runs_from :: "nat \<Rightarrow> byte list \<Rightarrow> byte list list \<Rightarrow> runs" where
  "runs_from r v [] = [(r, v)]"
| "runs_from r v (x # xs) = (if r < 255 \<and> v = x then runs_from (r + 1) v xs else (r, v) # runs_from 1 x xs)"

fun runs_of :: "byte list list \<Rightarrow> runs" where
  "runs_of [] = []"
| "runs_of (x # xs) = runs_from 1 x xs"

definition run_values :: "runs \<Rightarrow> byte list list" where
  "run_values rs = concat (map (\<lambda>(r, v). replicate r v) rs)"

definition rle_bytes :: "runs \<Rightarrow> byte list" where
  "rle_bytes rs = concat (map (\<lambda>(r, v). word_of_nat r # v) rs)"

definition runs_ok :: "nat \<Rightarrow> runs \<Rightarrow> bool" where
  "runs_ok sz rs = (\<forall>(r, v) \<in> set rs. r < 256 \<and> length v = sz)"

lemma runs_simps [simp]:
  "run_values [] = []" "run_values ((r, v) # rs) = replicate r v @ run_values rs"
  "rle_bytes [] = []" "rle_bytes ((r, v) # rs) = word_of_nat r # v @ rle_bytes rs"
  "runs_ok sz []" "runs_ok sz ((r, v) # rs) \<longleftrightarrow> r < 256 \<and> length v = sz \<and> runs_ok sz rs"
  by (auto simp: run_values_def rle_bytes_def runs_ok_def)

lemma unat_count [simp]: "r < 256 \<Longrightarrow> unat (word_of_nat r :: byte) = r"
  by (simp add: unat_of_nat)

lemma run_values_from: "run_values (runs_from r v xs) = replicate r v @ xs"
  by (induction r v xs rule: runs_from.induct) (auto simp: replicate_app_Cons_same)

lemma run_values_of: "run_values (runs_of xs) = xs"
  by (cases xs) (simp_all add: run_values_from)

lemma runs_from_ok:
  "r < 256 \<Longrightarrow> length v = sz \<Longrightarrow> (\<forall>x \<in> set xs. length x = sz) \<Longrightarrow> runs_ok sz (runs_from r v xs)"
  by (induction r v xs rule: runs_from.induct) auto

lemma runs_of_ok: "(\<forall>x \<in> set xs. length x = sz) \<Longrightarrow> runs_ok sz (runs_of xs)"
  by (cases xs) (auto intro: runs_from_ok)

lemma length_rle_bytes: "runs_ok sz rs \<Longrightarrow> length (rle_bytes rs) = length rs * (1 + sz)"
  by (induction rs) auto

lemma length_runs_from: "length (runs_from r v xs) \<le> Suc (length xs)"
  by (induction r v xs rule: runs_from.induct) auto

lemma length_runs_of: "length (runs_of xs) \<le> length xs"
  by (cases xs) (simp_all add: length_runs_from)

lemma runs_from_pos: "0 < r \<Longrightarrow> \<forall>(c, x) \<in> set (runs_from r v xs). 0 < c"
  by (induction r v xs rule: runs_from.induct) auto

section \<open>Encoding\<close>

lemma rle_step_continue:
  assumes "i < n" "r < 255" "rd bytes rs sz = Inr v" "rd bytes (i * sz) sz = Inr v"
  shows "rle_step n sz bytes i (buf, p, rs, r) = Inr (buf, p, rs, r + 1)"
  using assms by (simp add: rle_step_def)

lemma rle_step_flush:
  assumes "\<not> (i < n \<and> r < 255) \<or> (rd bytes (i * sz) sz = Inr w \<and> w \<noteq> v)"
    and "rd bytes rs sz = Inr v" "length v = sz" "p + 1 + sz \<le> length buf"
  shows "rle_step n sz bytes i (buf, p, rs, r) =
    Inr (take p buf @ (r # v) @ drop (p + 1 + sz) buf, p + 1 + sz, i * sz, 1)"
proof -
  have w1: "wr buf p [r] = Inr (take p buf @ [r] @ drop (p + 1) buf)"
    using assms(4) by (simp add: wr_def)
  have w2: "wr (take p buf @ [r] @ drop (p + 1) buf) (p + 1) v =
      Inr (take p buf @ (r # v) @ drop (p + 1 + sz) buf)"
    using assms(3,4) by (simp add: wr_def min_def add.commute)
  show ?thesis
  proof (cases "i < n \<and> r < 255")
    case True
    then have "rd bytes (i * sz) sz = Inr w" "v \<noteq> w" using assms(1) by auto
    then show ?thesis using True assms(2) w1 w2 by (simp add: rle_step_def)
  next
    case False
    then show ?thesis using assms(2) w1 w2 by (auto simp: rle_step_def)
  qed
qed

lemma rle_loop:
  assumes "1 \<le> k" "k \<le> n" "n * sz \<le> length bytes" "rd bytes rs sz = Inr v" "0 < unat r"
    and "p + (1 + sz) * (n + 1 - k) \<le> length buf"
  shows "\<exists>buf' rs' r' p'. foldE (rle_step n sz bytes) [k..<Suc n] (buf, p, rs, r) = Inr (buf', p', rs', r') \<and>
    p' \<le> length buf' \<and>
    take p' buf' = take p buf @ rle_bytes (runs_from (unat r) v (drop k (elems sz n bytes)))"
  using assms
proof (induction "n - k" arbitrary: k buf p rs r v)
  case 0
  then have k: "k = n" by simp
  have lv: "length v = sz" using 0 by (auto dest: rd_length)
  have p: "p + 1 + sz \<le> length buf" using 0 k by simp
  have "rle_step n sz bytes n (buf, p, rs, r) =
      Inr (take p buf @ (r # v) @ drop (p + 1 + sz) buf, p + 1 + sz, n * sz, 1)"
    by (rule rle_step_flush [OF _ 0(5) lv p]) simp
  moreover have "[k..<Suc n] = [n]" using k by simp
  ultimately show ?case using p lv by (simp add: k)
next
  case (Suc m)
  have k: "k < n" using Suc.hyps(2) by simp
  have lv: "length v = sz" using Suc.prems by (auto dest: rd_length)
  let ?xs = "elems sz n bytes"
  have x: "rd bytes (k * sz) sz = Inr (?xs ! k)"
    using k Suc.prems(3) elem_bound [OF k, of sz] by (simp add: rd_def)
  have d: "drop k ?xs = ?xs ! k # drop (Suc k) ?xs" using k by (subst Cons_nth_drop_Suc) simp_all
  have up: "[k..<Suc n] = k # [Suc k..<Suc n]" using k by (simp add: upt_conv_Cons del: upt_Suc)
  have m: "m = n - Suc k" using Suc.hyps(2) by simp
  have cap: "n + 1 - k = Suc (n + 1 - Suc k)" using k by simp
  show ?case
  proof (cases "r < 255 \<and> v = ?xs ! k")
    case True
    have st: "rle_step n sz bytes k (buf, p, rs, r) = Inr (buf, p, rs, r + 1)"
      using rle_step_continue k True Suc.prems(4) x by simp
    have r: "unat (r + 1) = unat r + 1"
      using True by (simp add: word_less_nat_alt unat_word_ariths)
    have r255: "unat r < 255" using True by (simp add: word_less_nat_alt)
    have "p + (1 + sz) * (n + 1 - Suc k) \<le> length buf" using Suc.prems(6) unfolding cap by simp
    from Suc.hyps(1) [OF m _ _ Suc.prems(3,4), of "r + 1" p buf] this
    show ?thesis using k True r r255 unfolding up by (simp add: st d)
  next
    case False
    have pl: "p + 1 + sz \<le> length buf" using Suc.prems(6) unfolding cap by simp
    let ?buf = "take p buf @ (r # v) @ drop (p + 1 + sz) buf"
    have st: "rle_step n sz bytes k (buf, p, rs, r) = Inr (?buf, p + 1 + sz, k * sz, 1)"
      by (rule rle_step_flush [OF _ Suc.prems(4) lv pl, where w = "?xs ! k"]) (use x False in auto)
    have lb: "length ?buf = length buf" using pl lv by simp
    have tk: "take (p + 1 + sz) ?buf = take p buf @ (r # v)" using pl lv by simp
    have "p + 1 + sz + (1 + sz) * (n + 1 - Suc k) \<le> length ?buf"
      using Suc.prems(6) unfolding lb cap by simp
    from Suc.hyps(1) [OF m _ _ Suc.prems(3) x, of 1, OF _ _ _ this]
    obtain buf' rs' r' p' where
      f: "foldE (rle_step n sz bytes) [Suc k..<Suc n] (?buf, p + 1 + sz, k * sz, 1) = Inr (buf', p', rs', r')"
      "p' \<le> length buf'" "take p' buf' = take (p + 1 + sz) ?buf @ rle_bytes (runs_from 1 (?xs ! k) (drop (Suc k) ?xs))"
      using k by auto
    have "unat r < 255 \<longrightarrow> v \<noteq> ?xs ! k" using False by (simp add: word_less_nat_alt)
    then have "runs_from (unat r) v (drop k ?xs) = (unat r, v) # runs_from 1 (?xs ! k) (drop (Suc k) ?xs)"
      by (auto simp: d)
    then show ?thesis using f unfolding up tk by (auto simp: st simp del: upt_Suc)
  qed
qed

lemma rle_encode_eq:
  assumes "plain pcb"
  shows "pc_bytes_run_length_encode pcb = Inr (pcb\<lparr>pb_size := length (rle_bytes (runs_of (vals pcb))),
     pb_bytes := rle_bytes (runs_of (vals pcb)), pb_compression := PC_DIM_RLE, pb_readonly := PC_FALSE\<rparr>)"
proof -
  let ?n = "pb_npoints pcb" and ?sz = "isize (pb_interpretation pcb)" and ?b = "pb_bytes pcb"
  have len: "?n * ?sz \<le> length ?b" using assms by (simp add: plain_def)
  show ?thesis
  proof (cases "?n = 0")
    case True
    then have "vals pcb = []" by (metis length_vals length_0_conv)
    then show ?thesis using True
      by (simp add: pc_bytes_run_length_encode_def plain_size [OF assms] rd_def)
  next
    case False
    then have n: "1 \<le> ?n" by simp
    obtain v vs where vs: "vals pcb = v # vs" using False by (metis length_vals length_0_conv neq_Nil_conv)
    have v: "rd ?b 0 ?sz = Inr v" using vals_nth_rd [OF assms, of 0] False vs by simp
    have d: "drop 1 (elems ?sz ?n ?b) = vs" using vs by (simp add: vals_def)
    obtain buf p rs r where f: "foldE (rle_step ?n ?sz ?b) [1..<Suc ?n] (pcalloc (?n * ?sz + ?n), 0, 0, 1)
        = Inr (buf, p, rs, r)" "p \<le> length buf" "take p buf = rle_bytes (runs_from 1 v vs)"
      using rle_loop [OF _ n len v, of 1 0 "pcalloc (?n * ?sz + ?n)"] d by (auto simp: ac_simps)
    have p: "p = length (rle_bytes (runs_from 1 v vs))" using f(2,3) by (metis length_take min.absorb2)
    have "rd buf 0 p = Inr (rle_bytes (runs_from 1 v vs))" using f(2,3) by (simp add: rd_def)
    then show ?thesis
      unfolding pc_bytes_run_length_encode_def plain_size [OF assms] bindE_Inr f(1) prod.case vs
      by (simp add: p)
  qed
qed

section \<open>Decoding\<close>

abbreviation run_total :: "runs \<Rightarrow> nat" where
  "run_total rs \<equiv> sum_list (map fst rs)"

lemma length_run_values: "length (run_values rs) = run_total rs"
  by (induction rs) auto

lemma run_values_width: "runs_ok sz rs \<Longrightarrow> x \<in> set (run_values rs) \<Longrightarrow> length x = sz"
  by (induction rs) (auto split: if_splits)

text \<open>Reading at a position of the encoded buffer.\<close>

lemma rd_count: "rd (a @ (c # v) @ b) (length a) 1 = Inr [c]"
  and rd_value: "length v = sz \<Longrightarrow> rd (a @ (c # v) @ b) (length a + 1) sz = Inr v"
  by (simp_all add: rd_def)

lemma rle_total_runs:
  assumes "runs_ok sz rs" "m < 2 ^ 32"
  shows "rle_total (a @ rle_bytes rs) (length a + length (rle_bytes rs)) sz (length a) m =
    Inr ((m + run_total rs) mod 2 ^ 32)"
  using assms
proof (induction rs arbitrary: a m)
  case Nil
  then show ?case by (simp add: rle_total.simps)
next
  case (Cons p rs)
  obtain r v where p: "p = (r, v)" by (cases p)
  let ?c = "word_of_nat r :: byte"
  have ok: "r < 256" "length v = sz" "runs_ok sz rs" using Cons.prems p by auto
  have e: "a @ rle_bytes (p # rs) = (a @ ?c # v) @ rle_bytes rs"
    "length a + length (rle_bytes (p # rs)) = length (a @ ?c # v) + length (rle_bytes rs)"
    "length a + 1 + sz = length (a @ ?c # v)" by (simp_all add: p ok)
  have c: "rd (a @ rle_bytes (p # rs)) (length a) 1 = Inr [?c]"
    using rd_count [of a ?c v "rle_bytes rs"] by (simp add: p)
  have "rle_total (a @ rle_bytes (p # rs)) (length a + length (rle_bytes (p # rs))) sz (length a) m =
    rle_total (a @ rle_bytes (p # rs)) (length a + length (rle_bytes (p # rs))) sz (length a + 1 + sz)
      ((m + r) mod 2 ^ 32)"
    by (subst rle_total.simps) (simp only: c bindE_Inr list.sel unat_count [OF ok(1)], simp add: p)
  also have "\<dots> = Inr (((m + r) mod 2 ^ 32 + run_total rs) mod 2 ^ 32)"
    unfolding e by (rule Cons.IH [OF ok(3)]) simp
  finally show ?case by (simp add: p mod_add_left_eq add.assoc)
qed

lemma fill_run:
  assumes "length v = sz" "rd rle q sz = Inr v" "length junk = c * sz"
  shows "foldE (\<lambda>i (bytes, bptr). bindE (rd rle q sz) (\<lambda>v.
             bindE (wr bytes bptr v) (\<lambda>bytes. Inr (bytes, bptr + sz))))
           [0..<c] (pre @ junk @ rest, length pre) =
     Inr (pre @ concat (replicate c v) @ rest, length pre + c * sz)"
  using assms(3)
proof (induction c arbitrary: junk rest)
  case (Suc c)
  define j1 j2 where "j1 = take (c * sz) junk" and "j2 = drop (c * sz) junk"
  have j: "junk = j1 @ j2" "length j1 = c * sz" "length j2 = sz"
    using Suc.prems by (simp_all add: j1_def j2_def)
  have w: "wr (pre @ concat (replicate c v) @ j2 @ rest) (length pre + c * sz) v =
      Inr ((pre @ concat (replicate c v)) @ v @ rest)"
    using wr_mid [of "length pre + c * sz" "pre @ concat (replicate c v)" j2 v rest] j(3) assms(1)
    by simp
  have r: "concat (replicate (Suc c) v) = concat (replicate c v) @ v"
    by (simp add: replicate_append_same [symmetric])
  show ?case
    unfolding foldE_upt_Suc j(1) append_assoc Suc.IH [OF j(2), of "j2 @ rest"]
    unfolding bindE_Inr prod.case assms(2) w r by simp
qed simp

lemma rle_expand_runs:
  assumes "runs_ok sz rs" "length junk = run_total rs * sz"
  shows "rle_expand (a @ rle_bytes rs) (length a + length (rle_bytes rs)) sz (length a) (pre @ junk) (length pre) =
    Inr (pre @ concat (run_values rs))"
  using assms
proof (induction rs arbitrary: a pre junk)
  case Nil
  then show ?case by (simp add: rle_expand.simps)
next
  case (Cons p rs)
  obtain r v where p: "p = (r, v)" by (cases p)
  let ?c = "word_of_nat r :: byte" and ?rle = "a @ rle_bytes (p # rs)"
  have ok: "r < 256" "length v = sz" "runs_ok sz rs" using Cons.prems p by auto
  define j1 j2 where "j1 = take (r * sz) junk" and "j2 = drop (r * sz) junk"
  have j: "junk = j1 @ j2" "length j1 = r * sz" "length j2 = run_total rs * sz"
    using Cons.prems(2) by (simp_all add: j1_def j2_def p algebra_simps)
  have e: "?rle = (a @ ?c # v) @ rle_bytes rs"
    "length a + length (rle_bytes (p # rs)) = length (a @ ?c # v) + length (rle_bytes rs)"
    "length a + 1 + sz = length (a @ ?c # v)" by (simp_all add: p ok)
  have c: "rd ?rle (length a) 1 = Inr [?c]" "rd ?rle (length a + 1) sz = Inr v"
    using rd_count [of a ?c v "rle_bytes rs"] rd_value [OF ok(2), of a ?c "rle_bytes rs"] by (simp_all add: p)
  note f = fill_run [OF ok(2) c(2) j(2), of pre j2]
  have "rle_expand ?rle (length a + length (rle_bytes (p # rs))) sz (length a) (pre @ junk) (length pre) =
    rle_expand ?rle (length a + length (rle_bytes (p # rs))) sz (length a + 1 + sz)
      (pre @ concat (replicate r v) @ j2) (length pre + r * sz)"
    by (subst rle_expand.simps)
      (simp only: c(1) bindE_Inr list.sel unat_count [OF ok(1)] j(1) append_assoc f prod.case, simp add: p)
  also have "\<dots> = rle_expand ((a @ ?c # v) @ rle_bytes rs) (length (a @ ?c # v) + length (rle_bytes rs)) sz
      (length (a @ ?c # v)) ((pre @ concat (replicate r v)) @ j2) (length (pre @ concat (replicate r v)))"
    unfolding e using ok(2) by simp
  also have "\<dots> = Inr ((pre @ concat (replicate r v)) @ concat (run_values rs))"
    by (rule Cons.IH [OF ok(3) j(3)])
  finally show ?case by (simp add: p)
qed

text \<open>An array that holds the encoding of \<open>rs\<close>.\<close>

definition rle_array :: "PCBYTES \<Rightarrow> runs \<Rightarrow> bool" where
  "rle_array pcb rs = (pb_compression pcb = PC_DIM_RLE \<and> known_interp (pb_interpretation pcb) \<and>
     runs_ok (isize (pb_interpretation pcb)) rs \<and> pb_bytes pcb = rle_bytes rs \<and>
     pb_size pcb = length (rle_bytes rs) \<and> pb_npoints pcb = run_total rs \<and> pb_npoints pcb < 2 ^ 31)"

lemma rle_decode_eq:
  assumes "rle_array pcb rs"
  shows "pc_bytes_run_length_decode pcb = Inr (pcb\<lparr>pb_compression := PC_DIM_NONE,
     pb_size := isize (pb_interpretation pcb) * pb_npoints pcb, pb_bytes := concat (run_values rs),
     pb_readonly := PC_FALSE\<rparr>)"
proof -
  let ?sz = "isize (pb_interpretation pcb)"
  have ok: "runs_ok ?sz rs" and n: "pb_npoints pcb = run_total rs" "run_total rs < 2 ^ 31"
    and b: "pb_bytes pcb = rle_bytes rs" "pb_size pcb = length (rle_bytes rs)"
    and t: "known_interp (pb_interpretation pcb)" "pb_compression pcb = PC_DIM_RLE"
    using assms by (simp_all add: rle_array_def)
  have "rle_total (rle_bytes rs) (length (rle_bytes rs)) ?sz 0 0 = Inr (run_total rs)"
    using rle_total_runs [OF ok, of 0 "[]"] n(2) by simp
  moreover have "rle_expand (rle_bytes rs) (length (rle_bytes rs)) ?sz 0 (pcalloc (?sz * run_total rs)) 0 =
      Inr (concat (run_values rs))"
    using rle_expand_runs [OF ok, of "pcalloc (?sz * run_total rs)" "[]" "[]"] by (simp add: mult.commute)
  ultimately show ?thesis
    by (simp add: pc_bytes_run_length_decode_def t n(1) b)
qed

lemma rle_encode_array:
  assumes "plain pcb" "pc_bytes_run_length_encode pcb = Inr e"
  shows "rle_array e (runs_of (vals pcb))" "pb_npoints e = pb_npoints pcb"
    "pb_interpretation e = pb_interpretation pcb"
proof -
  have e: "e = pcb\<lparr>pb_size := length (rle_bytes (runs_of (vals pcb))),
     pb_bytes := rle_bytes (runs_of (vals pcb)), pb_compression := PC_DIM_RLE, pb_readonly := PC_FALSE\<rparr>"
    using rle_encode_eq [OF assms(1)] assms(2) by simp
  have "runs_ok (isize (pb_interpretation pcb)) (runs_of (vals pcb))"
    by (rule runs_of_ok) (use vals_width [OF assms(1)] in blast)
  moreover have "run_total (runs_of (vals pcb)) = pb_npoints pcb"
    using length_run_values [of "runs_of (vals pcb)"] by (simp add: run_values_of)
  ultimately show "rle_array e (runs_of (vals pcb))" "pb_npoints e = pb_npoints pcb"
    "pb_interpretation e = pb_interpretation pcb"
    using assms(1) by (auto simp: rle_array_def plain_def e)
qed

lemma rle_decode_plain:
  assumes "rle_array pcb rs" "pc_bytes_run_length_decode pcb = Inr d"
  shows "plain d" "vals d = run_values rs" "pb_interpretation d = pb_interpretation pcb"
proof -
  let ?sz = "isize (pb_interpretation pcb)"
  have d: "d = pcb\<lparr>pb_compression := PC_DIM_NONE, pb_size := ?sz * pb_npoints pcb,
      pb_bytes := concat (run_values rs), pb_readonly := PC_FALSE\<rparr>"
    using rle_decode_eq [OF assms(1)] assms(2) by simp
  have w: "\<And>x. x \<in> set (run_values rs) \<Longrightarrow> length x = ?sz"
    using assms(1) run_values_width unfolding rle_array_def by blast
  have n: "length (run_values rs) = pb_npoints pcb" using assms(1) by (simp add: rle_array_def length_run_values)
  show "plain d" using assms(1) length_concat_const [OF w] n
    by (simp add: d plain_def rle_array_def mult.commute)
  show "vals d = run_values rs"
    using elems_concat [of "run_values rs" ?sz "[]"] w unfolding n by (simp add: d vals_def)
  show "pb_interpretation d = pb_interpretation pcb" by (simp add: d)
qed

lemma rle_roundtrip:
  assumes "plain pcb"
  shows "bindE (pc_bytes_run_length_encode pcb) pc_bytes_run_length_decode = Inr (pcb\<lparr>pb_readonly := PC_FALSE\<rparr>)"
proof -
  obtain e where e: "pc_bytes_run_length_encode pcb = Inr e" using rle_encode_eq [OF assms] by simp
  from rle_encode_eq [OF assms] rle_decode_eq [OF rle_encode_array(1) [OF assms e]]
  show ?thesis using assms concat_vals [OF assms]
    by (simp add: e) (cases pcb, auto simp: run_values_of plain_def mult.commute)
qed

section \<open>Random access\<close>

lemma rle_find_runs:
  assumes "runs_ok sz rs"
  shows "rle_find (a @ rle_bytes rs) (length a + length (rle_bytes rs)) sz (length a) (int n) =
    (if n < run_total rs then Inr (run_values rs ! n)
     else Inl (PcError ''pc_bytes_run_length_to_ptr: out of bound''))"
  using assms
proof (induction rs arbitrary: a n)
  case Nil
  then show ?case by (simp add: rle_find.simps)
next
  case (Cons p rs)
  obtain r v where p: "p = (r, v)" by (cases p)
  let ?c = "word_of_nat r :: byte" and ?rle = "a @ rle_bytes (p # rs)"
  have ok: "r < 256" "length v = sz" "runs_ok sz rs" using Cons.prems p by auto
  have e: "?rle = (a @ ?c # v) @ rle_bytes rs"
    "length a + length (rle_bytes (p # rs)) = length (a @ ?c # v) + length (rle_bytes rs)"
    "length a + 1 + sz = length (a @ ?c # v)" by (simp_all add: p ok)
  have c: "rd ?rle (length a) 1 = Inr [?c]" "rd ?rle (length a + 1) sz = Inr v"
    using rd_count [of a ?c v "rle_bytes rs"] rd_value [OF ok(2), of a ?c "rle_bytes rs"] by (simp_all add: p)
  have lt: "length a < length a + length (rle_bytes (p # rs))" by (simp add: p)
  have st: "rle_find ?rle (length a + length (rle_bytes (p # rs))) sz (length a) (int n) =
      (if n < r then Inr v
       else rle_find ?rle (length a + length (rle_bytes (p # rs))) sz (length a + 1 + sz) (int n - int r))"
    by (subst rle_find.simps) (simp only: lt if_True c bindE_Inr list.sel unat_count [OF ok(1)] Let_def of_nat_less_iff)
  show ?case
  proof (cases "n < r")
    case True
    then show ?thesis unfolding st by (simp add: p nth_append)
  next
    case False
    then have i: "int n - int r = int (n - r)" by simp
    show ?thesis unfolding st i unfolding e Cons.IH [OF ok(3)]
      using False by (auto simp: p nth_append)
  qed
qed

lemma rle_to_ptr_eq:
  assumes "rle_array pcb rs" "n < pb_npoints pcb"
  shows "pc_bytes_run_length_to_ptr pcb (int n) = Inr (run_values rs ! n)"
  using assms rle_find_runs [of "isize (pb_interpretation pcb)" rs "[]" n]
  by (simp add: pc_bytes_run_length_to_ptr_def rle_array_def)

lemma rle_to_ptr_out:
  assumes "rle_array pcb rs" "pb_npoints pcb \<le> n"
  shows "pc_bytes_run_length_to_ptr pcb (int n) = Inl (PcError ''pc_bytes_run_length_to_ptr: out of bound'')"
  using assms rle_find_runs [of "isize (pb_interpretation pcb)" rs "[]" n]
  by (simp add: pc_bytes_run_length_to_ptr_def rle_array_def)

section \<open>Counting runs\<close>

lemma count_changes:
  "k < length xs \<Longrightarrow>
   fold (\<lambda>i c. if xs ! (i - 1) \<noteq> xs ! i then c + 1 else c) [1..<Suc k] 1 = length (remdups_adj (take (Suc k) xs))"
proof (induction k)
  case 0
  then show ?case by (cases xs) auto
next
  case (Suc k)
  have t: "take (Suc k) xs = take k xs @ [xs ! k]" "take (Suc (Suc k)) xs = take k xs @ [xs ! k, xs ! Suc k]"
    using Suc.prems by (simp_all add: take_Suc_conv_app_nth)
  have u: "[1..<Suc (Suc k)] = [1..<Suc k] @ [Suc k]" by simp
  have IH: "fold (\<lambda>i c. if xs ! (i - 1) \<noteq> xs ! i then c + 1 else c) [1..<Suc k] 1 = length (remdups_adj (take (Suc k) xs))"
    by (rule Suc.IH) (use Suc.prems in simp)
  show ?case unfolding u fold_append comp_apply IH unfolding t remdups_adj_append_two by simp
qed

lemma run_count_eq:
  assumes "plain pcb" "0 < pb_npoints pcb"
  shows "pc_bytes_run_count pcb = Inr (length (remdups_adj (vals pcb)))"
proof -
  obtain k where k: "pb_npoints pcb = Suc k" using assms(2) by (cases "pb_npoints pcb") auto
  let ?sz = "isize (pb_interpretation pcb)" and ?b = "pb_bytes pcb"
  have "foldE (\<lambda>i c. bindE (rd ?b ((i - 1) * ?sz) ?sz) (\<lambda>a. bindE (rd ?b (i * ?sz) ?sz) (\<lambda>b.
         Inr (if a \<noteq> b then c + 1 else c)))) [1..<pb_npoints pcb] 1 =
    Inr (fold (\<lambda>i c. if vals pcb ! (i - 1) \<noteq> vals pcb ! i then c + 1 else c) [1..<pb_npoints pcb] 1)"
  proof (rule foldE_Inr)
    fix i c assume "i \<in> set [1..<pb_npoints pcb]"
    then have "i < pb_npoints pcb" "i - 1 < pb_npoints pcb" by auto
    then show "bindE (rd ?b ((i - 1) * ?sz) ?sz) (\<lambda>a. bindE (rd ?b (i * ?sz) ?sz) (\<lambda>b.
         Inr (if a \<noteq> b then c + 1 else c))) = Inr (if vals pcb ! (i - 1) \<noteq> vals pcb ! i then c + 1 else c)"
      by (simp only: vals_nth_rd [OF assms(1)] bindE_Inr)
  qed
  also have "\<dots> = Inr (length (remdups_adj (vals pcb)))"
    using count_changes [of k "vals pcb"] k by (simp del: upt_Suc)
  finally show ?thesis by (simp add: pc_bytes_run_count_def plain_size [OF assms(1)])
qed

section \<open>Byte order\<close>

definition rev_runs :: "runs \<Rightarrow> runs" where
  "rev_runs rs = map (\<lambda>(r, v). (r, rev v)) rs"

lemma rev_runs_simps [simp]:
  "rev_runs [] = []" "rev_runs ((r, v) # rs) = (r, rev v) # rev_runs rs"
  by (simp_all add: rev_runs_def)

lemma rev_runs_props:
  "runs_ok sz (rev_runs rs) \<longleftrightarrow> runs_ok sz rs" "run_total (rev_runs rs) = run_total rs"
  "run_values (rev_runs rs) = map rev (run_values rs)" "rev_runs (rev_runs rs) = rs"
  "length (rle_bytes (rev_runs rs)) = length (rle_bytes rs)"
  by (induction rs) auto

lemma rle_flip_runs:
  assumes "runs_ok sz rs"
  shows "rle_flip (length a + length (rle_bytes rs)) sz (a @ rle_bytes rs) (length a + 1) =
    Inr (a @ rle_bytes (rev_runs rs))"
  using assms
proof (induction rs arbitrary: a)
  case Nil
  then show ?case by (simp add: rle_flip.simps)
next
  case (Cons p rs)
  obtain r v where p: "p = (r, v)" by (cases p)
  let ?c = "word_of_nat r :: byte"
  have ok: "r < 256" "length v = sz" "runs_ok sz rs" using Cons.prems p by auto
  show ?case
  proof (cases "sz = 0 \<and> rs = []")
    case True
    then show ?thesis using ok by (simp add: rle_flip.simps p)
  next
    case False
    then have lt: "length a + 1 < length a + length (rle_bytes (p # rs))"
      using ok by (cases rs) (auto simp: p)
    have c: "rd (a @ rle_bytes (p # rs)) (length a + 1) sz = Inr v"
      using rd_value [OF ok(2), of a ?c "rle_bytes rs"] by (simp add: p)
    have w: "wr (a @ rle_bytes (p # rs)) (length a + 1) (flip_word sz v) = Inr ((a @ ?c # rev v) @ rle_bytes rs)"
      using wr_mid [of "length a + 1" "a @ [?c]" v "rev v" "rle_bytes rs"] flip_word_rev [OF ok(2)] by (simp add: p)
    have l: "length a + length (rle_bytes (p # rs)) = length (a @ ?c # rev v) + length (rle_bytes rs)"
      "length a + 1 + sz + 1 = length (a @ ?c # rev v) + 1" by (simp_all add: p ok)
    have "rle_flip (length a + length (rle_bytes (p # rs))) sz (a @ rle_bytes (p # rs)) (length a + 1) =
      rle_flip (length a + length (rle_bytes (p # rs))) sz ((a @ ?c # rev v) @ rle_bytes rs) (length a + 1 + sz + 1)"
      by (subst rle_flip.simps) (simp only: lt if_True c w bindE_Inr)
    also have "\<dots> = Inr ((a @ ?c # rev v) @ rle_bytes (rev_runs rs))"
      unfolding l by (rule Cons.IH [OF ok(3)])
    finally show ?thesis by (simp add: p)
  qed
qed

lemma rle_flip_eq:
  assumes a: "rle_array pcb rs" and n: "0 < pb_npoints pcb"
  obtains pcb' where "pc_bytes_run_length_flip_endian pcb = Inr pcb'" "rle_array pcb' (rev_runs rs)"
    "pb_npoints pcb' = pb_npoints pcb" "pb_interpretation pcb' = pb_interpretation pcb"
proof -
  let ?sz = "isize (pb_interpretation pcb)"
  have ok: "runs_ok ?sz rs" and b: "pb_bytes pcb = rle_bytes rs" "pb_size pcb = length (rle_bytes rs)"
    and t: "known_interp (pb_interpretation pcb)" "pb_compression pcb = PC_DIM_RLE"
    using a by (simp_all add: rle_array_def)
  have f: "rle_flip (length (rle_bytes rs)) ?sz (rle_bytes rs) 1 = Inr (rle_bytes (rev_runs rs))"
    using rle_flip_runs [OF ok, of "[]"] by simp
  show thesis
  proof (cases "?sz < 2")
    case True
    then have "\<forall>(r, v) \<in> set rs. rev v = v"
    proof -
      have "rev v = v" if "(r, v) \<in> set rs" for r v
      proof -
        have "length v = ?sz" using ok that by (auto simp: runs_ok_def)
        then have "length v < 2" using True by simp
        then show ?thesis by (cases v) (auto simp: less_Suc_eq numeral_2_eq_2)
      qed
      then show ?thesis by blast
    qed
    then have "rev_runs rs = rs" by (induction rs) auto
    then show thesis
      using that [of pcb] True a n t by (simp add: pc_bytes_run_length_flip_endian_def)
  next
    case False
    define ro where "ro = (if pb_readonly pcb = PC_TRUE then PC_FALSE else pb_readonly pcb)"
    have "pc_bytes_run_length_flip_endian pcb = Inr (pcb\<lparr>pb_readonly := ro, pb_bytes := rle_bytes (rev_runs rs)\<rparr>)"
      using False n t f b by (cases pcb) (auto simp: pc_bytes_run_length_flip_endian_def ro_def rd_def)
    then show thesis
      by (rule that) (use a in \<open>simp_all add: rle_array_def rev_runs_props\<close>)
  qed
qed

section \<open>Properties\<close>

definition demo_shorts :: PCBYTES where
  "demo_shorts = \<lparr>pb_size = 8, pb_npoints = 4, pb_interpretation = PC_UINT16, pb_compression = PC_DIM_NONE,
     pb_readonly = PC_FALSE, pb_bytes = [1, 0, 1, 0, 1, 0, 2, 1]\<rparr>"

lemma demo_shorts_plain: "plain demo_shorts" "vals demo_shorts = [[1, 0], [1, 0], [1, 0], [2, 1]]"
  by (simp_all add: plain_def demo_shorts_def known_interp_def vals_def elems_def upt_rec)

text \<open>
  C3: The run-length encoding of a plain array is the list of its runs, each at most 255 long, written
  as a count byte and the value; decoding it gives the array back, and it never takes more than one
  byte per point beyond the original.
\<close>

theorem rle_encoding:
  assumes "plain pcb"
  shows "\<exists>e. pc_bytes_run_length_encode pcb = Inr e \<and> pb_bytes e = rle_bytes (runs_of (vals pcb)) \<and>
    pb_size e = length (pb_bytes e) \<and> pb_size e \<le> pb_size pcb + pb_npoints pcb \<and>
    pc_bytes_run_length_decode e = Inr (pcb\<lparr>pb_readonly := PC_FALSE\<rparr>)"
proof -
  obtain e where e: "pc_bytes_run_length_encode pcb = Inr e" using rle_encode_eq [OF assms] by simp
  have b: "pb_bytes e = rle_bytes (runs_of (vals pcb))" "pb_size e = length (rle_bytes (runs_of (vals pcb)))"
    using rle_encode_eq [OF assms] e by auto
  have "runs_ok (isize (pb_interpretation pcb)) (runs_of (vals pcb))"
    by (rule runs_of_ok) (use vals_width [OF assms] in blast)
  then have "pb_size e = length (runs_of (vals pcb)) * (1 + isize (pb_interpretation pcb))"
    using b(2) length_rle_bytes by simp
  also have "\<dots> \<le> pb_npoints pcb * (1 + isize (pb_interpretation pcb))"
    using length_runs_of [of "vals pcb"] by (intro mult_le_mono1) simp
  finally have "pb_size e \<le> pb_size pcb + pb_npoints pcb" using assms by (simp add: plain_def)
  then show ?thesis using e b rle_roundtrip [OF assms] by simp
qed

theorem rle_encoding_witness:
  "\<exists>e. pc_bytes_run_length_encode demo_shorts = Inr e \<and> pb_bytes e = [3, 1, 0, 1, 2, 1]"
  using rle_encoding [OF demo_shorts_plain(1)] by (auto simp: demo_shorts_plain(2))

text \<open>
  Changing the byte order of a run-length encoded array in place changes the byte order of every
  value it stands for and nothing else.
\<close>

theorem rle_flip_flips_values:
  assumes "plain pcb" "0 < pb_npoints pcb" "pc_bytes_run_length_encode pcb = Inr e"
  shows "\<exists>f d. pc_bytes_run_length_flip_endian e = Inr f \<and> pc_bytes_run_length_decode f = Inr d \<and>
    plain d \<and> vals d = map rev (vals pcb)"
proof -
  note a = rle_encode_array [OF assms(1,3)]
  obtain f where f: "pc_bytes_run_length_flip_endian e = Inr f" "rle_array f (rev_runs (runs_of (vals pcb)))"
    using rle_flip_eq [OF a(1)] a(2) assms(2) by metis
  obtain d where d: "pc_bytes_run_length_decode f = Inr d" using rle_decode_eq [OF f(2)] by simp
  then show ?thesis using f(1) rle_decode_plain [OF f(2) d] by (simp add: rev_runs_props run_values_of)
qed

theorem rle_flip_flips_values_witness:
  "\<exists>e f d. pc_bytes_run_length_encode demo_shorts = Inr e \<and> pc_bytes_run_length_flip_endian e = Inr f \<and>
     pc_bytes_run_length_decode f = Inr d \<and> vals d = [[0, 1], [0, 1], [0, 1], [1, 2]]"
proof -
  obtain e where e: "pc_bytes_run_length_encode demo_shorts = Inr e"
    using rle_encode_eq [OF demo_shorts_plain(1)] by simp
  have "0 < pb_npoints demo_shorts" by (simp add: demo_shorts_def)
  from rle_flip_flips_values [OF demo_shorts_plain(1) this e] show ?thesis
    using e by (auto simp: demo_shorts_plain(2))
qed

text \<open>
  \<open>pc_bytes_run_count\<close> counts the maximal runs of equal adjacent values (a run longer than 255 counts
  once, although it is stored in several pieces).
\<close>

theorem run_count_counts_runs:
  assumes "plain pcb" "0 < pb_npoints pcb"
  shows "pc_bytes_run_count pcb = Inr (length (remdups_adj (vals pcb)))"
  by (rule run_count_eq [OF assms])

theorem run_count_counts_runs_witness: "pc_bytes_run_count demo_shorts = Inr 2"
proof -
  have "0 < pb_npoints demo_shorts" by (simp add: demo_shorts_def)
  from run_count_counts_runs [OF demo_shorts_plain(1) this] show ?thesis
    by (simp add: demo_shorts_plain(2))
qed

end
