(* ===== verification/PC_Sigbits_Words.thy ===== *)
theory PC_Sigbits_Words
  imports PC_Prelude
begin

text \<open>
  The bit packing of lib/pc_bytes.c at the level of machine words. The code has one copy of every
  routine per word width (8, 16, 32, 64); the copies run the same loops, which are written here once
  for a word type \<open>'a\<close>. PC_Bytes_Sigbits instantiates them and adds what differs.

  C shifts: a narrow operand is promoted to a 32-bit \<open>int\<close>. A shift by the width of the promoted
  type or more is undefined in C; the model takes what the machines do (the count is reduced modulo
  the width). Such shifts occur for arrays whose values all agree.

  The encoded array is a list of words: the number of unique bits, the common value, and the packed
  unique parts, most significant bit first. \<open>sbit ws t\<close> is bit \<open>t\<close> of the packed stream; the
  lemmas describe every step of the loops by its effect on the stream.
\<close>

section \<open>C operations\<close>

definition c_shl :: "'a::len word \<Rightarrow> int \<Rightarrow> 'a word" where
  "c_shl w n = push_bit (nat (n mod int (max 32 (LENGTH('a))))) w"

definition c_shr :: "'a::len word \<Rightarrow> int \<Rightarrow> 'a word" where
  "c_shr w n = drop_bit (nat (n mod int (max 32 (LENGTH('a))))) w"

text \<open>Conversion of a computed value to the 32-bit \<open>int\<close>.\<close>

definition to_int :: "int \<Rightarrow> int" where
  "to_int x = (x + 2 ^ 31) mod 2 ^ 32 - 2 ^ 31"

definition orx :: "'a::len word list \<Rightarrow> nat \<Rightarrow> 'a word \<Rightarrow> 'a word list res" where
  "orx ws i v = bindE (rdx ws i) (\<lambda>w. wrx ws i (w OR v))"

section \<open>Common bits\<close>

function count_loop :: "'a::len word \<Rightarrow> 'a word \<Rightarrow> nat \<Rightarrow> 'a word \<times> nat" where
  "count_loop elem_and elem_or commonbits =
     (if elem_and \<noteq> elem_or then count_loop (drop_bit 1 elem_and) (drop_bit 1 elem_or) (commonbits - 1)
      else (elem_and, commonbits))"
  by pat_completeness auto

lemma unat_half: "unat (drop_bit 1 (w :: 'a::len word)) = unat w div 2"
  unfolding unat_drop_bit_eq by (simp add: drop_bit_eq_div)

termination count_loop
proof (relation "measure (\<lambda>(a, b, c). unat a + unat b)", simp)
  fix a b :: "'a word" and c
  assume "a \<noteq> b"
  then have "unat a \<noteq> unat b" by (simp add: word_unat_eq_iff)
  then have "unat a div 2 + unat b div 2 < unat a + unat b" by linarith
  then show "((drop_bit 1 a, drop_bit 1 b, c - 1), a, b, c) \<in> measure (\<lambda>(a, b, c). unat a + unat b)"
    by (simp only: in_measure prod.case unat_half)
qed

declare count_loop.simps [simp del]

definition sigbits_count :: "'a::len word list \<Rightarrow> nat \<Rightarrow> ('a word \<times> nat) res" where
  "sigbits_count bytes npoints =
     bindE (rdx bytes 0) (\<lambda>b0.
     bindE (foldE (\<lambda>i (elem_and, elem_or). bindE (rdx bytes i) (\<lambda>b. Inr (elem_and AND b, elem_or OR b)))
              [0..<npoints] (b0, b0)) (\<lambda>(elem_and, elem_or).
     let (elem_and, commonbits) = count_loop elem_and elem_or (LENGTH('a))
     in Inr (c_shl elem_and (int (LENGTH('a)) - int commonbits), commonbits)))"

section \<open>Packing\<close>

text \<open>State: output words, write position, bits left in the current word.\<close>

type_synonym 'a pack_state = "'a word list \<times> nat \<times> int"

definition pack_step ::
  "int \<Rightarrow> 'a::len word \<Rightarrow> 'a word list \<Rightarrow> nat \<Rightarrow> 'a pack_state \<Rightarrow> 'a pack_state res" where
  "pack_step nbits msk bytes i st = (case st of (out, p, avail) \<Rightarrow>
     bindE (rdx bytes i) (\<lambda>val.
     let val = val AND msk; shift = avail - nbits in
     if 0 \<le> shift
     then bindE (orx out p (c_shl val shift)) (\<lambda>out.
          let avail = avail - nbits in
          if avail \<le> 0 then Inr (out, p + 1, int (LENGTH('a))) else Inr (out, p, avail))
     else let s = \<bar>shift\<bar> in
          bindE (orx out p (c_shr val s)) (\<lambda>out.
          let avail = int (LENGTH('a)); shift = avail - s in
          bindE (orx out (p + 1) (c_shl val shift)) (\<lambda>out.
          Inr (out, p + 1, avail - s)))))"

text \<open>\<open>nwords\<close> is the capacity of the output buffer, \<open>msk\<close> selects the unique part.\<close>

definition sigbits_pack ::
  "'a::len word list \<Rightarrow> nat \<Rightarrow> 'a word \<Rightarrow> nat \<Rightarrow> nat \<Rightarrow> 'a word list res" where
  "sigbits_pack bytes npoints commonvalue commonbits nwords =
     (let nbits = int (LENGTH('a)) - int commonbits; msk = c_shr (- 1) (int commonbits) in
     bindE (wrx (replicate nwords 0) 0 (word_of_int nbits)) (\<lambda>out.
     bindE (wrx out 1 commonvalue) (\<lambda>out.
     if LENGTH('a) = commonbits then Inr out
     else bindE (foldE (pack_step nbits msk bytes) [0..<npoints] (out, 2, int (LENGTH('a))))
            (\<lambda>(out, _, _). Inr out))))"

section \<open>Unpacking\<close>

text \<open>
  State: read position, bits left, output. \<open>adv\<close> tells whether the routine steps to the next word
  as soon as the current one is used up; the 8-bit copy does not.
\<close>

type_synonym 'a unpack_state = "nat \<times> int \<times> 'a word list"

definition unpack_step ::
  "bool \<Rightarrow> int \<Rightarrow> 'a::len word \<Rightarrow> 'a word \<Rightarrow> 'a word list \<Rightarrow> nat \<Rightarrow> 'a unpack_state \<Rightarrow> 'a unpack_state res" where
  "unpack_step adv nbits msk commonvalue ws i st = (case st of (p, avail, out) \<Rightarrow>
     let shift = to_int (avail - nbits) in
     bindE (rdx ws p) (\<lambda>val.
     if 0 \<le> shift
     then let val = (c_shr val shift AND msk) OR commonvalue in
          bindE (wrx out i val) (\<lambda>out.
          let avail = to_int (avail - nbits) in
          if adv \<and> avail \<le> 0 then Inr (p + 1, int (LENGTH('a)), out) else Inr (p, avail, out))
     else let s = \<bar>shift\<bar>; val = (c_shl val s AND msk) OR commonvalue in
          bindE (wrx out i val) (\<lambda>out.
          let avail = int (LENGTH('a)) in
          bindE (rdx ws (p + 1)) (\<lambda>w.
          let shift = avail - s; w = c_shr w shift AND msk in
          bindE (orx out i w) (\<lambda>out.
          Inr (p + 1, avail - s, out))))))"

definition sigbits_unpack :: "bool \<Rightarrow> 'a::len word list \<Rightarrow> nat \<Rightarrow> 'a word list res" where
  "sigbits_unpack adv ws npoints =
     bindE (rdx ws 0) (\<lambda>nbits. bindE (rdx ws 1) (\<lambda>commonvalue.
     let avail = int (LENGTH('a)); msk = c_shr (- 1) (avail - uint nbits) in
     bindE (foldE (unpack_step adv (uint nbits) msk commonvalue ws) [0..<npoints]
              (2, avail, replicate npoints 0)) (\<lambda>(_, _, out). Inr out)))"

text \<open>One value out of the packed array. The bit offset is computed in the width of the word.\<close>

definition sigbits_get :: "'a::len word list \<Rightarrow> int \<Rightarrow> 'a word res" where
  "sigbits_get ws n =
     bindE (rdx ws 0) (\<lambda>nbits. bindE (rdx ws 1) (\<lambda>commonvalue.
     let msk = ucast (c_shr (- 1 :: 64 word) (64 - uint nbits)) :: 'a word;
         bitoffset = uint (word_of_int (n * uint nbits) :: 'a word);
         p = 2 + nat (bitoffset div int (LENGTH('a)));
         shift = to_int (int (LENGTH('a)) - bitoffset mod int (LENGTH('a)) - uint nbits) in
     bindE (rdx ws p) (\<lambda>val.
     if shift < 0
     then let res = commonvalue OR (c_shl val (- shift) AND msk) in
          bindE (rdx ws (p + 1)) (\<lambda>val.
          let shift = shift + int (LENGTH('a)) in
          Inr (res OR (c_shr val shift AND msk)))
     else Inr (commonvalue OR (c_shr val shift AND msk)))))"

section \<open>Shifts within the width\<close>

lemma c_shl_in: "0 \<le> n \<Longrightarrow> n < int (max 32 (LENGTH('a))) \<Longrightarrow> c_shl (w :: 'a::len word) n = push_bit (nat n) w"
  by (simp add: c_shl_def)

lemma c_shr_in: "0 \<le> n \<Longrightarrow> n < int (max 32 (LENGTH('a))) \<Longrightarrow> c_shr (w :: 'a::len word) n = drop_bit (nat n) w"
  by (simp add: c_shr_def)

lemma to_int_id: "- (2 ^ 31) \<le> x \<Longrightarrow> x < 2 ^ 31 \<Longrightarrow> to_int x = x"
  by (simp add: to_int_def)

lemma rdx_ok: "i < length xs \<Longrightarrow> rdx xs i = Inr (xs ! i)"
  by (simp add: rdx_def)

lemma orx_ok: "i < length ws \<Longrightarrow> orx ws i v = Inr (ws[i := ws ! i OR v])"
  by (simp add: orx_def rdx_def wrx_def)

lemma wrx_ok: "i < length xs \<Longrightarrow> wrx xs i x = Inr (xs[i := x])"
  by (simp add: wrx_def)

lemma drop_bit_all: "LENGTH('a) \<le> n \<Longrightarrow> drop_bit n (w :: 'a::len word) = 0"
  by (rule bit_word_eqI) (simp add: bit_drop_bit_eq bit_imp_le_length)

lemma ones_shr:
  "k \<le> LENGTH('a) \<Longrightarrow> drop_bit (LENGTH('a) - k) (- 1 :: 'a::len word) = mask k"
  by (rule bit_word_eqI) (auto simp: bit_drop_bit_eq bit_mask_iff)

text \<open>The mask of the unique part, from the number of common bits.\<close>

lemma mask_of_common:
  "0 < k \<Longrightarrow> k \<le> LENGTH('a) \<Longrightarrow> c_shr (- 1 :: 'a::len word) (int (LENGTH('a)) - int k) = mask k"
  by (simp add: c_shr_in ones_shr nat_diff_distrib)

section \<open>The number of common bits\<close>

lemma and_or_fold:
  assumes "n \<le> length bytes"
  shows "foldE (\<lambda>i (elem_and, elem_or). bindE (rdx bytes i) (\<lambda>b. Inr (elem_and AND b, elem_or OR b)))
      [0..<n] (a, c) = Inr (fold (AND) (take n bytes) a, fold (OR) (take n bytes) (c :: 'a::len word))"
  using assms
proof (induction n)
  case (Suc n)
  then have "n \<le> length bytes" "n < length bytes" by simp_all
  then show ?case
    unfolding foldE_upt_Suc Suc.IH [OF \<open>n \<le> length bytes\<close>]
    by (simp add: take_Suc_conv_app_nth rdx_ok ac_simps)
qed simp

lemma bit_fold_and: "bit (fold (AND) xs a) j \<longleftrightarrow> bit (a :: 'a::len word) j \<and> (\<forall>x \<in> set xs. bit x j)"
  by (induction xs arbitrary: a) (auto simp: bit_and_iff)

lemma bit_fold_or: "bit (fold (OR) xs a) j \<longleftrightarrow> bit (a :: 'a::len word) j \<or> (\<exists>x \<in> set xs. bit x j)"
  by (induction xs arbitrary: a) (auto simp: bit_or_iff)

lemma drop_bit_eq_iff:
  "drop_bit j x = drop_bit j (y :: 'a::len word) \<longleftrightarrow> (\<forall>i. bit x (j + i) \<longleftrightarrow> bit y (j + i))"
proof
  show "\<forall>i. bit x (j + i) \<longleftrightarrow> bit y (j + i)" if "drop_bit j x = drop_bit j y"
    using that by (metis bit_drop_bit_eq comp_apply)
qed (rule bit_word_eqI, simp add: bit_drop_bit_eq)

lemma count_loop_spec:
  assumes "m \<le> LENGTH('a)"
  shows "\<exists>k. m \<le> k \<and> k \<le> LENGTH('a) \<and>
     count_loop (drop_bit m a) (drop_bit m b) (LENGTH('a) - m) = (drop_bit k a, LENGTH('a) - k) \<and>
     drop_bit k a = drop_bit k b \<and> (\<forall>j. m \<le> j \<longrightarrow> j < k \<longrightarrow> drop_bit j a \<noteq> drop_bit j (b :: 'a::len word))"
  using assms
proof (induction "LENGTH('a) - m" arbitrary: m)
  case 0
  then have "drop_bit m a = 0" "drop_bit m b = 0" "m = LENGTH('a)" by (simp_all add: drop_bit_all)
  then show ?case by (intro exI [of _ m]) (simp add: count_loop.simps)
next
  case (Suc d)
  show ?case
  proof (cases "drop_bit m a = drop_bit m b")
    case True
    then show ?thesis using Suc.prems by (intro exI [of _ m]) (simp add: count_loop.simps)
  next
    case False
    have m: "Suc m \<le> LENGTH('a)" "d = LENGTH('a) - Suc m" using Suc.hyps(2) by simp_all
    have st: "count_loop (drop_bit m a) (drop_bit m b) (LENGTH('a) - m) =
        count_loop (drop_bit (Suc m) a) (drop_bit (Suc m) b) (LENGTH('a) - Suc m)"
      using False by (subst count_loop.simps) (simp add: drop_bit_drop_bit)
    obtain k where k: "Suc m \<le> k" "k \<le> LENGTH('a)"
      "count_loop (drop_bit (Suc m) a) (drop_bit (Suc m) b) (LENGTH('a) - Suc m) = (drop_bit k a, LENGTH('a) - k)"
      "drop_bit k a = drop_bit k b" "\<forall>j. Suc m \<le> j \<longrightarrow> j < k \<longrightarrow> drop_bit j a \<noteq> drop_bit j b"
      using Suc.hyps(1) [OF m(2,1)] by blast
    have "drop_bit j a \<noteq> drop_bit j b" if "m \<le> j" "j < k" for j
      using that k(5) False by (cases "j = m") simp_all
    then show ?thesis using k(1,2,4) unfolding st k(3) by (intro exI [of _ k]) simp
  qed
qed

text \<open>
  \<open>unique_bits bytes k\<close>: all values agree above their low \<open>k\<close> bits, and \<open>k\<close> is the least such number.
\<close>

definition unique_bits :: "'a::len word list \<Rightarrow> nat \<Rightarrow> bool" where
  "unique_bits bytes k = (k \<le> LENGTH('a) \<and>
     (\<forall>x \<in> set bytes. \<forall>y \<in> set bytes. drop_bit k x = drop_bit k y) \<and>
     (\<forall>j < k. \<exists>x \<in> set bytes. \<exists>y \<in> set bytes. drop_bit j x \<noteq> drop_bit j y))"

lemma sigbits_count_spec:
  fixes bytes :: "'a::len word list"
  assumes "bytes \<noteq> []"
  obtains k where "unique_bits bytes k"
    "sigbits_count bytes (length bytes) = Inr (push_bit k (drop_bit k (hd bytes)), LENGTH('a) - k)"
proof -
  let ?A = "fold (AND) bytes (hd bytes)" and ?O = "fold (OR) bytes (hd bytes)"
  have A: "bit ?A j \<longleftrightarrow> (\<forall>x \<in> set bytes. bit x j)" and O: "bit ?O j \<longleftrightarrow> (\<exists>x \<in> set bytes. bit x j)" for j
    using hd_in_set [OF assms] by (auto simp: bit_fold_and bit_fold_or)
  obtain k where k: "k \<le> LENGTH('a)" "count_loop ?A ?O (LENGTH('a)) = (drop_bit k ?A, LENGTH('a) - k)"
    "drop_bit k ?A = drop_bit k ?O" "\<forall>j < k. drop_bit j ?A \<noteq> drop_bit j ?O"
    using count_loop_spec [of 0 ?A ?O] by auto
  have same: "drop_bit j x = drop_bit j y"
    if "drop_bit j ?A = drop_bit j ?O" "x \<in> set bytes" "y \<in> set bytes" for j x y
    using that A O unfolding drop_bit_eq_iff by blast
  have eq: "drop_bit j ?A = drop_bit j ?O"
    if "\<forall>x \<in> set bytes. \<forall>y \<in> set bytes. drop_bit j x = drop_bit j y" for j
    using that hd_in_set [OF assms] unfolding drop_bit_eq_iff A O by blast
  have u: "unique_bits bytes k"
    unfolding unique_bits_def using k(1,3,4) same eq by blast
  have hd: "drop_bit k ?A = drop_bit k (hd bytes)"
    using k(3) hd_in_set [OF assms] unfolding drop_bit_eq_iff A O by blast
  have shl: "c_shl (drop_bit k (hd bytes)) (int (LENGTH('a)) - int (LENGTH('a) - k)) = push_bit k (drop_bit k (hd bytes))"
  proof (cases "k < max 32 (LENGTH('a))")
    case True
    then show ?thesis using k(1) by (simp add: c_shl_in of_nat_diff)
  next
    case False
    then have "drop_bit k (hd bytes) = 0" by (simp add: drop_bit_all)
    then show ?thesis by (simp add: c_shl_def)
  qed
  have "sigbits_count bytes (length bytes) = Inr (push_bit k (drop_bit k (hd bytes)), LENGTH('a) - k)"
    using assms shl k(2) hd by (simp add: sigbits_count_def rdx_ok and_or_fold hd_conv_nth [symmetric])
  then show thesis using that u by blast
qed

section \<open>The packed stream\<close>

definition sbit :: "'a::len word list \<Rightarrow> nat \<Rightarrow> bool" where
  "sbit ws t = bit (ws ! (2 + t div LENGTH('a))) (LENGTH('a) - 1 - t mod LENGTH('a))"

lemma block_cases:
  fixes q q' W :: nat
  obtains "q' < q" "q' * W + W \<le> q * W" | "q' = q" | "q < q'" "q * W + W \<le> q' * W"
proof -
  have "Suc q' * W \<le> q * W" if "q' < q" using that by (intro mult_le_mono1) simp
  moreover have "Suc q * W \<le> q' * W" if "q < q'" using that by (intro mult_le_mono1) simp
  ultimately show thesis using that by (cases "q' < q"; cases "q' = q") auto
qed

lemma range_one:
  assumes "(u::nat) < W" "r < W" "r + k \<le> W"
  shows "q * W + r \<le> q' * W + u \<and> q' * W + u < q * W + r + k \<longleftrightarrow> q' = q \<and> r \<le> u \<and> u < r + k"
  by (rule block_cases [of q' q W]) (use assms in auto)

lemma range_two:
  assumes "(u::nat) < W" "r < W" "W < r + k" "k \<le> W"
  shows "q * W + r \<le> q' * W + u \<and> q' * W + u < q * W + r + k \<longleftrightarrow>
    (q' = q \<and> r \<le> u) \<or> (q' = Suc q \<and> u < r + k - W)"
proof (rule block_cases [of q' q W])
  assume q: "q < q'" "q * W + W \<le> q' * W"
  show ?thesis
  proof (rule block_cases [of q' "Suc q" W])
    assume "Suc q < q'" "Suc q * W + W \<le> q' * W"
    then show ?thesis using assms by auto
  qed (use q assms in auto)
qed (use assms in auto)

text \<open>Adding bits of \<open>v\<close> to word \<open>2 + q\<close>.\<close>

lemma sbit_update:
  fixes ws :: "'a::len word list"
  assumes "2 + q < length ws"
  shows "sbit (ws[2 + q := ws ! (2 + q) OR v]) t \<longleftrightarrow>
    sbit ws t \<or> (t div LENGTH('a) = q \<and> bit v (LENGTH('a) - 1 - t mod LENGTH('a)))"
  using assms by (auto simp: sbit_def nth_list_update bit_or_iff)

text \<open>
  One value is added at stream position \<open>T\<close>: the \<open>k\<close> bits from there on become the low \<open>k\<close> bits of
  \<open>x\<close>, and the write position advances to \<open>T + k\<close>.
\<close>

definition head_at :: "'a::len itself \<Rightarrow> nat \<Rightarrow> nat \<times> int" where
  "head_at _ T = (2 + T div LENGTH('a), int (LENGTH('a)) - int (T mod LENGTH('a)))"

lemma pack_step_stream:
  fixes ws bytes :: "'a::len word list"
  assumes k: "0 < k" "k \<le> LENGTH('a)" and i: "i < length bytes"
    and cap: "2 + (T + k - 1) div LENGTH('a) < length ws"
  obtains ws' where
    "pack_step (int k) (mask k) bytes i (ws, head_at TYPE('a) T) = Inr (ws', head_at TYPE('a) (T + k))"
    "length ws' = length ws" "ws' ! 0 = ws ! 0" "ws' ! 1 = ws ! 1"
    "\<And>t. sbit ws' t \<longleftrightarrow> sbit ws t \<or> (T \<le> t \<and> t < T + k \<and> bit (bytes ! i) (k - 1 - (t - T)))"
proof -
  let ?W = "LENGTH('a)" and ?x = "take_bit k (bytes ! i)"
  define q r where "q = T div ?W" and "r = T mod ?W"
  have T: "T = q * ?W + r" and r: "r < ?W" by (simp_all add: q_def r_def)
  have hd: "head_at TYPE('a) T = (2 + q, int ?W - int r)" by (simp add: head_at_def q_def r_def)
  have x: "bytes ! i AND mask k = ?x" by (simp add: take_bit_eq_mask)
  show thesis
  proof (cases "r + k \<le> ?W")
    case True
    have "(T + k - 1) div ?W = q"
    proof (rule div_nat_eqI)
      show "?W * q \<le> T + k - 1" "T + k - 1 < ?W * Suc q" using k(1) True by (simp_all add: T mult.commute)
    qed
    then have c: "2 + q < length ws" using cap by simp
    define ws' where "ws' = ws[2 + q := ws ! (2 + q) OR push_bit (?W - r - k) ?x]"
    have sh: "c_shl ?x (int ?W - int r - int k) = push_bit (?W - r - k) ?x"
      using True k by (simp add: c_shl_in nat_diff_distrib)
    have nx: "head_at TYPE('a) (T + k) =
        (if r + k = ?W then (3 + q, int ?W) else (2 + q, int ?W - int r - int k))"
    proof (cases "r + k = ?W")
      case True
      then have "T + k = Suc q * ?W" by (simp add: T)
      then show ?thesis using True by (simp add: head_at_def del: mult_Suc)
    next
      case False
      define m where "m = r + k"
      have m: "m < ?W" "T + k = q * ?W + m" using True False T by (auto simp: m_def)
      have "head_at TYPE('a) (T + k) = (2 + q, int ?W - int m)" unfolding m(2) using m(1) by (simp add: head_at_def)
      then show ?thesis using False by (simp add: m_def)
    qed
    have st: "pack_step (int k) (mask k) bytes i (ws, head_at TYPE('a) T) = Inr (ws', head_at TYPE('a) (T + k))"
      using True c unfolding nx hd by (auto simp: pack_step_def rdx_ok i x sh orx_ok ws'_def Let_def)
    show thesis
    proof (rule that [OF st])
      fix t
      define q' u where "q' = t div ?W" and "u = t mod ?W"
      have t: "t = q' * ?W + u" and u: "u < ?W" by (simp_all add: q'_def u_def)
      have "sbit ws' t \<longleftrightarrow> sbit ws t \<or> (q' = q \<and> bit (push_bit (?W - r - k) ?x) (?W - 1 - u))"
        unfolding ws'_def sbit_update [OF c] by (simp add: q'_def u_def)
      also have "q' = q \<and> bit (push_bit (?W - r - k) ?x) (?W - 1 - u) \<longleftrightarrow>
          T \<le> t \<and> t < T + k \<and> bit (bytes ! i) (k - 1 - (t - T))"
        unfolding T t using range_one [OF u r True, of q q'] u True
        by (auto simp: bit_push_bit_iff bit_take_bit_iff add.commute)
      finally show "sbit ws' t \<longleftrightarrow> sbit ws t \<or> (T \<le> t \<and> t < T + k \<and> bit (bytes ! i) (k - 1 - (t - T)))" .
    qed (simp_all add: ws'_def)
  next
    case False
    define s where "s = r + k - ?W"
    have s: "0 < s" "s < ?W" "r + k = ?W + s" "s < k" using False k r by (auto simp: s_def)
    have "(T + k - 1) div ?W = Suc q"
    proof (rule div_nat_eqI)
      show "?W * Suc q \<le> T + k - 1" "T + k - 1 < ?W * Suc (Suc q)" using s by (simp_all add: T mult.commute)
    qed
    then have c: "2 + Suc q < length ws" "2 + q < length ws" using cap by simp_all
    define w1 where "w1 = ws[2 + q := ws ! (2 + q) OR drop_bit s ?x]"
    define ws' where "ws' = w1[2 + Suc q := w1 ! (2 + Suc q) OR push_bit (?W - s) ?x]"
    have sh: "int ?W - int r - int k = - int s" using s(3) by linarith
    have neg: "\<not> int k \<le> int ?W - int r" using s(1,3) by linarith
    have shs: "c_shr ?x (int s) = drop_bit s ?x" "c_shl ?x (int ?W - int s) = push_bit (?W - s) ?x"
      using s by (simp_all add: c_shr_in c_shl_in nat_diff_distrib)
    have "T + k = Suc q * ?W + s" using s(3) by (simp add: T)
    then have nx: "head_at TYPE('a) (T + k) = (3 + q, int ?W - int s)"
      using s(2) by (simp add: head_at_def del: mult_Suc)
    have st: "pack_step (int k) (mask k) bytes i (ws, head_at TYPE('a) T) = Inr (ws', head_at TYPE('a) (T + k))"
      using s(1) c neg unfolding nx hd
      by (simp add: pack_step_def rdx_ok i x sh shs orx_ok ws'_def w1_def Let_def)
    show thesis
    proof (rule that [OF st])
      fix t
      define q' u where "q' = t div ?W" and "u = t mod ?W"
      have t: "t = q' * ?W + u" and u: "u < ?W" by (simp_all add: q'_def u_def)
      have c1: "2 + Suc q < length w1" using c by (simp add: w1_def)
      have "sbit ws' t \<longleftrightarrow> sbit ws t \<or> (q' = q \<and> bit (drop_bit s ?x) (?W - 1 - u)) \<or>
          (q' = Suc q \<and> bit (push_bit (?W - s) ?x) (?W - 1 - u))"
        unfolding ws'_def sbit_update [OF c1] unfolding w1_def sbit_update [OF c(2)]
        by (auto simp: q'_def u_def)
      also have "(q' = q \<and> bit (drop_bit s ?x) (?W - 1 - u)) \<or>
          (q' = Suc q \<and> bit (push_bit (?W - s) ?x) (?W - 1 - u)) \<longleftrightarrow>
          T \<le> t \<and> t < T + k \<and> bit (bytes ! i) (k - 1 - (t - T))"
      proof -
        have a: "bit (drop_bit s ?x) (?W - 1 - u) \<longleftrightarrow> r \<le> u \<and> bit (bytes ! i) (s + (?W - 1 - u))"
          using u s by (auto simp: bit_drop_bit_eq bit_take_bit_iff)
        have b: "bit (push_bit (?W - s) ?x) (?W - 1 - u) \<longleftrightarrow> u < s \<and> bit (bytes ! i) (s - 1 - u)"
          using u s by (auto simp: bit_push_bit_iff bit_take_bit_iff)
        have "k - 1 - (t - T) = s + (?W - 1 - u)" if "q' = q" "r \<le> u"
          using that u s by (simp add: T t)
        moreover have "k - 1 - (t - T) = s - 1 - u" if "q' = Suc q" "u < s"
          using that u s by (simp add: T t)
        moreover have "T \<le> t \<and> t < T + k \<longleftrightarrow> (q' = q \<and> r \<le> u) \<or> (q' = Suc q \<and> u < s)"
          using range_two [OF u r _ k(2), of q q'] False unfolding T t s_def by simp
        ultimately show ?thesis unfolding a b by auto
      qed
      finally show "sbit ws' t \<longleftrightarrow> sbit ws t \<or> (T \<le> t \<and> t < T + k \<and> bit (bytes ! i) (k - 1 - (t - T)))" .
    qed (simp_all add: ws'_def w1_def)
  qed
qed

text \<open>
  \<open>packed ws k c xs\<close>: the array \<open>ws\<close> holds the low \<open>k\<close> bits of the values \<open>xs\<close> and the common value \<open>c\<close>.
\<close>

definition packed :: "'a::len word list \<Rightarrow> nat \<Rightarrow> 'a word \<Rightarrow> 'a word list \<Rightarrow> bool" where
  "packed ws k c xs = (k \<le> LENGTH('a) \<and> 3 \<le> length ws \<and>
     2 + (length xs * k + LENGTH('a) - 1) div LENGTH('a) \<le> length ws \<and>
     ws ! 0 = word_of_nat k \<and> ws ! 1 = c \<and> (k = 0 \<longrightarrow> ws ! 2 = 0) \<and>
     (\<forall>t < length xs * k. sbit ws t \<longleftrightarrow> bit (xs ! (t div k)) (k - 1 - t mod k)))"

lemma ceil_step:
  assumes "0 < (W::nat)" "0 < m"
  shows "(m + W - 1) div W = Suc ((m - 1) div W)"
proof -
  have e: "m + W - 1 = (m - 1) + W" using assms(2) by simp
  have "W \<noteq> 0" using assms(1) by blast
  then have "((m - 1) + W) div W = (m - 1) div W + 1" by (rule div_add_self2)
  then show ?thesis unfolding e Suc_eq_plus1 .
qed

lemma capacity:
  assumes "0 < k" "i < n" "2 + (n * k + W - 1) div W \<le> len" "0 < (W::nat)"
  shows "2 + (i * k + k - 1) div W < len"
proof -
  have "Suc i * k \<le> n * k" using assms(2) by (intro mult_le_mono1) simp
  then have "(i * k + k + W - 1) div W \<le> (n * k + W - 1) div W" by (intro div_le_mono) simp
  then show ?thesis using ceil_step [OF assms(4), of "i * k + k"] assms(1,3) by simp
qed

lemma stream_index:
  assumes "0 < (k::nat)"
  shows "i * k \<le> t \<and> t < i * k + k \<longleftrightarrow> t div k = i"
    and "i * k \<le> t \<Longrightarrow> t < i * k + k \<Longrightarrow> t - i * k = t mod k"
proof -
  have d: "t div k * k + t mod k = t" by simp
  have m: "t mod k < k" using assms by simp
  show "i * k \<le> t \<and> t < i * k + k \<longleftrightarrow> t div k = i"
  proof
    assume "i * k \<le> t \<and> t < i * k + k"
    then show "t div k = i" by (intro div_nat_eqI) (auto simp: mult.commute)
  next
    assume "t div k = i"
    then show "i * k \<le> t \<and> t < i * k + k" using d m by (metis add_less_cancel_left le_add1)
  qed
  then show "i * k \<le> t \<Longrightarrow> t < i * k + k \<Longrightarrow> t - i * k = t mod k" using d by (metis add_diff_cancel_left')
qed

lemma pack_loop:
  fixes ws xs :: "'a::len word list"
  assumes k: "0 < k" "k \<le> LENGTH('a)" and n: "n \<le> length xs"
    and cap: "2 + (length xs * k + LENGTH('a) - 1) div LENGTH('a) \<le> length ws"
    and z: "\<And>t. t < length xs * k \<Longrightarrow> \<not> sbit ws t"
  shows "\<exists>ws'. foldE (pack_step (int k) (mask k) xs) [0..<n] (ws, 2, int (LENGTH('a))) =
      Inr (ws', head_at TYPE('a) (n * k)) \<and>
    length ws' = length ws \<and> ws' ! 0 = ws ! 0 \<and> ws' ! 1 = ws ! 1 \<and>
    (\<forall>t < length xs * k. sbit ws' t \<longleftrightarrow> t < n * k \<and> bit (xs ! (t div k)) (k - 1 - t mod k))"
  using n
proof (induction n)
  case 0
  then show ?case using z by (simp add: head_at_def)
next
  case (Suc n)
  then obtain w1 where w1: "foldE (pack_step (int k) (mask k) xs) [0..<n] (ws, 2, int (LENGTH('a))) =
      Inr (w1, head_at TYPE('a) (n * k))" "length w1 = length ws" "w1 ! 0 = ws ! 0" "w1 ! 1 = ws ! 1"
    and b1: "\<forall>t < length xs * k. sbit w1 t \<longleftrightarrow> t < n * k \<and> bit (xs ! (t div k)) (k - 1 - t mod k)"
    by auto
  have i: "n < length xs" using Suc.prems by simp
  have c: "2 + (n * k + k - 1) div LENGTH('a) < length w1"
    using capacity [OF k(1) i cap] w1(2) by simp
  obtain w2 where w2: "pack_step (int k) (mask k) xs n (w1, head_at TYPE('a) (n * k)) =
      Inr (w2, head_at TYPE('a) (n * k + k))" "length w2 = length w1" "w2 ! 0 = w1 ! 0" "w2 ! 1 = w1 ! 1"
    and b2: "\<And>t. sbit w2 t \<longleftrightarrow> sbit w1 t \<or>
      (n * k \<le> t \<and> t < n * k + k \<and> bit (xs ! n) (k - 1 - (t - n * k)))"
    by (rule pack_step_stream [OF k i c]) blast
  have "sbit w2 t \<longleftrightarrow> t < Suc n * k \<and> bit (xs ! (t div k)) (k - 1 - t mod k)" if t: "t < length xs * k" for t
  proof (cases "n * k \<le> t \<and> t < n * k + k")
    case True
    then have "t div k = n" "t - n * k = t mod k" using stream_index [OF k(1), of n t] by auto
    then show ?thesis using True b1 t by (auto simp: b2)
  next
    case False
    then show ?thesis using b1 t by (auto simp: b2)
  qed
  then show ?case unfolding foldE_upt_Suc w1(1) bindE_Inr w2(1)
    using w1 w2 by (auto simp: add.commute)
qed

lemma pack_spec:
  fixes xs :: "'a::len word list"
  assumes k: "k \<le> LENGTH('a)" and cap: "3 \<le> m" "2 + (length xs * k + LENGTH('a) - 1) div LENGTH('a) \<le> m"
  obtains ws where "sigbits_pack xs (length xs) c (LENGTH('a) - k) m = Inr ws" "packed ws k c xs" "length ws = m"
proof -
  define w0 where "w0 = (replicate m (0 :: 'a word))[0 := word_of_nat k, 1 := c]"
  have w0: "length w0 = m" "w0 ! 0 = word_of_nat k" "w0 ! 1 = c" "\<And>j. 2 \<le> j \<Longrightarrow> j < m \<Longrightarrow> w0 ! j = 0"
    using cap by (simp_all add: w0_def nth_list_update)
  have nb: "int (LENGTH('a)) - int (LENGTH('a) - k) = int k" using k by simp
  have h: "wrx (replicate m 0) 0 (word_of_int (int k)) = Inr ((replicate m (0 :: 'a word))[0 := word_of_nat k])"
    using cap by (simp add: wrx_def)
  have h1: "wrx ((replicate m (0 :: 'a word))[0 := word_of_nat k]) 1 c = Inr w0"
    using cap by (simp add: wrx_def w0_def)
  show thesis
  proof (cases "k = 0")
    case True
    have "sigbits_pack xs (length xs) c (LENGTH('a) - k) m = Inr w0"
      using h h1 True by (simp add: sigbits_pack_def)
    moreover have "packed w0 k c xs" using w0 cap True by (simp add: packed_def)
    ultimately show thesis using that w0(1) by blast
  next
    case False
    then have k0: "0 < k" by simp
    have z: "\<not> sbit w0 t" if "t < length xs * k" for t
    proof -
      have "t div LENGTH('a) \<le> (length xs * k - 1) div LENGTH('a)" using that by (intro div_le_mono) simp
      moreover have "0 < length xs * k" using that by linarith
      then have "(length xs * k + LENGTH('a) - 1) div LENGTH('a) = Suc ((length xs * k - 1) div LENGTH('a))"
        by (rule ceil_step [OF len_gt_0])
      ultimately have "2 + t div LENGTH('a) < m" using cap(2) by linarith
      then show ?thesis using w0(4) by (simp add: sbit_def)
    qed
    obtain ws where ws: "foldE (pack_step (int k) (mask k) xs) [0..<length xs] (w0, 2, int (LENGTH('a))) =
        Inr (ws, head_at TYPE('a) (length xs * k))" "length ws = m" "ws ! 0 = w0 ! 0" "ws ! 1 = w0 ! 1"
      "\<forall>t < length xs * k. sbit ws t \<longleftrightarrow> bit (xs ! (t div k)) (k - 1 - t mod k)"
      using pack_loop [OF k0 k order_refl, of xs w0] cap(2) z w0(1) by auto
    have ne: "LENGTH('a) \<noteq> LENGTH('a) - k" using k0 len_gt_0 [where 'a = 'a] by linarith
    have cm: "c_shr (- 1 :: 'a word) (int (LENGTH('a) - k)) = mask k"
      using mask_of_common [OF k0 k] k by (simp add: of_nat_diff)
    have "sigbits_pack xs (length xs) c (LENGTH('a) - k) m = Inr ws"
      unfolding sigbits_pack_def Let_def nb h bindE_Inr h1 cm if_not_P [OF ne]
      using ws(1) by (simp add: split_def)
    moreover have "packed ws k c xs" using ws w0 cap k k0 by (simp add: packed_def)
    ultimately show thesis using that ws(2) by blast
  qed
qed

section \<open>Reading the stream\<close>

text \<open>
  The read head at position \<open>T\<close>. The routine that does not advance (\<open>\<not> adv\<close>) may also stand
  at the end of the previous word.
\<close>

definition reads_at :: "'a::len itself \<Rightarrow> bool \<Rightarrow> nat \<Rightarrow> nat \<times> int \<Rightarrow> bool" where
  "reads_at _ adv T h = (h = head_at TYPE('a) T \<or>
     (\<not> adv \<and> 0 < T \<and> T mod LENGTH('a) = 0 \<and> h = (1 + T div LENGTH('a), 0)))"

text \<open>The word that holds the \<open>k\<close> stream bits from \<open>T\<close> on.\<close>

definition stream_word :: "'a::len word list \<Rightarrow> nat \<Rightarrow> nat \<Rightarrow> 'a word \<Rightarrow> bool" where
  "stream_word ws T k v = (\<forall>j < LENGTH('a). bit v j \<longleftrightarrow> j < k \<and> sbit ws (T + (k - 1 - j)))"

lemma stream_word_unique: "stream_word ws T k v \<Longrightarrow> stream_word ws T k w \<Longrightarrow> v = w"
  by (rule bit_word_eqI) (simp add: stream_word_def)

lemma stream_word_one:
  fixes ws :: "'a::len word list"
  assumes "r + k \<le> LENGTH('a)" "0 < k"
  shows "stream_word ws (q * LENGTH('a) + r) k (drop_bit (LENGTH('a) - r - k) (ws ! (2 + q)) AND mask k)"
  unfolding stream_word_def
proof (intro allI impI)
  fix j assume j: "j < LENGTH('a)"
  show "bit (drop_bit (LENGTH('a) - r - k) (ws ! (2 + q)) AND mask k) j \<longleftrightarrow>
      j < k \<and> sbit ws (q * LENGTH('a) + r + (k - 1 - j))"
  proof (cases "j < k")
    case True
    define u where "u = r + (k - 1 - j)"
    have u: "u < LENGTH('a)" "LENGTH('a) - 1 - u = LENGTH('a) - r - k + j"
      using True assms by (auto simp: u_def)
    have e: "q * LENGTH('a) + r + (k - 1 - j) = q * LENGTH('a) + u" by (simp add: u_def)
    have "sbit ws (q * LENGTH('a) + r + (k - 1 - j)) = bit (ws ! (2 + q)) (LENGTH('a) - r - k + j)"
      unfolding e u(2) [symmetric] using u(1) by (simp add: sbit_def)
    then show ?thesis using True j by (simp add: bit_and_iff bit_mask_iff bit_drop_bit_eq)
  qed (simp add: bit_and_iff bit_mask_iff)
qed

lemma stream_word_two:
  fixes ws :: "'a::len word list"
  assumes "r < LENGTH('a)" "r + k = LENGTH('a) + s" "0 < s" "k \<le> LENGTH('a)"
  shows "stream_word ws (q * LENGTH('a) + r) k
    ((push_bit s (ws ! (2 + q)) AND mask k) OR (drop_bit (LENGTH('a) - s) (ws ! (3 + q)) AND mask k))"
  unfolding stream_word_def
proof (intro allI impI)
  fix j assume j: "j < LENGTH('a)"
  let ?v = "(push_bit s (ws ! (2 + q)) AND mask k) OR (drop_bit (LENGTH('a) - s) (ws ! (3 + q)) AND mask k)"
  have sk: "s \<le> k" "s \<le> LENGTH('a)" using assms by auto
  consider "k \<le> j" | "j < k" "s \<le> j" | "j < s" by linarith
  then show "bit ?v j \<longleftrightarrow> j < k \<and> sbit ws (q * LENGTH('a) + r + (k - 1 - j))"
  proof cases
    case 1
    then show ?thesis by (simp add: bit_and_iff bit_or_iff bit_mask_iff)
  next
    case 2
    define u where "u = r + (k - 1 - j)"
    have u: "u < LENGTH('a)" "LENGTH('a) - 1 - u = j - s" using 2 assms by (auto simp: u_def)
    have e: "q * LENGTH('a) + r + (k - 1 - j) = q * LENGTH('a) + u" by (simp add: u_def)
    have "sbit ws (q * LENGTH('a) + r + (k - 1 - j)) = bit (ws ! (2 + q)) (j - s)"
      unfolding e u(2) [symmetric] using u(1) by (simp add: sbit_def)
    moreover have "\<not> bit (ws ! (3 + q)) (LENGTH('a) - s + j)"
      using 2 sk bit_imp_le_length [of "ws ! (3 + q)" "LENGTH('a) - s + j"] by auto
    ultimately show ?thesis
      using 2 j by (simp add: bit_and_iff bit_or_iff bit_mask_iff bit_drop_bit_eq bit_push_bit_iff)
  next
    case 3
    define u where "u = r + (k - 1 - j) - LENGTH('a)"
    have u: "u < LENGTH('a)" "LENGTH('a) - 1 - u = LENGTH('a) - s + j" "j < k"
      "r + (k - 1 - j) = LENGTH('a) + u" using 3 assms by (auto simp: u_def)
    have e: "q * LENGTH('a) + r + (k - 1 - j) = Suc q * LENGTH('a) + u" using u(4) by simp
    have "sbit ws (q * LENGTH('a) + r + (k - 1 - j)) = bit (ws ! (3 + q)) (LENGTH('a) - s + j)"
      unfolding e u(2) [symmetric] using u(1) by (simp add: sbit_def numeral_3_eq_3 del: mult_Suc)
    then have "sbit ws (q * LENGTH('a) + r + (k - 1 - j)) = bit (ws ! (3 + q)) (LENGTH('a) - s + j)" .
    then show ?thesis
      using 3 j u(3) by (simp add: bit_and_iff bit_or_iff bit_mask_iff bit_drop_bit_eq bit_push_bit_iff)
  qed
qed

lemma stream_word_lag:
  fixes ws :: "'a::len word list"
  assumes "0 < k" "k \<le> LENGTH('a)"
  shows "stream_word ws (q * LENGTH('a)) k (drop_bit (LENGTH('a) - k) (ws ! (2 + q)) AND mask k)"
  using stream_word_one [where r = 0 and k = k and q = q and ws = ws] assms by simp

lemma push_mask_0: "push_bit k w AND mask k = (0 :: 'a::len word)"
  by (rule bit_word_eqI) (auto simp: bit_and_iff bit_mask_iff bit_push_bit_iff)

lemma head_split: "r < LENGTH('a) \<Longrightarrow> head_at TYPE('a::len) (q * LENGTH('a) + r) = (2 + q, int (LENGTH('a)) - int r)"
  by (simp add: head_at_def)

lemma unpack_step_stream:
  fixes ws :: "'a::len word list"
  assumes k: "0 < k" "k \<le> LENGTH('a)" and W: "LENGTH('a) \<le> 64" "\<not> adv \<longrightarrow> LENGTH('a) < 32"
    and cap: "2 + (T + k - 1) div LENGTH('a) < length ws" and i: "i < length out"
    and hd: "reads_at TYPE('a) adv T (p, avail)" and v: "stream_word ws T k v"
  shows "\<exists>p' avail'. unpack_step adv (int k) (mask k) c ws i (p, avail, out) =
      Inr (p', avail', out[i := c OR v]) \<and> reads_at TYPE('a) adv (T + k) (p', avail')"
proof -
  let ?W = "LENGTH('a)"
  define q r where "q = T div ?W" and "r = T mod ?W"
  have T: "T = q * ?W + r" and r: "r < ?W" by (simp_all add: q_def r_def)
  have W1: "0 < ?W" by simp
  consider (here) "(p, avail) = (2 + q, int ?W - int r)"
    | (lag) "\<not> adv" "r = 0" "0 < T" "(p, avail) = (1 + q, 0)"
    using hd unfolding reads_at_def head_at_def q_def r_def by auto
  then show ?thesis
  proof cases
    case here
    then have pa: "p = 2 + q" "avail = int ?W - int r" by auto
    have sh: "to_int (avail - int k) = int ?W - int r - int k"
      unfolding pa(2) using W k(2) r by (intro to_int_id) auto
    show ?thesis
    proof (cases "r + k \<le> ?W")
      case True
      have "(T + k - 1) div ?W = q"
      proof (rule div_nat_eqI)
        show "?W * q \<le> T + k - 1" "T + k - 1 < ?W * Suc q" using k(1) True by (simp_all add: T mult.commute)
      qed
      then have c: "p < length ws" using cap pa by simp
      have ge: "0 \<le> int ?W - int r - int k" using True by linarith
      have val: "c_shr (ws ! p) (int ?W - int r - int k) AND mask k = v"
      proof -
        have "c_shr (ws ! p) (int ?W - int r - int k) = drop_bit (?W - r - k) (ws ! (2 + q))"
          using True k pa by (simp add: c_shr_in nat_diff_distrib)
        then show ?thesis
          using stream_word_one [OF True k(1), where q = q and ws = ws] v unfolding T
          by (metis stream_word_unique)
      qed
      define m where "m = r + k"
      have Tk: "T + k = q * ?W + m" by (simp add: T m_def)
      have st: "unpack_step adv (int k) (mask k) c ws i (p, avail, out) =
        (if adv \<and> m = ?W then Inr (p + 1, int ?W, out[i := c OR v])
         else Inr (p, int ?W - int m, out[i := c OR v]))"
        using True ge unfolding unpack_step_def prod.case Let_def sh rdx_ok [OF c] bindE_Inr
        by (auto simp: val wrx_ok i or.commute m_def)
      show ?thesis
      proof (cases "m = ?W")
        case False
        then have "m < ?W" using True by (simp add: m_def)
        then show ?thesis unfolding st using False pa head_split [where 'a = 'a and r = m and q = q] by (simp add: reads_at_def Tk)
      next
        case True
        then have e: "T + k = Suc q * ?W" by (simp add: Tk)
        have "T + k \<noteq> 0" using k(1) by simp
        then show ?thesis unfolding st using True pa e
          by (cases adv) (simp_all add: reads_at_def head_at_def del: mult_Suc)
      qed
    next
      case False
      define s where "s = r + k - ?W"
      have s: "0 < s" "s < ?W" "r + k = ?W + s" "s < k" using False k r by (auto simp: s_def)
      have "(T + k - 1) div ?W = Suc q"
      proof (rule div_nat_eqI)
        show "?W * Suc q \<le> T + k - 1" "T + k - 1 < ?W * Suc (Suc q)" using s by (simp_all add: T mult.commute)
      qed
      then have c: "p + 1 < length ws" "p < length ws" using cap pa by simp_all
      have ss: "int ?W - int r - int k = - int s" using s(3) r by (simp add: of_nat_diff)
      define a b where "a = ws ! (2 + q)" and "b = ws ! (3 + q)"
      have rds: "rdx ws p = Inr a" "rdx ws (p + 1) = Inr b"
        using c pa by (simp_all add: rdx_def a_def b_def numeral_3_eq_3)
      have shs: "c_shl a (int s) = push_bit s a" "c_shr b (int ?W - int s) = drop_bit (?W - s) b"
        using s by (simp_all add: c_shr_in c_shl_in nat_diff_distrib)
      have val: "(push_bit s a AND mask k) OR (drop_bit (?W - s) b AND mask k) = v"
        using stream_word_two [OF r s(3,1) k(2), where q = q and ws = ws] v unfolding T a_def b_def
        by (metis stream_word_unique)
      have or: "((push_bit s a AND mask k) OR c) OR (drop_bit (?W - s) b AND mask k) = c OR v"
        unfolding val [symmetric] by (simp only: ac_simps)
      have st: "unpack_step adv (int k) (mask k) c ws i (p, avail, out) =
          Inr (p + 1, int ?W - int s, out[i := c OR v])"
        using s(1) unfolding unpack_step_def prod.case Let_def sh ss rds bindE_Inr
        by (simp add: shs wrx_ok i orx_ok or)
      have "T + k = Suc q * ?W + s" using s(3) by (simp add: T)
      then have "head_at TYPE('a) (T + k) = (3 + q, int ?W - int s)"
        using s(2) by (simp add: head_at_def del: mult_Suc)
      then show ?thesis unfolding st using pa by (simp add: reads_at_def)
    qed
  next
    case lag
    then have pa: "p = 1 + q" "avail = 0" by auto
    have sh: "to_int (avail - int k) = - int k" unfolding pa(2) using W k by (subst to_int_id) auto
    have W32: "?W < 32" using W(2) lag(1) by simp
    have "q \<le> (T + k - 1) div ?W"
    proof -
      have "q * ?W div ?W \<le> (T + k - 1) div ?W" using k(1) by (intro div_le_mono) (simp add: T)
      then show ?thesis by simp
    qed
    then have c: "p + 1 < length ws" "p < length ws" using cap pa by simp_all
    define a b where "a = ws ! p" and "b = ws ! (2 + q)"
    have rds: "rdx ws p = Inr a" "rdx ws (p + 1) = Inr b"
      using c pa by (simp_all add: rdx_def a_def b_def)
    have v1: "drop_bit (?W - k) b AND mask k = v"
      using stream_word_lag [OF k, where q = q and ws = ws] v lag(2) unfolding T b_def
      by (metis add.right_neutral stream_word_unique)
    have shs: "c_shl a (int k) = push_bit k a" "c_shr b (int ?W - int k) = drop_bit (?W - k) b"
      using k W32 by (simp_all add: c_shr_in c_shl_in nat_diff_distrib)
    have st: "unpack_step adv (int k) (mask k) c ws i (p, avail, out) =
        Inr (p + 1, int ?W - int k, out[i := c OR v])"
      using k(1) unfolding unpack_step_def prod.case Let_def sh rds bindE_Inr
      by (simp add: shs wrx_ok i orx_ok push_mask_0 v1)
    show ?thesis
    proof (cases "k = ?W")
      case True
      then have "T + k = Suc q * ?W" using lag(2) by (simp add: T)
      then show ?thesis unfolding st using True lag(1) pa k(1) by (simp add: reads_at_def del: mult_Suc)
    next
      case False
      then have "head_at TYPE('a) (T + k) = (2 + q, int ?W - int k)"
        using head_split [where 'a = 'a and r = k and q = q] k(2) lag(2) by (simp add: T)
      then show ?thesis unfolding st using pa by (simp add: reads_at_def)
    qed
  qed
qed

section \<open>Unpacking a packed array\<close>

lemma packed_word:
  fixes ws :: "'a::len word list"
  assumes "packed ws k c xs" "0 < k" "i < length xs"
  shows "stream_word ws (i * k) k (take_bit k (xs ! i))"
  unfolding stream_word_def
proof (intro allI impI)
  fix j assume "j < LENGTH('a)"
  show "bit (take_bit k (xs ! i)) j \<longleftrightarrow> j < k \<and> sbit ws (i * k + (k - 1 - j))"
  proof (cases "j < k")
    case True
    define u where "u = k - 1 - j"
    have u: "u < k" "k - 1 - u = j" using True by (auto simp: u_def)
    have "Suc i * k \<le> length xs * k" using assms(3) by (intro mult_le_mono1) simp
    then have lt: "i * k + u < length xs * k" using u by simp
    have "sbit ws (i * k + u) \<longleftrightarrow> bit (xs ! ((i * k + u) div k)) (k - 1 - (i * k + u) mod k)"
      using assms(1) lt unfolding packed_def by blast
    also have "\<dots> \<longleftrightarrow> bit (xs ! i) j" using u by simp
    finally show ?thesis using True by (simp add: bit_take_bit_iff u_def)
  qed (simp add: bit_take_bit_iff)
qed

lemma packed_cap:
  fixes ws :: "'a::len word list"
  assumes "packed ws k c xs" "0 < k" "i < length xs"
  shows "2 + (i * k + k - 1) div LENGTH('a) < length ws"
  using capacity [OF assms(2,3) _ len_gt_0] assms(1) unfolding packed_def by blast

lemma width_small: "k \<le> LENGTH('a) \<Longrightarrow> uint (word_of_nat k :: 'a::len word) = int k"
proof -
  assume "k \<le> LENGTH('a)"
  also have "LENGTH('a) < 2 ^ LENGTH('a)" by (rule less_exp)
  finally show ?thesis by (simp add: unsigned_of_nat take_bit_nat_eq_self)
qed

lemma unpack_loop:
  fixes ws :: "'a::len word list"
  assumes p: "packed ws k c xs" and k: "0 < k" and W: "LENGTH('a) \<le> 64" "\<not> adv \<longrightarrow> LENGTH('a) < 32"
    and n: "n \<le> length xs"
  shows "\<exists>p' avail' out'. foldE (unpack_step adv (int k) (mask k) c ws) [0..<n]
      (2, int (LENGTH('a)), replicate (length xs) 0) = Inr (p', avail', out') \<and>
    reads_at TYPE('a) adv (n * k) (p', avail') \<and> length out' = length xs \<and>
    (\<forall>i < n. out' ! i = c OR take_bit k (xs ! i))"
  using n
proof (induction n)
  case 0
  then show ?case by (simp add: reads_at_def head_at_def)
next
  case (Suc n)
  then obtain p1 a1 o1 where f: "foldE (unpack_step adv (int k) (mask k) c ws) [0..<n]
      (2, int (LENGTH('a)), replicate (length xs) 0) = Inr (p1, a1, o1)"
    and h: "reads_at TYPE('a) adv (n * k) (p1, a1)" "length o1 = length xs"
    and o: "\<forall>i < n. o1 ! i = c OR take_bit k (xs ! i)" by auto
  have i: "n < length xs" "n < length o1" using Suc.prems h(2) by simp_all
  have kW: "k \<le> LENGTH('a)" using p by (simp add: packed_def)
  obtain p2 a2 where s: "unpack_step adv (int k) (mask k) c ws n (p1, a1, o1) =
      Inr (p2, a2, o1[n := c OR take_bit k (xs ! n)])" "reads_at TYPE('a) adv (n * k + k) (p2, a2)"
    using unpack_step_stream [OF k kW W packed_cap [OF p k i(1)] i(2) h(1) packed_word [OF p k i(1)]] by blast
  show ?case unfolding foldE_upt_Suc f bindE_Inr s(1)
    using s(2) h(2) o i(2) by (auto simp: nth_list_update less_Suc_eq add.commute)
qed

lemma unpack_loop_0:
  fixes ws :: "'a::len word list"
  assumes "packed ws 0 c xs" "LENGTH('a) \<le> 64" "n \<le> length xs"
  shows "\<exists>out'. foldE (unpack_step adv 0 m c ws) [0..<n]
      (2, int (LENGTH('a)), replicate (length xs) 0) = Inr (2, int (LENGTH('a)), out') \<and>
    length out' = length xs \<and> (\<forall>i < n. out' ! i = c)"
  using assms(3)
proof (induction n)
  case (Suc n)
  then obtain o1 where f: "foldE (unpack_step adv 0 m c ws) [0..<n]
      (2, int (LENGTH('a)), replicate (length xs) 0) = Inr (2, int (LENGTH('a)), o1)"
    "length o1 = length xs" and o: "\<forall>i < n. o1 ! i = c" by auto
  have "2 < length ws" "ws ! 2 = 0" using assms(1) by (simp_all add: packed_def)
  then have r: "rdx ws 2 = Inr 0" by (simp add: rdx_def)
  have ti: "to_int (int (LENGTH('a)) - 0) = int (LENGTH('a))" using assms(2) by (subst to_int_id) auto
  have "unpack_step adv 0 m c ws n (2, int (LENGTH('a)), o1) = Inr (2, int (LENGTH('a)), o1[n := c])"
    using Suc.prems f(2) unfolding unpack_step_def prod.case Let_def ti r bindE_Inr
    by (simp add: wrx_def c_shr_def)
  then show ?case unfolding foldE_upt_Suc f(1) bindE_Inr
    using f(2) o Suc.prems by (auto simp: nth_list_update less_Suc_eq)
qed simp

lemma unpack_spec:
  fixes ws :: "'a::len word list"
  assumes p: "packed ws k c xs" and W: "LENGTH('a) \<le> 64" "\<not> adv \<longrightarrow> LENGTH('a) < 32"
  shows "sigbits_unpack adv ws (length xs) = Inr (map (\<lambda>x. c OR take_bit k x) xs)"
proof -
  have k: "k \<le> LENGTH('a)" and h: "0 < length ws" "1 < length ws" "ws ! 0 = word_of_nat k" "ws ! 1 = c"
    using p by (auto simp: packed_def)
  note rds = rdx_ok [OF h(1)] rdx_ok [OF h(2)]
  show ?thesis
  proof (cases "k = 0")
    case True
    obtain out where f: "foldE (unpack_step adv 0 (c_shr (- 1) (int (LENGTH('a)))) c ws) [0..<length xs]
        (2, int (LENGTH('a)), replicate (length xs) 0) = Inr (2, int (LENGTH('a)), out)"
      and o: "length out = length xs" "\<forall>i < length xs. out ! i = c"
      using unpack_loop_0 [of ws c xs "length xs" adv] p True W by blast
    have "out = map (\<lambda>x. c OR take_bit k x) xs" using o True by (intro nth_equalityI) auto
    then show ?thesis
      unfolding sigbits_unpack_def rds h(3,4) bindE_Inr Let_def using f True by simp
  next
    case False
    then have k0: "0 < k" by simp
    obtain q a out where f: "foldE (unpack_step adv (int k) (mask k) c ws) [0..<length xs]
        (2, int (LENGTH('a)), replicate (length xs) 0) = Inr (q, a, out)"
      and o: "length out = length xs" "\<forall>i < length xs. out ! i = c OR take_bit k (xs ! i)"
      using unpack_loop [OF p k0 W order_refl] by blast
    have "out = map (\<lambda>x. c OR take_bit k x) xs" using o by (intro nth_equalityI) auto
    then show ?thesis
      unfolding sigbits_unpack_def rds h(3,4) bindE_Inr Let_def width_small [OF k] mask_of_common [OF k0 k]
      using f by simp
  qed
qed

section \<open>Random access\<close>

lemma get_mask:
  assumes "0 < k" "k \<le> LENGTH('a)" "LENGTH('a) \<le> 64"
  shows "(ucast (c_shr (- 1 :: 64 word) (64 - int k)) :: 'a::len word) = mask k"
proof -
  have "c_shr (- 1 :: 64 word) (64 - int k) = mask k"
    using mask_of_common [of k, where 'a = 64] assms by simp
  then show ?thesis using assms
    by (intro bit_word_eqI) (simp add: bit_ucast_iff bit_mask_iff)
qed

lemma get_spec:
  fixes ws :: "'a::len word list"
  assumes p: "packed ws k c xs" and W: "LENGTH('a) \<le> 64" and i: "i < length xs"
    and off: "i * k < 2 ^ LENGTH('a)"
  shows "sigbits_get ws (int i) = Inr (c OR take_bit k (xs ! i))"
proof -
  let ?W = "LENGTH('a)"
  have k: "k \<le> ?W" and h: "0 < length ws" "1 < length ws" "ws ! 0 = word_of_nat k" "ws ! 1 = c"
    using p by (auto simp: packed_def)
  note rds = rdx_ok [OF h(1)] rdx_ok [OF h(2)]
  have bo: "uint (word_of_int (int i * int k) :: 'a word) = int (i * k)"
  proof -
    have "int (i * k) < 2 ^ ?W" using off by (simp only: of_nat_less_iff [symmetric, where 'a = int]) simp
    then have "take_bit ?W (int (i * k)) = int (i * k)" by (intro take_bit_int_eq_self) simp_all
    then show ?thesis by (simp only: uint_word_of_int_eq of_nat_mult)
  qed
  show ?thesis
  proof (cases "k = 0")
    case True
    have "rdx ws 2 = Inr 0" "rdx ws (Suc 0) = Inr c" "rdx ws 0 = Inr 0"
      using p True by (auto simp: packed_def rdx_def)
    moreover have "to_int (int ?W - 0 - 0) = int ?W" using W by (subst to_int_id) auto
    ultimately show ?thesis
      using True by (simp add: sigbits_get_def Let_def c_shr_def numeral_2_eq_2)
  next
    case False
    then have k0: "0 < k" by simp
    define T q r where "T = i * k" and "q = T div ?W" and "r = T mod ?W"
    have T: "T = q * ?W + r" and r: "r < ?W" by (simp_all add: q_def r_def)
    have v: "stream_word ws T k (take_bit k (xs ! i))" using packed_word [OF p k0 i] by (simp add: T_def)
    have cap: "2 + (T + k - 1) div ?W < length ws" using packed_cap [OF p k0 i] by (simp add: T_def)
    have pq: "2 + nat (int T div int ?W) = 2 + q"
      by (simp add: q_def nat_int flip: zdiv_int)
    have sh: "to_int (int ?W - int T mod int ?W - int k) = int ?W - int r - int k"
    proof -
      have e: "int T mod int ?W = int r" by (simp add: r_def zmod_int)
      show ?thesis unfolding e using W k r by (intro to_int_id) auto
    qed
    have g: "sigbits_get ws (int i) =
      bindE (rdx ws (2 + q)) (\<lambda>val. let shift = int ?W - int r - int k in
       if shift < 0
       then bindE (rdx ws (2 + q + 1)) (\<lambda>w.
            Inr ((c OR (c_shl val (- shift) AND mask k)) OR (c_shr w (shift + int ?W) AND mask k)))
       else Inr (c OR (c_shr val shift AND mask k)))"
      unfolding sigbits_get_def rds h(3,4) bindE_Inr Let_def width_small [OF k] bo get_mask [OF k0 k W]
        T_def [symmetric] pq sh ..
    show ?thesis
    proof (cases "r + k \<le> ?W")
      case True
      have "(T + k - 1) div ?W = q"
      proof (rule div_nat_eqI)
        show "?W * q \<le> T + k - 1" "T + k - 1 < ?W * Suc q" using k0 True by (simp_all add: T mult.commute)
      qed
      then have c: "2 + q < length ws" using cap by simp
      have "c_shr (ws ! (2 + q)) (int ?W - int r - int k) AND mask k = take_bit k (xs ! i)"
        using stream_word_one [OF True k0, where q = q and ws = ws] v True k0 unfolding T
        by (simp add: c_shr_in nat_diff_distrib) (metis add_2_eq_Suc stream_word_unique)
      moreover have "\<not> int ?W - int r - int k < 0" using True by linarith
      ultimately show ?thesis unfolding g rdx_ok [OF c] bindE_Inr Let_def by (simp only: if_False)
    next
      case False
      define s where "s = r + k - ?W"
      have s: "0 < s" "s < ?W" "r + k = ?W + s" using False k r by (auto simp: s_def)
      have "(T + k - 1) div ?W = Suc q"
      proof (rule div_nat_eqI)
        show "?W * Suc q \<le> T + k - 1" "T + k - 1 < ?W * Suc (Suc q)" using s by (simp_all add: T mult.commute)
      qed
      then have c: "2 + q < length ws" "2 + q + 1 < length ws" using cap by simp_all
      have sh2: "int ?W - int r - int k = - int s" using s(3) by linarith
      define a b where "a = ws ! (2 + q)" and "b = ws ! (2 + q + 1)"
      have rd2: "rdx ws (2 + q) = Inr a" "rdx ws (2 + q + 1) = Inr b"
        using c by (simp_all add: rdx_def a_def b_def)
      have "c_shl a (int s) = push_bit s a" "c_shr b (- int s + int ?W) = drop_bit (?W - s) b"
        using s by (simp_all add: c_shr_in c_shl_in nat_diff_distrib)
      moreover have "(push_bit s a AND mask k) OR (drop_bit (?W - s) b AND mask k) = take_bit k (xs ! i)"
        using stream_word_two [OF r s(3,1) k, where q = q and ws = ws] v unfolding T a_def b_def
        by (metis add.assoc add.commute numeral_plus_one semiring_norm(5) stream_word_unique)
      ultimately show ?thesis
        using s(1) unfolding g rd2 bindE_Inr Let_def sh2 by (simp add: or.assoc)
    qed
  qed
qed

end
