(* ===== verification/PC_Bytes_Sigbits.thy ===== *)
theory PC_Bytes_Sigbits
  imports PC_Bytes_Base PC_Sigbits_Words
begin

text \<open>
  Significant-bits encoding of lib/pc_bytes.c on byte arrays: the four copies of each routine (one
  per word width) with their buffer sizes, and the dispatch on the width of the interpretation. A
  cast of the byte pointer to a wider type is \<open>words_of\<close>; the trailing bytes that do not fill a
  word cannot be read through it.
\<close>

section \<open>Words in a byte buffer\<close>

definition words_of :: "byte list \<Rightarrow> 'a::len word list" where
  "words_of buf = map word_of_bytes (elems (word_size TYPE('a)) (length buf div word_size TYPE('a)) buf)"

definition bytes_of_words :: "'a::len word list \<Rightarrow> byte list" where
  "bytes_of_words ws = concat (map bytes_of_word ws)"

section \<open>Operations\<close>

definition pc_bytes_sigbits_count_8 :: "PCBYTES \<Rightarrow> (8 word \<times> nat) res" where
  "pc_bytes_sigbits_count_8 pcb = sigbits_count (words_of (pb_bytes pcb)) (pb_npoints pcb)"

definition pc_bytes_sigbits_count_16 :: "PCBYTES \<Rightarrow> (16 word \<times> nat) res" where
  "pc_bytes_sigbits_count_16 pcb = sigbits_count (words_of (pb_bytes pcb)) (pb_npoints pcb)"

definition pc_bytes_sigbits_count_32 :: "PCBYTES \<Rightarrow> (32 word \<times> nat) res" where
  "pc_bytes_sigbits_count_32 pcb = sigbits_count (words_of (pb_bytes pcb)) (pb_npoints pcb)"

definition pc_bytes_sigbits_count_64 :: "PCBYTES \<Rightarrow> (64 word \<times> nat) res" where
  "pc_bytes_sigbits_count_64 pcb = sigbits_count (words_of (pb_bytes pcb)) (pb_npoints pcb)"

text \<open>The function called by the statistics; it keeps the number of common bits only.\<close>

definition pc_bytes_sigbits_count :: "PCBYTES \<Rightarrow> nat res" where
  "pc_bytes_sigbits_count pcb =
     bindE (pc_interpretation_size (pb_interpretation pcb)) (\<lambda>sz.
     if sz = 1 then bindE (pc_bytes_sigbits_count_8 pcb) (\<lambda>r. Inr (snd r))
     else if sz = 2 then bindE (pc_bytes_sigbits_count_16 pcb) (\<lambda>r. Inr (snd r))
     else if sz = 4 then bindE (pc_bytes_sigbits_count_32 pcb) (\<lambda>r. Inr (snd r))
     else if sz = 8 then bindE (pc_bytes_sigbits_count_64 pcb) (\<lambda>r. Inr (snd r))
     else Inl (PcError ''pc_bytes_sigbits_count: cannot handle interpretation %d''))"

text \<open>\<open>nbits * npoints / 8\<close>, an \<open>int\<close> times a \<open>uint32_t\<close>: the product wraps.\<close>

definition unique_bytes :: "nat \<Rightarrow> nat \<Rightarrow> nat \<Rightarrow> nat" where
  "unique_bytes bitwidth commonbits npoints =
     nat ((int bitwidth - int commonbits) * int npoints mod 2 ^ 32) div 8"

definition sigbits_result :: "PCBYTES \<Rightarrow> nat \<Rightarrow> 'a::len word list \<Rightarrow> PCBYTES" where
  "sigbits_result pcb size_out out = pcb\<lparr>pb_size := size_out, pb_bytes := bytes_of_words out,
     pb_compression := PC_DIM_SIGBITS, pb_readonly := PC_FALSE\<rparr>"

definition pc_bytes_sigbits_encode_8 :: "PCBYTES \<Rightarrow> 8 word \<Rightarrow> nat \<Rightarrow> PCBYTES res" where
  "pc_bytes_sigbits_encode_8 pcb commonvalue commonbits =
     (let size_out = unique_bytes 8 commonbits (pb_npoints pcb) + 3
      in bindE (sigbits_pack (words_of (pb_bytes pcb)) (pb_npoints pcb) commonvalue commonbits size_out)
           (\<lambda>out. Inr (sigbits_result pcb size_out out)))"

definition pc_bytes_sigbits_encode_16 :: "PCBYTES \<Rightarrow> 16 word \<Rightarrow> nat \<Rightarrow> PCBYTES res" where
  "pc_bytes_sigbits_encode_16 pcb commonvalue commonbits =
     (let size_out_raw = unique_bytes 16 commonbits (pb_npoints pcb) + 1 + 4;
          size_out = size_out_raw + size_out_raw mod 2
      in bindE (sigbits_pack (words_of (pb_bytes pcb)) (pb_npoints pcb) commonvalue commonbits (size_out div 2))
           (\<lambda>out. Inr (sigbits_result pcb size_out out)))"

definition pc_bytes_sigbits_encode_32 :: "PCBYTES \<Rightarrow> 32 word \<Rightarrow> nat \<Rightarrow> PCBYTES res" where
  "pc_bytes_sigbits_encode_32 pcb commonvalue commonbits =
     (let size_out_raw = unique_bytes 32 commonbits (pb_npoints pcb) + 1 + 8;
          size_out = size_out_raw + (4 - size_out_raw mod 4)
      in bindE (sigbits_pack (words_of (pb_bytes pcb)) (pb_npoints pcb) commonvalue commonbits (size_out div 4))
           (\<lambda>out. Inr (sigbits_result pcb size_out out)))"

definition pc_bytes_sigbits_encode_64 :: "PCBYTES \<Rightarrow> 64 word \<Rightarrow> nat \<Rightarrow> PCBYTES res" where
  "pc_bytes_sigbits_encode_64 pcb commonvalue commonbits =
     (let size_out_raw = unique_bytes 64 commonbits (pb_npoints pcb) + 1 + 16;
          size_out = size_out_raw + (8 - size_out_raw mod 8)
      in bindE (sigbits_pack (words_of (pb_bytes pcb)) (pb_npoints pcb) commonvalue commonbits (size_out div 8))
           (\<lambda>out. Inr (sigbits_result pcb size_out out)))"

definition pc_bytes_sigbits_encode :: "PCBYTES \<Rightarrow> PCBYTES res" where
  "pc_bytes_sigbits_encode pcb =
     bindE (pc_interpretation_size (pb_interpretation pcb)) (\<lambda>sz.
     if sz = 1 then bindE (pc_bytes_sigbits_count_8 pcb) (\<lambda>(v, n). pc_bytes_sigbits_encode_8 pcb v n)
     else if sz = 2 then bindE (pc_bytes_sigbits_count_16 pcb) (\<lambda>(v, n). pc_bytes_sigbits_encode_16 pcb v n)
     else if sz = 4 then bindE (pc_bytes_sigbits_count_32 pcb) (\<lambda>(v, n). pc_bytes_sigbits_encode_32 pcb v n)
     else if sz = 8 then bindE (pc_bytes_sigbits_count_64 pcb) (\<lambda>(v, n). pc_bytes_sigbits_encode_64 pcb v n)
     else Inl (PcError ''pc_bytes_sigbits_encode: bits_encode cannot handle interpretation %d''))"

definition unpacked_result :: "PCBYTES \<Rightarrow> 'a::len word list \<Rightarrow> PCBYTES" where
  "unpacked_result pcb out = pcb\<lparr>pb_size := word_size TYPE('a) * pb_npoints pcb,
     pb_compression := PC_DIM_NONE, pb_bytes := bytes_of_words out, pb_readonly := PC_FALSE\<rparr>"

definition pc_bytes_sigbits_decode_8 :: "PCBYTES \<Rightarrow> PCBYTES res" where
  "pc_bytes_sigbits_decode_8 pcb =
     bindE (sigbits_unpack False (words_of (pb_bytes pcb) :: 8 word list) (pb_npoints pcb))
       (\<lambda>out. Inr (unpacked_result pcb out))"

definition pc_bytes_sigbits_decode_16 :: "PCBYTES \<Rightarrow> PCBYTES res" where
  "pc_bytes_sigbits_decode_16 pcb =
     bindE (sigbits_unpack True (words_of (pb_bytes pcb) :: 16 word list) (pb_npoints pcb))
       (\<lambda>out. Inr (unpacked_result pcb out))"

definition pc_bytes_sigbits_decode_32 :: "PCBYTES \<Rightarrow> PCBYTES res" where
  "pc_bytes_sigbits_decode_32 pcb =
     bindE (sigbits_unpack True (words_of (pb_bytes pcb) :: 32 word list) (pb_npoints pcb))
       (\<lambda>out. Inr (unpacked_result pcb out))"

definition pc_bytes_sigbits_decode_64 :: "PCBYTES \<Rightarrow> PCBYTES res" where
  "pc_bytes_sigbits_decode_64 pcb =
     bindE (sigbits_unpack True (words_of (pb_bytes pcb) :: 64 word list) (pb_npoints pcb))
       (\<lambda>out. Inr (unpacked_result pcb out))"

definition pc_bytes_sigbits_decode :: "PCBYTES \<Rightarrow> PCBYTES res" where
  "pc_bytes_sigbits_decode pcb =
     bindE (pc_interpretation_size (pb_interpretation pcb)) (\<lambda>sz.
     if sz = 1 then pc_bytes_sigbits_decode_8 pcb
     else if sz = 2 then pc_bytes_sigbits_decode_16 pcb
     else if sz = 4 then pc_bytes_sigbits_decode_32 pcb
     else if sz = 8 then pc_bytes_sigbits_decode_64 pcb
     else Inl (PcError ''pc_bytes_sigbits_decode: cannot handle interpretation %d''))"

text \<open>Only the two header words are flipped.\<close>

definition pc_bytes_sigbits_flip_endian :: "PCBYTES \<Rightarrow> PCBYTES res" where
  "pc_bytes_sigbits_flip_endian pcb =
     bindE (pc_interpretation_size (pb_interpretation pcb)) (\<lambda>sz.
     if sz < 2 then Inr pcb
     else bindE (rd (pb_bytes pcb) 0 sz) (\<lambda>b1.
          bindE (wr (pb_bytes pcb) 0 (flip_word sz b1)) (\<lambda>bytes.
          bindE (rd bytes sz sz) (\<lambda>b2.
          bindE (wr bytes sz (flip_word sz b2)) (\<lambda>bytes.
          Inr (pcb\<lparr>pb_bytes := bytes\<rparr>))))))"

definition pc_bytes_sigbits_to_ptr_8 :: "PCBYTES \<Rightarrow> int \<Rightarrow> byte list res" where
  "pc_bytes_sigbits_to_ptr_8 pcb n =
     bindE (sigbits_get (words_of (pb_bytes pcb) :: 8 word list) n) (\<lambda>r. Inr (bytes_of_word r))"

definition pc_bytes_sigbits_to_ptr_16 :: "PCBYTES \<Rightarrow> int \<Rightarrow> byte list res" where
  "pc_bytes_sigbits_to_ptr_16 pcb n =
     bindE (sigbits_get (words_of (pb_bytes pcb) :: 16 word list) n) (\<lambda>r. Inr (bytes_of_word r))"

definition pc_bytes_sigbits_to_ptr_32 :: "PCBYTES \<Rightarrow> int \<Rightarrow> byte list res" where
  "pc_bytes_sigbits_to_ptr_32 pcb n =
     bindE (sigbits_get (words_of (pb_bytes pcb) :: 32 word list) n) (\<lambda>r. Inr (bytes_of_word r))"

definition pc_bytes_sigbits_to_ptr_64 :: "PCBYTES \<Rightarrow> int \<Rightarrow> byte list res" where
  "pc_bytes_sigbits_to_ptr_64 pcb n =
     bindE (sigbits_get (words_of (pb_bytes pcb) :: 64 word list) n) (\<lambda>r. Inr (bytes_of_word r))"

definition pc_bytes_sigbits_to_ptr :: "PCBYTES \<Rightarrow> int \<Rightarrow> byte list res" where
  "pc_bytes_sigbits_to_ptr pcb n =
     bindE (pc_interpretation_size (pb_interpretation pcb)) (\<lambda>sz.
     if sz = 1 then pc_bytes_sigbits_to_ptr_8 pcb n
     else if sz = 2 then pc_bytes_sigbits_to_ptr_16 pcb n
     else if sz = 4 then pc_bytes_sigbits_to_ptr_32 pcb n
     else if sz = 8 then pc_bytes_sigbits_to_ptr_64 pcb n
     else Inl (PcError ''pc_bytes_sigbits_to_ptr: cannot handle interpretation %d''))"

section \<open>Bytes and words\<close>

lemma word_size_pos: "8 dvd LENGTH('a::len) \<Longrightarrow> 0 < word_size TYPE('a)"
  using len_gt_0 [where 'a = 'a] by (auto simp: word_size_def div_greater_zero_iff dest: dvd_imp_le)

lemma words_of_bytes_of_words:
  assumes "8 dvd LENGTH('a)"
  shows "words_of (bytes_of_words ws) = (ws :: 'a::len word list)"
proof -
  let ?n = "word_size TYPE('a)"
  have n: "0 < ?n" by (rule word_size_pos [OF assms])
  have w: "\<And>e. e \<in> set (map bytes_of_word ws) \<Longrightarrow> length e = ?n" by auto
  have l: "length (bytes_of_words ws) = length ws * ?n"
    using length_concat_const [of "map bytes_of_word ws" ?n] w by (simp add: bytes_of_words_def)
  have "elems ?n (length ws) (bytes_of_words ws) = map bytes_of_word ws"
    using elems_concat [of "map bytes_of_word ws" ?n "[]"] w by (simp add: bytes_of_words_def)
  then show ?thesis using n assms by (simp add: words_of_def l comp_def)
qed

lemma bytes_of_words_of_plain:
  fixes xs :: "'a::len word list"
  assumes p: "plain pcb" and W: "8 dvd LENGTH('a)" and sz: "isize (pb_interpretation pcb) = word_size TYPE('a)"
    and xs: "xs = words_of (pb_bytes pcb)"
  shows "length xs = pb_npoints pcb" "map bytes_of_word xs = vals pcb" "bytes_of_words xs = pb_bytes pcb"
proof -
  let ?n = "word_size TYPE('a)"
  have n: "0 < ?n" by (rule word_size_pos [OF W])
  have l: "length (pb_bytes pcb) = pb_npoints pcb * ?n" using p sz by (simp add: plain_def)
  have v: "xs = map word_of_bytes (vals pcb)" using n by (simp add: xs words_of_def l vals_def sz)
  then show "length xs = pb_npoints pcb" by simp
  have "bytes_of_word (word_of_bytes b :: 'a word) = b" if "b \<in> set (vals pcb)" for b
    using vals_width [OF p that] bytes_of_word_of_bytes [OF W, of b] sz by simp
  then show m: "map bytes_of_word xs = vals pcb" by (simp add: v map_idI)
  show "bytes_of_words xs = pb_bytes pcb" unfolding bytes_of_words_def m by (rule concat_vals [OF p])
qed

text \<open>A value is the common part and its unique part.\<close>

lemma common_or_unique:
  assumes "unique_bits xs k" "x \<in> set xs" "xs \<noteq> []"
  shows "push_bit k (drop_bit k (hd xs)) OR take_bit k x = (x :: 'a::len word)"
proof -
  have "drop_bit k (hd xs) = drop_bit k x"
    using assms hd_in_set [OF assms(3)] unfolding unique_bits_def by blast
  then show ?thesis
    by (intro bit_word_eqI)
      (auto simp: bit_or_iff bit_push_bit_iff bit_take_bit_iff bit_drop_bit_eq)
qed

section \<open>Encoding\<close>

text \<open>
  What the encoder of one width leaves behind: \<open>e\<close> holds the values of the plain array \<open>pcb\<close> packed
  with \<open>k\<close> bits each.
\<close>

definition sb_array :: "'a::len itself \<Rightarrow> PCBYTES \<Rightarrow> nat \<Rightarrow> PCBYTES \<Rightarrow> bool" where
  "sb_array _ pcb k e = (let xs = words_of (pb_bytes pcb) :: 'a word list; ws = words_of (pb_bytes e) in
     \<exists>c. packed ws k c xs \<and> map (\<lambda>x. c OR take_bit k x) xs = xs \<and> unique_bits xs k \<and>
     e = sigbits_result pcb (length ws * word_size TYPE('a)) ws)"

lemma sigbits_encode_generic:
  fixes xs :: "'a::len word list" and m :: "nat \<Rightarrow> nat"
  assumes p: "plain pcb" "0 < pb_npoints pcb" and W: "8 dvd LENGTH('a)"
    and sz: "isize (pb_interpretation pcb) = word_size TYPE('a)" and xs: "xs = words_of (pb_bytes pcb)"
    and cap: "\<And>k. k \<le> LENGTH('a) \<Longrightarrow> 3 \<le> m k \<and> 2 + (pb_npoints pcb * k + LENGTH('a) - 1) div LENGTH('a) \<le> m k"
    and enc: "\<And>c k. k \<le> LENGTH('a) \<Longrightarrow> enc pcb c (LENGTH('a) - k) =
      bindE (sigbits_pack xs (pb_npoints pcb) c (LENGTH('a) - k) (m k))
        (\<lambda>out. Inr (sigbits_result pcb (m k * word_size TYPE('a)) out))"
  obtains e k where "bindE (sigbits_count xs (pb_npoints pcb)) (\<lambda>(v, n). enc pcb v n) = Inr e"
    "sb_array TYPE('a) pcb k e" "k \<le> LENGTH('a)"
proof -
  note b = bytes_of_words_of_plain [OF p(1) W sz xs]
  have ne: "xs \<noteq> []" using b(1) p(2) by auto
  obtain k where u: "unique_bits xs k"
    and c: "sigbits_count xs (length xs) = Inr (push_bit k (drop_bit k (hd xs)), LENGTH('a) - k)"
    by (rule sigbits_count_spec [OF ne])
  let ?c = "push_bit k (drop_bit k (hd xs))"
  have k: "k \<le> LENGTH('a)" using u by (simp add: unique_bits_def)
  obtain ws where ws: "sigbits_pack xs (length xs) ?c (LENGTH('a) - k) (m k) = Inr ws"
    "packed ws k ?c xs" "length ws = m k"
    using pack_spec [OF k, of "m k" xs ?c] cap [OF k] b(1) by auto
  let ?e = "sigbits_result pcb (m k * word_size TYPE('a)) ws"
  have we: "words_of (pb_bytes ?e) = ws" by (simp add: sigbits_result_def words_of_bytes_of_words [OF W])
  have "map (\<lambda>x. ?c OR take_bit k x) xs = xs"
    by (rule map_idI) (rule common_or_unique [OF u _ ne])
  then have "sb_array TYPE('a) pcb k ?e"
    unfolding sb_array_def Let_def xs [symmetric] we using ws(2,3) u by auto
  moreover have "bindE (sigbits_count xs (pb_npoints pcb)) (\<lambda>(v, n). enc pcb v n) = Inr ?e"
    using c ws(1) enc [OF k] b(1) by simp
  ultimately show thesis using that k by blast
qed

lemma unique_bytes_small:
  "k \<le> W \<Longrightarrow> n * W < 2 ^ 32 \<Longrightarrow> unique_bytes W (W - k) n = n * k div 8"
proof -
  assume k: "k \<le> W" and n: "n * W < 2 ^ 32"
  have "n * k \<le> n * W" using k by simp
  then have "n * k < 2 ^ 32" using n by (rule le_less_trans)
  then have lt: "int (n * k) < 2 ^ 32" by (simp only: of_nat_less_iff [symmetric, where 'a = int]) simp
  have e: "(int W - int (W - k)) * int n = int (n * k)" using k by (simp add: of_nat_diff mult.commute)
  show ?thesis unfolding unique_bytes_def e using lt by (simp add: mod_pos_pos_trivial nat_mult_distrib)
qed

lemma capacity_8: "3 \<le> x div 8 + 3 \<and> 2 + (x + 8 - 1) div 8 \<le> x div 8 + (3::nat)"
  by presburger

lemma capacity_16:
  assumes r: "r = x div 8 + 1 + (4::nat)"
  shows "3 \<le> (r + r mod 2) div 2 \<and> 2 + (x + 16 - 1) div 16 \<le> (r + r mod 2) div 2 \<and>
    (r + r mod 2) div 2 * 2 = r + r mod 2"
proof -
  define h d a b where "h = r div 2" and "d = r mod 2" and "a = x div 8" and "b = x mod 8"
  have e: "r = 2 * h + d" "x = 8 * a + b" "d < 2" "b < 8" "r = a + 5"
    using r by (simp_all add: h_def d_def a_def b_def)
  have q: "(r + d) div 2 = h + d" unfolding e(1) by simp
  have "x + 16 - 1 < (h + d - 1) * 16" using e by linarith
  then have "(x + 16 - 1) div 16 < h + d - 1" by (rule less_mult_imp_div_less)
  moreover have "3 \<le> h + d" using e by linarith
  moreover have "(h + d) * 2 = r + d" using e(1) by simp
  ultimately have "3 \<le> h + d \<and> 2 + (x + 16 - 1) div 16 \<le> h + d \<and> (h + d) * 2 = r + d" by linarith
  then show ?thesis unfolding d_def [symmetric] q .
qed

lemma round_up_div: "0 < n \<Longrightarrow> (r + (n - r mod n)) div n = r div n + 1 \<and> (r div n + 1) * n = r + (n - r mod (n::nat))"
proof -
  assume n: "0 < n"
  have "r mod n < n" using n by simp
  moreover have "r div n * n + r mod n = r" by simp
  ultimately have e: "(r div n + 1) * n = r + (n - r mod n)" unfolding add_mult_distrib by linarith
  have "(r div n + 1) * n div n = r div n + 1" using n by simp
  then show ?thesis unfolding e using e by simp
qed

lemma capacity_32:
  assumes r: "r = x div 8 + 1 + (8::nat)"
  shows "3 \<le> (r + (4 - r mod 4)) div 4 \<and> 2 + (x + 32 - 1) div 32 \<le> (r + (4 - r mod 4)) div 4 \<and>
    (r + (4 - r mod 4)) div 4 * 4 = r + (4 - r mod 4)"
proof -
  define h d a b where "h = r div 4" and "d = r mod 4" and "a = x div 8" and "b = x mod 8"
  have e: "r = 4 * h + d" "x = 8 * a + b" "d < 4" "b < 8" "r = a + 9"
    using r by (simp_all add: h_def d_def a_def b_def)
  have "x + 32 - 1 < h * 32" using e by linarith
  then have "(x + 32 - 1) div 32 < h" by (rule less_mult_imp_div_less)
  moreover have "3 \<le> h + 1" using e by linarith
  moreover have "(r + (4 - r mod 4)) div 4 = h + 1" "(h + 1) * 4 = r + (4 - r mod 4)"
    using round_up_div [of 4 r] by (simp_all only: h_def)
  ultimately show ?thesis by simp
qed

lemma capacity_64:
  assumes r: "r = x div 8 + 1 + (16::nat)"
  shows "3 \<le> (r + (8 - r mod 8)) div 8 \<and> 2 + (x + 64 - 1) div 64 \<le> (r + (8 - r mod 8)) div 8 \<and>
    (r + (8 - r mod 8)) div 8 * 8 = r + (8 - r mod 8)"
proof -
  define h d a b where "h = r div 8" and "d = r mod 8" and "a = x div 8" and "b = x mod 8"
  have e: "r = 8 * h + d" "x = 8 * a + b" "d < 8" "b < 8" "r = a + 17"
    using r by (simp_all add: h_def d_def a_def b_def)
  have "x + 64 - 1 < h * 64" using e by linarith
  then have "(x + 64 - 1) div 64 < h" by (rule less_mult_imp_div_less)
  moreover have "3 \<le> h + 1" using e by linarith
  moreover have "(r + (8 - r mod 8)) div 8 = h + 1" "(h + 1) * 8 = r + (8 - r mod 8)"
    using round_up_div [of 8 r] by (simp_all only: h_def)
  ultimately show ?thesis by simp
qed

definition sb_encodes :: "PCBYTES \<Rightarrow> nat \<Rightarrow> PCBYTES \<Rightarrow> bool" where
  "sb_encodes pcb k e = (let sz = isize (pb_interpretation pcb) in k \<le> 8 * sz \<and>
     (if sz = 1 then sb_array TYPE(8) pcb k e else if sz = 2 then sb_array TYPE(16) pcb k e
      else if sz = 4 then sb_array TYPE(32) pcb k e else sb_array TYPE(64) pcb k e))"

lemma isize_cases:
  assumes "known_interp t"
  obtains "isize t = 1" | "isize t = 2" | "isize t = 4" | "isize t = 8"
  using assms by (cases rule: known_interp_cases) auto

lemma sigbits_encode_ok:
  assumes p: "plain pcb" "0 < pb_npoints pcb"
    and n: "pb_npoints pcb * (8 * isize (pb_interpretation pcb)) < 2 ^ 32"
  obtains e k where "pc_bytes_sigbits_encode pcb = Inr e" "sb_encodes pcb k e"
proof -
  have t: "known_interp (pb_interpretation pcb)" using p(1) by (simp add: plain_def)
  let ?n = "pb_npoints pcb"
  from t show thesis
  proof (cases rule: isize_cases)
    case 1
    let ?m = "\<lambda>k. unique_bytes 8 (8 - k) ?n + 3"
    have cap: "\<And>k. k \<le> 8 \<Longrightarrow> 3 \<le> ?m k \<and> 2 + (?n * k + 8 - 1) div 8 \<le> ?m k"
      using unique_bytes_small [of _ 8 ?n] n capacity_8 1 by simp
    obtain e k where "bindE (sigbits_count (words_of (pb_bytes pcb) :: 8 word list) ?n)
        (\<lambda>(v, n). pc_bytes_sigbits_encode_8 pcb v n) = Inr e" "sb_array TYPE(8) pcb k e" "k \<le> 8"
      by (rule sigbits_encode_generic [OF p, where 'a = 8 and m = ?m and enc = "pc_bytes_sigbits_encode_8"])
        (use cap 1 in \<open>auto simp: pc_bytes_sigbits_encode_8_def Let_def\<close>)
    then show thesis using that [of e k] t 1
      by (simp add: pc_bytes_sigbits_encode_def pc_bytes_sigbits_count_8_def sb_encodes_def)
  next
    case 2
    let ?r = "\<lambda>k. unique_bytes 16 (16 - k) ?n + 1 + 4"
    let ?m = "\<lambda>k. (?r k + ?r k mod 2) div 2"
    have cap: "3 \<le> ?m k \<and> 2 + (?n * k + 16 - 1) div 16 \<le> ?m k \<and> ?m k * 2 = ?r k + ?r k mod 2"
      if "k \<le> 16" for k
      using unique_bytes_small [OF that, of ?n] n 2 capacity_16 [of "?r k" "?n * k"] by simp
    obtain e k where "bindE (sigbits_count (words_of (pb_bytes pcb) :: 16 word list) ?n)
        (\<lambda>(v, n). pc_bytes_sigbits_encode_16 pcb v n) = Inr e" "sb_array TYPE(16) pcb k e" "k \<le> 16"
      by (rule sigbits_encode_generic [OF p, where 'a = 16 and m = ?m and enc = "pc_bytes_sigbits_encode_16"])
        (use cap 2 in \<open>auto simp: pc_bytes_sigbits_encode_16_def Let_def\<close>)
    then show thesis using that [of e k] t 2
      by (simp add: pc_bytes_sigbits_encode_def pc_bytes_sigbits_count_16_def sb_encodes_def)
  next
    case 3
    let ?r = "\<lambda>k. unique_bytes 32 (32 - k) ?n + 1 + 8"
    let ?m = "\<lambda>k. (?r k + (4 - ?r k mod 4)) div 4"
    have cap: "3 \<le> ?m k \<and> 2 + (?n * k + 32 - 1) div 32 \<le> ?m k \<and> ?m k * 4 = ?r k + (4 - ?r k mod 4)"
      if "k \<le> 32" for k
      using unique_bytes_small [OF that, of ?n] n 3 capacity_32 [of "?r k" "?n * k"] by simp
    obtain e k where "bindE (sigbits_count (words_of (pb_bytes pcb) :: 32 word list) ?n)
        (\<lambda>(v, n). pc_bytes_sigbits_encode_32 pcb v n) = Inr e" "sb_array TYPE(32) pcb k e" "k \<le> 32"
      by (rule sigbits_encode_generic [OF p, where 'a = 32 and m = ?m and enc = "pc_bytes_sigbits_encode_32"])
        (use cap 3 in \<open>auto simp: pc_bytes_sigbits_encode_32_def Let_def\<close>)
    then show thesis using that [of e k] t 3
      by (simp add: pc_bytes_sigbits_encode_def pc_bytes_sigbits_count_32_def sb_encodes_def)
  next
    case 4
    let ?r = "\<lambda>k. unique_bytes 64 (64 - k) ?n + 1 + 16"
    let ?m = "\<lambda>k. (?r k + (8 - ?r k mod 8)) div 8"
    have cap: "3 \<le> ?m k \<and> 2 + (?n * k + 64 - 1) div 64 \<le> ?m k \<and> ?m k * 8 = ?r k + (8 - ?r k mod 8)"
      if "k \<le> 64" for k
      using unique_bytes_small [OF that, of ?n] n 4 capacity_64 [of "?r k" "?n * k"] by simp
    obtain e k where "bindE (sigbits_count (words_of (pb_bytes pcb) :: 64 word list) ?n)
        (\<lambda>(v, n). pc_bytes_sigbits_encode_64 pcb v n) = Inr e" "sb_array TYPE(64) pcb k e" "k \<le> 64"
      by (rule sigbits_encode_generic [OF p, where 'a = 64 and m = ?m and enc = "pc_bytes_sigbits_encode_64"])
        (use cap 4 in \<open>auto simp: pc_bytes_sigbits_encode_64_def Let_def\<close>)
    then show thesis using that [of e k] t 4
      by (simp add: pc_bytes_sigbits_encode_def pc_bytes_sigbits_count_64_def sb_encodes_def)
  qed
qed

section \<open>Decoding and random access\<close>

lemma sb_decode_generic:
  fixes xs :: "'a::len word list"
  assumes p: "plain pcb" and W: "8 dvd LENGTH('a)" "LENGTH('a) \<le> 64" "\<not> adv \<longrightarrow> LENGTH('a) < 32"
    and sz: "isize (pb_interpretation pcb) = word_size TYPE('a)"
    and a: "sb_array TYPE('a) pcb k e" and xs: "xs = words_of (pb_bytes pcb)"
  shows "sigbits_unpack adv (words_of (pb_bytes e) :: 'a word list) (pb_npoints e) = Inr xs"
    and "unpacked_result e xs = pcb\<lparr>pb_readonly := PC_FALSE\<rparr>"
proof -
  note b = bytes_of_words_of_plain [OF p W(1) sz xs]
  obtain c where pk: "packed (words_of (pb_bytes e)) k c xs" and m: "map (\<lambda>x. c OR take_bit k x) xs = xs"
    and e: "e = sigbits_result pcb (length (words_of (pb_bytes e) :: 'a word list) * word_size TYPE('a))
      (words_of (pb_bytes e) :: 'a word list)"
    using a unfolding sb_array_def Let_def xs by blast
  have n: "pb_npoints e = length xs" by (subst e) (simp add: sigbits_result_def b(1))
  show "sigbits_unpack adv (words_of (pb_bytes e) :: 'a word list) (pb_npoints e) = Inr xs"
    unfolding n unpack_spec [OF pk W(2,3)] m ..
  have s: "word_size TYPE('a) * length xs = pb_size pcb" "pb_compression pcb = PC_DIM_NONE"
    using p sz b(1) by (simp_all add: plain_def)
  show "unpacked_result e xs = pcb\<lparr>pb_readonly := PC_FALSE\<rparr>"
    unfolding unpacked_result_def n s(1) b(3)
    by (subst e) (use s(2) in \<open>cases pcb, simp add: sigbits_result_def\<close>)
qed

lemma sb_get_generic:
  fixes xs :: "'a::len word list"
  assumes p: "plain pcb" and W: "8 dvd LENGTH('a)" "LENGTH('a) \<le> 64"
    and sz: "isize (pb_interpretation pcb) = word_size TYPE('a)"
    and a: "sb_array TYPE('a) pcb k e" and i: "i < pb_npoints pcb" "i * k < 2 ^ LENGTH('a)"
  shows "bindE (sigbits_get (words_of (pb_bytes e) :: 'a word list) (int i)) (\<lambda>r. Inr (bytes_of_word r)) =
    Inr (vals pcb ! i)"
proof -
  define xs where "xs = (words_of (pb_bytes pcb) :: 'a word list)"
  note b = bytes_of_words_of_plain [OF p W(1) sz xs_def]
  obtain c where pk: "packed (words_of (pb_bytes e)) k c xs" and m: "map (\<lambda>x. c OR take_bit k x) xs = xs"
    using a unfolding sb_array_def Let_def xs_def by blast
  have l: "i < length xs" using i(1) b(1) by simp
  have "sigbits_get (words_of (pb_bytes e) :: 'a word list) (int i) = Inr (xs ! i)"
    using get_spec [OF pk W(2) l i(2)] m l by (metis nth_map)
  moreover have "bytes_of_word (xs ! i) = vals pcb ! i" using b(2) l by (metis nth_map)
  ultimately show ?thesis by simp
qed

lemma sb_array_fields:
  assumes "sb_array TYPE('a::len) pcb k e"
  shows "pb_interpretation e = pb_interpretation pcb \<and> pb_npoints e = pb_npoints pcb \<and>
    pb_compression e = PC_DIM_SIGBITS"
proof -
  obtain sz and ws :: "'a word list" where e: "e = sigbits_result pcb sz ws"
    using assms unfolding sb_array_def Let_def by blast
  show ?thesis unfolding e by (simp add: sigbits_result_def)
qed

lemma sb_encodes_fields:
  assumes "sb_encodes pcb k e"
  shows "pb_interpretation e = pb_interpretation pcb" "pb_npoints e = pb_npoints pcb"
    "pb_compression e = PC_DIM_SIGBITS"
  using assms unfolding sb_encodes_def Let_def by (auto dest: sb_array_fields split: if_splits)

lemma sigbits_decode_ok:
  assumes p: "plain pcb" and e: "sb_encodes pcb k e"
  shows "pc_bytes_sigbits_decode e = Inr (pcb\<lparr>pb_readonly := PC_FALSE\<rparr>)"
proof -
  have t: "known_interp (pb_interpretation pcb)" using p by (simp add: plain_def)
  note f = sb_encodes_fields [OF e]
  from t show ?thesis
  proof (cases rule: isize_cases)
    case 1
    then have "sb_array TYPE(8) pcb k e" using e by (simp add: sb_encodes_def Let_def)
    from sb_decode_generic [where 'a = 8, OF p _ _ _ _ this refl, of False] 1 t show ?thesis
      by (simp add: pc_bytes_sigbits_decode_def f pc_bytes_sigbits_decode_8_def)
  next
    case 2
    then have "sb_array TYPE(16) pcb k e" using e by (simp add: sb_encodes_def Let_def)
    from sb_decode_generic [where 'a = 16, OF p _ _ _ _ this refl, of True] 2 t show ?thesis
      by (simp add: pc_bytes_sigbits_decode_def f pc_bytes_sigbits_decode_16_def)
  next
    case 3
    then have "sb_array TYPE(32) pcb k e" using e by (simp add: sb_encodes_def Let_def)
    from sb_decode_generic [where 'a = 32, OF p _ _ _ _ this refl, of True] 3 t show ?thesis
      by (simp add: pc_bytes_sigbits_decode_def f pc_bytes_sigbits_decode_32_def)
  next
    case 4
    then have "sb_array TYPE(64) pcb k e" using e by (simp add: sb_encodes_def Let_def)
    from sb_decode_generic [where 'a = 64, OF p _ _ _ _ this refl, of True] 4 t show ?thesis
      by (simp add: pc_bytes_sigbits_decode_def f pc_bytes_sigbits_decode_64_def)
  qed
qed

text \<open>
  Random access is right as long as the bit offset fits in a word of the array's width.
\<close>

lemma sigbits_to_ptr_ok:
  assumes p: "plain pcb" and e: "sb_encodes pcb k e" and i: "i < pb_npoints pcb"
    and off: "i * k < 2 ^ (8 * isize (pb_interpretation pcb))"
  shows "pc_bytes_sigbits_to_ptr e (int i) = Inr (vals pcb ! i)"
proof -
  have t: "known_interp (pb_interpretation pcb)" using p by (simp add: plain_def)
  note f = sb_encodes_fields [OF e]
  from t show ?thesis
  proof (cases rule: isize_cases)
    case 1
    then have "sb_array TYPE(8) pcb k e" using e by (simp add: sb_encodes_def Let_def)
    from sb_get_generic [where 'a = 8, OF p _ _ _ this i] 1 t off show ?thesis
      by (simp add: pc_bytes_sigbits_to_ptr_def f pc_bytes_sigbits_to_ptr_8_def)
  next
    case 2
    then have "sb_array TYPE(16) pcb k e" using e by (simp add: sb_encodes_def Let_def)
    from sb_get_generic [where 'a = 16, OF p _ _ _ this i] 2 t off show ?thesis
      by (simp add: pc_bytes_sigbits_to_ptr_def f pc_bytes_sigbits_to_ptr_16_def)
  next
    case 3
    then have "sb_array TYPE(32) pcb k e" using e by (simp add: sb_encodes_def Let_def)
    from sb_get_generic [where 'a = 32, OF p _ _ _ this i] 3 t off show ?thesis
      by (simp add: pc_bytes_sigbits_to_ptr_def f pc_bytes_sigbits_to_ptr_32_def)
  next
    case 4
    then have "sb_array TYPE(64) pcb k e" using e by (simp add: sb_encodes_def Let_def)
    from sb_get_generic [where 'a = 64, OF p _ _ _ this i] 4 t off show ?thesis
      by (simp add: pc_bytes_sigbits_to_ptr_def f pc_bytes_sigbits_to_ptr_64_def)
  qed
qed

section \<open>Properties\<close>

definition demo_octets :: PCBYTES where
  "demo_octets = \<lparr>pb_size = 3, pb_npoints = 3, pb_interpretation = PC_UINT8, pb_compression = PC_DIM_NONE,
     pb_readonly = PC_FALSE, pb_bytes = [0x41, 0x43, 0x42]\<rparr>"

lemma demo_octets_plain: "plain demo_octets" "vals demo_octets = [[0x41], [0x43], [0x42]]"
  by (simp_all add: plain_def demo_octets_def known_interp_def vals_def elems_def upt_rec)

text \<open>
  C2: Significant-bits encoding of a non-empty plain array (of at most 2^32 bits) succeeds without
  writing outside its output buffer, and decoding gives the array back, for all four word widths.
\<close>

theorem sigbits_encoding:
  assumes "plain pcb" "0 < pb_npoints pcb" "pb_npoints pcb * (8 * isize (pb_interpretation pcb)) < 2 ^ 32"
  shows "\<exists>e. pc_bytes_sigbits_encode pcb = Inr e \<and> pb_compression e = PC_DIM_SIGBITS \<and>
    pc_bytes_sigbits_decode e = Inr (pcb\<lparr>pb_readonly := PC_FALSE\<rparr>)"
proof -
  obtain e k where "pc_bytes_sigbits_encode pcb = Inr e" "sb_encodes pcb k e"
    by (rule sigbits_encode_ok [OF assms])
  then show ?thesis using sigbits_decode_ok [OF assms(1)] sb_encodes_fields by blast
qed

theorem sigbits_encoding_witness:
  "\<exists>e. pc_bytes_sigbits_encode demo_octets = Inr e \<and> pc_bytes_sigbits_decode e = Inr demo_octets"
proof -
  have "0 < pb_npoints demo_octets"
    "pb_npoints demo_octets * (8 * isize (pb_interpretation demo_octets)) < 2 ^ 32"
    by (simp_all add: demo_octets_def)
  from sigbits_encoding [OF demo_octets_plain(1) this] show ?thesis by (auto simp: demo_octets_def)
qed

text \<open>
  The number of common bits is the greatest number of leading bits in which all values agree, and
  the common value is those bits of the values with the rest zero.
\<close>

theorem common_bits_are_maximal:
  assumes "(bytes :: 'a::len word list) \<noteq> []"
  shows "\<exists>k. unique_bits bytes k \<and>
    sigbits_count bytes (length bytes) = Inr (push_bit k (drop_bit k (hd bytes)), LENGTH('a) - k)"
  by (rule sigbits_count_spec [OF assms]) blast

theorem common_bits_are_maximal_witness:
  "\<exists>k. unique_bits [0x41, 0x43 :: 8 word] k \<and>
    sigbits_count [0x41, 0x43 :: 8 word] (length [0x41, 0x43 :: 8 word]) = Inr (push_bit k (drop_bit k 0x41), 8 - k)"
proof -
  have "[0x41, 0x43 :: 8 word] \<noteq> []" by simp
  from common_bits_are_maximal [OF this] show ?thesis by (simp only: list.sel len_num1 len_bit0 One_nat_def) simp
qed


lemma unique_bits_unique:
  assumes "unique_bits bs k" "unique_bits bs j" shows "k = j"
  using assms unfolding unique_bits_def by (metis linorder_neqE_nat)

lemma offset_wraps: "(i * k) mod 256 = (j * k) mod 256 \<Longrightarrow> k \<le> 8 \<Longrightarrow>
  (word_of_int (int i * uint (word_of_nat k :: 8 word)) :: 8 word) =
  word_of_int (int j * uint (word_of_nat k :: 8 word))"
proof -
  assume k: "k \<le> 8" and m: "(i * k) mod 256 = (j * k) mod 256"
  have "uint (word_of_nat k :: 8 word) = int k" using k by (simp add: unsigned_of_nat take_bit_eq_mod)
  moreover have "(int i * int k) mod 256 = (int j * int k) mod 256"
    using arg_cong [OF m, of int] by (simp add: zmod_int)
  ultimately show ?thesis by (simp only: word_of_int_eq_iff take_bit_eq_mod) simp
qed

lemma words_of_octets: "words_of bs = (bs :: 8 word list)"
proof -
  have "(words_of bs :: 8 word list) = map word_of_bytes (map (\<lambda>b. [b :: byte]) bs)"
    by (rule nth_equalityI) (simp_all add: words_of_def elems_def word_size_def take_Suc hd_drop_conv_nth)
  also have "\<dots> = bs" by (simp add: word_of_bytes_def map_idI)
  finally show ?thesis .
qed

text \<open>
  C36: Random access into an 8-bit significant-bits array reads the wrong point once the bit offset passes
  255, because the offset is kept in a \<open>uint8_t\<close>: reading point \<open>i\<close> gives the value of the point
  \<open>j\<close> whose offset is that of \<open>i\<close> modulo 256.
\<close>

theorem sigbits_random_access_wraps:
  assumes p: "plain pcb" "0 < pb_npoints pcb" "pb_npoints pcb * 8 < 2 ^ 32"
    and t: "isize (pb_interpretation pcb) = 1"
    and u: "unique_bits (words_of (pb_bytes pcb) :: 8 word list) k"
    and j: "j < pb_npoints pcb" "j * k < 256" "(i * k) mod 256 = j * k"
  shows "\<exists>e. pc_bytes_sigbits_encode pcb = Inr e \<and> pc_bytes_sigbits_to_ptr e (int i) = Inr (vals pcb ! j)"
proof -
  have n: "pb_npoints pcb * (8 * isize (pb_interpretation pcb)) < 2 ^ 32" using p t by simp
  obtain e k' where e: "pc_bytes_sigbits_encode pcb = Inr e" and s: "sb_encodes pcb k' e"
    by (rule sigbits_encode_ok [OF p(1,2) n])
  have a: "sb_array TYPE(8) pcb k' e" using s t by (simp add: sb_encodes_def Let_def)
  then obtain c where pk: "packed (words_of (pb_bytes e) :: 8 word list) k' c (words_of (pb_bytes pcb))"
    and "unique_bits (words_of (pb_bytes pcb) :: 8 word list) k'"
    unfolding sb_array_def Let_def by blast
  then have k: "k' = k" using u unique_bits_unique by blast
  have f: "pb_interpretation e = pb_interpretation pcb" using sb_encodes_fields [OF s] by simp
  have w: "(words_of (pb_bytes e) :: 8 word list) ! 0 = word_of_nat k" "k \<le> 8"
    "3 \<le> length (words_of (pb_bytes e) :: 8 word list)"
    using pk k unfolding packed_def by simp_all
  have "sigbits_get (words_of (pb_bytes e) :: 8 word list) (int i) = sigbits_get (words_of (pb_bytes e)) (int j)"
    using offset_wraps [of i k j] w j by (simp add: sigbits_get_def rdx_def)
  moreover have "pc_bytes_sigbits_to_ptr e (int j) = Inr (vals pcb ! j)"
    by (rule sigbits_to_ptr_ok [OF p(1) s j(1)]) (use j k t in simp)
  moreover have "known_interp (pb_interpretation pcb)" using p(1) by (simp add: plain_def)
  ultimately have "pc_bytes_sigbits_to_ptr e (int i) = Inr (vals pcb ! j)"
    using t f by (simp add: pc_bytes_sigbits_to_ptr_def pc_bytes_sigbits_to_ptr_8_def)
  then show ?thesis using e by blast
qed

definition wide_octets :: PCBYTES where
  "wide_octets = \<lparr>pb_size = 33, pb_npoints = 33, pb_interpretation = PC_UINT8, pb_compression = PC_DIM_NONE,
     pb_readonly = PC_FALSE, pb_bytes = replicate 32 255 @ [0]\<rparr>"

lemma wide_octets_facts: "plain wide_octets" "vals wide_octets ! 0 = [255]" "vals wide_octets ! 32 = [0]"
  by (simp_all add: plain_def wide_octets_def known_interp_def vals_def elems_def nth_append)

theorem sigbits_random_access_wraps_witness:
  "\<exists>e. pc_bytes_sigbits_encode wide_octets = Inr e \<and> pc_bytes_sigbits_to_ptr e 32 = Inr [255] \<and>
     vals wide_octets ! 32 = [0]"
proof -
  have "unique_bits (words_of (pb_bytes wide_octets) :: 8 word list) 8"
  proof -
    have s: "set (words_of (pb_bytes wide_octets) :: 8 word list) = {255, 0}"
      by (simp add: words_of_octets wide_octets_def insert_commute)
    have "drop_bit j (255 :: 8 word) \<noteq> drop_bit j 0" if "j < 8" for j
    proof -
      have "bit (drop_bit j (255 :: 8 word)) 0"
        using that by (auto simp: bit_drop_bit_eq eval_nat_numeral less_Suc_eq)
      then show ?thesis by auto
    qed
    moreover have "drop_bit 8 x = 0" for x :: "8 word" by (rule bit_word_eqI) (simp add: bit_drop_bit_eq bit_imp_le_length)
    ultimately show ?thesis unfolding unique_bits_def s by auto
  qed
  from sigbits_random_access_wraps [OF wide_octets_facts(1) _ _ _ this, of 0 32] show ?thesis
    using wide_octets_facts(2,3) by (simp add: wide_octets_def)
qed

end
