(* ===== verification/PC_Bytes.thy ===== *)
theory PC_Bytes
  imports PC_Bytes_RLE PC_Bytes_Sigbits
begin

text \<open>
  The rest of lib/pc_bytes.c, and the bitmap of lib/pc_filter.c: dispatch on the compression of an
  array, the serialised form, extremes, filtering and random access.

  zlib is a parameter (\<open>zlib\<close>): what one call of \<open>deflate\<close> or \<open>inflate\<close> with
  \<open>Z_FINISH\<close> writes for an input and an output capacity. The code looks at no return code other
  than \<open>Z_STREAM_ERROR\<close>, which a correctly initialised stream does not return.
\<close>

section \<open>zlib\<close>

record zlib =
  z_deflate :: "byte list \<Rightarrow> nat \<Rightarrow> byte list"
  z_inflate :: "byte list \<Rightarrow> nat \<Rightarrow> byte list"

text \<open>
  The documented behaviour the code relies on: \<open>deflate\<close> writes at most the capacity; when it has
  not used all of it, the stream is complete, and inflating it into a buffer of the original size
  gives the original bytes.
\<close>

definition zlib_works :: "zlib \<Rightarrow> bool" where
  "zlib_works z = (\<forall>bs cap. length (z_deflate z bs cap) \<le> cap \<and>
     (length (z_deflate z bs cap) < cap \<longrightarrow> z_inflate z (z_deflate z bs cap) (length bs) = bs))"

text \<open>
  The stream keeps the input length and the output capacity in 32 bits (\<open>avail_in\<close> and \<open>avail_out\<close> are of type
  \<open>uInt\<close>), while the buffers are sized with \<open>size_t\<close>.
\<close>

definition pc_bytes_zlib_encode :: "zlib \<Rightarrow> PCBYTES \<Rightarrow> PCBYTES res" where
  "pc_bytes_zlib_encode z pcb =
     bindE (rd (pb_bytes pcb) 0 (pb_size pcb mod 2 ^ 32)) (\<lambda>input.
     let bufsize = 4 * pb_size pcb mod 2 ^ 64; buf = z_deflate z input (bufsize mod 2 ^ 32)
     in Inr (pcb\<lparr>pb_size := length buf, pb_bytes := buf, pb_compression := PC_DIM_ZLIB,
                 pb_readonly := PC_FALSE\<rparr>))"

definition pc_bytes_zlib_decode :: "zlib \<Rightarrow> PCBYTES \<Rightarrow> PCBYTES res" where
  "pc_bytes_zlib_decode z pcb =
     bindE (pc_interpretation_size (pb_interpretation pcb)) (\<lambda>sz.
     bindE (rd (pb_bytes pcb) 0 (pb_size pcb mod 2 ^ 32)) (\<lambda>input.
     let size_out = sz * pb_npoints pcb mod 2 ^ 64; avail_out = size_out mod 2 ^ 32; out = take avail_out (z_inflate z input avail_out)
     in Inr (pcb\<lparr>pb_size := size_out, pb_bytes := out @ replicate (size_out - length out) 0,
                 pb_readonly := PC_FALSE, pb_compression := PC_DIM_NONE\<rparr>)))"

section \<open>Dispatch\<close>

definition pc_bytes_encode :: "zlib \<Rightarrow> PCBYTES \<Rightarrow> nat \<Rightarrow> PCBYTES res" where
  "pc_bytes_encode z pcb compression =
     (if compression = PC_DIM_RLE then pc_bytes_run_length_encode pcb
      else if compression = PC_DIM_SIGBITS then pc_bytes_sigbits_encode pcb
      else if compression = PC_DIM_ZLIB then pc_bytes_zlib_encode z pcb
      else if compression = PC_DIM_NONE then pc_bytes_clone pcb
      else Inl (PcError ''pc_bytes_encode: Uh oh''))"

definition pc_bytes_decode :: "zlib \<Rightarrow> PCBYTES \<Rightarrow> PCBYTES res" where
  "pc_bytes_decode z epcb =
     (if pb_compression epcb = PC_DIM_RLE then pc_bytes_run_length_decode epcb
      else if pb_compression epcb = PC_DIM_SIGBITS then pc_bytes_sigbits_decode epcb
      else if pb_compression epcb = PC_DIM_ZLIB then pc_bytes_zlib_decode z epcb
      else if pb_compression epcb = PC_DIM_NONE then pc_bytes_clone epcb
      else Inl (PcError ''pc_bytes_decode: Uh oh''))"

definition pc_bytes_flip_endian :: "PCBYTES \<Rightarrow> PCBYTES res" where
  "pc_bytes_flip_endian pcb =
     (if pb_readonly pcb \<noteq> PC_FALSE then Inl (PcError ''pc_bytes_flip_endian: cannot flip readonly bytes'')
      else if pb_compression pcb = PC_DIM_NONE then Inr pcb
      else if pb_compression pcb = PC_DIM_SIGBITS then pc_bytes_sigbits_flip_endian pcb
      else if pb_compression pcb = PC_DIM_ZLIB then Inr pcb
      else if pb_compression pcb = PC_DIM_RLE then pc_bytes_run_length_flip_endian pcb
      else Inl (PcError ''pc_bytes_flip_endian: unknown compression''))"

definition pc_bytes_uncompressed_to_ptr :: "PCBYTES \<Rightarrow> int \<Rightarrow> byte list res" where
  "pc_bytes_uncompressed_to_ptr pcb n =
     bindE (pc_interpretation_size (pb_interpretation pcb)) (\<lambda>sz.
     if n < 0 then Inl OutOfBounds else rd (pb_bytes pcb) (nat n * sz) sz)"

definition pc_bytes_zlib_to_ptr :: "zlib \<Rightarrow> PCBYTES \<Rightarrow> int \<Rightarrow> byte list res" where
  "pc_bytes_zlib_to_ptr z pcb n =
     bindE (pc_bytes_decode z pcb) (\<lambda>dpcb. pc_bytes_uncompressed_to_ptr dpcb n)"

definition pc_bytes_to_ptr :: "zlib \<Rightarrow> PCBYTES \<Rightarrow> int \<Rightarrow> byte list res" where
  "pc_bytes_to_ptr z pcb n =
     (if pb_compression pcb = PC_DIM_RLE then pc_bytes_run_length_to_ptr pcb n
      else if pb_compression pcb = PC_DIM_SIGBITS then pc_bytes_sigbits_to_ptr pcb n
      else if pb_compression pcb = PC_DIM_ZLIB then pc_bytes_zlib_to_ptr z pcb n
      else if pb_compression pcb = PC_DIM_NONE then pc_bytes_uncompressed_to_ptr pcb n
      else Inl (PcError ''pc_bytes_to_ptr: Uh oh''))"

section \<open>Serialised form\<close>

definition pc_bytes_serialized_size :: "PCBYTES \<Rightarrow> nat" where
  "pc_bytes_serialized_size pcb = 1 + 4 + pb_size pcb"

text \<open>Writes at offset \<open>off\<close> of \<open>buf\<close>; returns the buffer and the number of bytes written.\<close>

definition pc_bytes_serialize :: "PCBYTES \<Rightarrow> byte list \<Rightarrow> nat \<Rightarrow> (byte list \<times> nat) res" where
  "pc_bytes_serialize pcb buf off =
     (let pcbsize = word_of_nat (pb_size pcb) :: 32 word in
     bindE (wr buf off [word_of_nat (pb_compression pcb)]) (\<lambda>buf.
     bindE (wr buf (off + 1) (bytes_of_word pcbsize)) (\<lambda>buf.
     bindE (rd (pb_bytes pcb) 0 (pb_size pcb)) (\<lambda>b.
     bindE (wr buf (off + 1 + 4) b) (\<lambda>buf.
     Inr (buf, nat ((1 + 4 + sint pcbsize) mod 2 ^ 64)))))))"

text \<open>
  \<open>pcb\<close> is the structure that is filled in: its interpretation and number of points are still the
  old ones when the bytes are flipped. A read-only array is a window of the input.
\<close>

definition pc_bytes_deserialize ::
  "byte list \<Rightarrow> nat \<Rightarrow> PCDIMENSION \<Rightarrow> PCBYTES \<Rightarrow> bool \<Rightarrow> bool \<Rightarrow> PCBYTES res" where
  "pc_bytes_deserialize buf off dim pcb readonly flip_endian =
     bindE (rd buf off 1) (\<lambda>c.
     bindE (wkb_get_int32 buf (off + 1) flip_endian) (\<lambda>sz.
     let pcb = pcb\<lparr>pb_compression := unat (hd c), pb_size := nat (sint sz mod 2 ^ 64),
                   pb_readonly := (if readonly then PC_TRUE else PC_FALSE)\<rparr> in
     if readonly \<and> flip_endian
     then Inl (PcError ''pc_bytes_deserialize: cannot create a read-only buffer on byteswapped input'')
     else bindE (if readonly then Inr (pcb\<lparr>pb_bytes := take (pb_size pcb) (drop (off + 5) buf)\<rparr>)
                 else bindE (rd buf (off + 5) (pb_size pcb)) (\<lambda>b.
                      let pcb = pcb\<lparr>pb_bytes := b\<rparr>
                      in if flip_endian then pc_bytes_flip_endian pcb else Inr pcb)) (\<lambda>pcb.
     Inr (pcb\<lparr>pb_interpretation := dim_interpretation dim\<rparr>))))"

section \<open>Extremes\<close>

text \<open>State: minimum, maximum, sum.\<close>

definition minmax_add :: "double \<Rightarrow> double \<Rightarrow> double \<times> double \<times> double \<Rightarrow> double \<times> double \<times> double" where
  "minmax_add d s st = (case st of (mn, mx, sm) \<Rightarrow>
     (if d_lt d mn then d else mn, if d_lt mx d then d else mx, d_add sm s))"

definition minmax_result :: "nat \<Rightarrow> double \<times> double \<times> double \<Rightarrow> double \<times> double \<times> double" where
  "minmax_result npoints st = (case st of (mn, mx, sm) \<Rightarrow> (mn, mx, d_div sm (d_of_int (int npoints))))"

definition pc_bytes_uncompressed_minmax :: "PCBYTES \<Rightarrow> (double \<times> double \<times> double) res" where
  "pc_bytes_uncompressed_minmax pcb =
     bindE (pc_interpretation_size (pb_interpretation pcb)) (\<lambda>element_size.
     bindE (foldE (\<lambda>i st.
              bindE (pc_double_from_ptr (pb_bytes pcb) (i * element_size) (pb_interpretation pcb)) (\<lambda>d.
              Inr (minmax_add d d st)))
            [0..<pb_npoints pcb] (FLT_MAX, minus_FLT_MAX, d_zero)) (\<lambda>st.
     Inr (minmax_result (pb_npoints pcb) st)))"

function rle_minmax ::
  "byte list \<Rightarrow> nat \<Rightarrow> nat \<Rightarrow> nat \<Rightarrow> nat \<Rightarrow> double \<times> double \<times> double \<Rightarrow> (double \<times> double \<times> double) res" where
  "rle_minmax bytes end sz interp ptr st =
     (if ptr < end then bindE (rd bytes ptr 1) (\<lambda>c.
        bindE (pc_double_from_ptr bytes (ptr + 1) interp) (\<lambda>d.
        rle_minmax bytes end sz interp (ptr + 1 + sz)
          (minmax_add d (d_mul (d_of_int (uint (hd c))) d) st)))
      else Inr st)"
  by pat_completeness auto
termination rle_minmax by (relation "measure (\<lambda>(bytes, end, sz, interp, ptr, st). end - ptr)") auto

declare rle_minmax.simps [simp del]

definition pc_bytes_run_length_minmax :: "PCBYTES \<Rightarrow> (double \<times> double \<times> double) res" where
  "pc_bytes_run_length_minmax pcb =
     bindE (pc_interpretation_size (pb_interpretation pcb)) (\<lambda>element_size.
     bindE (rle_minmax (pb_bytes pcb) (pb_size pcb) element_size (pb_interpretation pcb) 0
              (FLT_MAX, minus_FLT_MAX, d_zero)) (\<lambda>st.
     Inr (minmax_result (pb_npoints pcb) st)))"

definition pc_bytes_zlib_minmax :: "zlib \<Rightarrow> PCBYTES \<Rightarrow> (double \<times> double \<times> double) res" where
  "pc_bytes_zlib_minmax z pcb = bindE (pc_bytes_zlib_decode z pcb) pc_bytes_uncompressed_minmax"

definition pc_bytes_sigbits_minmax :: "PCBYTES \<Rightarrow> (double \<times> double \<times> double) res" where
  "pc_bytes_sigbits_minmax pcb = bindE (pc_bytes_sigbits_decode pcb) pc_bytes_uncompressed_minmax"

definition pc_bytes_minmax :: "zlib \<Rightarrow> PCBYTES \<Rightarrow> (double \<times> double \<times> double) res" where
  "pc_bytes_minmax z pcb =
     (if pb_compression pcb = PC_DIM_NONE then pc_bytes_uncompressed_minmax pcb
      else if pb_compression pcb = PC_DIM_SIGBITS then pc_bytes_sigbits_minmax pcb
      else if pb_compression pcb = PC_DIM_ZLIB then pc_bytes_zlib_minmax z pcb
      else if pb_compression pcb = PC_DIM_RLE then pc_bytes_run_length_minmax pcb
      else Inl (PcError ''pc_bytes_minmax: unknown compression''))"

section \<open>Bitmaps\<close>

datatype PC_FILTERTYPE = PC_GT | PC_LT | PC_EQUAL | PC_BETWEEN

record PCBITMAP =
  bm_nset :: nat
  bm_npoints :: nat
  bm_map :: "byte list"

definition pc_bitmap_new :: "nat \<Rightarrow> PCBITMAP" where
  "pc_bitmap_new npoints = \<lparr>bm_nset = 0, bm_npoints = npoints, bm_map = pcalloc npoints\<rparr>"

definition pc_bitmap_set :: "PCBITMAP \<Rightarrow> nat \<Rightarrow> bool \<Rightarrow> PCBITMAP res" where
  "pc_bitmap_set bm i val =
     bindE (rdx (bm_map bm) i) (\<lambda>curval.
     let bm = (if val \<and> curval = 0 then bm\<lparr>bm_nset := bm_nset bm + 1\<rparr> else bm);
         bm = (if \<not> val \<and> curval \<noteq> 0 then bm\<lparr>bm_nset := bm_nset bm - 1\<rparr> else bm)
     in bindE (wrx (bm_map bm) i (if val then 1 else 0)) (\<lambda>m. Inr (bm\<lparr>bm_map := m\<rparr>)))"

definition filter_cond :: "PC_FILTERTYPE \<Rightarrow> double \<Rightarrow> double \<Rightarrow> double \<Rightarrow> bool" where
  "filter_cond ft d val1 val2 = (case ft of
       PC_GT \<Rightarrow> d_lt val1 d
     | PC_LT \<Rightarrow> d_lt d val1
     | PC_EQUAL \<Rightarrow> d_eq d val1
     | PC_BETWEEN \<Rightarrow> d_lt val1 d \<and> d_lt d val2)"

definition pc_bitmap_filter ::
  "PCBITMAP \<Rightarrow> PC_FILTERTYPE \<Rightarrow> nat \<Rightarrow> double \<Rightarrow> double \<Rightarrow> double \<Rightarrow> PCBITMAP res" where
  "pc_bitmap_filter bm ft i d val1 val2 = pc_bitmap_set bm i (filter_cond ft d val1 val2)"

definition pc_bytes_uncompressed_bitmap ::
  "PCBYTES \<Rightarrow> PC_FILTERTYPE \<Rightarrow> double \<Rightarrow> double \<Rightarrow> PCBITMAP res" where
  "pc_bytes_uncompressed_bitmap pcb ft val1 val2 =
     bindE (pc_interpretation_size (pb_interpretation pcb)) (\<lambda>element_size.
     foldE (\<lambda>i bm.
         bindE (pc_double_from_ptr (pb_bytes pcb) (i * element_size) (pb_interpretation pcb)) (\<lambda>d.
         pc_bitmap_filter bm ft i d val1 val2))
       [0..<pb_npoints pcb] (pc_bitmap_new (pb_npoints pcb)))"

function rle_bitmap ::
  "byte list \<Rightarrow> nat \<Rightarrow> nat \<Rightarrow> nat \<Rightarrow> PC_FILTERTYPE \<Rightarrow> double \<Rightarrow> double \<Rightarrow> nat \<Rightarrow> nat \<Rightarrow> PCBITMAP \<Rightarrow> PCBITMAP res" where
  "rle_bitmap bytes end sz interp ft val1 val2 ptr i bm =
     (if ptr < end then bindE (rd bytes ptr 1) (\<lambda>c. let run = i + unat (hd c) in
        bindE (pc_double_from_ptr bytes (ptr + 1) interp) (\<lambda>d.
        bindE (foldE (\<lambda>i bm. pc_bitmap_filter bm ft i d val1 val2) [i..<run] bm) (\<lambda>bm.
        rle_bitmap bytes end sz interp ft val1 val2 (ptr + 1 + sz) run bm)))
      else Inr bm)"
  by pat_completeness auto
termination rle_bitmap
  by (relation "measure (\<lambda>(bytes, end, sz, interp, ft, val1, val2, ptr, i, bm). end - ptr)") auto

declare rle_bitmap.simps [simp del]

definition pc_bytes_run_length_bitmap ::
  "PCBYTES \<Rightarrow> PC_FILTERTYPE \<Rightarrow> double \<Rightarrow> double \<Rightarrow> PCBITMAP res" where
  "pc_bytes_run_length_bitmap pcb ft val1 val2 =
     bindE (pc_interpretation_size (pb_interpretation pcb)) (\<lambda>element_size.
     rle_bitmap (pb_bytes pcb) (pb_size pcb) element_size (pb_interpretation pcb) ft val1 val2 0 0
       (pc_bitmap_new (pb_npoints pcb)))"

definition pc_bytes_bitmap ::
  "zlib \<Rightarrow> PCBYTES \<Rightarrow> PC_FILTERTYPE \<Rightarrow> double \<Rightarrow> double \<Rightarrow> PCBITMAP res" where
  "pc_bytes_bitmap z pcb ft val1 val2 =
     (if pb_compression pcb = PC_DIM_NONE then pc_bytes_uncompressed_bitmap pcb ft val1 val2
      else if pb_compression pcb = PC_DIM_SIGBITS \<or> pb_compression pcb = PC_DIM_ZLIB
      then bindE (pc_bytes_decode z pcb) (\<lambda>dpcb. pc_bytes_uncompressed_bitmap dpcb ft val1 val2)
      else if pb_compression pcb = PC_DIM_RLE then pc_bytes_run_length_bitmap pcb ft val1 val2
      else Inl (PcError ''pc_bytes_bitmap: unknown compression''))"

section \<open>Filtering\<close>

record PCDOUBLESTAT =
  ds_min :: double
  ds_max :: double
  ds_sum :: double

definition stat_add :: "double \<Rightarrow> PCDOUBLESTAT \<Rightarrow> PCDOUBLESTAT" where
  "stat_add d s = (let s = (if d_lt d (ds_min s) then s\<lparr>ds_min := d\<rparr> else s);
      s = (if d_lt (ds_max s) d then s\<lparr>ds_max := d\<rparr> else s)
    in s\<lparr>ds_sum := d_add (ds_sum s) d\<rparr>)"

text \<open>\<open>stats\<close> may be the null pointer, then the value is not read.\<close>

definition stat_update ::
  "byte list \<Rightarrow> nat \<Rightarrow> nat \<Rightarrow> PCDOUBLESTAT option \<Rightarrow> PCDOUBLESTAT option res" where
  "stat_update buf off interp stats = (case stats of None \<Rightarrow> Inr None
     | Some s \<Rightarrow> bindE (pc_double_from_ptr buf off interp) (\<lambda>d. Inr (Some (stat_add d s))))"

definition pc_bytes_uncompressed_filter ::
  "PCBYTES \<Rightarrow> PCBITMAP \<Rightarrow> PCDOUBLESTAT option \<Rightarrow> (PCBYTES \<times> PCDOUBLESTAT option) res" where
  "pc_bytes_uncompressed_filter pcb bm stats =
     bindE (pc_bytes_clone pcb) (\<lambda>fpcb.
     bindE (pc_interpretation_size (pb_interpretation pcb)) (\<lambda>sz.
     bindE (foldE (\<lambda>i (fbytes, fbuf, j, stats).
              bindE (rdx (bm_map bm) i) (\<lambda>g.
              if g = 0 then Inr (fbytes, fbuf, j, stats)
              else bindE (stat_update (pb_bytes pcb) (i * sz) (pb_interpretation pcb) stats) (\<lambda>stats.
                   bindE (rd (pb_bytes pcb) (i * sz) sz) (\<lambda>v.
                   bindE (wr fbytes fbuf v) (\<lambda>fbytes.
                   Inr (fbytes, fbuf + sz, j + 1, stats))))))
            [0..<pb_npoints pcb] (pb_bytes fpcb, 0, 0, stats)) (\<lambda>(fbytes, fbuf, j, stats).
     Inr (fpcb\<lparr>pb_bytes := fbytes, pb_size := fbuf, pb_npoints := j\<rparr>, stats))))"

text \<open>State: filtered bytes, write position, point index, number of kept points, statistics.\<close>

type_synonym rle_filter_state = "byte list \<times> nat \<times> nat \<times> nat \<times> PCDOUBLESTAT option"

function rle_filter ::
  "byte list \<Rightarrow> nat \<Rightarrow> nat \<Rightarrow> nat \<Rightarrow> PCBITMAP \<Rightarrow> nat \<Rightarrow> rle_filter_state \<Rightarrow> rle_filter_state res" where
  "rle_filter bytes end sz interp bm ptr st =
     (if ptr < end then bindE (rd bytes ptr 1) (\<lambda>c. case st of (fbytes, fptr, i, npoints, stats) \<Rightarrow>
        bindE (foldE (\<lambda>j fcount. bindE (rdx (bm_map bm) j) (\<lambda>g.
                 Inr (if g \<noteq> 0 then fcount + 1 else fcount)))
               [i..<i + unat (hd c)] (0 :: byte)) (\<lambda>fcount.
        bindE (if fcount = 0 then Inr (fbytes, fptr, npoints, stats)
               else bindE (wr fbytes fptr [fcount]) (\<lambda>fbytes.
                    bindE (rd bytes (ptr + 1) sz) (\<lambda>v.
                    bindE (wr fbytes (fptr + 1) v) (\<lambda>fbytes.
                    bindE (stat_update bytes (ptr + 1) interp stats) (\<lambda>stats.
                    Inr (fbytes, fptr + 1 + sz, npoints + unat fcount, stats))))))
          (\<lambda>(fbytes, fptr, npoints, stats).
        rle_filter bytes end sz interp bm (ptr + sz + 1) (fbytes, fptr, i + unat (hd c), npoints, stats))))
      else Inr st)"
  by pat_completeness auto
termination rle_filter by (relation "measure (\<lambda>(bytes, end, sz, interp, bm, ptr, st). end - ptr)") auto

declare rle_filter.simps [simp del]

definition pc_bytes_run_length_filter ::
  "PCBYTES \<Rightarrow> PCBITMAP \<Rightarrow> PCDOUBLESTAT option \<Rightarrow> (PCBYTES \<times> PCDOUBLESTAT option) res" where
  "pc_bytes_run_length_filter pcb bm stats =
     bindE (pc_bytes_clone pcb) (\<lambda>fpcb.
     bindE (pc_interpretation_size (pb_interpretation pcb)) (\<lambda>sz.
     bindE (rle_filter (pb_bytes pcb) (pb_size pcb) sz (pb_interpretation pcb) bm 0
              (pb_bytes fpcb, 0, 0, 0, stats)) (\<lambda>(fbytes, fptr, _, npoints, stats).
     Inr (fpcb\<lparr>pb_bytes := fbytes, pb_size := fptr, pb_npoints := npoints\<rparr>, stats))))"

definition pc_bytes_filter ::
  "zlib \<Rightarrow> PCBYTES \<Rightarrow> PCBITMAP \<Rightarrow> PCDOUBLESTAT option \<Rightarrow> (PCBYTES \<times> PCDOUBLESTAT option) res" where
  "pc_bytes_filter z pcb bm stats =
     (if pb_compression pcb = PC_DIM_NONE then pc_bytes_uncompressed_filter pcb bm stats
      else if pb_compression pcb = PC_DIM_RLE then pc_bytes_run_length_filter pcb bm stats
      else if pb_compression pcb = PC_DIM_SIGBITS \<or> pb_compression pcb = PC_DIM_ZLIB
      then bindE (pc_bytes_decode z pcb) (\<lambda>dpcb.
           bindE (pc_bytes_uncompressed_filter dpcb bm stats) (\<lambda>(fpcb, stats).
           bindE (pc_bytes_encode z fpcb (pb_compression pcb)) (\<lambda>efpcb. Inr (efpcb, stats))))
      else Inl (PcError ''pc_bytes_filter: unknown compression''))"

end
