(* ===== verification/PC_Bounds.thy ===== *)
theory PC_Bounds
  imports PC_Point PC_Bytes
begin

text \<open>
  Bounding boxes (\<open>PCBOUNDS\<close>) and the geometry of their diagonal, from lib/pc_util.c; the statistics
  of lib/pc_stats.c that do not need a patch.
\<close>

section \<open>Bounding boxes\<close>

record PCBOUNDS =
  b_xmin :: double
  b_xmax :: double
  b_ymin :: double
  b_ymax :: double

definition pc_bounds_intersects :: "PCBOUNDS \<Rightarrow> PCBOUNDS \<Rightarrow> bool" where
  "pc_bounds_intersects b1 b2 =
     (\<not> (d_lt (b_xmax b2) (b_xmin b1) \<or> d_lt (b_xmax b1) (b_xmin b2) \<or>
         d_lt (b_ymax b2) (b_ymin b1) \<or> d_lt (b_ymax b1) (b_ymin b2)))"

definition pc_bounds_init :: PCBOUNDS where
  "pc_bounds_init = \<lparr>b_xmin = DBL_MAX, b_xmax = minus_DBL_MAX, b_ymin = DBL_MAX, b_ymax = minus_DBL_MAX\<rparr>"

definition pc_bounds_merge :: "PCBOUNDS \<Rightarrow> PCBOUNDS \<Rightarrow> PCBOUNDS" where
  "pc_bounds_merge b1 b2 =
     (let b1 = (if d_lt (b_xmin b2) (b_xmin b1) then b1\<lparr>b_xmin := b_xmin b2\<rparr> else b1);
          b1 = (if d_lt (b_ymin b2) (b_ymin b1) then b1\<lparr>b_ymin := b_ymin b2\<rparr> else b1);
          b1 = (if d_lt (b_xmax b1) (b_xmax b2) then b1\<lparr>b_xmax := b_xmax b2\<rparr> else b1);
          b1 = (if d_lt (b_ymax b1) (b_ymax b2) then b1\<lparr>b_ymax := b_ymax b2\<rparr> else b1)
      in b1)"

text \<open>The update that the extent of a patch makes for one point.\<close>

definition bounds_add :: "double \<Rightarrow> double \<Rightarrow> PCBOUNDS \<Rightarrow> PCBOUNDS" where
  "bounds_add x y b =
     (let b = (if d_lt x (b_xmin b) then b\<lparr>b_xmin := x\<rparr> else b);
          b = (if d_lt y (b_ymin b) then b\<lparr>b_ymin := y\<rparr> else b);
          b = (if d_lt (b_xmax b) x then b\<lparr>b_xmax := x\<rparr> else b);
          b = (if d_lt (b_ymax b) y then b\<lparr>b_ymax := y\<rparr> else b)
      in b)"

definition pc_bounding_diagonal_wkb_from_bounds :: "PCBOUNDS \<Rightarrow> PCSCHEMA \<Rightarrow> (byte list \<times> nat) res" where
  "pc_bounding_diagonal_wkb_from_bounds bounds schema =
     (let wkbtype = 2; sz = 1 + 4 + 4 + 2 * 2 * 8;
          (wkbtype, sz) = (if sc_srid schema \<noteq> 0 then (wkbtype OR srid_mask, sz + 4) else (wkbtype, sz)) in
     bindE (wkb_set_char (pcalloc sz) 0 machine_endian) (\<lambda>(wkb, ptr).
     bindE (wkb_set_uint32 wkb ptr wkbtype) (\<lambda>(wkb, ptr).
     bindE (if sc_srid schema \<noteq> 0 then wkb_set_uint32 wkb ptr (word_of_nat (sc_srid schema)) else Inr (wkb, ptr))
       (\<lambda>(wkb, ptr).
     bindE (wkb_set_uint32 wkb ptr 2) (\<lambda>(wkb, ptr).
     bindE (wkb_set_double wkb ptr (b_xmin bounds)) (\<lambda>(wkb, ptr).
     bindE (wkb_set_double wkb ptr (b_ymin bounds)) (\<lambda>(wkb, ptr).
     bindE (wkb_set_double wkb ptr (b_xmax bounds)) (\<lambda>(wkb, ptr).
     bindE (wkb_set_double wkb ptr (b_ymax bounds)) (\<lambda>(wkb, ptr).
     Inr (wkb, sz))))))))))"

section \<open>Statistics\<close>

record PCDOUBLESTATS =
  dss_npoints :: nat
  dss_dims :: "PCDOUBLESTAT list"

record PCSTATS =
  st_min :: PCPOINT
  st_max :: PCPOINT
  st_avg :: PCPOINT

definition pc_dstats_new :: "nat \<Rightarrow> PCDOUBLESTATS" where
  "pc_dstats_new ndims = \<lparr>dss_npoints = 0,
     dss_dims = replicate ndims \<lparr>ds_min = DBL_MAX, ds_max = minus_DBL_MAX, ds_sum = d_zero\<rparr>\<rparr>"

definition pc_stats_new_from_data :: "PCSCHEMA \<Rightarrow> byte list \<Rightarrow> byte list \<Rightarrow> byte list \<Rightarrow> PCSTATS" where
  "pc_stats_new_from_data schema mindata maxdata avgdata =
     \<lparr>st_min = \<lparr>pt_readonly = PC_TRUE, pt_schema = schema, pt_data = mindata\<rparr>,
      st_max = \<lparr>pt_readonly = PC_TRUE, pt_schema = schema, pt_data = maxdata\<rparr>,
      st_avg = \<lparr>pt_readonly = PC_TRUE, pt_schema = schema, pt_data = avgdata\<rparr>\<rparr>"

definition pc_stats_new :: "PCSCHEMA \<Rightarrow> PCSTATS" where
  "pc_stats_new schema =
     (let pt = \<lparr>pt_readonly = PC_FALSE, pt_schema = schema, pt_data = pcalloc (sc_size schema)\<rparr>
      in \<lparr>st_min = pt, st_max = pt, st_avg = pt\<rparr>)"

text \<open>The result of \<open>pc_point_set_double\<close> is not looked at: on failure the point stays as it is.\<close>

definition set_or_keep :: "PCPOINT \<Rightarrow> PCDIMENSION option \<Rightarrow> double \<Rightarrow> PCPOINT res" where
  "set_or_keep pt dim v = bindE (pc_point_set_double pt dim v) (\<lambda>r. Inr (case r of None \<Rightarrow> pt | Some pt \<Rightarrow> pt))"

definition pc_stats_new_from_dstats :: "PCSCHEMA \<Rightarrow> PCDOUBLESTATS \<Rightarrow> PCSTATS res" where
  "pc_stats_new_from_dstats schema dstats =
     foldE (\<lambda>i stats. bindE (rdx (dss_dims dstats) i) (\<lambda>d.
         let dim = deref schema (sc_dims schema ! i) in
         bindE (set_or_keep (st_min stats) dim (ds_min d)) (\<lambda>mn.
         bindE (set_or_keep (st_max stats) dim (ds_max d)) (\<lambda>mx.
         bindE (set_or_keep (st_avg stats) dim (d_div (ds_sum d) (d_of_int (int (dss_npoints dstats))))) (\<lambda>av.
         Inr \<lparr>st_min = mn, st_max = mx, st_avg = av\<rparr>)))))
       [0..<sc_ndims schema] (pc_stats_new schema)"

definition clone_stat :: "PCPOINT \<Rightarrow> PCPOINT res" where
  "clone_stat pt = bindE (rd (pt_data pt) 0 (sc_size (pt_schema pt))) (\<lambda>b.
     Inr \<lparr>pt_readonly = PC_FALSE, pt_schema = pt_schema pt, pt_data = b\<rparr>)"

definition pc_stats_clone :: "PCSTATS option \<Rightarrow> PCSTATS option res" where
  "pc_stats_clone stats = (case stats of None \<Rightarrow> Inr None
     | Some s \<Rightarrow> bindE (clone_stat (st_min s)) (\<lambda>mn. bindE (clone_stat (st_max s)) (\<lambda>mx.
         bindE (clone_stat (st_avg s)) (\<lambda>av. Inr (Some \<lparr>st_min = mn, st_max = mx, st_avg = av\<rparr>)))))"

definition pc_stats_size :: "PCSCHEMA \<Rightarrow> nat" where
  "pc_stats_size schema = 3 * sc_size schema"

text \<open>
  A local \<open>double\<close> that a getter may leave unset is an option; using it while unset is unspecified, and a
  later failing getter leaves the earlier value in it.
\<close>

definition got :: "double option res \<Rightarrow> double option \<Rightarrow> double option res" where
  "got get val = bindE get (\<lambda>r. Inr (case r of None \<Rightarrow> val | Some d \<Rightarrow> Some d))"

definition used :: "double option \<Rightarrow> double res" where
  "used val = (case val of None \<Rightarrow> Inl Unspecified | Some d \<Rightarrow> Inr d)"

definition put_stat :: "PCSCHEMA \<Rightarrow> PCPOINT \<Rightarrow> double option \<times> byte list \<times> nat \<Rightarrow> (double option \<times> byte list \<times> nat) res" where
  "put_stat schema stat st = (case st of (val, wkb, ptr) \<Rightarrow>
     bindE (got (pc_point_get_x stat) val) (\<lambda>val. bindE (used val) (\<lambda>v.
     bindE (wkb_set_double wkb ptr v) (\<lambda>(wkb, ptr).
     bindE (got (pc_point_get_y stat) val) (\<lambda>val. bindE (used val) (\<lambda>v.
     bindE (wkb_set_double wkb ptr v) (\<lambda>(wkb, ptr).
     bindE (if sc_zdim schema \<noteq> None
            then bindE (got (pc_point_get_z stat) val) (\<lambda>val. bindE (used val) (\<lambda>v.
                 bindE (wkb_set_double wkb ptr v) (\<lambda>(wkb, ptr). Inr (val, wkb, ptr))))
            else Inr (val, wkb, ptr)) (\<lambda>(val, wkb, ptr).
     if sc_mdim schema \<noteq> None
     then bindE (got (pc_point_get_m stat) val) (\<lambda>val. bindE (used val) (\<lambda>v.
          bindE (wkb_set_double wkb ptr v) (\<lambda>(wkb, ptr). Inr (val, wkb, ptr))))
     else Inr (val, wkb, ptr)))))))))"

definition pc_bounding_diagonal_wkb_from_stats :: "PCSTATS \<Rightarrow> (byte list \<times> nat) res" where
  "pc_bounding_diagonal_wkb_from_stats stats =
     (let schema = pt_schema (st_min stats);
          wkbtype = 2; sz = 1 + 4 + 4 + 2 * 2 * 8;
          (wkbtype, sz) = (if sc_srid schema \<noteq> 0 then (wkbtype OR srid_mask, sz + 4) else (wkbtype, sz));
          (wkbtype, sz) = (if sc_zdim schema \<noteq> None then (wkbtype OR z_mask, sz + 2 * 8) else (wkbtype, sz));
          (wkbtype, sz) = (if sc_mdim schema \<noteq> None then (wkbtype OR m_mask, sz + 2 * 8) else (wkbtype, sz)) in
     bindE (wkb_set_char (pcalloc sz) 0 machine_endian) (\<lambda>(wkb, ptr).
     bindE (wkb_set_uint32 wkb ptr wkbtype) (\<lambda>(wkb, ptr).
     bindE (if sc_srid schema \<noteq> 0 then wkb_set_uint32 wkb ptr (word_of_nat (sc_srid schema)) else Inr (wkb, ptr))
       (\<lambda>(wkb, ptr).
     bindE (wkb_set_uint32 wkb ptr 2) (\<lambda>(wkb, ptr).
     bindE (put_stat schema (st_min stats) (None, wkb, ptr)) (\<lambda>st.
     bindE (put_stat schema (st_max stats) st) (\<lambda>(val, wkb, ptr).
     Inr (wkb, sz))))))))"

section \<open>Boxes as sets of points\<close>

definition box_ok :: "PCBOUNDS \<Rightarrow> bool" where
  "box_ok b = (\<not> d_isnan (b_xmin b) \<and> \<not> d_isnan (b_xmax b) \<and> \<not> d_isnan (b_ymin b) \<and> \<not> d_isnan (b_ymax b))"

definition in_box :: "double \<Rightarrow> double \<Rightarrow> PCBOUNDS \<Rightarrow> bool" where
  "in_box x y b = (\<not> d_isnan x \<and> \<not> d_isnan y \<and> \<not> d_lt x (b_xmin b) \<and> \<not> d_lt (b_xmax b) x \<and>
     \<not> d_lt y (b_ymin b) \<and> \<not> d_lt (b_ymax b) y)"

lemma not_lt_iff: "\<not> d_isnan a \<Longrightarrow> \<not> d_isnan b \<Longrightarrow> \<not> d_lt a b \<longleftrightarrow> d_key b \<le> d_key a"
  by (auto simp: d_lt_def)

lemma lt_iff: "\<not> d_isnan a \<Longrightarrow> \<not> d_isnan b \<Longrightarrow> d_lt a b \<longleftrightarrow> d_key a < d_key b"
  by (auto simp: d_lt_def)

lemma intersects_iff:
  assumes "box_ok b1" "box_ok b2" "in_box x1 y1 b1" "in_box x2 y2 b2"
  shows "pc_bounds_intersects b1 b2 \<longleftrightarrow> (\<exists>x y. in_box x y b1 \<and> in_box x y b2)"
proof
  assume i: "pc_bounds_intersects b1 b2"
  define x where "x = (if d_lt (b_xmin b1) (b_xmin b2) then b_xmin b2 else b_xmin b1)"
  define y where "y = (if d_lt (b_ymin b1) (b_ymin b2) then b_ymin b2 else b_ymin b1)"
  have "in_box x y b1 \<and> in_box x y b2"
    using assms i unfolding in_box_def box_ok_def pc_bounds_intersects_def x_def y_def
    by (auto simp: lt_iff)
  then show "\<exists>x y. in_box x y b1 \<and> in_box x y b2" by blast
next
  assume "\<exists>x y. in_box x y b1 \<and> in_box x y b2"
  then show "pc_bounds_intersects b1 b2"
    using assms(1,2) unfolding in_box_def box_ok_def pc_bounds_intersects_def by (auto simp: lt_iff)
qed

lemma merge_fields:
  "b_xmin (pc_bounds_merge b1 b2) = (if d_lt (b_xmin b2) (b_xmin b1) then b_xmin b2 else b_xmin b1)"
  "b_ymin (pc_bounds_merge b1 b2) = (if d_lt (b_ymin b2) (b_ymin b1) then b_ymin b2 else b_ymin b1)"
  "b_xmax (pc_bounds_merge b1 b2) = (if d_lt (b_xmax b1) (b_xmax b2) then b_xmax b2 else b_xmax b1)"
  "b_ymax (pc_bounds_merge b1 b2) = (if d_lt (b_ymax b1) (b_ymax b2) then b_ymax b2 else b_ymax b1)"
  by (auto simp: pc_bounds_merge_def Let_def)

lemma add_is_merge: "bounds_add x y b = pc_bounds_merge b \<lparr>b_xmin = x, b_xmax = x, b_ymin = y, b_ymax = y\<rparr>"
  by (simp add: bounds_add_def pc_bounds_merge_def)

text \<open>A box that contains both boxes contains their merge, and only such a box does.\<close>

definition box_le :: "PCBOUNDS \<Rightarrow> PCBOUNDS \<Rightarrow> bool" where
  "box_le a b = (\<not> d_lt (b_xmin a) (b_xmin b) \<and> \<not> d_lt (b_ymin a) (b_ymin b) \<and>
     \<not> d_lt (b_xmax b) (b_xmax a) \<and> \<not> d_lt (b_ymax b) (b_ymax a))"

lemma merge_least:
  assumes "box_ok b1" "box_ok b2" "box_ok c"
  shows "box_le (pc_bounds_merge b1 b2) c \<longleftrightarrow> box_le b1 c \<and> box_le b2 c" "box_ok (pc_bounds_merge b1 b2)"
    "box_le b1 (pc_bounds_merge b1 b2)" "box_le b2 (pc_bounds_merge b1 b2)"
  using assms unfolding box_le_def box_ok_def merge_fields by (auto simp: lt_iff)

section \<open>The diagonal\<close>

definition diagonal_bytes :: "nat \<Rightarrow> double option \<Rightarrow> double option \<Rightarrow> double list \<Rightarrow> byte list" where
  "diagonal_bytes srid z m ds = 1 # bytes_of_word (((2 OR (if srid \<noteq> 0 then srid_mask else 0))
       OR (if z \<noteq> None then z_mask else 0)) OR (if m \<noteq> None then m_mask else 0)) @
     (if srid \<noteq> 0 then bytes_of_word (word_of_nat srid :: 32 word) else []) @
     bytes_of_word (2 :: 32 word) @ concat (map bytes_of_word ds)"

lemma diagonal_from_bounds:
  "pc_bounding_diagonal_wkb_from_bounds b s =
    (let w = diagonal_bytes (sc_srid s) None None [b_xmin b, b_ymin b, b_xmax b, b_ymax b] in Inr (w, length w))"
  by (cases "sc_srid s = 0")
    (simp_all add: pc_bounding_diagonal_wkb_from_bounds_def Let_def pcalloc_def diagonal_bytes_def
      word_size_def wkb_set_char_def wkb_set_uint32_def wkb_set_double_def wr_def)

section \<open>Properties\<close>

text \<open>A box around the origin and one around the point (1, 1), with the corner (1, 1) in common.\<close>

definition demo_box :: "int \<Rightarrow> int \<Rightarrow> PCBOUNDS" where
  "demo_box lo hi = \<lparr>b_xmin = d_of_int lo, b_xmax = d_of_int hi, b_ymin = d_of_int lo, b_ymax = d_of_int hi\<rparr>"

lemma demo_box_ok: "exact_int lo \<Longrightarrow> exact_int hi \<Longrightarrow> box_ok (demo_box lo hi)"
  "exact_int lo \<Longrightarrow> exact_int hi \<Longrightarrow> exact_int i \<Longrightarrow> lo \<le> i \<Longrightarrow> i \<le> hi \<Longrightarrow> in_box (d_of_int i) (d_of_int i) (demo_box lo hi)"
  by (auto simp: box_ok_def demo_box_def in_box_def d_of_int_not_nan)

lemma exact_1: "exact_int 0" "exact_int 1" "exact_int 2" "exact_int (- 1)"
  by (simp_all add: exact_int_def)

text \<open>
  Two non-empty bounding boxes without NaN intersect, as the code tests it, exactly when some point
  lies in both.
\<close>

theorem bounds_intersect_iff_common_point:
  assumes "box_ok b1" "box_ok b2" "in_box x1 y1 b1" "in_box x2 y2 b2"
  shows "pc_bounds_intersects b1 b2 \<longleftrightarrow> (\<exists>x y. in_box x y b1 \<and> in_box x y b2)"
  by (rule intersects_iff [OF assms])

theorem bounds_intersect_iff_common_point_witness: "pc_bounds_intersects (demo_box (- 1) 1) (demo_box 1 2)"
proof -
  have i: "in_box (d_of_int 1) (d_of_int 1) (demo_box (- 1) 1)" "in_box (d_of_int 1) (d_of_int 1) (demo_box 1 2)"
    by (rule demo_box_ok(2); simp add: exact_1)+
  have b: "box_ok (demo_box (- 1) 1)" "box_ok (demo_box 1 2)" by (rule demo_box_ok(1); simp add: exact_1)+
  show ?thesis using bounds_intersect_iff_common_point [OF b i] i by blast
qed

text \<open>
  The merge of two boxes without NaN is their least upper bound: it contains both, and a box contains
  it exactly when it contains both.
\<close>

theorem bounds_merge_is_join:
  assumes "box_ok b1" "box_ok b2" "box_ok c"
  shows "box_ok (pc_bounds_merge b1 b2) \<and> box_le b1 (pc_bounds_merge b1 b2) \<and> box_le b2 (pc_bounds_merge b1 b2) \<and>
    (box_le (pc_bounds_merge b1 b2) c \<longleftrightarrow> box_le b1 c \<and> box_le b2 c)"
  using merge_least [OF assms] by blast

theorem bounds_merge_is_join_witness: "box_le (demo_box 1 2) (pc_bounds_merge (demo_box (- 1) 1) (demo_box 1 2))"
proof -
  have b: "box_ok (demo_box (- 1) 1)" "box_ok (demo_box 1 2)" by (rule demo_box_ok(1); simp add: exact_1)+
  show ?thesis using bounds_merge_is_join [OF b b(1)] by blast
qed

text \<open>
  The bounding diagonal of a box is the EWKB of the line from its lower left to its upper right
  corner, with the SRID of the schema when it has one, in a buffer of exactly that length.
\<close>

theorem bounds_diagonal:
  "pc_bounding_diagonal_wkb_from_bounds b s =
    (let w = diagonal_bytes (sc_srid s) None None [b_xmin b, b_ymin b, b_xmax b, b_ymax b] in Inr (w, length w))"
  by (rule diagonal_from_bounds)

end
