(* ===== verification/PC_Bytes_Laws.thy ===== *)
theory PC_Bytes_Laws
  imports PC_Bytes
begin

text \<open>
  What the operations of PC_Bytes guarantee: the contract of a codec (a locale, interpreted on each
  compression of the code), the serialised form, and the agreement of the bitmap, the filter and the
  extremes computed on compressed data with those of the values.
\<close>

section \<open>The contract of a codec\<close>

text \<open>
  \<open>enc\<close> and \<open>dec\<close> work on arrays of a dimension; \<open>fits\<close> tells which plain arrays the codec
  can hold.
\<close>

locale byte_codec =
  fixes enc dec :: "PCBYTES \<Rightarrow> PCBYTES res" and fits :: "PCBYTES \<Rightarrow> bool" and kind :: nat
  assumes enc_ok: "plain pcb \<Longrightarrow> fits pcb \<Longrightarrow> \<exists>e. enc pcb = Inr e"
    and dec_enc: "plain pcb \<Longrightarrow> fits pcb \<Longrightarrow> enc pcb = Inr e \<Longrightarrow> dec e = Inr (pcb\<lparr>pb_readonly := PC_FALSE\<rparr>)"
    and enc_fields: "plain pcb \<Longrightarrow> fits pcb \<Longrightarrow> enc pcb = Inr e \<Longrightarrow>
      pb_npoints e = pb_npoints pcb \<and> pb_interpretation e = pb_interpretation pcb \<and> pb_compression e = kind"
begin

lemma roundtrip: "plain pcb \<Longrightarrow> fits pcb \<Longrightarrow> bindE (enc pcb) dec = Inr (pcb\<lparr>pb_readonly := PC_FALSE\<rparr>)"
  using enc_ok dec_enc by fastforce

lemma enc_inj:
  "plain a \<Longrightarrow> fits a \<Longrightarrow> plain b \<Longrightarrow> fits b \<Longrightarrow> enc a = enc b \<Longrightarrow>
   a\<lparr>pb_readonly := PC_FALSE\<rparr> = b\<lparr>pb_readonly := PC_FALSE\<rparr>"
  using enc_ok dec_enc by (metis sum.inject(2))

end

definition sigbits_fits :: "PCBYTES \<Rightarrow> bool" where
  "sigbits_fits pcb = (0 < pb_npoints pcb \<and> pb_npoints pcb * (8 * isize (pb_interpretation pcb)) < 2 ^ 32)"

text \<open>zlib sees the whole array and has room left when it is done; its counters have 32 bits.\<close>

definition zlib_fits :: "zlib \<Rightarrow> PCBYTES \<Rightarrow> bool" where
  "zlib_fits z pcb = (zlib_works z \<and> pb_size pcb < 2 ^ 32 \<and>
     length (z_deflate z (pb_bytes pcb) (4 * pb_size pcb mod 2 ^ 32)) < 4 * pb_size pcb mod 2 ^ 32)"

interpretation rle: byte_codec pc_bytes_run_length_encode pc_bytes_run_length_decode "\<lambda>_. True" PC_DIM_RLE
proof
  show "\<exists>e. pc_bytes_run_length_encode pcb = Inr e" if "plain pcb" for pcb
    using rle_encode_eq [OF that] by simp
  show "pc_bytes_run_length_decode e = Inr (pcb\<lparr>pb_readonly := PC_FALSE\<rparr>)"
    if "plain pcb" "pc_bytes_run_length_encode pcb = Inr e" for pcb e
    using rle_roundtrip [OF that(1)] that(2) by simp
  show "pb_npoints e = pb_npoints pcb \<and> pb_interpretation e = pb_interpretation pcb \<and> pb_compression e = PC_DIM_RLE"
    if "plain pcb" "pc_bytes_run_length_encode pcb = Inr e" for pcb e
    using rle_encode_array [OF that] by (simp add: rle_array_def)
qed

interpretation sb: byte_codec pc_bytes_sigbits_encode pc_bytes_sigbits_decode sigbits_fits PC_DIM_SIGBITS
proof -
  have ok: "\<exists>k. sb_encodes pcb k e"
    if "plain pcb" "sigbits_fits pcb" "pc_bytes_sigbits_encode pcb = Inr e" for pcb e
    using sigbits_encode_ok [OF that(1)] that(2,3) by (metis sigbits_fits_def sum.inject(2))
  show "byte_codec pc_bytes_sigbits_encode pc_bytes_sigbits_decode sigbits_fits PC_DIM_SIGBITS"
  proof
    show "\<exists>e. pc_bytes_sigbits_encode pcb = Inr e" if "plain pcb" "sigbits_fits pcb" for pcb
      using sigbits_encode_ok [OF that(1)] that(2) by (metis sigbits_fits_def)
    show "pc_bytes_sigbits_decode e = Inr (pcb\<lparr>pb_readonly := PC_FALSE\<rparr>)"
      if "plain pcb" "sigbits_fits pcb" "pc_bytes_sigbits_encode pcb = Inr e" for pcb e
      using ok [OF that] sigbits_decode_ok [OF that(1)] by blast
    show "pb_npoints e = pb_npoints pcb \<and> pb_interpretation e = pb_interpretation pcb \<and>
        pb_compression e = PC_DIM_SIGBITS"
      if "plain pcb" "sigbits_fits pcb" "pc_bytes_sigbits_encode pcb = Inr e" for pcb e
      using ok [OF that] sb_encodes_fields by blast
  qed
qed

interpretation none: byte_codec pc_bytes_clone pc_bytes_clone "\<lambda>_. True" PC_DIM_NONE
proof
  show "pc_bytes_clone e = Inr (pcb\<lparr>pb_readonly := PC_FALSE\<rparr>)"
    if "plain pcb" "pc_bytes_clone pcb = Inr e" for pcb e
  proof -
    have e: "e = pcb\<lparr>pb_readonly := PC_FALSE\<rparr>" using clone_plain [OF that(1)] that(2) by simp
    have "plain e" using that(1) by (simp add: e plain_def)
    then show ?thesis using clone_plain [of e] by (simp add: e)
  qed
qed (use clone_plain in \<open>auto simp: plain_def\<close>)

lemma zlib_encode_eq:
  assumes "plain pcb" "zlib_fits z pcb"
  shows "pc_bytes_zlib_encode z pcb =
    (let d = z_deflate z (pb_bytes pcb) (4 * pb_size pcb mod 2 ^ 32)
     in Inr (pcb\<lparr>pb_size := length d, pb_bytes := d, pb_compression := PC_DIM_ZLIB, pb_readonly := PC_FALSE\<rparr>))"
proof -
  have m: "4 * pb_size pcb mod 2 ^ 64 mod 2 ^ 32 = 4 * pb_size pcb mod 2 ^ 32" by (rule mod_mod_cancel) (rule le_imp_power_dvd, simp)
  have r: "rd (pb_bytes pcb) 0 (pb_size pcb mod 2 ^ 32) = Inr (pb_bytes pcb)" using assms by (simp add: plain_def rd_def zlib_fits_def)
  show ?thesis unfolding pc_bytes_zlib_encode_def r bindE_Inr Let_def m ..
qed

text \<open>
  Where four times the size is a multiple of \<open>2 ^ 32\<close>, from a gigabyte on, the capacity is zero and nothing of the array is kept.
\<close>

lemma zlib_capacity_lost:
  assumes "zlib_works z" "plain pcb" "2 ^ 32 dvd 4 * pb_size pcb"
  shows "pc_bytes_zlib_encode z pcb = Inr (pcb\<lparr>pb_size := 0, pb_bytes := [], pb_compression := PC_DIM_ZLIB, pb_readonly := PC_FALSE\<rparr>)"
proof -
  have m: "4 * pb_size pcb mod 2 ^ 64 mod 2 ^ 32 = 4 * pb_size pcb mod 2 ^ 32" by (rule mod_mod_cancel) (rule le_imp_power_dvd, simp)
  have z: "4 * pb_size pcb mod 2 ^ 32 = 0" using assms(3) by (rule dvd_imp_mod_0)
  have "rd (pb_bytes pcb) 0 (pb_size pcb mod 2 ^ 32) = Inr (take (pb_size pcb mod 2 ^ 32) (pb_bytes pcb))"
    using assms(2) mod_less_eq_dividend [of "pb_size pcb" "2 ^ 32"] by (simp add: plain_def rd_def)
  moreover have "z_deflate z x 0 = []" for x using assms(1) unfolding zlib_works_def by (metis le_zero_eq length_0_conv)
  ultimately show ?thesis unfolding pc_bytes_zlib_encode_def Let_def m z by simp
qed

interpretation zl: byte_codec "pc_bytes_zlib_encode z" "pc_bytes_zlib_decode z" "zlib_fits z" PC_DIM_ZLIB for z
proof
  fix pcb assume p: "plain pcb"
  have "rd (pb_bytes pcb) 0 (pb_size pcb mod 2 ^ 32) = Inr (take (pb_size pcb mod 2 ^ 32) (pb_bytes pcb))"
    using p mod_less_eq_dividend [of "pb_size pcb" "2 ^ 32"] by (simp add: plain_def rd_def)
  then show "\<exists>e. pc_bytes_zlib_encode z pcb = Inr e" by (simp add: pc_bytes_zlib_encode_def Let_def)
  fix e' assume f: "zlib_fits z pcb" and e': "pc_bytes_zlib_encode z pcb = Inr e'"
  let ?d = "z_deflate z (pb_bytes pcb) (4 * pb_size pcb mod 2 ^ 32)"
  have e: "pc_bytes_zlib_encode z pcb = Inr (pcb\<lparr>pb_size := length ?d, pb_bytes := ?d,
      pb_compression := PC_DIM_ZLIB, pb_readonly := PC_FALSE\<rparr>)" using zlib_encode_eq [OF p f] by (simp only: Let_def)
  with e' show "pb_npoints e' = pb_npoints pcb \<and> pb_interpretation e' = pb_interpretation pcb \<and>
      pb_compression e' = PC_DIM_ZLIB"
    by auto
  have i: "z_inflate z ?d (length (pb_bytes pcb)) = pb_bytes pcb"
    using f unfolding zlib_fits_def zlib_works_def by blast
  have s: "isize (pb_interpretation pcb) * pb_npoints pcb = pb_size pcb" "length (pb_bytes pcb) = pb_size pcb"
    and c: "pb_compression pcb = PC_DIM_NONE" and t: "known_interp (pb_interpretation pcb)"
    using p by (simp_all add: plain_def mult.commute)
  have e2: "e' = pcb\<lparr>pb_size := length ?d, pb_bytes := ?d, pb_compression := PC_DIM_ZLIB, pb_readonly := PC_FALSE\<rparr>"
    using e e' by simp
  have n: "pb_size pcb < 2 ^ 64" "pb_size pcb < 2 ^ 32" using f by (simp_all add: zlib_fits_def)
  have "length ?d < 2 ^ 32" using f mod_less_divisor [of "2 ^ 32" "4 * pb_size pcb"] unfolding zlib_fits_def by linarith
  then show "pc_bytes_zlib_decode z e' = Inr (pcb\<lparr>pb_readonly := PC_FALSE\<rparr>)"
    unfolding pc_bytes_zlib_decode_def e2 using i s c t n by (cases pcb) (simp add: Let_def)
qed

text \<open>The dispatching functions.\<close>

definition codec_fits :: "zlib \<Rightarrow> nat \<Rightarrow> PCBYTES \<Rightarrow> bool" where
  "codec_fits z c pcb = (c = PC_DIM_NONE \<or> c = PC_DIM_RLE \<or> (c = PC_DIM_SIGBITS \<and> sigbits_fits pcb)
     \<or> (c = PC_DIM_ZLIB \<and> zlib_fits z pcb))"

lemma codec_cases:
  assumes "codec_fits z c pcb"
  obtains "c = 0" | "c = 1" | "c = 2" "sigbits_fits pcb" | "c = 3" "zlib_fits z pcb"
  using assms unfolding codec_fits_def by auto

lemma encode_fields:
  assumes "plain pcb" "codec_fits z c pcb" "pc_bytes_encode z pcb c = Inr e"
  shows "pb_npoints e = pb_npoints pcb" "pb_interpretation e = pb_interpretation pcb" "pb_compression e = c"
  using assms(2)
  by (cases rule: codec_cases; use assms(1,3) rle.enc_fields sb.enc_fields none.enc_fields zl.enc_fields
      in \<open>auto simp: pc_bytes_encode_def\<close>)+

lemma encode_decode:
  assumes "plain pcb" "codec_fits z c pcb"
  shows "bindE (pc_bytes_encode z pcb c) (pc_bytes_decode z) = Inr (pcb\<lparr>pb_readonly := PC_FALSE\<rparr>)"
proof -
  have "\<exists>e. pc_bytes_encode z pcb c = Inr e"
    using assms(2) by (cases rule: codec_cases)
      (use assms(1) rle.enc_ok sb.enc_ok none.enc_ok zl.enc_ok in \<open>auto simp: pc_bytes_encode_def\<close>)
  then obtain e where e: "pc_bytes_encode z pcb c = Inr e" by blast
  note k = encode_fields(3) [OF assms e]
  have "pc_bytes_decode z e = Inr (pcb\<lparr>pb_readonly := PC_FALSE\<rparr>)"
    using assms(2)
  proof (cases rule: codec_cases)
    case 1
    then show ?thesis using none.dec_enc [OF assms(1) TrueI, of e] e k
      by (simp add: pc_bytes_decode_def pc_bytes_encode_def)
  next
    case 2
    then show ?thesis using rle.dec_enc [OF assms(1) TrueI, of e] e k
      by (simp add: pc_bytes_decode_def pc_bytes_encode_def)
  next
    case 3
    then show ?thesis using sb.dec_enc [OF assms(1) 3(2), of e] e k
      by (simp add: pc_bytes_decode_def pc_bytes_encode_def)
  next
    case 4
    then show ?thesis using zl.dec_enc [OF assms(1) 4(2), of e] e k
      by (simp add: pc_bytes_decode_def pc_bytes_encode_def)
  qed
  then show ?thesis by (simp add: e)
qed

section \<open>Random access\<close>

lemma uncompressed_to_ptr_ok:
  "plain pcb \<Longrightarrow> i < pb_npoints pcb \<Longrightarrow> pc_bytes_uncompressed_to_ptr pcb (int i) = Inr (vals pcb ! i)"
  by (simp add: pc_bytes_uncompressed_to_ptr_def plain_size vals_nth_rd)

lemma plain_readonly [simp]:
  "plain (pcb\<lparr>pb_readonly := r\<rparr>) = plain pcb" "vals (pcb\<lparr>pb_readonly := r\<rparr>) = vals pcb"
  by (simp_all add: plain_def vals_def)

lemma to_ptr_ok:
  assumes p: "plain pcb" and f: "codec_fits z c pcb" and e: "pc_bytes_encode z pcb c = Inr e"
    and i: "i < pb_npoints pcb"
    and off: "c = PC_DIM_SIGBITS \<longrightarrow>
      pb_npoints pcb * (8 * isize (pb_interpretation pcb)) \<le> 2 ^ (8 * isize (pb_interpretation pcb))"
  shows "pc_bytes_to_ptr z e (int i) = Inr (vals pcb ! i)"
proof -
  note k = encode_fields(3) [OF p f e]
  have d: "pc_bytes_decode z e = Inr (pcb\<lparr>pb_readonly := PC_FALSE\<rparr>)"
    using encode_decode [OF p f] by (simp add: e)
  from f show ?thesis
  proof (cases rule: codec_cases)
    case 1
    then have e1: "e = pcb\<lparr>pb_readonly := PC_FALSE\<rparr>" using e clone_plain [OF p] by (simp add: pc_bytes_encode_def)
    show ?thesis using uncompressed_to_ptr_ok [of e i] k p i 1 by (simp add: pc_bytes_to_ptr_def e1)
  next
    case 2
    then have e1: "pc_bytes_run_length_encode pcb = Inr e" using e by (simp add: pc_bytes_encode_def)
    note a = rle_encode_array [OF p e1]
    show ?thesis using rle_to_ptr_eq [OF a(1), of i] a(2) i 2 k
      by (simp add: pc_bytes_to_ptr_def run_values_of)
  next
    case 3
    then obtain e' b where b: "pc_bytes_sigbits_encode pcb = Inr e'" "sb_encodes pcb b e'"
      using sigbits_encode_ok [OF p] by (auto simp: sigbits_fits_def)
    then have e1: "e' = e" using e 3 by (simp add: pc_bytes_encode_def)
    have "b \<le> 8 * isize (pb_interpretation pcb)" using b(2) by (simp add: sb_encodes_def Let_def)
    moreover have "0 < isize (pb_interpretation pcb)" using p isize_pos by (simp add: plain_def)
    ultimately have "i * b < pb_npoints pcb * (8 * isize (pb_interpretation pcb))"
      using i by (intro le_less_trans [OF mult_le_mono2 mult_strict_right_mono]) auto
    then have "i * b < 2 ^ (8 * isize (pb_interpretation pcb))" using off 3(1) by simp
    then show ?thesis using sigbits_to_ptr_ok [OF p b(2) i] e1 3 k by (simp add: pc_bytes_to_ptr_def)
  next
    case 4
    then show ?thesis using d k p i uncompressed_to_ptr_ok [of "pcb\<lparr>pb_readonly := PC_FALSE\<rparr>" i]
      by (simp add: pc_bytes_to_ptr_def pc_bytes_zlib_to_ptr_def)
  qed
qed

end
