(* ===== verification/PC_Bytes_Values.thy ===== *)
theory PC_Bytes_Values
  imports PC_Bytes_Laws
begin

text \<open>
  Bitmaps, filters and extremes computed on the four representations of an array, compared with the
  list of values that the array stands for. The loops over an encoded buffer are described by what
  they do to the list of runs; the loops over a plain buffer by what they do to the values.
\<close>

section \<open>The number a value stands for\<close>

definition dval :: "nat \<Rightarrow> byte list \<Rightarrow> double" where
  "dval t v = (case pc_double_from_ptr v 0 t of Inr d \<Rightarrow> d | Inl _ \<Rightarrow> 0)"

lemma double_from_rd:
  assumes "known_interp t" "rd buf off (isize t) = Inr v"
  shows "pc_double_from_ptr buf off t = Inr (dval t v)"
proof -
  have l: "length v = isize t" using rd_length [OF assms(2)] .
  have "rd v 0 (isize t) = Inr v" using l [symmetric] by simp
  from assms(1) show ?thesis
    by (cases rule: known_interp_cases)
      (use \<open>rd v 0 (isize t) = Inr v\<close> assms(2) in \<open>simp_all add: pc_double_from_ptr_def dval_def\<close>)
qed

lemma plain_double:
  assumes "plain pcb" "i < pb_npoints pcb"
  shows "pc_double_from_ptr (pb_bytes pcb) (i * isize (pb_interpretation pcb)) (pb_interpretation pcb) =
    Inr (dval (pb_interpretation pcb) (vals pcb ! i))"
  using assms by (intro double_from_rd vals_nth_rd) (auto simp: plain_def)

section \<open>Bitmaps\<close>

definition bm_put :: "nat \<Rightarrow> bool \<Rightarrow> PCBITMAP \<Rightarrow> PCBITMAP" where
  "bm_put i b bm = bm\<lparr>bm_nset := (if b \<and> bm_map bm ! i = 0 then bm_nset bm + 1
       else if \<not> b \<and> bm_map bm ! i \<noteq> 0 then bm_nset bm - 1 else bm_nset bm),
     bm_map := (bm_map bm)[i := if b then 1 else 0]\<rparr>"

fun bm_puts :: "nat \<Rightarrow> bool list \<Rightarrow> PCBITMAP \<Rightarrow> PCBITMAP" where
  "bm_puts i [] bm = bm"
| "bm_puts i (b # bs) bm = bm_puts (Suc i) bs (bm_put i b bm)"

definition bitmap_of :: "bool list \<Rightarrow> PCBITMAP" where
  "bitmap_of bs = \<lparr>bm_nset = length (filter (\<lambda>b. b) bs), bm_npoints = length bs,
     bm_map = map (\<lambda>b. if b then 1 else 0) bs\<rparr>"

lemma bitmap_set: "i < length (bm_map bm) \<Longrightarrow> pc_bitmap_set bm i b = Inr (bm_put i b bm)"
  by (cases bm) (simp add: pc_bitmap_set_def rdx_def wrx_def bm_put_def Let_def)

lemma length_bm_put [simp]: "length (bm_map (bm_put i b bm)) = length (bm_map bm)"
  by (simp add: bm_put_def)

lemma length_bm_puts [simp]: "length (bm_map (bm_puts i bs bm)) = length (bm_map bm)"
  by (induction i bs bm rule: bm_puts.induct) simp_all

lemma bm_puts_append: "bm_puts i (xs @ ys) bm = bm_puts (i + length xs) ys (bm_puts i xs bm)"
  by (induction i xs bm rule: bm_puts.induct) simp_all

lemma bm_puts_fresh:
  "bm_puts (length ds) bs \<lparr>bm_nset = k, bm_npoints = n, bm_map = ds @ replicate (length bs) 0\<rparr> =
   \<lparr>bm_nset = k + length (filter (\<lambda>b. b) bs), bm_npoints = n, bm_map = ds @ map (\<lambda>b. if b then 1 else 0) bs\<rparr>"
proof (induction bs arbitrary: ds k)
  case (Cons b bs)
  let ?d = "if b then 1 else 0 :: byte"
  have "bm_put (length ds) b \<lparr>bm_nset = k, bm_npoints = n, bm_map = ds @ replicate (length (b # bs)) 0\<rparr> =
      \<lparr>bm_nset = k + (if b then 1 else 0), bm_npoints = n, bm_map = (ds @ [?d]) @ replicate (length bs) 0\<rparr>"
    by (simp add: bm_put_def)
  then show ?case using Cons.IH [of "ds @ [?d]" "k + (if b then 1 else 0)"] by simp
qed simp

lemma bm_puts_new: "bm_puts 0 bs (pc_bitmap_new (length bs)) = bitmap_of bs"
  using bm_puts_fresh [of "[]" bs 0 "length bs"] by (simp add: pc_bitmap_new_def pcalloc_def bitmap_of_def)

lemma uncompressed_bitmap_eq:
  assumes "plain pcb"
  shows "pc_bytes_uncompressed_bitmap pcb ft val1 val2 =
    Inr (bitmap_of (map (\<lambda>v. filter_cond ft (dval (pb_interpretation pcb) v) val1 val2) (vals pcb)))"
proof -
  let ?t = "pb_interpretation pcb" and ?P = "\<lambda>v. filter_cond ft (dval (pb_interpretation pcb) v) val1 val2"
  let ?new = "pc_bitmap_new (pb_npoints pcb)"
  let ?f = "\<lambda>i bm. bindE (pc_double_from_ptr (pb_bytes pcb) (i * isize ?t) ?t) (\<lambda>d. pc_bitmap_filter bm ft i d val1 val2)"
  have "foldE ?f [0..<n] ?new = Inr (bm_puts 0 (map ?P (take n (vals pcb))) ?new)" if "n \<le> pb_npoints pcb" for n
    using that
  proof (induction n)
    case (Suc n)
    have "foldE ?f [0..<Suc n] ?new = ?f n (bm_puts 0 (map ?P (take n (vals pcb))) ?new)"
      using Suc by (simp only: foldE_upt_Suc) simp
    also have "\<dots> = Inr (bm_put n (?P (vals pcb ! n)) (bm_puts 0 (map ?P (take n (vals pcb))) ?new))"
      using Suc.prems plain_double [OF assms]
      by (simp add: pc_bitmap_filter_def bitmap_set pc_bitmap_new_def)
    also have "\<dots> = Inr (bm_puts 0 (map ?P (take (Suc n) (vals pcb))) ?new)"
      using Suc.prems by (simp add: take_Suc_conv_app_nth bm_puts_append)
    finally show ?case .
  qed simp
  from this [of "pb_npoints pcb"] bm_puts_new [of "map ?P (vals pcb)"] show ?thesis
    by (simp add: pc_bytes_uncompressed_bitmap_def plain_size [OF assms])
qed

lemma bitmap_run:
  "i + r \<le> length (bm_map bm) \<Longrightarrow>
   foldE (\<lambda>i bm. pc_bitmap_filter bm ft i d val1 val2) [i..<i + r] bm =
     Inr (bm_puts i (replicate r (filter_cond ft d val1 val2)) bm)"
proof (induction r arbitrary: i bm)
  case (Suc r)
  have "[i..<i + Suc r] = i # [Suc i..<Suc i + r]" by (simp add: upt_conv_Cons del: upt_Suc)
  then show ?case using Suc.IH [of "Suc i" "bm_put i (filter_cond ft d val1 val2) bm"] Suc.prems
    by (simp add: pc_bitmap_filter_def bitmap_set del: upt_Suc)
qed simp

text \<open>One step of a loop over an encoded buffer.\<close>

lemma run_at:
  assumes "known_interp t" "length v = isize t" "r < 256"
  shows "rd (a @ (word_of_nat r # v) @ b) (length a) 1 = Inr [word_of_nat r]"
    and "rd (a @ (word_of_nat r # v) @ b) (length a + 1) (isize t) = Inr v"
    and "pc_double_from_ptr (a @ (word_of_nat r # v) @ b) (length a + 1) t = Inr (dval t v)"
  using rd_count [of a _ v b] rd_value [OF assms(2), of a _ b] double_from_rd [OF assms(1)] by blast+

lemma rle_bitmap_runs:
  assumes "known_interp t" "runs_ok (isize t) rs" "i + run_total rs \<le> length (bm_map bm)"
  shows "rle_bitmap (a @ rle_bytes rs) (length a + length (rle_bytes rs)) (isize t) t ft val1 val2 (length a) i bm =
    Inr (bm_puts i (map (\<lambda>v. filter_cond ft (dval t v) val1 val2) (run_values rs)) bm)"
  using assms(2,3)
proof (induction rs arbitrary: a i bm)
  case Nil
  then show ?case by (simp add: rle_bitmap.simps)
next
  case (Cons p rs)
  obtain r v where p: "p = (r, v)" by (cases p)
  let ?c = "word_of_nat r :: byte"
  let ?bm = "bm_puts i (replicate r (filter_cond ft (dval t v) val1 val2)) bm"
  have ok: "r < 256" "length v = isize t" "runs_ok (isize t) rs" "i + r \<le> length (bm_map bm)"
    "(i + r) + run_total rs \<le> length (bm_map ?bm)" using Cons.prems p by auto
  note rn = run_at [OF assms(1) ok(2,1), of a "rle_bytes rs"]
  have e: "a @ rle_bytes (p # rs) = a @ (?c # v) @ rle_bytes rs" by (simp add: p)
  have l: "length a + length (rle_bytes (p # rs)) = length (a @ ?c # v) + length (rle_bytes rs)"
    "length a + 1 + isize t = length (a @ ?c # v)" "length a < length a + length (rle_bytes (p # rs))"
    by (simp_all add: p ok)
  have "rle_bitmap (a @ rle_bytes (p # rs)) (length a + length (rle_bytes (p # rs))) (isize t) t ft val1 val2
      (length a) i bm =
    rle_bitmap ((a @ ?c # v) @ rle_bytes rs) (length (a @ ?c # v) + length (rle_bytes rs)) (isize t) t ft val1 val2
      (length (a @ ?c # v)) (i + r) ?bm"
    by (subst rle_bitmap.simps)
      (simp only: l(3) if_True e rn bindE_Inr Let_def list.sel unat_count [OF ok(1)] bitmap_run [OF ok(4)] l(2),
       simp add: p add.assoc)
  also have "\<dots> = Inr (bm_puts (i + r) (map (\<lambda>v. filter_cond ft (dval t v) val1 val2) (run_values rs)) ?bm)"
    by (rule Cons.IH [OF ok(3,5)])
  finally show ?case by (simp add: p bm_puts_append)
qed

lemma rle_bitmap_eq:
  assumes "rle_array pcb rs"
  shows "pc_bytes_run_length_bitmap pcb ft val1 val2 =
    Inr (bitmap_of (map (\<lambda>v. filter_cond ft (dval (pb_interpretation pcb) v) val1 val2) (run_values rs)))"
proof -
  let ?t = "pb_interpretation pcb"
  let ?bs = "map (\<lambda>v. filter_cond ft (dval ?t v) val1 val2) (run_values rs)"
  have a: "known_interp ?t" "runs_ok (isize ?t) rs" "pb_npoints pcb = run_total rs"
    "pb_bytes pcb = rle_bytes rs" "pb_size pcb = length (rle_bytes rs)"
    using assms by (simp_all add: rle_array_def)
  have l: "length ?bs = pb_npoints pcb" using a(3) by (simp add: length_run_values)
  have "0 + run_total rs \<le> length (bm_map (pc_bitmap_new (pb_npoints pcb)))"
    using a(3) by (simp add: pc_bitmap_new_def)
  from rle_bitmap_runs [OF a(1,2) this, of "[]" ft val1 val2] bm_puts_new [of ?bs] l show ?thesis
    by (simp add: pc_bytes_run_length_bitmap_def a)
qed

lemma encoded_decode:
  assumes "plain pcb" "codec_fits z c pcb" "pc_bytes_encode z pcb c = Inr e"
  shows "pc_bytes_decode z e = Inr (pcb\<lparr>pb_readonly := PC_FALSE\<rparr>)"
  using encode_decode [OF assms(1,2)] assms(3) by simp

lemma encoded_none:
  "plain pcb \<Longrightarrow> pc_bytes_encode z pcb PC_DIM_NONE = Inr e \<Longrightarrow> e = pcb\<lparr>pb_readonly := PC_FALSE\<rparr>"
  using clone_plain by (simp add: pc_bytes_encode_def)

lemma encoded_rle:
  "plain pcb \<Longrightarrow> pc_bytes_encode z pcb 1 = Inr e \<Longrightarrow> rle_array e (runs_of (vals pcb))"
  using rle_encode_array(1) by (simp add: pc_bytes_encode_def)

lemma bitmap_eq:
  assumes p: "plain pcb" and f: "codec_fits z c pcb" and e: "pc_bytes_encode z pcb c = Inr e"
  shows "pc_bytes_bitmap z e ft val1 val2 =
    Inr (bitmap_of (map (\<lambda>v. filter_cond ft (dval (pb_interpretation pcb) v) val1 val2) (vals pcb)))"
proof -
  note k = encode_fields [OF p f e] and d = encoded_decode [OF p f e]
  have u: "pc_bytes_uncompressed_bitmap (pcb\<lparr>pb_readonly := PC_FALSE\<rparr>) ft val1 val2 =
      Inr (bitmap_of (map (\<lambda>v. filter_cond ft (dval (pb_interpretation pcb) v) val1 val2) (vals pcb)))"
    using uncompressed_bitmap_eq [of "pcb\<lparr>pb_readonly := PC_FALSE\<rparr>"] p by simp
  from f show ?thesis
  proof (cases rule: codec_cases)
    case 1
    then show ?thesis using encoded_none [OF p] e u by (simp add: pc_bytes_bitmap_def k)
  next
    case 2
    have e1: "pc_bytes_encode z pcb 1 = Inr e" using e 2 by simp
    show ?thesis using rle_bitmap_eq [OF encoded_rle [OF p e1]] 2
      by (simp add: pc_bytes_bitmap_def k run_values_of)
  qed (use u d in \<open>simp_all add: pc_bytes_bitmap_def k\<close>)
qed

section \<open>Extremes\<close>

lemma uncompressed_minmax_eq:
  assumes "plain pcb"
  shows "pc_bytes_uncompressed_minmax pcb = Inr (minmax_result (pb_npoints pcb)
    (fold (\<lambda>v. minmax_add (dval (pb_interpretation pcb) v) (dval (pb_interpretation pcb) v)) (vals pcb)
      (FLT_MAX, minus_FLT_MAX, d_zero)))"
proof -
  let ?t = "pb_interpretation pcb" and ?init = "(FLT_MAX, minus_FLT_MAX, d_zero)"
  let ?f = "\<lambda>i st. bindE (pc_double_from_ptr (pb_bytes pcb) (i * isize ?t) ?t) (\<lambda>d. Inr (minmax_add d d st))"
  have "foldE ?f [0..<n] s =
      Inr (fold (\<lambda>v. minmax_add (dval ?t v) (dval ?t v)) (take n (vals pcb)) s)" if "n \<le> pb_npoints pcb" for n s
    using that
  proof (induction n)
    case (Suc n)
    then show ?case using plain_double [OF assms, of n]
      by (simp only: foldE_upt_Suc) (simp add: take_Suc_conv_app_nth)
  qed simp
  from this [of "pb_npoints pcb" ?init] show ?thesis
    by (simp add: pc_bytes_uncompressed_minmax_def plain_size [OF assms])
qed

lemma rle_minmax_runs:
  assumes "known_interp t" "runs_ok (isize t) rs"
  shows "rle_minmax (a @ rle_bytes rs) (length a + length (rle_bytes rs)) (isize t) t (length a) st =
    Inr (fold (\<lambda>(r, v). minmax_add (dval t v) (d_mul (d_of_int (int r)) (dval t v))) rs st)"
  using assms(2)
proof (induction rs arbitrary: a st)
  case Nil
  then show ?case by (simp add: rle_minmax.simps)
next
  case (Cons p rs)
  obtain r v where p: "p = (r, v)" by (cases p)
  let ?c = "word_of_nat r :: byte"
  let ?st = "minmax_add (dval t v) (d_mul (d_of_int (int r)) (dval t v)) st"
  have ok: "r < 256" "length v = isize t" "runs_ok (isize t) rs" using Cons.prems p by auto
  have u: "uint ?c = int r" using ok(1) by (simp add: unsigned_of_nat take_bit_eq_mod)
  note rn = run_at [OF assms(1) ok(2,1), of a "rle_bytes rs"]
  have e: "a @ rle_bytes (p # rs) = a @ (?c # v) @ rle_bytes rs" by (simp add: p)
  have l: "length a + 1 + isize t = length (a @ ?c # v)" "length a < length a + length (rle_bytes (p # rs))"
    by (simp_all add: p ok)
  have "rle_minmax (a @ rle_bytes (p # rs)) (length a + length (rle_bytes (p # rs))) (isize t) t (length a) st =
    rle_minmax ((a @ ?c # v) @ rle_bytes rs) (length (a @ ?c # v) + length (rle_bytes rs)) (isize t) t
      (length (a @ ?c # v)) ?st"
    by (subst rle_minmax.simps) (simp only: l(2) if_True e rn bindE_Inr list.sel u l(1), simp add: p add.assoc)
  also have "\<dots> = Inr (fold (\<lambda>(r, v). minmax_add (dval t v) (d_mul (d_of_int (int r)) (dval t v))) rs ?st)"
    by (rule Cons.IH [OF ok(3)])
  finally show ?case by (simp add: p)
qed

text \<open>The extremes alone, without the sum.\<close>

definition ext_add :: "double \<Rightarrow> double \<times> double \<Rightarrow> double \<times> double" where
  "ext_add d st = (case st of (mn, mx) \<Rightarrow> (if d_lt d mn then d else mn, if d_lt mx d then d else mx))"

definition extremes :: "double \<times> double \<times> double \<Rightarrow> double \<times> double" where
  "extremes st = (case st of (mn, mx, _) \<Rightarrow> (mn, mx))"

lemma extremes_add: "extremes (minmax_add d x st) = ext_add d (extremes st)"
  by (cases st) (simp add: extremes_def minmax_add_def ext_add_def)

lemma extremes_result [simp]: "extremes (minmax_result n st) = extremes st"
  by (cases st) (simp add: extremes_def minmax_result_def)

lemma ext_add_twice [simp]: "ext_add d (ext_add d st) = ext_add d st"
  by (cases st) (auto simp: ext_add_def)

lemma ext_replicate: "0 < r \<Longrightarrow> (ext_add d ^^ r) st = ext_add d st"
proof (induction r arbitrary: st)
  case (Suc r)
  then show ?case by (cases "r = 0") simp_all
qed simp

lemma extremes_fold: "extremes (fold (\<lambda>x. minmax_add (f x) (g x)) xs st) = fold (\<lambda>x. ext_add (f x)) xs (extremes st)"
  by (induction xs arbitrary: st) (simp_all add: extremes_add)

lemma runs_of_pos: "\<forall>(k, w) \<in> set (runs_of xs). 0 < k"
  by (cases xs) (use runs_from_pos [of 1] in auto)

lemma extremes_runs:
  "\<forall>(k, w) \<in> set rs. 0 < k \<Longrightarrow>
   fold (\<lambda>(r, v). ext_add (f v)) rs st = fold (\<lambda>v. ext_add (f v)) (run_values rs) st"
proof (induction rs arbitrary: st)
  case (Cons p rs)
  obtain r v where "p = (r, v)" by (cases p)
  then show ?case using Cons by (simp add: ext_replicate)
qed simp

lemma rle_extremes:
  assumes "rle_array pcb rs" "\<forall>(k, w) \<in> set rs. 0 < k"
  shows "\<exists>r. pc_bytes_run_length_minmax pcb = Inr r \<and>
    extremes r = fold (\<lambda>v. ext_add (dval (pb_interpretation pcb) v)) (run_values rs) (FLT_MAX, minus_FLT_MAX)"
proof -
  let ?t = "pb_interpretation pcb"
  let ?g = "\<lambda>p. d_mul (d_of_int (int (fst p))) (dval ?t (snd p))"
  have a: "known_interp ?t" "runs_ok (isize ?t) rs"
    "pb_bytes pcb = rle_bytes rs" "pb_size pcb = length (rle_bytes rs)"
    using assms(1) by (simp_all add: rle_array_def)
  have "rle_minmax (rle_bytes rs) (length (rle_bytes rs)) (isize ?t) ?t 0 (FLT_MAX, minus_FLT_MAX, d_zero) =
      Inr (fold (\<lambda>p. minmax_add (dval ?t (snd p)) (?g p)) rs (FLT_MAX, minus_FLT_MAX, d_zero))"
    using rle_minmax_runs [OF a(1,2), of "[]"] by (simp add: case_prod_unfold)
  moreover have "extremes (fold (\<lambda>p. minmax_add (dval ?t (snd p)) (?g p)) rs (FLT_MAX, minus_FLT_MAX, d_zero)) =
      fold (\<lambda>v. ext_add (dval ?t v)) (run_values rs) (FLT_MAX, minus_FLT_MAX)"
    using extremes_runs [OF assms(2), of "dval ?t"] extremes_fold [where f = "\<lambda>p. dval ?t (snd p)" and g = ?g]
    by (simp add: case_prod_unfold extremes_def)
  ultimately show ?thesis by (simp add: pc_bytes_run_length_minmax_def a)
qed

lemma uncompressed_extremes:
  assumes "plain pcb"
  shows "\<exists>r. pc_bytes_uncompressed_minmax pcb = Inr r \<and>
    extremes r = fold (\<lambda>v. ext_add (dval (pb_interpretation pcb) v)) (vals pcb) (FLT_MAX, minus_FLT_MAX)"
  using uncompressed_minmax_eq [OF assms] by (simp add: extremes_fold) (simp add: extremes_def)

lemma extremes_eq:
  assumes p: "plain pcb" and f: "codec_fits z c pcb" and e: "pc_bytes_encode z pcb c = Inr e"
  shows "\<exists>r. pc_bytes_minmax z e = Inr r \<and>
    extremes r = fold (\<lambda>v. ext_add (dval (pb_interpretation pcb) v)) (vals pcb) (FLT_MAX, minus_FLT_MAX)"
proof -
  note k = encode_fields [OF p f e] and d = encoded_decode [OF p f e]
  have u: "\<exists>r. pc_bytes_uncompressed_minmax (pcb\<lparr>pb_readonly := PC_FALSE\<rparr>) = Inr r \<and>
    extremes r = fold (\<lambda>v. ext_add (dval (pb_interpretation pcb) v)) (vals pcb) (FLT_MAX, minus_FLT_MAX)"
    using uncompressed_extremes [of "pcb\<lparr>pb_readonly := PC_FALSE\<rparr>"] p by simp
  from f show ?thesis
  proof (cases rule: codec_cases)
    case 1
    then show ?thesis using encoded_none [OF p] e u by (simp add: pc_bytes_minmax_def k)
  next
    case 2
    have e1: "pc_bytes_encode z pcb 1 = Inr e" using e 2 by simp
    show ?thesis using rle_extremes [OF encoded_rle [OF p e1] runs_of_pos] 2
      by (simp add: pc_bytes_minmax_def k run_values_of)
  next
    case 3
    then have "pc_bytes_sigbits_decode e = Inr (pcb\<lparr>pb_readonly := PC_FALSE\<rparr>)"
      using d by (simp add: pc_bytes_decode_def k)
    then show ?thesis using u 3 by (simp add: pc_bytes_minmax_def pc_bytes_sigbits_minmax_def k)
  next
    case 4
    then have "pc_bytes_zlib_decode z e = Inr (pcb\<lparr>pb_readonly := PC_FALSE\<rparr>)"
      using d by (simp add: pc_bytes_decode_def k)
    then show ?thesis using u 4 by (simp add: pc_bytes_minmax_def pc_bytes_zlib_minmax_def k)
  qed
qed

section \<open>Filters\<close>

text \<open>The values whose flag is set.\<close>

definition kept :: "'a list \<Rightarrow> byte list \<Rightarrow> 'a list" where
  "kept vs ms = map fst (filter (\<lambda>(v, g). g \<noteq> 0) (zip vs ms))"

lemma kept_Nil [simp]: "kept [] ms = []" "kept vs [] = []"
  by (simp_all add: kept_def)

lemma kept_Cons [simp]: "kept (v # vs) (g # ms) = (if g \<noteq> 0 then v # kept vs ms else kept vs ms)"
  by (simp add: kept_def)

lemma kept_append: "length vs = length ms \<Longrightarrow> kept (vs @ vs') (ms @ ms') = kept vs ms @ kept vs' ms'"
  by (simp add: kept_def)

lemma kept_take_Suc:
  "n < length vs \<Longrightarrow> length ms = length vs \<Longrightarrow>
   kept (take (Suc n) vs) (take (Suc n) ms) =
     kept (take n vs) (take n ms) @ (if ms ! n \<noteq> 0 then [vs ! n] else [])"
  by (simp add: take_Suc_conv_app_nth kept_append)

lemma set_kept: "set (kept vs ms) \<subseteq> set vs"
  by (auto simp: kept_def dest: set_zip_leftD)

lemma length_kept: "length (kept vs ms) \<le> length vs"
proof (induction vs arbitrary: ms)
  case (Cons v vs)
  then show ?case by (cases ms) (auto intro: le_SucI)
qed simp

definition stats_over :: "nat \<Rightarrow> byte list list \<Rightarrow> PCDOUBLESTAT option \<Rightarrow> PCDOUBLESTAT option" where
  "stats_over t vs st = map_option (fold (\<lambda>v. stat_add (dval t v)) vs) st"

lemma stats_over_simps [simp]:
  "stats_over t [] st = st" "stats_over t (vs @ ws) st = stats_over t ws (stats_over t vs st)"
  by (cases st; simp add: stats_over_def)+

lemma stat_update_eq:
  "pc_double_from_ptr buf off t = Inr (dval t v) \<Longrightarrow> stat_update buf off t st = Inr (stats_over t [v] st)"
  by (cases st) (simp_all add: stat_update_def stats_over_def)

lemma filter_step_write:
  assumes "length K = w" "w + sz \<le> length b" "length v = sz"
  shows "wr (K @ drop w b) w v = Inr ((K @ v) @ drop (w + sz) b)"
  using assms by (simp add: wr_def add.commute)

lemma uncompressed_filter_eq:
  assumes p: "plain pcb" and m: "length (bm_map bm) = pb_npoints pcb"
  shows "pc_bytes_uncompressed_filter pcb bm st =
    (let ks = kept (vals pcb) (bm_map bm); w = length ks * isize (pb_interpretation pcb)
     in Inr (pcb\<lparr>pb_readonly := PC_FALSE, pb_bytes := concat ks @ drop w (pb_bytes pcb), pb_size := w,
              pb_npoints := length ks\<rparr>, stats_over (pb_interpretation pcb) ks st))"
proof -
  let ?t = "pb_interpretation pcb" and ?b = "pb_bytes pcb"
  let ?sz = "isize ?t"
  let ?K = "\<lambda>n. kept (take n (vals pcb)) (take n (bm_map bm))"
  let ?f = "\<lambda>i (fbytes, fbuf, j, stats).
     bindE (rdx (bm_map bm) i) (\<lambda>g.
     if g = 0 then Inr (fbytes, fbuf, j, stats)
     else bindE (stat_update ?b (i * ?sz) ?t stats) (\<lambda>stats.
          bindE (rd ?b (i * ?sz) ?sz) (\<lambda>v.
          bindE (wr fbytes fbuf v) (\<lambda>fbytes.
          Inr (fbytes, fbuf + ?sz, j + 1, stats)))))"
  have b: "length ?b = pb_npoints pcb * ?sz" using p by (simp add: plain_def)
  have w: "length v = ?sz" if "v \<in> set (vals pcb)" for v using vals_width [OF p that] .
  have lc: "length (concat (?K n)) = length (?K n) * ?sz" for n
    by (rule length_concat_const) (use set_kept w in_set_takeD in fast)
  have "foldE ?f [0..<n] (?b, 0, 0, st) =
      Inr (concat (?K n) @ drop (length (?K n) * ?sz) ?b, length (?K n) * ?sz, length (?K n), stats_over ?t (?K n) st)"
    if "n \<le> pb_npoints pcb" for n
    using that
  proof (induction n)
    case (Suc n)
    let ?v = "vals pcb ! n"
    have n: "n < pb_npoints pcb" "n < length (bm_map bm)" using Suc.prems m by auto
    have kl: "length (?K n) \<le> n" using length_kept [of "take n (vals pcb)"] n by simp
    have "Suc (length (?K n)) * ?sz \<le> length ?b" unfolding b by (rule mult_le_mono1) (use kl n in simp)
    then have wr: "wr (concat (?K n) @ drop (length (?K n) * ?sz) ?b) (length (?K n) * ?sz) ?v =
        Inr ((concat (?K n) @ ?v) @ drop (length (?K n) * ?sz + ?sz) ?b)"
      by (intro filter_step_write lc w) (use n in simp_all)
    have K: "?K (Suc n) = ?K n @ (if bm_map bm ! n \<noteq> 0 then [?v] else [])"
      by (rule kept_take_Suc) (use n m in simp_all)
    have "foldE ?f [0..<Suc n] (?b, 0, 0, st) =
        ?f n (concat (?K n) @ drop (length (?K n) * ?sz) ?b, length (?K n) * ?sz, length (?K n), stats_over ?t (?K n) st)"
      using Suc by (simp only: foldE_upt_Suc) simp
    also have "\<dots> = Inr (concat (?K (Suc n)) @ drop (length (?K (Suc n)) * ?sz) ?b, length (?K (Suc n)) * ?sz,
        length (?K (Suc n)), stats_over ?t (?K (Suc n)) st)"
      unfolding K using n wr stat_update_eq [OF plain_double [OF p n(1)]] vals_nth_rd [OF p n(1)]
      by (auto simp: rdx_def add.commute)
    finally show ?case .
  qed simp
  from this [of "pb_npoints pcb"] m show ?thesis
    by (simp add: pc_bytes_uncompressed_filter_def clone_plain [OF p] plain_size [OF p] Let_def)
qed

text \<open>What the run-length filter keeps.\<close>

definition flags :: "byte list \<Rightarrow> nat" where
  "flags ms = length (filter (\<lambda>g. g \<noteq> 0) ms)"

fun kept_runs :: "runs \<Rightarrow> byte list \<Rightarrow> runs" where
  "kept_runs [] ms = []"
| "kept_runs ((r, v) # rs) ms = (let c = flags (take r ms) in
     if c = 0 then kept_runs rs (drop r ms) else (c, v) # kept_runs rs (drop r ms))"

lemma flags_le: "flags ms \<le> length ms"
  by (simp add: flags_def)

lemma kept_replicate: "length ms = r \<Longrightarrow> kept (replicate r v) ms = replicate (flags ms) v"
proof (induction ms arbitrary: r)
  case (Cons g ms)
  then show ?case by (cases r) (auto simp: flags_def)
qed (simp add: flags_def)

lemma kept_runs_values: "length ms = run_total rs \<Longrightarrow> run_values (kept_runs rs ms) = kept (run_values rs) ms"
proof (induction rs ms rule: kept_runs.induct)
  case (2 r v rs ms)
  have l: "length (take r ms) = r" "length (drop r ms) = run_total rs" using 2(3) by simp_all
  have "kept (replicate r v @ run_values rs) (take r ms @ drop r ms) =
      kept (replicate r v) (take r ms) @ kept (run_values rs) (drop r ms)"
    by (rule kept_append) (use l in simp)
  then have k: "kept (replicate r v @ run_values rs) ms =
      replicate (flags (take r ms)) v @ kept (run_values rs) (drop r ms)"
    by (simp only: append_take_drop_id kept_replicate [OF l(1)])
  show ?case
  proof (cases "flags (take r ms) = 0")
    case True
    then show ?thesis using 2(1) [OF refl True l(2)] k by simp
  next
    case False
    then show ?thesis using 2(2) [OF refl False l(2)] k by simp
  qed
qed simp

lemma kept_runs_ok: "runs_ok sz rs \<Longrightarrow> runs_ok sz (kept_runs rs ms)"
proof (induction rs ms rule: kept_runs.induct)
  case (2 r v rs ms)
  have "flags (take r ms) \<le> r" using flags_le [of "take r ms"] by simp
  then show ?case using 2 by (auto simp: Let_def)
qed simp

lemma count_flags:
  assumes "i + r \<le> length ms" "r < 256"
  shows "foldE (\<lambda>j fcount. bindE (rdx ms j) (\<lambda>g. Inr (if g \<noteq> 0 then fcount + 1 else fcount))) [i..<i + r] (0 :: byte) =
    Inr (word_of_nat (flags (take r (drop i ms))))"
  using assms
proof (induction r)
  case (Suc r)
  let ?f = "\<lambda>j fcount. bindE (rdx ms j) (\<lambda>g. Inr (if g \<noteq> 0 then fcount + 1 else fcount :: byte))"
  have f: "foldE ?f [i + r] = ?f (i + r)" by (rule ext) simp
  have t: "take (Suc r) (drop i ms) = take r (drop i ms) @ [ms ! (i + r)]"
    using Suc.prems by (simp add: take_Suc_conv_app_nth)
  show ?case using Suc unfolding t
    by (simp add: foldE_append f rdx_def flags_def)
qed (simp add: flags_def)

text \<open>The statistics the run-length filter gathers: each kept run counts once.\<close>

lemma rle_filter_runs:
  assumes t: "known_interp t" and "runs_ok (isize t) rs" and "i + run_total rs \<le> length (bm_map bm)"
    and "length (rle_bytes rs) \<le> length w"
  shows "rle_filter (a @ rle_bytes rs) (length a + length (rle_bytes rs)) (isize t) t bm (length a)
      (out @ w, length out, i, np, st) =
    (let ks = kept_runs rs (drop i (bm_map bm))
     in Inr (out @ rle_bytes ks @ drop (length (rle_bytes ks)) w, length out + length (rle_bytes ks),
             i + run_total rs, np + run_total ks, stats_over t (map snd ks) st))"
  using assms(2-4)
proof (induction rs arbitrary: a out w i np st)
  case Nil
  then show ?case by (simp add: rle_filter.simps)
next
  case (Cons p rs)
  obtain r v where p: "p = (r, v)" by (cases p)
  let ?c = "word_of_nat r :: byte" and ?m = "bm_map bm"
  let ?k = "flags (take r (drop i ?m))"
  have ok: "r < 256" "length v = isize t" "runs_ok (isize t) rs" "i + r \<le> length ?m"
    "(i + r) + run_total rs \<le> length ?m" "1 + isize t + length (rle_bytes rs) \<le> length w"
    using Cons.prems p by auto
  have k: "?k < 256" using flags_le [of "take r (drop i ?m)"] ok(1) by simp
  note rn = run_at [OF t ok(2,1), of a "rle_bytes rs", folded append_assoc]
  have e: "a @ rle_bytes (p # rs) = (a @ ?c # v) @ rle_bytes rs" by (simp add: p)
  have l: "length a + isize t + 1 = length (a @ ?c # v)"
    "length a < length (a @ ?c # v) + length (rle_bytes rs)"
    "length a + length (rle_bytes (p # rs)) = length (a @ ?c # v) + length (rle_bytes rs)"
    by (simp_all add: p ok)
  have dr: "drop (r + i) ?m = drop (i + r) ?m" by (simp add: add.commute)
  show ?case
  proof (cases "?k = 0")
    case True
    have cf: "foldE (\<lambda>j fcount. bindE (rdx ?m j) (\<lambda>g. Inr (if g \<noteq> 0 then fcount + 1 else fcount))) [i..<i + r] (0 :: byte) =
        Inr 0" using count_flags [OF ok(4,1)] True by simp
    have "rle_filter (a @ rle_bytes (p # rs)) (length a + length (rle_bytes (p # rs))) (isize t) t bm (length a)
        (out @ w, length out, i, np, st) =
      rle_filter ((a @ ?c # v) @ rle_bytes rs) (length (a @ ?c # v) + length (rle_bytes rs)) (isize t) t bm
        (length (a @ ?c # v)) (out @ w, length out, i + r, np, st)"
      by (subst rle_filter.simps)
        (simp only: l e rn if_True bindE_Inr list.sel unat_count [OF ok(1)] cf prod.case refl)
    also have "\<dots> = (let ks = kept_runs rs (drop (i + r) ?m)
     in Inr (out @ rle_bytes ks @ drop (length (rle_bytes ks)) w, length out + length (rle_bytes ks),
             (i + r) + run_total rs, np + run_total ks, stats_over t (map snd ks) st))"
      by (rule Cons.IH) (use ok in simp_all)
    finally show ?thesis using True by (simp add: p dr Let_def add.assoc)
  next
    case False
    let ?d = "word_of_nat ?k :: byte"
    have nz: "?d \<noteq> 0" using False k by (simp add: word_unat_eq_iff unat_of_nat)
    have w1: "wr (out @ w) (length out) [?d] = Inr (out @ ?d # drop 1 w)" using ok(6) by (simp add: wr_def)
    have w2: "wr (out @ ?d # drop 1 w) (length out + 1) v = Inr ((out @ ?d # v) @ drop (1 + isize t) w)"
      using ok(2,6) by (simp add: wr_def ac_simps)
    have lo: "length out + 1 + isize t = length (out @ ?d # v)" by (simp add: ok)
    have "rle_filter (a @ rle_bytes (p # rs)) (length a + length (rle_bytes (p # rs))) (isize t) t bm (length a)
        (out @ w, length out, i, np, st) =
      rle_filter ((a @ ?c # v) @ rle_bytes rs) (length (a @ ?c # v) + length (rle_bytes rs)) (isize t) t bm
        (length (a @ ?c # v))
        ((out @ ?d # v) @ drop (1 + isize t) w, length (out @ ?d # v), i + r, np + ?k, stats_over t [v] st)"
      by (subst rle_filter.simps)
        (simp only: l e rn if_True if_False bindE_Inr list.sel unat_count [OF ok(1)] count_flags [OF ok(4,1)]
           prod.case nz w1 w2 lo stat_update_eq [OF rn(3)] unat_count [OF k])
    also have "\<dots> = (let ks = kept_runs rs (drop (i + r) ?m)
     in Inr ((out @ ?d # v) @ rle_bytes ks @ drop (length (rle_bytes ks)) (drop (1 + isize t) w),
             length (out @ ?d # v) + length (rle_bytes ks), (i + r) + run_total rs, np + ?k + run_total ks,
             stats_over t (map snd ks) (stats_over t [v] st)))"
      by (rule Cons.IH) (use ok in simp_all)
    finally show ?thesis using False ok(2) by (simp add: p dr Let_def ac_simps flip: stats_over_simps(2))
  qed
qed

lemma rle_clone:
  assumes "rle_array pcb rs"
  shows "pc_bytes_clone pcb = Inr (pcb\<lparr>pb_readonly := PC_FALSE\<rparr>)"
proof -
  have "rd (pb_bytes pcb) 0 (pb_size pcb) = Inr (pb_bytes pcb)" using assms by (simp add: rle_array_def)
  moreover have "pcb\<lparr>pb_bytes := pb_bytes pcb, pb_readonly := PC_FALSE\<rparr> = pcb\<lparr>pb_readonly := PC_FALSE\<rparr>"
    by (cases pcb) simp
  ultimately show ?thesis by (simp add: pc_bytes_clone_def)
qed

lemma rle_filter_eq:
  assumes a: "rle_array pcb rs" and m: "length (bm_map bm) = pb_npoints pcb"
  shows "pc_bytes_run_length_filter pcb bm st =
    (let ks = kept_runs rs (bm_map bm); w = length (rle_bytes ks)
     in Inr (pcb\<lparr>pb_readonly := PC_FALSE, pb_bytes := rle_bytes ks @ drop w (rle_bytes rs), pb_size := w,
              pb_npoints := run_total ks\<rparr>, stats_over (pb_interpretation pcb) (map snd ks) st))"
proof -
  let ?t = "pb_interpretation pcb"
  have f: "known_interp ?t" "runs_ok (isize ?t) rs" "pb_bytes pcb = rle_bytes rs"
    "pb_size pcb = length (rle_bytes rs)" "pb_npoints pcb = run_total rs"
    using a by (simp_all add: rle_array_def)
  have "0 + run_total rs \<le> length (bm_map bm)" using m f(5) by simp
  from rle_filter_runs [OF f(1,2) this order_refl, of "[]" "[]" 0 st] show ?thesis
    by (simp add: pc_bytes_run_length_filter_def rle_clone [OF a] f Let_def)
qed

section \<open>Arrays with spare room\<close>

text \<open>
  A filtered array keeps the buffer of its source, so there may be bytes beyond \<open>pb_size\<close>. The
  encoders do not look at them. \<open>trim\<close> cuts them off.
\<close>

definition trim :: "PCBYTES \<Rightarrow> PCBYTES" where
  "trim pcb = pcb\<lparr>pb_bytes := take (pb_size pcb) (pb_bytes pcb)\<rparr>"

lemma trim_fields [simp]:
  "pb_size (trim pcb) = pb_size pcb" "pb_npoints (trim pcb) = pb_npoints pcb"
  "pb_interpretation (trim pcb) = pb_interpretation pcb" "pb_compression (trim pcb) = pb_compression pcb"
  "pb_bytes (trim pcb) = take (pb_size pcb) (pb_bytes pcb)"
  by (simp_all add: trim_def)

lemma rdx_take: "i < n \<Longrightarrow> rdx (take n ws) i = rdx ws i"
  by (simp add: rdx_def)

lemma sigbits_count_take: "0 < n \<Longrightarrow> sigbits_count (take n ws) n = sigbits_count ws n"
  unfolding sigbits_count_def by (auto simp: rdx_take intro!: bindE_cong foldE_cong)

lemma sigbits_pack_take: "sigbits_pack (take n ws) n v k m = sigbits_pack ws n v k m"
  unfolding sigbits_pack_def Let_def
  by (intro bindE_cong refl if_cong foldE_cong) (auto simp: pack_step_def rdx_take split: prod.splits)

lemma words_of_take:
  assumes "0 < word_size TYPE('a::len)" "n * word_size TYPE('a) \<le> length buf"
  shows "(words_of (take (n * word_size TYPE('a)) buf) :: 'a word list) = take n (words_of buf)"
proof -
  let ?s = "word_size TYPE('a)"
  have l: "min (length buf) (n * ?s) div ?s = n" using assms by (simp add: min_absorb2)
  have le: "n \<le> length buf div ?s" using assms by (simp add: less_eq_div_iff_mult_less_eq)
  have "take ?s (drop (i * ?s) (take (n * ?s) buf)) = take ?s (drop (i * ?s) buf)" if "i < n" for i
  proof -
    have "Suc i * ?s \<le> n * ?s" using that by (intro mult_le_mono1) simp
    then show ?thesis by (simp add: drop_take min_def)
  qed
  then show ?thesis using l le
    by (intro nth_equalityI) (auto simp: words_of_def elems_def)
qed

lemma words_of_trim:
  assumes "pb_size pcb = pb_npoints pcb * isize (pb_interpretation pcb)" "pb_size pcb \<le> length (pb_bytes pcb)"
    and "isize (pb_interpretation pcb) = word_size TYPE('a::len)" "0 < word_size TYPE('a)"
  shows "(words_of (take (pb_size pcb) (pb_bytes pcb)) :: 'a word list) =
      take (pb_npoints pcb) (words_of (pb_bytes pcb))"
  using words_of_take [where 'a = 'a, of "pb_npoints pcb" "pb_bytes pcb"] assms by simp

lemma sigbits_result_trim: "sigbits_result (trim pcb) k ws = sigbits_result pcb k ws"
  by (simp add: sigbits_result_def trim_def)

lemma sigbits_encode_trim:
  assumes t: "known_interp (pb_interpretation pcb)" and n: "0 < pb_npoints pcb"
    and s: "pb_size pcb = pb_npoints pcb * isize (pb_interpretation pcb)" "pb_size pcb \<le> length (pb_bytes pcb)"
  shows "pc_bytes_sigbits_encode (trim pcb) = pc_bytes_sigbits_encode pcb"
proof -
  note w = words_of_trim [OF s]
  show ?thesis using t
  proof (cases rule: isize_cases)
    case 1
    note w' = w [where 'a = 8, unfolded word_size_def, simplified, OF 1 [unfolded One_nat_def]]
    have "pc_bytes_sigbits_encode_8 (trim pcb) = pc_bytes_sigbits_encode_8 pcb"
      by (intro ext) (simp add: pc_bytes_sigbits_encode_8_def w' sigbits_pack_take sigbits_result_trim)
    then show ?thesis using t n w' 1
      by (simp add: pc_bytes_sigbits_encode_def pc_bytes_sigbits_count_8_def sigbits_count_take)
  next
    case 2
    note w' = w [where 'a = 16, unfolded word_size_def, simplified, OF 2]
    have "pc_bytes_sigbits_encode_16 (trim pcb) = pc_bytes_sigbits_encode_16 pcb"
      by (intro ext) (simp add: pc_bytes_sigbits_encode_16_def w' sigbits_pack_take sigbits_result_trim)
    then show ?thesis using t n w' 2
      by (simp add: pc_bytes_sigbits_encode_def pc_bytes_sigbits_count_16_def sigbits_count_take)
  next
    case 3
    note w' = w [where 'a = 32, unfolded word_size_def, simplified, OF 3]
    have "pc_bytes_sigbits_encode_32 (trim pcb) = pc_bytes_sigbits_encode_32 pcb"
      by (intro ext) (simp add: pc_bytes_sigbits_encode_32_def w' sigbits_pack_take sigbits_result_trim)
    then show ?thesis using t n w' 3
      by (simp add: pc_bytes_sigbits_encode_def pc_bytes_sigbits_count_32_def sigbits_count_take)
  next
    case 4
    note w' = w [where 'a = 64, unfolded word_size_def, simplified, OF 4]
    have "pc_bytes_sigbits_encode_64 (trim pcb) = pc_bytes_sigbits_encode_64 pcb"
      by (intro ext) (simp add: pc_bytes_sigbits_encode_64_def w' sigbits_pack_take sigbits_result_trim)
    then show ?thesis using t n w' 4
      by (simp add: pc_bytes_sigbits_encode_def pc_bytes_sigbits_count_64_def sigbits_count_take)
  qed
qed

lemma zlib_encode_trim:
  "pb_size pcb \<le> length (pb_bytes pcb) \<Longrightarrow> pc_bytes_zlib_encode z (trim pcb) = pc_bytes_zlib_encode z pcb"
  using le_trans [OF mod_less_eq_dividend [of "pb_size pcb" "2 ^ 32"]]
  by (simp add: pc_bytes_zlib_encode_def rd_def) (simp add: trim_def)

lemma rd_take_Inr: "rd (take k buf) off n = Inr x \<Longrightarrow> rd buf off n = Inr x"
  by (auto simp: rd_def drop_take min_def split: if_splits)

lemma foldE_mono:
  "foldE f xs s = Inr t \<Longrightarrow> (\<And>x s t. f x s = Inr t \<Longrightarrow> g x s = Inr t) \<Longrightarrow> foldE g xs s = Inr t"
proof (induction xs arbitrary: s)
  case (Cons x xs)
  from Cons.prems(1) obtain u where "f x s = Inr u" "foldE f xs u = Inr t" by (auto simp: bindE_eq_Inr)
  then show ?case using Cons.IH Cons.prems(2) by simp
qed simp

lemma rle_total_take:
  "rle_total (take k bytes) e sz ptr m = Inr x \<Longrightarrow> rle_total bytes e sz ptr m = Inr x"
proof (induction "take k bytes" e sz ptr m rule: rle_total.induct)
  case (1 e sz ptr m)
  show ?case
  proof (cases "ptr < e")
    case True
    with 1(2) obtain c where c: "rd (take k bytes) ptr 1 = Inr c"
      "rle_total (take k bytes) e sz (ptr + 1 + sz) ((m + unat (hd c)) mod 2 ^ 32) = Inr x"
      by (subst (asm) rle_total.simps) (auto simp: bindE_eq_Inr)
    show ?thesis using 1(1) [OF True c] rd_take_Inr [OF c(1)] True by (subst rle_total.simps) simp
  next
    case False
    then show ?thesis using 1(2) by (simp add: rle_total.simps)
  qed
qed

lemma rle_expand_take:
  "rle_expand (take k rle) e sz ptr bytes b = Inr x \<Longrightarrow> rle_expand rle e sz ptr bytes b = Inr x"
proof (induction "take k rle" e sz ptr bytes b rule: rle_expand.induct)
  case (1 e sz ptr bytes b)
  let ?g = "\<lambda>rle i (bytes, bptr). bindE (rd rle (ptr + 1) sz) (\<lambda>v.
     bindE (wr bytes bptr v) (\<lambda>bytes. Inr (bytes, bptr + sz)))"
  show ?case
  proof (cases "ptr < e")
    case True
    with 1(2) obtain c bs w where c: "rd (take k rle) ptr 1 = Inr c"
      "foldE (?g (take k rle)) [0..<unat (hd c)] (bytes, b) = Inr (bs, w)"
      "rle_expand (take k rle) e sz (ptr + 1 + sz) bs w = Inr x"
      by (subst (asm) rle_expand.simps) (auto simp: bindE_eq_Inr)
    have "foldE (?g rle) [0..<unat (hd c)] (bytes, b) = Inr (bs, w)"
      by (rule foldE_mono [OF c(2)]) (auto simp: bindE_eq_Inr dest!: rd_take_Inr)
    then show ?thesis using 1(1) [OF True c(1) c(2) refl c(3)] rd_take_Inr [OF c(1)] True
      by (subst rle_expand.simps) simp
  next
    case False
    then show ?thesis using 1(2) by (simp add: rle_expand.simps)
  qed
qed

lemma rle_decode_trim:
  "pc_bytes_run_length_decode (trim pcb) = Inr d \<Longrightarrow> pc_bytes_run_length_decode pcb = Inr d"
  by (auto simp: pc_bytes_run_length_decode_def bindE_eq_Inr trim_def split: if_splits
      dest: rle_total_take rle_expand_take)

text \<open>The array of some of the values of another.\<close>

definition sub_array :: "PCBYTES \<Rightarrow> byte list list \<Rightarrow> PCBYTES" where
  "sub_array pcb ks = pcb\<lparr>pb_readonly := PC_FALSE, pb_bytes := concat ks, pb_size := length (concat ks),
     pb_npoints := length ks\<rparr>"

lemma sub_array_fields [simp]:
  "pb_npoints (sub_array pcb ks) = length ks" "pb_interpretation (sub_array pcb ks) = pb_interpretation pcb"
  "pb_compression (sub_array pcb ks) = pb_compression pcb" "pb_bytes (sub_array pcb ks) = concat ks"
  "pb_size (sub_array pcb ks) = length (concat ks)" "(sub_array pcb ks)\<lparr>pb_readonly := PC_FALSE\<rparr> = sub_array pcb ks"
  by (simp_all add: sub_array_def)

lemma sub_array_plain:
  assumes "plain pcb" "set ks \<subseteq> set (vals pcb)" "length ks \<le> pb_npoints pcb"
  shows "plain (sub_array pcb ks)" "vals (sub_array pcb ks) = ks"
proof -
  let ?sz = "isize (pb_interpretation pcb)"
  have w: "\<And>x. x \<in> set ks \<Longrightarrow> length x = ?sz" using vals_width [OF assms(1)] assms(2) by blast
  show "plain (sub_array pcb ks)" using assms(1,3) length_concat_const [OF w] by (simp add: plain_def)
  show "vals (sub_array pcb ks) = ks" using elems_concat [of ks ?sz "[]"] w by (simp add: vals_def)
qed

lemma encode_trim:
  assumes "plain (trim pcb)" "pb_size pcb \<le> length (pb_bytes pcb)" "c = PC_DIM_SIGBITS \<or> c = PC_DIM_ZLIB"
    "c = PC_DIM_SIGBITS \<Longrightarrow> 0 < pb_npoints pcb"
  shows "pc_bytes_encode z (trim pcb) c = pc_bytes_encode z pcb c"
  using assms sigbits_encode_trim [of pcb] zlib_encode_trim [of pcb z]
  by (auto simp: pc_bytes_encode_def plain_def)

lemma filter_eq:
  assumes p: "plain pcb" and f: "codec_fits z c pcb" and e: "pc_bytes_encode z pcb c = Inr e"
    and m: "length (bm_map bm) = pb_npoints pcb" and K: "K = kept (vals pcb) (bm_map bm)" "K \<noteq> []"
    and z: "c = PC_DIM_ZLIB \<Longrightarrow> zlib_fits z (sub_array pcb K)"
  shows "\<exists>a st'. pc_bytes_filter z e bm st = Inr (a, st') \<and> pb_npoints a = length K \<and> pb_compression a = c \<and>
    pb_interpretation a = pb_interpretation pcb \<and> pc_bytes_decode z a = Inr (sub_array pcb K) \<and>
    (st' = None \<longleftrightarrow> st = None)"
proof -
  note k = encode_fields [OF p f e] and d = encoded_decode [OF p f e]
  let ?t = "pb_interpretation pcb" and ?p0 = "pcb\<lparr>pb_readonly := PC_FALSE\<rparr>"
  let ?w = "length K * isize ?t"
  let ?u = "pcb\<lparr>pb_readonly := PC_FALSE, pb_bytes := concat K @ drop ?w (pb_bytes pcb), pb_size := ?w,
      pb_npoints := length K\<rparr>"
  have sub: "set K \<subseteq> set (vals pcb)" "length K \<le> pb_npoints pcb"
    using set_kept [of "vals pcb"] length_kept [of "vals pcb" "bm_map bm"] K(1) by auto
  have lc: "length (concat K) = ?w"
    by (rule length_concat_const) (use vals_width [OF p] sub(1) in blast)
  have pu: "pc_bytes_uncompressed_filter ?p0 bm st = Inr (?u, stats_over ?t K st)"
    using uncompressed_filter_eq [of ?p0 bm st] p m K(1) by (simp add: Let_def)
  have tr: "trim ?u = sub_array pcb K" by (cases pcb) (simp add: trim_def sub_array_def lc)
  note sp = sub_array_plain [OF p sub]
  have len: "pb_size ?u \<le> length (pb_bytes ?u)" by (simp add: lc)
  from f show ?thesis
  proof (cases rule: codec_cases)
    case 1
    have "rd (pb_bytes ?u) 0 (pb_size ?u) = Inr (concat K)" by (simp add: rd_def lc)
    moreover have "\<not> pc_bytes_empty ?u"
      using K(2) isize_pos [of ?t] p by (simp add: pc_bytes_empty_def plain_def)
    ultimately have "pc_bytes_clone ?u = Inr (sub_array pcb K)"
      by (simp add: pc_bytes_clone_def sub_array_def lc)
    then show ?thesis using encoded_none [OF p] e pu 1 p sp(2)
      by (simp add: pc_bytes_filter_def k pc_bytes_decode_def plain_def stats_over_def)
  next
    case 2
    then have e1: "pc_bytes_encode z pcb 1 = Inr e" using e by simp
    note a = encoded_rle [OF p e1]
    let ?ks = "kept_runs (runs_of (vals pcb)) (bm_map bm)"
    let ?f = "e\<lparr>pb_readonly := PC_FALSE, pb_bytes := rle_bytes ?ks @ drop (length (rle_bytes ?ks)) (pb_bytes e),
        pb_size := length (rle_bytes ?ks), pb_npoints := run_total ?ks\<rparr>"
    have lr: "length (bm_map bm) = pb_npoints e" using m k(1) by simp
    have rv: "run_values ?ks = K"
      using kept_runs_values [of "bm_map bm" "runs_of (vals pcb)"] a lr by (simp add: rle_array_def run_values_of K)
    have n: "run_total ?ks = length K" using length_run_values [of ?ks] rv by simp
    have ok: "runs_ok (isize ?t) ?ks" using a k(2) kept_runs_ok by (simp add: rle_array_def)
    have flt: "pc_bytes_run_length_filter e bm st = Inr (?f, stats_over ?t (map snd ?ks) st)"
      using rle_filter_eq [OF a lr] a k(2) by (simp add: Let_def rle_array_def)
    have ra: "rle_array (trim ?f) ?ks"
      using a k(1,2) ok n sub(2) by (simp add: rle_array_def)
    have es: "e\<lparr>pb_size := x, pb_npoints := y, pb_compression := PC_DIM_NONE, pb_readonly := PC_FALSE, pb_bytes := u\<rparr> =
        pcb\<lparr>pb_size := x, pb_npoints := y, pb_compression := PC_DIM_NONE, pb_readonly := PC_FALSE, pb_bytes := u\<rparr>" for x y u
      using k(2) by (cases e; cases pcb) simp
    have "pb_compression pcb = PC_DIM_NONE" using p by (simp add: plain_def)
    then have "pc_bytes_run_length_decode (trim ?f) = Inr (sub_array pcb K)"
      using rle_decode_eq [OF ra] es k(2) n rv lc by (cases e; cases pcb) (simp add: trim_def sub_array_def mult.commute)
    from rle_decode_trim [OF this] have "pc_bytes_decode z ?f = Inr (sub_array pcb K)" using 2 k(3) by (simp add: pc_bytes_decode_def)
    then show ?thesis using flt 2 k n by (simp add: pc_bytes_filter_def stats_over_def)
  next
    case 3
    have "length K * (8 * isize ?t) < 2 ^ 32"
      by (rule le_less_trans [OF mult_le_mono1 [OF sub(2)]]) (use 3(2) in \<open>simp add: sigbits_fits_def\<close>)
    then have fs: "codec_fits z PC_DIM_SIGBITS (sub_array pcb K)"
      using K(2) by (simp add: codec_fits_def sigbits_fits_def)
    have "pc_bytes_encode z ?u PC_DIM_SIGBITS = pc_bytes_encode z (sub_array pcb K) PC_DIM_SIGBITS"
      using encode_trim [of ?u PC_DIM_SIGBITS z] sp(1) len K(2) tr by simp
    moreover obtain g where g: "pc_bytes_encode z (sub_array pcb K) PC_DIM_SIGBITS = Inr g"
      using encode_decode [OF sp(1) fs] by (auto simp: bindE_eq_Inr)
    ultimately show ?thesis using pu d encoded_decode [OF sp(1) fs g] encode_fields [OF sp(1) fs g] sp(2) 3(1)
      by (simp add: pc_bytes_filter_def k stats_over_def)
  next
    case 4
    have fs: "codec_fits z PC_DIM_ZLIB (sub_array pcb K)" using z 4 by (simp add: codec_fits_def)
    have "pc_bytes_encode z ?u PC_DIM_ZLIB = pc_bytes_encode z (sub_array pcb K) PC_DIM_ZLIB"
      using encode_trim [of ?u PC_DIM_ZLIB z] sp(1) len tr by simp
    moreover obtain g where g: "pc_bytes_encode z (sub_array pcb K) PC_DIM_ZLIB = Inr g"
      using encode_decode [OF sp(1) fs] by (auto simp: bindE_eq_Inr)
    ultimately show ?thesis using pu d encoded_decode [OF sp(1) fs g] encode_fields [OF sp(1) fs g] sp(2) 4(1)
      by (simp add: pc_bytes_filter_def k stats_over_def)
  qed
qed

section \<open>Properties\<close>

text \<open>A trivial instance of zlib: storing. It needs no more than the capacity the code allots.\<close>

definition store_zlib :: zlib where
  "store_zlib = \<lparr>z_deflate = \<lambda>bs cap. take cap bs, z_inflate = \<lambda>bs n. take n bs\<rparr>"

lemma store_zlib_works: "zlib_works store_zlib"
  by (auto simp: zlib_works_def store_zlib_def min_def split: if_splits)

lemma demo_shorts_codec: "codec_fits store_zlib PC_DIM_ZLIB demo_shorts"
  using store_zlib_works by (simp add: codec_fits_def zlib_fits_def) (simp add: store_zlib_def demo_shorts_def)

lemma demo_shorts_encoded:
  "pc_bytes_encode store_zlib demo_shorts PC_DIM_ZLIB = Inr (demo_shorts\<lparr>pb_compression := PC_DIM_ZLIB\<rparr>)"
  by (simp add: pc_bytes_encode_def pc_bytes_zlib_encode_def demo_shorts_def store_zlib_def rd_def Let_def)

text \<open>
  C1: For each of the four compressions, encoding a plain array and decoding the result gives the array
  back (zlib: when the deflated data fits the buffer the code allots).
\<close>

theorem codec_roundtrip:
  assumes "plain pcb" "codec_fits z c pcb"
  shows "bindE (pc_bytes_encode z pcb c) (pc_bytes_decode z) = Inr (pcb\<lparr>pb_readonly := PC_FALSE\<rparr>)"
  by (rule encode_decode [OF assms])

theorem codec_roundtrip_witness:
  "bindE (pc_bytes_encode store_zlib demo_shorts PC_DIM_ZLIB) (pc_bytes_decode store_zlib) = Inr demo_shorts"
  using codec_roundtrip [OF demo_shorts_plain(1) demo_shorts_codec] by (simp add: demo_shorts_def)

text \<open>
  Reading point \<open>i\<close> directly out of an encoded array gives the \<open>i\<close>-th value of the array it was
  encoded from, without decoding it (significant bits: as long as bit offsets fit the array's word).
\<close>

theorem random_access:
  assumes "plain pcb" "codec_fits z c pcb" "pc_bytes_encode z pcb c = Inr e" "i < pb_npoints pcb"
    and "c = PC_DIM_SIGBITS \<longrightarrow>
      pb_npoints pcb * (8 * isize (pb_interpretation pcb)) \<le> 2 ^ (8 * isize (pb_interpretation pcb))"
  shows "pc_bytes_to_ptr z e (int i) = Inr (vals pcb ! i)"
  by (rule to_ptr_ok [OF assms])

theorem random_access_witness:
  "pc_bytes_to_ptr store_zlib (demo_shorts\<lparr>pb_compression := PC_DIM_ZLIB\<rparr>) 3 = Inr [2, 1]"
  using random_access [OF demo_shorts_plain(1) demo_shorts_codec demo_shorts_encoded, of 3]
  by (simp add: demo_shorts_plain(2)) (simp add: demo_shorts_def)

text \<open>
  The bitmap of a filter condition is the same for all four representations of an array: point \<open>i\<close>
  is set exactly when its value meets the condition, and \<open>nset\<close> is the number of set points.
\<close>

theorem bitmap_of_condition:
  assumes "plain pcb" "codec_fits z c pcb" "pc_bytes_encode z pcb c = Inr e"
  shows "pc_bytes_bitmap z e ft val1 val2 =
    Inr (bitmap_of (map (\<lambda>v. filter_cond ft (dval (pb_interpretation pcb) v) val1 val2) (vals pcb)))"
  by (rule bitmap_eq [OF assms])

theorem bitmap_of_condition_witness:
  "\<exists>m. pc_bytes_bitmap store_zlib (demo_shorts\<lparr>pb_compression := PC_DIM_ZLIB\<rparr>) PC_GT d_zero d_one = Inr m \<and> bm_npoints m = 4"
  using bitmap_of_condition [OF demo_shorts_plain(1) demo_shorts_codec demo_shorts_encoded, of PC_GT d_zero d_one]
  by (simp add: bitmap_of_def) (simp add: demo_shorts_def)

text \<open>
  Filtering an encoded array by a bitmap that keeps at least one point gives an array of the same
  compression that decodes to exactly the kept values, in order.
\<close>

theorem filter_keeps_flagged:
  assumes "plain pcb" "codec_fits z c pcb" "pc_bytes_encode z pcb c = Inr e"
    and "length (bm_map bm) = pb_npoints pcb" "kept (vals pcb) (bm_map bm) \<noteq> []"
    and "c = PC_DIM_ZLIB \<Longrightarrow> zlib_fits z (sub_array pcb (kept (vals pcb) (bm_map bm)))"
  shows "\<exists>a st' d. pc_bytes_filter z e bm st = Inr (a, st') \<and> pb_compression a = c \<and>
    pb_npoints a = length (kept (vals pcb) (bm_map bm)) \<and>
    pc_bytes_decode z a = Inr d \<and> vals d = kept (vals pcb) (bm_map bm)"
proof -
  let ?K = "kept (vals pcb) (bm_map bm)"
  have "length ?K \<le> pb_npoints pcb" using length_kept [of "vals pcb" "bm_map bm"] by simp
  then have "vals (sub_array pcb ?K) = ?K" by (rule sub_array_plain(2) [OF assms(1) set_kept])
  then show ?thesis using filter_eq [OF assms(1-4) refl assms(5,6), of st] by blast
qed

theorem filter_keeps_flagged_witness:
  "\<exists>a st' d. pc_bytes_filter store_zlib (demo_shorts\<lparr>pb_compression := PC_DIM_ZLIB\<rparr>)
      \<lparr>bm_nset = 2, bm_npoints = 4, bm_map = [0, 1, 0, 1]\<rparr> None = Inr (a, st') \<and>
    pc_bytes_decode store_zlib a = Inr d \<and> vals d = [[1, 0], [2, 1]]"
proof -
  let ?bm = "\<lparr>bm_nset = 2, bm_npoints = 4, bm_map = [0, 1, 0, 1]\<rparr>"
  have m: "length (bm_map ?bm) = pb_npoints demo_shorts" by (simp add: demo_shorts_def)
  have k: "kept (vals demo_shorts) (bm_map ?bm) = [[1, 0], [2, 1]]" by (simp add: demo_shorts_plain(2))
  have "zlib_fits store_zlib (sub_array demo_shorts (kept (vals demo_shorts) (bm_map ?bm)))"
    unfolding k zlib_fits_def using store_zlib_works by (simp add: store_zlib_def)
  from filter_keeps_flagged [OF demo_shorts_plain(1) demo_shorts_codec demo_shorts_encoded m _ this, of None]
  show ?thesis unfolding k by simp blast
qed

text \<open>
  The minimum and the maximum computed on an encoded array are those of its values, whatever the
  compression.
\<close>

theorem extremes_of_values:
  assumes "plain pcb" "codec_fits z c pcb" "pc_bytes_encode z pcb c = Inr e"
  shows "\<exists>mn mx avg. pc_bytes_minmax z e = Inr (mn, mx, avg) \<and>
    (mn, mx) = fold (\<lambda>v. ext_add (dval (pb_interpretation pcb) v)) (vals pcb) (FLT_MAX, minus_FLT_MAX)"
  using extremes_eq [OF assms] by (auto simp: extremes_def split: prod.splits)

theorem extremes_of_values_witness:
  "\<exists>mn mx avg. pc_bytes_minmax store_zlib (demo_shorts\<lparr>pb_compression := PC_DIM_ZLIB\<rparr>) = Inr (mn, mx, avg)"
  using extremes_of_values [OF demo_shorts_plain(1) demo_shorts_codec demo_shorts_encoded] by blast

text \<open>
  The statistics the filters gather: the plain filter adds every kept point, the run-length filter
  every kept run, once. For two kept points of value 1 the sums are therefore 2 and 1.
\<close>

theorem filter_statistics:
  assumes "plain pcb" "pc_bytes_run_length_encode pcb = Inr e" "length (bm_map bm) = pb_npoints pcb"
  shows "(\<exists>a. pc_bytes_uncompressed_filter pcb bm st =
      Inr (a, stats_over (pb_interpretation pcb) (kept (vals pcb) (bm_map bm)) st)) \<and>
    (\<exists>a. pc_bytes_run_length_filter e bm st =
      Inr (a, stats_over (pb_interpretation pcb) (map snd (kept_runs (runs_of (vals pcb)) (bm_map bm))) st))"
proof -
  note a = rle_encode_array [OF assms(1,2)]
  have "length (bm_map bm) = pb_npoints e" using assms(3) a(2) by simp
  from rle_filter_eq [OF a(1) this] uncompressed_filter_eq [OF assms(1,3)] a(3) show ?thesis
    by (simp add: Let_def)
qed

definition demo_ones :: PCBYTES where
  "demo_ones = \<lparr>pb_size = 2, pb_npoints = 2, pb_interpretation = PC_UINT8, pb_compression = PC_DIM_NONE,
     pb_readonly = PC_FALSE, pb_bytes = [1, 1]\<rparr>"

lemma demo_ones_plain: "plain demo_ones" "vals demo_ones = [[1], [1]]"
  by (simp_all add: plain_def demo_ones_def known_interp_def vals_def elems_def upt_rec)

theorem filter_statistics_witness:
  "\<exists>e a b s1 s2. pc_bytes_run_length_encode demo_ones = Inr e \<and>
     pc_bytes_uncompressed_filter demo_ones (bitmap_of [True, True])
       (Some \<lparr>ds_min = DBL_MAX, ds_max = minus_DBL_MAX, ds_sum = d_zero\<rparr>) = Inr (a, Some s1) \<and>
     pc_bytes_run_length_filter e (bitmap_of [True, True])
       (Some \<lparr>ds_min = DBL_MAX, ds_max = minus_DBL_MAX, ds_sum = d_zero\<rparr>) = Inr (b, Some s2) \<and>
     ds_sum s1 = d_of_int 2 \<and> ds_sum s2 = d_of_int 1"
proof -
  let ?st = "Some \<lparr>ds_min = DBL_MAX, ds_max = minus_DBL_MAX, ds_sum = d_zero\<rparr>"
  obtain e where e: "pc_bytes_run_length_encode demo_ones = Inr e"
    using rle_encode_eq [OF demo_ones_plain(1)] by simp
  have m: "length (bm_map (bitmap_of [True, True])) = pb_npoints demo_ones"
    by (simp add: bitmap_of_def demo_ones_def)
  have d: "dval 2 [1] = d_of_int 1"
    by (simp add: dval_def pc_double_from_ptr_def rd_def word_of_bytes_def)
  have r: "kept_runs (runs_of [[1], [1]]) [1, 1] = [(2, [1])]" by (simp add: flags_def)
  have t: "pb_interpretation demo_ones = 2" "bm_map (bitmap_of [True, True]) = [1, 1]"
    by (simp_all add: demo_ones_def bitmap_of_def)
  have sum: "ds_sum (stat_add d s) = d_add (ds_sum s) d" for d s by (simp add: stat_add_def Let_def)
  have "d_zero = d_of_int 0" by (simp add: d_zero_def d_of_int_def)
  then have add: "d_add d_zero (d_of_int 1) = d_of_int 1" "d_add (d_of_int 1) (d_of_int 1) = d_of_int 2"
    using d_add_of_int [of 0 1] d_add_of_int [of 1 1] by (simp_all add: exact_int_def)
  define s where "s = \<lparr>ds_min = DBL_MAX, ds_max = minus_DBL_MAX, ds_sum = d_zero\<rparr>"
  have s0: "ds_sum s = d_zero" by (simp add: s_def)
  have o: "stats_over 2 [[1], [1]] (Some s) = Some (stat_add (d_of_int 1) (stat_add (d_of_int 1) s))"
    "stats_over 2 [[1]] (Some s) = Some (stat_add (d_of_int 1) s)"
    by (simp_all only: stats_over_def option.map fold_simps d)
  have k: "kept [[1], [1]] [1, 1] = [[1], [1] :: byte list]" "map snd [(2 :: nat, [1 :: byte])] = [[1]]" by simp_all
  note f = filter_statistics [OF demo_ones_plain(1) e m, of "Some s", unfolded demo_ones_plain(2) t r k o]
  have "ds_sum (stat_add (d_of_int 1) (stat_add (d_of_int 1) s)) = d_of_int 2"
    "ds_sum (stat_add (d_of_int 1) s) = d_of_int 1"
    by (simp_all only: sum s0 add)
  then show ?thesis using f e unfolding s_def [symmetric] by blast
qed

end
