(* ===== verification/PC_Patch_Uncompressed.thy ===== *)
theory PC_Patch_Uncompressed
  imports PC_Bounds PC_Bytes_Values
begin

text \<open>
  Point lists (lib/pc_pointlist.c) and uncompressed patches (lib/pc_patch_uncompressed.c and the
  statistics of lib/pc_stats.c). The three patch structures share the fields of \<open>PCPATCH_COMMON\<close>,
  which is the record \<open>PCPATCH\<close> here; the others extend it.

  A pointer into the data of a patch is the rest of the data from there on.
\<close>

section \<open>Point lists\<close>

record PCPOINTLIST =
  pl_npoints :: nat
  pl_maxpoints :: nat
  pl_points :: "PCPOINT option list"

definition pc_pointlist_make :: "nat \<Rightarrow> PCPOINTLIST" where
  "pc_pointlist_make npoints = \<lparr>pl_npoints = 0, pl_maxpoints = npoints, pl_points = replicate npoints None\<rparr>"

text \<open>\<open>pcrealloc\<close> keeps the old slots; the new ones are not read before they are written.\<close>

definition pc_pointlist_add_point :: "PCPOINTLIST \<Rightarrow> PCPOINT option \<Rightarrow> PCPOINTLIST res" where
  "pc_pointlist_add_point pl pt =
     (let pl = (if pl_maxpoints pl \<le> pl_npoints pl
                then let m = (if pl_maxpoints pl < 1 then 1 else pl_maxpoints pl) * 2 mod 2 ^ 32
                     in pl\<lparr>pl_maxpoints := m,
                           pl_points := take m (pl_points pl) @ replicate (m - length (pl_points pl)) None\<rparr>
                else pl) in
     bindE (wrx (pl_points pl) (pl_npoints pl) pt) (\<lambda>points.
     Inr (pl\<lparr>pl_points := points, pl_npoints := (pl_npoints pl + 1) mod 2 ^ 32\<rparr>)))"

definition pc_pointlist_get_point :: "PCPOINTLIST \<Rightarrow> int \<Rightarrow> PCPOINT option res" where
  "pc_pointlist_get_point pl i = (if i < 0 then Inl OutOfBounds else rdx (pl_points pl) (nat i))"

section \<open>Patches\<close>

record PCPATCH =
  pa_type :: nat
  pa_readonly :: nat
  pa_schema :: PCSCHEMA
  pa_npoints :: nat
  pa_bounds :: PCBOUNDS
  pa_stats :: "PCSTATS option"

record PCPATCH_UNCOMPRESSED = PCPATCH +
  pu_maxpoints :: nat
  pu_datasize :: nat
  pu_data :: "byte list"

text \<open>Memory of \<open>pcalloc\<close> is zero: so are the bounds of a patch that sets none.\<close>

definition zero_bounds :: PCBOUNDS where
  "zero_bounds = \<lparr>b_xmin = 0, b_xmax = 0, b_ymin = 0, b_ymax = 0\<rparr>"

definition pc_patch_uncompressed_to_wkb :: "PCPATCH_UNCOMPRESSED \<Rightarrow> (byte list \<times> nat) res" where
  "pc_patch_uncompressed_to_wkb patch =
     (let sz = 1 + 4 + 4 + 4 + pu_datasize patch in
     bindE (wr (pcalloc sz) 0 [machine_endian]) (\<lambda>wkb.
     bindE (wr wkb 1 (bytes_of_word (word_of_nat (sc_pcid (pa_schema patch)) :: 32 word))) (\<lambda>wkb.
     bindE (wr wkb 5 (bytes_of_word (word_of_nat (pa_type patch) :: 32 word))) (\<lambda>wkb.
     bindE (wr wkb 9 (bytes_of_word (word_of_nat (pa_npoints patch) :: 32 word))) (\<lambda>wkb.
     bindE (rd (pu_data patch) 0 (pu_datasize patch)) (\<lambda>d.
     bindE (wr wkb 13 d) (\<lambda>wkb. Inr (wkb, sz))))))))"

definition pc_patch_uncompressed_from_wkb :: "PCSCHEMA \<Rightarrow> byte list \<Rightarrow> nat \<Rightarrow> PCPATCH_UNCOMPRESSED res" where
  "pc_patch_uncompressed_from_wkb s wkb wkbsize =
     (let hdrsz = 1 + 4 + 4 + 4 in
     bindE (rd wkb 0 1) (\<lambda>e. let swap_endian = (hd e \<noteq> machine_endian) in
     bindE (wkb_get_compression wkb) (\<lambda>c.
     if c \<noteq> 0 then Inl (PcError ''pc_patch_uncompressed_from_wkb: call with wkb that is not uncompressed'')
     else bindE (wkb_get_npoints wkb) (\<lambda>np. let npoints = unat np;
            datasize = nat ((int wkbsize - int hdrsz) mod 2 ^ 64) in
     if datasize \<noteq> sc_size s * npoints mod 2 ^ 64
     then Inl (PcError ''pc_patch_uncompressed_from_wkb: wkb size and expected data size do not match'')
     else bindE (if swap_endian then uncompressed_bytes_flip_endian wkb hdrsz s npoints
                 else rd wkb hdrsz (npoints * sc_size s mod 2 ^ 64)) (\<lambda>data.
     Inr \<lparr>pa_type = PC_NONE, pa_readonly = PC_FALSE, pa_schema = s, pa_npoints = npoints,
          pa_bounds = zero_bounds, pa_stats = None, pu_maxpoints = npoints, pu_datasize = datasize,
          pu_data = data\<rparr>)))))"

definition pc_patch_uncompressed_make :: "PCSCHEMA option \<Rightarrow> nat \<Rightarrow> PCPATCH_UNCOMPRESSED res" where
  "pc_patch_uncompressed_make s maxpoints = (case s of
       None \<Rightarrow> Inl (PcError ''pc_patch_uncompressed_make: null schema passed in'')
     | Some s \<Rightarrow> if sc_size s = 0 then Inl (PcError ''pc_patch_uncompressed_make, invalid size calculation'')
         else let datasize = sc_size s * maxpoints mod 2 ^ 64 in
           Inr \<lparr>pa_type = PC_NONE, pa_readonly = PC_FALSE, pa_schema = s, pa_npoints = 0,
                pa_bounds = pc_bounds_init, pa_stats = None, pu_maxpoints = maxpoints,
                pu_datasize = datasize, pu_data = pcalloc datasize\<rparr>)"

text \<open>State of the loop: the box, and the locals \<open>x\<close> and \<open>y\<close>.\<close>

definition extent_step ::
  "PCPATCH_UNCOMPRESSED \<Rightarrow> nat \<Rightarrow> PCBOUNDS \<times> double option \<times> double option \<Rightarrow>
   (PCBOUNDS \<times> double option \<times> double option) res" where
  "extent_step patch i st = (case st of (b, x, y) \<Rightarrow>
     let pt = \<lparr>pt_readonly = PC_TRUE, pt_schema = pa_schema patch,
               pt_data = drop (i * sc_size (pa_schema patch)) (pu_data patch)\<rparr> in
     bindE (got (pc_point_get_x pt) x) (\<lambda>x. bindE (got (pc_point_get_y pt) y) (\<lambda>y.
     bindE (used x) (\<lambda>xv. bindE (used y) (\<lambda>yv. Inr (bounds_add xv yv b, x, y))))))"

definition pc_patch_uncompressed_compute_extent :: "PCPATCH_UNCOMPRESSED \<Rightarrow> PCPATCH_UNCOMPRESSED res" where
  "pc_patch_uncompressed_compute_extent patch =
     bindE (foldE (extent_step patch) [0..<pa_npoints patch] (pc_bounds_init, None, None)) (\<lambda>(b, _, _).
     Inr (patch\<lparr>pa_bounds := b\<rparr>))"

definition pc_patch_uncompressed_readonly :: "PCPATCH_UNCOMPRESSED \<Rightarrow> PCPATCH_UNCOMPRESSED \<times> byte list option" where
  "pc_patch_uncompressed_readonly patch =
     (patch\<lparr>pa_readonly := PC_TRUE\<rparr>, if pa_readonly patch \<noteq> 0 then None else Some (pu_data patch))"

text \<open>State of the inner loop: the local \<open>val\<close> and the running statistics.\<close>

definition stats_step ::
  "PCSCHEMA \<Rightarrow> PCPOINT \<Rightarrow> nat \<Rightarrow> double option \<times> PCDOUBLESTAT list \<Rightarrow> (double option \<times> PCDOUBLESTAT list) res" where
  "stats_step schema pt j st = (case st of (val, dims) \<Rightarrow>
     bindE (got (pc_point_get_double pt (deref schema (sc_dims schema ! j))) val) (\<lambda>val.
     bindE (used val) (\<lambda>v. bindE (rdx dims j) (\<lambda>d. bindE (wrx dims j (stat_add v d)) (\<lambda>dims.
     Inr (val, dims))))))"

definition pc_patch_uncompressed_compute_stats :: "PCPATCH_UNCOMPRESSED \<Rightarrow> PCPATCH_UNCOMPRESSED res" where
  "pc_patch_uncompressed_compute_stats pa =
     (let schema = pa_schema pa; dstats = pc_dstats_new (sc_ndims schema) in
     bindE (foldE (\<lambda>i st.
              let pt = \<lparr>pt_readonly = PC_TRUE, pt_schema = schema, pt_data = drop (i * sc_size schema) (pu_data pa)\<rparr>
              in foldE (stats_step schema pt) [0..<sc_ndims schema] st)
            [0..<pa_npoints pa] (None, dss_dims dstats)) (\<lambda>(_, dims).
     bindE (pc_stats_new_from_dstats schema \<lparr>dss_npoints = pa_npoints pa, dss_dims = dims\<rparr>) (\<lambda>stats.
     Inr (pa\<lparr>pa_stats := Some stats\<rparr>))))"

text \<open>State of the loop: data, write position, number of points.\<close>

definition pointlist_step ::
  "PCSCHEMA \<Rightarrow> PCPOINTLIST \<Rightarrow> nat \<Rightarrow> byte list \<times> nat \<times> nat \<Rightarrow> (byte list \<times> nat \<times> nat) res" where
  "pointlist_step s pl i st = (case st of (data, ptr, npoints) \<Rightarrow>
     bindE (pc_pointlist_get_point pl (int i)) (\<lambda>pt. case pt of
         None \<Rightarrow> Inr (data, ptr, npoints)
       | Some pt \<Rightarrow>
           if sc_pcid (pt_schema pt) \<noteq> sc_pcid s
           then Inl (PcError ''pc_patch_uncompressed_from_pointlist: points do not share a schema'')
           else bindE (rd (pt_data pt) 0 (sc_size s)) (\<lambda>d. bindE (wr data ptr d) (\<lambda>data.
                Inr (data, ptr + sc_size s, npoints + 1)))))"

definition pc_patch_uncompressed_from_pointlist :: "PCPOINTLIST option \<Rightarrow> PCPATCH_UNCOMPRESSED res" where
  "pc_patch_uncompressed_from_pointlist pl = (case pl of
       None \<Rightarrow> Inl (PcError ''pc_patch_uncompressed_from_pointlist: null PCPOINTLIST passed in'')
     | Some pl \<Rightarrow> let numpts = pl_npoints pl in
         if numpts = 0 then Inl (PcError ''pc_patch_uncompressed_from_pointlist: zero size PCPOINTLIST passed in'')
         else bindE (pc_pointlist_get_point pl 0) (\<lambda>pt. case pt of None \<Rightarrow> Inl OutOfBounds | Some pt \<Rightarrow>
         let s = pt_schema pt in
         if sc_size s = 0 then Inl (PcError ''pc_patch_uncompressed_from_pointlist: invalid point size'')
         else let datasize = sc_size s * numpts mod 2 ^ 64 in
         bindE (foldE (pointlist_step s pl) [0..<numpts] (pcalloc datasize, 0, 0)) (\<lambda>(data, _, npoints).
         bindE (pc_patch_uncompressed_compute_extent
                  \<lparr>pa_type = PC_NONE, pa_readonly = PC_FALSE, pa_schema = s, pa_npoints = npoints,
                   pa_bounds = pc_bounds_init, pa_stats = None, pu_maxpoints = numpts,
                   pu_datasize = datasize, pu_data = data\<rparr>)
           pc_patch_uncompressed_compute_stats)))"

text \<open>
  A full buffer is doubled, to exactly \<open>datasize\<close> bytes; new bytes are written before they are read.
\<close>

definition grow_data :: "PCPATCH_UNCOMPRESSED \<Rightarrow> PCPATCH_UNCOMPRESSED" where
  "grow_data c = (if pa_npoints c = pu_maxpoints c
     then let m = pu_maxpoints c * 2 mod 2 ^ 32; n = m * sc_size (pa_schema c) mod 2 ^ 64
          in c\<lparr>pu_maxpoints := m, pu_datasize := n,
               pu_data := take n (pu_data c) @ replicate (n - length (pu_data c)) 0\<rparr>
     else c)"

definition pc_patch_uncompressed_add_point ::
  "PCPATCH_UNCOMPRESSED option \<Rightarrow> PCPOINT option \<Rightarrow> PCPATCH_UNCOMPRESSED res" where
  "pc_patch_uncompressed_add_point c p = (case (c, p) of
       (Some c, Some p) \<Rightarrow>
         if sc_pcid (pa_schema c) \<noteq> sc_pcid (pt_schema p)
         then Inl (PcError ''pc_patch_uncompressed_add_point: pcids of point (%d) and patch (%d) not equal'')
         else if pa_readonly c \<noteq> 0
         then Inl (PcError ''pc_patch_uncompressed_add_point: cannot add point to readonly patch'')
         else if pa_type c \<noteq> PC_NONE
         then Inl (PcError ''pc_patch_uncompressed_add_point: cannot add point to compressed patch'')
         else
           let sz = sc_size (pa_schema c); c = grow_data c in
           bindE (rd (pt_data p) 0 sz) (\<lambda>d.
           bindE (wr (pu_data c) (sz * pa_npoints c) d) (\<lambda>data.
           bindE (got (pc_point_get_x p) None) (\<lambda>x. bindE (got (pc_point_get_y p) None) (\<lambda>y.
           bindE (used x) (\<lambda>x. bindE (used y) (\<lambda>y.
           Inr (c\<lparr>pu_data := data, pa_npoints := (pa_npoints c + 1) mod 2 ^ 32,
                  pa_bounds := bounds_add x y (pa_bounds c)\<rparr>)))))))
     | _ \<Rightarrow> Inl (PcError ''pc_patch_uncompressed_add_point: null point or patch argument''))"

definition pc_patch_uncompressed_pointn :: "PCPATCH_UNCOMPRESSED \<Rightarrow> int \<Rightarrow> PCPOINT res" where
  "pc_patch_uncompressed_pointn patch n =
     (if n < 0 then Inl OutOfBounds
      else pc_point_from_data (Some (pa_schema patch)) (drop (nat n * sc_size (pa_schema patch)) (pu_data patch)))"

definition pc_pointlist_from_uncompressed :: "PCPATCH_UNCOMPRESSED \<Rightarrow> PCPOINTLIST res" where
  "pc_pointlist_from_uncompressed patch =
     (let pt_size = sc_size (pa_schema patch); npoints = pa_npoints patch in
     foldE (\<lambda>i pl. bindE (pc_point_from_data (Some (pa_schema patch)) (drop (i * pt_size) (pu_data patch))) (\<lambda>pt.
              pc_pointlist_add_point pl (Some pt)))
       [0..<npoints] (pc_pointlist_make npoints))"

section \<open>Points of a patch\<close>

text \<open>\<open>pval s j w\<close> is the value of dimension \<open>j\<close> of the point with the bytes \<open>w\<close>.\<close>

definition pval :: "PCSCHEMA \<Rightarrow> nat \<Rightarrow> byte list \<Rightarrow> double" where
  "pval s j w = pc_value_scale_offset (dval (dim_interpretation (sdim s j)) (fld s w j)) (sdim s j)"

definition pts :: "PCPATCH_UNCOMPRESSED \<Rightarrow> byte list list" where
  "pts p = elems (sc_size (pa_schema p)) (pa_npoints p) (pu_data p)"

lemma length_pts [simp]: "length (pts p) = pa_npoints p"
  by (simp add: pts_def)

lemma get_pval:
  assumes s: "schema_ready s" "j < sc_ndims s" and w: "length w = sc_size s"
    and pt: "pt_schema pt = s" "pt_data pt = w @ rest"
  shows "pc_point_get_double pt (Some (sdim s j)) = Inr (Some (pval s j w))"
proof -
  let ?d = "sdim s j"
  have "dim_byteoffset ?d + isize (dim_interpretation ?d) \<le> length w"
    using ready_inside [OF s] ready_layout(1) [OF s] w by simp
  then have "rd (pt_data pt) (dim_byteoffset ?d) (isize (dim_interpretation ?d)) = Inr (fld s w j)"
    using ready_layout(1) [OF s] by (simp add: pt(2) rd_def fld_def)
  from double_from_rd [OF ready_dims(3) [OF s] this] show ?thesis
    by (simp add: pc_point_get_double_def pval_def)
qed

text \<open>The positions of the X and the Y dimension.\<close>

definition has_xy :: "PCSCHEMA \<Rightarrow> nat \<Rightarrow> nat \<Rightarrow> bool" where
  "has_xy s ix iy = (ix < sc_ndims s \<and> iy < sc_ndims s \<and> sc_xdim s = sc_dims s ! ix \<and> sc_ydim s = sc_dims s ! iy)"

lemma get_xy:
  assumes "schema_ready s" "has_xy s ix iy" "length w = sc_size s" "pt_schema pt = s" "pt_data pt = w @ rest"
  shows "pc_point_get_x pt = Inr (Some (pval s ix w))" "pc_point_get_y pt = Inr (Some (pval s iy w))"
  using get_pval [OF assms(1) _ assms(3-5)] ready_dims(2) [OF assms(1)] assms(2,4)
  by (simp_all add: pc_point_get_x_def pc_point_get_y_def has_xy_def)

text \<open>
  The data is exactly the room for \<open>maxpoints\<close> points; or the patch refers to the points of a stored one,
  is read-only and has no room of its own.
\<close>

definition patch_ok :: "PCPATCH_UNCOMPRESSED \<Rightarrow> bool" where
  "patch_ok p = (schema_ready (pa_schema p) \<and> pa_npoints p < 2 ^ 32 \<and> length (pu_data p) = pu_datasize p \<and>
     (pa_npoints p \<le> pu_maxpoints p \<and> pu_maxpoints p < 2 ^ 32 \<and> pu_datasize p = pu_maxpoints p * sc_size (pa_schema p) \<or>
      pa_readonly p = PC_TRUE \<and> pu_maxpoints p = 0 \<and> pu_datasize p = pa_npoints p * sc_size (pa_schema p)))"

lemma patch_capacity:
  assumes "patch_ok p" "pa_readonly p = PC_FALSE \<or> pa_npoints p \<le> pu_maxpoints p"
  shows "pa_npoints p \<le> pu_maxpoints p" "pu_maxpoints p < 2 ^ 32" "pu_datasize p = pu_maxpoints p * sc_size (pa_schema p)"
    "length (pu_data p) = pu_maxpoints p * sc_size (pa_schema p)" "schema_ready (pa_schema p)"
  using assms by (auto simp: patch_ok_def)

lemma patch_room:
  assumes "patch_ok p"
  shows "pa_npoints p * sc_size (pa_schema p) \<le> length (pu_data p)"
  using assms by (auto simp: patch_ok_def)

lemma pts_width: "patch_ok p \<Longrightarrow> w \<in> set (pts p) \<Longrightarrow> length w = sc_size (pa_schema p)"
  unfolding pts_def by (rule elems_lengths [OF patch_room])

lemma pts_at:
  assumes "patch_ok p" "i < pa_npoints p"
  shows "drop (i * sc_size (pa_schema p)) (pu_data p) =
    pts p ! i @ drop (Suc i * sc_size (pa_schema p)) (pu_data p)" "length (pts p ! i) = sc_size (pa_schema p)"
proof -
  let ?n = "sc_size (pa_schema p)" and ?d = "pu_data p"
  have d: "drop (Suc i * ?n) ?d = drop ?n (drop (i * ?n) ?d)" by (simp add: add.commute)
  show "drop (i * ?n) ?d = pts p ! i @ drop (Suc i * ?n) ?d"
    unfolding d pts_def nth_elems [OF assms(2)] by (rule append_take_drop_id [symmetric])
  show "length (pts p ! i) = ?n" using pts_width [OF assms(1)] assms(2) by simp
qed

section \<open>The extent\<close>

definition extent :: "PCSCHEMA \<Rightarrow> nat \<Rightarrow> nat \<Rightarrow> byte list list \<Rightarrow> PCBOUNDS" where
  "extent s ix iy ws = fold (\<lambda>w. bounds_add (pval s ix w) (pval s iy w)) ws pc_bounds_init"

lemma extent_snoc: "extent s ix iy (ws @ [w]) = bounds_add (pval s ix w) (pval s iy w) (extent s ix iy ws)"
  by (simp add: extent_def)

lemma compute_extent_eq:
  assumes p: "patch_ok p" and xy: "has_xy (pa_schema p) ix iy"
  shows "pc_patch_uncompressed_compute_extent p = Inr (p\<lparr>pa_bounds := extent (pa_schema p) ix iy (pts p)\<rparr>)"
proof -
  let ?s = "pa_schema p"
  have s: "schema_ready ?s" using p by (simp add: patch_ok_def)
  have "\<exists>x y. foldE (extent_step p) [0..<n] (pc_bounds_init, None, None) =
      Inr (extent ?s ix iy (take n (pts p)), x, y)" if "n \<le> pa_npoints p" for n
    using that
  proof (induction n)
    case (Suc n)
    then obtain x y where f: "foldE (extent_step p) [0..<n] (pc_bounds_init, None, None) =
        Inr (extent ?s ix iy (take n (pts p)), x, y)" by auto
    have n: "n < pa_npoints p" using Suc.prems by simp
    let ?pt = "\<lparr>pt_readonly = PC_TRUE, pt_schema = ?s, pt_data = drop (n * sc_size ?s) (pu_data p)\<rparr>"
    have "pc_point_get_x ?pt = Inr (Some (pval ?s ix (pts p ! n)))" "pc_point_get_y ?pt = Inr (Some (pval ?s iy (pts p ! n)))"
      using get_xy [OF s xy pts_at(2) [OF p n], of ?pt] pts_at(1) [OF p n] by simp_all
    moreover have "take (Suc n) (pts p) = take n (pts p) @ [pts p ! n]" using n by (simp add: take_Suc_conv_app_nth)
    ultimately show ?case
      by (simp only: foldE_upt_Suc f bindE_Inr extent_snoc) (simp add: extent_step_def got_def used_def Let_def)
  qed (simp add: extent_def)
  from this [of "pa_npoints p"] show ?thesis
    by (auto simp: pc_patch_uncompressed_compute_extent_def)
qed

definition at_xy :: "double \<Rightarrow> double \<Rightarrow> PCBOUNDS" where
  "at_xy x y = \<lparr>b_xmin = x, b_xmax = x, b_ymin = y, b_ymax = y\<rparr>"

lemma init_ok: "box_ok pc_bounds_init"
  by (simp add: box_ok_def pc_bounds_init_def d_isnan_def d_mag_def DBL_MAX_def minus_DBL_MAX_def)

text \<open>The extent is the least box above the empty one that holds every point.\<close>

lemma extent_least:
  assumes "\<forall>w \<in> set ws. \<not> d_isnan (pval s ix w) \<and> \<not> d_isnan (pval s iy w)" "box_ok c"
  shows "box_ok (extent s ix iy ws) \<and> (box_le (extent s ix iy ws) c \<longleftrightarrow>
    box_le pc_bounds_init c \<and> (\<forall>w \<in> set ws. box_le (at_xy (pval s ix w) (pval s iy w)) c))"
  using assms(1)
proof (induction ws rule: rev_induct)
  case Nil
  then show ?case by (simp add: extent_def init_ok)
next
  case (snoc w ws)
  have "box_ok (at_xy (pval s ix w) (pval s iy w))" using snoc.prems by (simp add: box_ok_def at_xy_def)
  moreover have "box_ok (extent s ix iy ws)" using snoc by simp
  ultimately show ?case using merge_least [OF _ _ assms(2)] snoc
    by (auto simp: extent_snoc add_is_merge at_xy_def [symmetric])
qed

section \<open>Adding points\<close>

lemma elems_append_write:
  assumes "length w = n" "k * n + n \<le> length buf"
  shows "elems n (Suc k) (take (k * n) buf @ w @ drop (k * n + n) buf) = elems n k buf @ [w]"
proof -
  let ?b = "take (k * n) buf @ w @ drop (k * n + n) buf"
  have "elems n k ?b = elems n k buf" by (rule elems_take_cong) (use assms(2) in simp)
  moreover have "take n (drop (k * n) ?b) = w" using assms by simp
  ultimately show ?thesis by (simp only: elems_snoc)
qed

lemma add_point_eq:
  assumes c: "patch_ok c" "pa_type c = PC_NONE" "pa_readonly c = PC_FALSE" and xy: "has_xy (pa_schema c) ix iy"
    and p: "pt_schema p = pa_schema c" "pt_data p = w @ rest" "length w = sc_size (pa_schema c)"
    and room: "0 < pu_maxpoints c" "pu_maxpoints c < 2 ^ 31"
  shows "\<exists>c'. pc_patch_uncompressed_add_point (Some c) (Some p) = Inr c' \<and> patch_ok c' \<and> pa_schema c' = pa_schema c \<and>
    pts c' = pts c @ [w] \<and> pa_bounds c' = bounds_add (pval (pa_schema c) ix w) (pval (pa_schema c) iy w) (pa_bounds c) \<and>
    pa_type c' = PC_NONE \<and> pa_readonly c' = PC_FALSE \<and> pa_npoints c' = pa_npoints c + 1"
proof -
  let ?s = "pa_schema c"
  let ?n = "sc_size ?s" and ?k = "pa_npoints c"
  have s: "schema_ready ?s" using c by (simp add: patch_ok_def)
  define g where "g = grow_data c"
  have m: "pu_maxpoints c * 2 mod 2 ^ 32 = pu_maxpoints c * 2" using room by simp
  have "pu_maxpoints c * 2 * ?n < 2 ^ 32 * 2 ^ 32"
    using ready_layout(4) [OF s] room by (intro mult_strict_mono) simp_all
  then have mn: "pu_maxpoints c * 2 * ?n mod 2 ^ 64 = pu_maxpoints c * 2 * ?n" by simp
  have g: "patch_ok g" "pa_schema g = ?s" "pa_npoints g = ?k" "?k < pu_maxpoints g" "pa_bounds g = pa_bounds c"
    "pa_type g = 0" "pa_readonly g = 0" "take (?k * ?n) (pu_data g) = take (?k * ?n) (pu_data c)"
    using c room m mn by (auto simp: g_def grow_data_def Let_def patch_ok_def min_def not_le mult.commute)
  have e: "elems ?n ?k (pu_data g) = pts c"
    unfolding pts_def by (rule elems_take_cong [OF g(8)])
  have b: "?k * ?n + ?n \<le> length (pu_data g)"
    using elem_bound [OF g(4), of ?n] patch_capacity(4) [OF g(1)] g(2,7) by simp
  have r: "rd (pt_data p) 0 ?n = Inr w" using p by (simp add: rd_def)
  have w: "wr (pu_data g) (?n * ?k) w = Inr (take (?k * ?n) (pu_data g) @ w @ drop (?k * ?n + ?n) (pu_data g))"
    using b p(3) by (simp add: wr_def mult.commute)
  let ?c' = "g\<lparr>pu_data := take (?k * ?n) (pu_data g) @ w @ drop (?k * ?n + ?n) (pu_data g), pa_npoints := ?k + 1,
      pa_bounds := bounds_add (pval ?s ix w) (pval ?s iy w) (pa_bounds c)\<rparr>"
  have k: "(?k + 1) mod 2 ^ 32 = ?k + 1" using g(1,4) by (simp add: patch_ok_def)
  have "pc_patch_uncompressed_add_point (Some c) (Some p) = Inr ?c'"
    using c(2,3) p(1) get_xy [OF s xy p(3,1,2)] k
    by (simp add: pc_patch_uncompressed_add_point_def Let_def g_def [symmetric] g r w got_def used_def)
  moreover have "patch_ok ?c'" using g(1,2,3,4) b p(3) by (simp add: patch_ok_def)
  moreover have "pts ?c' = pts c @ [w]"
    using elems_append_write [OF p(3) b] e by (simp add: pts_def g(2))
  ultimately show ?thesis using g by (intro exI [of _ ?c']) simp
qed

text \<open>Doubling no points gives no room: the copy goes beyond the (empty) buffer.\<close>

lemma add_point_no_room:
  assumes "patch_ok c" "pu_maxpoints c = 0" "pa_type c = PC_NONE" "pa_readonly c = PC_FALSE" "0 < sc_size (pa_schema c)"
    and "pt_schema p = pa_schema c" "sc_size (pa_schema c) \<le> length (pt_data p)"
  shows "pc_patch_uncompressed_add_point (Some c) (Some p) = Inl OutOfBounds"
proof -
  have "take (sc_size (pa_schema c)) (pt_data p) \<noteq> []" using assms(5,7) by auto
  then show ?thesis using assms
    by (simp add: pc_patch_uncompressed_add_point_def grow_data_def Let_def patch_ok_def rd_def wr_def)
qed

section \<open>Lists of points\<close>

definition pl_ok :: "PCPOINTLIST \<Rightarrow> PCPOINT list \<Rightarrow> bool" where
  "pl_ok pl ps = (pl_npoints pl = length ps \<and> length ps \<le> pl_maxpoints pl \<and> pl_maxpoints pl < 2 ^ 32 \<and>
     length (pl_points pl) = pl_maxpoints pl \<and> take (length ps) (pl_points pl) = map Some ps)"

lemma pointlist_make_ok: "n < 2 ^ 32 \<Longrightarrow> pl_ok (pc_pointlist_make n) []"
  by (simp add: pl_ok_def pc_pointlist_make_def)

lemma pointlist_add_ok:
  assumes "pl_ok pl ps" "length ps < 2 ^ 31"
  shows "\<exists>pl'. pc_pointlist_add_point pl (Some p) = Inr pl' \<and> pl_ok pl' (ps @ [p])"
proof -
  define m where "m = (if pl_maxpoints pl < 1 then 1 else pl_maxpoints pl) * 2"
  let ?n = "length ps"
  define g where "g = (if pl_maxpoints pl \<le> ?n then take m (pl_points pl) @ replicate (m - length (pl_points pl)) None
    else pl_points pl)"
  let ?m = "if pl_maxpoints pl \<le> ?n then m else pl_maxpoints pl"
  have f: "pl_npoints pl = ?n" "?n \<le> pl_maxpoints pl" "length (pl_points pl) = pl_maxpoints pl"
    "take ?n (pl_points pl) = map Some ps" "pl_maxpoints pl < 2 ^ 32" using assms(1) by (simp_all add: pl_ok_def)
  have md: "m mod 2 ^ 32 = m" if "pl_maxpoints pl \<le> ?n" using assms(2) that by (auto simp: m_def)
  have g: "length g = ?m" "?n < ?m" "?m < 2 ^ 32" "take ?n g = map Some ps"
    using f assms(2) md by (auto simp: g_def m_def min_def)
  have t: "take (Suc ?n) (g[?n := Some p]) = map Some (ps @ [p])"
    using g(1,2,4) by (simp add: take_Suc_conv_app_nth)
  have "pc_pointlist_add_point pl (Some p) =
      Inr \<lparr>pl_npoints = ?n + 1, pl_maxpoints = ?m, pl_points = g[?n := Some p]\<rparr>"
    using f(1) g(1,2,3) md assms(2) unfolding pc_pointlist_add_point_def Let_def m_def [symmetric]
    by (cases pl) (auto simp: g_def wrx_def)
  moreover have "pl_ok \<lparr>pl_npoints = ?n + 1, pl_maxpoints = ?m, pl_points = g[?n := Some p]\<rparr> (ps @ [p])"
    using g t by (simp add: pl_ok_def)
  ultimately show ?thesis by blast
qed

lemma pointlist_get:
  "pl_ok pl ps \<Longrightarrow> i < length ps \<Longrightarrow> pc_pointlist_get_point pl (int i) = Inr (Some (ps ! i))"
proof -
  assume a: "pl_ok pl ps" "i < length ps"
  have "pl_points pl ! i = take (length ps) (pl_points pl) ! i" using a(2) by simp
  also have "\<dots> = Some (ps ! i)" using a by (simp add: pl_ok_def)
  finally show ?thesis using a by (simp add: pl_ok_def pc_pointlist_get_point_def rdx_def)
qed

definition window :: "PCPATCH_UNCOMPRESSED \<Rightarrow> nat \<Rightarrow> PCPOINT" where
  "window p i = \<lparr>pt_readonly = PC_TRUE, pt_schema = pa_schema p,
     pt_data = drop (i * sc_size (pa_schema p)) (pu_data p)\<rparr>"

lemma pointlist_from_uncompressed_eq:
  assumes "pa_npoints p < 2 ^ 31"
  shows "\<exists>pl. pc_pointlist_from_uncompressed p = Inr pl \<and> pl_ok pl (map (window p) [0..<pa_npoints p])"
proof -
  let ?f = "\<lambda>i pl. bindE (pc_point_from_data (Some (pa_schema p)) (drop (i * sc_size (pa_schema p)) (pu_data p))) (\<lambda>pt.
     pc_pointlist_add_point pl (Some pt))"
  let ?g = "\<lambda>i pl. pc_pointlist_add_point pl (Some (window p i))"
  have f: "?f = ?g"
    by (intro ext) (simp add: pc_point_from_data_def window_def)
  have "\<exists>pl. foldE ?g [0..<n] (pc_pointlist_make (pa_npoints p)) = Inr pl \<and> pl_ok pl (map (window p) [0..<n])"
    if "n \<le> pa_npoints p" for n
    using that
  proof (induction n)
    case (Suc n)
    then obtain pl where pl: "foldE ?g [0..<n] (pc_pointlist_make (pa_npoints p)) = Inr pl"
      "pl_ok pl (map (window p) [0..<n])" by auto
    have "length (map (window p) [0..<n]) < 2 ^ 31" using Suc.prems assms by simp
    from pointlist_add_ok [OF pl(2) this, of "window p n"] show ?case
      by (simp only: foldE_upt_Suc pl(1) bindE_Inr) simp
  qed (use pointlist_make_ok assms in simp)
  from this [of "pa_npoints p"] show ?thesis
    unfolding pc_pointlist_from_uncompressed_def Let_def f by blast
qed

section \<open>Statistics\<close>

definition dim_stat :: "PCSCHEMA \<Rightarrow> nat \<Rightarrow> byte list list \<Rightarrow> PCDOUBLESTAT" where
  "dim_stat s j ws = fold (\<lambda>w. stat_add (pval s j w)) ws \<lparr>ds_min = DBL_MAX, ds_max = minus_DBL_MAX, ds_sum = d_zero\<rparr>"

definition dim_stats :: "PCSCHEMA \<Rightarrow> byte list list \<Rightarrow> PCDOUBLESTAT list" where
  "dim_stats s ws = map (\<lambda>j. dim_stat s j ws) [0..<sc_ndims s]"

lemma stats_point:
  assumes s: "schema_ready s" and w: "length w = sc_size s" and pt: "pt_schema pt = s" "pt_data pt = w @ rest"
  shows "\<exists>v. foldE (stats_step s pt) [0..<sc_ndims s] (val, dim_stats s ws) = Inr (v, dim_stats s (ws @ [w]))"
proof -
  let ?D = "\<lambda>k. map (\<lambda>j. dim_stat s j (if j < k then ws @ [w] else ws)) [0..<sc_ndims s]"
  have "\<exists>v. foldE (stats_step s pt) [0..<k] (val, dim_stats s ws) = Inr (v, ?D k)" if "k \<le> sc_ndims s" for k
    using that
  proof (induction k)
    case (Suc k)
    then obtain v where f: "foldE (stats_step s pt) [0..<k] (val, dim_stats s ws) = Inr (v, ?D k)" by auto
    have k: "k < sc_ndims s" using Suc.prems by simp
    have "(?D k)[k := dim_stat s k (ws @ [w])] = ?D (Suc k)"
      using k by (intro nth_equalityI) (auto simp: nth_list_update)
    then have "stats_step s pt k (v, ?D k) = Inr (Some (pval s k w), ?D (Suc k))"
      using k get_pval [OF s k w pt] ready_dims(2) [OF s k]
      by (simp add: stats_step_def got_def used_def rdx_def wrx_def dim_stat_def)
    then show ?case by (simp only: foldE_upt_Suc f bindE_Inr) simp
  qed (simp add: dim_stats_def)
  from this [of "sc_ndims s"] obtain v where
    "foldE (stats_step s pt) [0..<sc_ndims s] (val, dim_stats s ws) = Inr (v, ?D (sc_ndims s))" by blast
  moreover have "?D (sc_ndims s) = dim_stats s (ws @ [w])" by (auto simp: dim_stats_def)
  ultimately show ?thesis by (intro exI [of _ v]) simp
qed

lemma compute_stats_eq:
  assumes p: "patch_ok p"
  shows "pc_patch_uncompressed_compute_stats p =
    bindE (pc_stats_new_from_dstats (pa_schema p)
             \<lparr>dss_npoints = pa_npoints p, dss_dims = dim_stats (pa_schema p) (pts p)\<rparr>)
      (\<lambda>stats. Inr (p\<lparr>pa_stats := Some stats\<rparr>))"
proof -
  let ?s = "pa_schema p"
  let ?g = "\<lambda>i. foldE (stats_step ?s (window p i)) [0..<sc_ndims ?s]"
  have s: "schema_ready ?s" using p by (simp add: patch_ok_def)
  have i: "dss_dims (pc_dstats_new (sc_ndims ?s)) = dim_stats ?s []"
    by (simp add: pc_dstats_new_def dim_stats_def dim_stat_def map_replicate_const)
  have f: "(\<lambda>i st. let pt = \<lparr>pt_readonly = PC_TRUE, pt_schema = ?s, pt_data = drop (i * sc_size ?s) (pu_data p)\<rparr>
      in foldE (stats_step ?s pt) [0..<sc_ndims ?s] st) = ?g"
    by (intro ext) (simp add: window_def)
  have "\<exists>v. foldE ?g [0..<n] (None, dim_stats ?s []) = Inr (v, dim_stats ?s (take n (pts p)))"
    if "n \<le> pa_npoints p" for n
    using that
  proof (induction n)
    case (Suc n)
    then obtain v where v: "foldE ?g [0..<n] (None, dim_stats ?s []) = Inr (v, dim_stats ?s (take n (pts p)))"
      by auto
    have n: "n < pa_npoints p" using Suc.prems by simp
    have t: "take (Suc n) (pts p) = take n (pts p) @ [pts p ! n]" using n by (simp add: take_Suc_conv_app_nth)
    have w: "pt_schema (window p n) = ?s" "pt_data (window p n) = pts p ! n @ drop (Suc n * sc_size ?s) (pu_data p)"
      using pts_at(1) [OF p n] by (simp_all add: window_def)
    from stats_point [OF s pts_at(2) [OF p n] w] show ?case
      by (simp only: foldE_upt_Suc v bindE_Inr t)
  qed simp
  from this [of "pa_npoints p"] obtain v where
    "foldE ?g [0..<pa_npoints p] (None, dim_stats ?s []) = Inr (v, dim_stats ?s (pts p))" by auto
  then show ?thesis
    unfolding pc_patch_uncompressed_compute_stats_def Let_def [of ?s] Let_def [of "pc_dstats_new _"] i f
    by simp
qed

section \<open>A patch of points\<close>

text \<open>The points of a list that has no empty slot, all of the schema of the first.\<close>

definition same_schema :: "PCPOINT list \<Rightarrow> PCSCHEMA \<Rightarrow> bool" where
  "same_schema ps s = (schema_ready s \<and> (\<forall>p \<in> set ps. pt_schema p = s \<and> sc_size s \<le> length (pt_data p)))"

definition point_bytes :: "PCSCHEMA \<Rightarrow> PCPOINT list \<Rightarrow> byte list list" where
  "point_bytes s ps = map (\<lambda>p. take (sc_size s) (pt_data p)) ps"

definition patch_of :: "PCSCHEMA \<Rightarrow> nat \<Rightarrow> nat \<Rightarrow> byte list list \<Rightarrow> PCPATCH_UNCOMPRESSED" where
  "patch_of s ix iy ws = \<lparr>pa_type = PC_NONE, pa_readonly = PC_FALSE, pa_schema = s, pa_npoints = length ws,
     pa_bounds = extent s ix iy ws, pa_stats = None, pu_maxpoints = length ws,
     pu_datasize = length ws * sc_size s, pu_data = concat ws\<rparr>"

definition widths :: "PCSCHEMA \<Rightarrow> byte list list \<Rightarrow> bool" where
  "widths s ws = (\<forall>w \<in> set ws. length w = sc_size s)"

lemma widths_point_bytes: "same_schema ps s \<Longrightarrow> widths s (point_bytes s ps)"
  by (auto simp: widths_def point_bytes_def same_schema_def)

lemma patch_of_ok:
  assumes "schema_ready s" "widths s ws" "length ws < 2 ^ 32"
  shows "patch_ok (patch_of s ix iy ws)" "pts (patch_of s ix iy ws) = ws"
  using assms elems_concat [of ws "sc_size s" "[]"] length_concat_const [of ws "sc_size s"]
  by (simp_all add: patch_ok_def patch_of_def pts_def widths_def)

lemma datasize_fits: "schema_ready s \<Longrightarrow> n < 2 ^ 32 \<Longrightarrow> sc_size s * n mod 2 ^ 64 = n * sc_size s"
proof -
  assume s: "schema_ready s" and n: "n < 2 ^ 32"
  have "sc_size s * n < 2 ^ 32 * 2 ^ 32" using ready_layout(4) [OF s] n by (intro mult_strict_mono) simp_all
  then show ?thesis by (simp add: mult.commute)
qed

lemma pointlist_steps:
  assumes pl: "pl_ok pl ps" and sch: "same_schema ps s" and n: "n \<le> length ps"
  shows "foldE (pointlist_step s pl) [0..<n] (pcalloc (length ps * sc_size s), 0, 0) =
    Inr (concat (take n (point_bytes s ps)) @ replicate ((length ps - n) * sc_size s) 0, n * sc_size s, n)"
  using n
proof (induction n)
  case 0
  show ?case by (simp add: pcalloc_def)
next
  case (Suc n)
  let ?w = "sc_size s" and ?ws = "point_bytes s ps"
  have n: "n < length ps" using Suc.prems by simp
  define pre where "pre = concat (take n ?ws)"
  have lw: "\<And>w. w \<in> set (take n ?ws) \<Longrightarrow> length w = ?w"
    using widths_point_bytes [OF sch] by (auto simp: widths_def dest: in_set_takeD)
  have l: "length pre = n * ?w"
    using length_concat_const [OF lw] n by (simp add: pre_def point_bytes_def)
  define d where "d = take ?w (pt_data (ps ! n))"
  have p: "pt_schema (ps ! n) = s" "?w \<le> length (pt_data (ps ! n))" using sch n by (auto simp: same_schema_def)
  have ld: "length d = ?w" using p by (simp add: d_def)
  have r: "rd (pt_data (ps ! n)) 0 ?w = Inr d" using p by (simp add: rd_def d_def)
  have z: "replicate ((length ps - n) * ?w) 0 = replicate ?w 0 @ replicate ((length ps - Suc n) * ?w) (0 :: byte)"
    using n by (simp add: replicate_add [symmetric] Suc_diff_Suc [symmetric])
  have w: "wr (pre @ replicate ((length ps - n) * ?w) 0) (n * ?w) d =
      Inr (pre @ d @ replicate ((length ps - Suc n) * ?w) 0)"
    unfolding z by (rule wr_mid) (use l ld in simp_all)
  have t: "take (Suc n) ?ws = take n ?ws @ [d]" using n by (simp add: take_Suc_conv_app_nth point_bytes_def d_def)
  have f: "foldE (pointlist_step s pl) [0..<n] (pcalloc (length ps * ?w), 0, 0) =
      Inr (pre @ replicate ((length ps - n) * ?w) 0, n * ?w, n)"
    using Suc by (simp add: pre_def)
  have "pointlist_step s pl n (pre @ replicate ((length ps - n) * ?w) 0, n * ?w, n) =
      Inr (pre @ d @ replicate ((length ps - Suc n) * ?w) 0, Suc n * ?w, Suc n)"
    unfolding pointlist_step_def prod.case pointlist_get [OF pl n] bindE_Inr option.case p(1) r w by simp
  then show ?case unfolding foldE_upt_Suc f bindE_Inr t by (simp add: pre_def)
qed

lemma from_pointlist_eq:
  assumes pl: "pl_ok pl ps" "ps \<noteq> []" and sch: "same_schema ps s" "has_xy s ix iy" "0 < sc_size s"
  shows "pc_patch_uncompressed_from_pointlist (Some pl) =
    bindE (pc_stats_new_from_dstats s \<lparr>dss_npoints = length ps, dss_dims = dim_stats s (point_bytes s ps)\<rparr>) (\<lambda>st.
      Inr ((patch_of s ix iy (point_bytes s ps))\<lparr>pa_stats := Some st\<rparr>))"
proof -
  let ?ws = "point_bytes s ps"
  have s: "schema_ready s" using sch by (simp add: same_schema_def)
  have n: "pl_npoints pl = length ps" "length ps < 2 ^ 32" using pl by (simp_all add: pl_ok_def)
  have g: "pc_pointlist_get_point pl 0 = Inr (Some (ps ! 0))" using pointlist_get [OF pl(1), of 0] pl(2) by simp
  have s0: "pt_schema (ps ! 0) = s" using sch(1) pl(2) by (simp add: same_schema_def)
  have ds: "sc_size s * length ps mod 2 ^ 64 = length ps * sc_size s" by (rule datasize_fits [OF s n(2)])
  have lw: "length ?ws = length ps" by (simp add: point_bytes_def)
  have ok: "patch_ok (patch_of s ix iy ?ws)" "pts (patch_of s ix iy ?ws) = ?ws"
    using patch_of_ok [OF s widths_point_bytes [OF sch(1)]] n(2) lw by simp_all
  let ?p = "\<lparr>pa_type = PC_NONE, pa_readonly = PC_FALSE, pa_schema = s, pa_npoints = length ps,
      pa_bounds = pc_bounds_init, pa_stats = None, pu_maxpoints = length ps,
      pu_datasize = length ps * sc_size s, pu_data = concat ?ws\<rparr>"
  have p: "patch_ok ?p" "pts ?p = ?ws" "pa_schema ?p = s"
    using ok lw by (simp_all add: patch_ok_def pts_def patch_of_def)
  have e: "pc_patch_uncompressed_compute_extent ?p = Inr (patch_of s ix iy ?ws)"
    using compute_extent_eq [OF p(1)] sch(2) lw by (simp add: p(2)) (simp add: patch_of_def)
  have l: "foldE (pointlist_step s pl) [0..<length ps] (pcalloc (length ps * sc_size s), 0, 0) =
      Inr (concat ?ws, length ps * sc_size s, length ps)"
    using pointlist_steps [OF pl(1) sch(1) order_refl] lw by simp
  have nz: "length ps \<noteq> 0" "sc_size s \<noteq> 0" using pl(2) sch(3) by simp_all
  have "pc_patch_uncompressed_from_pointlist (Some pl) =
      bindE (Inr (patch_of s ix iy ?ws)) pc_patch_uncompressed_compute_stats"
    unfolding pc_patch_uncompressed_from_pointlist_def option.case Let_def n(1) g bindE_Inr s0 ds l prod.case e
      if_not_P [OF nz(1)] if_not_P [OF nz(2)] ..
  then show ?thesis
    using compute_stats_eq [OF ok(1)] ok(2) lw by (simp add: patch_of_def)
qed

section \<open>Binary form\<close>

lemma wkb_header_written:
  assumes l: "length a = 4" "length b = 4" "length c = 4"
  shows "bindE (wr (pcalloc (1 + 4 + 4 + 4 + n)) 0 [machine_endian]) (\<lambda>w. bindE (wr w 1 a) (\<lambda>w.
    bindE (wr w 5 b) (\<lambda>w. bindE (wr w 9 c) f))) = f ((1 # a @ b @ c) @ replicate n 0)"
proof -
  have w1: "wr (pcalloc (1 + 4 + 4 + 4 + n)) 0 [machine_endian] = Inr ([1] @ replicate 4 0 @ replicate (8 + n) 0)"
    by (simp add: pcalloc_def wr_def numeral_eq_Suc)
  have w2: "wr ([1] @ replicate 4 0 @ replicate (8 + n) 0) 1 a = Inr ((1 # a) @ replicate 4 0 @ replicate (4 + n) 0)"
    using wr_mid [of 1 "[1]" "replicate 4 0" a "replicate (8 + n) 0"] l by (simp add: replicate_add [symmetric])
  have w3: "wr ((1 # a) @ replicate 4 0 @ replicate (4 + n) 0) 5 b = Inr ((1 # a @ b) @ replicate 4 0 @ replicate n 0)"
    using wr_mid [of 5 "1 # a" "replicate 4 0" b "replicate (4 + n) 0"] l by (simp add: replicate_add [symmetric])
  have w4: "wr ((1 # a @ b) @ replicate 4 0 @ replicate n 0) 9 c = Inr ((1 # a @ b @ c) @ replicate n 0)"
    using wr_mid [of 9 "1 # a @ b" "replicate 4 0" c "replicate n 0"] l by simp
  show ?thesis unfolding w1 bindE_Inr w2 w3 w4 ..
qed

lemma patch_to_wkb_eq:
  assumes "pu_datasize p = length (pu_data p)"
  shows "pc_patch_uncompressed_to_wkb p = Inr (1 # bytes_of_word (word_of_nat (sc_pcid (pa_schema p)) :: 32 word) @
    bytes_of_word (word_of_nat (pa_type p) :: 32 word) @ bytes_of_word (word_of_nat (pa_npoints p) :: 32 word) @ pu_data p,
    13 + pu_datasize p)"
proof -
  define a b c :: "byte list" where "a = bytes_of_word (word_of_nat (sc_pcid (pa_schema p)) :: 32 word)"
    and "b = bytes_of_word (word_of_nat (pa_type p) :: 32 word)" and "c = bytes_of_word (word_of_nat (pa_npoints p) :: 32 word)"
  let ?n = "pu_datasize p"
  have l: "length a = 4" "length b = 4" "length c = 4" "length (pu_data p) = ?n"
    using assms by (simp_all add: a_def b_def c_def word_size_def)
  have w5: "wr ((1 # a @ b @ c) @ replicate ?n 0 @ []) 13 (pu_data p) = Inr ((1 # a @ b @ c) @ pu_data p @ [])"
    by (rule wr_mid) (use l in simp_all)
  have r: "rd (pu_data p) 0 ?n = Inr (pu_data p)" using l(4) by (simp add: rd_def)
  show ?thesis
    unfolding pc_patch_uncompressed_to_wkb_def Let_def a_def [symmetric] b_def [symmetric] c_def [symmetric]
      wkb_header_written [OF l(1-3)] r bindE_Inr w5 [unfolded append_Nil2] by simp
qed

lemma swapped_field:
  assumes "b = (if e = (1 :: byte) then bytes_of_word (v :: 32 word) else rev (bytes_of_word v))"
  shows "(if e \<noteq> 1 then int32_flip_endian (word_of_bytes b) else word_of_bytes b) = v"
  unfolding assms int32_flip_endian_bytes [symmetric] by simp

lemma patch_wkb_fields:
  fixes n :: nat
  assumes h: "length pc = 4" "n < 2 ^ 32"
    and t: "tb = (if e = 1 then bytes_of_word (t :: 32 word) else rev (bytes_of_word t))"
    and np: "np = (if e = 1 then bytes_of_word (word_of_nat n :: 32 word) else rev (bytes_of_word (word_of_nat n :: 32 word)))"
  shows "rd (e # pc @ tb @ np @ body) 0 1 = Inr [e]"
    "wkb_get_compression (e # pc @ tb @ np @ body) = Inr t"
    "wkb_get_npoints (e # pc @ tb @ np @ body) = Inr (word_of_nat n)"
    "rd (e # pc @ tb @ np @ body) (1 + 4 + 4 + 4) (length body) = Inr body"
    "length np = 4" "length tb = 4" "unat (word_of_nat n :: 32 word) = n"
proof -
  let ?w = "e # pc @ tb @ np @ body"
  show l: "length np = 4" "length tb = 4" by (simp_all add: np t word_size_def)
  show e: "rd ?w 0 1 = Inr [e]" by (simp add: rd_def)
  have "rd ((e # pc) @ tb @ np @ body) 5 4 = Inr tb" by (rule rd_mid) (use h(1) l in simp_all)
  then have r: "rd ?w 5 4 = Inr tb" by (simp only: append_Cons append_assoc)
  show "wkb_get_compression ?w = Inr t" using e r swapped_field [OF t] by (simp add: wkb_get_compression_def)
  have "rd ((e # pc @ tb) @ np @ body) 9 4 = Inr np" by (rule rd_mid) (use h(1) l in simp_all)
  then have r: "rd ?w 9 4 = Inr np" by (simp only: append_Cons append_assoc)
  show "wkb_get_npoints ?w = Inr (word_of_nat n)" using e r swapped_field [OF np] by (simp add: wkb_get_npoints_def)
  show "unat (word_of_nat n :: 32 word) = n" using h(2) by (simp add: unat_of_nat take_bit_nat_eq_self)
  have "rd ((e # pc @ tb @ np) @ body @ []) (1 + 4 + 4 + 4) (length body) = Inr body"
    by (rule rd_mid) (use h(1) l in simp_all)
  then show "rd ?w (1 + 4 + 4 + 4) (length body) = Inr body" by (simp only: append_Cons append_assoc append_Nil2)
qed

lemma zero_field: "replicate 4 0 = (if e = (1 :: byte) then bytes_of_word (0 :: 32 word) else rev (bytes_of_word (0 :: 32 word)))"
  by (cases "e = 1"; simp only: if_True if_False; code_simp)

lemma patch_from_wkb_eq:
  assumes s: "schema_ready s" and h: "length pc = 4" "n < 2 ^ 32" "length body = n * sc_size s"
    and np: "np = (if e = 1 then bytes_of_word (word_of_nat n :: 32 word) else rev (bytes_of_word (word_of_nat n :: 32 word)))"
  shows "pc_patch_uncompressed_from_wkb s (e # pc @ replicate 4 0 @ np @ body) (13 + length body) =
    Inr \<lparr>pa_type = PC_NONE, pa_readonly = PC_FALSE, pa_schema = s, pa_npoints = n, pa_bounds = zero_bounds,
      pa_stats = None, pu_maxpoints = n, pu_datasize = length body,
      pu_data = (if e = 1 then body else concat (map (flip_point s) (elems (sc_size s) n body)))\<rparr>"
proof -
  let ?w = "e # pc @ replicate 4 0 @ np @ body"
  note f = patch_wkb_fields [OF h(1,2) zero_field np]
  have d: "nat ((int (13 + length body) - int (1 + 4 + 4 + 4)) mod 2 ^ 64) = length body"
    "sc_size s * n mod 2 ^ 64 = length body" "n * sc_size s mod 2 ^ 64 = length body"
  proof -
    have "n * sc_size s < 2 ^ 32 * 2 ^ 32" using ready_layout(4) [OF s] h(2) by (intro mult_strict_mono) simp_all
    then have b: "length body < 2 ^ 64" using h(3) by simp
    show "nat ((int (13 + length body) - int (1 + 4 + 4 + 4)) mod 2 ^ 64) = length body" using b by simp
    show "sc_size s * n mod 2 ^ 64 = length body" "n * sc_size s mod 2 ^ 64 = length body"
      using h(3) b by (simp_all add: mult.commute)
  qed
  have fl: "uncompressed_bytes_flip_endian ?w (1 + 4 + 4 + 4) s n = Inr (concat (map (flip_point s) (elems (sc_size s) n body)))"
    by (rule flip_endian_eq [OF s, of _ "e # pc @ replicate 4 0 @ np" body "[]"]) (use h f(5) in simp_all)
  show ?thesis
    unfolding pc_patch_uncompressed_from_wkb_def Let_def f(1,2,3,4,7) d bindE_Inr fl by simp
qed

lemma unfilled_from_wkb:
  assumes s: "schema_ready s" "0 < sc_size s" and h: "length pc = 4" "n < m" "m < 2 ^ 32" "length body = m * sc_size s"
  shows "pc_patch_uncompressed_from_wkb s
      (1 # pc @ replicate 4 0 @ bytes_of_word (word_of_nat n :: 32 word) @ body) (13 + length body) =
    Inl (PcError ''pc_patch_uncompressed_from_wkb: wkb size and expected data size do not match'')"
proof -
  have n: "n < 2 ^ 32" using h by simp
  let ?np = "bytes_of_word (word_of_nat n :: 32 word)"
  have np: "?np = (if (1 :: byte) = 1 then ?np else rev ?np)" by simp
  note f = patch_wkb_fields [OF h(1) n zero_field [of 1] np]
  have "m * sc_size s < 2 ^ 32 * 2 ^ 32" using ready_layout(4) [OF s(1)] h(3) by (intro mult_strict_mono) simp_all
  then have b: "length body < 2 ^ 64" using h(4) by simp
  have d: "nat ((int (13 + length body) - int (1 + 4 + 4 + 4)) mod 2 ^ 64) = length body" using b by simp
  have "length body \<noteq> n * sc_size s" using h(2,4) s(2) by simp
  then show ?thesis
    unfolding pc_patch_uncompressed_from_wkb_def Let_def f(1,2,3,7) d datasize_fits [OF s(1) n] bindE_Inr by simp
qed

section \<open>Properties\<close>

definition demo_xy :: PCSCHEMA where
  "demo_xy = demo_schema\<lparr>sc_xdim := Some 0, sc_ydim := Some 1\<rparr>"

lemma demo_xy_ready: "schema_ready demo_xy" "has_xy demo_xy 0 1" "sc_size demo_xy = 5" "sc_ndims demo_xy = 2"
  "sdim demo_xy 0 = sdim demo_schema 0" "sdim demo_xy 1 = sdim demo_schema 1"
proof -
  show "has_xy demo_xy 0 1" "sc_size demo_xy = 5" "sc_ndims demo_xy = 2"
    "sdim demo_xy 0 = sdim demo_schema 0" "sdim demo_xy 1 = sdim demo_schema 1"
    by (simp_all add: demo_xy_def has_xy_def demo_facts demo_sizes sdim_def)
  show "schema_ready demo_xy" using demo_schema_ready
    by (simp add: schema_ready_def schema_wf_def demo_xy_def layout_ok_def sdim_def)
qed

lemmas demo_xy_facts = demo_xy_ready [unfolded One_nat_def]

definition demo_pts :: "byte list list" where
  "demo_pts = [[1, 2, 3, 4, 5], [6, 7, 8, 9, 10]]"

definition demo_patch :: PCPATCH_UNCOMPRESSED where
  "demo_patch = patch_of demo_xy 0 1 demo_pts"

lemma demo_patch_ok: "patch_ok demo_patch" "pts demo_patch = demo_pts" "widths demo_xy demo_pts"
  "pa_schema demo_patch = demo_xy" "pa_npoints demo_patch = 2" "pa_type demo_patch = PC_NONE"
  "pa_readonly demo_patch = PC_FALSE" "pu_maxpoints demo_patch = 2"
proof -
  show w: "widths demo_xy demo_pts" by (simp add: widths_def demo_pts_def demo_xy_ready)
  show "patch_ok demo_patch" "pts demo_patch = demo_pts"
    using patch_of_ok [OF demo_xy_ready(1) w] by (simp_all add: demo_patch_def demo_pts_def)
qed (simp_all add: demo_patch_def patch_of_def demo_pts_def)

lemma demo_pval:
  assumes "length w = 5"
  shows "\<not> d_isnan (pval demo_xy 0 w)" "\<not> d_isnan (pval demo_xy 1 w)"
proof -
  have v: "\<exists>i. pval demo_xy 0 w = d_of_int (sint (i :: 32 word))" "\<exists>i. pval demo_xy 1 w = d_of_int (uint (i :: 8 word))"
    using assms by (auto simp: pval_def dval_def fld_def demo_xy_facts demo_facts demo_sizes pc_double_from_ptr_def rd_def
        pc_value_scale_offset_def unit_consts)
  have "exact_int (sint (i :: 32 word))" for i
    using sint_lt [of i] sint_ge [of i] by (simp add: exact_int_def)
  moreover have "exact_int (uint (i :: 8 word))" for i
  proof -
    have "uint i < 2 ^ 8" using unsigned_less [of i] by simp
    then show ?thesis by (simp add: exact_int_def)
  qed
  ultimately show "\<not> d_isnan (pval demo_xy 0 w)" "\<not> d_isnan (pval demo_xy 1 w)"
    using v by (auto simp: d_of_int_not_nan)
qed

text \<open>
  C5: A patch made of a list of points of one schema holds the bytes of the points in order, in a buffer
  of exactly that size; its box is the extent of the points, and its statistics are those of the values
  of every dimension. Listing the points of such a patch gives the points back.
\<close>

theorem patch_of_point_list:
  assumes "pl_ok pl ps" "ps \<noteq> []" "same_schema ps s" "has_xy s ix iy" "0 < sc_size s" "length ps < 2 ^ 31"
  shows "pc_patch_uncompressed_from_pointlist (Some pl) =
    bindE (pc_stats_new_from_dstats s \<lparr>dss_npoints = length ps, dss_dims = dim_stats s (point_bytes s ps)\<rparr>) (\<lambda>st.
      Inr ((patch_of s ix iy (point_bytes s ps))\<lparr>pa_stats := Some st\<rparr>)) \<and>
    (\<exists>pl'. pc_pointlist_from_uncompressed (patch_of s ix iy (point_bytes s ps)) = Inr pl' \<and> pl_npoints pl' = length ps \<and>
      (\<forall>i < length ps. \<exists>pt. pc_pointlist_get_point pl' (int i) = Inr (Some pt) \<and> pt_schema pt = s \<and>
         take (sc_size s) (pt_data pt) = take (sc_size s) (pt_data (ps ! i))))"
proof (rule conjI [OF from_pointlist_eq [OF assms(1-5)]])
  let ?ws = "point_bytes s ps"
  let ?p = "patch_of s ix iy ?ws"
  have n: "pa_npoints ?p = length ps" "pa_schema ?p = s" by (simp_all add: patch_of_def point_bytes_def)
  have ok: "patch_ok ?p" "pts ?p = ?ws"
    using patch_of_ok [OF _ widths_point_bytes [OF assms(3)]] assms(3,6) by (simp_all add: same_schema_def point_bytes_def)
  obtain pl' where pl': "pc_pointlist_from_uncompressed ?p = Inr pl'" "pl_ok pl' (map (window ?p) [0..<length ps])"
    using pointlist_from_uncompressed_eq [of ?p] assms(6) n by auto
  have "take (sc_size s) (pt_data (window ?p i)) = take (sc_size s) (pt_data (ps ! i))" if "i < length ps" for i
    using pts_at [OF ok(1), of i] ok(2) n that by (simp add: window_def point_bytes_def)
  moreover have "pt_schema (window ?p i) = s" for i by (simp add: window_def n)
  ultimately show "\<exists>pl'. pc_pointlist_from_uncompressed ?p = Inr pl' \<and> pl_npoints pl' = length ps \<and>
      (\<forall>i < length ps. \<exists>pt. pc_pointlist_get_point pl' (int i) = Inr (Some pt) \<and> pt_schema pt = s \<and>
         take (sc_size s) (pt_data pt) = take (sc_size s) (pt_data (ps ! i)))"
    using pl' pointlist_get [OF pl'(2)] by (intro exI [of _ pl']) (simp add: pl_ok_def)
qed

theorem patch_of_point_list_witness:
  "\<exists>pl pl'. pc_pointlist_add_point (pc_pointlist_make 1) (Some (demo_point\<lparr>pt_schema := demo_xy\<rparr>)) = Inr pl \<and>
     pc_pointlist_from_uncompressed (patch_of demo_xy 0 1 [[1, 2, 3, 4, 5]]) = Inr pl' \<and> pl_npoints pl' = 1"
proof -
  let ?ps = "[demo_point\<lparr>pt_schema := demo_xy\<rparr>]"
  obtain pl where pl: "pc_pointlist_add_point (pc_pointlist_make 1) (Some (hd ?ps)) = Inr pl" "pl_ok pl ?ps"
    using pointlist_add_ok [OF pointlist_make_ok [of 1], of "hd ?ps"] by auto
  have s: "same_schema ?ps demo_xy" using demo_xy_ready by (simp add: same_schema_def demo_point_def)
  have b: "point_bytes demo_xy ?ps = [[1, 2, 3, 4, 5]]" by (simp add: point_bytes_def demo_point_def demo_xy_ready)
  show ?thesis using patch_of_point_list [OF pl(2) _ s demo_xy_ready(2)] pl(1) demo_xy_ready(3) b by auto
qed

text \<open>
  Adding a point to a patch that is not full, or that has room for at least one point and doubles it,
  appends the bytes of the point, keeps the others, and grows the box by the point, without ever leaving
  the buffer; the extent of the points stays the box when it was so before.
\<close>

theorem add_point_appends:
  assumes "patch_ok c" "pa_type c = PC_NONE" "pa_readonly c = PC_FALSE" "has_xy (pa_schema c) ix iy"
    and "pt_schema p = pa_schema c" "pt_data p = w @ rest" "length w = sc_size (pa_schema c)"
    and "0 < pu_maxpoints c" "pu_maxpoints c < 2 ^ 31"
  shows "\<exists>c'. pc_patch_uncompressed_add_point (Some c) (Some p) = Inr c' \<and> patch_ok c' \<and>
    pts c' = pts c @ [w] \<and>
    (pa_bounds c = extent (pa_schema c) ix iy (pts c) \<longrightarrow> pa_bounds c' = extent (pa_schema c) ix iy (pts c'))"
  using add_point_eq [OF assms] by (auto simp: extent_snoc)

theorem add_point_appends_witness:
  "\<exists>c'. pc_patch_uncompressed_add_point (Some demo_patch) (Some (demo_point\<lparr>pt_schema := demo_xy\<rparr>)) = Inr c' \<and>
     pts c' = [[1, 2, 3, 4, 5], [6, 7, 8, 9, 10], [1, 2, 3, 4, 5]]"
  using add_point_appends [of demo_patch 0 1 "demo_point\<lparr>pt_schema := demo_xy\<rparr>" "[1, 2, 3, 4, 5]" "[]"] demo_patch_ok
  by (auto simp: demo_xy_facts demo_point_def demo_pts_def)

text \<open>
  The computed extent of a patch is the least box that holds every point: it lies inside a box
  exactly when the empty box and every point do.
\<close>

theorem extent_is_least_box:
  assumes "patch_ok p" "has_xy (pa_schema p) ix iy" "box_ok c"
    and "\<forall>w \<in> set (pts p). \<not> d_isnan (pval (pa_schema p) ix w) \<and> \<not> d_isnan (pval (pa_schema p) iy w)"
  shows "\<exists>b. pc_patch_uncompressed_compute_extent p = Inr (p\<lparr>pa_bounds := b\<rparr>) \<and> box_ok b \<and>
    (box_le b c \<longleftrightarrow> box_le pc_bounds_init c \<and>
       (\<forall>w \<in> set (pts p). box_le (at_xy (pval (pa_schema p) ix w) (pval (pa_schema p) iy w)) c))"
  using compute_extent_eq [OF assms(1,2)] extent_least [OF assms(4,3)] by blast

theorem extent_is_least_box_witness:
  "\<exists>b. pc_patch_uncompressed_compute_extent demo_patch = Inr (demo_patch\<lparr>pa_bounds := b\<rparr>) \<and> box_ok b"
proof -
  have "\<forall>w \<in> set (pts demo_patch). \<not> d_isnan (pval (pa_schema demo_patch) 0 w) \<and> \<not> d_isnan (pval (pa_schema demo_patch) 1 w)"
    using demo_pval demo_patch_ok(3) by (simp add: demo_patch_ok(2,4) demo_xy_ready widths_def)
  with extent_is_least_box [OF demo_patch_ok(1) _ init_ok, of 0 1] show ?thesis
    using demo_xy_ready(2) demo_patch_ok(4) by auto
qed

text \<open>
  An uncompressed patch that is full, written in binary form and read on the same machine, gives the
  same schema, points and size; its box and its statistics are not stored, and read as zero and none.
  From a machine of the other byte order, in which every number and field is reversed, it gives the same.
\<close>

theorem patch_wkb_roundtrip:
  assumes "patch_ok p" "pa_type p = PC_NONE" "pa_npoints p = pu_maxpoints p"
    and "e \<noteq> 1" "length pc = 4" "length body = length (pu_data p)"
    and "\<forall>i < pa_npoints p. flds (pa_schema p) (elems (sc_size (pa_schema p)) (pa_npoints p) body ! i) =
      map rev (flds (pa_schema p) (pts p ! i))"
  shows "\<exists>wkb q. pc_patch_uncompressed_to_wkb p = Inr (wkb, length wkb) \<and>
    q = p\<lparr>pa_readonly := PC_FALSE, pa_bounds := zero_bounds, pa_stats := None\<rparr> \<and>
    pc_patch_uncompressed_from_wkb (pa_schema p) wkb (length wkb) = Inr q \<and>
    pc_patch_uncompressed_from_wkb (pa_schema p)
      (e # pc @ replicate 4 0 @ rev (bytes_of_word (word_of_nat (pa_npoints p) :: 32 word)) @ body) (13 + length body) = Inr q"
proof -
  let ?s = "pa_schema p" and ?n = "pa_npoints p" and ?q = "p\<lparr>pa_readonly := PC_FALSE, pa_bounds := zero_bounds, pa_stats := None\<rparr>"
  have s: "schema_ready ?s" and n: "?n < 2 ^ 32" "length (pu_data p) = ?n * sc_size ?s" "pu_datasize p = length (pu_data p)"
    using assms(3) patch_capacity [OF assms(1)] by simp_all
  have q: "?q = \<lparr>pa_type = PC_NONE, pa_readonly = PC_FALSE, pa_schema = ?s, pa_npoints = ?n, pa_bounds = zero_bounds,
      pa_stats = None, pu_maxpoints = ?n, pu_datasize = length (pu_data p), pu_data = pu_data p\<rparr>"
    using assms(2,3) n(3) by (cases p) simp
  let ?wkb = "1 # bytes_of_word (word_of_nat (sc_pcid ?s) :: 32 word) @ replicate 4 0 @
      bytes_of_word (word_of_nat ?n :: 32 word) @ pu_data p"
  have z: "bytes_of_word (word_of_nat (pa_type p) :: 32 word) = replicate 4 0"
    unfolding assms(2) by code_simp
  have l: "length ?wkb = 13 + length (pu_data p)" by (simp add: word_size_def)
  have t: "pc_patch_uncompressed_to_wkb p = Inr (?wkb, length ?wkb)"
    using patch_to_wkb_eq [OF n(3)] n(3) unfolding z l by simp
  have native: "pc_patch_uncompressed_from_wkb ?s ?wkb (length ?wkb) = Inr ?q"
  proof -
    have "length (bytes_of_word (word_of_nat (sc_pcid ?s) :: 32 word)) = 4" by (simp add: word_size_def)
    from patch_from_wkb_eq [OF s this n(1,2) refl, of 1] show ?thesis unfolding l q if_P [OF refl] by assumption
  qed
  have lb: "length body = ?n * sc_size ?s" using assms(6) n(2) by simp
  have "map (flip_point ?s) (elems (sc_size ?s) ?n body) = pts p"
  proof (rule nth_equalityI)
    fix i assume "i < length (map (flip_point ?s) (elems (sc_size ?s) ?n body))"
    then have i: "i < ?n" by simp
    have "flip_point ?s (elems (sc_size ?s) ?n body ! i) = concat (flds ?s (pts p ! i))"
      using assms(7) i by (simp add: flip_point_def rev_map del: nth_elems)
    also have "\<dots> = pts p ! i" by (rule concat_flds [OF s pts_at(2) [OF assms(1) i]])
    finally show "map (flip_point ?s) (elems (sc_size ?s) ?n body) ! i = pts p ! i" using i by (simp del: nth_elems)
  qed simp
  moreover have "concat (pts p) = pu_data p"
    using concat_elems [of ?n "sc_size ?s" "pu_data p"] n(2) by (simp add: pts_def)
  ultimately have "pc_patch_uncompressed_from_wkb ?s
      (e # pc @ replicate 4 0 @ rev (bytes_of_word (word_of_nat ?n :: 32 word)) @ body) (13 + length body) = Inr ?q"
    unfolding q using patch_from_wkb_eq [OF s assms(5) n(1) lb refl, of e] assms(4,6) by simp
  with t native show ?thesis by blast
qed

theorem patch_wkb_roundtrip_witness:
  "\<exists>wkb q. pc_patch_uncompressed_to_wkb demo_patch = Inr (wkb, length wkb) \<and>
     pc_patch_uncompressed_from_wkb demo_xy wkb (length wkb) = Inr q \<and>
     pc_patch_uncompressed_from_wkb demo_xy
       ([0, 9, 9, 9, 9, 0, 0, 0, 0, 0, 0, 0, 2] @ [4, 3, 2, 1, 5, 9, 8, 7, 6, 10]) 23 = Inr q"
proof -
  have f: "flds demo_xy d = [take 4 d, take 1 (drop 4 d)]" for d
    by (simp add: flds_def fld_def demo_xy_ready [unfolded One_nat_def] demo_sizes upt_rec)
  have "\<forall>i < 2. flds demo_xy (elems 5 2 [4, 3, 2, 1, 5, 9, 8, 7, 6, 10] ! i) = map rev (flds demo_xy (demo_pts ! i))"
    by (simp add: less_2 f demo_pts_def)
  then have b: "\<forall>i < pa_npoints demo_patch. flds (pa_schema demo_patch)
        (elems (sc_size (pa_schema demo_patch)) (pa_npoints demo_patch) [4, 3, 2, 1, 5, 9, 8, 7, 6, 10] ! i) =
      map rev (flds (pa_schema demo_patch) (pts demo_patch ! i))"
    by (simp only: demo_patch_ok demo_xy_ready)
  have l: "length [4, 3, 2, 1, 5, 9, 8, 7, 6, 10 :: byte] = length (pu_data demo_patch)"
    by (simp add: demo_patch_def patch_of_def demo_pts_def)
  have n: "pa_npoints demo_patch = pu_maxpoints demo_patch" by (simp add: demo_patch_ok)
  have h: "[0, 9, 9, 9, 9, 0, 0, 0, 0, 0, 0, 0, 2] @ [4, 3, 2, 1, 5, 9, 8, 7, 6, 10 :: byte] =
      0 # [9, 9, 9, 9] @ replicate 4 0 @ rev (bytes_of_word (word_of_nat (pa_npoints demo_patch) :: 32 word)) @
      [4, 3, 2, 1, 5, 9, 8, 7, 6, 10]"
    unfolding demo_patch_ok(5) by code_simp
  show ?thesis
    using patch_wkb_roundtrip [OF demo_patch_ok(1,6) n _ _ l b, of 0 "[9, 9, 9, 9]"]
    unfolding h demo_patch_ok(4) by fastforce
qed


text \<open>
  A patch with room for more points than it has writes its whole buffer, and the reader, which takes
  the size of the buffer for the number of points, rejects what the writer wrote.
\<close>

theorem unfilled_patch_not_read_back:
  assumes "patch_ok p" "pa_type p = PC_NONE" "pa_npoints p < pu_maxpoints p" "0 < sc_size (pa_schema p)"
  shows "\<exists>wkb. pc_patch_uncompressed_to_wkb p = Inr (wkb, length wkb) \<and>
    pc_patch_uncompressed_from_wkb (pa_schema p) wkb (length wkb) =
      Inl (PcError ''pc_patch_uncompressed_from_wkb: wkb size and expected data size do not match'')"
proof -
  let ?s = "pa_schema p" and ?n = "pa_npoints p"
  have s: "schema_ready ?s" and n: "pu_maxpoints p < 2 ^ 32" "length (pu_data p) = pu_maxpoints p * sc_size ?s"
    "pu_datasize p = length (pu_data p)"
    using assms(3) patch_capacity [OF assms(1)] by simp_all
  let ?h = "bytes_of_word (word_of_nat (sc_pcid ?s) :: 32 word)"
  let ?wkb = "1 # ?h @ replicate 4 0 @ bytes_of_word (word_of_nat ?n :: 32 word) @ pu_data p"
  have z: "bytes_of_word (word_of_nat (pa_type p) :: 32 word) = replicate 4 0"
    unfolding assms(2) by code_simp
  have h: "length ?h = 4" by (simp add: word_size_def)
  have l: "length ?wkb = 13 + length (pu_data p)" by (simp add: word_size_def)
  have "pc_patch_uncompressed_to_wkb p = Inr (?wkb, length ?wkb)"
    using patch_to_wkb_eq [OF n(3)] n(3) unfolding z l by simp
  moreover note unfilled_from_wkb [OF s assms(4) h assms(3) n(1,2), folded l]
  ultimately show ?thesis by blast
qed

theorem unfilled_patch_not_read_back_witness:
  "\<exists>p wkb e. pc_patch_uncompressed_make (Some demo_xy) 1 = Inr p \<and> pc_patch_uncompressed_to_wkb p = Inr (wkb, length wkb) \<and>
     pc_patch_uncompressed_from_wkb demo_xy wkb (length wkb) = Inl e"
proof -
  let ?p = "\<lparr>pa_type = PC_NONE, pa_readonly = PC_FALSE, pa_schema = demo_xy, pa_npoints = 0, pa_bounds = pc_bounds_init,
      pa_stats = None, pu_maxpoints = 1, pu_datasize = 5, pu_data = pcalloc 5\<rparr>"
  have "patch_ok ?p" using demo_xy_ready by (simp add: patch_ok_def)
  from unfilled_patch_not_read_back [OF this] show ?thesis
    by (auto simp: pc_patch_uncompressed_make_def demo_xy_ready)
qed

end
