(* ===== verification/PC_Bytes_Serial.thy ===== *)
theory PC_Bytes_Serial
  imports PC_Bytes_Values
begin

text \<open>
  The serialised form of an array: one byte of compression, a 32-bit size, the bytes. A reader gets
  back what a writer wrote, in the native byte order.
\<close>

definition serial :: "PCBYTES \<Rightarrow> byte list" where
  "serial pcb = word_of_nat (pb_compression pcb) # bytes_of_word (word_of_nat (pb_size pcb) :: 32 word) @ pb_bytes pcb"

text \<open>An array whose fields fit the serialised form.\<close>

definition serial_ok :: "PCBYTES \<Rightarrow> bool" where
  "serial_ok pcb = (pb_compression pcb < 256 \<and> pb_size pcb < 2 ^ 31 \<and> length (pb_bytes pcb) = pb_size pcb)"

lemma length_serial: "serial_ok pcb \<Longrightarrow> length (serial pcb) = pc_bytes_serialized_size pcb"
  by (simp add: serial_def serial_ok_def pc_bytes_serialized_size_def word_size_def)

lemma sint_of_nat31: "n < 2 ^ 31 \<Longrightarrow> sint (word_of_nat n :: 32 word) = int n"
  by (simp add: signed_of_nat signed_take_bit_int_eq_self)

lemma serialize_eq:
  assumes "serial_ok pcb" "off + pc_bytes_serialized_size pcb \<le> length buf"
  shows "pc_bytes_serialize pcb buf off =
    Inr (take off buf @ serial pcb @ drop (off + pc_bytes_serialized_size pcb) buf, pc_bytes_serialized_size pcb)"
proof -
  let ?s = "bytes_of_word (word_of_nat (pb_size pcb) :: 32 word)" and ?n = "pb_size pcb"
  let ?c = "word_of_nat (pb_compression pcb) :: byte"
  have b: "?n < 2 ^ 31" "length (pb_bytes pcb) = ?n" using assms(1) by (simp_all add: serial_ok_def)
  have len: "off + 5 + ?n \<le> length buf" using assms(2) by (simp add: pc_bytes_serialized_size_def)
  have w1: "wr buf off [?c] = Inr (take off buf @ ?c # drop (off + 1) buf)" using len by (simp add: wr_def)
  have w2: "wr (take off buf @ ?c # drop (off + 1) buf) (off + 1) ?s =
      Inr (take off buf @ ?c # ?s @ drop (off + 5) buf)"
    using len by (auto simp: wr_def word_size_def add.commute)
  have w3: "wr (take off buf @ ?c # ?s @ drop (off + 5) buf) (off + 1 + 4) (pb_bytes pcb) =
      Inr (take off buf @ ?c # ?s @ pb_bytes pcb @ drop (off + 5 + ?n) buf)"
    using len b by (auto simp: wr_def word_size_def drop_Cons' ac_simps)
  have r: "nat ((1 + 4 + sint (word_of_nat ?n :: 32 word)) mod 2 ^ 64) = pc_bytes_serialized_size pcb"
    using b(1) by (simp add: sint_of_nat31 pc_bytes_serialized_size_def)
  have d: "rd (pb_bytes pcb) 0 ?n = Inr (pb_bytes pcb)" using b by (simp add: rd_def)
  show ?thesis unfolding pc_bytes_serialize_def Let_def w1 bindE_Inr w2 d w3 r
    by (simp add: serial_def pc_bytes_serialized_size_def add.assoc)
qed

lemma deserialize_eq:
  assumes ok: "serial_ok pcb" and b: "off = length a" "buf = a @ serial pcb @ c"
  shows "pc_bytes_deserialize buf off dim out ro False =
    Inr (out\<lparr>pb_compression := pb_compression pcb, pb_size := pb_size pcb,
          pb_readonly := (if ro then PC_TRUE else PC_FALSE), pb_bytes := pb_bytes pcb,
          pb_interpretation := dim_interpretation dim\<rparr>)"
proof -
  let ?s = "bytes_of_word (word_of_nat (pb_size pcb) :: 32 word)" and ?c = "word_of_nat (pb_compression pcb) :: byte"
  have f: "pb_size pcb < 2 ^ 31" "length (pb_bytes pcb) = pb_size pcb" "pb_compression pcb < 256"
    using ok by (simp_all add: serial_ok_def)
  have r1: "rd buf off 1 = Inr [?c]" by (simp add: b rd_def serial_def)
  have r2: "wkb_get_int32 buf (off + 1) False = Inr (word_of_nat (pb_size pcb))"
  proof -
    have "rd buf (off + 1) 4 = Inr ?s" by (simp add: b rd_def serial_def word_size_def)
    then show ?thesis by (simp add: wkb_get_int32_def)
  qed
  have r3: "rd buf (off + 5) (pb_size pcb) = Inr (pb_bytes pcb)"
    by (simp add: b rd_def serial_def word_size_def f)
  have r4: "take (pb_size pcb) (drop (off + 5) buf) = pb_bytes pcb"
    by (simp add: b serial_def word_size_def f)
  have s: "nat (sint (word_of_nat (pb_size pcb) :: 32 word) mod 2 ^ 64) = pb_size pcb"
    using f(1) by (simp add: sint_of_nat31)
  have c: "unat (hd [?c]) = pb_compression pcb" using f(3) by (simp add: unat_of_nat)
  show ?thesis unfolding pc_bytes_deserialize_def r1 bindE_Inr r2 Let_def s c
    using r3 r4 by (cases ro) simp_all
qed

section \<open>Properties\<close>

text \<open>
  Writing an array into a buffer with room at an offset changes exactly the bytes of its serialised
  form, and reading at that offset gives the array back (its interpretation comes from the dimension, its
  number of points from the structure that is filled in), read-only or not.
\<close>

theorem serialize_roundtrip:
  assumes "serial_ok pcb" "off + pc_bytes_serialized_size pcb \<le> length buf"
  shows "\<exists>buf'. pc_bytes_serialize pcb buf off = Inr (buf', pc_bytes_serialized_size pcb) \<and>
    length buf' = length buf \<and> take off buf' = take off buf \<and>
    drop (off + pc_bytes_serialized_size pcb) buf' = drop (off + pc_bytes_serialized_size pcb) buf \<and>
    pc_bytes_deserialize buf' off dim out ro False =
      Inr (out\<lparr>pb_compression := pb_compression pcb, pb_size := pb_size pcb,
            pb_readonly := (if ro then PC_TRUE else PC_FALSE), pb_bytes := pb_bytes pcb,
            pb_interpretation := dim_interpretation dim\<rparr>)"
proof -
  have l: "off = length (take off buf)" using assms(2) by simp
  show ?thesis using serialize_eq [OF assms] deserialize_eq [OF assms(1) l refl] assms(2)
    by (simp add: length_serial [OF assms(1)])
qed

theorem serialize_roundtrip_witness:
  "\<exists>buf. pc_bytes_serialize demo_shorts (pcalloc 20) 3 = Inr (buf, 13) \<and> length buf = 20"
proof -
  have "serial_ok demo_shorts" "3 + pc_bytes_serialized_size demo_shorts \<le> length (pcalloc 20)"
    by (simp_all add: serial_ok_def demo_shorts_def pc_bytes_serialized_size_def)
  from serialize_roundtrip [OF this] show ?thesis
    by (simp add: pc_bytes_serialized_size_def demo_shorts_def) blast
qed

end
