(* ===== verification/PC_Bytes_Owner.thy ===== *)
theory PC_Bytes_Owner
  imports PC_Bytes_Serial
begin

text \<open>
  An array of a stored patch is a window of the stored bytes, marked read-only. The mark decides who frees
  the bytes, and nothing else: reading, decoding, testing, filtering and storing an array do not depend on it.
\<close>

lemma clone_owner [simp]: "pc_bytes_clone (b\<lparr>pb_readonly := r\<rparr>) = pc_bytes_clone b"
  by (simp add: pc_bytes_clone_def pc_bytes_empty_def cong: if_cong)

lemma sigbits_decode_owner [simp]: "pc_bytes_sigbits_decode (b\<lparr>pb_readonly := r\<rparr>) = pc_bytes_sigbits_decode b"
  by (simp add: pc_bytes_sigbits_decode_def pc_bytes_sigbits_decode_8_def pc_bytes_sigbits_decode_16_def
      pc_bytes_sigbits_decode_32_def pc_bytes_sigbits_decode_64_def unpacked_result_def cong: if_cong)

lemma rle_decode_owner [simp]: "pc_bytes_run_length_decode (b\<lparr>pb_readonly := r\<rparr>) = pc_bytes_run_length_decode b"
  by (simp add: pc_bytes_run_length_decode_def cong: if_cong)

lemma zlib_decode_owner [simp]: "pc_bytes_zlib_decode z (b\<lparr>pb_readonly := r\<rparr>) = pc_bytes_zlib_decode z b"
  by (simp add: pc_bytes_zlib_decode_def cong: if_cong)

lemma decode_owner [simp]: "pc_bytes_decode z (b\<lparr>pb_readonly := r\<rparr>) = pc_bytes_decode z b"
  by (simp add: pc_bytes_decode_def cong: if_cong)

lemma to_ptr_owner [simp]: "pc_bytes_to_ptr z (b\<lparr>pb_readonly := r\<rparr>) n = pc_bytes_to_ptr z b n"
  by (simp add: pc_bytes_to_ptr_def pc_bytes_uncompressed_to_ptr_def pc_bytes_zlib_to_ptr_def pc_bytes_run_length_to_ptr_def
      pc_bytes_sigbits_to_ptr_def pc_bytes_sigbits_to_ptr_8_def pc_bytes_sigbits_to_ptr_16_def
      pc_bytes_sigbits_to_ptr_32_def pc_bytes_sigbits_to_ptr_64_def cong: if_cong)

lemma minmax_owner [simp]: "pc_bytes_minmax z (b\<lparr>pb_readonly := r\<rparr>) = pc_bytes_minmax z b"
  by (simp add: pc_bytes_minmax_def pc_bytes_uncompressed_minmax_def pc_bytes_run_length_minmax_def
      pc_bytes_zlib_minmax_def pc_bytes_sigbits_minmax_def cong: if_cong)

lemma bitmap_owner [simp]: "pc_bytes_bitmap z (b\<lparr>pb_readonly := r\<rparr>) ft v1 v2 = pc_bytes_bitmap z b ft v1 v2"
  by (simp add: pc_bytes_bitmap_def pc_bytes_uncompressed_bitmap_def pc_bytes_run_length_bitmap_def cong: if_cong)

lemma filter_owner [simp]: "pc_bytes_filter z (b\<lparr>pb_readonly := r\<rparr>) bm st = pc_bytes_filter z b bm st"
  by (simp add: pc_bytes_filter_def pc_bytes_uncompressed_filter_def pc_bytes_run_length_filter_def cong: if_cong)

lemma serial_owner [simp]: "serial (b\<lparr>pb_readonly := r\<rparr>) = serial b" "serial_ok (b\<lparr>pb_readonly := r\<rparr>) = serial_ok b"
  by (simp_all add: serial_def serial_ok_def)

section \<open>What an encoder makes can be stored\<close>

lemma unique_bytes_le: "unique_bytes W k n < 2 ^ 29"
proof -
  have "nat ((int W - int k) * int n mod 2 ^ 32) < 2 ^ 32"
    using pos_mod_bound [of "2 ^ 32" "(int W - int k) * int n"] by (simp add: nat_less_iff)
  then show ?thesis unfolding unique_bytes_def by (simp add: div_less_iff_less_mult)
qed

lemma sigbits_size:
  assumes "pc_bytes_sigbits_encode pcb = Inr e"
  shows "pb_size e < 2 ^ 31"
proof -
  have "unique_bytes 8 k n + 3 < 2 ^ 31" "unique_bytes 16 k n + 5 + 1 < 2 ^ 31" "unique_bytes 32 k n + 9 + 4 < 2 ^ 31"
    "unique_bytes 64 k n + 17 + 8 < 2 ^ 31" for k n
    using unique_bytes_le [of 8 k n] unique_bytes_le [of 16 k n] unique_bytes_le [of 32 k n] unique_bytes_le [of 64 k n] by simp_all
  note u = this
  have "x mod 2 \<le> 1" "4 - x mod 4 \<le> 4" "8 - x mod 8 \<le> 8" for x :: nat by simp_all
  note m = this
  have v: "unique_bytes 16 k n + 1 + 4 + (unique_bytes 16 k n + 1 + 4) mod 2 < 2 ^ 31"
    "unique_bytes 32 k n + 1 + 8 + (4 - (unique_bytes 32 k n + 1 + 8) mod 4) < 2 ^ 31"
    "unique_bytes 64 k n + 1 + 16 + (8 - (unique_bytes 64 k n + 1 + 16) mod 8) < 2 ^ 31" for k n
    using u(2-4) [where k = k and n = n] m(1) [of "unique_bytes 16 k n + 1 + 4"] m(2) [of "unique_bytes 32 k n + 1 + 8"]
      m(3) [of "unique_bytes 64 k n + 1 + 16"] by linarith+
  show ?thesis
    using assms u(1) v
    by (auto simp: pc_bytes_sigbits_encode_def pc_bytes_sigbits_encode_8_def pc_bytes_sigbits_encode_16_def
        pc_bytes_sigbits_encode_32_def pc_bytes_sigbits_encode_64_def bindE_eq_Inr Let_def sigbits_result_def split: if_splits)
qed

lemma sb_array_length:
  assumes "sb_array TYPE('a::len) pcb k e"
  shows "length (pb_bytes e) = pb_size e"
proof -
  obtain ws :: "'a word list" where e: "e = sigbits_result pcb (length ws * word_size TYPE('a)) ws"
    using assms unfolding sb_array_def Let_def by blast
  have "length (concat (map bytes_of_word ws)) = length ws * word_size TYPE('a)"
    by (induction ws) simp_all
  then show ?thesis unfolding e by (simp add: sigbits_result_def bytes_of_words_def)
qed

lemma runs_of_le: "length (runs_of xs) \<le> length xs"
proof -
  have "length (runs_from r v xs) \<le> Suc (length xs)" for r v xs by (induction r v xs rule: runs_from.induct) auto
  then show ?thesis by (cases xs) auto
qed

lemma encode_serial:
  assumes p: "plain pcb" "pb_npoints pcb < 2 ^ 26" and c: "codec_fits z c pcb" "pc_bytes_encode z pcb c = Inr e"
  shows "serial_ok e"
proof -
  have s: "pb_size pcb \<le> pb_npoints pcb * 8" "pb_size pcb = pb_npoints pcb * isize (pb_interpretation pcb)" "length (pb_bytes pcb) = pb_size pcb"
    using p(1) isize_le_8 by (simp_all add: plain_def)
  have f: "pb_compression e = c" using encode_fields [OF p(1) c] by simp
  from c(1) show ?thesis
  proof (cases rule: codec_cases)
    case 1
    then have "e = pcb\<lparr>pb_readonly := PC_FALSE\<rparr>" using c(2) clone_plain [OF p(1)] by (simp add: pc_bytes_encode_def)
    moreover have "pb_size pcb < 2 ^ 31" using s(1) p(2) by simp
    ultimately show ?thesis using s(3) f 1 by (simp add: serial_ok_def)
  next
    case 2
    let ?rs = "runs_of (vals pcb)"
    have a: "rle_array e ?rs" using c(2) rle_encode_array [OF p(1)] 2 by (simp add: pc_bytes_encode_def)
    then have known: "known_interp (pb_interpretation e)" by (simp add: rle_array_def)
    from a have r: "runs_ok (isize (pb_interpretation e)) ?rs" "run_total ?rs = pb_npoints e" "pb_bytes e = rle_bytes ?rs" "pb_size e = length (rle_bytes ?rs)"
      by (simp_all add: rle_array_def)
    have "length ?rs \<le> length (vals pcb)" by (rule runs_of_le)
    then have "length ?rs \<le> 2 ^ 26" using p(2) by (simp add: vals_def)
    then have "length ?rs * (1 + isize (pb_interpretation e)) \<le> 2 ^ 26 * 9" using isize_le_8 [of "pb_interpretation e"] known by (intro mult_le_mono) simp_all
    then show ?thesis using r(3,4) length_rle_bytes [OF r(1)] f 2 by (simp add: serial_ok_def)
  next
    case 3
    then have e: "pc_bytes_sigbits_encode pcb = Inr e" using c(2) by (simp add: pc_bytes_encode_def)
    obtain k where "sb_encodes pcb k e" using sigbits_encode_ok [OF p(1)] 3(2) e by (metis sigbits_fits_def sum.inject(2))
    then have "length (pb_bytes e) = pb_size e" unfolding sb_encodes_def Let_def by (auto dest: sb_array_length split: if_splits)
    then show ?thesis using sigbits_size [OF e] f 3 by (simp add: serial_ok_def)
  next
    case 4
    let ?d = "z_deflate z (pb_bytes pcb) (4 * pb_size pcb mod 2 ^ 32)"
    have "e = pcb\<lparr>pb_size := length ?d, pb_bytes := ?d, pb_compression := PC_DIM_ZLIB, pb_readonly := PC_FALSE\<rparr>"
      using c(2) 4(1) zlib_encode_eq [OF p(1) 4(2)] by (simp add: pc_bytes_encode_def Let_def)
    moreover have "length ?d < 2 ^ 31"
    proof -
      have "4 * pb_size pcb \<le> 2 ^ 31" using s(1) p(2) by simp
      then have "4 * pb_size pcb mod 2 ^ 32 \<le> 2 ^ 31" using mod_less_eq_dividend le_trans by blast
      then show ?thesis using 4(2) less_le_trans unfolding zlib_fits_def by blast
    qed
    ultimately show ?thesis by (simp add: serial_ok_def)
  qed
qed

end
