(* ===== verification/PC_Patch_Dimensional.thy ===== *)
theory PC_Patch_Dimensional
  imports PC_Patch_Uncompressed PC_Bytes_Owner
begin

text \<open>
  Dimensional patches (lib/pc_patch_dimensional.c, lib/pc_dimstats.c and the conversions of
  lib/pc_patch_uncompressed.c and lib/pc_pointlist.c): one byte array for each dimension of the schema,
  each with its own compression, chosen from statistics that are kept over several patches. The
  counters of the loops are \<open>int\<close>: the model speaks of patches of fewer than 2^31 points.
\<close>

section \<open>Statistics of dimensions\<close>

record PCDIMSTAT =
  dst_total_runs :: nat
  dst_total_commonbits :: nat
  dst_recommended_compression :: nat

record PCDIMSTATS =
  dts_ndims :: nat
  dts_total_points :: nat
  dts_total_patches :: nat
  dts_stats :: "PCDIMSTAT list"

record PCPATCH_DIMENSIONAL = PCPATCH +
  pd_bytes :: "PCBYTES list"

abbreviation (input) "PCDIMSTATS_MIN_SAMPLE \<equiv> 10000 :: nat"

definition pc_dimstats_make :: "PCSCHEMA \<Rightarrow> PCDIMSTATS" where
  "pc_dimstats_make schema = \<lparr>dts_ndims = sc_ndims schema, dts_total_points = 0, dts_total_patches = 0,
     dts_stats = replicate (sc_ndims schema)
       \<lparr>dst_total_runs = 0, dst_total_commonbits = 0, dst_recommended_compression = 0\<rparr>\<rparr>"

definition dimstats_count :: "PCPATCH_DIMENSIONAL \<Rightarrow> nat \<Rightarrow> PCDIMSTAT list \<Rightarrow> PCDIMSTAT list res" where
  "dimstats_count pdl i stats =
     bindE (rdx (pd_bytes pdl) i) (\<lambda>pcb. bindE (rdx stats i) (\<lambda>st.
     bindE (pc_bytes_run_count pcb) (\<lambda>runs. bindE (pc_bytes_sigbits_count pcb) (\<lambda>bits.
     wrx stats i (st\<lparr>dst_total_runs := (dst_total_runs st + runs) mod 2 ^ 32,
                     dst_total_commonbits := (dst_total_commonbits st + bits) mod 2 ^ 32\<rparr>)))))"

text \<open>
  The products of \<open>uint32_t\<close> values wrap before they become doubles. The literals are the doubles
  1.6 and 4.0.
\<close>

definition d_uint :: "nat \<Rightarrow> double" where
  "d_uint n = d_of_int (int (n mod 2 ^ 32))"

definition recommend :: "nat \<Rightarrow> nat \<Rightarrow> PCDIMENSION \<Rightarrow> PCDIMSTAT \<Rightarrow> nat" where
  "recommend points patches dim st =
     (let raw_size = d_uint (points * dim_size dim);
          rle_size = d_uint (dst_total_runs st * (dim_size dim + 1));
          avg_commonbits_per_patch = d_uint (dst_total_commonbits st div patches);
          avg_uniquebits_per_patch = d_sub (d_uint (8 * dim_size dim)) avg_commonbits_per_patch;
          sigbits_size = d_add (d_uint (patches * 2 * dim_size dim))
            (d_div (d_mul (d_uint points) avg_uniquebits_per_patch) (d_of_int 8));
          c = PC_DIM_ZLIB in
      if dim_interpretation dim \<noteq> PC_DOUBLE
      then let c = (if d_lt 0x3FF999999999999A (d_div raw_size sigbits_size) then PC_DIM_SIGBITS else c);
               c = (if d_lt (d_of_int 4) (d_div raw_size rle_size) then PC_DIM_RLE else c)
           in c
      else c)"

definition dimstats_recommend :: "PCSCHEMA \<Rightarrow> nat \<Rightarrow> nat \<Rightarrow> nat \<Rightarrow> PCDIMSTAT list \<Rightarrow> PCDIMSTAT list res" where
  "dimstats_recommend schema points patches i stats = (case pc_schema_get_dimension schema i of
       None \<Rightarrow> Inl OutOfBounds
     | Some dim \<Rightarrow> bindE (rdx stats i) (\<lambda>st.
         if patches = 0 then Inl Unspecified
         else wrx stats i (st\<lparr>dst_recommended_compression := recommend points patches dim st\<rparr>)))"

definition pc_dimstats_update :: "PCDIMSTATS \<Rightarrow> PCPATCH_DIMENSIONAL \<Rightarrow> PCDIMSTATS res" where
  "pc_dimstats_update pds pdl =
     (let points = (dts_total_points pds + pa_npoints pdl) mod 2 ^ 32;
          patches = (dts_total_patches pds + 1) mod 2 ^ 32 in
     bindE (foldE (dimstats_count pdl) [0..<dts_ndims pds] (dts_stats pds)) (\<lambda>stats.
     bindE (foldE (dimstats_recommend (pa_schema pdl) points patches) [0..<dts_ndims pds] stats) (\<lambda>stats.
     Inr (pds\<lparr>dts_total_points := points, dts_total_patches := patches, dts_stats := stats\<rparr>))))"

section \<open>Dimensional patches\<close>

text \<open>A zeroed array.\<close>

definition zero_bytes :: PCBYTES where
  "zero_bytes = \<lparr>pb_size = 0, pb_npoints = 0, pb_interpretation = 0, pb_compression = 0, pb_readonly = 0, pb_bytes = []\<rparr>"

definition pc_patch_dimensional_clone :: "PCPATCH_DIMENSIONAL \<Rightarrow> PCPATCH_DIMENSIONAL" where
  "pc_patch_dimensional_clone patch =
     patch\<lparr>pd_bytes := replicate (sc_ndims (pa_schema patch)) zero_bytes, pa_npoints := 0, pa_stats := None\<rparr>"

definition pc_patch_dimensional_serialized_size :: "PCPATCH_DIMENSIONAL \<Rightarrow> nat res" where
  "pc_patch_dimensional_serialized_size p =
     foldE (\<lambda>i n. bindE (rdx (pd_bytes p) i) (\<lambda>b. Inr (n + pc_bytes_serialized_size b)))
       [0..<sc_ndims (pa_schema p)] 0"

text \<open>\<open>dim->size * j\<close> is a product of two 32-bit numbers, the other offsets are of type \<open>size_t\<close>.\<close>

definition take_value :: "PCPATCH_UNCOMPRESSED \<Rightarrow> PCDIMENSION \<Rightarrow> nat \<Rightarrow> byte list \<Rightarrow> byte list res" where
  "take_value pa dim j bytes =
     bindE (rd (pu_data pa) (sc_size (pa_schema pa) * j + dim_byteoffset dim) (dim_size dim)) (\<lambda>v.
     wr bytes (dim_size dim * j mod 2 ^ 32) v)"

definition take_dimension :: "PCPATCH_UNCOMPRESSED \<Rightarrow> nat \<Rightarrow> PCBYTES res" where
  "take_dimension pa i = (case pc_schema_get_dimension (pa_schema pa) i of None \<Rightarrow> Inl OutOfBounds
     | Some dim \<Rightarrow> let b = pc_bytes_make dim (pa_npoints pa) in
         bindE (foldE (take_value pa dim) [0..<pa_npoints pa] (pb_bytes b)) (\<lambda>bytes.
         Inr (b\<lparr>pb_bytes := bytes\<rparr>)))"

definition pc_patch_dimensional_from_uncompressed :: "PCPATCH_UNCOMPRESSED \<Rightarrow> PCPATCH_DIMENSIONAL option res" where
  "pc_patch_dimensional_from_uncompressed pa =
     (if pa_npoints pa = 0 then Inr None
      else bindE (pc_stats_clone (pa_stats pa)) (\<lambda>stats.
           bindE (mapE (take_dimension pa) [0..<sc_ndims (pa_schema pa)]) (\<lambda>bytes.
           Inr (Some \<lparr>pa_type = PC_DIMENSIONAL, pa_readonly = PC_FALSE, pa_schema = pa_schema pa,
                      pa_npoints = pa_npoints pa, pa_bounds = pa_bounds pa, pa_stats = stats, pd_bytes = bytes\<rparr>))))"

text \<open>The caller's statistics are updated in place; without any, fresh ones are used and dropped.\<close>

definition pc_patch_dimensional_compress ::
  "zlib \<Rightarrow> PCPATCH_DIMENSIONAL \<Rightarrow> PCDIMSTATS option \<Rightarrow> (PCPATCH_DIMENSIONAL \<times> PCDIMSTATS option) res" where
  "pc_patch_dimensional_compress z pdl pds_in =
     (let pds = (case pds_in of None \<Rightarrow> pc_dimstats_make (pa_schema pdl) | Some pds \<Rightarrow> pds) in
     bindE (if dts_total_points pds < PCDIMSTATS_MIN_SAMPLE then pc_dimstats_update pds pdl else Inr pds) (\<lambda>pds.
     bindE (pc_stats_clone (pa_stats pdl)) (\<lambda>stats.
     bindE (mapE (\<lambda>i. bindE (rdx (pd_bytes pdl) i) (\<lambda>b. bindE (rdx (dts_stats pds) i) (\<lambda>st.
                pc_bytes_encode z b (dst_recommended_compression st))))
              [0..<sc_ndims (pa_schema pdl)]) (\<lambda>bytes.
     Inr (pdl\<lparr>pa_stats := stats, pd_bytes := bytes\<rparr>, map_option (\<lambda>_. pds) pds_in)))))"

definition pc_patch_dimensional_decompress :: "zlib \<Rightarrow> PCPATCH_DIMENSIONAL \<Rightarrow> PCPATCH_DIMENSIONAL res" where
  "pc_patch_dimensional_decompress z pdl =
     bindE (pc_stats_clone (pa_stats pdl)) (\<lambda>stats.
     bindE (mapE (\<lambda>i. bindE (rdx (pd_bytes pdl) i) (pc_bytes_decode z)) [0..<sc_ndims (pa_schema pdl)]) (\<lambda>bytes.
     Inr (pdl\<lparr>pa_stats := stats, pd_bytes := bytes\<rparr>)))"

text \<open>Copies value \<open>i\<close> of dimension \<open>j\<close> into the point that starts at \<open>off\<close>.\<close>

definition put_value :: "PCSCHEMA \<Rightarrow> PCBYTES list \<Rightarrow> nat \<Rightarrow> nat \<Rightarrow> nat \<Rightarrow> byte list \<Rightarrow> byte list res" where
  "put_value schema arrays i off j buf = (case pc_schema_get_dimension schema j of None \<Rightarrow> Inl OutOfBounds
     | Some dim \<Rightarrow> bindE (rdx arrays j) (\<lambda>b.
         bindE (rd (pb_bytes b) (dim_size dim * i mod 2 ^ 32) (dim_size dim)) (\<lambda>v.
         wr buf (off + dim_byteoffset dim) v)))"

definition put_point :: "PCSCHEMA \<Rightarrow> PCBYTES list \<Rightarrow> nat \<Rightarrow> byte list \<Rightarrow> byte list res" where
  "put_point schema arrays i buf =
     foldE (put_value schema arrays i (i * sc_size schema)) [0..<sc_ndims schema] buf"

definition pc_patch_uncompressed_from_dimensional :: "zlib \<Rightarrow> PCPATCH_DIMENSIONAL \<Rightarrow> PCPATCH_UNCOMPRESSED res" where
  "pc_patch_uncompressed_from_dimensional z pdl =
     (let npoints = pa_npoints pdl; schema = pa_schema pdl; datasize = sc_size schema * npoints mod 2 ^ 64 in
     bindE (pc_stats_clone (pa_stats pdl)) (\<lambda>stats.
     bindE (pc_patch_dimensional_decompress z pdl) (\<lambda>u.
     bindE (foldE (put_point schema (pd_bytes u)) [0..<npoints] (pcalloc datasize)) (\<lambda>data.
     Inr \<lparr>pa_type = PC_NONE, pa_readonly = PC_FALSE, pa_schema = schema, pa_npoints = npoints,
          pa_bounds = pa_bounds pdl, pa_stats = stats, pu_maxpoints = npoints, pu_datasize = datasize,
          pu_data = data\<rparr>))))"

text \<open>
  The points of the list are windows of one buffer, which the loop fills as it adds them: in the end
  every point sees the whole filled buffer.
\<close>

definition pc_pointlist_from_dimensional :: "zlib \<Rightarrow> PCPATCH_DIMENSIONAL \<Rightarrow> PCPOINTLIST res" where
  "pc_pointlist_from_dimensional z pdl =
     (let npoints = pa_npoints pdl; schema = pa_schema pdl in
     bindE (pc_patch_dimensional_decompress z pdl) (\<lambda>u.
     bindE (foldE (put_point schema (pd_bytes u)) [0..<npoints] (pcalloc (npoints * sc_size schema mod 2 ^ 64))) (\<lambda>data.
     foldE (\<lambda>i pl. bindE (pc_point_from_data (Some schema) (drop (i * sc_size schema) data)) (\<lambda>pt.
              pc_pointlist_add_point pl (Some pt)))
       [0..<npoints] (pc_pointlist_make npoints))))"

definition dim_extremes :: "zlib \<Rightarrow> PCPATCH_DIMENSIONAL \<Rightarrow> PCDIMENSION \<Rightarrow> (double \<times> double) res" where
  "dim_extremes z pdl dim =
     bindE (rdx (pd_bytes pdl) (dim_position dim)) (\<lambda>pcb.
     bindE (pc_bytes_minmax z pcb) (\<lambda>(mn, mx, avg).
     Inr (pc_value_scale_offset mn dim, pc_value_scale_offset mx dim)))"

definition pc_patch_dimensional_compute_extent :: "zlib \<Rightarrow> PCPATCH_DIMENSIONAL \<Rightarrow> PCPATCH_DIMENSIONAL res" where
  "pc_patch_dimensional_compute_extent z pdl =
     (case (deref (pa_schema pdl) (sc_xdim (pa_schema pdl)), deref (pa_schema pdl) (sc_ydim (pa_schema pdl))) of
       (Some xdim, Some ydim) \<Rightarrow>
         bindE (dim_extremes z pdl xdim) (\<lambda>(xmin, xmax).
         bindE (dim_extremes z pdl ydim) (\<lambda>(ymin, ymax).
         Inr (pdl\<lparr>pa_bounds := \<lparr>b_xmin = xmin, b_xmax = xmax, b_ymin = ymin, b_ymax = ymax\<rparr>\<rparr>)))
     | _ \<Rightarrow> Inl AssertFailed)"

definition pc_patch_dimensional_to_wkb :: "PCPATCH_DIMENSIONAL \<Rightarrow> (byte list \<times> nat) res" where
  "pc_patch_dimensional_to_wkb patch =
     bindE (pc_patch_dimensional_serialized_size patch) (\<lambda>n. let sz = 1 + 4 + 4 + 4 + n in
     bindE (wr (pcalloc sz) 0 [machine_endian]) (\<lambda>wkb.
     bindE (wr wkb 1 (bytes_of_word (word_of_nat (sc_pcid (pa_schema patch)) :: 32 word))) (\<lambda>wkb.
     bindE (wr wkb 5 (bytes_of_word (word_of_nat (pa_type patch) :: 32 word))) (\<lambda>wkb.
     bindE (wr wkb 9 (bytes_of_word (word_of_nat (pa_npoints patch) :: 32 word))) (\<lambda>wkb.
     bindE (foldE (\<lambda>i (wkb, off). bindE (rdx (pd_bytes patch) i) (\<lambda>pcb.
              bindE (pc_bytes_serialize pcb wkb off) (\<lambda>(wkb, bsz). Inr (wkb, off + bsz))))
            [0..<sc_ndims (pa_schema patch)] (wkb, 13)) (\<lambda>(wkb, _).
     Inr (wkb, sz)))))))"

text \<open>
  One turn of the loop that reads the arrays, which the storage format shares (there the arrays are
  read-only). State of the loop: the arrays read so far, and the read position.
\<close>

definition read_dimension ::
  "PCSCHEMA \<Rightarrow> nat \<Rightarrow> bool \<Rightarrow> byte list \<Rightarrow> bool \<Rightarrow> nat \<Rightarrow> PCBYTES list \<times> nat \<Rightarrow> (PCBYTES list \<times> nat) res" where
  "read_dimension schema npoints readonly wkb swap_endian i st = (case st of (arrays, off) \<Rightarrow>
     (case deref schema (sc_dims schema ! i) of None \<Rightarrow> Inl OutOfBounds
      | Some dim \<Rightarrow> bindE (rdx arrays i) (\<lambda>pcb.
          bindE (pc_bytes_deserialize wkb off dim pcb readonly swap_endian) (\<lambda>pcb.
          let pcb = pcb\<lparr>pb_npoints := npoints\<rparr> in
          bindE (wrx arrays i pcb) (\<lambda>arrays. Inr (arrays, off + pc_bytes_serialized_size pcb))))))"

definition pc_patch_dimensional_from_wkb :: "PCSCHEMA \<Rightarrow> byte list \<Rightarrow> nat \<Rightarrow> PCPATCH_DIMENSIONAL res" where
  "pc_patch_dimensional_from_wkb schema wkb wkbsize =
     (let hdrsz = 1 + 4 + 4 + 4 in
     bindE (rd wkb 0 1) (\<lambda>e. let swap_endian = (hd e \<noteq> machine_endian) in
     bindE (wkb_get_compression wkb) (\<lambda>c.
     if c \<noteq> 1 then Inl (PcError ''pc_patch_dimensional_from_wkb: call with wkb that is not dimensionally compressed'')
     else bindE (wkb_get_npoints wkb) (\<lambda>np. let npoints = unat np; ndims = sc_ndims schema in
     bindE (foldE (read_dimension schema npoints False wkb swap_endian) [0..<ndims] (replicate ndims zero_bytes, hdrsz))
       (\<lambda>(arrays, _).
     Inr \<lparr>pa_type = PC_DIMENSIONAL, pa_readonly = PC_FALSE, pa_schema = schema, pa_npoints = npoints,
          pa_bounds = zero_bounds, pa_stats = None, pd_bytes = arrays\<rparr>)))))"

definition pc_patch_dimensional_from_pointlist :: "PCPOINTLIST option \<Rightarrow> PCPATCH_DIMENSIONAL option res" where
  "pc_patch_dimensional_from_pointlist pdl =
     bindE (pc_patch_uncompressed_from_pointlist pdl) pc_patch_dimensional_from_uncompressed"

definition pc_patch_dimensional_pointn :: "zlib \<Rightarrow> PCPATCH_DIMENSIONAL \<Rightarrow> int \<Rightarrow> PCPOINT res" where
  "pc_patch_dimensional_pointn z pdl n =
     bindE (pc_point_make (Some (pa_schema pdl))) (\<lambda>pt.
     bindE (foldE (\<lambda>i buf. (case pc_schema_get_dimension (pa_schema pdl) i of None \<Rightarrow> Inl OutOfBounds
              | Some dim \<Rightarrow> bindE (rdx (pd_bytes pdl) i) (\<lambda>b. bindE (pc_bytes_to_ptr z b n) (\<lambda>v.
                  wr buf (dim_byteoffset dim) v))))
            [0..<sc_ndims (pa_schema pdl)] (pt_data pt)) (\<lambda>data.
     Inr (pt\<lparr>pt_data := data\<rparr>)))"

section \<open>Arrays of the dimensions\<close>

text \<open>\<open>col_array s ws j\<close> is the plain array of dimension \<open>j\<close> of the points with the bytes \<open>ws\<close>.\<close>

definition col :: "PCSCHEMA \<Rightarrow> byte list list \<Rightarrow> nat \<Rightarrow> byte list list" where
  "col s ws j = map (\<lambda>w. fld s w j) ws"

definition col_array :: "PCSCHEMA \<Rightarrow> byte list list \<Rightarrow> nat \<Rightarrow> PCBYTES" where
  "col_array s ws j = \<lparr>pb_size = length ws * dim_size (sdim s j), pb_npoints = length ws,
     pb_interpretation = dim_interpretation (sdim s j), pb_compression = PC_DIM_NONE, pb_readonly = PC_FALSE,
     pb_bytes = concat (col s ws j)\<rparr>"

text \<open>Few enough points that no 32-bit size of the code wraps.\<close>

definition points_ok :: "PCSCHEMA \<Rightarrow> byte list list \<Rightarrow> bool" where
  "points_ok s ws = (schema_ready s \<and> widths s ws \<and> length ws < 2 ^ 26)"

lemma dim_size_8: "schema_ready s \<Longrightarrow> j < sc_ndims s \<Longrightarrow> dim_size (sdim s j) \<le> 8"
  using ready_layout(1) [of s j] ready_dims(3) [of s j] isize_le_8 by simp

lemma col_width: "points_ok s ws \<Longrightarrow> j < sc_ndims s \<Longrightarrow> v \<in> set (col s ws j) \<Longrightarrow> length v = dim_size (sdim s j)"
  using length_fld [of s j] by (auto simp: points_ok_def widths_def col_def)

lemma col_array_plain:
  assumes "points_ok s ws" "j < sc_ndims s"
  shows "plain (col_array s ws j)" "vals (col_array s ws j) = col s ws j"
proof -
  have s: "schema_ready s" using assms by (simp add: points_ok_def)
  have l: "length (concat (col s ws j)) = length ws * dim_size (sdim s j)"
    using length_concat_const [of "col s ws j", OF col_width [OF assms]] by (simp add: col_def)
  show "plain (col_array s ws j)"
    using l ready_dims(3) [OF s assms(2)] ready_layout(1) [OF s assms(2)] assms(1)
    by (simp add: plain_def col_array_def points_ok_def)
  show "vals (col_array s ws j) = col s ws j"
    using elems_concat [of "col s ws j" "dim_size (sdim s j)" "[]"] col_width [OF assms] ready_layout(1) [OF s assms(2)]
    by (simp add: vals_def col_array_def) (simp add: col_def)
qed

text \<open>A loop that writes the elements of a buffer one after the other.\<close>

lemma fill_buffer:
  assumes step: "\<And>k buf. k < length vs \<Longrightarrow> length buf = length vs * n \<Longrightarrow> f k buf = wr buf (k * n) (vs ! k)"
    and w: "\<And>v. v \<in> set vs \<Longrightarrow> length v = n"
  shows "foldE f [0..<length vs] (pcalloc (length vs * n)) = Inr (concat vs)"
proof -
  have "foldE f [0..<k] (pcalloc (length vs * n)) = Inr (concat (take k vs) @ replicate ((length vs - k) * n) 0)"
    if "k \<le> length vs" for k
    using that
  proof (induction k)
    case (Suc k)
    let ?pre = "concat (take k vs)" and ?z = "replicate ((length vs - Suc k) * n) (0 :: byte)"
    have k: "k < length vs" using Suc.prems by simp
    have l: "length ?pre = k * n"
      using length_concat_const [of "take k vs" n] w k by (auto dest: in_set_takeD)
    have z: "replicate ((length vs - k) * n) (0 :: byte) = replicate n 0 @ ?z"
      using k by (simp add: replicate_add [symmetric] Suc_diff_Suc [symmetric])
    have "length (?pre @ replicate ((length vs - k) * n) (0 :: byte)) = length vs * n"
      using l k by (simp add: add_mult_distrib [symmetric])
    then have "f k (?pre @ replicate ((length vs - k) * n) 0) = wr (?pre @ replicate n 0 @ ?z) (k * n) (vs ! k)"
      using step [OF k] by (simp add: z)
    also have "\<dots> = Inr (?pre @ vs ! k @ ?z)" by (rule wr_mid) (use l w k in simp_all)
    finally have "f k (?pre @ replicate ((length vs - k) * n) 0) = Inr (concat (take (Suc k) vs) @ ?z)"
      using k by (simp add: take_Suc_conv_app_nth)
    then show ?case using Suc by (simp only: foldE_upt_Suc) simp
  qed (simp add: pcalloc_def)
  from this [of "length vs"] show ?thesis by simp
qed

lemma take_dimension_eq:
  assumes p: "patch_ok p" "pa_npoints p < 2 ^ 26" and j: "j < sc_ndims (pa_schema p)"
  shows "take_dimension p j = Inr (col_array (pa_schema p) (pts p) j)"
proof -
  let ?s = "pa_schema p" and ?n = "pa_npoints p"
  let ?d = "sdim ?s j"
  have s: "schema_ready ?s" using p(1) by (simp add: patch_ok_def)
  have ok: "points_ok ?s (pts p)" using p s pts_width by (auto simp: points_ok_def widths_def)
  have le: "dim_size ?d * k < 2 ^ 32" if "k \<le> ?n" for k
  proof -
    have "dim_size ?d * k \<le> 8 * ?n" using dim_size_8 [OF s j] that by (intro mult_le_mono)
    then show ?thesis using p(2) by simp
  qed
  have step: "take_value p ?d k buf = wr buf (k * dim_size ?d) (col ?s (pts p) j ! k)" if k: "k < ?n" for k buf
  proof -
    have "rd (pu_data p) (sc_size ?s * k + dim_byteoffset ?d) (dim_size ?d) = Inr (fld ?s (pts p ! k) j)"
    proof -
      have b: "k * sc_size ?s + sc_size ?s \<le> length (pu_data p)"
        using elem_bound [OF k, of "sc_size ?s"] patch_room [OF p(1)] by simp
      have "drop (sc_size ?s * k + dim_byteoffset ?d) (pu_data p) =
          drop (dim_byteoffset ?d) (pts p ! k @ drop (Suc k * sc_size ?s) (pu_data p))"
        unfolding pts_at(1) [OF p(1) k, symmetric] by (simp add: ac_simps)
      then show ?thesis using b ready_inside [OF s j] pts_at(2) [OF p(1) k]
        by (simp add: rd_def fld_def mult.commute)
    qed
    then show ?thesis using le [of k] k by (simp add: take_value_def col_def mult.commute)
  qed
  have l: "length (col ?s (pts p) j) = ?n" by (simp add: col_def)
  have "foldE (take_value p ?d) [0..<?n] (pcalloc (?n * dim_size ?d)) = Inr (concat (col ?s (pts p) j))"
    unfolding l [symmetric] by (rule fill_buffer) (use step col_width [OF ok j] l in auto)
  then show ?thesis
    using ready_dims(1) [OF s j] le [of ?n]
    by (simp add: take_dimension_def pc_bytes_make_def Let_def col_array_def mult.commute [of "dim_size ?d"])
qed

lemma put_point_eq:
  assumes s: "points_ok s ws" and i: "i < length ws" and b: "i * sc_size s + sc_size s \<le> length buf"
    and a: "length arrays = sc_ndims s" "\<And>j. j < sc_ndims s \<Longrightarrow> pb_bytes (arrays ! j) = concat (col s ws j)"
  shows "put_point s arrays i buf = wr buf (i * sc_size s) (ws ! i)"
proof -
  let ?w = "ws ! i"
  have sr: "schema_ready s" and lw: "length ?w = sc_size s" using s i by (auto simp: points_ok_def widths_def)
  have "put_value s arrays i (i * sc_size s) k buf' = wr buf' (i * sc_size s + dim_byteoffset (sdim s k)) (flds s ?w ! k)"
    if k: "k < sc_ndims s" for k buf'
  proof -
    let ?d = "sdim s k"
    have m: "dim_size ?d * i mod 2 ^ 32 = i * dim_size ?d"
    proof -
      have "dim_size ?d * i \<le> 8 * length ws" using dim_size_8 [OF sr k] i by (intro mult_le_mono) simp_all
      then have "dim_size ?d * i < 2 ^ 32" using s by (simp add: points_ok_def)
      then show ?thesis by (simp add: mult.commute)
    qed
    have "rd (pb_bytes (arrays ! k)) (dim_size ?d * i mod 2 ^ 32) (dim_size ?d) = Inr (fld s ?w k)"
      using vals_nth_rd [OF col_array_plain(1) [OF s k], of i] col_array_plain(2) [OF s k] i a(2) [OF k]
        ready_layout(1) [OF sr k] m by (simp add: col_array_def col_def)
    then show ?thesis using ready_dims(1) [OF sr k] k a(1) by (simp add: put_value_def rdx_def flds_def)
  qed
  then have "put_point s arrays i buf = wr buf (i * sc_size s) (concat (flds s ?w))"
    unfolding put_point_def by (intro write_fields [OF sr]) (use length_fld [OF sr _ lw] b in \<open>simp_all add: flds_def\<close>)
  then show ?thesis using concat_flds [OF sr lw] by simp
qed


section \<open>Dimensional patches as sequences of points\<close>

text \<open>
  The arrays are encodings of the dimensions of the points \<open>ws\<close>; \<open>plain_arrays\<close> are the uncompressed ones.
\<close>

definition plain_arrays :: "PCSCHEMA \<Rightarrow> byte list list \<Rightarrow> PCBYTES list" where
  "plain_arrays s ws = map (col_array s ws) [0..<sc_ndims s]"

definition coded_arrays :: "zlib \<Rightarrow> PCSCHEMA \<Rightarrow> byte list list \<Rightarrow> PCBYTES list \<Rightarrow> bool" where
  "coded_arrays z s ws arrays = (length arrays = sc_ndims s \<and> (\<forall>j < sc_ndims s. \<exists>c e r. codec_fits z c (col_array s ws j) \<and>
     pc_bytes_encode z (col_array s ws j) c = Inr e \<and> arrays ! j = e\<lparr>pb_readonly := r\<rparr>))"

lemma codedE:
  assumes "coded_arrays z s ws arrays" "j < sc_ndims s"
  obtains c e r where "codec_fits z c (col_array s ws j)" "pc_bytes_encode z (col_array s ws j) c = Inr e"
    "arrays ! j = e\<lparr>pb_readonly := r\<rparr>"
  using assms by (auto simp: coded_arrays_def)

lemma codedI:
  assumes "length arrays = sc_ndims s" "\<And>j. j < sc_ndims s \<Longrightarrow> \<exists>c. codec_fits z c (col_array s ws j) \<and>
     pc_bytes_encode z (col_array s ws j) c = Inr (arrays ! j)"
  shows "coded_arrays z s ws arrays"
proof -
  have "\<exists>c e r. codec_fits z c (col_array s ws j) \<and> pc_bytes_encode z (col_array s ws j) c = Inr e \<and>
      arrays ! j = e\<lparr>pb_readonly := r\<rparr>" if "j < sc_ndims s" for j
  proof -
    have "arrays ! j = (arrays ! j)\<lparr>pb_readonly := pb_readonly (arrays ! j)\<rparr>" by simp
    then show ?thesis using assms(2) [OF that] by blast
  qed
  then show ?thesis using assms(1) by (simp add: coded_arrays_def)
qed

text \<open>
  Statistics that \<open>pc_stats_clone\<close> can copy: points of the schema, which may be windows of a stored patch;
  the copies own their bytes.
\<close>

definition stats_ok :: "PCSCHEMA \<Rightarrow> PCSTATS option \<Rightarrow> bool" where
  "stats_ok s st = (case st of None \<Rightarrow> True | Some x \<Rightarrow>
     \<forall>pt \<in> {st_min x, st_max x, st_avg x}. pt_schema pt = s \<and> length (pt_data pt) = sc_size s)"

definition own_stats :: "PCSTATS \<Rightarrow> PCSTATS" where
  "own_stats st = \<lparr>st_min = (st_min st)\<lparr>pt_readonly := PC_FALSE\<rparr>, st_max = (st_max st)\<lparr>pt_readonly := PC_FALSE\<rparr>,
     st_avg = (st_avg st)\<lparr>pt_readonly := PC_FALSE\<rparr>\<rparr>"

abbreviation own :: "PCSTATS option \<Rightarrow> PCSTATS option" where
  "own \<equiv> map_option own_stats"

lemma own_own [simp]: "own_stats (own_stats st) = own_stats st" "own (own x) = own x"
  by (simp add: own_stats_def) (cases x; simp add: own_stats_def)

lemma own_fields [simp]:
  "pt_schema (st_min (own_stats st)) = pt_schema (st_min st)" "pt_data (st_min (own_stats st)) = pt_data (st_min st)"
  "pt_schema (st_max (own_stats st)) = pt_schema (st_max st)" "pt_data (st_max (own_stats st)) = pt_data (st_max st)"
  "pt_schema (st_avg (own_stats st)) = pt_schema (st_avg st)" "pt_data (st_avg (own_stats st)) = pt_data (st_avg st)"
  by (simp_all add: own_stats_def)

lemma own_ok [simp]: "stats_ok s (own st) = stats_ok s st"
  by (simp add: stats_ok_def split: option.split)

definition dim_holds :: "zlib \<Rightarrow> PCPATCH_DIMENSIONAL \<Rightarrow> byte list list \<Rightarrow> bool" where
  "dim_holds z d ws = (points_ok (pa_schema d) ws \<and> pa_npoints d = length ws \<and> stats_ok (pa_schema d) (pa_stats d) \<and>
     coded_arrays z (pa_schema d) ws (pd_bytes d))"

lemma clone_stat_ok:
  "pt_schema pt = s \<Longrightarrow> length (pt_data pt) = sc_size s \<Longrightarrow> clone_stat pt = Inr (pt\<lparr>pt_readonly := PC_FALSE\<rparr>)"
  by (cases pt) (auto simp: clone_stat_def rd_def)

lemma clone_ok: "stats_ok s st \<Longrightarrow> pc_stats_clone st = Inr (own st)"
proof (cases st)
  case (Some x)
  assume "stats_ok s st"
  then have "clone_stat pt = Inr (pt\<lparr>pt_readonly := PC_FALSE\<rparr>)" if "pt \<in> {st_min x, st_max x, st_avg x}" for pt
    using that Some clone_stat_ok [of pt s] by (auto simp: stats_ok_def)
  then show ?thesis using Some by (cases x) (simp add: pc_stats_clone_def own_stats_def)
qed (simp add: pc_stats_clone_def)

lemma plain_coded: "points_ok s ws \<Longrightarrow> coded_arrays z s ws (plain_arrays s ws)"
  unfolding plain_arrays_def
  using clone_plain [OF col_array_plain(1)]
  by (intro codedI) (auto simp: codec_fits_def pc_bytes_encode_def col_array_def intro!: exI [of _ "0 :: nat"])

lemma decode_coded:
  assumes "points_ok s ws" "coded_arrays z s ws arrays" "j < sc_ndims s"
  shows "pc_bytes_decode z (arrays ! j) = Inr (col_array s ws j)"
proof -
  obtain c e r where c: "codec_fits z c (col_array s ws j)" "pc_bytes_encode z (col_array s ws j) c = Inr e"
    "arrays ! j = e\<lparr>pb_readonly := r\<rparr>" by (rule codedE [OF assms(2,3)])
  have "(col_array s ws j)\<lparr>pb_readonly := PC_FALSE\<rparr> = col_array s ws j" by (simp add: col_array_def)
  then show ?thesis using encode_decode [OF col_array_plain(1) [OF assms(1,3)] c(1)] c(2,3) by simp
qed

text \<open>Arrays that decode to the values of the points, which is what reading them relies on.\<close>

definition dim_decodes :: "zlib \<Rightarrow> PCPATCH_DIMENSIONAL \<Rightarrow> byte list list \<Rightarrow> bool" where
  "dim_decodes z d ws = (points_ok (pa_schema d) ws \<and> pa_npoints d = length ws \<and> stats_ok (pa_schema d) (pa_stats d) \<and>
     length (pd_bytes d) = sc_ndims (pa_schema d) \<and>
     (\<forall>j < sc_ndims (pa_schema d). pc_bytes_decode z (pd_bytes d ! j) = Inr (col_array (pa_schema d) ws j)))"

lemma holds_decodes: "dim_holds z d ws \<Longrightarrow> dim_decodes z d ws"
  using decode_coded by (simp add: dim_holds_def dim_decodes_def coded_arrays_def)

lemma decompress_decoded:
  assumes "dim_decodes z d ws"
  shows "pc_patch_dimensional_decompress z d = Inr (d\<lparr>pa_stats := own (pa_stats d), pd_bytes := plain_arrays (pa_schema d) ws\<rparr>)"
proof -
  let ?s = "pa_schema d"
  have h: "stats_ok ?s (pa_stats d)" using assms by (simp add: dim_decodes_def)
  have "mapE (\<lambda>i. bindE (rdx (pd_bytes d) i) (pc_bytes_decode z)) [0..<sc_ndims ?s] =
      Inr (map (col_array ?s ws) [0..<sc_ndims ?s])"
    by (rule mapE_Inr) (use assms in \<open>simp add: rdx_def dim_decodes_def\<close>)
  then show ?thesis using clone_ok [OF h]
    by (cases d) (simp add: pc_patch_dimensional_decompress_def plain_arrays_def)
qed

lemmas decompress_eq = decompress_decoded [OF holds_decodes]

lemma put_points_eq:
  assumes "points_ok s ws"
  shows "foldE (put_point s (plain_arrays s ws)) [0..<length ws] (pcalloc (length ws * sc_size s)) = Inr (concat ws)"
proof (rule fill_buffer)
  show "put_point s (plain_arrays s ws) k buf = wr buf (k * sc_size s) (ws ! k)"
    if "k < length ws" "length buf = length ws * sc_size s" for k buf
    by (rule put_point_eq [OF assms that(1)])
      (use elem_bound [OF that(1), of "sc_size s"] that(2) in \<open>simp_all add: plain_arrays_def col_array_def\<close>)
qed (use assms in \<open>simp add: points_ok_def widths_def\<close>)

lemma points_size: "points_ok s ws \<Longrightarrow> sc_size s * length ws mod 2 ^ 64 = length ws * sc_size s"
  by (rule datasize_fits) (simp_all add: points_ok_def)

definition as_uncompressed :: "'a PCPATCH_scheme \<Rightarrow> byte list list \<Rightarrow> PCPATCH_UNCOMPRESSED" where
  "as_uncompressed d ws = \<lparr>pa_type = PC_NONE, pa_readonly = PC_FALSE, pa_schema = pa_schema d, pa_npoints = length ws,
     pa_bounds = pa_bounds d, pa_stats = own (pa_stats d), pu_maxpoints = length ws,
     pu_datasize = length ws * sc_size (pa_schema d), pu_data = concat ws\<rparr>"

lemma uncompressed_from_decoded:
  assumes "dim_decodes z d ws"
  shows "pc_patch_uncompressed_from_dimensional z d = Inr (as_uncompressed d ws)"
    "patch_ok (as_uncompressed d ws)" "pts (as_uncompressed d ws) = ws"
proof -
  let ?s = "pa_schema d"
  have h: "points_ok ?s ws" "pa_npoints d = length ws" "stats_ok ?s (pa_stats d)"
    using assms by (simp_all add: dim_decodes_def)
  show "pc_patch_uncompressed_from_dimensional z d = Inr (as_uncompressed d ws)"
    unfolding pc_patch_uncompressed_from_dimensional_def Let_def h(2) decompress_decoded [OF assms] clone_ok [OF h(3)]
      bindE_Inr points_size [OF h(1)]
    using put_points_eq [OF h(1)] by (simp add: as_uncompressed_def)
  have w: "schema_ready ?s" "widths ?s ws" "length ws < 2 ^ 32" using h(1) by (simp_all add: points_ok_def)
  show "patch_ok (as_uncompressed d ws)" "pts (as_uncompressed d ws) = ws"
    using patch_of_ok [OF w] by (simp_all add: patch_ok_def pts_def patch_of_def as_uncompressed_def)
qed

lemmas uncompressed_from_dimensional_eq = uncompressed_from_decoded [OF holds_decodes]

lemma from_uncompressed_eq:
  assumes p: "patch_ok p" "pa_npoints p < 2 ^ 26" "pa_npoints p \<noteq> 0" and st: "stats_ok (pa_schema p) (pa_stats p)"
  shows "\<exists>d. pc_patch_dimensional_from_uncompressed p = Inr (Some d) \<and> dim_holds z d (pts p) \<and>
    pa_schema d = pa_schema p \<and> pa_bounds d = pa_bounds p \<and> pa_stats d = own (pa_stats p) \<and>
    pd_bytes d = plain_arrays (pa_schema p) (pts p)"
proof -
  let ?s = "pa_schema p"
  have ok: "points_ok ?s (pts p)" using p pts_width by (auto simp: points_ok_def widths_def patch_ok_def)
  have "mapE (take_dimension p) [0..<sc_ndims ?s] = Inr (map (col_array ?s (pts p)) [0..<sc_ndims ?s])"
    by (rule mapE_Inr) (use take_dimension_eq [OF p(1,2)] in simp)
  then show ?thesis using clone_ok [OF st] p(3) plain_coded [OF ok] ok st
    by (simp add: pc_patch_dimensional_from_uncompressed_def plain_arrays_def dim_holds_def)
qed


section \<open>Compression\<close>

lemma count_words:
  assumes p: "plain pcb" "0 < pb_npoints pcb" and W: "8 dvd LENGTH('a::len)" and sz: "isize (pb_interpretation pcb) = word_size TYPE('a)"
  shows "\<exists>r. sigbits_count (words_of (pb_bytes pcb) :: 'a word list) (pb_npoints pcb) = Inr r"
proof -
  let ?xs = "words_of (pb_bytes pcb) :: 'a word list"
  have l: "length ?xs = pb_npoints pcb" by (rule bytes_of_words_of_plain(1) [OF p(1) W sz refl])
  then have "?xs \<noteq> []" using p(2) by auto
  from sigbits_count_spec [OF this] l show ?thesis by metis
qed

lemma sigbits_count_total:
  assumes p: "plain pcb" "0 < pb_npoints pcb"
  shows "\<exists>k. pc_bytes_sigbits_count pcb = Inr k"
proof -
  have "known_interp (pb_interpretation pcb)" using p(1) by (simp add: plain_def)
  then show ?thesis
  proof (cases rule: isize_cases)
    case 1
    with count_words [where 'a = 8, OF p] plain_size [OF p(1)] show ?thesis
      by (auto simp: pc_bytes_sigbits_count_def pc_bytes_sigbits_count_8_def word_size_def)
  next
    case 2
    with count_words [where 'a = 16, OF p] plain_size [OF p(1)] show ?thesis
      by (auto simp: pc_bytes_sigbits_count_def pc_bytes_sigbits_count_16_def word_size_def)
  next
    case 3
    with count_words [where 'a = 32, OF p] plain_size [OF p(1)] show ?thesis
      by (auto simp: pc_bytes_sigbits_count_def pc_bytes_sigbits_count_32_def word_size_def)
  next
    case 4
    with count_words [where 'a = 64, OF p] plain_size [OF p(1)] show ?thesis
      by (auto simp: pc_bytes_sigbits_count_def pc_bytes_sigbits_count_64_def word_size_def)
  qed
qed

lemma recommend_range: "recommend points patches d st \<in> {PC_DIM_RLE, PC_DIM_SIGBITS, PC_DIM_ZLIB}"
  by (simp add: recommend_def Let_def)

text \<open>Statistics for the schema \<open>s\<close>; once they are updated, every recommendation is a compression.\<close>

definition dimstats_for :: "PCSCHEMA \<Rightarrow> PCDIMSTATS \<Rightarrow> bool" where
  "dimstats_for s pds = (dts_ndims pds = sc_ndims s \<and> length (dts_stats pds) = sc_ndims s \<and> dts_total_patches pds < 2 ^ 32 - 1)"

definition recommends :: "PCSCHEMA \<Rightarrow> PCDIMSTATS \<Rightarrow> bool" where
  "recommends s pds = (\<forall>i < sc_ndims s. dst_recommended_compression (dts_stats pds ! i) \<in> {0, 1, 2, 3})"

lemma counts_ok:
  assumes a: "\<And>i. i < n \<Longrightarrow> \<exists>r. pc_bytes_run_count (arrays ! i) = Inr r" "\<And>i. i < n \<Longrightarrow> \<exists>r. pc_bytes_sigbits_count (arrays ! i) = Inr r"
    and l: "length arrays = n" "length stats = n" "pd_bytes d = arrays"
  shows "\<exists>stats'. foldE (dimstats_count d) [0..<n] stats = Inr stats' \<and> length stats' = n"
proof -
  have "\<exists>stats'. foldE (dimstats_count d) [0..<k] stats = Inr stats' \<and> length stats' = n" if "k \<le> n" for k
    using that
  proof (induction k)
    case (Suc k)
    then obtain st where f: "foldE (dimstats_count d) [0..<k] stats = Inr st" and st: "length st = n" by auto
    have k: "k < n" using Suc.prems by simp
    obtain r b where "pc_bytes_run_count (arrays ! k) = Inr r" "pc_bytes_sigbits_count (arrays ! k) = Inr b"
      using a [OF k] by blast
    then show ?case using f st k l by (simp only: foldE_upt_Suc) (simp add: dimstats_count_def rdx_def wrx_def)
  qed (use l in simp)
  then show ?thesis by simp
qed

lemma recommend_steps:
  assumes s: "schema_ready s" and l: "length stats = sc_ndims s" and p: "patches \<noteq> 0"
  shows "\<exists>stats'. foldE (dimstats_recommend s points patches) [0..<sc_ndims s] stats = Inr stats' \<and>
    length stats' = sc_ndims s \<and> (\<forall>i < sc_ndims s. stats' ! i = (stats ! i)
      \<lparr>dst_recommended_compression := recommend points patches (sdim s i) (stats ! i)\<rparr>)"
proof -
  let ?r = "\<lambda>i. (stats ! i)\<lparr>dst_recommended_compression := recommend points patches (sdim s i) (stats ! i)\<rparr>"
  have "foldE (dimstats_recommend s points patches) [0..<k] stats = Inr (map ?r [0..<k] @ drop k stats)"
    if "k \<le> sc_ndims s" for k
    using that
  proof (induction k)
    case (Suc k)
    have k: "k < sc_ndims s" using Suc.prems by simp
    have "(map ?r [0..<k] @ drop k stats)[k := ?r k] = map ?r [0..<Suc k] @ drop (Suc k) stats"
      using k l by (simp add: list_update_append flip: Cons_nth_drop_Suc)
    then have "dimstats_recommend s points patches k (map ?r [0..<k] @ drop k stats) =
        Inr (map ?r [0..<Suc k] @ drop (Suc k) stats)"
      using ready_dims(1) [OF s k] k l p by (simp add: dimstats_recommend_def rdx_def wrx_def nth_append)
    then show ?case using Suc by (simp only: foldE_upt_Suc) simp
  qed simp
  from this [of "sc_ndims s"] show ?thesis using l by simp
qed

lemma update_ok:
  assumes h: "points_ok (pa_schema d) ws" "ws \<noteq> []" "pd_bytes d = plain_arrays (pa_schema d) ws"
    and pds: "dimstats_for (pa_schema d) pds"
  shows "\<exists>pds'. pc_dimstats_update pds d = Inr pds' \<and> recommends (pa_schema d) pds' \<and> length (dts_stats pds') = sc_ndims (pa_schema d) \<and>
    dts_ndims pds' = dts_ndims pds \<and> dts_total_patches pds' = dts_total_patches pds + 1 \<and>
    dts_total_points pds' = (dts_total_points pds + pa_npoints d) mod 2 ^ 32"
proof -
  let ?s = "pa_schema d"
  have s: "schema_ready ?s" using h(1) by (simp add: points_ok_def)
  have n: "pb_npoints (col_array ?s ws i) = length ws" for i by (simp add: col_array_def)
  have p: "(dts_total_patches pds + 1) mod 2 ^ 32 = dts_total_patches pds + 1" using pds by (simp add: dimstats_for_def)
  have "\<exists>st. foldE (dimstats_count d) [0..<sc_ndims ?s] (dts_stats pds) = Inr st \<and> length st = sc_ndims ?s"
    by (rule counts_ok [OF _ _ _ _ h(3)])
      (use run_count_eq [OF col_array_plain(1) [OF h(1)]] sigbits_count_total [OF col_array_plain(1) [OF h(1)]] h(2) pds
        in \<open>simp_all add: n plain_arrays_def dimstats_for_def\<close>)
  then obtain st where st: "foldE (dimstats_count d) [0..<sc_ndims ?s] (dts_stats pds) = Inr st" "length st = sc_ndims ?s" by blast
  let ?P = "(dts_total_points pds + pa_npoints d) mod 2 ^ 32" and ?K = "dts_total_patches pds + 1"
  have "?K \<noteq> 0" by simp
  from recommend_steps [OF s st(2) this, of ?P] obtain st' where
    st': "foldE (dimstats_recommend ?s ?P ?K) [0..<sc_ndims ?s] st = Inr st'" "length st' = sc_ndims ?s"
    "\<forall>i < sc_ndims ?s. st' ! i = (st ! i)\<lparr>dst_recommended_compression := recommend ?P ?K (sdim ?s i) (st ! i)\<rparr>"
    by blast
  have r: "dst_recommended_compression (st' ! i) \<in> {0, 1, 2, 3}" if "i < sc_ndims ?s" for i
    using recommend_range [of ?P ?K "sdim ?s i" "st ! i"] st'(3) that by auto
  have nd: "dts_ndims pds = sc_ndims ?s" using pds by (simp add: dimstats_for_def)
  have "recommends ?s (pds\<lparr>dts_total_points := ?P, dts_total_patches := ?K, dts_stats := st'\<rparr>)"
    using r by (simp add: recommends_def)
  then show ?thesis using st'(2)
    unfolding pc_dimstats_update_def Let_def nd p st(1) st'(1) bindE_Inr by (simp add: nd)
qed

lemma encode_total:
  assumes "plain pcb" "codec_fits z c pcb"
  shows "\<exists>e. pc_bytes_encode z pcb c = Inr e"
  using encode_decode [OF assms] by (cases "pc_bytes_encode z pcb c") auto

lemma all_codecs_fit:
  assumes "points_ok s ws" "ws \<noteq> []" "j < sc_ndims s" "zlib_fits z (col_array s ws j)" "c \<in> {0, 1, 2, 3}"
  shows "codec_fits z c (col_array s ws j)"
proof -
  have s: "schema_ready s" using assms(1) by (simp add: points_ok_def)
  have "length ws * (8 * dim_size (sdim s j)) \<le> length ws * 64" using dim_size_8 [OF s assms(3)] by (intro mult_le_mono) simp_all
  also have "\<dots> < 2 ^ 32" using assms(1) by (simp add: points_ok_def)
  finally show ?thesis using assms(2,4,5) ready_layout(1) [OF s assms(3)]
    by (auto simp: codec_fits_def sigbits_fits_def) (simp_all add: col_array_def)
qed

text \<open>Encoding every array of a plain patch as recommended.\<close>

lemma encode_all:
  assumes d: "dim_holds z d ws" "pd_bytes d = plain_arrays (pa_schema d) ws" "ws \<noteq> []"
    and z: "\<forall>j < sc_ndims (pa_schema d). zlib_fits z (col_array (pa_schema d) ws j)"
    and p: "recommends (pa_schema d) p" "length (dts_stats p) = sc_ndims (pa_schema d)"
  shows "\<exists>es. mapE (\<lambda>i. bindE (rdx (pd_bytes d) i) (\<lambda>b. bindE (rdx (dts_stats p) i) (\<lambda>st.
      pc_bytes_encode z b (dst_recommended_compression st)))) [0..<sc_ndims (pa_schema d)] = Inr es \<and> coded_arrays z (pa_schema d) ws es \<and>
    (\<forall>j < sc_ndims (pa_schema d). pc_bytes_encode z (col_array (pa_schema d) ws j) (dst_recommended_compression (dts_stats p ! j)) = Inr (es ! j))"
proof -
  let ?s = "pa_schema d" and ?c = "\<lambda>j. dst_recommended_compression (dts_stats p ! j)"
  have h: "points_ok ?s ws" using d(1) by (simp add: dim_holds_def)
  have fits: "codec_fits z (?c j) (col_array ?s ws j)" if "j < sc_ndims ?s" for j
    using all_codecs_fit [OF h d(3) that] z p(1) that by (simp add: recommends_def)
  define e where "e j = (SOME e. pc_bytes_encode z (col_array ?s ws j) (?c j) = Inr e)" for j
  have e: "pc_bytes_encode z (col_array ?s ws j) (?c j) = Inr (e j)" if "j < sc_ndims ?s" for j
    unfolding e_def by (rule someI_ex [OF encode_total [OF col_array_plain(1) [OF h that] fits [OF that]]])
  have "mapE (\<lambda>i. bindE (rdx (pd_bytes d) i) (\<lambda>b. bindE (rdx (dts_stats p) i) (\<lambda>st.
      pc_bytes_encode z b (dst_recommended_compression st)))) [0..<sc_ndims ?s] = Inr (map e [0..<sc_ndims ?s])"
    by (rule mapE_Inr) (use e p(2) in \<open>simp add: d(2) plain_arrays_def rdx_def\<close>)
  moreover have "coded_arrays z ?s ws (map e [0..<sc_ndims ?s])"
    by (rule codedI) (use fits e in auto)
  ultimately show ?thesis using e by (intro exI [of _ "map e [0..<sc_ndims ?s]"]) simp
qed

lemma compress_ok:
  assumes d: "dim_holds z d ws" "pd_bytes d = plain_arrays (pa_schema d) ws" "ws \<noteq> []"
    and z: "\<forall>j < sc_ndims (pa_schema d). zlib_fits z (col_array (pa_schema d) ws j)"
    and pds: "\<And>p. pds_in = Some p \<Longrightarrow> dimstats_for (pa_schema d) p \<and>
      (PCDIMSTATS_MIN_SAMPLE \<le> dts_total_points p \<longrightarrow> recommends (pa_schema d) p)"
  shows "\<exists>c pds'. pc_patch_dimensional_compress z d pds_in = Inr (c, pds') \<and> dim_holds z c ws \<and> pa_schema c = pa_schema d \<and>
    pa_bounds c = pa_bounds d \<and> pa_stats c = own (pa_stats d)"
proof -
  let ?s = "pa_schema d"
  have h: "points_ok ?s ws" "stats_ok ?s (pa_stats d)" using d(1) by (simp_all add: dim_holds_def)
  define pds0 where "pds0 = (case pds_in of None \<Rightarrow> pc_dimstats_make ?s | Some pds \<Rightarrow> pds)"
  have p0: "dimstats_for ?s pds0" "PCDIMSTATS_MIN_SAMPLE \<le> dts_total_points pds0 \<longrightarrow> recommends ?s pds0"
    using pds by (auto simp: pds0_def dimstats_for_def pc_dimstats_make_def split: option.split)
  obtain p1 where p1: "(if dts_total_points pds0 < PCDIMSTATS_MIN_SAMPLE then pc_dimstats_update pds0 d else Inr pds0) = Inr p1"
    "recommends ?s p1" "length (dts_stats p1) = sc_ndims ?s"
    using update_ok [OF h(1) d(3,2) p0(1)] p0 by (cases "dts_total_points pds0 < PCDIMSTATS_MIN_SAMPLE") (auto simp: dimstats_for_def)
  from encode_all [OF d z p1(2,3)] show ?thesis using d(1) p1(1) clone_ok [OF h(2)]
    by (auto simp: pc_patch_dimensional_compress_def pds0_def [symmetric] Let_def dim_holds_def)
qed

section \<open>Single points\<close>

text \<open>
  Random access into significant-bits arrays needs bit offsets that fit the words of the array (see
  \<open>sigbits_random_access_wraps\<close>).
\<close>

definition access_ok :: "PCPATCH_DIMENSIONAL \<Rightarrow> nat \<Rightarrow> bool" where
  "access_ok d n = (\<forall>j < sc_ndims (pa_schema d). pb_compression (pd_bytes d ! j) = PC_DIM_SIGBITS \<longrightarrow>
     n * (8 * dim_size (sdim (pa_schema d) j)) \<le> 2 ^ (8 * dim_size (sdim (pa_schema d) j)))"

lemma coded_to_ptr:
  assumes h: "points_ok s ws" "coded_arrays z s ws (pd_bytes d)" "pa_schema d = s" "access_ok d (length ws)"
    and j: "j < sc_ndims s" and i: "i < length ws"
  shows "pc_bytes_to_ptr z (pd_bytes d ! j) (int i) = Inr (fld s (ws ! i) j)"
proof -
  have s: "schema_ready s" using h(1) by (simp add: points_ok_def)
  note p = col_array_plain [OF h(1) j]
  obtain c e r where c: "codec_fits z c (col_array s ws j)" "pc_bytes_encode z (col_array s ws j) c = Inr e"
    and b: "pd_bytes d ! j = e\<lparr>pb_readonly := r\<rparr>" by (rule codedE [OF h(2) j])
  have f: "pb_npoints (col_array s ws j) = length ws" "isize (pb_interpretation (col_array s ws j)) = dim_size (sdim s j)"
    using ready_layout(1) [OF s j] by (simp_all add: col_array_def)
  have "c = PC_DIM_SIGBITS \<longrightarrow> length ws * (8 * dim_size (sdim s j)) \<le> 2 ^ (8 * dim_size (sdim s j))"
    using encode_fields(3) [OF p(1) c] h(3,4) j b by (auto simp: access_ok_def)
  then show ?thesis using b to_ptr_ok [OF p(1) c, of i] i f p(2) by (simp add: col_def)
qed

lemma pointn_eq:
  assumes h: "dim_holds z d ws" "access_ok d (length ws)" "0 < sc_size (pa_schema d)" and i: "i < length ws"
  shows "pc_patch_dimensional_pointn z d (int i) =
    Inr \<lparr>pt_readonly = PC_FALSE, pt_schema = pa_schema d, pt_data = ws ! i\<rparr>"
proof -
  let ?s = "pa_schema d" and ?w = "ws ! i"
  have ok: "points_ok ?s ws" "coded_arrays z ?s ws (pd_bytes d)" using h(1) by (simp_all add: dim_holds_def)
  have s: "schema_ready ?s" and lw: "length ?w = sc_size ?s" using ok(1) i by (auto simp: points_ok_def widths_def)
  let ?f = "\<lambda>j buf. case pc_schema_get_dimension ?s j of None \<Rightarrow> Inl OutOfBounds
     | Some dim \<Rightarrow> bindE (rdx (pd_bytes d) j) (\<lambda>b. bindE (pc_bytes_to_ptr z b (int i)) (\<lambda>v. wr buf (dim_byteoffset dim) v))"
  have "?f j buf = wr buf (0 + dim_byteoffset (sdim ?s j)) (flds ?s ?w ! j)" if "j < sc_ndims ?s" for j buf
    using ready_dims(1) [OF s that] coded_to_ptr [OF ok refl h(2) that i] that ok(2)
    by (simp add: rdx_def coded_arrays_def flds_def)
  then have "foldE ?f [0..<sc_ndims ?s] (pcalloc (sc_size ?s)) = wr (pcalloc (sc_size ?s)) 0 (concat (flds ?s ?w))"
    by (intro write_fields [OF s]) (use length_fld [OF s _ lw] in \<open>simp_all add: flds_def\<close>)
  then show ?thesis using h(3) lw concat_flds [OF s lw]
    by (simp add: pc_patch_dimensional_pointn_def pc_point_make_def Let_def wr_def)
qed

lemma pointlist_from_dimensional_eq:
  assumes "dim_holds z d ws"
  shows "pc_pointlist_from_dimensional z d = pc_pointlist_from_uncompressed (as_uncompressed d ws)"
proof -
  let ?s = "pa_schema d"
  have h: "points_ok ?s ws" "pa_npoints d = length ws" using assms by (simp_all add: dim_holds_def)
  have u: "pd_bytes (d\<lparr>pa_stats := own (pa_stats d), pd_bytes := plain_arrays ?s ws\<rparr>) = plain_arrays ?s ws" by simp
  show ?thesis
    unfolding pc_pointlist_from_dimensional_def Let_def h(2) decompress_eq [OF assms] bindE_Inr u
      points_size [OF h(1), unfolded mult.commute [of "sc_size ?s"]] put_points_eq [OF h(1)]
    by (simp add: pc_pointlist_from_uncompressed_def as_uncompressed_def Let_def)
qed

section \<open>Extent\<close>

definition col_extremes :: "PCSCHEMA \<Rightarrow> byte list list \<Rightarrow> nat \<Rightarrow> double \<times> double" where
  "col_extremes s ws j = fold (\<lambda>v. ext_add (dval (dim_interpretation (sdim s j)) v)) (col s ws j) (FLT_MAX, minus_FLT_MAX)"

lemma ready_position: "schema_ready s \<Longrightarrow> j < sc_ndims s \<Longrightarrow> dim_position (sdim s j) = j"
  by (auto simp: schema_ready_def schema_wf_def sdim_def)

lemma dim_extremes_eq:
  assumes h: "dim_holds z d ws" and j: "j < sc_ndims (pa_schema d)"
  shows "dim_extremes z d (sdim (pa_schema d) j) = (case col_extremes (pa_schema d) ws j of (mn, mx) \<Rightarrow>
    Inr (pc_value_scale_offset mn (sdim (pa_schema d) j), pc_value_scale_offset mx (sdim (pa_schema d) j)))"
proof -
  let ?s = "pa_schema d"
  have ok: "points_ok ?s ws" "coded_arrays z ?s ws (pd_bytes d)" using h by (simp_all add: dim_holds_def)
  have q: "dim_position (sdim ?s j) = j" using ready_position [OF _ j] ok(1) by (simp add: points_ok_def)
  obtain c e ro where c: "codec_fits z c (col_array ?s ws j)" "pc_bytes_encode z (col_array ?s ws j) c = Inr e"
    and b: "pd_bytes d ! j = e\<lparr>pb_readonly := ro\<rparr>" by (rule codedE [OF ok(2) j])
  from extremes_eq [OF col_array_plain(1) [OF ok(1) j] c] obtain r where
    r: "pc_bytes_minmax z (pd_bytes d ! j) = Inr r" "extremes r = col_extremes ?s ws j"
    using col_array_plain(2) [OF ok(1) j] b by (auto simp: col_extremes_def) (simp add: col_array_def)
  then show ?thesis using j q ok(2)
    by (cases r) (auto simp: dim_extremes_def rdx_def coded_arrays_def extremes_def split: prod.splits)
qed


lemma dimensional_extent_eq:
  assumes h: "dim_holds z d ws" and xy: "has_xy (pa_schema d) ix iy"
    and e: "col_extremes (pa_schema d) ws ix = (x1, x2)" "col_extremes (pa_schema d) ws iy = (y1, y2)"
  shows "pc_patch_dimensional_compute_extent z d = Inr (d\<lparr>pa_bounds :=
    \<lparr>b_xmin = pc_value_scale_offset x1 (sdim (pa_schema d) ix), b_xmax = pc_value_scale_offset x2 (sdim (pa_schema d) ix),
     b_ymin = pc_value_scale_offset y1 (sdim (pa_schema d) iy), b_ymax = pc_value_scale_offset y2 (sdim (pa_schema d) iy)\<rparr>\<rparr>)"
proof -
  have s: "schema_ready (pa_schema d)" using h by (simp add: dim_holds_def points_ok_def)
  have i: "ix < sc_ndims (pa_schema d)" "iy < sc_ndims (pa_schema d)" using xy by (simp_all add: has_xy_def)
  show ?thesis
    using dim_extremes_eq [OF h i(1)] dim_extremes_eq [OF h i(2)] ready_dims(2) [OF s i(1)] ready_dims(2) [OF s i(2)] xy
    by (simp add: pc_patch_dimensional_compute_extent_def has_xy_def e)
qed

section \<open>Binary form\<close>

text \<open>Arrays that the binary form can hold: of the interpretation of their dimension, with \<open>n\<close> points.\<close>

definition storable :: "PCSCHEMA \<Rightarrow> nat \<Rightarrow> PCBYTES list \<Rightarrow> bool" where
  "storable s n arrays = (length arrays = sc_ndims s \<and> (\<forall>j < sc_ndims s. serial_ok (arrays ! j) \<and>
     pb_npoints (arrays ! j) = n \<and> pb_interpretation (arrays ! j) = dim_interpretation (sdim s j)))"

text \<open>The arrays as a reader gets them: windows of the bytes it reads, or copies.\<close>

definition marked :: "bool \<Rightarrow> PCBYTES list \<Rightarrow> PCBYTES list" where
  "marked ro = map (\<lambda>b. b\<lparr>pb_readonly := (if ro then PC_TRUE else PC_FALSE)\<rparr>)"

lemma length_marked [simp]: "length (marked ro arrays) = length arrays"
  by (simp add: marked_def)

lemma marked_nth: "j < length arrays \<Longrightarrow> marked ro arrays ! j = (arrays ! j)\<lparr>pb_readonly := (if ro then PC_TRUE else PC_FALSE)\<rparr>"
  by (simp add: marked_def)

lemma marked_coded:
  assumes "coded_arrays z s ws arrays"
  shows "coded_arrays z s ws (marked ro arrays)"
  unfolding coded_arrays_def
proof (intro conjI allI impI)
  show "length (marked ro arrays) = sc_ndims s" using assms by (simp add: coded_arrays_def)
  fix j assume j: "j < sc_ndims s"
  obtain c e r where c: "codec_fits z c (col_array s ws j)" "pc_bytes_encode z (col_array s ws j) c = Inr e"
    "arrays ! j = e\<lparr>pb_readonly := r\<rparr>" by (rule codedE [OF assms j])
  have "marked ro arrays ! j = e\<lparr>pb_readonly := (if ro then PC_TRUE else PC_FALSE)\<rparr>"
    using marked_nth [of j arrays ro] c(3) j assms by (simp add: coded_arrays_def)
  then show "\<exists>c e r. codec_fits z c (col_array s ws j) \<and> pc_bytes_encode z (col_array s ws j) c = Inr e \<and>
      marked ro arrays ! j = e\<lparr>pb_readonly := r\<rparr>" using c by blast
qed

lemma serialized_size_eq:
  assumes "storable s n arrays" "pd_bytes d = arrays" "pa_schema d = s"
  shows "pc_patch_dimensional_serialized_size d = Inr (length (concat (map serial arrays)))"
proof -
  have l: "length arrays = sc_ndims s" using assms(1) by (simp add: storable_def)
  have "foldE (\<lambda>i n. bindE (rdx arrays i) (\<lambda>b. Inr (n + pc_bytes_serialized_size b))) [0..<k] 0 =
      Inr (length (concat (map serial (take k arrays))))" if "k \<le> sc_ndims s" for k
    using that
  proof (induction k)
    case (Suc k)
    have k: "k < sc_ndims s" using Suc.prems by simp
    then have "length (serial (arrays ! k)) = pc_bytes_serialized_size (arrays ! k)"
      using length_serial assms(1) by (simp add: storable_def)
    then show ?case using Suc k l by (simp only: foldE_upt_Suc) (simp add: rdx_def take_Suc_conv_app_nth)
  qed simp
  from this [of "sc_ndims s"] show ?thesis using l
    by (simp add: pc_patch_dimensional_serialized_size_def assms(2,3))
qed

lemma serialize_arrays:
  assumes a: "storable s n arrays" and d: "pd_bytes d = arrays" and h: "length hdr = base" and k: "k \<le> sc_ndims s"
  shows "foldE (\<lambda>i (wkb, off). bindE (rdx (pd_bytes d) i) (\<lambda>pcb. bindE (pc_bytes_serialize pcb wkb off) (\<lambda>(wkb, bsz).
      Inr (wkb, off + bsz)))) [0..<k] (hdr @ replicate (length (concat (map serial arrays))) 0 @ rest, base) =
    Inr (hdr @ concat (map serial (take k arrays)) @ replicate (length (concat (map serial (drop k arrays)))) 0 @ rest,
         base + length (concat (map serial (take k arrays))))"
  using k
proof (induction k)
  case (Suc k)
  have l: "length arrays = sc_ndims s" using a by (simp add: storable_def)
  have k: "k < sc_ndims s" using Suc.prems by simp
  let ?pre = "hdr @ concat (map serial (take k arrays))" and ?x = "arrays ! k"
  let ?z = "replicate (length (concat (map serial (drop (Suc k) arrays)))) (0 :: byte) @ rest"
  have ok: "serial_ok ?x" using a k by (simp add: storable_def)
  note n = length_serial [OF ok]
  have "drop k arrays = ?x # drop (Suc k) arrays" using k l by (simp add: Cons_nth_drop_Suc)
  then have z: "replicate (length (concat (map serial (drop k arrays)))) (0 :: byte) @ rest =
      replicate (pc_bytes_serialized_size ?x) 0 @ ?z"
    using n by (simp add: replicate_add [symmetric])
  have "pc_bytes_serialize ?x (?pre @ replicate (pc_bytes_serialized_size ?x) 0 @ ?z) (length ?pre) =
      Inr (?pre @ serial ?x @ ?z, pc_bytes_serialized_size ?x)"
    using serialize_eq [OF ok, of "length ?pre" "?pre @ replicate (pc_bytes_serialized_size ?x) 0 @ ?z"] by simp
  moreover have "length ?pre = base + length (concat (map serial (take k arrays)))" using h by simp
  ultimately have "pc_bytes_serialize ?x (hdr @ concat (map serial (take k arrays)) @
      replicate (pc_bytes_serialized_size ?x) 0 @ ?z) (base + length (concat (map serial (take k arrays)))) =
      Inr (?pre @ serial ?x @ ?z, pc_bytes_serialized_size ?x)" by simp
  then show ?case using Suc k l n d
    by (simp only: foldE_upt_Suc) (simp add: rdx_def take_Suc_conv_app_nth z)
qed simp

lemma dimensional_to_wkb_eq:
  assumes a: "storable (pa_schema d) n (pd_bytes d)"
  shows "pc_patch_dimensional_to_wkb d = Inr (1 # bytes_of_word (word_of_nat (sc_pcid (pa_schema d)) :: 32 word) @
    bytes_of_word (word_of_nat (pa_type d) :: 32 word) @ bytes_of_word (word_of_nat (pa_npoints d) :: 32 word) @
    concat (map serial (pd_bytes d)), 13 + length (concat (map serial (pd_bytes d))))"
proof -
  define x y w :: "byte list" where "x = bytes_of_word (word_of_nat (sc_pcid (pa_schema d)) :: 32 word)"
    and "y = bytes_of_word (word_of_nat (pa_type d) :: 32 word)" and "w = bytes_of_word (word_of_nat (pa_npoints d) :: 32 word)"
  have l: "length x = 4" "length y = 4" "length w = 4" by (simp_all add: x_def y_def w_def word_size_def)
  have h: "length (1 # x @ y @ w) = 13" using l by simp
  have n: "length (pd_bytes d) = sc_ndims (pa_schema d)" using a by (simp add: storable_def)
  show ?thesis
    unfolding pc_patch_dimensional_to_wkb_def serialized_size_eq [OF a refl refl] bindE_Inr Let_def
      x_def [symmetric] y_def [symmetric] w_def [symmetric] wkb_header_written [OF l]
      serialize_arrays [OF a refl h order_refl, where rest = "[]", unfolded append_Nil2]
    using n by simp
qed

lemma read_dimensions:
  assumes s: "schema_ready s" and a: "storable s n arrays" and h: "length hdr = base" and k: "k \<le> sc_ndims s"
  shows "foldE (read_dimension s n ro (hdr @ concat (map serial arrays) @ rest) False) [0..<k]
      (replicate (sc_ndims s) zero_bytes, base) =
    Inr (take k (marked ro arrays) @ replicate (sc_ndims s - k) zero_bytes, base + length (concat (map serial (take k arrays))))"
  using k
proof (induction k)
  case (Suc k)
  have l: "length arrays = sc_ndims s" "length (marked ro arrays) = sc_ndims s" using a by (simp_all add: storable_def marked_def)
  have k: "k < sc_ndims s" using Suc.prems by simp
  let ?x = "arrays ! k" and ?y = "marked ro arrays ! k" and ?off = "base + length (concat (map serial (take k arrays)))"
  have x: "serial_ok ?x" "pb_npoints ?x = n" "pb_interpretation ?x = dim_interpretation (sdim s k)"
    using a k by (simp_all add: storable_def)
  have "concat (map serial arrays) = concat (map serial (take k arrays)) @ serial ?x @ concat (map serial (drop (Suc k) arrays))"
    using id_take_nth_drop [of k arrays] k l by (metis concat.simps(2) concat_append list.simps(9) map_append)
  then have buf: "hdr @ concat (map serial arrays) @ rest =
      (hdr @ concat (map serial (take k arrays))) @ serial ?x @ concat (map serial (drop (Suc k) arrays)) @ rest" by simp
  have o: "?off = length (hdr @ concat (map serial (take k arrays)))" using h by simp
  have y: "?y = ?x\<lparr>pb_readonly := (if ro then PC_TRUE else PC_FALSE)\<rparr>" using k l by (simp add: marked_def)
  have "(zero_bytes\<lparr>pb_compression := pb_compression ?x, pb_size := pb_size ?x, pb_readonly := (if ro then PC_TRUE else PC_FALSE),
      pb_bytes := pb_bytes ?x, pb_interpretation := dim_interpretation (sdim s k)\<rparr>)\<lparr>pb_npoints := n\<rparr> = ?y"
    unfolding y using x by (cases ?x) (simp add: zero_bytes_def)
  then have "read_dimension s n ro (hdr @ concat (map serial arrays) @ rest) False k
      (take k (marked ro arrays) @ replicate (sc_ndims s - k) zero_bytes, ?off) =
      Inr ((take k (marked ro arrays) @ replicate (sc_ndims s - k) zero_bytes)[k := ?y], ?off + pc_bytes_serialized_size ?y)"
    using deserialize_eq [OF x(1) o buf, of "sdim s k" zero_bytes ro] ready_dims(2) [OF s k] k l
    by (simp add: read_dimension_def rdx_def wrx_def nth_append Let_def)
  moreover have "(take k (marked ro arrays) @ replicate (sc_ndims s - k) zero_bytes)[k := ?y] =
      take (Suc k) (marked ro arrays) @ replicate (sc_ndims s - Suc k) zero_bytes"
    using k l by (simp add: take_Suc_conv_app_nth list_update_append Suc_diff_Suc [symmetric])
  moreover have "pc_bytes_serialized_size ?y = pc_bytes_serialized_size ?x" by (simp add: y pc_bytes_serialized_size_def)
  ultimately show ?case using Suc k l length_serial [OF x(1)]
    by (simp only: foldE_upt_Suc) (simp add: take_Suc_conv_app_nth)
qed simp

lemma dimensional_from_wkb_eq:
  assumes s: "schema_ready s" and a: "storable s n arrays" and n: "n < 2 ^ 32" "length pc = 4"
  shows "pc_patch_dimensional_from_wkb s (1 # pc @ bytes_of_word (1 :: 32 word) @ bytes_of_word (word_of_nat n :: 32 word) @
      concat (map serial arrays)) len =
    Inr \<lparr>pa_type = PC_DIMENSIONAL, pa_readonly = PC_FALSE, pa_schema = s, pa_npoints = n, pa_bounds = zero_bounds,
         pa_stats = None, pd_bytes = marked False arrays\<rparr>"
proof -
  let ?t = "bytes_of_word (1 :: 32 word)" and ?np = "bytes_of_word (word_of_nat n :: 32 word)"
  have t: "?t = (if (1 :: byte) = 1 then ?t else rev ?t)" and np: "?np = (if (1 :: byte) = 1 then ?np else rev ?np)" by simp_all
  note f = patch_wkb_fields [OF n(2,1) t np]
  have h: "length (1 # pc @ ?t @ ?np) = 13" using n(2) by (simp add: word_size_def)
  have l: "length arrays = sc_ndims s" "length (marked False arrays) = sc_ndims s" using a by (simp_all add: storable_def marked_def)
  have r: "foldE (read_dimension s n False (1 # pc @ ?t @ ?np @ concat (map serial arrays)) False) [0..<sc_ndims s]
      (replicate (sc_ndims s) zero_bytes, 1 + 4 + 4 + 4) = Inr (marked False arrays, 13 + length (concat (map serial arrays)))"
    using read_dimensions [OF s a h order_refl, where rest = "[]" and ro = False] l by simp
  have m: "(hd [1] \<noteq> machine_endian) = False" by simp
  show ?thesis
    unfolding pc_patch_dimensional_from_wkb_def Let_def f(1,2,3,7) bindE_Inr m r by simp
qed


section \<open>Byte order\<close>

text \<open>
  \<open>pc_bytes_deserialize\<close> flips an array before its number of points is known: the flip of a run-length
  array asserts that it has points.
\<close>

lemma foreign_rle_fails:
  assumes s: "schema_ready s" "0 < sc_ndims s" and h: "e \<noteq> 1" "length pc = 4" "n < 2 ^ 32"
    and b: "body = 1 # rev (bytes_of_word (word_of_nat (length a) :: 32 word)) @ a @ rest" "length a < 2 ^ 31"
  shows "pc_patch_dimensional_from_wkb s (e # pc @ rev (bytes_of_word (1 :: 32 word)) @
      rev (bytes_of_word (word_of_nat n :: 32 word)) @ body) len = Inl AssertFailed"
proof -
  let ?t = "rev (bytes_of_word (1 :: 32 word))" and ?np = "rev (bytes_of_word (word_of_nat n :: 32 word))"
  let ?z = "rev (bytes_of_word (word_of_nat (length a) :: 32 word))"
  let ?w = "e # pc @ ?t @ ?np @ body"
  have t: "?t = (if e = 1 then bytes_of_word (1 :: 32 word) else rev (bytes_of_word (1 :: 32 word)))"
    and np: "?np = (if e = 1 then bytes_of_word (word_of_nat n :: 32 word) else rev (bytes_of_word (word_of_nat n :: 32 word)))"
    and z: "?z = (if e = 1 then bytes_of_word (word_of_nat (length a) :: 32 word) else rev (bytes_of_word (word_of_nat (length a) :: 32 word)))"
    using h(1) by simp_all
  note f = patch_wkb_fields [OF h(2,3) t np]
  have l: "length ?t = 4" "length ?np = 4" "length ?z = 4" by (simp_all add: word_size_def)
  have w: "?w = (e # pc @ ?t @ ?np) @ 1 # ?z @ a @ rest" by (simp add: b(1))
  have r1: "rd ?w 13 1 = Inr [1]" unfolding w using l h(2) by (simp add: rd_def)
  have "rd ((e # pc @ ?t @ ?np @ [1]) @ ?z @ a @ rest) 14 4 = Inr ?z" by (rule rd_mid) (use l h(2) in simp_all)
  then have r2: "wkb_get_int32 ?w (13 + 1) True = Inr (word_of_nat (length a))"
    using swapped_field [OF z] h(1) by (simp add: wkb_get_int32_def b(1))
  have "rd ((e # pc @ ?t @ ?np @ [1] @ ?z) @ a @ rest) 18 (length a) = Inr a" by (rule rd_mid) (use l h(2) in simp_all)
  then have r3: "rd ?w 18 (length a) = Inr a" by (simp add: b(1))
  have sz: "nat (sint (word_of_nat (length a) :: 32 word) mod 2 ^ 64) = length a" using b(2) by (simp add: sint_of_nat31)
  have u: "unat (hd [1 :: byte]) = 1" by simp
  have d: "pc_bytes_deserialize ?w 13 (sdim s 0) zero_bytes False True = Inl AssertFailed"
    unfolding pc_bytes_deserialize_def r1 bindE_Inr r2 Let_def sz u
    using r3 by (simp add: pc_bytes_flip_endian_def pc_bytes_run_length_flip_endian_def zero_bytes_def
        pc_interpretation_size_def)
  have "read_dimension s n False ?w True 0 (replicate (sc_ndims s) zero_bytes, 13) = Inl AssertFailed"
    using ready_dims(2) [OF s] s(2) d by (simp add: read_dimension_def rdx_def)
  moreover have "[0..<sc_ndims s] = 0 # [1..<sc_ndims s]" using s(2) by (simp add: upt_conv_Cons)
  ultimately have r: "foldE (read_dimension s n False ?w True) [0..<sc_ndims s] (replicate (sc_ndims s) zero_bytes, 1 + 4 + 4 + 4) =
      Inl AssertFailed" by simp
  have m: "(hd [e] \<noteq> machine_endian) = True" using h(1) by simp
  show ?thesis
    unfolding pc_patch_dimensional_from_wkb_def Let_def f(1,2,3,7) bindE_Inr m r by simp
qed

section \<open>Properties\<close>

lemma demo_full_patch:
  "stats_ok (pa_schema demo_patch) (pa_stats demo_patch)" "pa_npoints demo_patch < 2 ^ 26" "pa_npoints demo_patch \<noteq> 0"
  by (simp_all add: stats_ok_def demo_patch_def patch_of_def demo_pts_def)

lemma store_zlib_fits: "plain pcb \<Longrightarrow> 0 < pb_size pcb \<Longrightarrow> pb_size pcb < 2 ^ 30 \<Longrightarrow> zlib_fits store_zlib pcb"
  using store_zlib_works by (simp add: zlib_fits_def plain_def) (simp add: store_zlib_def)

text \<open>
  A patch turned into dimensions, compressed with whatever compressions the statistics recommend (its
  own, or those of the caller), and turned back, is a patch of exactly the same points in the same order,
  with the same box and statistics. This needs only that zlib can hold the arrays.
\<close>

theorem dimensional_roundtrip:
  assumes "patch_ok p" "pa_npoints p < 2 ^ 26" "pa_npoints p \<noteq> 0" "stats_ok (pa_schema p) (pa_stats p)"
    and "\<forall>j < sc_ndims (pa_schema p). zlib_fits z (col_array (pa_schema p) (pts p) j)"
    and "\<And>x. pds = Some x \<Longrightarrow> dimstats_for (pa_schema p) x \<and>
      (PCDIMSTATS_MIN_SAMPLE \<le> dts_total_points x \<longrightarrow> recommends (pa_schema p) x)"
  shows "\<exists>d c pds' q. pc_patch_dimensional_from_uncompressed p = Inr (Some d) \<and>
    pc_patch_dimensional_compress z d pds = Inr (c, pds') \<and> pc_patch_uncompressed_from_dimensional z c = Inr q \<and>
    patch_ok q \<and> pts q = pts p \<and> pa_schema q = pa_schema p \<and> pa_bounds q = pa_bounds p \<and> pa_stats q = own (pa_stats p)"
proof -
  obtain d where d: "pc_patch_dimensional_from_uncompressed p = Inr (Some d)" "dim_holds z d (pts p)" "pa_schema d = pa_schema p"
    "pa_bounds d = pa_bounds p" "pa_stats d = own (pa_stats p)" "pd_bytes d = plain_arrays (pa_schema p) (pts p)"
    using from_uncompressed_eq [OF assms(1-4)] by blast
  have ne: "pts p \<noteq> []" using assms(3) length_pts [of p] by fastforce
  obtain c pds' where c: "pc_patch_dimensional_compress z d pds = Inr (c, pds')" "dim_holds z c (pts p)"
    "pa_schema c = pa_schema d" "pa_bounds c = pa_bounds d" "pa_stats c = own (pa_stats d)"
    using compress_ok [OF d(2) _ ne, of pds] d(3,6) assms(5,6) by auto
  have "as_uncompressed c (pts p) = as_uncompressed d (pts p)" using c by (simp add: as_uncompressed_def)
  then show ?thesis using d c(1) uncompressed_from_dimensional_eq [OF c(2)] by (auto simp: as_uncompressed_def)
qed

theorem dimensional_roundtrip_witness:
  "\<exists>d c pds' q. pc_patch_dimensional_from_uncompressed demo_patch = Inr (Some d) \<and>
     pc_patch_dimensional_compress store_zlib d None = Inr (c, pds') \<and>
     pc_patch_uncompressed_from_dimensional store_zlib c = Inr q \<and> pts q = [[1, 2, 3, 4, 5], [6, 7, 8, 9, 10]]"
proof -
  have ok: "points_ok demo_xy demo_pts" using demo_patch_ok(3) demo_xy_ready by (simp add: points_ok_def demo_pts_def)
  have "zlib_fits store_zlib (col_array demo_xy demo_pts j)" if "j < 2" for j
    by (rule store_zlib_fits [OF col_array_plain(1) [OF ok]])
      (use that less_2 [of j] in \<open>auto simp: demo_xy_facts demo_sizes col_array_def demo_pts_def\<close>)
  then show ?thesis
    using dimensional_roundtrip [OF demo_patch_ok(1) demo_full_patch(2,3,1), of store_zlib None]
    by (auto simp: demo_patch_ok demo_xy_ready demo_pts_def)
qed

text \<open>
  Single points and point lists of a dimensional patch, compressed or not, are the points it holds:
  \<open>pointn\<close> assembles point \<open>i\<close> from all the arrays (if the bit offsets of significant-bits arrays fit
  their words), and the list of the points is the list of the uncompressed patch.
\<close>

theorem dimensional_points:
  assumes "dim_holds z d ws" "access_ok d (length ws)" "0 < sc_size (pa_schema d)" "i < length ws"
  shows "pc_patch_dimensional_pointn z d (int i) =
      Inr \<lparr>pt_readonly = PC_FALSE, pt_schema = pa_schema d, pt_data = ws ! i\<rparr> \<and>
    pc_pointlist_from_dimensional z d = pc_pointlist_from_uncompressed (as_uncompressed d ws) \<and>
    pts (as_uncompressed d ws) = ws"
  using pointn_eq [OF assms] pointlist_from_dimensional_eq [OF assms(1)] uncompressed_from_dimensional_eq(3) [OF assms(1)]
  by blast

theorem dimensional_points_witness:
  "\<exists>d. pc_patch_dimensional_from_uncompressed demo_patch = Inr (Some d) \<and>
     pc_patch_dimensional_pointn store_zlib d 1 =
       Inr \<lparr>pt_readonly = PC_FALSE, pt_schema = demo_xy, pt_data = [6, 7, 8, 9, 10]\<rparr>"
proof -
  obtain d where d: "pc_patch_dimensional_from_uncompressed demo_patch = Inr (Some d)" "dim_holds store_zlib d demo_pts"
    "pa_schema d = demo_xy" "pd_bytes d = plain_arrays demo_xy demo_pts"
    using from_uncompressed_eq [OF demo_patch_ok(1) demo_full_patch(2,3,1), of store_zlib] demo_patch_ok(2,4) by auto
  have "access_ok d (length demo_pts)" by (simp add: access_ok_def d(3,4) plain_arrays_def col_array_def)
  from dimensional_points [OF d(2) this, of 1] d(1,3) show ?thesis by (simp add: demo_xy_ready demo_pts_def)
qed

text \<open>
  The extent of a dimensional patch is read off the arrays of its X and Y dimensions, whatever their
  compression: it consists of the scaled least and greatest of their values.
\<close>

theorem dimensional_extent:
  assumes "dim_holds z d ws" "has_xy (pa_schema d) ix iy"
    and "col_extremes (pa_schema d) ws ix = (x1, x2)" "col_extremes (pa_schema d) ws iy = (y1, y2)"
  shows "pc_patch_dimensional_compute_extent z d = Inr (d\<lparr>pa_bounds :=
    \<lparr>b_xmin = pc_value_scale_offset x1 (sdim (pa_schema d) ix), b_xmax = pc_value_scale_offset x2 (sdim (pa_schema d) ix),
     b_ymin = pc_value_scale_offset y1 (sdim (pa_schema d) iy), b_ymax = pc_value_scale_offset y2 (sdim (pa_schema d) iy)\<rparr>\<rparr>)"
  by (rule dimensional_extent_eq [OF assms])

theorem dimensional_extent_witness:
  "\<exists>d b. pc_patch_dimensional_from_uncompressed demo_patch = Inr (Some d) \<and>
     pc_patch_dimensional_compute_extent store_zlib d = Inr (d\<lparr>pa_bounds := b\<rparr>)"
proof -
  obtain d where d: "pc_patch_dimensional_from_uncompressed demo_patch = Inr (Some d)" "dim_holds store_zlib d demo_pts"
    "pa_schema d = demo_xy"
    using from_uncompressed_eq [OF demo_patch_ok(1) demo_full_patch(2,3,1), of store_zlib] demo_patch_ok(2,4) by auto
  obtain x1 x2 y1 y2 where "col_extremes (pa_schema d) demo_pts 0 = (x1, x2)" "col_extremes (pa_schema d) demo_pts 1 = (y1, y2)"
    by (metis surj_pair)
  from dimensional_extent [OF d(2) _ this] d(1,3) demo_xy_ready(2) show ?thesis by auto
qed

text \<open>
  Updating the statistics of dimensions with a patch counts its points and the patch, and recommends
  for every dimension one of the three compressions; zlib for doubles.
\<close>

theorem dimstats_recommend_codecs:
  assumes "points_ok (pa_schema d) ws" "ws \<noteq> []" "pd_bytes d = plain_arrays (pa_schema d) ws" "dimstats_for (pa_schema d) pds"
  shows "\<exists>pds'. pc_dimstats_update pds d = Inr pds' \<and> recommends (pa_schema d) pds' \<and>
    dts_total_patches pds' = dts_total_patches pds + 1 \<and>
    dts_total_points pds' = (dts_total_points pds + pa_npoints d) mod 2 ^ 32 \<and>
    (\<forall>points patches dim st. dim_interpretation dim = PC_DOUBLE \<longrightarrow> recommend points patches dim st = PC_DIM_ZLIB)"
  using update_ok [OF assms] by (auto simp: recommend_def Let_def)

theorem dimstats_recommend_codecs_witness:
  "\<exists>d pds. pc_patch_dimensional_from_uncompressed demo_patch = Inr (Some d) \<and>
     pc_dimstats_update (pc_dimstats_make demo_xy) d = Inr pds \<and> dts_total_patches pds = 1"
proof -
  obtain d where d: "pc_patch_dimensional_from_uncompressed demo_patch = Inr (Some d)" "dim_holds store_zlib d demo_pts"
    "pa_schema d = demo_xy" "pd_bytes d = plain_arrays demo_xy demo_pts"
    using from_uncompressed_eq [OF demo_patch_ok(1) demo_full_patch(2,3,1), of store_zlib] demo_patch_ok(2,4) by auto
  have "points_ok (pa_schema d) demo_pts" "demo_pts \<noteq> []" using d(2) by (simp_all add: dim_holds_def demo_pts_def)
  from dimstats_recommend_codecs [OF this _ , of "pc_dimstats_make demo_xy"] d show ?thesis
    by (auto simp: dimstats_for_def pc_dimstats_make_def)
qed

text \<open>
  The binary form of a dimensional patch, whatever the compression of its arrays, is read back on the
  same machine with the same arrays; the box and the statistics are not stored.
\<close>

theorem dimensional_wkb_roundtrip:
  assumes "schema_ready (pa_schema d)" "storable (pa_schema d) (pa_npoints d) (pd_bytes d)" "pa_npoints d < 2 ^ 32"
    and "pa_type d = PC_DIMENSIONAL"
  shows "\<exists>wkb. pc_patch_dimensional_to_wkb d = Inr (wkb, length wkb) \<and>
    pc_patch_dimensional_from_wkb (pa_schema d) wkb (length wkb) =
      Inr (d\<lparr>pa_readonly := PC_FALSE, pa_bounds := zero_bounds, pa_stats := None, pd_bytes := marked False (pd_bytes d)\<rparr>)"
proof -
  let ?p = "bytes_of_word (word_of_nat (sc_pcid (pa_schema d)) :: 32 word)"
  have p: "length ?p = 4" by (simp add: word_size_def)
  have d: "\<lparr>pa_type = PC_DIMENSIONAL, pa_readonly = PC_FALSE, pa_schema = pa_schema d, pa_npoints = pa_npoints d,
      pa_bounds = zero_bounds, pa_stats = None, pd_bytes = marked False (pd_bytes d)\<rparr> =
      d\<lparr>pa_readonly := PC_FALSE, pa_bounds := zero_bounds, pa_stats := None, pd_bytes := marked False (pd_bytes d)\<rparr>"
    using assms(4) by (cases d) simp
  have "bytes_of_word (word_of_nat (pa_type d) :: 32 word) = bytes_of_word (1 :: 32 word)" by (simp add: assms(4))
  then show ?thesis
    using dimensional_to_wkb_eq [OF assms(2)] dimensional_from_wkb_eq [OF assms(1,2,3) p] d by (simp add: word_size_def)
qed

theorem dimensional_wkb_roundtrip_witness:
  "\<exists>d wkb. pc_patch_dimensional_from_uncompressed demo_patch = Inr (Some d) \<and>
     pc_patch_dimensional_to_wkb d = Inr (wkb, length wkb) \<and>
     pc_patch_dimensional_from_wkb demo_xy wkb (length wkb) =
       Inr (d\<lparr>pa_readonly := PC_FALSE, pa_bounds := zero_bounds, pa_stats := None, pd_bytes := marked False (pd_bytes d)\<rparr>)"
proof -
  obtain d where d: "pc_patch_dimensional_from_uncompressed demo_patch = Inr (Some d)" "dim_holds store_zlib d demo_pts"
    "pa_schema d = demo_xy" "pd_bytes d = plain_arrays demo_xy demo_pts"
    using from_uncompressed_eq [OF demo_patch_ok(1) demo_full_patch(2,3,1), of store_zlib] demo_patch_ok(2,4) by auto
  have n: "pa_npoints d = 2" "points_ok demo_xy demo_pts" using d(2,3) by (simp_all add: dim_holds_def demo_pts_def)
  have t: "pa_type d = PC_DIMENSIONAL"
    using d(1) by (auto simp: pc_patch_dimensional_from_uncompressed_def bindE_eq_Inr split: if_splits)
  have "serial_ok (col_array demo_xy demo_pts j)" if "j < 2" for j
  proof -
    have "length (pb_bytes (col_array demo_xy demo_pts j)) = pb_size (col_array demo_xy demo_pts j)"
      using col_array_plain(1) [OF n(2), of j] that by (simp add: plain_def demo_xy_ready)
    then show ?thesis using that less_2 [of j]
      by (auto simp: serial_ok_def col_array_def demo_pts_def demo_xy_facts demo_sizes)
  qed
  then have "storable (pa_schema d) (pa_npoints d) (pd_bytes d)"
    by (simp add: storable_def d(3,4) plain_arrays_def n demo_xy_ready) (simp add: col_array_def demo_pts_def)
  from dimensional_wkb_roundtrip [OF _ this _ t] d(1,3) n(1) demo_xy_ready(1) show ?thesis by auto
qed

text \<open>
  The binary form of a dimensional patch from a machine of the other byte order whose first array is
  run-length encoded cannot be read: the reader flips the array before it knows its number of points, and
  the assertion that there are points fails.
\<close>

theorem foreign_dimensional_wkb_fails:
  assumes "schema_ready s" "0 < sc_ndims s" "e \<noteq> 1" "length pc = 4" "n < 2 ^ 32" "length a < 2 ^ 31"
  shows "pc_patch_dimensional_from_wkb s (e # pc @ rev (bytes_of_word (1 :: 32 word)) @
      rev (bytes_of_word (word_of_nat n :: 32 word)) @
      1 # rev (bytes_of_word (word_of_nat (length a) :: 32 word)) @ a @ rest) len = Inl AssertFailed"
  by (rule foreign_rle_fails [OF assms(1-5) refl assms(6)])

theorem foreign_dimensional_wkb_fails_witness:
  "pc_patch_dimensional_from_wkb demo_xy ([0, 9, 9, 9, 9, 0, 0, 0, 1, 0, 0, 0, 2] @ [1, 0, 0, 0, 5, 2, 4, 3, 2, 1]) 23 =
     Inl AssertFailed"
proof -
  have h: "[0, 9, 9, 9, 9, 0, 0, 0, 1, 0, 0, 0, 2] @ [1, 0, 0, 0, 5, 2, 4, 3, 2, 1 :: byte] =
      0 # [9, 9, 9, 9] @ rev (bytes_of_word (1 :: 32 word)) @ rev (bytes_of_word (word_of_nat 2 :: 32 word)) @
      1 # rev (bytes_of_word (word_of_nat (length [2, 4, 3, 2, 1 :: byte]) :: 32 word)) @ [2, 4, 3, 2, 1] @ []"
    by code_simp
  show ?thesis unfolding h
    by (rule foreign_dimensional_wkb_fails [OF demo_xy_ready(1)]) (simp_all add: demo_xy_ready)
qed

end
