(* ===== verification/PC_Patch_Lazperf.thy ===== *)
theory PC_Patch_Lazperf
  imports PC_Patch_Dimensional
begin

text \<open>
  LAZ-compressed patches (lib/pc_patch_lazperf.c). The compressor is the external laz-perf library behind
  a C++ adapter: a parameter, absent when the library is built without it. A patch carries the compressed
  bytes; the adapter reads from the patch its schema, its number of points and these bytes.
\<close>

record PCPATCH_LAZPERF = PCPATCH +
  lz_size :: nat
  lz_data :: "byte list"

text \<open>\<open>None\<close> is the return value -1 of the adapter.\<close>

record lazperf =
  lazperf_compress_from_uncompressed :: "PCPATCH_UNCOMPRESSED \<Rightarrow> byte list option"
  lazperf_uncompress_from_compressed :: "PCPATCH_LAZPERF \<Rightarrow> byte list option"

definition pc_patch_lazperf_from_uncompressed :: "lazperf option \<Rightarrow> PCPATCH_UNCOMPRESSED \<Rightarrow> PCPATCH_LAZPERF res" where
  "pc_patch_lazperf_from_uncompressed laz pa = (case laz of
       None \<Rightarrow> Inl (PcError ''pc_patch_lazperf_from_uncompressed: lazperf support is not enabled'')
     | Some l \<Rightarrow> (case lazperf_compress_from_uncompressed l pa of
         None \<Rightarrow> Inl (PcError ''pc_patch_lazperf_from_uncompressed: LAZ compressionf failed'')
       | Some compressed \<Rightarrow> bindE (pc_stats_clone (pa_stats pa)) (\<lambda>stats.
           Inr \<lparr>pa_type = PC_LAZPERF, pa_readonly = PC_FALSE, pa_schema = pa_schema pa, pa_npoints = pa_npoints pa,
                pa_bounds = pa_bounds pa, pa_stats = stats, lz_size = length compressed, lz_data = compressed\<rparr>)))"

definition pc_patch_lazperf_from_pointlist :: "lazperf option \<Rightarrow> PCPOINTLIST option \<Rightarrow> PCPATCH_LAZPERF res" where
  "pc_patch_lazperf_from_pointlist laz pdl =
     bindE (pc_patch_uncompressed_from_pointlist pdl) (pc_patch_lazperf_from_uncompressed laz)"

definition pc_patch_uncompressed_from_lazperf :: "lazperf option \<Rightarrow> PCPATCH_LAZPERF \<Rightarrow> PCPATCH_UNCOMPRESSED res" where
  "pc_patch_uncompressed_from_lazperf laz palaz = (case laz of
       None \<Rightarrow> Inl (PcError ''pc_patch_uncompressed_from_lazperf: lazperf support is not enabled'')
     | Some l \<Rightarrow> (case lazperf_uncompress_from_compressed l palaz of
         None \<Rightarrow> Inl (PcError ''pc_patch_uncompressed_from_lazperf: lazperf uncompression failed'')
       | Some decompressed \<Rightarrow> bindE (pc_stats_clone (pa_stats palaz)) (\<lambda>stats.
           let datasize = sc_size (pa_schema palaz) * pa_npoints palaz mod 2 ^ 64 in
           bindE (rd decompressed 0 datasize) (\<lambda>data.
           Inr \<lparr>pa_type = PC_NONE, pa_readonly = PC_FALSE, pa_schema = pa_schema palaz, pa_npoints = pa_npoints palaz,
                pa_bounds = pa_bounds palaz, pa_stats = stats, pu_maxpoints = pa_npoints palaz,
                pu_datasize = datasize, pu_data = data\<rparr>))))"

text \<open>The points are windows of the uncompressed data, which the list keeps.\<close>

definition pc_pointlist_from_lazperf :: "lazperf option \<Rightarrow> PCPATCH_LAZPERF \<Rightarrow> PCPOINTLIST res" where
  "pc_pointlist_from_lazperf laz palaz =
     bindE (pc_patch_uncompressed_from_lazperf laz palaz) pc_pointlist_from_uncompressed"

definition pc_patch_lazperf_to_wkb :: "lazperf option \<Rightarrow> PCPATCH_LAZPERF \<Rightarrow> (byte list \<times> nat) res" where
  "pc_patch_lazperf_to_wkb laz patch = (case laz of
       None \<Rightarrow> Inl (PcError ''pc_patch_lazperf_to_wkb: lazperf support is not enabled'')
     | Some _ \<Rightarrow> let sz = 1 + 4 + 4 + 4 + (4 + lz_size patch) in
         bindE (wr (pcalloc sz) 0 [machine_endian]) (\<lambda>wkb.
         bindE (wr wkb 1 (bytes_of_word (word_of_nat (sc_pcid (pa_schema patch)) :: 32 word))) (\<lambda>wkb.
         bindE (wr wkb 5 (bytes_of_word (word_of_nat (pa_type patch) :: 32 word))) (\<lambda>wkb.
         bindE (wr wkb 9 (bytes_of_word (word_of_nat (pa_npoints patch) :: 32 word))) (\<lambda>wkb.
         bindE (wr wkb 13 (bytes_of_word (word_of_nat (lz_size patch) :: 32 word))) (\<lambda>wkb.
         bindE (rd (lz_data patch) 0 (lz_size patch)) (\<lambda>d.
         bindE (wr wkb 17 d) (\<lambda>wkb. Inr (wkb, sz)))))))))"

definition pc_patch_lazperf_from_wkb :: "lazperf option \<Rightarrow> PCSCHEMA \<Rightarrow> byte list \<Rightarrow> nat \<Rightarrow> PCPATCH_LAZPERF res" where
  "pc_patch_lazperf_from_wkb laz schema wkb wkbsize = (case laz of
       None \<Rightarrow> Inl (PcError ''pc_patch_lazperf_from_wkb: lazperf support is not enabled'')
     | Some _ \<Rightarrow> let hdrsz = 1 + 4 + 4 + 4 in
         bindE (rd wkb 0 1) (\<lambda>e. let swap_endian = (hd e \<noteq> machine_endian) in
         bindE (wkb_get_compression wkb) (\<lambda>c.
         if c \<noteq> 2 then Inl (PcError ''pc_patch_lazperf_from_wkb: call with wkb that is not LAZPERF compressed'')
         else bindE (wkb_get_npoints wkb) (\<lambda>np.
         bindE (wkb_get_int32 wkb hdrsz swap_endian) (\<lambda>sz. let lazperfsize = nat (sint sz mod 2 ^ 64) in
         bindE (rd wkb (hdrsz + 4) lazperfsize) (\<lambda>d.
         Inr \<lparr>pa_type = PC_LAZPERF, pa_readonly = PC_FALSE, pa_schema = schema, pa_npoints = unat np,
              pa_bounds = zero_bounds, pa_stats = None, lz_size = lazperfsize, lz_data = d\<rparr>))))))"

text \<open>The extent is computed for an uncompressed copy, which is dropped: the patch stays as it is.\<close>

definition pc_patch_lazperf_compute_extent :: "lazperf option \<Rightarrow> PCPATCH_LAZPERF \<Rightarrow> PCPATCH_LAZPERF res" where
  "pc_patch_lazperf_compute_extent laz patch = (case laz of
       None \<Rightarrow> Inl (PcError ''pc_patch_lazperf_compute_extent: lazperf support is not enabled'')
     | Some _ \<Rightarrow> bindE (pc_patch_uncompressed_from_lazperf laz patch) (\<lambda>pau.
         bindE (pc_patch_uncompressed_compute_extent pau) (\<lambda>_. Inr patch)))"

definition pc_patch_lazperf_pointn :: "lazperf option \<Rightarrow> PCPATCH_LAZPERF \<Rightarrow> int \<Rightarrow> PCPOINT res" where
  "pc_patch_lazperf_pointn laz patch n = (case laz of
       None \<Rightarrow> Inl (PcError ''pc_patch_lazperf_pointn: lazperf support is not enabled'')
     | Some _ \<Rightarrow> bindE (pc_point_make (Some (pa_schema patch))) (\<lambda>pt.
         bindE (pc_patch_uncompressed_from_lazperf laz patch) (\<lambda>pau.
         let sz = sc_size (pa_schema patch) in
         if n < 0 then Inl OutOfBounds
         else bindE (rd (pu_data pau) (nat n * sz) sz) (\<lambda>d. bindE (wr (pt_data pt) 0 d) (\<lambda>data.
              Inr (pt\<lparr>pt_data := data\<rparr>))))))"

section \<open>What is relied on\<close>

text \<open>
  Uncompressing the compressed points of a well-formed patch gives at least these points, when the patch handed over
  has the schema, the number of points and the bytes of the compressed one.
\<close>

definition laz_works :: "lazperf \<Rightarrow> bool" where
  "laz_works l = (\<forall>p c q. patch_ok p \<longrightarrow> lazperf_compress_from_uncompressed l p = Some c \<longrightarrow> pa_schema q = pa_schema p \<longrightarrow>
     pa_npoints q = pa_npoints p \<longrightarrow> lz_size q = length c \<longrightarrow> lz_data q = c \<longrightarrow>
     (\<exists>rest. lazperf_uncompress_from_compressed l q =
        Some (take (pa_npoints p * sc_size (pa_schema p)) (pu_data p) @ rest)))"

definition laz_holds :: "lazperf option \<Rightarrow> PCPATCH_LAZPERF \<Rightarrow> byte list list \<Rightarrow> bool" where
  "laz_holds laz d ws = (points_ok (pa_schema d) ws \<and> pa_npoints d = length ws \<and> stats_ok (pa_schema d) (pa_stats d) \<and>
     (\<exists>l rest. laz = Some l \<and> lazperf_uncompress_from_compressed l d = Some (concat ws @ rest)))"

lemma as_uncompressed_ok:
  assumes "points_ok (pa_schema d) ws"
  shows "patch_ok (as_uncompressed d ws)" "pts (as_uncompressed d ws) = ws"
proof -
  have "schema_ready (pa_schema d)" "widths (pa_schema d) ws" "length ws < 2 ^ 32"
    using assms by (simp_all add: points_ok_def)
  from patch_of_ok [OF this] show "patch_ok (as_uncompressed d ws)" "pts (as_uncompressed d ws) = ws"
    by (simp_all add: patch_ok_def pts_def patch_of_def as_uncompressed_def)
qed

lemma uncompressed_from_lazperf_eq:
  assumes "laz_holds laz d ws"
  shows "pc_patch_uncompressed_from_lazperf laz d = Inr (as_uncompressed d ws)"
proof -
  let ?s = "pa_schema d"
  obtain l rest where h: "points_ok ?s ws" "pa_npoints d = length ws" "stats_ok ?s (pa_stats d)"
    and l: "laz = Some l" "lazperf_uncompress_from_compressed l d = Some (concat ws @ rest)"
    using assms by (auto simp: laz_holds_def)
  have "length (concat ws) = length ws * sc_size ?s"
    using length_concat_const [of ws "sc_size ?s"] h(1) by (simp add: points_ok_def widths_def)
  then have "rd (concat ws @ rest) 0 (length ws * sc_size ?s) = Inr (concat ws)" by (simp add: rd_def)
  then show ?thesis
    unfolding pc_patch_uncompressed_from_lazperf_def l option.case clone_ok [OF h(3)] bindE_Inr Let_def h(2) points_size [OF h(1)]
    by (simp add: as_uncompressed_def)
qed

lemma lazperf_from_uncompressed_eq:
  assumes p: "patch_ok p" "pa_npoints p < 2 ^ 26" "stats_ok (pa_schema p) (pa_stats p)"
    and l: "laz_works l" "lazperf_compress_from_uncompressed l p = Some c"
  shows "\<exists>d. pc_patch_lazperf_from_uncompressed (Some l) p = Inr d \<and> laz_holds (Some l) d (pts p) \<and>
    pa_schema d = pa_schema p \<and> pa_bounds d = pa_bounds p \<and> pa_stats d = own (pa_stats p)"
proof -
  let ?d = "\<lparr>pa_type = 2, pa_readonly = PC_FALSE, pa_schema = pa_schema p, pa_npoints = pa_npoints p,
      pa_bounds = pa_bounds p, pa_stats = own (pa_stats p), lz_size = length c, lz_data = c\<rparr>"
  have ok: "points_ok (pa_schema p) (pts p)" using p pts_width by (auto simp: points_ok_def widths_def patch_ok_def)
  have "concat (pts p) = take (pa_npoints p * sc_size (pa_schema p)) (pu_data p)"
    unfolding pts_def by (rule concat_elems [OF patch_room [OF p(1)]])
  moreover obtain rest where "lazperf_uncompress_from_compressed l ?d =
      Some (take (pa_npoints p * sc_size (pa_schema p)) (pu_data p) @ rest)"
    using l(1) [unfolded laz_works_def, rule_format, OF p(1) l(2), of ?d] by auto
  ultimately have "laz_holds (Some l) ?d (pts p)" using ok p(3) by (simp add: laz_holds_def)
  then show ?thesis using clone_ok [OF p(3)] l(2) by (simp add: pc_patch_lazperf_from_uncompressed_def)
qed

lemma lazperf_pointn_eq:
  assumes h: "laz_holds laz d ws" "0 < sc_size (pa_schema d)" and i: "i < length ws"
  shows "pc_patch_lazperf_pointn laz d (int i) = Inr \<lparr>pt_readonly = PC_FALSE, pt_schema = pa_schema d, pt_data = ws ! i\<rparr>"
proof -
  let ?s = "pa_schema d" and ?p = "as_uncompressed d ws"
  have ok: "points_ok ?s ws" and l: "laz \<noteq> None" using h(1) by (auto simp: laz_holds_def)
  note p = as_uncompressed_ok [OF ok]
  have lw: "length (ws ! i) = sc_size ?s" using ok i by (simp add: points_ok_def widths_def)
  have f: "pa_schema ?p = ?s" "pa_npoints ?p = length ws" by (simp_all add: as_uncompressed_def)
  have "drop (i * sc_size ?s) (pu_data ?p) = ws ! i @ drop (Suc i * sc_size ?s) (pu_data ?p)"
    using pts_at(1) [OF p(1), of i] i p(2) by (simp only: f)
  moreover have "i * sc_size ?s + sc_size ?s \<le> length (pu_data ?p)"
    using elem_bound [OF i, of "sc_size ?s"] patch_room [OF p(1)] f by simp
  ultimately have "rd (pu_data ?p) (i * sc_size ?s) (sc_size ?s) = Inr (ws ! i)" using lw by (simp add: rd_def)
  moreover have "wr (pcalloc (sc_size ?s)) 0 (ws ! i) = Inr (ws ! i)" using lw by (simp add: wr_def)
  ultimately show ?thesis using l h(2) uncompressed_from_lazperf_eq [OF h(1)]
    by (auto simp: pc_patch_lazperf_pointn_def pc_point_make_def Let_def)
qed

section \<open>Binary form\<close>

lemma lazperf_to_wkb_eq:
  assumes "lz_size p = length (lz_data p)"
  shows "pc_patch_lazperf_to_wkb (Some l) p = Inr (1 # bytes_of_word (word_of_nat (sc_pcid (pa_schema p)) :: 32 word) @
    bytes_of_word (word_of_nat (pa_type p) :: 32 word) @ bytes_of_word (word_of_nat (pa_npoints p) :: 32 word) @
    bytes_of_word (word_of_nat (lz_size p) :: 32 word) @ lz_data p, 17 + lz_size p)"
proof -
  define a b c d :: "byte list" where "a = bytes_of_word (word_of_nat (sc_pcid (pa_schema p)) :: 32 word)"
    and "b = bytes_of_word (word_of_nat (pa_type p) :: 32 word)" and "c = bytes_of_word (word_of_nat (pa_npoints p) :: 32 word)"
    and "d = bytes_of_word (word_of_nat (lz_size p) :: 32 word)"
  let ?n = "lz_size p"
  have l: "length a = 4" "length b = 4" "length c = 4" "length d = 4" "length (lz_data p) = ?n"
    using assms by (simp_all add: a_def b_def c_def d_def word_size_def)
  have w: "wr ((1 # a @ b @ c) @ replicate (4 + ?n) 0) 13 d = Inr ((1 # a @ b @ c @ d) @ replicate ?n 0)"
    using wr_mid [of 13 "1 # a @ b @ c" "replicate 4 0" d "replicate ?n 0"] l by (simp add: replicate_add)
  have w': "wr ((1 # a @ b @ c @ d) @ replicate ?n 0) 17 (lz_data p) = Inr ((1 # a @ b @ c @ d) @ lz_data p)"
    using wr_mid [of 17 "1 # a @ b @ c @ d" "replicate ?n 0" "lz_data p" "[]"] l by simp
  have r: "rd (lz_data p) 0 ?n = Inr (lz_data p)" using l(5) by (simp add: rd_def)
  show ?thesis
    unfolding pc_patch_lazperf_to_wkb_def option.case Let_def a_def [symmetric] b_def [symmetric] c_def [symmetric]
      d_def [symmetric] wkb_header_written [OF l(1-3)] w r bindE_Inr w' by simp
qed

lemma lazperf_from_wkb_eq:
  assumes h: "length pc = 4" "n < 2 ^ 32" "length d < 2 ^ 31"
    and t: "tb = (if e = 1 then bytes_of_word (2 :: 32 word) else rev (bytes_of_word (2 :: 32 word)))"
    and np: "np = (if e = 1 then bytes_of_word (word_of_nat n :: 32 word) else rev (bytes_of_word (word_of_nat n :: 32 word)))"
    and sz: "sz = (if e = 1 then bytes_of_word (word_of_nat (length d) :: 32 word)
        else rev (bytes_of_word (word_of_nat (length d) :: 32 word)))"
  shows "pc_patch_lazperf_from_wkb (Some l) s (e # pc @ tb @ np @ sz @ d) len =
    Inr \<lparr>pa_type = 2, pa_readonly = PC_FALSE, pa_schema = s, pa_npoints = n,
      pa_bounds = zero_bounds, pa_stats = None, lz_size = length d, lz_data = d\<rparr>"
proof -
  let ?w = "e # pc @ tb @ np @ sz @ d"
  note f = patch_wkb_fields [OF h(1,2) t np]
  have ls: "length sz = 4" by (simp add: sz word_size_def)
  have "rd ((e # pc @ tb @ np) @ sz @ d) 13 4 = Inr sz" by (rule rd_mid) (use f(5,6) h ls in simp_all)
  then have r: "rd ?w 13 4 = Inr sz" by (simp only: append_Cons append_assoc)
  have i: "wkb_get_int32 ?w (1 + 4 + 4 + 4) (hd [e] \<noteq> machine_endian) = Inr (word_of_nat (length d))"
    using r swapped_field [OF sz] by (simp add: wkb_get_int32_def)
  have "rd ((e # pc @ tb @ np @ sz) @ d @ []) 17 (length d) = Inr d" by (rule rd_mid) (use f(5,6) h ls in simp_all)
  then have r2: "rd ?w (1 + 4 + 4 + 4 + 4) (length d) = Inr d" by (simp add: append_Cons)
  have u: "nat (sint (word_of_nat (length d) :: 32 word) mod 2 ^ 64) = length d"
    using h(3) by (simp add: signed_of_nat signed_take_bit_int_eq_self)
  show ?thesis
    unfolding pc_patch_lazperf_from_wkb_def option.case Let_def f(1,2,3,7) bindE_Inr i u r2 by simp
qed

text \<open>A compressor that stores the points as they are.\<close>

definition store_laz :: lazperf where
  "store_laz = \<lparr>lazperf_compress_from_uncompressed = \<lambda>p. Some (pu_data p),
     lazperf_uncompress_from_compressed = \<lambda>q. Some (lz_data q)\<rparr>"

lemma store_laz_works: "laz_works store_laz"
  unfolding laz_works_def store_laz_def by (simp add: exI [of _ "drop _ _"]) (metis append_take_drop_id)

section \<open>Properties\<close>

text \<open>
  A patch compressed by laz-perf and uncompressed again has the same points, box and statistics; its
  points can be taken one by one.
\<close>

theorem lazperf_roundtrip:
  assumes "patch_ok p" "pa_npoints p < 2 ^ 26" "stats_ok (pa_schema p) (pa_stats p)" "0 < sc_size (pa_schema p)"
    and "laz_works l" "lazperf_compress_from_uncompressed l p = Some c"
  shows "\<exists>d q. pc_patch_lazperf_from_uncompressed (Some l) p = Inr d \<and> pc_patch_uncompressed_from_lazperf (Some l) d = Inr q \<and>
    patch_ok q \<and> pts q = pts p \<and> pa_schema q = pa_schema p \<and> pa_bounds q = pa_bounds p \<and> pa_stats q = own (pa_stats p) \<and>
    (\<forall>i < pa_npoints p. pc_patch_lazperf_pointn (Some l) d (int i) =
       Inr \<lparr>pt_readonly = PC_FALSE, pt_schema = pa_schema p, pt_data = pts p ! i\<rparr>)"
proof -
  obtain d where d: "pc_patch_lazperf_from_uncompressed (Some l) p = Inr d" "laz_holds (Some l) d (pts p)"
    "pa_schema d = pa_schema p" "pa_bounds d = pa_bounds p" "pa_stats d = own (pa_stats p)"
    using lazperf_from_uncompressed_eq [OF assms(1-3,5,6)] by blast
  have ok: "points_ok (pa_schema d) (pts p)" using d(2) by (simp add: laz_holds_def)
  show ?thesis
    using d(1,3,4,5) uncompressed_from_lazperf_eq [OF d(2)] as_uncompressed_ok [OF ok] lazperf_pointn_eq [OF d(2)] assms(4)
    by (intro exI [of _ d] exI [of _ "as_uncompressed d (pts p)"]) (simp add: as_uncompressed_def)
qed

theorem lazperf_roundtrip_witness:
  "\<exists>d q. pc_patch_lazperf_from_uncompressed (Some store_laz) demo_patch = Inr d \<and>
     pc_patch_uncompressed_from_lazperf (Some store_laz) d = Inr q \<and> pts q = [[1, 2, 3, 4, 5], [6, 7, 8, 9, 10]]"
proof -
  have "lazperf_compress_from_uncompressed store_laz demo_patch = Some (pu_data demo_patch)"
    "0 < sc_size (pa_schema demo_patch)" by (simp_all add: store_laz_def demo_patch_ok demo_xy_ready)
  then show ?thesis
    using lazperf_roundtrip [OF demo_patch_ok(1) demo_full_patch(2,1) _ store_laz_works]
    by (auto simp: demo_patch_ok demo_pts_def)
qed

text \<open>
  Computing the extent of a LAZ patch succeeds and leaves the patch as it was: the extent goes to an
  uncompressed copy that is dropped. A LAZ patch read from its binary form keeps the box of zeros.
\<close>

theorem lazperf_extent_dropped:
  assumes "laz_holds laz d ws" "has_xy (pa_schema d) ix iy"
  shows "pc_patch_lazperf_compute_extent laz d = Inr d \<and>
    (\<exists>q. pc_patch_uncompressed_compute_extent (as_uncompressed d ws) = Inr q \<and> pa_bounds q = extent (pa_schema d) ix iy ws)"
proof -
  have ok: "points_ok (pa_schema d) ws" and l: "\<exists>l. laz = Some l" using assms(1) by (auto simp: laz_holds_def)
  have s: "pa_schema (as_uncompressed d ws) = pa_schema d" by (simp add: as_uncompressed_def)
  note e = compute_extent_eq [OF as_uncompressed_ok(1) [OF ok], unfolded s, OF assms(2)]
  show ?thesis using l uncompressed_from_lazperf_eq [OF assms(1)] e as_uncompressed_ok(2) [OF ok]
    by (auto simp: pc_patch_lazperf_compute_extent_def)
qed

theorem lazperf_extent_dropped_witness:
  "\<exists>d. pc_patch_lazperf_from_wkb (Some store_laz) demo_xy
       ([1, 9, 9, 9, 9, 2, 0, 0, 0, 1, 0, 0, 0, 5, 0, 0, 0] @ [1, 2, 3, 4, 5]) 22 = Inr d \<and>
     pc_patch_lazperf_compute_extent (Some store_laz) d = Inr d \<and> pa_bounds d = zero_bounds"
proof -
  let ?d = "\<lparr>pa_type = 2, pa_readonly = PC_FALSE, pa_schema = demo_xy, pa_npoints = 1,
      pa_bounds = zero_bounds, pa_stats = None, lz_size = 5, lz_data = [1, 2, 3, 4, 5]\<rparr>"
  have h: "[1, 9, 9, 9, 9, 2, 0, 0, 0, 1, 0, 0, 0, 5, 0, 0, 0] @ [1, 2, 3, 4, 5 :: byte] =
      1 # [9, 9, 9, 9] @ bytes_of_word (2 :: 32 word) @ bytes_of_word (word_of_nat 1 :: 32 word) @
      bytes_of_word (word_of_nat (length [1, 2, 3, 4, 5 :: byte]) :: 32 word) @ [1, 2, 3, 4, 5]"
    by code_simp
  have f: "pc_patch_lazperf_from_wkb (Some store_laz) demo_xy
      ([1, 9, 9, 9, 9, 2, 0, 0, 0, 1, 0, 0, 0, 5, 0, 0, 0] @ [1, 2, 3, 4, 5]) 22 = Inr ?d"
    unfolding h by (subst lazperf_from_wkb_eq) simp_all
  have "laz_holds (Some store_laz) ?d [[1, 2, 3, 4, 5]]"
    by (simp add: laz_holds_def points_ok_def demo_xy_ready widths_def stats_ok_def store_laz_def)
  from lazperf_extent_dropped [OF this] f show ?thesis using demo_xy_ready(2) by auto
qed

text \<open>
  The binary form of a LAZ patch is read back on the same machine, with the same compressed bytes; from
  a machine of the other byte order, with the numbers reversed, it gives the same.
\<close>

theorem lazperf_wkb_roundtrip:
  assumes "lz_size p = length (lz_data p)" "lz_size p < 2 ^ 31" "pa_npoints p < 2 ^ 32" "pa_type p = 2"
    and "e \<noteq> 1" "length pc = 4"
  shows "\<exists>wkb q. pc_patch_lazperf_to_wkb (Some l) p = Inr (wkb, length wkb) \<and>
    q = p\<lparr>pa_readonly := PC_FALSE, pa_bounds := zero_bounds, pa_stats := None\<rparr> \<and>
    pc_patch_lazperf_from_wkb (Some l) (pa_schema p) wkb (length wkb) = Inr q \<and>
    pc_patch_lazperf_from_wkb (Some l) (pa_schema p) (e # pc @ rev (bytes_of_word (2 :: 32 word)) @
      rev (bytes_of_word (word_of_nat (pa_npoints p) :: 32 word)) @
      rev (bytes_of_word (word_of_nat (lz_size p) :: 32 word)) @ lz_data p) (length wkb) = Inr q"
proof -
  let ?b = "bytes_of_word :: 32 word \<Rightarrow> byte list"
  let ?wkb = "1 # ?b (word_of_nat (sc_pcid (pa_schema p))) @ ?b 2 @ ?b (word_of_nat (pa_npoints p)) @
      ?b (word_of_nat (lz_size p)) @ lz_data p"
  have l: "length (?b (word_of_nat (sc_pcid (pa_schema p)))) = 4" "length (lz_data p) < 2 ^ 31"
    using assms(1,2) by (simp_all add: word_size_def)
  have q: "\<lparr>pa_type = 2, pa_readonly = PC_FALSE, pa_schema = pa_schema p, pa_npoints = pa_npoints p,
      pa_bounds = zero_bounds, pa_stats = None, lz_size = length (lz_data p), lz_data = lz_data p\<rparr> =
      p\<lparr>pa_readonly := PC_FALSE, pa_bounds := zero_bounds, pa_stats := None\<rparr>"
    using assms(1,4) by (cases p) simp
  have "pc_patch_lazperf_to_wkb (Some l) p = Inr (?wkb, length ?wkb)"
    using lazperf_to_wkb_eq [OF assms(1), of l] assms(1,4) by (simp add: word_size_def)
  moreover have "pc_patch_lazperf_from_wkb (Some l) (pa_schema p) ?wkb n =
      Inr (p\<lparr>pa_readonly := PC_FALSE, pa_bounds := zero_bounds, pa_stats := None\<rparr>)" for n
    unfolding q [symmetric] by (rule lazperf_from_wkb_eq [OF l(1) assms(3) l(2)]) (simp_all add: assms(1))
  moreover have "pc_patch_lazperf_from_wkb (Some l) (pa_schema p) (e # pc @ rev (?b 2) @ rev (?b (word_of_nat (pa_npoints p))) @
      rev (?b (word_of_nat (lz_size p))) @ lz_data p) n =
      Inr (p\<lparr>pa_readonly := PC_FALSE, pa_bounds := zero_bounds, pa_stats := None\<rparr>)" for n
    unfolding q [symmetric] by (rule lazperf_from_wkb_eq [OF assms(6,3) l(2)]) (simp_all add: assms(1,5))
  ultimately show ?thesis by blast
qed

theorem lazperf_wkb_roundtrip_witness:
  "\<exists>wkb q. pc_patch_lazperf_to_wkb (Some store_laz) \<lparr>pa_type = 2, pa_readonly = PC_FALSE, pa_schema = demo_xy, pa_npoints = 1,
      pa_bounds = zero_bounds, pa_stats = None, lz_size = 5, lz_data = [1, 2, 3, 4, 5]\<rparr> = Inr (wkb, length wkb) \<and>
     pc_patch_lazperf_from_wkb (Some store_laz) demo_xy wkb (length wkb) = Inr q \<and> lz_data q = [1, 2, 3, 4, 5]"
  using lazperf_wkb_roundtrip [of "\<lparr>pa_type = 2, pa_readonly = PC_FALSE, pa_schema = demo_xy, pa_npoints = 1,
      pa_bounds = zero_bounds, pa_stats = None, lz_size = 5, lz_data = [1, 2, 3, 4, 5]\<rparr>" 0 "[9, 9, 9, 9]" store_laz]
  by auto

end
