(* ===== verification/PC_Patch.thy ===== *)
theory PC_Patch
  imports PC_Patch_Lazperf
begin

text \<open>
  Patches of any representation (lib/pc_patch.c): the functions that dispatch on it, and those that build
  patches from patches. A \<open>PCPATCH *\<close> points to one of three structures, told apart by the field
  \<open>type\<close>: here it is one of the three constructors, so that the branches for an unknown type have no
  counterpart. A function that returns a null pointer without a message returns \<open>None\<close>.
\<close>

datatype patch =
    Uncompressed PCPATCH_UNCOMPRESSED
  | Dimensional PCPATCH_DIMENSIONAL
  | Lazperf PCPATCH_LAZPERF

fun p_schema :: "patch \<Rightarrow> PCSCHEMA" where
  "p_schema (Uncompressed p) = pa_schema p"
| "p_schema (Dimensional p) = pa_schema p"
| "p_schema (Lazperf p) = pa_schema p"

fun p_npoints :: "patch \<Rightarrow> nat" where
  "p_npoints (Uncompressed p) = pa_npoints p"
| "p_npoints (Dimensional p) = pa_npoints p"
| "p_npoints (Lazperf p) = pa_npoints p"

fun p_bounds :: "patch \<Rightarrow> PCBOUNDS" where
  "p_bounds (Uncompressed p) = pa_bounds p"
| "p_bounds (Dimensional p) = pa_bounds p"
| "p_bounds (Lazperf p) = pa_bounds p"

fun p_stats :: "patch \<Rightarrow> PCSTATS option" where
  "p_stats (Uncompressed p) = pa_stats p"
| "p_stats (Dimensional p) = pa_stats p"
| "p_stats (Lazperf p) = pa_stats p"

section \<open>Dispatch\<close>

text \<open>\<open>None\<close> for a null patch is the result \<open>PC_FAILURE\<close>.\<close>

definition pc_patch_compute_extent :: "zlib \<Rightarrow> lazperf option \<Rightarrow> patch option \<Rightarrow> patch option res" where
  "pc_patch_compute_extent z laz pa = (case pa of
       None \<Rightarrow> Inr None
     | Some (Uncompressed p) \<Rightarrow> bindE (pc_patch_uncompressed_compute_extent p) (\<lambda>p. Inr (Some (Uncompressed p)))
     | Some (Dimensional p) \<Rightarrow> bindE (pc_patch_dimensional_compute_extent z p) (\<lambda>p. Inr (Some (Dimensional p)))
     | Some (Lazperf p) \<Rightarrow> bindE (pc_patch_lazperf_compute_extent laz p) (\<lambda>p. Inr (Some (Lazperf p))))"

definition pc_patch_compute_stats :: "zlib \<Rightarrow> lazperf option \<Rightarrow> patch option \<Rightarrow> patch option res" where
  "pc_patch_compute_stats z laz pa = (case pa of
       None \<Rightarrow> Inr None
     | Some (Uncompressed p) \<Rightarrow> bindE (pc_patch_uncompressed_compute_stats p) (\<lambda>p. Inr (Some (Uncompressed p)))
     | Some (Dimensional p) \<Rightarrow> bindE (pc_patch_uncompressed_from_dimensional z p) (\<lambda>pu.
         bindE (pc_patch_uncompressed_compute_stats pu) (\<lambda>pu.
         Inr (Some (Dimensional (p\<lparr>pa_stats := pa_stats pu\<rparr>)))))
     | Some (Lazperf p) \<Rightarrow> bindE (pc_patch_uncompressed_from_lazperf laz p) (\<lambda>pu.
         bindE (pc_patch_uncompressed_compute_stats pu) (\<lambda>pu. bindE (pc_stats_clone (pa_stats pu)) (\<lambda>st.
         Inr (Some (Lazperf (p\<lparr>pa_stats := st\<rparr>)))))))"

definition pc_patch_from_pointlist :: "PCPOINTLIST option \<Rightarrow> patch res" where
  "pc_patch_from_pointlist ptl = bindE (pc_patch_uncompressed_from_pointlist ptl) (\<lambda>p. Inr (Uncompressed p))"

definition pc_patch_uncompress :: "zlib \<Rightarrow> lazperf option \<Rightarrow> patch \<Rightarrow> PCPATCH_UNCOMPRESSED res" where
  "pc_patch_uncompress z laz patch = (case patch of
       Dimensional p \<Rightarrow> pc_patch_uncompressed_from_dimensional z p
     | Uncompressed p \<Rightarrow> Inr p
     | Lazperf p \<Rightarrow> pc_patch_uncompressed_from_lazperf laz p)"

text \<open>The statistics of dimensions of the caller are the second component of the result.\<close>

definition pc_patch_compress ::
  "zlib \<Rightarrow> lazperf option \<Rightarrow> patch \<Rightarrow> PCDIMSTATS option \<Rightarrow> (patch \<times> PCDIMSTATS option) res" where
  "pc_patch_compress z laz patch userdata =
     (let schema_compression = sc_compression (p_schema patch) in
     if schema_compression = PC_DIMENSIONAL then (case patch of
         Uncompressed p \<Rightarrow> bindE (pc_patch_dimensional_from_uncompressed p) (\<lambda>d. case d of
             None \<Rightarrow> Inl (PcError ''pc_patch_compress: dimensional compression failed'')
           | Some pcdu \<Rightarrow> bindE (pc_patch_dimensional_compress z pcdu userdata) (\<lambda>(c, ds). Inr (Dimensional c, ds)))
       | Dimensional p \<Rightarrow> bindE (pc_patch_dimensional_compress z p userdata) (\<lambda>(c, ds). Inr (Dimensional c, ds))
       | Lazperf p \<Rightarrow> bindE (pc_patch_uncompressed_from_lazperf laz p) (\<lambda>pcu.
           bindE (pc_patch_dimensional_from_uncompressed pcu) (\<lambda>d. case d of
             None \<Rightarrow> Inl AssertFailed
           | Some pal \<Rightarrow> bindE (pc_patch_dimensional_compress z pal None) (\<lambda>(c, _). Inr (Dimensional c, userdata)))))
     else if schema_compression = PC_NONE then
       bindE (pc_patch_uncompress z laz patch) (\<lambda>p. Inr (Uncompressed p, userdata))
     else if schema_compression = PC_LAZPERF then (case patch of
         Uncompressed p \<Rightarrow> bindE (pc_patch_lazperf_from_uncompressed laz p) (\<lambda>l. Inr (Lazperf l, userdata))
       | Dimensional p \<Rightarrow> bindE (pc_patch_uncompressed_from_dimensional z p) (\<lambda>pad.
           bindE (pc_patch_lazperf_from_uncompressed laz pad) (\<lambda>l. Inr (Lazperf l, userdata)))
       | Lazperf p \<Rightarrow> Inr (Lazperf p, userdata))
     else Inl (PcError ''pc_patch_compress: unknown schema compression type %d''))"

definition pc_patch_from_wkb :: "zlib \<Rightarrow> lazperf option \<Rightarrow> PCSCHEMA \<Rightarrow> byte list \<Rightarrow> nat \<Rightarrow> patch res" where
  "pc_patch_from_wkb z laz s wkb wkbsize =
     (if wkbsize = 0 then Inl (PcError ''pc_patch_from_wkb: zero length wkb'')
      else bindE (pc_wkb_get_pcid wkb) (\<lambda>pcid. bindE (wkb_get_compression wkb) (\<lambda>compression.
        if unat pcid \<noteq> sc_pcid s
        then Inl (PcError ''pc_patch_from_wkb: wkb pcid (%d) not consistent with schema pcid (%d)'')
        else bindE (if compression = 0 then bindE (pc_patch_uncompressed_from_wkb s wkb wkbsize) (\<lambda>p. Inr (Uncompressed p))
                    else if compression = 1 then bindE (pc_patch_dimensional_from_wkb s wkb wkbsize) (\<lambda>p. Inr (Dimensional p))
                    else if compression = 2 then bindE (pc_patch_lazperf_from_wkb laz s wkb wkbsize) (\<lambda>p. Inr (Lazperf p))
                    else Inl (PcError ''pc_patch_from_wkb: unknown compression requested'')) (\<lambda>patch.
        bindE (pc_patch_compute_extent z laz (Some patch)) (\<lambda>r. case r of
            None \<Rightarrow> Inl (PcError ''pc_patch_from_wkb: pc_patch_compute_extent failed'')
          | Some patch \<Rightarrow> bindE (pc_patch_compute_stats z laz (Some patch)) (\<lambda>r. case r of
              None \<Rightarrow> Inl (PcError ''pc_patch_from_wkb: pc_patch_compute_stats failed'')
            | Some patch \<Rightarrow> Inr patch))))))"

definition pc_patch_to_wkb :: "lazperf option \<Rightarrow> patch \<Rightarrow> (byte list \<times> nat) res" where
  "pc_patch_to_wkb laz patch = (case patch of
       Uncompressed p \<Rightarrow> pc_patch_uncompressed_to_wkb p
     | Dimensional p \<Rightarrow> pc_patch_dimensional_to_wkb p
     | Lazperf p \<Rightarrow> pc_patch_lazperf_to_wkb laz p)"

definition pc_pointlist_from_patch :: "zlib \<Rightarrow> lazperf option \<Rightarrow> patch \<Rightarrow> PCPOINTLIST res" where
  "pc_pointlist_from_patch z laz patch = (case patch of
       Uncompressed p \<Rightarrow> pc_pointlist_from_uncompressed p
     | Dimensional p \<Rightarrow> pc_pointlist_from_dimensional z p
     | Lazperf p \<Rightarrow> pc_pointlist_from_lazperf laz p)"

section \<open>Patches from patches\<close>

definition count_step :: "PCSCHEMA \<Rightarrow> patch \<Rightarrow> nat \<Rightarrow> nat res" where
  "count_step schema pa totalpoints =
     (if sc_pcid schema \<noteq> sc_pcid (p_schema pa)
      then Inl (PcError ''pc_patch_from_patchlist: inconsistent schemas in input'')
      else Inr ((totalpoints + p_npoints pa) mod 2 ^ 32))"

text \<open>State: box, data, write position.\<close>

definition append_step ::
  "zlib \<Rightarrow> lazperf option \<Rightarrow> patch \<Rightarrow> PCBOUNDS \<times> byte list \<times> nat \<Rightarrow> (PCBOUNDS \<times> byte list \<times> nat) res" where
  "append_step z laz pa st = (case st of (bounds, data, buf) \<Rightarrow>
     let bounds = pc_bounds_merge bounds (p_bounds pa) in
     bindE (pc_patch_uncompress z laz pa) (\<lambda>pu.
     let sz = sc_size (pa_schema pu) * pa_npoints pu mod 2 ^ 64 in
     bindE (rd (pu_data pu) 0 sz) (\<lambda>d. bindE (wr data buf d) (\<lambda>data. Inr (bounds, data, buf + sz)))))"

definition pc_patch_from_patchlist :: "zlib \<Rightarrow> lazperf option \<Rightarrow> patch list \<Rightarrow> PCPATCH_UNCOMPRESSED res" where
  "pc_patch_from_patchlist z laz palist = (case palist of
       [] \<Rightarrow> Inl AssertFailed
     | pa # _ \<Rightarrow> let schema = p_schema pa in
         bindE (foldE (count_step schema) palist 0) (\<lambda>totalpoints.
         bindE (pc_patch_uncompressed_make (Some schema) totalpoints) (\<lambda>paout.
         bindE (foldE (append_step z laz) palist (pa_bounds paout, pu_data paout, 0)) (\<lambda>(bounds, data, _).
         pc_patch_uncompressed_compute_stats (paout\<lparr>pa_bounds := bounds, pu_data := data, pa_npoints := totalpoints\<rparr>)))))"

text \<open>The result of a computation with a \<open>uint32_t\<close>, kept in an \<open>int\<close>.\<close>

definition s32 :: "int \<Rightarrow> int" where
  "s32 i = sint (word_of_int i :: 32 word)"

definition pc_patch_range :: "zlib \<Rightarrow> lazperf option \<Rightarrow> patch \<Rightarrow> int \<Rightarrow> int \<Rightarrow> patch option res" where
  "pc_patch_range z laz pa first cnt =
     (let first = first - 1;
          countmax = s32 (int (p_npoints pa) - first);
          cnt = (if countmax < cnt then countmax else cnt) in
      if first < 0 \<or> cnt \<le> 0 then Inr None
      else if cnt = int (p_npoints pa) then Inr (Some pa)
      else bindE (pc_patch_uncompressed_make (Some (p_schema pa)) (nat cnt)) (\<lambda>paout.
           let paout = paout\<lparr>pa_npoints := nat cnt\<rparr> in
           bindE (pc_patch_uncompress z laz pa) (\<lambda>pu.
           let start = sc_size (p_schema pa) * nat first mod 2 ^ 64; sz = sc_size (p_schema pa) * nat cnt mod 2 ^ 64 in
           bindE (rd (pu_data pu) start sz) (\<lambda>d. bindE (wr (pu_data paout) 0 d) (\<lambda>data.
           bindE (pc_patch_uncompressed_compute_extent (paout\<lparr>pu_data := data\<rparr>)) (\<lambda>paout.
           bindE (pc_patch_uncompressed_compute_stats paout) (\<lambda>paout. Inr (Some (Uncompressed paout)))))))))"

definition pc_patch_pointn :: "zlib \<Rightarrow> lazperf option \<Rightarrow> patch option \<Rightarrow> int \<Rightarrow> PCPOINT option res" where
  "pc_patch_pointn z laz patch n = (case patch of None \<Rightarrow> Inr None
     | Some patch \<Rightarrow> let n = (if n < 0 then s32 (int (p_npoints patch) + n) else n - 1) in
         if n < 0 \<or> int (p_npoints patch) \<le> n then Inr None
         else bindE (case patch of
               Uncompressed p \<Rightarrow> pc_patch_uncompressed_pointn p n
             | Dimensional p \<Rightarrow> pc_patch_dimensional_pointn z p n
             | Lazperf p \<Rightarrow> pc_patch_lazperf_pointn laz p n) (\<lambda>pt. Inr (Some pt)))"

section \<open>Change of schema\<close>

text \<open>
  Pointers to points are the rest of the buffer from there on; a point that is written lies at an offset
  of a buffer. A dimension without a name is a null pointer that the lookup would follow.
\<close>

definition point_set_field ::
  "PCSCHEMA \<Rightarrow> byte list \<Rightarrow> PCDIMENSION option list \<Rightarrow> byte list \<Rightarrow> nat \<Rightarrow> nat \<Rightarrow> byte list \<Rightarrow> byte list res" where
  "point_set_field s data dims def off i buf = bindE (rdx dims i) (\<lambda>ddim. case deref s (sc_dims s ! i) of
       None \<Rightarrow> Inl OutOfBounds
     | Some pdim \<Rightarrow>
         bindE (case ddim of Some ddim \<Rightarrow> rd data (dim_byteoffset ddim) (dim_size pdim)
                | None \<Rightarrow> rd def (dim_byteoffset pdim) (dim_size pdim)) (\<lambda>v.
         wr buf (off + dim_byteoffset pdim) v))"

definition pc_patch_point_set ::
  "PCSCHEMA \<Rightarrow> byte list \<Rightarrow> PCDIMENSION option list \<Rightarrow> byte list \<Rightarrow> nat \<Rightarrow> byte list \<Rightarrow> byte list res" where
  "pc_patch_point_set s data dims def off buf = foldE (point_set_field s data dims def off) [0..<sc_ndims s] buf"

definition old_dimension :: "PCSCHEMA \<Rightarrow> PCSCHEMA \<Rightarrow> nat \<Rightarrow> PCDIMENSION option res" where
  "old_dimension old_schema new_schema j = (case deref new_schema (sc_dims new_schema ! j) of
       None \<Rightarrow> Inl OutOfBounds
     | Some ndim \<Rightarrow> (case dim_name ndim of None \<Rightarrow> Inl OutOfBounds
         | Some name \<Rightarrow> Inr (pc_schema_get_dimension_by_name old_schema name)))"

text \<open>State of the loop: the point of the defaults, and the old dimensions found so far.\<close>

definition default_step ::
  "PCSCHEMA \<Rightarrow> PCSCHEMA \<Rightarrow> double \<Rightarrow> nat \<Rightarrow> PCPOINT \<times> PCDIMENSION option list \<Rightarrow> (PCPOINT \<times> PCDIMENSION option list) res" where
  "default_step old_schema new_schema def j st = (case st of (dpt, odims) \<Rightarrow>
     let ndim = deref new_schema (sc_dims new_schema ! j) in
     bindE (old_dimension old_schema new_schema j) (\<lambda>odim.
     bindE (case odim of
              Some odim \<Rightarrow> if map_option dim_interpretation ndim \<noteq> Some (dim_interpretation odim)
                then Inl (PcError ''dimension interpretations are not matching'') else Inr dpt
            | None \<Rightarrow> set_or_keep dpt ndim def) (\<lambda>dpt.
     Inr (dpt, odims @ [odim]))))"

text \<open>\<open>get_into get d\<close>: a getter that writes its value over \<open>d\<close>, and leaves it when the dimension is missing.\<close>

definition get_into :: "double option res \<Rightarrow> double \<Rightarrow> double res" where
  "get_into get d = bindE get (\<lambda>r. Inr (case r of None \<Rightarrow> d | Some v \<Rightarrow> v))"

definition set_schema_stats ::
  "PCSCHEMA \<Rightarrow> PCDIMENSION option list \<Rightarrow> byte list \<Rightarrow> PCSTATS \<Rightarrow> PCPATCH_UNCOMPRESSED \<Rightarrow> PCPATCH_UNCOMPRESSED res" where
  "set_schema_stats new_schema odims def stats paout =
     (let st = pc_stats_new new_schema; b = pa_bounds paout;
          set = (\<lambda>to from. bindE (pc_patch_point_set new_schema (pt_data from) odims def 0 (pt_data to)) (\<lambda>d.
                   Inr (to\<lparr>pt_data := d\<rparr>))) in
     bindE (set (st_min st) (st_min stats)) (\<lambda>mn. bindE (set (st_max st) (st_max stats)) (\<lambda>mx.
     bindE (set (st_avg st) (st_avg stats)) (\<lambda>av.
     bindE (get_into (pc_point_get_x mn) (b_xmin b)) (\<lambda>xmin. bindE (get_into (pc_point_get_y mn) (b_ymin b)) (\<lambda>ymin.
     bindE (get_into (pc_point_get_x mx) (b_xmax b)) (\<lambda>xmax. bindE (get_into (pc_point_get_y mx) (b_ymax b)) (\<lambda>ymax.
     Inr (paout\<lparr>pa_stats := Some \<lparr>st_min = mn, st_max = mx, st_avg = av\<rparr>,
                pa_bounds := \<lparr>b_xmin = xmin, b_xmax = xmax, b_ymin = ymin, b_ymax = ymax\<rparr>\<rparr>)))))))))"

text \<open>Without statistics the box is computed from the old box; the last assignment is to \<open>xmax\<close>, as in the code.\<close>

definition set_schema_bounds :: "PCSCHEMA \<Rightarrow> PCSCHEMA \<Rightarrow> PCBOUNDS \<Rightarrow> PCBOUNDS \<Rightarrow> PCBOUNDS res" where
  "set_schema_bounds old_schema new_schema b bounds =
     (case (deref new_schema (sc_xdim new_schema), deref old_schema (sc_xdim old_schema),
            deref new_schema (sc_ydim new_schema), deref old_schema (sc_ydim old_schema)) of
       (Some nx, Some ox, Some ny, Some oy) \<Rightarrow>
         let xscale = d_div (dim_scale nx) (dim_scale ox); yscale = d_div (dim_scale ny) (dim_scale oy);
             xoffset = d_sub (dim_offset nx) (dim_offset ox); yoffset = d_sub (dim_offset ny) (dim_offset oy);
             bounds = bounds\<lparr>b_xmin := d_add (d_mul (b_xmin b) xscale) xoffset\<rparr>;
             bounds = bounds\<lparr>b_xmax := d_add (d_mul (b_xmax b) xscale) xoffset\<rparr>;
             bounds = bounds\<lparr>b_ymin := d_add (d_mul (b_ymin b) yscale) yoffset\<rparr>;
             bounds = bounds\<lparr>b_xmax := d_add (d_mul (b_ymax b) yscale) yoffset\<rparr>
         in Inr bounds
     | _ \<Rightarrow> Inl OutOfBounds)"

definition pc_patch_set_schema :: "zlib \<Rightarrow> lazperf option \<Rightarrow> patch \<Rightarrow> PCSCHEMA \<Rightarrow> double \<Rightarrow> PCPATCH_UNCOMPRESSED res" where
  "pc_patch_set_schema z laz patch new_schema def =
     (let old_schema = p_schema patch in
     bindE (pc_point_make (Some new_schema)) (\<lambda>dpt.
     bindE (foldE (default_step old_schema new_schema def) [0..<sc_ndims new_schema] (dpt, [])) (\<lambda>(dpt, odims).
     bindE (pc_patch_uncompress z laz patch) (\<lambda>pain.
     bindE (pc_patch_uncompressed_make (Some new_schema) (p_npoints patch)) (\<lambda>paout.
     bindE (foldE (\<lambda>i. pc_patch_point_set new_schema (drop (i * sc_size old_schema) (pu_data pain)) odims (pt_data dpt)
                     (i * sc_size new_schema))
              [0..<p_npoints patch] (pu_data paout)) (\<lambda>data.
     let paout = paout\<lparr>pa_npoints := pa_npoints pain, pu_data := data\<rparr> in
     case p_stats patch of
       Some stats \<Rightarrow> set_schema_stats new_schema odims (pt_data dpt) stats paout
     | None \<Rightarrow> bindE (set_schema_bounds old_schema new_schema (p_bounds patch) (pa_bounds paout)) (\<lambda>b.
         Inr (paout\<lparr>pa_bounds := b\<rparr>))))))))"

definition transform_field ::
  "PCSCHEMA \<Rightarrow> PCSCHEMA \<Rightarrow> PCDIMENSION option list \<Rightarrow> double \<Rightarrow> byte list \<Rightarrow> nat \<Rightarrow> nat \<Rightarrow> byte list \<Rightarrow> byte list res" where
  "transform_field old_schema new_schema odims def data off j buf =
     bindE (rdx odims j) (\<lambda>odim.
     bindE (get_into (pc_point_get_double \<lparr>pt_readonly = PC_TRUE, pt_schema = old_schema, pt_data = data\<rparr> odim) def) (\<lambda>v.
     bindE (set_or_keep \<lparr>pt_readonly = PC_TRUE, pt_schema = new_schema, pt_data = drop off buf\<rparr>
              (deref new_schema (sc_dims new_schema ! j)) v) (\<lambda>npt.
     Inr (take off buf @ pt_data npt))))"

text \<open>Schemas of different reference systems: a warning, and a null pointer.\<close>

definition pc_patch_transform ::
  "zlib \<Rightarrow> lazperf option \<Rightarrow> patch \<Rightarrow> PCSCHEMA \<Rightarrow> double \<Rightarrow> PCPATCH_UNCOMPRESSED option res" where
  "pc_patch_transform z laz patch new_schema def =
     (let old_schema = p_schema patch in
     if sc_srid old_schema \<noteq> sc_srid new_schema then Inr None
     else bindE (mapE (old_dimension old_schema new_schema) [0..<sc_ndims new_schema]) (\<lambda>odims.
          bindE (pc_patch_uncompress z laz patch) (\<lambda>pain.
          bindE (pc_patch_uncompressed_make (Some new_schema) (p_npoints patch)) (\<lambda>paout.
          bindE (foldE (\<lambda>i buf. foldE (transform_field old_schema new_schema odims def
                                      (drop (i * sc_size old_schema) (pu_data pain)) (i * sc_size new_schema))
                                [0..<sc_ndims new_schema] buf)
                   [0..<p_npoints patch] (pu_data paout)) (\<lambda>data.
          bindE (pc_patch_uncompressed_compute_extent (paout\<lparr>pa_npoints := pa_npoints pain, pu_data := data\<rparr>)) (\<lambda>paout.
          bindE (pc_patch_uncompressed_compute_stats paout) (\<lambda>paout. Inr (Some paout))))))))"

section \<open>Patches as lists of points\<close>

text \<open>
  The abstraction: a patch of any representation holds a list of points, each given by its bytes in the
  layout of the schema.
\<close>

fun patch_holds :: "zlib \<Rightarrow> lazperf option \<Rightarrow> patch \<Rightarrow> byte list list \<Rightarrow> bool" where
  "patch_holds z laz (Uncompressed p) ws = (patch_ok p \<and> pts p = ws \<and> points_ok (pa_schema p) ws \<and>
     stats_ok (pa_schema p) (pa_stats p))"
| "patch_holds z laz (Dimensional p) ws = dim_holds z p ws"
| "patch_holds z laz (Lazperf p) ws = laz_holds laz p ws"

lemma holds_points:
  assumes "patch_holds z laz pa ws"
  shows "points_ok (p_schema pa) ws" "p_npoints pa = length ws" "stats_ok (p_schema pa) (p_stats pa)"
  using assms by (cases pa; auto simp: dim_holds_def laz_holds_def)+

lemma uncompress_ok:
  assumes "patch_holds z laz pa ws"
  shows "\<exists>p. pc_patch_uncompress z laz pa = Inr p \<and> patch_holds z laz (Uncompressed p) ws \<and> pa_schema p = p_schema pa \<and>
    pa_bounds p = p_bounds pa \<and> own (pa_stats p) = own (p_stats pa) \<and> pa_npoints p = length ws"
proof -
  have ok: "points_ok (p_schema pa) ws" "p_npoints pa = length ws" "stats_ok (p_schema pa) (p_stats pa)"
    using holds_points [OF assms] by blast+
  show ?thesis
  proof (cases pa)
    case (Uncompressed p)
    then show ?thesis using assms ok by (simp add: pc_patch_uncompress_def)
  next
    case (Dimensional p)
    then show ?thesis using assms ok uncompressed_from_dimensional_eq [of z p ws]
      by (simp add: pc_patch_uncompress_def) (simp add: as_uncompressed_def)
  next
    case (Lazperf p)
    then show ?thesis using assms ok uncompressed_from_lazperf_eq [of laz p ws] as_uncompressed_ok [of p ws]
      by (simp add: pc_patch_uncompress_def) (simp add: as_uncompressed_def)
  qed
qed

lemma holds_data:
  assumes "patch_holds z laz (Uncompressed p) ws"
  shows "take (length ws * sc_size (pa_schema p)) (pu_data p) = concat ws"
    "length ws * sc_size (pa_schema p) \<le> length (pu_data p)" "pa_npoints p = length ws"
proof -
  have p: "patch_ok p" "pts p = ws" using assms by simp_all
  show n: "pa_npoints p = length ws" using length_pts [of p] p(2) by simp
  show l: "length ws * sc_size (pa_schema p) \<le> length (pu_data p)" using patch_room [OF p(1)] n by simp
  show "take (length ws * sc_size (pa_schema p)) (pu_data p) = concat ws"
    using concat_elems [OF l] p(2) n by (simp add: pts_def)
qed

lemma data_at:
  assumes "patch_holds z laz (Uncompressed p) ws" "i < length ws"
  shows "\<exists>rest. drop (i * sc_size (pa_schema p)) (pu_data p) = ws ! i @ rest" "length (ws ! i) = sc_size (pa_schema p)"
  using pts_at [of p i] assms holds_data(3) [OF assms(1)] by auto

lemma length_concat_points: "points_ok s ws \<Longrightarrow> length (concat ws) = length ws * sc_size s"
  using length_concat_const [of ws "sc_size s"] by (simp add: points_ok_def widths_def)

definition stats_of :: "PCSCHEMA \<Rightarrow> byte list list \<Rightarrow> PCSTATS res" where
  "stats_of s ws = pc_stats_new_from_dstats s \<lparr>dss_npoints = length ws, dss_dims = dim_stats s ws\<rparr>"

lemma compute_stats_of:
  assumes "patch_ok p" "pts p = ws"
  shows "pc_patch_uncompressed_compute_stats p = bindE (stats_of (pa_schema p) ws) (\<lambda>st. Inr (p\<lparr>pa_stats := Some st\<rparr>))"
proof -
  have "pa_npoints p = length ws" using length_pts [of p] assms(2) by simp
  then show ?thesis using compute_stats_eq [OF assms(1)] assms(2) by (simp add: stats_of_def)
qed

text \<open>Statistics, when there are any, are points of the schema.\<close>

lemma keep_ok:
  assumes "point_ok pt \<and> pt_schema pt = s \<and> pt_readonly pt = PC_FALSE" "i < sc_ndims s"
    "set_or_keep pt (Some (sdim s i)) v = Inr pt'"
  shows "point_ok pt' \<and> pt_schema pt' = s \<and> pt_readonly pt' = PC_FALSE"
proof -
  obtain r where r: "pc_point_set_double pt (Some (sdim s i)) v = Inr r"
    "pt' = (case r of None \<Rightarrow> pt | Some pt \<Rightarrow> pt)"
    using assms(3) by (auto simp: set_or_keep_def bindE_eq_Inr)
  show ?thesis
  proof (cases r)
    case (Some p)
    have "pt_readonly p = pt_readonly pt" using r(1) Some by (auto simp: pc_point_set_double_def Let_def bindE_eq_Inr)
    then show ?thesis using set_double_fields(1,2) [of pt i v p] r Some assms(1,2) by simp
  qed (use r assms in simp)
qed

lemma stats_of_facts:
  assumes s: "schema_ready s" and st: "stats_of s ws = Inr st"
  shows "stats_ok s (Some st)" "own_stats st = st"
proof -
  define Q where "Q pt = (point_ok pt \<and> pt_schema pt = s \<and> pt_readonly pt = PC_FALSE)" for pt :: PCPOINT
  have keep: "Q pt \<Longrightarrow> i < sc_ndims s \<Longrightarrow> set_or_keep pt (Some (sdim s i)) v = Inr pt' \<Longrightarrow> Q pt'" for pt i v pt'
    using keep_ok unfolding Q_def by blast
  let ?I = "\<lambda>st. Q (st_min st) \<and> Q (st_max st) \<and> Q (st_avg st)"
  have "?I st"
    using st [unfolded stats_of_def pc_stats_new_from_dstats_def]
  proof (rule foldE_invariant)
    show "?I (pc_stats_new s)" using s by (simp add: pc_stats_new_def point_ok_def Let_def Q_def)
    fix i a b
    assume i: "i \<in> set [0..<sc_ndims s]" and a: "?I a"
      and b: "bindE (rdx (dss_dims \<lparr>dss_npoints = length ws, dss_dims = dim_stats s ws\<rparr>) i) (\<lambda>d.
         let dim = deref s (sc_dims s ! i) in
         bindE (set_or_keep (st_min a) dim (ds_min d)) (\<lambda>mn.
         bindE (set_or_keep (st_max a) dim (ds_max d)) (\<lambda>mx.
         bindE (set_or_keep (st_avg a) dim (d_div (ds_sum d) (d_of_int (int (dss_npoints \<lparr>dss_npoints = length ws, dss_dims = dim_stats s ws\<rparr>))))) (\<lambda>av.
         Inr \<lparr>st_min = mn, st_max = mx, st_avg = av\<rparr>)))) = Inr b"
    have i': "i < sc_ndims s" using i by simp
    from b obtain d :: PCDOUBLESTAT and mn mx av where r: "set_or_keep (st_min a) (Some (sdim s i)) (ds_min d) = Inr mn"
      "set_or_keep (st_max a) (Some (sdim s i)) (ds_max d) = Inr mx"
      "set_or_keep (st_avg a) (Some (sdim s i)) (d_div (ds_sum d) (d_of_int (int (length ws)))) = Inr av"
      and e: "b = \<lparr>st_min = mn, st_max = mx, st_avg = av\<rparr>"
      using ready_dims(2) [OF s i'] by (auto simp: bindE_eq_Inr Let_def)
    show "?I b" using keep [OF _ i' r(1)] keep [OF _ i' r(2)] keep [OF _ i' r(3)] a by (simp add: e)
  qed
  then show "stats_ok s (Some st)" "own_stats st = st" by (auto simp: stats_ok_def point_ok_def Q_def own_stats_def)
qed

lemmas stats_of_ok = stats_of_facts(1)
lemmas stats_of_own = stats_of_facts(2)

section \<open>Boxes of several patches\<close>

lemma merge_assoc:
  assumes "box_ok a" "box_ok b" "box_ok c"
  shows "pc_bounds_merge (pc_bounds_merge a b) c = pc_bounds_merge a (pc_bounds_merge b c)"
  by (rule PCBOUNDS.equality; simp add: merge_fields; use assms in \<open>auto simp: box_ok_def lt_iff\<close>)

text \<open>An empty extent is the initial box; the extent of more points lies in it.\<close>

lemma extent_append:
  assumes "\<forall>w \<in> set (ws @ vs). \<not> d_isnan (pval s ix w) \<and> \<not> d_isnan (pval s iy w)"
  shows "pc_bounds_merge (extent s ix iy ws) (extent s ix iy vs) = extent s ix iy (ws @ vs)"
  using assms
proof (induction vs rule: rev_induct)
  case Nil
  have "box_le pc_bounds_init (extent s ix iy ws)"
  proof -
    have "box_ok (extent s ix iy ws)" "box_le (extent s ix iy ws) (extent s ix iy ws) \<longleftrightarrow> box_le pc_bounds_init (extent s ix iy ws) \<and>
        (\<forall>w \<in> set ws. box_le (at_xy (pval s ix w) (pval s iy w)) (extent s ix iy ws))"
      using extent_least [of ws s ix iy "extent s ix iy ws"] extent_least [of ws s ix iy pc_bounds_init] init_ok Nil by auto
    moreover have "box_le b b" for b by (simp add: box_le_def d_lt_irrefl)
    ultimately show ?thesis by blast
  qed
  then show ?case by (intro PCBOUNDS.equality) (auto simp: merge_fields box_le_def extent_def)
next
  case (snoc w vs)
  let ?w = "at_xy (pval s ix w) (pval s iy w)"
  have ok: "box_ok (extent s ix iy us)" if "set us \<subseteq> set (ws @ vs)" for us
    using extent_least [of us s ix iy pc_bounds_init] that snoc.prems init_ok by auto
  have w: "box_ok ?w" using snoc.prems by (simp add: box_ok_def at_xy_def)
  have add: "bounds_add (pval s ix w) (pval s iy w) b = pc_bounds_merge b ?w" for b
    by (simp add: add_is_merge at_xy_def)
  have "extent s ix iy (vs @ [w]) = pc_bounds_merge (extent s ix iy vs) ?w" by (simp only: extent_snoc add)
  moreover have "extent s ix iy (ws @ vs @ [w]) = pc_bounds_merge (extent s ix iy (ws @ vs)) ?w"
    using extent_snoc [of s ix iy "ws @ vs" w] add by simp
  moreover have "pc_bounds_merge (extent s ix iy ws) (extent s ix iy vs) = extent s ix iy (ws @ vs)"
    using snoc by simp
  ultimately show ?case using merge_assoc [OF ok ok w, of ws vs] by simp
qed

section \<open>Values as they are stored\<close>

text \<open>The bytes that \<open>pc_double_to_ptr\<close> writes do not depend on the place.\<close>

definition stored :: "nat \<Rightarrow> double \<Rightarrow> byte list res" where
  "stored t v = pc_double_to_ptr (pcalloc (isize t)) 0 t v"

lemma to_ptr_stored:
  assumes "known_interp t" "off + isize t \<le> length buf"
  shows "pc_double_to_ptr buf off t v = bindE (stored t v) (wr buf off)"
  using assms(1)
proof (cases rule: known_interp_cases)
qed (use assms(2) in \<open>simp_all add: stored_def pc_double_to_ptr_def bindE_assoc wr_def word_size_def cong: bindE_cong\<close>)

lemma stored_length:
  assumes "known_interp t" "stored t v = Inr b"
  shows "length b = isize t"
  using assms wr_length double_to_ptr_writes [OF assms(1)] unfolding stored_def by fastforce

lemma set_stored:
  assumes s: "schema_ready s" "j < sc_ndims s" and off: "o' + sc_size s \<le> length buf"
    and b: "stored (dim_interpretation (sdim s j)) (pc_value_unscale_unoffset v (sdim s j)) = Inr b"
  shows "\<exists>d. pc_point_set_double \<lparr>pt_readonly = r, pt_schema = s', pt_data = drop o' buf\<rparr> (Some (sdim s j)) v =
      Inr (Some \<lparr>pt_readonly = r, pt_schema = s', pt_data = d\<rparr>) \<and>
    Inr (take o' buf @ d) = wr buf (o' + dim_byteoffset (sdim s j)) b"
proof -
  let ?d = "sdim s j"
  note l = stored_length [OF ready_dims(3) [OF s] b]
  have le: "dim_byteoffset ?d + isize (dim_interpretation ?d) \<le> sc_size s"
    using ready_inside [OF s] ready_layout(1) [OF s] by simp
  have "pc_double_to_ptr (drop o' buf) (dim_byteoffset ?d) (dim_interpretation ?d) (pc_value_unscale_unoffset v ?d) =
      wr (drop o' buf) (dim_byteoffset ?d) b"
    using to_ptr_stored [OF ready_dims(3) [OF s]] le off b by simp
  also have "\<dots> = Inr (take (dim_byteoffset ?d) (drop o' buf) @ b @ drop (dim_byteoffset ?d + length b) (drop o' buf))"
    using le off l by (simp add: wr_def)
  finally show ?thesis using le off l
    by (simp add: pc_point_set_double_def wr_def take_add) (simp add: ac_simps)
qed

lemma keep_stored:
  assumes "point_ok pt" "pt_schema pt = s" "j < sc_ndims s"
    and "stored (dim_interpretation (sdim s j)) (pc_value_unscale_unoffset v (sdim s j)) = Inr b"
  shows "\<exists>d. set_or_keep pt (Some (sdim s j)) v = Inr (pt\<lparr>pt_data := d\<rparr>) \<and>
    wr (pt_data pt) (dim_byteoffset (sdim s j)) b = Inr d"
  using set_stored [of s j 0 "pt_data pt" v b "pt_readonly pt" "pt_schema pt"] assms
  by (cases pt) (auto simp: set_or_keep_def point_ok_def)

text \<open>The statistics can be stored: only values that no integer type holds, such as a NaN, cannot.\<close>

definition stats_defined :: "PCSCHEMA \<Rightarrow> byte list list \<Rightarrow> bool" where
  "stats_defined s ws = (\<forall>j < sc_ndims s. let d = dim_stat s j ws; t = dim_interpretation (sdim s j) in
     \<not> isl (stored t (pc_value_unscale_unoffset (ds_min d) (sdim s j))) \<and>
     \<not> isl (stored t (pc_value_unscale_unoffset (ds_max d) (sdim s j))) \<and>
     \<not> isl (stored t (pc_value_unscale_unoffset (d_div (ds_sum d) (d_of_int (int (length ws)))) (sdim s j))))"

lemma keep_total:
  assumes "point_ok pt" "pt_schema pt = s" "j < sc_ndims s"
    and "\<not> isl (stored (dim_interpretation (sdim s j)) (pc_value_unscale_unoffset v (sdim s j)))"
  shows "\<exists>pt'. set_or_keep pt (Some (sdim s j)) v = Inr pt' \<and> point_ok pt' \<and> pt_schema pt' = s"
proof -
  obtain b where b: "stored (dim_interpretation (sdim s j)) (pc_value_unscale_unoffset v (sdim s j)) = Inr b"
    using assms(4) by (cases "stored (dim_interpretation (sdim s j)) (pc_value_unscale_unoffset v (sdim s j))") auto
  from keep_stored [OF assms(1-3) b] obtain d where d: "set_or_keep pt (Some (sdim s j)) v = Inr (pt\<lparr>pt_data := d\<rparr>)"
    "wr (pt_data pt) (dim_byteoffset (sdim s j)) b = Inr d" by blast
  then show ?thesis using assms(1,2) wr_length [OF d(2)] by (simp add: point_ok_def)
qed

lemma stats_of_total:
  assumes s: "schema_ready s" and def: "stats_defined s ws"
  shows "\<exists>st. stats_of s ws = Inr st"
proof -
  define Q where "Q pt = (point_ok pt \<and> pt_schema pt = s)" for pt :: PCPOINT
  let ?ds = "\<lparr>dss_npoints = length ws, dss_dims = dim_stats s ws\<rparr>"
  let ?f = "\<lambda>i stats. bindE (rdx (dss_dims ?ds) i) (\<lambda>d.
         let dim = deref s (sc_dims s ! i) in
         bindE (set_or_keep (st_min stats) dim (ds_min d)) (\<lambda>mn.
         bindE (set_or_keep (st_max stats) dim (ds_max d)) (\<lambda>mx.
         bindE (set_or_keep (st_avg stats) dim (d_div (ds_sum d) (d_of_int (int (dss_npoints ?ds))))) (\<lambda>av.
         Inr \<lparr>st_min = mn, st_max = mx, st_avg = av\<rparr>))))"
  have "\<exists>st. foldE ?f [0..<n] (pc_stats_new s) = Inr st \<and> Q (st_min st) \<and> Q (st_max st) \<and> Q (st_avg st)"
    if "n \<le> sc_ndims s" for n
    using that
  proof (induction n)
    case 0
    show ?case using s by (simp add: pc_stats_new_def Q_def point_ok_def Let_def)
  next
    case (Suc n)
    then obtain st where st: "foldE ?f [0..<n] (pc_stats_new s) = Inr st" "Q (st_min st)" "Q (st_max st)" "Q (st_avg st)"
      by auto
    have n: "n < sc_ndims s" using Suc.prems by simp
    have keep: "\<exists>pt'. set_or_keep pt (Some (sdim s n)) v = Inr pt' \<and> Q pt'"
      if "Q pt" "\<not> isl (stored (dim_interpretation (sdim s n)) (pc_value_unscale_unoffset v (sdim s n)))" for pt v
      using keep_total [of pt s n v] that n unfolding Q_def by blast
    let ?d = "dim_stat s n ws"
    have d: "rdx (dim_stats s ws) n = Inr ?d" using n by (simp add: rdx_def dim_stats_def)
    obtain mn mx av where "set_or_keep (st_min st) (Some (sdim s n)) (ds_min ?d) = Inr mn" "Q mn"
      "set_or_keep (st_max st) (Some (sdim s n)) (ds_max ?d) = Inr mx" "Q mx"
      "set_or_keep (st_avg st) (Some (sdim s n)) (d_div (ds_sum ?d) (d_of_int (int (length ws)))) = Inr av" "Q av"
      using keep [OF st(2)] keep [OF st(3)] keep [OF st(4)] def n unfolding stats_defined_def Let_def by metis
    then have "?f n st = Inr \<lparr>st_min = mn, st_max = mx, st_avg = av\<rparr>" "Q mn" "Q mx" "Q av"
      using ready_dims(2) [OF s n] by (simp_all add: d)
    then show ?case by (simp only: foldE_upt_Suc st(1) bindE_Inr) simp
  qed
  from this [of "sc_ndims s"] show ?thesis
    unfolding stats_of_def pc_stats_new_from_dstats_def by blast
qed



section \<open>Patches of several patches\<close>

definition holds_all :: "zlib \<Rightarrow> lazperf option \<Rightarrow> PCSCHEMA \<Rightarrow> patch list \<Rightarrow> byte list list list \<Rightarrow> bool" where
  "holds_all z laz s pas wss = list_all2 (\<lambda>pa ws. patch_holds z laz pa ws \<and> p_schema pa = s) pas wss"

lemma count_steps:
  assumes "holds_all z laz s pas wss" "n + length (concat wss) < 2 ^ 32"
  shows "foldE (count_step s) pas n = Inr (n + length (concat wss))"
  using assms unfolding holds_all_def
proof (induction arbitrary: n rule: list_all2_induct)
  case (Cons pa pas ws wss)
  have "p_npoints pa = length ws" "p_schema pa = s" using Cons.hyps(1) holds_points(2) by auto
  then show ?case using Cons.prems Cons.IH [of "n + length ws"] by (simp add: count_step_def ac_simps)
qed simp

lemma append_step_eq:
  assumes "patch_holds z laz pa ws" "p_schema pa = s"
  shows "append_step z laz pa (b, pre @ replicate (length (concat ws) + k) 0, length pre) =
    Inr (pc_bounds_merge b (p_bounds pa), (pre @ concat ws) @ replicate k 0, length (pre @ concat ws))"
proof -
  obtain p where p: "pc_patch_uncompress z laz pa = Inr p" "patch_holds z laz (Uncompressed p) ws" "pa_schema p = s"
    "pa_npoints p = length ws"
    using uncompress_ok [OF assms(1)] assms(2) by auto
  have ok: "points_ok s ws" using p(2,3) by simp
  note d = holds_data [OF p(2)] length_concat_points [OF ok] points_size [OF ok]
  have "rd (pu_data p) 0 (length ws * sc_size s) = Inr (concat ws)" using d p(3) by (simp add: rd_def)
  moreover have "wr (pre @ replicate (length (concat ws)) 0 @ replicate k 0) (length pre) (concat ws) =
      Inr (pre @ concat ws @ replicate k 0)"
    by (rule wr_mid) simp_all
  ultimately show ?thesis using p d
    by (simp add: append_step_def replicate_add)
qed

lemma append_steps:
  assumes "holds_all z laz s pas wss"
  shows "foldE (append_step z laz) pas (b, pre @ replicate (length (concat (concat wss))) 0, length pre) =
    Inr (fold (\<lambda>pa b. pc_bounds_merge b (p_bounds pa)) pas b, pre @ concat (concat wss), length (pre @ concat (concat wss)))"
  using assms unfolding holds_all_def
proof (induction arbitrary: b pre rule: list_all2_induct)
  case (Cons pa pas ws wss)
  from append_step_eq [OF conjunct1 [OF Cons.hyps(1)] conjunct2 [OF Cons.hyps(1)], of b pre "length (concat (concat wss))"]
  show ?case using Cons.IH [of "pc_bounds_merge b (p_bounds pa)" "pre @ concat ws"] by simp
qed simp

text \<open>The box of patches whose boxes are the extents of their points is the extent of all the points.\<close>

lemma merged_extent:
  assumes "holds_all z laz s pas wss" "\<forall>i < length pas. p_bounds (pas ! i) = extent s ix iy (wss ! i)"
    and "\<forall>w \<in> set (vs @ concat wss). \<not> d_isnan (pval s ix w) \<and> \<not> d_isnan (pval s iy w)"
  shows "fold (\<lambda>pa b. pc_bounds_merge b (p_bounds pa)) pas (extent s ix iy vs) = extent s ix iy (vs @ concat wss)"
  using assms unfolding holds_all_def
proof (induction arbitrary: vs rule: list_all2_induct)
  case (Cons pa pas ws wss)
  have "p_bounds pa = extent s ix iy ws" using Cons.prems(1) by (auto dest: spec [of _ 0])
  moreover have "\<forall>i < length pas. p_bounds (pas ! i) = extent s ix iy (wss ! i)" using Cons.prems(1) by (auto dest: spec [of _ "Suc _"])
  moreover have "pc_bounds_merge (extent s ix iy vs) (extent s ix iy ws) = extent s ix iy (vs @ ws)"
    by (rule extent_append) (use Cons.prems(2) in auto)
  ultimately show ?case using Cons.IH [of "vs @ ws"] Cons.prems(2) unfolding fold_simps comp_apply by simp
qed simp

lemma make_eq:
  assumes "schema_ready s" "0 < sc_size s" "n < 2 ^ 32"
  shows "pc_patch_uncompressed_make (Some s) n = Inr \<lparr>pa_type = PC_NONE, pa_readonly = PC_FALSE, pa_schema = s,
    pa_npoints = 0, pa_bounds = pc_bounds_init, pa_stats = None, pu_maxpoints = n, pu_datasize = n * sc_size s,
    pu_data = replicate (n * sc_size s) 0\<rparr>"
  using datasize_fits [OF assms(1,3)] assms(2) by (simp add: pc_patch_uncompressed_make_def pcalloc_def Let_def)

lemma patch_of_holds:
  assumes "points_ok s ws" "stats_ok s st"
  shows "patch_holds z laz (Uncompressed ((patch_of s ix iy ws)\<lparr>pa_bounds := b, pa_stats := st\<rparr>)) ws"
proof -
  have "schema_ready s" "widths s ws" "length ws < 2 ^ 32" using assms(1) by (simp_all add: points_ok_def)
  note ok = patch_of_ok [OF this, of ix iy]
  show ?thesis using ok assms by (simp add: patch_ok_def pts_def) (simp add: patch_of_def)
qed

text \<open>A patch with points, with the statistics computed for it.\<close>

lemma with_stats:
  assumes ok: "points_ok s ws" and def: "stats_defined s ws"
  shows "\<exists>st. stats_of s ws = Inr st \<and>
    pc_patch_uncompressed_compute_stats ((patch_of s ix iy ws)\<lparr>pa_bounds := b\<rparr>) =
      Inr ((patch_of s ix iy ws)\<lparr>pa_bounds := b, pa_stats := Some st\<rparr>) \<and>
    patch_holds z laz (Uncompressed ((patch_of s ix iy ws)\<lparr>pa_bounds := b, pa_stats := Some st\<rparr>)) ws"
proof -
  have s: "schema_ready s" using ok by (simp add: points_ok_def)
  obtain st where st: "stats_of s ws = Inr st" using stats_of_total [OF s def] by blast
  have "patch_ok ((patch_of s ix iy ws)\<lparr>pa_bounds := b\<rparr>)" "pts ((patch_of s ix iy ws)\<lparr>pa_bounds := b\<rparr>) = ws"
    using patch_of_holds [OF ok, where st = None and b = b] by (simp_all add: stats_ok_def patch_ok_def pts_def)
  from compute_stats_of [OF this] st have "pc_patch_uncompressed_compute_stats ((patch_of s ix iy ws)\<lparr>pa_bounds := b\<rparr>) =
      Inr ((patch_of s ix iy ws)\<lparr>pa_bounds := b, pa_stats := Some st\<rparr>)" by (simp add: patch_of_def)
  then show ?thesis using st patch_of_holds [OF ok stats_of_ok [OF s st]] by blast
qed

lemma holds_all_points:
  assumes h: "holds_all z laz s pas wss" "pas \<noteq> []" and n: "length (concat wss) < 2 ^ 26"
  shows "points_ok s (concat wss)"
proof -
  have pt: "points_ok s ws" if w: "ws \<in> set wss" for ws
  proof -
    obtain i where i: "i < length wss" "ws = wss ! i" using w by (metis in_set_conv_nth)
    have "patch_holds z laz (pas ! i) (wss ! i) \<and> p_schema (pas ! i) = s"
      by (rule list_all2_nthD2 [OF h(1) [unfolded holds_all_def] i(1)])
    then show ?thesis using holds_points(1) i(2) by blast
  qed
  have "wss \<noteq> []" using h by (auto simp: holds_all_def)
  then show ?thesis using pt pt [OF hd_in_set] n by (fastforce simp: points_ok_def widths_def)
qed

lemma from_patchlist_eq:
  assumes h: "holds_all z laz s pas wss" "pas \<noteq> []" and s: "0 < sc_size s"
    and n: "length (concat wss) < 2 ^ 26" and def: "stats_defined s (concat wss)"
  shows "\<exists>st. stats_of s (concat wss) = Inr st \<and> pc_patch_from_patchlist z laz pas =
    Inr ((patch_of s ix iy (concat wss))\<lparr>pa_bounds := fold (\<lambda>pa b. pc_bounds_merge b (p_bounds pa)) pas pc_bounds_init,
      pa_stats := Some st\<rparr>)"
proof -
  let ?ws = "concat wss" and ?b = "fold (\<lambda>pa b. pc_bounds_merge b (p_bounds pa)) pas pc_bounds_init"
  obtain pa pas' where pas: "pas = pa # pas'" using h(2) by (cases pas) auto
  have s0: "p_schema pa = s" using h(1) by (auto simp: holds_all_def pas list_all2_Cons1)
  have ok: "points_ok s ?ws" by (rule holds_all_points [OF h n])
  have sr: "schema_ready s" using ok by (simp add: points_ok_def)
  have l: "length ?ws < 2 ^ 32" using n by simp
  obtain st where st: "stats_of s ?ws = Inr st" "pc_patch_uncompressed_compute_stats ((patch_of s ix iy ?ws)\<lparr>pa_bounds := ?b\<rparr>) =
      Inr ((patch_of s ix iy ?ws)\<lparr>pa_bounds := ?b, pa_stats := Some st\<rparr>)"
    using with_stats [OF ok def] by blast
  have a: "foldE (append_step z laz) pas (pc_bounds_init, replicate (length ?ws * sc_size s) 0, 0) =
      Inr (?b, concat ?ws, length (concat ?ws))"
    using append_steps [OF h(1), of pc_bounds_init "[]"] length_concat_points [OF ok] by simp
  have c: "foldE (count_step s) pas 0 = Inr (length ?ws)" using count_steps [OF h(1), of 0] l by simp
  have "pc_patch_from_patchlist z laz pas = pc_patch_uncompressed_compute_stats ((patch_of s ix iy ?ws)\<lparr>pa_bounds := ?b\<rparr>)"
    unfolding pc_patch_from_patchlist_def pas list.case Let_def s0
    unfolding pas [symmetric] c bindE_Inr make_eq [OF sr s l] PCPATCH.simps PCPATCH_UNCOMPRESSED.simps a prod.case
    by (simp add: patch_of_def)
  from trans [OF this st(2)] st(1) show ?thesis by (intro exI [of _ st] conjI)
qed

section \<open>Parts of a patch\<close>

lemma s32_id: "- (2 ^ 31) \<le> i \<Longrightarrow> i < 2 ^ 31 \<Longrightarrow> s32 i = i"
  by (simp add: s32_def signed_of_int signed_take_bit_int_eq_self)

lemma concat_part:
  assumes "\<And>w. w \<in> set ws \<Longrightarrow> length w = n"
  shows "take (k * n) (drop (i * n) (concat ws)) = concat (take k (drop i ws))"
proof -
  have d: "drop (i * n) (concat ws) = concat (drop i ws)" if "\<And>w. w \<in> set ws \<Longrightarrow> length w = n" for i ws
    using that
  proof (induction ws arbitrary: i)
    case (Cons w ws)
    then show ?case by (cases i) simp_all
  qed simp
  have t: "take (k * n) (concat ws) = concat (take k ws)" if "\<And>w. w \<in> set ws \<Longrightarrow> length w = n" for ws
    using that
  proof (induction ws arbitrary: k)
    case (Cons w ws)
    then show ?case by (cases k) simp_all
  qed simp
  show ?thesis using d [OF assms] t [of "drop i ws"] assms by (auto dest: in_set_dropD)
qed

lemma range_eq:
  assumes h: "patch_holds z laz pa ws" "p_schema pa = s" and xy: "has_xy s ix iy" "0 < sc_size s"
    and r: "i + k \<le> length ws" "0 < k" "k < length ws" "int k \<le> cnt" "cnt = int k \<or> i + k = length ws"
    and def: "stats_defined s (take k (drop i ws))"
  shows "\<exists>st. stats_of s (take k (drop i ws)) = Inr st \<and> pc_patch_range z laz pa (int i + 1) cnt =
    Inr (Some (Uncompressed ((patch_of s ix iy (take k (drop i ws)))\<lparr>pa_stats := Some st\<rparr>)))"
proof -
  let ?vs = "take k (drop i ws)"
  have w: "points_ok s ws" "p_npoints pa = length ws" using holds_points [OF h(1)] h(2) by auto
  have sr: "schema_ready s" and lw: "length ws < 2 ^ 26" using w(1) by (simp_all add: points_ok_def)
  have lv: "length ?vs = k" using r by simp
  have ok: "points_ok s ?vs" using w(1) by (auto simp: points_ok_def widths_def dest: in_set_takeD in_set_dropD)
  have c: "s32 (int (length ws) - (int i + 1 - 1)) = int (length ws) - int i"
    using s32_id [of "int (length ws) - int i"] lw r(1) by simp
  have n: "(if int (length ws) - int i < cnt then int (length ws) - int i else cnt) = int k" using r by auto
  obtain p where p: "pc_patch_uncompress z laz pa = Inr p" "patch_holds z laz (Uncompressed p) ws" "pa_schema p = s"
    using uncompress_ok [OF h(1)] h(2) by auto
  have sz: "sc_size s * i mod 2 ^ 64 = i * sc_size s" "sc_size s * k mod 2 ^ 64 = k * sc_size s"
    using datasize_fits [OF sr, of i] datasize_fits [OF sr, of k] r(1) lw by simp_all
  note d = holds_data [OF p(2), unfolded p(3)]
  have "i * sc_size s + k * sc_size s \<le> length ws * sc_size s"
    using r(1) mult_le_mono1 [of "i + k" "length ws" "sc_size s"] by (simp add: add_mult_distrib)
  then have rd: "rd (pu_data p) (i * sc_size s) (k * sc_size s) = Inr (concat ?vs)"
  proof -
    assume le: "i * sc_size s + k * sc_size s \<le> length ws * sc_size s"
    have "take (k * sc_size s) (drop (i * sc_size s) (take (length ws * sc_size s) (pu_data p))) =
        take (k * sc_size s) (drop (i * sc_size s) (pu_data p))"
      using le by (simp add: drop_take min_def)
    moreover have "take (k * sc_size s) (drop (i * sc_size s) (concat ws)) = concat ?vs"
      by (rule concat_part) (use w(1) in \<open>simp add: points_ok_def widths_def\<close>)
    ultimately show ?thesis using d le by (simp add: rd_def)
  qed
  have wr: "wr (replicate (k * sc_size s) 0) 0 (concat ?vs) = Inr (concat ?vs)"
    using length_concat_points [OF ok] lv by (simp add: wr_def)
  let ?p = "\<lparr>pa_type = PC_NONE, pa_readonly = PC_FALSE, pa_schema = s, pa_npoints = k, pa_bounds = pc_bounds_init,
      pa_stats = None, pu_maxpoints = k, pu_datasize = k * sc_size s, pu_data = concat ?vs\<rparr>"
  have pe: "?p = (patch_of s ix iy ?vs)\<lparr>pa_bounds := pc_bounds_init, pa_stats := None\<rparr>" using r by (simp add: patch_of_def)
  have "patch_ok ?p" "pts ?p = ?vs" unfolding pe
    using patch_of_holds [OF ok, where st = None and b = pc_bounds_init] by (simp_all add: stats_ok_def)
  from compute_extent_eq [OF this(1)] this(2) xy(1)
  have e: "pc_patch_uncompressed_compute_extent ?p = Inr (patch_of s ix iy ?vs)" using r by (simp add: patch_of_def)
  obtain st where st: "stats_of s ?vs = Inr st" "pc_patch_uncompressed_compute_stats (patch_of s ix iy ?vs) =
      Inr ((patch_of s ix iy ?vs)\<lparr>pa_stats := Some st\<rparr>)"
    using with_stats [OF ok def, where ix = ix and iy = iy and b = "extent s ix iy ?vs"] by (auto simp: patch_of_def)
  have nz: "\<not> (int i + 1 - 1 < 0 \<or> int k \<le> 0)" "int k \<noteq> int (length ws)" using r by simp_all
  have k: "nat (int k) = k" "nat (int i + 1 - 1) = i" by simp_all
  have k32: "k < 2 ^ 32" using r lw by simp
  have i1: "int i + 1 - 1 = int i" by simp
  show ?thesis
    unfolding pc_patch_range_def Let_def w(2) h(2) c n if_not_P [OF nz(1)] if_not_P [OF nz(2)] k make_eq [OF sr xy(2) k32]
      bindE_Inr p(1) sz rd
    using e st by (simp add: wr)
qed

lemma range_none:
  assumes "patch_holds z laz pa ws" "first < 1 \<or> int (length ws) < first \<or> cnt < 1" "- (2 ^ 31) < first" "first < 2 ^ 31"
  shows "pc_patch_range z laz pa first cnt = Inr None"
proof -
  have n: "p_npoints pa = length ws" "length ws < 2 ^ 26"
    using holds_points [OF assms(1)] by (auto simp: points_ok_def)
  have "first - 1 < 0 \<or> (if s32 (int (length ws) - (first - 1)) < cnt then s32 (int (length ws) - (first - 1)) else cnt) \<le> 0"
    using assms(2-4) s32_id [of "int (length ws) - (first - 1)"] n(2) by (cases "first < 1") auto
  then show ?thesis by (simp add: pc_patch_range_def Let_def n(1))
qed

lemma range_all:
  assumes "patch_holds z laz pa ws" "int (length ws) \<le> cnt" "ws \<noteq> []"
  shows "pc_patch_range z laz pa 1 cnt = Inr (Some pa)"
proof -
  have n: "p_npoints pa = length ws" "length ws < 2 ^ 26"
    using holds_points [OF assms(1)] by (auto simp: points_ok_def)
  have "s32 (int (length ws)) = int (length ws)" using n(2) by (intro s32_id) simp_all
  then show ?thesis using assms(2,3) by (auto simp: pc_patch_range_def Let_def n(1))
qed

section \<open>An example\<close>

lemma demo_xy_names: "distinct_names demo_xy"
proof -
  have "deref demo_xy = deref demo_schema" by (simp add: fun_eq_iff deref_def demo_xy_def)
  then show ?thesis using demo_schema_names by (simp add: distinct_names_def) (simp add: demo_xy_def)
qed

lemma demo_values:
  "pval demo_xy 0 [1, 2, 3, 4, 5] = d_of_int 67305985" "pval demo_xy 0 [6, 7, 8, 9, 10] = d_of_int 151521030"
  "pval demo_xy 1 [1, 2, 3, 4, 5] = d_of_int 5" "pval demo_xy 1 [6, 7, 8, 9, 10] = d_of_int 10"
  by (simp_all add: pval_def dval_def fld_def demo_xy_facts demo_facts demo_sizes pc_double_from_ptr_def rd_def
      pc_value_scale_offset_def unit_consts word_of_bytes_def)

lemma demo_zero: "d_zero = d_of_int 0"
  by (simp add: d_zero_def fp_eval)

lemma demo_exact: "exact_int 67305985" "exact_int 151521030" "exact_int 218827015" "exact_int 5" "exact_int 10" "exact_int 15"
  by (simp_all add: exact_int_def)

lemma demo_limits: "d_lt (d_of_int 67305985) DBL_MAX" "d_lt minus_DBL_MAX (d_of_int 67305985)" "d_lt (d_of_int 5) DBL_MAX"
  "d_lt minus_DBL_MAX (d_of_int 5)" "d_lt (d_of_int 151521030) DBL_MAX" "d_lt minus_DBL_MAX (d_of_int 151521030)"
  "d_lt (d_of_int 10) DBL_MAX" "d_lt minus_DBL_MAX (d_of_int 10)"
  by (simp_all add: DBL_MAX_def minus_DBL_MAX_def fp_eval)

lemmas demo_stat_facts = demo_values [unfolded One_nat_def] demo_zero demo_exact demo_limits

lemma demo_stats_defined: "stats_defined demo_xy demo_pts"
proof -
  have ds: "dim_stat demo_xy 0 demo_pts = \<lparr>ds_min = d_of_int 67305985, ds_max = d_of_int 151521030, ds_sum = d_of_int 218827015\<rparr>"
    "dim_stat demo_xy 1 demo_pts = \<lparr>ds_min = d_of_int 5, ds_max = d_of_int 10, ds_sum = d_of_int 15\<rparr>"
    by (simp_all add: dim_stat_def demo_pts_def stat_add_def demo_stat_facts d_add_of_int)
  have a: "d_div (d_of_int 218827015) (d_of_int 2) = 0x419a16120e000000" "d_div (d_of_int 15) (d_of_int 2) = 0x401E000000000000"
    by (simp_all add: fp_eval)
  have c: "lround (CLAMP 0x419a16120e000000 (- 2147483648) 2147483647) = Inr 109413508" "lround (CLAMP 0x401E000000000000 0 255) = Inr 8"
    by (simp_all add: CLAMP_def fp_eval)
  have l: "length demo_pts = 2" by (simp add: demo_pts_def)
  show ?thesis unfolding stats_defined_def
    by (auto simp: l demo_xy_facts less_2 demo_facts demo_sizes ds [unfolded One_nat_def] Let_def a c stored_def
        lround_CLAMP demo_exact pc_value_unscale_unoffset_def unit_consts pc_double_to_ptr_def wr_def)
qed

lemma demo_stats_last: "stats_defined demo_xy [[6, 7, 8, 9, 10]]"
proof -
  have ds: "dim_stat demo_xy 0 [[6, 7, 8, 9, 10]] = \<lparr>ds_min = d_of_int 151521030, ds_max = d_of_int 151521030, ds_sum = d_of_int 151521030\<rparr>"
    "dim_stat demo_xy 1 [[6, 7, 8, 9, 10]] = \<lparr>ds_min = d_of_int 10, ds_max = d_of_int 10, ds_sum = d_of_int 10\<rparr>"
    by (simp_all add: dim_stat_def stat_add_def demo_stat_facts d_add_of_int)
  have a: "d_div (d_of_int 151521030) (d_of_int 1) = d_of_int 151521030" "d_div (d_of_int 10) (d_of_int 1) = d_of_int 10"
    by (simp_all add: fp_eval)
  show ?thesis unfolding stats_defined_def
    by (auto simp: demo_xy_facts less_2 demo_facts demo_sizes ds [unfolded One_nat_def] Let_def a stored_def
        lround_CLAMP demo_exact pc_value_unscale_unoffset_def unit_consts pc_double_to_ptr_def wr_def)
qed

lemma demo_holds: "patch_holds z laz (Uncompressed demo_patch) demo_pts" "p_schema (Uncompressed demo_patch) = demo_xy"
proof -
  have ok: "points_ok demo_xy demo_pts" using demo_patch_ok(3) demo_xy_ready by (simp add: points_ok_def demo_pts_def)
  show "patch_holds z laz (Uncompressed demo_patch) demo_pts" using demo_patch_ok demo_full_patch(1) ok by simp
qed (simp add: demo_patch_ok)

end
