(* ===== verification/PC_Patch_Points.thy ===== *)
theory PC_Patch_Points
  imports PC_Patch
begin

text \<open>
  The operations of lib/pc_patch.c on the points that a patch holds: whatever the representation, each of
  them is an operation on the list of the points. Single points, lists, compression, binary form.
\<close>

section \<open>Points of a patch\<close>

fun accessible :: "patch \<Rightarrow> bool" where
  "accessible (Dimensional d) = access_ok d (pa_npoints d)"
| "accessible _ = True"

lemma window_point:
  assumes "patch_ok p" "i < pa_npoints p"
  shows "take (sc_size (pa_schema p)) (pt_data (window p i)) = pts p ! i" "pt_schema (window p i) = pa_schema p"
  using pts_at [OF assms] by (simp_all add: window_def)

lemma pointn_at:
  assumes h: "patch_holds z laz pa ws" "accessible pa" "0 < sc_size (p_schema pa)" and i: "i < length ws"
    and n: "n = int i + 1 \<or> n = int i - int (length ws)"
  shows "\<exists>pt. pc_patch_pointn z laz (Some pa) n = Inr (Some pt) \<and> pt_schema pt = p_schema pa \<and>
    take (sc_size (p_schema pa)) (pt_data pt) = ws ! i"
proof -
  have ok: "points_ok (p_schema pa) ws" "p_npoints pa = length ws" using holds_points [OF h(1)] by blast+
  have lw: "length (ws ! i) = sc_size (p_schema pa)" "length ws < 2 ^ 26" using ok(1) i by (simp_all add: points_ok_def widths_def)
  have k: "(if n < 0 then s32 (int (p_npoints pa) + n) else n - 1) = int i"
    using n i ok(2) lw(2) s32_id [of "int i"] by auto
  have r: "\<not> (int i < 0 \<or> int (p_npoints pa) \<le> int i)" using i ok(2) by simp
  show ?thesis
  proof (cases pa)
    case (Uncompressed p)
    have p: "patch_ok p" "pts p = ws" "pa_npoints p = length ws" using h(1) ok(2) Uncompressed by simp_all
    have "pc_patch_uncompressed_pointn p (int i) = Inr (window p i)"
      by (simp add: pc_patch_uncompressed_pointn_def pc_point_from_data_def window_def)
    then show ?thesis using window_point [OF p(1), of i] i p(2,3) k r
      unfolding pc_patch_pointn_def option.case Let_def k if_not_P [OF r] Uncompressed by simp
  next
    case (Dimensional d)
    have d: "dim_holds z d ws" "access_ok d (length ws)" "0 < sc_size (pa_schema d)" using h ok(2) Dimensional by simp_all
    show ?thesis using pointn_eq [OF d i] lw(1)
      unfolding pc_patch_pointn_def option.case Let_def k if_not_P [OF r] unfolding Dimensional by simp
  next
    case (Lazperf d)
    then have d: "laz_holds laz d ws" "0 < sc_size (pa_schema d)" using h by simp_all
    show ?thesis using lazperf_pointn_eq [OF d i] lw(1)
      unfolding pc_patch_pointn_def option.case Let_def k if_not_P [OF r] unfolding Lazperf by simp
  qed
qed

lemma pointn_none:
  assumes h: "patch_holds z laz pa ws" and n: "n = 0 \<or> int (length ws) < \<bar>n\<bar>" "- (2 ^ 31) \<le> n" "n < 2 ^ 31"
  shows "pc_patch_pointn z laz (Some pa) n = Inr None"
proof -
  have ok: "p_npoints pa = length ws" "length ws < 2 ^ 26" using holds_points [OF h] by (simp_all add: points_ok_def)
  have "s32 (int (length ws) + n) = int (length ws) + n" if "n < 0" using that n ok(2) by (intro s32_id) simp_all
  then have "(if n < 0 then s32 (int (p_npoints pa) + n) else n - 1) < 0 \<or>
      int (p_npoints pa) \<le> (if n < 0 then s32 (int (p_npoints pa) + n) else n - 1)"
    using n(1) ok(1) by auto
  then show ?thesis by (simp add: pc_patch_pointn_def Let_def)
qed

lemma pointlist_eq:
  assumes h: "patch_holds z laz pa ws"
  shows "\<exists>pl. pc_pointlist_from_patch z laz pa = Inr pl \<and> pl_npoints pl = length ws \<and>
    (\<forall>i < length ws. \<exists>pt. pc_pointlist_get_point pl (int i) = Inr (Some pt) \<and> pt_schema pt = p_schema pa \<and>
       take (sc_size (p_schema pa)) (pt_data pt) = ws ! i)"
proof -
  have ok: "points_ok (p_schema pa) ws" "length ws < 2 ^ 31" using holds_points [OF h] by (simp_all add: points_ok_def)
  have list: "\<exists>pl. pc_pointlist_from_uncompressed p = Inr pl \<and> pl_npoints pl = length ws \<and>
      (\<forall>i < length ws. \<exists>pt. pc_pointlist_get_point pl (int i) = Inr (Some pt) \<and> pt_schema pt = pa_schema p \<and>
         take (sc_size (pa_schema p)) (pt_data pt) = ws ! i)"
    if p: "patch_ok p" "pts p = ws" for p
  proof -
    have n: "pa_npoints p = length ws" using length_pts [of p] p(2) by simp
    obtain pl where pl: "pc_pointlist_from_uncompressed p = Inr pl" "pl_ok pl (map (window p) [0..<length ws])"
      using pointlist_from_uncompressed_eq [of p] ok(2) n by auto
    have "pl_npoints pl = length ws" using pl(2) by (simp add: pl_ok_def)
    moreover have "pc_pointlist_get_point pl (int i) = Inr (Some (window p i))" if "i < length ws" for i
      using pointlist_get [OF pl(2), of i] that by simp
    ultimately show ?thesis using pl(1) window_point [OF p(1)] p(2) n by auto
  qed
  show ?thesis
  proof (cases pa)
    case (Uncompressed p)
    then show ?thesis using list [of p] h by (simp add: pc_pointlist_from_patch_def)
  next
    case (Dimensional d)
    then have d: "dim_holds z d ws" using h by simp
    show ?thesis using list [OF uncompressed_from_dimensional_eq(2,3) [OF d]] pointlist_from_dimensional_eq [OF d] Dimensional
      by (simp add: pc_pointlist_from_patch_def as_uncompressed_def)
  next
    case (Lazperf d)
    then have d: "laz_holds laz d ws" using h by simp
    then have "points_ok (pa_schema d) ws" by (simp add: laz_holds_def)
    from list [OF as_uncompressed_ok [OF this]] show ?thesis using uncompressed_from_lazperf_eq [OF d] Lazperf
      by (simp add: pc_pointlist_from_patch_def pc_pointlist_from_lazperf_def as_uncompressed_def)
  qed
qed

section \<open>Compression\<close>

text \<open>What the compressors must be able to do for the compression of the schema.\<close>

definition compressible :: "zlib \<Rightarrow> lazperf option \<Rightarrow> PCDIMSTATS option \<Rightarrow> patch \<Rightarrow> byte list list \<Rightarrow> bool" where
  "compressible z laz pds pa ws = (let s = p_schema pa in sc_compression s \<in> {PC_NONE, PC_DIMENSIONAL, PC_LAZPERF} \<and>
     (sc_compression s = PC_DIMENSIONAL \<longrightarrow> ws \<noteq> [] \<and> (\<forall>j < sc_ndims s. zlib_fits z (col_array s ws j)) \<and>
        (\<forall>x. pds = Some x \<longrightarrow> dimstats_for s x \<and> (PCDIMSTATS_MIN_SAMPLE \<le> dts_total_points x \<longrightarrow> recommends s x)) \<and>
        (\<forall>d. pa = Dimensional d \<longrightarrow> pd_bytes d = plain_arrays s ws)) \<and>
     (sc_compression s = PC_LAZPERF \<longrightarrow> (\<exists>l. laz = Some l \<and> laz_works l \<and>
        (\<forall>p. patch_holds z laz (Uncompressed p) ws \<longrightarrow> lazperf_compress_from_uncompressed l p \<noteq> None))))"

fun patch_type :: "patch \<Rightarrow> nat" where
  "patch_type (Uncompressed p) = PC_NONE"
| "patch_type (Dimensional p) = PC_DIMENSIONAL"
| "patch_type (Lazperf p) = PC_LAZPERF"

lemma compress_dimensional:
  assumes p: "patch_holds z laz (Uncompressed p) ws" "ws \<noteq> []" and z: "\<forall>j < sc_ndims (pa_schema p). zlib_fits z (col_array (pa_schema p) ws j)"
    and pds: "\<And>x. pds = Some x \<Longrightarrow> dimstats_for (pa_schema p) x \<and> (PCDIMSTATS_MIN_SAMPLE \<le> dts_total_points x \<longrightarrow> recommends (pa_schema p) x)"
  shows "\<exists>d c pds'. pc_patch_dimensional_from_uncompressed p = Inr (Some d) \<and> pc_patch_dimensional_compress z d pds = Inr (c, pds') \<and>
    dim_holds z c ws \<and> pa_schema c = pa_schema p \<and> pa_bounds c = pa_bounds p \<and> pa_stats c = own (pa_stats p)"
proof -
  have h: "patch_ok p" "pts p = ws" "points_ok (pa_schema p) ws" "stats_ok (pa_schema p) (pa_stats p)" using p(1) by simp_all
  have "pa_npoints p = length ws" using length_pts [of p] unfolding h(2) by simp
  then have n: "pa_npoints p < 2 ^ 26" "pa_npoints p \<noteq> 0" using h(3) p(2) by (simp_all add: points_ok_def)
  obtain d where d: "pc_patch_dimensional_from_uncompressed p = Inr (Some d)" "dim_holds z d ws" "pa_schema d = pa_schema p"
    "pa_bounds d = pa_bounds p" "pa_stats d = own (pa_stats p)" "pd_bytes d = plain_arrays (pa_schema p) ws"
    using from_uncompressed_eq [OF h(1) n h(4), of z] h(2) by auto
  from compress_ok [OF d(2) _ p(2), of pds] d z pds show ?thesis by fastforce
qed


lemma compress_holds:
  assumes h: "patch_holds z laz pa ws" and c: "compressible z laz pds pa ws"
  shows "\<exists>pa' pds'. pc_patch_compress z laz pa pds = Inr (pa', pds') \<and> patch_holds z laz pa' ws \<and>
    patch_type pa' = sc_compression (p_schema pa) \<and> p_schema pa' = p_schema pa \<and> p_bounds pa' = p_bounds pa \<and>
    own (p_stats pa') = own (p_stats pa)"
proof -
  let ?s = "p_schema pa"
  obtain p where p: "pc_patch_uncompress z laz pa = Inr p" "patch_holds z laz (Uncompressed p) ws" "pa_schema p = ?s"
    "pa_bounds p = p_bounds pa" "own (pa_stats p) = own (p_stats pa)" "pa_npoints p = length ws"
    using uncompress_ok [OF h] by blast
  have pu: "patch_ok p" "pts p = ws" "pa_npoints p < 2 ^ 26" "stats_ok (pa_schema p) (pa_stats p)"
    using p(2,6) by (simp_all add: points_ok_def)
  consider "sc_compression ?s = PC_NONE" | "sc_compression ?s = PC_DIMENSIONAL" | "sc_compression ?s = PC_LAZPERF"
    using c by (auto simp: compressible_def Let_def)
  then show ?thesis
  proof cases
    case 1
    then show ?thesis using p by (simp add: pc_patch_compress_def Let_def)
  next
    case 2
    have z: "ws \<noteq> []" "\<forall>j < sc_ndims ?s. zlib_fits z (col_array ?s ws j)"
      and ds: "\<And>x. pds = Some x \<Longrightarrow> dimstats_for ?s x \<and> (PCDIMSTATS_MIN_SAMPLE \<le> dts_total_points x \<longrightarrow> recommends ?s x)"
      and d: "\<And>d. pa = Dimensional d \<Longrightarrow> pd_bytes d = plain_arrays ?s ws"
      using c 2 unfolding compressible_def Let_def by blast+
    obtain d c pds' where dc: "pc_patch_dimensional_from_uncompressed p = Inr (Some d)" "pc_patch_dimensional_compress z d pds = Inr (c, pds')"
      "dim_holds z c ws" "pa_schema c = ?s" "pa_bounds c = p_bounds pa" "pa_stats c = own (p_stats pa)"
      using compress_dimensional [OF p(2) z(1), of pds] z(2) ds p(3-5) by auto
    show ?thesis
    proof (cases pa)
      case (Uncompressed q)
      then have "q = p" using p(1) by (simp add: pc_patch_uncompress_def)
      then show ?thesis using dc Uncompressed 2 by (simp add: pc_patch_compress_def Let_def)
    next
      case (Dimensional q)
      then have q: "dim_holds z q ws" "pd_bytes q = plain_arrays (pa_schema q) ws" using h d by simp_all
      show ?thesis using compress_ok [OF q z(1), of pds] z(2) ds Dimensional 2
        by (fastforce simp: pc_patch_compress_def Let_def)
    next
      case (Lazperf q)
      then have q: "pc_patch_uncompressed_from_lazperf laz q = Inr p" using p(1) by (simp add: pc_patch_uncompress_def)
      show ?thesis using compress_dimensional [OF p(2) z(1), of None] z(2) p(3-5) q Lazperf 2
        by (fastforce simp: pc_patch_compress_def Let_def)
    qed
  next
    case 3
    then obtain l where l: "laz = Some l" "laz_works l" "lazperf_compress_from_uncompressed l p \<noteq> None"
      using c p(2) by (auto simp: compressible_def Let_def)
    then obtain b where b: "lazperf_compress_from_uncompressed l p = Some b" by auto
    obtain d where d: "pc_patch_lazperf_from_uncompressed laz p = Inr d" "laz_holds laz d ws" "pa_schema d = ?s"
      "pa_bounds d = p_bounds pa" "pa_stats d = own (p_stats pa)"
      using lazperf_from_uncompressed_eq [OF pu(1,3,4) l(2) b] pu(2) l(1) p(3-5) by auto
    show ?thesis
    proof (cases pa)
      case (Uncompressed q)
      then have "q = p" using p(1) by (simp add: pc_patch_uncompress_def)
      then show ?thesis using d Uncompressed 3 by (simp add: pc_patch_compress_def Let_def)
    next
      case (Dimensional q)
      then have "pc_patch_uncompressed_from_dimensional z q = Inr p" using p(1) by (simp add: pc_patch_uncompress_def)
      then show ?thesis using d Dimensional 3 by (simp add: pc_patch_compress_def Let_def)
    next
      case (Lazperf q)
      then show ?thesis using h 3 by (simp add: pc_patch_compress_def Let_def)
    qed
  qed
qed

section \<open>Extent, statistics and binary form\<close>

text \<open>A LAZ patch whose bytes are what the compressor makes of the points.\<close>

definition laz_from :: "lazperf \<Rightarrow> PCPATCH_LAZPERF \<Rightarrow> byte list list \<Rightarrow> bool" where
  "laz_from l d ws = (\<exists>p. patch_ok p \<and> lazperf_compress_from_uncompressed l p = Some (lz_data d) \<and> lz_size d = length (lz_data d) \<and>
     pa_schema p = pa_schema d \<and> pa_npoints p = pa_npoints d \<and>
     take (pa_npoints d * sc_size (pa_schema d)) (pu_data p) = concat ws)"

fun laz_genuine :: "lazperf option \<Rightarrow> patch \<Rightarrow> byte list list \<Rightarrow> bool" where
  "laz_genuine laz (Lazperf d) ws = (\<exists>l. laz = Some l \<and> laz_works l \<and> laz_from l d ws)"
| "laz_genuine laz pa ws = True"

lemma genuine_holds:
  assumes g: "laz_genuine laz (Lazperf d) ws" and d: "points_ok (pa_schema d) ws" "pa_npoints d = length ws" "stats_ok (pa_schema d) (pa_stats d)"
  shows "laz_holds laz d ws"
proof -
  obtain l p where l: "laz = Some l" "laz_works l" and ok: "patch_ok p" and p: "lazperf_compress_from_uncompressed l p = Some (lz_data d)"
    "lz_size d = length (lz_data d)" "pa_schema d = pa_schema p" "pa_npoints d = pa_npoints p"
    "take (pa_npoints d * sc_size (pa_schema d)) (pu_data p) = concat ws"
    using g unfolding laz_genuine.simps laz_from_def by fastforce
  from l(2) [unfolded laz_works_def, rule_format, OF ok p(1,3,4,2) refl] obtain rest
    where "lazperf_uncompress_from_compressed l d = Some (concat ws @ rest)" using p(3-5) by auto
  then show ?thesis using l(1) d by (simp add: laz_holds_def)
qed

text \<open>A patch whose type is that of its representation and that has no spare room.\<close>

fun typed :: "patch \<Rightarrow> bool" where
  "typed (Uncompressed p) = (pa_type p = PC_NONE)"
| "typed (Dimensional d) = (pa_type d = PC_DIMENSIONAL)"
| "typed (Lazperf d) = (pa_type d = PC_LAZPERF)"

fun compact :: "patch \<Rightarrow> bool" where
  "compact (Uncompressed p) = (pu_datasize p = pa_npoints p * sc_size (pa_schema p))"
| "compact (Dimensional d) = True"
| "compact (Lazperf d) = (lz_size d = length (lz_data d))"

text \<open>
  The box that the computation of the extent leaves: that of the points, that of the extremes in the arrays of X
  and Y, scaled, or for a LAZ patch the one it had. A patch read from its binary form starts with zeros.
\<close>

definition array_box :: "PCSCHEMA \<Rightarrow> nat \<Rightarrow> nat \<Rightarrow> byte list list \<Rightarrow> PCBOUNDS" where
  "array_box s ix iy ws = \<lparr>b_xmin = pc_value_scale_offset (fst (col_extremes s ws ix)) (sdim s ix),
     b_xmax = pc_value_scale_offset (snd (col_extremes s ws ix)) (sdim s ix),
     b_ymin = pc_value_scale_offset (fst (col_extremes s ws iy)) (sdim s iy),
     b_ymax = pc_value_scale_offset (snd (col_extremes s ws iy)) (sdim s iy)\<rparr>"

definition read_box :: "nat \<Rightarrow> PCSCHEMA \<Rightarrow> nat \<Rightarrow> nat \<Rightarrow> byte list list \<Rightarrow> PCBOUNDS" where
  "read_box t s ix iy ws = (if t = PC_NONE then extent s ix iy ws else if t = PC_DIMENSIONAL then array_box s ix iy ws else zero_bounds)"

lemma compute_extent_holds:
  assumes h: "patch_holds z laz pa ws" and xy: "has_xy (p_schema pa) ix iy"
  shows "\<exists>pa'. pc_patch_compute_extent z laz (Some pa) = Inr (Some pa') \<and> patch_holds z laz pa' ws \<and>
    p_schema pa' = p_schema pa \<and> p_stats pa' = p_stats pa \<and> patch_type pa' = patch_type pa \<and>
    (laz_genuine laz pa ws \<longrightarrow> laz_genuine laz pa' ws) \<and> (typed pa \<longrightarrow> typed pa') \<and> (compact pa \<longrightarrow> compact pa') \<and>
    p_bounds pa' = (if patch_type pa = 2 then p_bounds pa else read_box (patch_type pa) (p_schema pa) ix iy ws)"
proof (cases pa)
  case (Uncompressed p)
  then have p: "patch_ok p" "pts p = ws" "has_xy (pa_schema p) ix iy" using h xy by simp_all
  then show ?thesis using compute_extent_eq [OF p(1,3)] h Uncompressed
    by (simp add: pc_patch_compute_extent_def patch_ok_def pts_def read_box_def)
next
  case (Dimensional d)
  then have d: "dim_holds z d ws" "has_xy (pa_schema d) ix iy" using h xy by simp_all
  obtain x1 x2 y1 y2 where "col_extremes (pa_schema d) ws ix = (x1, x2)" "col_extremes (pa_schema d) ws iy = (y1, y2)"
    by (metis surj_pair)
  with dimensional_extent_eq [OF d this] show ?thesis using Dimensional d(1)
    by (simp add: pc_patch_compute_extent_def dim_holds_def read_box_def array_box_def)
next
  case (Lazperf d)
  then have d: "laz_holds laz d ws" "has_xy (pa_schema d) ix iy" using h xy by simp_all
  have ok: "points_ok (pa_schema d) ws" using d(1) by (simp add: laz_holds_def)
  have "pa_schema (as_uncompressed d ws) = pa_schema d" by (simp add: as_uncompressed_def)
  then have "pc_patch_lazperf_compute_extent laz d = Inr d"
    using uncompressed_from_lazperf_eq [OF d(1)] compute_extent_eq [OF as_uncompressed_ok(1) [OF ok]] d
    by (auto simp: pc_patch_lazperf_compute_extent_def laz_holds_def)
  then show ?thesis using Lazperf h by (simp add: pc_patch_compute_extent_def)
qed

lemma compute_stats_holds:
  assumes h: "patch_holds z laz pa ws" "laz_genuine laz pa ws" and sch: "p_schema pa = s" and def: "stats_defined s ws"
  shows "\<exists>pa' st. pc_patch_compute_stats z laz (Some pa) = Inr (Some pa') \<and> patch_holds z laz pa' ws \<and>
    stats_of s ws = Inr st \<and> p_stats pa' = Some st \<and>
    p_schema pa' = s \<and> p_bounds pa' = p_bounds pa \<and> patch_type pa' = patch_type pa \<and>
    laz_genuine laz pa' ws \<and> (typed pa \<longrightarrow> typed pa') \<and> (compact pa \<longrightarrow> compact pa')"
proof -
  have ok: "points_ok s ws" "p_npoints pa = length ws" using holds_points [OF h(1)] sch by auto
  have sr: "schema_ready s" using ok(1) by (simp add: points_ok_def)
  obtain st where st: "stats_of s ws = Inr st" using stats_of_total [OF sr def] by blast
  note sok = stats_of_ok [OF sr st]
  show ?thesis
  proof (cases pa)
    case (Uncompressed p)
    then have p: "patch_ok p" "pts p = ws" "pa_schema p = s" using h sch by simp_all
    show ?thesis using compute_stats_of [OF p(1,2)] p st sok ok Uncompressed
      by (simp add: pc_patch_compute_stats_def patch_ok_def pts_def)
  next
    case (Dimensional d)
    then have d: "dim_holds z d ws" "pa_schema d = s" using h sch by simp_all
    note u = uncompressed_from_dimensional_eq [OF d(1)]
    have "pc_patch_uncompressed_compute_stats (as_uncompressed d ws) = Inr ((as_uncompressed d ws)\<lparr>pa_stats := Some st\<rparr>)"
      using compute_stats_of [OF u(2,3)] st d(2) by (simp add: as_uncompressed_def)
    then show ?thesis using u(1) d sok st Dimensional by (simp add: pc_patch_compute_stats_def dim_holds_def)
  next
    case (Lazperf d)
    then have d: "laz_holds laz d ws" "pa_npoints d = length ws" "pa_schema d = s" using h ok(2) sch by simp_all
    note u = uncompressed_from_lazperf_eq [OF d(1)] as_uncompressed_ok [OF ok(1) [folded d(3)]]
    have "pc_patch_uncompressed_compute_stats (as_uncompressed d ws) = Inr ((as_uncompressed d ws)\<lparr>pa_stats := Some st\<rparr>)"
      using compute_stats_of [OF u(2,3)] st d(3) by (simp add: as_uncompressed_def)
    moreover have g: "laz_genuine laz (Lazperf (d\<lparr>pa_stats := Some st\<rparr>)) ws" using h(2) Lazperf by (simp add: laz_from_def)
    moreover have "laz_holds laz (d\<lparr>pa_stats := Some st\<rparr>) ws" by (rule genuine_holds [OF g]) (use ok(1) sok d in simp_all)
    ultimately show ?thesis using u(1) clone_ok [OF sok] stats_of_own [OF sr st] st d(3) Lazperf by (simp add: pc_patch_compute_stats_def)
  qed
qed

fun wkb_ready :: "patch \<Rightarrow> bool" where
  "wkb_ready (Uncompressed p) = (pa_type p = PC_NONE \<and> pu_datasize p = pa_npoints p * sc_size (pa_schema p))"
| "wkb_ready (Dimensional d) = (pa_type d = PC_DIMENSIONAL \<and> storable (pa_schema d) (pa_npoints d) (pd_bytes d))"
| "wkb_ready (Lazperf d) = (pa_type d = 2 \<and> lz_size d = length (lz_data d) \<and> lz_size d < 2 ^ 31)"

lemma wkb_header:
  assumes "length t = 4"
  shows "pc_wkb_get_pcid (1 # bytes_of_word pcid @ t @ body) = Inr pcid"
    "wkb_get_compression (1 # bytes_of_word pcid @ t @ body) = Inr (word_of_bytes t)"
proof -
  let ?w = "1 # bytes_of_word pcid @ t @ body"
  have e: "rd ?w 0 1 = Inr [1]" by (simp add: rd_def)
  have "rd ([1] @ bytes_of_word pcid @ t @ body) 1 4 = Inr (bytes_of_word pcid)" by (rule rd_mid) simp_all
  then show "pc_wkb_get_pcid ?w = Inr pcid" using e by (simp add: pc_wkb_get_pcid_def)
  have "rd ((1 # bytes_of_word pcid) @ t @ body) 5 4 = Inr t" by (rule rd_mid) (use assms in simp_all)
  then show "wkb_get_compression ?w = Inr (word_of_bytes t)" using e by (simp add: wkb_get_compression_def)
qed

lemma wkb_read_back:
  assumes h: "patch_holds z laz pa ws" and r: "wkb_ready pa" "laz_genuine laz pa ws" and sch: "p_schema pa = s" and p: "sc_pcid s < 2 ^ 32"
    and xy: "has_xy s ix iy" and def: "stats_defined s ws"
  shows "\<exists>wkb pa' st. pc_patch_to_wkb laz pa = Inr (wkb, length wkb) \<and>
    pc_patch_from_wkb z laz s wkb (length wkb) = Inr pa' \<and> patch_holds z laz pa' ws \<and>
    p_schema pa' = s \<and> patch_type pa' = patch_type pa \<and> stats_of s ws = Inr st \<and> p_stats pa' = Some st \<and>
    p_bounds pa' = read_box (patch_type pa) s ix iy ws \<and>
    typed pa' \<and> compact pa' \<and> laz_genuine laz pa' ws \<and> (\<exists>rest. wkb = 1 # bytes_of_word (word_of_nat (sc_pcid s) :: 32 word) @ rest)"
proof -
  let ?b = "bytes_of_word :: 32 word \<Rightarrow> byte list"
  let ?pc = "?b (word_of_nat (sc_pcid s))"
  have ok: "points_ok s ws" "p_npoints pa = length ws" using holds_points [OF h] sch by auto
  have sr: "schema_ready s" and n: "length ws < 2 ^ 32" using ok(1) by (simp_all add: points_ok_def)
  have lpc: "length ?pc = 4" by (simp add: word_size_def)
  have pc: "unat (word_of_nat (sc_pcid s) :: 32 word) = sc_pcid s" using p by (simp add: unat_of_nat)
  have "\<exists>wkb q t. pc_patch_to_wkb laz pa = Inr (wkb, length wkb) \<and> (\<exists>body. wkb = 1 # ?pc @ ?b t @ body) \<and>
      t = word_of_nat (patch_type pa) \<and> patch_type q = patch_type pa \<and> p_schema q = s \<and> patch_holds z laz q ws \<and> laz_genuine laz q ws \<and>
      p_bounds q = zero_bounds \<and> typed q \<and> compact q \<and> (case q of Uncompressed u \<Rightarrow> pc_patch_uncompressed_from_wkb s wkb (length wkb) = Inr u
       | Dimensional d \<Rightarrow> pc_patch_dimensional_from_wkb s wkb (length wkb) = Inr d
       | Lazperf d \<Rightarrow> pc_patch_lazperf_from_wkb laz s wkb (length wkb) = Inr d)"
  proof (cases pa)
    case (Uncompressed u)
    let ?q = "\<lparr>pa_type = PC_NONE, pa_readonly = PC_FALSE, pa_schema = s, pa_npoints = pa_npoints u, pa_bounds = zero_bounds,
      pa_stats = None, pu_maxpoints = pa_npoints u, pu_datasize = length (pu_data u), pu_data = pu_data u\<rparr>"
    have u: "patch_ok u" "pts u = ws" "pa_schema u = s" "pu_datasize u = pa_npoints u * sc_size s" "pa_type u = PC_NONE" "pa_npoints u = length ws"
      using h r(1) ok(2) sch Uncompressed by simp_all
    have l: "length (pu_data u) = pa_npoints u * sc_size s" "pu_datasize u = length (pu_data u)" using u by (simp_all add: patch_ok_def)
    let ?w = "1 # ?pc @ ?b 0 @ ?b (word_of_nat (pa_npoints u)) @ pu_data u"
    have z: "?b 0 = replicate 4 0" by code_simp
    have lw: "length ?w = 13 + length (pu_data u)" by (simp add: word_size_def)
    have "pc_patch_uncompressed_to_wkb u = Inr (?w, length ?w)"
      using patch_to_wkb_eq [OF l(2)] u(3,5) l(2) unfolding lw by simp
    moreover have "pc_patch_uncompressed_from_wkb s ?w (length ?w) = Inr ?q"
      unfolding lw z using patch_from_wkb_eq [OF sr lpc, of "pa_npoints u" "pu_data u" _ 1] l(1) u(6) n by simp
    moreover have "patch_holds z laz (Uncompressed ?q) ws"
      using u l ok(1) by (simp add: patch_ok_def pts_def stats_ok_def)
    ultimately show ?thesis unfolding Uncompressed
      using l(1) by (intro exI [of _ ?w] exI [of _ "Uncompressed ?q"] exI [of _ 0]) (simp add: pc_patch_to_wkb_def)
  next
    case (Dimensional d)
    let ?q = "\<lparr>pa_type = PC_DIMENSIONAL, pa_readonly = PC_FALSE, pa_schema = s, pa_npoints = length ws, pa_bounds = zero_bounds,
         pa_stats = None, pd_bytes = marked False (pd_bytes d)\<rparr>"
    have d: "dim_holds z d ws" "storable s (length ws) (pd_bytes d)" "pa_type d = 1" "pa_schema d = s" "pa_npoints d = length ws"
      using h r(1) ok(2) sch Dimensional by simp_all
    let ?w = "1 # ?pc @ ?b 1 @ ?b (word_of_nat (length ws)) @ concat (map serial (pd_bytes d))"
    have "length ?w = 13 + length (concat (map serial (pd_bytes d)))" by (simp add: word_size_def)
    then have "pc_patch_dimensional_to_wkb d = Inr (?w, length ?w)"
      using dimensional_to_wkb_eq [of d "length ws"] d(2-5) by simp
    moreover have "pc_patch_dimensional_from_wkb s ?w (length ?w) = Inr ?q"
      by (rule dimensional_from_wkb_eq [OF sr d(2) n lpc])
    moreover have "dim_holds z ?q ws" using d(1,4) marked_coded by (simp add: dim_holds_def stats_ok_def)
    ultimately show ?thesis unfolding Dimensional
      by (intro exI [of _ ?w] exI [of _ "Dimensional ?q"] exI [of _ 1]) (simp add: pc_patch_to_wkb_def)
  next
    case (Lazperf d)
    let ?q = "\<lparr>pa_type = 2, pa_readonly = PC_FALSE, pa_schema = s, pa_npoints = length ws,
      pa_bounds = zero_bounds, pa_stats = None, lz_size = length (lz_data d), lz_data = lz_data d\<rparr>"
    have d: "pa_type d = 2" "pa_schema d = s" "pa_npoints d = length ws" "lz_size d = length (lz_data d)" "length (lz_data d) < 2 ^ 31"
      using r(1) ok(2) sch Lazperf by simp_all
    obtain l where l: "laz = Some l" using r(2) Lazperf by auto
    let ?w = "1 # ?pc @ ?b 2 @ ?b (word_of_nat (length ws)) @ ?b (word_of_nat (length (lz_data d))) @ lz_data d"
    have "length ?w = 17 + length (lz_data d)" by (simp add: word_size_def)
    then have "pc_patch_lazperf_to_wkb laz d = Inr (?w, length ?w)"
      using lazperf_to_wkb_eq [OF d(4)] d unfolding l by simp
    moreover have "pc_patch_lazperf_from_wkb laz s ?w (length ?w) = Inr ?q"
      unfolding l by (rule lazperf_from_wkb_eq [OF lpc n d(5), where e = 1]) simp_all
    moreover have g: "laz_genuine laz (Lazperf ?q) ws" using r(2) d Lazperf by (simp add: laz_from_def)
    moreover have "laz_holds laz ?q ws" by (rule genuine_holds [OF g]) (use ok(1) in \<open>simp_all add: stats_ok_def\<close>)
    ultimately show ?thesis unfolding Lazperf
      by (intro exI [of _ ?w] exI [of _ "Lazperf ?q"] exI [of _ 2]) (simp add: pc_patch_to_wkb_def)
  qed
  then obtain wkb q t body where w: "pc_patch_to_wkb laz pa = Inr (wkb, length wkb)" "wkb = 1 # ?pc @ ?b t @ body"
    "t = word_of_nat (patch_type pa)" and q: "patch_type q = patch_type pa" "p_schema q = s" "patch_holds z laz q ws" "laz_genuine laz q ws"
    "typed q" "compact q" "p_bounds q = zero_bounds" and f: "case q of Uncompressed u \<Rightarrow> pc_patch_uncompressed_from_wkb s wkb (length wkb) = Inr u
       | Dimensional d \<Rightarrow> pc_patch_dimensional_from_wkb s wkb (length wkb) = Inr d
       | Lazperf d \<Rightarrow> pc_patch_lazperf_from_wkb laz s wkb (length wkb) = Inr d"
    by blast
  obtain q' where q': "pc_patch_compute_extent z laz (Some q) = Inr (Some q')" "patch_holds z laz q' ws" "p_schema q' = s"
    "patch_type q' = patch_type pa" "laz_genuine laz q' ws" "typed q'" "compact q'" "p_bounds q' = read_box (patch_type pa) s ix iy ws"
    using compute_extent_holds [OF q(3), of ix iy] xy q by (auto simp: read_box_def)
  obtain pa' st where pa': "pc_patch_compute_stats z laz (Some q') = Inr (Some pa')" "patch_holds z laz pa' ws"
    "stats_of s ws = Inr st" "p_stats pa' = Some st" "p_schema pa' = s" "patch_type pa' = patch_type pa"
    "laz_genuine laz pa' ws" "typed pa'" "compact pa'" "p_bounds pa' = p_bounds q'"
    using compute_stats_holds [OF q'(2,5,3) def] q' by auto
  have c: "pc_wkb_get_pcid wkb = Inr (word_of_nat (sc_pcid s))" "wkb_get_compression wkb = Inr t"
    using wkb_header [of "?b t" "word_of_nat (sc_pcid s)" body] unfolding w(2) by (simp_all add: word_size_def)
  have nz: "length wkb \<noteq> 0" unfolding w(2) by simp
  have "pc_patch_from_wkb z laz s wkb (length wkb) = Inr pa'"
    unfolding pc_patch_from_wkb_def if_not_P [OF nz] c bindE_Inr pc
    using f q(1) [symmetric] w(3) q'(1) pa'(1) by (cases q) simp_all
  then show ?thesis using w(1,2) pa' q'(8) by metis
qed

lemma range_cases:
  assumes h: "patch_holds z laz pa ws" "p_schema pa = s" and xy: "has_xy s ix iy" "0 < sc_size s"
    and f: "- (2 ^ 31) < first" "first < 2 ^ 31" and def: "take (nat cnt) (drop (nat (first - 1)) ws) \<noteq> [] \<longrightarrow> stats_defined s (take (nat cnt) (drop (nat (first - 1)) ws))"
  shows "if first < 1 \<or> int (length ws) < first \<or> cnt < 1 then pc_patch_range z laz pa first cnt = Inr None
    else if first = 1 \<and> int (length ws) \<le> cnt then pc_patch_range z laz pa first cnt = Inr (Some pa)
    else \<exists>st. stats_of s (take (nat cnt) (drop (nat (first - 1)) ws)) = Inr st \<and> pc_patch_range z laz pa first cnt =
      Inr (Some (Uncompressed ((patch_of s ix iy (take (nat cnt) (drop (nat (first - 1)) ws)))\<lparr>pa_stats := Some st\<rparr>)))"
proof (cases "first < 1 \<or> int (length ws) < first \<or> cnt < 1")
  case True
  then show ?thesis using range_none [OF h(1) True f] by simp
next
  case False
  let ?i = "nat (first - 1)" and ?k = "min (nat cnt) (length ws - nat (first - 1))"
  have i: "first = int ?i + 1" "?i < length ws" "0 < ?k" using False by auto
  have t: "take (nat cnt) (drop ?i ws) = take ?k (drop ?i ws)" by (simp add: min_def)
  show ?thesis
  proof (cases "?k = length ws")
    case True
    then have "?i = 0" "length ws \<le> nat cnt" "ws \<noteq> []" using i(2) by (auto simp: min_def split: if_splits)
    moreover from this have "int (length ws) \<le> cnt" using i(3) by linarith
    ultimately show ?thesis using range_all [OF h(1), of cnt] i(1) False by auto
  next
    case n: False
    have r: "?i + ?k \<le> length ws" "?k < length ws" "int ?k \<le> cnt" "cnt = int ?k \<or> ?i + ?k = length ws"
      using n i(2) False by (cases "nat cnt \<le> length ws - ?i"; simp)+
    have "\<not> (first = 1 \<and> int (length ws) \<le> cnt)" using n i by auto
    moreover have "take (nat cnt) (drop ?i ws) \<noteq> []" using i(2,3) unfolding t by simp
    moreover from this obtain st where "stats_of s (take ?k (drop ?i ws)) = Inr st" "pc_patch_range z laz pa (int ?i + 1) cnt =
        Inr (Some (Uncompressed ((patch_of s ix iy (take ?k (drop ?i ws)))\<lparr>pa_stats := Some st\<rparr>)))"
      using range_eq [OF h xy r(1) i(3) r(2-4) mp [OF def, unfolded t]] t by auto
    ultimately show ?thesis unfolding t i(1) [symmetric] using False by auto
  qed
qed

section \<open>Properties\<close>

definition demo_dim :: PCSCHEMA where
  "demo_dim = demo_xy\<lparr>sc_compression := PC_DIMENSIONAL\<rparr>"

lemma demo_dim_ready: "schema_ready demo_dim" "sc_ndims demo_dim = 2" "sc_size demo_dim = 5" "sdim demo_dim j = sdim demo_xy j"
proof -
  show "sc_ndims demo_dim = 2" "sc_size demo_dim = 5" by (simp_all add: demo_dim_def demo_xy_ready)
  show "sdim demo_dim j = sdim demo_xy j" for j by (simp add: demo_dim_def sdim_def)
  show "schema_ready demo_dim" using demo_xy_ready(1)
    by (simp add: schema_ready_def schema_wf_def demo_dim_def layout_ok_def sdim_def)
qed

text \<open>
  C6: Compressing a patch of any representation to the compression of its schema gives a patch of that
  representation with the same schema, box and statistics, and uncompressing this one gives the same
  points in the same order. This needs only that the compressor takes the data; a dimensional patch given
  for dimensional compression has to be uncompressed itself.
\<close>

theorem compress_keeps_points:
  assumes "patch_holds z laz pa ws" "compressible z laz pds pa ws"
  shows "\<exists>pa' pds' p. pc_patch_compress z laz pa pds = Inr (pa', pds') \<and> patch_type pa' = sc_compression (p_schema pa) \<and>
    p_schema pa' = p_schema pa \<and> p_bounds pa' = p_bounds pa \<and> own (p_stats pa') = own (p_stats pa) \<and>
    pc_patch_uncompress z laz pa' = Inr p \<and> patch_ok p \<and> pts p = ws"
proof -
  obtain pa' pds' where c: "pc_patch_compress z laz pa pds = Inr (pa', pds')" "patch_holds z laz pa' ws"
    "patch_type pa' = sc_compression (p_schema pa)" "p_schema pa' = p_schema pa" "p_bounds pa' = p_bounds pa" "own (p_stats pa') = own (p_stats pa)"
    using compress_holds [OF assms] by blast
  obtain p where "pc_patch_uncompress z laz pa' = Inr p" "patch_holds z laz (Uncompressed p) ws"
    using uncompress_ok [OF c(2)] by blast
  then show ?thesis using c by auto
qed

theorem compress_keeps_points_witness:
  "\<exists>pa pds p. pc_patch_compress store_zlib None (Uncompressed (patch_of demo_dim 0 1 demo_pts)) None = Inr (pa, pds) \<and>
     patch_type pa = PC_DIMENSIONAL \<and> pc_patch_uncompress store_zlib None pa = Inr p \<and> pts p = [[1, 2, 3, 4, 5], [6, 7, 8, 9, 10]]"
proof -
  let ?p = "patch_of demo_dim 0 1 demo_pts"
  have ok: "points_ok demo_dim demo_pts" using demo_dim_ready by (simp add: points_ok_def demo_pts_def widths_def)
  have h: "patch_holds store_zlib None (Uncompressed ?p) demo_pts"
    using patch_of_holds [OF ok, where st = None and b = "extent demo_dim 0 1 demo_pts" and ix = 0 and iy = 1]
    by (simp add: stats_ok_def) (simp add: patch_of_def)
  have "zlib_fits store_zlib (col_array demo_dim demo_pts j)" if "j < 2" for j
    by (rule store_zlib_fits [OF col_array_plain(1) [OF ok]])
      (use that less_2 [of j] demo_dim_ready in \<open>auto simp: demo_xy_facts demo_sizes col_array_def demo_pts_def\<close>)
  then have "compressible store_zlib None None (Uncompressed ?p) demo_pts"
    by (simp add: compressible_def patch_of_def demo_dim_ready) (simp add: demo_dim_def demo_pts_def)
  from compress_keeps_points [OF h this] show ?thesis by (auto simp: patch_of_def demo_dim_def demo_pts_def)
qed

text \<open>
  C7: The patch made of several patches, each of any representation, holds the points of the first, then
  those of the second, and so on; when the boxes of the patches are the extents of their points, so is
  its box. All the copies stay inside the buffer that was sized from the counts.
\<close>

theorem patchlist_concatenates:
  assumes "holds_all z laz s pas wss" "pas \<noteq> []" "0 < sc_size s" "length (concat wss) < 2 ^ 26" "stats_defined s (concat wss)"
  shows "\<exists>p st. pc_patch_from_patchlist z laz pas = Inr p \<and> patch_ok p \<and> pa_schema p = s \<and> pts p = concat wss \<and>
    stats_of s (concat wss) = Inr st \<and> pa_stats p = Some st \<and>
    ((\<forall>i < length pas. p_bounds (pas ! i) = extent s ix iy (wss ! i)) \<and>
     (\<forall>w \<in> set (concat wss). \<not> d_isnan (pval s ix w) \<and> \<not> d_isnan (pval s iy w)) \<longrightarrow>
     pa_bounds p = extent s ix iy (concat wss))"
proof -
  let ?b = "fold (\<lambda>pa b. pc_bounds_merge b (p_bounds pa)) pas pc_bounds_init"
  let ?p = "\<lambda>st. (patch_of s ix iy (concat wss))\<lparr>pa_bounds := ?b, pa_stats := Some st\<rparr>"
  obtain st where st: "stats_of s (concat wss) = Inr st" "pc_patch_from_patchlist z laz pas = Inr (?p st)"
    using from_patchlist_eq [OF assms] by blast
  have ok: "points_ok s (concat wss)" using holds_all_points [OF assms(1,2,4)] .
  then have s: "schema_ready s" by (simp add: points_ok_def)
  have "patch_holds z laz (Uncompressed (?p st)) (concat wss)"
    by (rule patch_of_holds [OF ok stats_of_ok [OF s st(1)]])
  then have "patch_ok (?p st)" "pts (?p st) = concat wss" "pa_schema (?p st) = s" by (simp_all add: patch_of_def)
  moreover have "?b = extent s ix iy (concat wss)"
    if "\<forall>i < length pas. p_bounds (pas ! i) = extent s ix iy (wss ! i)"
      "\<forall>w \<in> set (concat wss). \<not> d_isnan (pval s ix w) \<and> \<not> d_isnan (pval s iy w)"
    using merged_extent [OF assms(1) that(1), of "[]"] that(2) by (simp add: extent_def)
  ultimately show ?thesis using st by (intro exI [of _ "?p st"] exI [of _ st]) (simp add: patch_of_def)
qed

theorem patchlist_concatenates_witness:
  "\<exists>p. pc_patch_from_patchlist store_zlib None
      [Uncompressed (patch_of demo_xy 0 1 [[1, 2, 3, 4, 5]]), Uncompressed (patch_of demo_xy 0 1 [[6, 7, 8, 9, 10]])] = Inr p \<and>
     pts p = demo_pts \<and> pa_bounds p = extent demo_xy 0 1 demo_pts"
proof -
  let ?w = "[1, 2, 3, 4, 5 :: byte]" and ?v = "[6, 7, 8, 9, 10 :: byte]"
  let ?pas = "[Uncompressed (patch_of demo_xy 0 1 [?w]), Uncompressed (patch_of demo_xy 0 1 [?v])]"
  have one: "patch_holds store_zlib None (Uncompressed (patch_of demo_xy 0 1 [w])) [w]" if "length w = 5" for w
    using patch_of_holds [of demo_xy "[w]", where st = None and z = store_zlib and laz = None and ix = 0 and iy = 1 and b = "extent demo_xy 0 1 [w]"] that demo_xy_ready
    by (simp add: points_ok_def widths_def stats_ok_def) (simp add: patch_of_def)
  have c: "concat [[?w], [?v]] = demo_pts" by (simp add: demo_pts_def)
  have h: "holds_all store_zlib None demo_xy ?pas [[?w], [?v]]"
    using one [of ?w] one [of ?v] by (simp add: holds_all_def del: patch_holds.simps) (simp add: patch_of_def)
  have "\<forall>w \<in> set demo_pts. \<not> d_isnan (pval demo_xy 0 w) \<and> \<not> d_isnan (pval demo_xy 1 w)"
    using demo_pval by (simp add: demo_pts_def)
  moreover have "\<forall>i < length ?pas. p_bounds (?pas ! i) = extent demo_xy 0 1 ([[?w], [?v]] ! i)"
    by (simp add: less_2 nth_Cons' patch_of_def)
  moreover have "0 < sc_size demo_xy" "length demo_pts < 2 ^ 26" by (simp_all add: demo_xy_ready demo_pts_def)
  ultimately show ?thesis
    using patchlist_concatenates [OF h, unfolded c, of 0 1] demo_stats_defined by blast
qed

text \<open>
  A range of a patch (from 1, with a count that may be too large) is the corresponding part of its
  list of points, with its own box and statistics; a range before the first point, behind the last or
  without points is none. The whole patch is returned as it is.
\<close>

theorem range_takes_points:
  assumes "patch_holds z laz pa ws" "has_xy (p_schema pa) ix iy" "0 < sc_size (p_schema pa)"
    and "- (2 ^ 31) < first" "first < 2 ^ 31"
    and "take (nat cnt) (drop (nat (first - 1)) ws) \<noteq> [] \<longrightarrow> stats_defined (p_schema pa) (take (nat cnt) (drop (nat (first - 1)) ws))"
  shows "if first < 1 \<or> int (length ws) < first \<or> cnt < 1 then pc_patch_range z laz pa first cnt = Inr None
    else \<exists>q. pc_patch_range z laz pa first cnt = Inr (Some q) \<and> p_schema q = p_schema pa \<and>
      patch_holds z laz q (take (nat cnt) (drop (nat (first - 1)) ws)) \<and>
      (first = 1 \<and> int (length ws) \<le> cnt \<longrightarrow> q = pa)"
proof -
  let ?s = "p_schema pa" and ?vs = "take (nat cnt) (drop (nat (first - 1)) ws)"
  note r = range_cases [OF assms(1) refl assms(2-6)]
  show ?thesis
  proof (cases "first < 1 \<or> int (length ws) < first \<or> cnt < 1 \<or> first = 1 \<and> int (length ws) \<le> cnt")
    case True
    then show ?thesis using r assms(1) by auto
  next
    case False
    then obtain st where st: "stats_of ?s ?vs = Inr st" "pc_patch_range z laz pa first cnt =
        Inr (Some (Uncompressed ((patch_of ?s ix iy ?vs)\<lparr>pa_stats := Some st\<rparr>)))" using r by auto
    have "points_ok ?s ws" using holds_points(1) [OF assms(1)] .
    then have ok: "points_ok ?s ?vs" "schema_ready ?s" by (auto simp: points_ok_def widths_def dest: in_set_takeD in_set_dropD)
    have q: "(patch_of ?s ix iy ?vs)\<lparr>pa_bounds := extent ?s ix iy ?vs, pa_stats := Some st\<rparr> = (patch_of ?s ix iy ?vs)\<lparr>pa_stats := Some st\<rparr>"
      by (simp add: patch_of_def)
    have "patch_holds z laz (Uncompressed ((patch_of ?s ix iy ?vs)\<lparr>pa_stats := Some st\<rparr>)) ?vs"
      using patch_of_holds [OF ok(1) stats_of_ok [OF ok(2) st(1)], where ix = ix and iy = iy and b = "extent ?s ix iy ?vs", unfolded q] .
    moreover have "p_schema (Uncompressed ((patch_of ?s ix iy ?vs)\<lparr>pa_stats := Some st\<rparr>)) = ?s" by (simp add: patch_of_def)
    ultimately show ?thesis using False st(2) by (metis (no_types, lifting))
  qed
qed

theorem range_takes_points_witness:
  "\<exists>q. pc_patch_range store_zlib None (Uncompressed demo_patch) 2 5 = Inr (Some q) \<and>
     patch_holds store_zlib None q [[6, 7, 8, 9, 10]]"
proof -
  have "take (nat 5) (drop (nat (2 - 1)) demo_pts) = [[6, 7, 8, 9, 10]]" by (simp add: demo_pts_def)
  then show ?thesis
    using range_takes_points [OF demo_holds(1), of 0 1 2 5 store_zlib None] demo_stats_last demo_holds(2) demo_xy_ready
    by (auto simp: demo_pts_def)
qed

text \<open>
  Point \<open>n\<close> of a patch of any representation, counted from 1 or from the end with negative numbers,
  is that point of its list, and every other number gives no point; the list of the points of the patch
  has them all in order.
\<close>

theorem points_by_number:
  assumes "patch_holds z laz pa ws" "accessible pa" "0 < sc_size (p_schema pa)" "- (2 ^ 31) \<le> n" "n < 2 ^ 31"
  shows "(if n = 0 \<or> int (length ws) < \<bar>n\<bar> then pc_patch_pointn z laz (Some pa) n = Inr None
     else \<exists>pt. pc_patch_pointn z laz (Some pa) n = Inr (Some pt) \<and> pt_schema pt = p_schema pa \<and>
       take (sc_size (p_schema pa)) (pt_data pt) = ws ! nat (if n < 0 then int (length ws) + n else n - 1)) \<and>
    (\<exists>pl. pc_pointlist_from_patch z laz pa = Inr pl \<and> pl_npoints pl = length ws \<and>
       (\<forall>i < length ws. \<exists>pt. pc_pointlist_get_point pl (int i) = Inr (Some pt) \<and> pt_schema pt = p_schema pa \<and>
          take (sc_size (p_schema pa)) (pt_data pt) = ws ! i))"
proof (rule conjI [OF _ pointlist_eq [OF assms(1)]])
  let ?i = "nat (if n < 0 then int (length ws) + n else n - 1)"
  show "if n = 0 \<or> int (length ws) < \<bar>n\<bar> then pc_patch_pointn z laz (Some pa) n = Inr None
     else \<exists>pt. pc_patch_pointn z laz (Some pa) n = Inr (Some pt) \<and> pt_schema pt = p_schema pa \<and>
       take (sc_size (p_schema pa)) (pt_data pt) = ws ! ?i"
  proof (cases "n = 0 \<or> int (length ws) < \<bar>n\<bar>")
    case True
    then show ?thesis using pointn_none [OF assms(1) True assms(4,5)] by simp
  next
    case False
    then have "?i < length ws" "n = int ?i + 1 \<or> n = int ?i - int (length ws)" by auto
    from pointn_at [OF assms(1-3) this] False show ?thesis by simp
  qed
qed

theorem points_by_number_witness:
  "\<exists>pt. pc_patch_pointn store_zlib None (Some (Uncompressed demo_patch)) (- 1) = Inr (Some pt) \<and>
     take 5 (pt_data pt) = [6, 7, 8, 9, 10]"
  using points_by_number [OF demo_holds(1), of "- 1" store_zlib None] demo_holds(2) demo_xy_ready
  by (auto simp: demo_pts_def)

text \<open>
  C10: A patch of any representation, written in binary form and read again with its schema, holds the
  same points in the same representation, with the statistics of these points.
\<close>

theorem patch_read_back:
  assumes "patch_holds z laz pa ws" "wkb_ready pa" "laz_genuine laz pa ws" "sc_pcid (p_schema pa) < 2 ^ 32"
    and "has_xy (p_schema pa) ix iy" "stats_defined (p_schema pa) ws"
  shows "\<exists>wkb pa' p st. pc_patch_to_wkb laz pa = Inr (wkb, length wkb) \<and>
    pc_patch_from_wkb z laz (p_schema pa) wkb (length wkb) = Inr pa' \<and> patch_type pa' = patch_type pa \<and>
    pc_patch_uncompress z laz pa' = Inr p \<and> patch_ok p \<and> pts p = ws \<and>
    stats_of (p_schema pa) ws = Inr st \<and> p_stats pa' = Some st"
proof -
  obtain wkb pa' st where w: "pc_patch_to_wkb laz pa = Inr (wkb, length wkb)"
    "pc_patch_from_wkb z laz (p_schema pa) wkb (length wkb) = Inr pa'" "patch_holds z laz pa' ws"
    "patch_type pa' = patch_type pa" "stats_of (p_schema pa) ws = Inr st" "p_stats pa' = Some st"
    using wkb_read_back [OF assms(1-3) refl assms(4-6)] by blast
  obtain p where "pc_patch_uncompress z laz pa' = Inr p" "patch_holds z laz (Uncompressed p) ws"
    using uncompress_ok [OF w(3)] by blast
  then show ?thesis using w by auto
qed

theorem patch_read_back_witness:
  "\<exists>wkb pa p. pc_patch_to_wkb None (Uncompressed demo_patch) = Inr (wkb, length wkb) \<and>
     pc_patch_from_wkb store_zlib None demo_xy wkb (length wkb) = Inr pa \<and>
     pc_patch_uncompress store_zlib None pa = Inr p \<and> pts p = demo_pts"
proof -
  have "wkb_ready (Uncompressed demo_patch)" using patch_capacity [OF demo_patch_ok(1)] by (simp add: demo_patch_ok)
  moreover have "sc_pcid demo_xy < 2 ^ 32" by (simp add: demo_xy_def demo_schema_pcid)
  ultimately show ?thesis
    using patch_read_back [OF demo_holds(1), of None 0 1 store_zlib] demo_holds(2) demo_xy_ready(2) demo_stats_defined by auto
qed

end
