(* ===== verification/PC_Storage.thy ===== *)
theory PC_Storage
  imports PC_Patch_Points
begin

text \<open>
  The storage format of pgsql/pc_pgsql.c: a point or a patch as one variable-length datum of the database.

  PostgreSQL is a parameter (\<open>pg\<close>): the macros that write and read the length word of a datum and that
  align the size of a buffer, and the allocator, of which the contents of fresh memory are unknown. The two
  structures are records of their header fields and of the bytes from the offset of \<open>data\<close> to the end of
  the allocation; \<open>sizeof\<close> and the offsets are those of a 64-bit machine. A pointer into these bytes is an
  offset; a patch or a statistic that refers to them is a window, of which the record has the contents.
\<close>

record pg =
  pg_set_varsize :: "nat \<Rightarrow> 32 word"
  pg_varsize :: "32 word \<Rightarrow> nat"
  pg_bufferalign :: "nat \<Rightarrow> nat"
  pg_palloc :: "nat \<Rightarrow> byte list"

text \<open>
  The documented behaviour: a length below 1 GB is read back, aligning does not make a size smaller, and the
  allocator gives as many bytes as it is asked for.
\<close>

definition pg_works :: "pg \<Rightarrow> bool" where
  "pg_works pg = ((\<forall>n < 2 ^ 30. pg_varsize pg (pg_set_varsize pg n) = n) \<and> (\<forall>n. n \<le> pg_bufferalign pg n) \<and>
     (\<forall>n. length (pg_palloc pg n) = n))"

abbreviation (input) "sizeof_point \<equiv> 12 :: nat"
abbreviation (input) "data_of_point \<equiv> 8 :: nat"
abbreviation (input) "sizeof_patch \<equiv> 56 :: nat"
abbreviation (input) "data_of_patch \<equiv> 48 :: nat"

record SERIALIZED_POINT =
  spt_size :: "32 word"
  spt_pcid :: nat
  spt_data :: "byte list"

record SERIALIZED_PATCH =
  sp_size :: "32 word"
  sp_pcid :: nat
  sp_compression :: nat
  sp_npoints :: nat
  sp_bounds :: PCBOUNDS
  sp_data :: "byte list"

section \<open>Points\<close>

definition pc_point_serialize :: "pg \<Rightarrow> PCPOINT \<Rightarrow> SERIALIZED_POINT res" where
  "pc_point_serialize pg pt =
     (let size = sc_size (pt_schema pt); serpt_size = sizeof_point - 1 + size in
     bindE (rd (pt_data pt) 0 size) (\<lambda>d.
     bindE (wr (drop data_of_point (pg_palloc pg serpt_size)) 0 d) (\<lambda>data.
     Inr \<lparr>spt_size = pg_set_varsize pg serpt_size, spt_pcid = sc_pcid (pt_schema pt), spt_data = data\<rparr>)))"

definition pc_point_deserialize :: "pg \<Rightarrow> SERIALIZED_POINT \<Rightarrow> PCSCHEMA \<Rightarrow> PCPOINT res" where
  "pc_point_deserialize pg serpt schema =
     (let pgsize = nat ((int (pg_varsize pg (spt_size serpt)) + 1 - int sizeof_point) mod 2 ^ 64) in
     if sc_size schema \<noteq> pgsize then Inl (PcError ''schema size and disk size mismatch, repair the schema'')
     else pc_point_from_data (Some schema) (spt_data serpt))"

section \<open>Patches\<close>

definition common_size :: "pg \<Rightarrow> nat" where
  "common_size pg = pg_bufferalign pg sizeof_patch - 1"

definition pc_patch_serialized_size :: "pg \<Rightarrow> patch \<Rightarrow> nat res" where
  "pc_patch_serialized_size pg patch =
     (let stats_size = pc_stats_size (p_schema patch) in case patch of
       Uncompressed pu \<Rightarrow> Inr (common_size pg + stats_size + pu_datasize pu)
     | Dimensional pd \<Rightarrow> bindE (pc_patch_dimensional_serialized_size pd) (\<lambda>n. Inr (common_size pg + stats_size + n))
     | Lazperf pl \<Rightarrow> Inr (common_size pg + stats_size + 4 + lz_size pl))"

text \<open>Writes at \<open>off\<close>; returns the buffer and the size of what is written.\<close>

definition pc_patch_stats_serialize :: "byte list \<Rightarrow> nat \<Rightarrow> PCSCHEMA \<Rightarrow> PCSTATS \<Rightarrow> (byte list \<times> nat) res" where
  "pc_patch_stats_serialize buf off schema stats = (let sz = sc_size schema in
     bindE (rd (pt_data (st_min stats)) 0 sz) (\<lambda>d. bindE (wr buf off d) (\<lambda>buf.
     bindE (rd (pt_data (st_max stats)) 0 sz) (\<lambda>d. bindE (wr buf (off + sz) d) (\<lambda>buf.
     bindE (rd (pt_data (st_avg stats)) 0 sz) (\<lambda>d. bindE (wr buf (off + 2 * sz) d) (\<lambda>buf.
     Inr (buf, sz * 3))))))))"

text \<open>The three points are windows of the buffer, each of the size of a point.\<close>

definition pc_patch_stats_deserialize :: "PCSCHEMA \<Rightarrow> byte list \<Rightarrow> PCSTATS" where
  "pc_patch_stats_deserialize schema buf = (let sz = sc_size schema in
     pc_stats_new_from_data schema (take sz buf) (take sz (drop sz buf)) (take sz (drop (2 * sz) buf)))"

definition pc_patch_dimensional_serialize :: "pg \<Rightarrow> PCPATCH_DIMENSIONAL \<Rightarrow> SERIALIZED_PATCH res" where
  "pc_patch_dimensional_serialize pg patch =
     bindE (pc_patch_serialized_size pg (Dimensional patch)) (\<lambda>serpch_size.
     let buf = pcalloc (serpch_size - data_of_patch) in
     case pa_stats patch of None \<Rightarrow> Inl (PcError ''pc_patch_dimensional_serialize: stats missing!'')
     | Some stats \<Rightarrow> bindE (pc_patch_stats_serialize buf 0 (pa_schema patch) stats) (\<lambda>(buf, off).
         bindE (foldE (\<lambda>i (buf, off). bindE (rdx (pd_bytes patch) i) (\<lambda>pcb.
                  bindE (pc_bytes_serialize pcb buf off) (\<lambda>(buf, bsize). Inr (buf, off + bsize))))
                [0..<sc_ndims (pa_schema patch)] (buf, off)) (\<lambda>(buf, _).
         Inr \<lparr>sp_size = pg_set_varsize pg serpch_size, sp_pcid = sc_pcid (pa_schema patch), sp_compression = pa_type patch,
              sp_npoints = pa_npoints patch, sp_bounds = pa_bounds patch, sp_data = buf\<rparr>)))"

definition pc_patch_lazperf_serialize :: "pg \<Rightarrow> PCPATCH_LAZPERF \<Rightarrow> SERIALIZED_PATCH res" where
  "pc_patch_lazperf_serialize pg patch =
     bindE (pc_patch_serialized_size pg (Lazperf patch)) (\<lambda>serpch_size.
     let buf = pcalloc (serpch_size - data_of_patch); lazsize = word_of_nat (lz_size patch) :: 32 word in
     case pa_stats patch of None \<Rightarrow> Inl (PcError ''pc_patch_lazperf_serialize: stats missing!'')
     | Some stats \<Rightarrow> bindE (pc_patch_stats_serialize buf 0 (pa_schema patch) stats) (\<lambda>(buf, off).
         bindE (wr buf off (bytes_of_word lazsize)) (\<lambda>buf.
         bindE (rd (lz_data patch) 0 (lz_size patch)) (\<lambda>d.
         bindE (wr buf (off + 4) d) (\<lambda>buf.
         Inr \<lparr>sp_size = pg_set_varsize pg serpch_size, sp_pcid = sc_pcid (pa_schema patch), sp_compression = pa_type patch,
              sp_npoints = pa_npoints patch, sp_bounds = pa_bounds patch, sp_data = buf\<rparr>)))))"

definition pc_patch_uncompressed_serialize :: "pg \<Rightarrow> PCPATCH_UNCOMPRESSED \<Rightarrow> SERIALIZED_PATCH res" where
  "pc_patch_uncompressed_serialize pg patch =
     bindE (pc_patch_serialized_size pg (Uncompressed patch)) (\<lambda>serpch_size.
     let buf = pcalloc (serpch_size - data_of_patch) in
     case pa_stats patch of None \<Rightarrow> Inl (PcError ''pc_patch_uncompressed_serialize: stats missing!'')
     | Some stats \<Rightarrow> bindE (pc_patch_stats_serialize buf 0 (pa_schema patch) stats) (\<lambda>(buf, off).
         bindE (rd (pu_data patch) 0 (pu_datasize patch)) (\<lambda>d.
         bindE (wr buf off d) (\<lambda>buf.
         Inr \<lparr>sp_size = pg_set_varsize pg serpch_size, sp_pcid = sc_pcid (pa_schema patch), sp_compression = pa_type patch,
              sp_npoints = pa_npoints patch, sp_bounds = pa_bounds patch, sp_data = buf\<rparr>))))"

text \<open>The statistics of dimensions of the caller are the second component of the result.\<close>

definition pc_patch_serialize ::
  "pg \<Rightarrow> zlib \<Rightarrow> lazperf option \<Rightarrow> patch \<Rightarrow> PCDIMSTATS option \<Rightarrow> (SERIALIZED_PATCH \<times> PCDIMSTATS option) res" where
  "pc_patch_serialize pg z laz patch_in userdata =
     (if p_stats patch_in = None then Inl (PcError ''pc_patch_serialize: patch is missing stats'')
      else bindE (if patch_type patch_in \<noteq> sc_compression (p_schema patch_in)
                  then pc_patch_compress z laz patch_in userdata
                  else Inr (patch_in, userdata)) (\<lambda>(patch, userdata).
           bindE (case patch of
               Uncompressed p \<Rightarrow> pc_patch_uncompressed_serialize pg p
             | Dimensional p \<Rightarrow> pc_patch_dimensional_serialize pg p
             | Lazperf p \<Rightarrow> pc_patch_lazperf_serialize pg p) (\<lambda>serpatch. Inr (serpatch, userdata))))"

definition pc_patch_serialize_to_uncompressed :: "pg \<Rightarrow> zlib \<Rightarrow> lazperf option \<Rightarrow> patch \<Rightarrow> SERIALIZED_PATCH res" where
  "pc_patch_serialize_to_uncompressed pg z laz patch_in =
     bindE (pc_patch_uncompress z laz patch_in) (pc_patch_uncompressed_serialize pg)"

definition pc_patch_uncompressed_deserialize :: "pg \<Rightarrow> SERIALIZED_PATCH \<Rightarrow> PCSCHEMA \<Rightarrow> PCPATCH_UNCOMPRESSED res" where
  "pc_patch_uncompressed_deserialize pg serpatch schema =
     (let stats_size = pc_stats_size schema; buf = sp_data serpatch;
          datasize = nat ((int (pg_varsize pg (sp_size serpatch)) - int (pg_bufferalign pg sizeof_patch) + 1 - int stats_size) mod 2 ^ 64)
      in if datasize \<noteq> sp_npoints serpatch * sc_size schema mod 2 ^ 64
         then Inl (PcError ''pc_patch_uncompressed_deserialize: calculated patch data sizes don't match (%d != %d)'')
         else Inr \<lparr>pa_type = sp_compression serpatch, pa_readonly = PC_TRUE, pa_schema = schema,
                   pa_npoints = sp_npoints serpatch, pa_bounds = sp_bounds serpatch,
                   pa_stats = Some (pc_patch_stats_deserialize schema buf), pu_maxpoints = 0, pu_datasize = datasize,
                   pu_data = take datasize (drop stats_size buf)\<rparr>)"

definition pc_patch_dimensional_deserialize :: "SERIALIZED_PATCH \<Rightarrow> PCSCHEMA \<Rightarrow> PCPATCH_DIMENSIONAL res" where
  "pc_patch_dimensional_deserialize serpatch schema =
     (let ndims = sc_ndims schema; npoints = sp_npoints serpatch; stats_size = pc_stats_size schema in
     bindE (foldE (read_dimension schema npoints True (sp_data serpatch) False) [0..<ndims]
              (replicate ndims zero_bytes, stats_size)) (\<lambda>(bytes, _).
     Inr \<lparr>pa_type = sp_compression serpatch, pa_readonly = PC_TRUE, pa_schema = schema, pa_npoints = npoints,
          pa_bounds = sp_bounds serpatch, pa_stats = Some (pc_patch_stats_deserialize schema (sp_data serpatch)),
          pd_bytes = bytes\<rparr>))"

definition pc_patch_lazperf_deserialize :: "SERIALIZED_PATCH \<Rightarrow> PCSCHEMA \<Rightarrow> PCPATCH_LAZPERF res" where
  "pc_patch_lazperf_deserialize serpatch schema =
     (let stats_size = pc_stats_size schema; buf = sp_data serpatch in
     bindE (rd buf stats_size 4) (\<lambda>n. let lazperfsize = unat (word_of_bytes n :: 32 word) in
     bindE (rd buf (stats_size + 4) lazperfsize) (\<lambda>d.
     Inr \<lparr>pa_type = sp_compression serpatch, pa_readonly = PC_TRUE, pa_schema = schema, pa_npoints = sp_npoints serpatch,
          pa_bounds = sp_bounds serpatch, pa_stats = Some (pc_patch_stats_deserialize schema buf),
          lz_size = lazperfsize, lz_data = d\<rparr>)))"

definition pc_patch_deserialize :: "pg \<Rightarrow> SERIALIZED_PATCH \<Rightarrow> PCSCHEMA \<Rightarrow> patch res" where
  "pc_patch_deserialize pg serpatch schema =
     (if sp_compression serpatch = PC_NONE
      then bindE (pc_patch_uncompressed_deserialize pg serpatch schema) (\<lambda>p. Inr (Uncompressed p))
      else if sp_compression serpatch = PC_DIMENSIONAL
      then bindE (pc_patch_dimensional_deserialize serpatch schema) (\<lambda>p. Inr (Dimensional p))
      else if sp_compression serpatch = PC_LAZPERF
      then bindE (pc_patch_lazperf_deserialize serpatch schema) (\<lambda>p. Inr (Lazperf p))
      else Inl (PcError ''pc_patch_deserialize: unsupported compression type''))"

section \<open>The envelope\<close>

text \<open>The setters of this file return the buffer and the advanced write position.\<close>

definition pc_patch_wkb_set_double :: "byte list \<Rightarrow> nat \<Rightarrow> double \<Rightarrow> (byte list \<times> nat) res" where
  "pc_patch_wkb_set_double wkb off d = bindE (wr wkb off (bytes_of_word d)) (\<lambda>wkb. Inr (wkb, off + 8))"

definition pc_patch_wkb_set_int32 :: "byte list \<Rightarrow> nat \<Rightarrow> 32 word \<Rightarrow> (byte list \<times> nat) res" where
  "pc_patch_wkb_set_int32 wkb off i = bindE (wr wkb off (bytes_of_word i)) (\<lambda>wkb. Inr (wkb, off + 4))"

definition pc_patch_wkb_set_char :: "byte list \<Rightarrow> nat \<Rightarrow> byte \<Rightarrow> (byte list \<times> nat) res" where
  "pc_patch_wkb_set_char wkb off c = bindE (wr wkb off [c]) (\<lambda>wkb. Inr (wkb, off + 1))"

text \<open>
  The function also computes a box that is slightly bigger than a point; it is not used: the corners are
  those of the patch.
\<close>

definition pc_patch_to_geometry_wkb_envelope :: "pg \<Rightarrow> SERIALIZED_PATCH \<Rightarrow> PCSCHEMA \<Rightarrow> (byte list \<times> nat) res" where
  "pc_patch_to_geometry_wkb_envelope pg pa schema =
     (let npoints = 5; nrings = 1; b = sp_bounds pa; has_srid = (0 < sc_srid schema);
          wkbtype = (if has_srid then 3 OR srid_mask else 3); size = 1 + 4 + 4 + 4 + 2 * npoints * 8 + (if has_srid then 4 else 0) in
     bindE (pc_patch_wkb_set_char (pg_palloc pg size) 0 machine_endian) (\<lambda>(wkb, ptr).
     bindE (pc_patch_wkb_set_int32 wkb ptr wkbtype) (\<lambda>(wkb, ptr).
     bindE (if has_srid then pc_patch_wkb_set_int32 wkb ptr (word_of_nat (sc_srid schema)) else Inr (wkb, ptr)) (\<lambda>(wkb, ptr).
     bindE (pc_patch_wkb_set_int32 wkb ptr nrings) (\<lambda>(wkb, ptr).
     bindE (pc_patch_wkb_set_int32 wkb ptr (word_of_nat npoints)) (\<lambda>(wkb, ptr).
     bindE (foldE (\<lambda>d (wkb, ptr). pc_patch_wkb_set_double wkb ptr d)
              [b_xmin b, b_ymin b, b_xmin b, b_ymax b, b_xmax b, b_ymax b, b_xmax b, b_ymin b, b_xmin b, b_ymin b] (wkb, ptr)) (\<lambda>(wkb, _).
     Inr (wkb, size))))))))"

section \<open>The stored bytes\<close>

text \<open>
  The data of a stored patch: the three points of the statistics, the body, and the zeros that the aligned
  size of the structure leaves behind it.
\<close>

definition stats_bytes :: "PCSTATS \<Rightarrow> byte list" where
  "stats_bytes st = pt_data (st_min st) @ pt_data (st_max st) @ pt_data (st_avg st)"

definition pad :: "pg \<Rightarrow> byte list" where
  "pad pg = replicate (common_size pg - data_of_patch) 0"

definition stored_patch :: "pg \<Rightarrow> 'a PCPATCH_scheme \<Rightarrow> PCSTATS \<Rightarrow> byte list \<Rightarrow> SERIALIZED_PATCH" where
  "stored_patch pg p st body =
     \<lparr>sp_size = pg_set_varsize pg (common_size pg + pc_stats_size (pa_schema p) + length body),
      sp_pcid = sc_pcid (pa_schema p), sp_compression = pa_type p, sp_npoints = pa_npoints p, sp_bounds = pa_bounds p,
      sp_data = stats_bytes st @ body @ pad pg\<rparr>"

definition read_stats :: "PCSTATS \<Rightarrow> PCSTATS" where
  "read_stats st = \<lparr>st_min = (st_min st)\<lparr>pt_readonly := PC_TRUE\<rparr>, st_max = (st_max st)\<lparr>pt_readonly := PC_TRUE\<rparr>,
     st_avg = (st_avg st)\<lparr>pt_readonly := PC_TRUE\<rparr>\<rparr>"

lemma own_read [simp]: "own_stats (read_stats st) = own_stats st"
  by (simp add: own_stats_def read_stats_def)

lemma read_stats_ok [simp]: "stats_ok s (Some (read_stats st)) = stats_ok s (Some st)"
  by (simp add: stats_ok_def read_stats_def)

lemma length_stats_bytes: "stats_ok s (Some st) \<Longrightarrow> length (stats_bytes st) = pc_stats_size s"
  by (simp add: stats_ok_def stats_bytes_def pc_stats_size_def)

lemma stats_bytes_own: "own_stats a = own_stats b \<Longrightarrow> stats_bytes a = stats_bytes b"
  unfolding stats_bytes_def by (metis own_fields(2,4,6))

lemma stats_serialize_eq:
  assumes "stats_ok s (Some st)"
  shows "pc_patch_stats_serialize (replicate (pc_stats_size s) 0 @ rest) 0 s st = Inr (stats_bytes st @ rest, pc_stats_size s)"
proof -
  define n a b c where "n = sc_size s" and "a = pt_data (st_min st)" and "b = pt_data (st_max st)" and "c = pt_data (st_avg st)"
  have l: "length a = n" "length b = n" "length c = n" using assms by (simp_all add: stats_ok_def n_def a_def b_def c_def)
  let ?z = "replicate n (0 :: byte)"
  have z: "replicate (pc_stats_size s) 0 @ rest = ?z @ ?z @ ?z @ rest"
    by (simp add: pc_stats_size_def n_def replicate_add [symmetric] numeral_3_eq_3)
  have w: "wr (?z @ ?z @ ?z @ rest) 0 a = Inr (a @ ?z @ ?z @ rest)" "wr (a @ ?z @ ?z @ rest) n b = Inr (a @ b @ ?z @ rest)"
    "wr (a @ b @ ?z @ rest) (2 * n) c = Inr (a @ b @ c @ rest)"
    using wr_mid [of 0 "[]" ?z a "?z @ ?z @ rest"] wr_mid [of n a ?z b "?z @ rest"] wr_mid [of "2 * n" "a @ b" ?z c rest] l by simp_all
  have r: "rd a 0 n = Inr a" "rd b 0 n = Inr b" "rd c 0 n = Inr c" using rd_all [of a] rd_all [of b] rd_all [of c] l by simp_all
  show ?thesis
    unfolding pc_patch_stats_serialize_def Let_def n_def [symmetric] a_def [symmetric] b_def [symmetric] c_def [symmetric] r bindE_Inr z
      add_0 w stats_bytes_def by (simp add: pc_stats_size_def n_def mult.commute)
qed

lemma stats_deserialize_eq:
  assumes "stats_ok s (Some st)"
  shows "pc_patch_stats_deserialize s (stats_bytes st @ rest) = read_stats st"
  using assms by (cases st)
    (simp add: stats_ok_def pc_patch_stats_deserialize_def stats_bytes_def pc_stats_new_from_data_def read_stats_def)

lemma common_ge: "pg_works pg \<Longrightarrow> data_of_patch \<le> common_size pg"
proof -
  assume "pg_works pg"
  then have "sizeof_patch \<le> pg_bufferalign pg sizeof_patch" by (simp add: pg_works_def)
  then show ?thesis by (simp add: common_size_def)
qed

lemma room:
  "pg_works pg \<Longrightarrow> pcalloc (common_size pg + pc_stats_size s + n - data_of_patch) =
     replicate (pc_stats_size s) 0 @ replicate n 0 @ pad pg"
  using common_ge [of pg] by (simp add: pcalloc_def pad_def replicate_add [symmetric])

lemma uncompressed_serialize_eq:
  assumes pg: "pg_works pg" and st: "pa_stats p = Some st" "stats_ok (pa_schema p) (Some st)" and d: "length (pu_data p) = pu_datasize p"
  shows "pc_patch_uncompressed_serialize pg p = Inr (stored_patch pg p st (pu_data p))"
proof -
  have w: "wr (stats_bytes st @ replicate (pu_datasize p) 0 @ pad pg) (pc_stats_size (pa_schema p)) (pu_data p) =
      Inr (stats_bytes st @ pu_data p @ pad pg)"
    by (rule wr_mid) (simp_all add: length_stats_bytes [OF st(2)] d)
  show ?thesis
    using rd_all [of "pu_data p"] d w
    by (simp add: pc_patch_uncompressed_serialize_def pc_patch_serialized_size_def Let_def room [OF pg] st(1)
        stats_serialize_eq [OF st(2)] stored_patch_def)
qed

lemma dimensional_serialize_eq:
  assumes pg: "pg_works pg" and st: "pa_stats d = Some st" "stats_ok (pa_schema d) (Some st)"
    and a: "storable (pa_schema d) n (pd_bytes d)"
  shows "pc_patch_dimensional_serialize pg d = Inr (stored_patch pg d st (concat (map serial (pd_bytes d))))"
proof -
  let ?s = "pa_schema d"
  have l: "length (pd_bytes d) = sc_ndims ?s" using a by (simp add: storable_def)
  show ?thesis
    unfolding pc_patch_dimensional_serialize_def pc_patch_serialized_size_def Let_def patch.case p_schema.simps
      serialized_size_eq [OF a refl refl] bindE_Inr room [OF pg] st(1) option.case stats_serialize_eq [OF st(2)] prod.case
      serialize_arrays [OF a refl length_stats_bytes [OF st(2)] order_refl]
    using l by (simp add: stored_patch_def)
qed

lemma lazperf_serialize_eq:
  assumes pg: "pg_works pg" and st: "pa_stats d = Some st" "stats_ok (pa_schema d) (Some st)" and l: "lz_size d = length (lz_data d)"
  shows "pc_patch_lazperf_serialize pg d = Inr (stored_patch pg d st (bytes_of_word (word_of_nat (lz_size d) :: 32 word) @ lz_data d))"
proof -
  let ?n = "pc_stats_size (pa_schema d)" and ?w = "bytes_of_word (word_of_nat (lz_size d) :: 32 word)"
  note ls = length_stats_bytes [OF st(2)]
  have lw: "length ?w = 4" by (simp add: word_size_def)
  have r: "common_size pg + ?n + 4 + lz_size d - data_of_patch = common_size pg + ?n + (4 + lz_size d) - data_of_patch" by simp
  have z: "replicate (4 + lz_size d) (0 :: byte) = replicate 4 0 @ replicate (lz_size d) 0" by (rule replicate_add)
  have w1: "wr (stats_bytes st @ replicate 4 0 @ replicate (lz_size d) 0 @ pad pg) ?n ?w =
      Inr (stats_bytes st @ ?w @ replicate (lz_size d) 0 @ pad pg)"
    by (rule wr_mid) (simp_all add: ls lw)
  have "wr ((stats_bytes st @ ?w) @ replicate (lz_size d) 0 @ pad pg) (?n + 4) (lz_data d) = Inr ((stats_bytes st @ ?w) @ lz_data d @ pad pg)"
    by (rule wr_mid) (simp_all add: ls lw l)
  then have w2: "wr (stats_bytes st @ ?w @ replicate (lz_size d) 0 @ pad pg) (?n + 4) (lz_data d) = Inr (stats_bytes st @ ?w @ lz_data d @ pad pg)"
    by simp
  have rd: "rd (lz_data d) 0 (lz_size d) = Inr (lz_data d)" using rd_all l by simp
  show ?thesis
    unfolding pc_patch_lazperf_serialize_def pc_patch_serialized_size_def Let_def patch.case p_schema.simps bindE_Inr r room [OF pg] z
      append_assoc st(1) option.case stats_serialize_eq [OF st(2)] prod.case w1 rd w2
    using l lw by (simp add: stored_patch_def add.assoc)
qed

section \<open>Reading it back\<close>

definition stored_size :: "pg \<Rightarrow> PCSCHEMA \<Rightarrow> byte list \<Rightarrow> nat" where
  "stored_size pg s body = common_size pg + pc_stats_size s + length body"

lemma varsize_stored:
  "pg_works pg \<Longrightarrow> stored_size pg (pa_schema p) body < 2 ^ 30 \<Longrightarrow>
    pg_varsize pg (sp_size (stored_patch pg p st body)) = stored_size pg (pa_schema p) body"
  by (simp add: pg_works_def stored_patch_def stored_size_def)

lemma uncompressed_deserialize_eq:
  assumes pg: "pg_works pg" and st: "stats_ok (pa_schema p) (Some st)" and d: "length (pu_data p) = pu_datasize p"
    and n: "pu_datasize p = pa_npoints p * sc_size (pa_schema p)" and sz: "stored_size pg (pa_schema p) (pu_data p) < 2 ^ 30"
  shows "pc_patch_uncompressed_deserialize pg (stored_patch pg p st (pu_data p)) (pa_schema p) =
    Inr (p\<lparr>pa_readonly := PC_TRUE, pa_stats := Some (read_stats st), pu_maxpoints := 0\<rparr>)"
proof -
  let ?sp = "stored_patch pg p st (pu_data p)"
  have b: "pg_bufferalign pg sizeof_patch = Suc (common_size pg)"
    using common_ge [OF pg] by (simp add: common_size_def)
  have lt: "pu_datasize p < 2 ^ 64" using sz d by (simp add: stored_size_def)
  have i: "int (stored_size pg (pa_schema p) (pu_data p)) - int (Suc (common_size pg)) + 1 - int (pc_stats_size (pa_schema p)) =
      int (pu_datasize p)" by (simp add: stored_size_def d)
  have m: "int (pu_datasize p) mod 2 ^ 64 = int (pu_datasize p)" using lt by (intro mod_pos_pos_trivial) simp_all
  have f: "nat ((int (pg_varsize pg (sp_size ?sp)) - int (pg_bufferalign pg sizeof_patch) + 1 - int (pc_stats_size (pa_schema p))) mod 2 ^ 64) =
      pu_datasize p" "pa_npoints p * sc_size (pa_schema p) mod 2 ^ 64 = pu_datasize p"
    unfolding varsize_stored [OF pg sz] b i m n [symmetric] using lt by simp_all
  have t: "take (pu_datasize p) (drop (pc_stats_size (pa_schema p)) (stats_bytes st @ pu_data p @ pad pg)) = pu_data p"
    using length_stats_bytes [OF st] d by simp
  show ?thesis
    unfolding pc_patch_uncompressed_deserialize_def Let_def f
    using t f(2) by (simp add: stored_patch_def stats_deserialize_eq [OF st])
qed

lemma dimensional_deserialize_eq:
  assumes s: "schema_ready (pa_schema d)" and st: "stats_ok (pa_schema d) (Some st)"
    and a: "storable (pa_schema d) (pa_npoints d) (pd_bytes d)"
  shows "pc_patch_dimensional_deserialize (stored_patch pg d st (concat (map serial (pd_bytes d)))) (pa_schema d) =
    Inr (d\<lparr>pa_readonly := PC_TRUE, pa_stats := Some (read_stats st), pd_bytes := marked True (pd_bytes d)\<rparr>)"
proof -
  have l: "length (pd_bytes d) = sc_ndims (pa_schema d)" using a by (simp add: storable_def)
  show ?thesis
    unfolding pc_patch_dimensional_deserialize_def Let_def
    using read_dimensions [OF s a length_stats_bytes [OF st] order_refl, where rest = "pad pg" and ro = True] l
    by (simp add: stored_patch_def stats_deserialize_eq [OF st])
qed

lemma lazperf_deserialize_eq:
  assumes st: "stats_ok (pa_schema d) (Some st)" and l: "lz_size d = length (lz_data d)" "lz_size d < 2 ^ 32"
  shows "pc_patch_lazperf_deserialize (stored_patch pg d st (bytes_of_word (word_of_nat (lz_size d) :: 32 word) @ lz_data d)) (pa_schema d) =
    Inr (d\<lparr>pa_readonly := PC_TRUE, pa_stats := Some (read_stats st)\<rparr>)"
proof -
  let ?w = "bytes_of_word (word_of_nat (lz_size d) :: 32 word)" and ?n = "pc_stats_size (pa_schema d)"
  note ls = length_stats_bytes [OF st]
  have lw: "length ?w = 4" by (simp add: word_size_def)
  have r1: "rd (stats_bytes st @ ?w @ lz_data d @ pad pg) ?n 4 = Inr ?w" by (rule rd_mid) (simp_all add: ls lw)
  have "rd ((stats_bytes st @ ?w) @ lz_data d @ pad pg) (?n + 4) (lz_size d) = Inr (lz_data d)" by (rule rd_mid) (simp_all add: ls lw l)
  then have r2: "rd (stats_bytes st @ ?w @ lz_data d @ pad pg) (?n + 4) (lz_size d) = Inr (lz_data d)" by simp
  have u: "unat (word_of_nat (lz_size d) :: 32 word) = lz_size d" using l(2) by (simp add: unat_of_nat)
  show ?thesis
    unfolding pc_patch_lazperf_deserialize_def Let_def
    using r1 r2 u by (simp add: stored_patch_def stats_deserialize_eq [OF st])
qed

section \<open>Patches of any representation\<close>

lemma coded_storable:
  assumes ok: "points_ok s ws" and c: "coded_arrays z s ws arrays"
  shows "storable s (length ws) arrays"
  unfolding storable_def
proof (intro conjI allI impI)
  show "length arrays = sc_ndims s" using c by (simp add: coded_arrays_def)
  fix j assume j: "j < sc_ndims s"
  obtain k e r where k: "codec_fits z k (col_array s ws j)" "pc_bytes_encode z (col_array s ws j) k = Inr e"
    and b: "arrays ! j = e\<lparr>pb_readonly := r\<rparr>" by (rule codedE [OF c j])
  note p = col_array_plain(1) [OF ok j]
  have f: "pb_npoints (col_array s ws j) = length ws" "pb_interpretation (col_array s ws j) = dim_interpretation (sdim s j)"
    by (simp_all add: col_array_def)
  have "pb_npoints (col_array s ws j) < 2 ^ 26" using ok f by (simp add: points_ok_def)
  then have "serial_ok e" by (rule encode_serial [OF p _ k])
  then show "serial_ok (arrays ! j)" "pb_npoints (arrays ! j) = length ws" "pb_interpretation (arrays ! j) = dim_interpretation (sdim s j)"
    using encode_fields [OF p k] f b by simp_all
qed

text \<open>The body of a patch.\<close>

fun body :: "patch \<Rightarrow> byte list" where
  "body (Uncompressed p) = pu_data p"
| "body (Dimensional d) = concat (map serial (pd_bytes d))"
| "body (Lazperf d) = bytes_of_word (word_of_nat (lz_size d) :: 32 word) @ lz_data d"

fun image :: "pg \<Rightarrow> patch \<Rightarrow> PCSTATS \<Rightarrow> SERIALIZED_PATCH" where
  "image pg (Uncompressed p) st = stored_patch pg p st (body (Uncompressed p))"
| "image pg (Dimensional d) st = stored_patch pg d st (body (Dimensional d))"
| "image pg (Lazperf d) st = stored_patch pg d st (body (Lazperf d))"

lemma image_size: "stats_ok (p_schema pa) (Some st) \<Longrightarrow> pg_works pg \<Longrightarrow>
    data_of_patch + length (sp_data (image pg pa st)) = stored_size pg (p_schema pa) (body pa)"
  using common_ge [of pg] by (cases pa) (simp_all add: stored_patch_def stored_size_def length_stats_bytes pad_def)

lemma serialize_image:
  assumes pg: "pg_works pg" and h: "patch_holds z laz pa ws" "p_stats pa = Some st" "compact pa"
  shows "(case pa of Uncompressed p \<Rightarrow> pc_patch_uncompressed_serialize pg p | Dimensional p \<Rightarrow> pc_patch_dimensional_serialize pg p
     | Lazperf p \<Rightarrow> pc_patch_lazperf_serialize pg p) = Inr (image pg pa st)"
proof -
  have st: "stats_ok (p_schema pa) (Some st)" using holds_points(3) [OF h(1)] h(2) by simp
  show ?thesis
  proof (cases pa)
    case (Uncompressed p)
    then show ?thesis using uncompressed_serialize_eq [OF pg, of p st] st h(1,2) by (simp add: patch_ok_def)
  next
    case (Dimensional d)
    then have "storable (pa_schema d) (length ws) (pd_bytes d)" using h(1) by (intro coded_storable) (auto simp: dim_holds_def)
    then show ?thesis using dimensional_serialize_eq [OF pg, of d st] st h(2) Dimensional by simp
  next
    case (Lazperf d)
    then show ?thesis using lazperf_serialize_eq [OF pg, of d st] st h(2,3) by simp
  qed
qed

lemma deserialize_image:
  assumes pg: "pg_works pg" and h: "patch_holds z laz pa ws" "p_stats pa = Some st" "compact pa" "typed pa" "laz_genuine laz pa ws"
    and sz: "stored_size pg (p_schema pa) (body pa) < 2 ^ 30"
  shows "\<exists>q. pc_patch_deserialize pg (image pg pa st) (p_schema pa) = Inr q \<and> patch_holds z laz q ws \<and> compact q \<and> typed q \<and>
    laz_genuine laz q ws \<and> p_schema q = p_schema pa \<and> p_bounds q = p_bounds pa \<and> p_stats q = Some (read_stats st) \<and>
    patch_type q = patch_type pa"
proof -
  have ok: "points_ok (p_schema pa) ws" "p_npoints pa = length ws" using holds_points [OF h(1)] by blast+
  have st: "stats_ok (p_schema pa) (Some st)" using holds_points(3) [OF h(1)] h(2) by simp
  show ?thesis
  proof (cases pa)
    case (Uncompressed p)
    have p: "length (pu_data p) = pu_datasize p" "pu_datasize p = pa_npoints p * sc_size (pa_schema p)" "pa_type p = PC_NONE"
      using h(1,3,4) Uncompressed by (simp_all add: patch_ok_def)
    let ?q = "p\<lparr>pa_readonly := PC_TRUE, pa_stats := Some (read_stats st), pu_maxpoints := 0\<rparr>"
    have "pc_patch_uncompressed_deserialize pg (stored_patch pg p st (pu_data p)) (pa_schema p) = Inr ?q"
      by (rule uncompressed_deserialize_eq [OF pg _ p(1,2)]) (use st sz Uncompressed in simp_all)
    then have "pc_patch_deserialize pg (image pg pa st) (p_schema pa) = Inr (Uncompressed ?q)"
      using p(3) unfolding Uncompressed pc_patch_deserialize_def by (simp add: stored_patch_def)
    moreover have "patch_holds z laz (Uncompressed ?q) ws" using h(1) p st ok(2) Uncompressed by (simp add: patch_ok_def pts_def)
    ultimately show ?thesis using p Uncompressed by (intro exI [of _ "Uncompressed ?q"]) simp
  next
    case (Dimensional d)
    let ?q = "d\<lparr>pa_readonly := PC_TRUE, pa_stats := Some (read_stats st), pd_bytes := marked True (pd_bytes d)\<rparr>"
    have d: "dim_holds z d ws" "pa_type d = PC_DIMENSIONAL" "schema_ready (pa_schema d)" "pa_npoints d = length ws"
      using h(1,4) ok Dimensional by (simp_all add: points_ok_def)
    have c: "coded_arrays z (pa_schema d) ws (pd_bytes d)" using d(1) by (simp add: dim_holds_def)
    have "storable (pa_schema d) (pa_npoints d) (pd_bytes d)" using coded_storable [OF _ c] ok(1) d(4) Dimensional by simp
    then have "pc_patch_dimensional_deserialize (stored_patch pg d st (concat (map serial (pd_bytes d)))) (pa_schema d) = Inr ?q"
      by (rule dimensional_deserialize_eq [OF d(3), rotated]) (use st Dimensional in simp)
    then have "pc_patch_deserialize pg (image pg pa st) (p_schema pa) = Inr (Dimensional ?q)"
      using d(2) unfolding Dimensional pc_patch_deserialize_def by (simp add: stored_patch_def)
    moreover have "dim_holds z ?q ws" using d(1) st marked_coded [OF c] Dimensional by (simp add: dim_holds_def)
    ultimately show ?thesis using d(2) Dimensional by (intro exI [of _ "Dimensional ?q"]) simp
  next
    case (Lazperf d)
    let ?q = "d\<lparr>pa_readonly := PC_TRUE, pa_stats := Some (read_stats st)\<rparr>"
    have d: "lz_size d = length (lz_data d)" "pa_type d = PC_LAZPERF" using h(3,4) Lazperf by simp_all
    have l: "lz_size d < 2 ^ 32" using sz d(1) Lazperf by (simp add: stored_size_def)
    have "pc_patch_lazperf_deserialize (stored_patch pg d st (bytes_of_word (word_of_nat (lz_size d) :: 32 word) @ lz_data d)) (pa_schema d) = Inr ?q"
      by (rule lazperf_deserialize_eq [OF _ d(1) l]) (use st Lazperf in simp)
    then have "pc_patch_deserialize pg (image pg pa st) (p_schema pa) = Inr (Lazperf ?q)"
      using d(2) unfolding Lazperf pc_patch_deserialize_def by (simp add: stored_patch_def)
    moreover have g: "laz_genuine laz (Lazperf ?q) ws" using h(5) Lazperf by (simp add: laz_from_def)
    moreover have "laz_holds laz ?q ws" by (rule genuine_holds [OF g]) (use ok st Lazperf in simp_all)
    ultimately show ?thesis using d Lazperf by (intro exI [of _ "Lazperf ?q"]) simp
  qed
qed

text \<open>What the compression of the schema makes of a patch of another one is ready to be stored.\<close>

lemma conversion_types:
  "pc_patch_dimensional_compress z d pds = Inr (c, ds) \<Longrightarrow> pa_type c = pa_type d"
  "pc_patch_dimensional_from_uncompressed p = Inr (Some d) \<Longrightarrow> pa_type d = PC_DIMENSIONAL"
  "pc_patch_lazperf_from_uncompressed laz p = Inr l \<Longrightarrow> pa_type l = PC_LAZPERF"
  "pc_patch_uncompressed_from_dimensional z d = Inr p \<Longrightarrow> pa_type p = PC_NONE"
  "pc_patch_uncompressed_from_lazperf laz l = Inr p \<Longrightarrow> pa_type p = PC_NONE"
  by (auto simp: pc_patch_dimensional_compress_def pc_patch_dimensional_from_uncompressed_def pc_patch_lazperf_from_uncompressed_def
      pc_patch_uncompressed_from_dimensional_def pc_patch_uncompressed_from_lazperf_def Let_def bindE_eq_Inr
      split: if_splits option.splits)

lemma compress_typed:
  assumes "pc_patch_compress z laz pa pds = Inr (pa', pds')" "patch_type pa \<noteq> sc_compression (p_schema pa)"
  shows "typed pa'"
  using assms
  by (cases pa) (auto simp: pc_patch_compress_def pc_patch_uncompress_def Let_def bindE_eq_Inr conversion_types
      dest!: conversion_types(1) split: if_splits option.splits)

lemma uncompress_compact:
  assumes h: "patch_holds z laz pa ws" "compact pa \<or> patch_type pa \<noteq> PC_NONE" and u: "pc_patch_uncompress z laz pa = Inr p"
  shows "compact (Uncompressed p)"
proof (cases pa)
  case (Uncompressed q)
  then show ?thesis using h(2) u by (simp add: pc_patch_uncompress_def)
next
  case (Dimensional d)
  then have "p = as_uncompressed d ws" using uncompressed_from_dimensional_eq [of z d ws] h(1) u by (simp add: pc_patch_uncompress_def)
  then show ?thesis by (simp add: as_uncompressed_def)
next
  case (Lazperf d)
  then have "p = as_uncompressed d ws" using uncompressed_from_lazperf_eq [of laz d ws] h(1) u by (simp add: pc_patch_uncompress_def)
  then show ?thesis by (simp add: as_uncompressed_def)
qed

lemma lazperf_from_genuine:
  assumes p: "patch_holds z laz (Uncompressed p) ws" and d: "pc_patch_lazperf_from_uncompressed laz p = Inr d"
    and l: "laz = Some l" "laz_works l"
  shows "laz_genuine laz (Lazperf d) ws" "compact (Lazperf d)"
proof -
  obtain c where c: "lazperf_compress_from_uncompressed l p = Some c" "lz_data d = c" "lz_size d = length c"
    "pa_schema d = pa_schema p" "pa_npoints d = pa_npoints p"
    using d l(1) by (auto simp: pc_patch_lazperf_from_uncompressed_def bindE_eq_Inr split: option.splits)
  have "take (pa_npoints p * sc_size (pa_schema p)) (pu_data p) = concat ws" using holds_data(1,3) [OF p] by simp
  then show "laz_genuine laz (Lazperf d) ws" using c l p by (simp add: laz_from_def) blast
  show "compact (Lazperf d)" using c by simp
qed

lemma compress_stores:
  assumes h: "patch_holds z laz pa ws" and c: "compressible z laz pds pa ws" and t: "patch_type pa \<noteq> sc_compression (p_schema pa)"
  shows "\<exists>pa' pds'. pc_patch_compress z laz pa pds = Inr (pa', pds') \<and> patch_holds z laz pa' ws \<and> typed pa' \<and> compact pa' \<and>
    laz_genuine laz pa' ws \<and> patch_type pa' = sc_compression (p_schema pa) \<and> p_schema pa' = p_schema pa \<and>
    p_bounds pa' = p_bounds pa \<and> own (p_stats pa') = own (p_stats pa)"
proof -
  obtain pa' pds' where r: "pc_patch_compress z laz pa pds = Inr (pa', pds')" "patch_holds z laz pa' ws"
    "patch_type pa' = sc_compression (p_schema pa)" "p_schema pa' = p_schema pa" "p_bounds pa' = p_bounds pa"
    "own (p_stats pa') = own (p_stats pa)"
    using compress_holds [OF h c] by blast
  obtain p where p: "pc_patch_uncompress z laz pa = Inr p" "patch_holds z laz (Uncompressed p) ws" using uncompress_ok [OF h] by blast
  have "compact pa' \<and> laz_genuine laz pa' ws"
  proof (cases pa')
    case (Uncompressed q)
    then have n: "sc_compression (p_schema pa) = PC_NONE" using r(3) by simp
    then have "q = p" using r(1) p(1) Uncompressed by (simp add: pc_patch_compress_def Let_def bindE_eq_Inr)
    then show ?thesis using uncompress_compact [OF h _ p(1)] t n Uncompressed by simp
  next
    case (Lazperf q)
    then have n: "sc_compression (p_schema pa) = PC_LAZPERF" using r(3) by simp
    obtain l where l: "laz = Some l" "laz_works l" using c n by (auto simp: compressible_def Let_def)
    have "pc_patch_lazperf_from_uncompressed laz p = Inr q"
      using r(1) p(1) t n Lazperf by (cases pa) (auto simp: pc_patch_compress_def Let_def bindE_eq_Inr pc_patch_uncompress_def)
    then show ?thesis using lazperf_from_genuine [OF p(2) _ l] Lazperf by simp
  qed simp
  then show ?thesis using r compress_typed [OF r(1) t] by blast
qed

text \<open>The patch as it is stored: compressed as the schema says, if it is not yet.\<close>

definition storing :: "zlib \<Rightarrow> lazperf option \<Rightarrow> PCDIMSTATS option \<Rightarrow> patch \<Rightarrow> byte list list \<Rightarrow> bool" where
  "storing z laz pds pa ws = (patch_holds z laz pa ws \<and> p_stats pa \<noteq> None \<and>
     (if patch_type pa = sc_compression (p_schema pa) then typed pa \<and> compact pa \<and> laz_genuine laz pa ws
      else compressible z laz pds pa ws))"

definition reads_as :: "pg \<Rightarrow> zlib \<Rightarrow> lazperf option \<Rightarrow> SERIALIZED_PATCH \<Rightarrow> PCSCHEMA \<Rightarrow> byte list list \<Rightarrow> PCBOUNDS \<Rightarrow> PCSTATS \<Rightarrow> bool" where
  "reads_as pg z laz sp s ws b st = (\<exists>q. pc_patch_deserialize pg sp s = Inr q \<and> patch_holds z laz q ws \<and> compact q \<and> typed q \<and>
     laz_genuine laz q ws \<and> p_schema q = s \<and> p_bounds q = b \<and> own (p_stats q) = Some (own_stats st) \<and>
     patch_type q = sp_compression sp)"

lemma image_fields:
  "sp_pcid (image pg pa st) = sc_pcid (p_schema pa)" "sp_npoints (image pg pa st) = p_npoints pa" "sp_bounds (image pg pa st) = p_bounds pa"
  "typed pa \<Longrightarrow> sp_compression (image pg pa st) = patch_type pa"
  "sp_size (image pg pa st) = pg_set_varsize pg (stored_size pg (p_schema pa) (body pa))"
  by (cases pa; simp add: stored_patch_def stored_size_def)+

lemma serialize_storing:
  assumes pg: "pg_works pg" and s: "storing z laz pds pa ws" and st: "p_stats pa = Some st"
  shows "\<exists>sp pds'. pc_patch_serialize pg z laz pa pds = Inr (sp, pds') \<and> sp_pcid sp = sc_pcid (p_schema pa) \<and>
    sp_compression sp = sc_compression (p_schema pa) \<and> sp_npoints sp = length ws \<and> sp_bounds sp = p_bounds pa \<and>
    sp_size sp = pg_set_varsize pg (data_of_patch + length (sp_data sp)) \<and> (\<exists>b. sp_data sp = stats_bytes st @ b) \<and>
    (data_of_patch + length (sp_data sp) < 2 ^ 30 \<longrightarrow> reads_as pg z laz sp (p_schema pa) ws (p_bounds pa) st)"
proof -
  have h: "patch_holds z laz pa ws" using s by (simp add: storing_def)
  obtain q pds' where q: "(if patch_type pa \<noteq> sc_compression (p_schema pa) then pc_patch_compress z laz pa pds else Inr (pa, pds)) = Inr (q, pds')"
    "patch_holds z laz q ws" "typed q" "compact q" "laz_genuine laz q ws" "patch_type q = sc_compression (p_schema pa)"
    "p_schema q = p_schema pa" "p_bounds q = p_bounds pa" "own (p_stats q) = own (p_stats pa)"
  proof (cases "patch_type pa = sc_compression (p_schema pa)")
    case True
    show thesis by (rule that [of pa pds]) (use s True in \<open>simp_all add: storing_def\<close>)
  next
    case False
    then have "compressible z laz pds pa ws" using s by (simp add: storing_def)
    from compress_stores [OF h this False] obtain q pds' where "pc_patch_compress z laz pa pds = Inr (q, pds')"
      "patch_holds z laz q ws" "typed q" "compact q" "laz_genuine laz q ws" "patch_type q = sc_compression (p_schema pa)"
      "p_schema q = p_schema pa" "p_bounds q = p_bounds pa" "own (p_stats q) = own (p_stats pa)" by blast
    then show thesis using that [of q pds'] False by (simp only: if_True not_False_eq_True)
  qed
  obtain st' where st': "p_stats q = Some st'" "own_stats st' = own_stats st" using q(9) st by (cases "p_stats q") auto
  have ok: "stats_ok (p_schema q) (Some st')" "p_npoints q = length ws" using holds_points [OF q(2)] st'(1) by simp_all
  have e: "pc_patch_serialize pg z laz pa pds = Inr (image pg q st', pds')"
    unfolding pc_patch_serialize_def using q(1) st serialize_image [OF pg q(2) st'(1) q(4)] by simp
  have "reads_as pg z laz (image pg q st') (p_schema pa) ws (p_bounds pa) st"
    if "data_of_patch + length (sp_data (image pg q st')) < 2 ^ 30"
  proof -
    have "stored_size pg (p_schema q) (body q) < 2 ^ 30" using that image_size [OF ok(1) pg] by simp
    from deserialize_image [OF pg q(2) st'(1) q(4,3,5) this] show ?thesis
      using q(7,8) st'(2) image_fields(4) [OF q(3)] by (auto simp: reads_as_def)
  qed
  moreover have "sp_pcid (image pg q st') = sc_pcid (p_schema pa)" "sp_npoints (image pg q st') = length ws"
    "sp_bounds (image pg q st') = p_bounds pa" "sp_compression (image pg q st') = sc_compression (p_schema pa)"
    "sp_size (image pg q st') = pg_set_varsize pg (data_of_patch + length (sp_data (image pg q st')))"
    by (simp_all only: image_fields(1-3,5) image_fields(4) [OF q(3)] q(6-8) ok(2) image_size [OF ok(1) pg])
  moreover have "\<exists>b. sp_data (image pg q st') = stats_bytes st @ b"
    using stats_bytes_own [OF st'(2)] by (cases q) (simp_all add: stored_patch_def)
  ultimately show ?thesis using e by blast
qed

text \<open>
  Stored without compression, whatever the schema says, a patch of any representation is the statistics,
  then the bytes of the points one after the other.
\<close>

lemma serialize_uncompressed:
  assumes "pg_works pg" "patch_holds z laz pa ws" "p_stats pa = Some st" "typed pa" "compact pa"
    and "common_size pg + pc_stats_size (p_schema pa) + length ws * sc_size (p_schema pa) < 2 ^ 30"
  shows "\<exists>sp. pc_patch_serialize_to_uncompressed pg z laz pa = Inr sp \<and> sp_compression sp = PC_NONE \<and>
    sp_pcid sp = sc_pcid (p_schema pa) \<and> sp_npoints sp = length ws \<and> sp_bounds sp = p_bounds pa \<and>
    sp_data sp = stats_bytes st @ concat ws @ pad pg \<and> reads_as pg z laz sp (p_schema pa) ws (p_bounds pa) st"
proof -
  obtain p where p: "pc_patch_uncompress z laz pa = Inr p" "patch_holds z laz (Uncompressed p) ws" "pa_schema p = p_schema pa"
    "pa_bounds p = p_bounds pa" "own (pa_stats p) = own (p_stats pa)" "pa_npoints p = length ws"
    using uncompress_ok [OF assms(2)] by blast
  obtain st' where st': "pa_stats p = Some st'" "own_stats st' = own_stats st" using p(5) assms(3) by (cases "pa_stats p") auto
  have c: "compact (Uncompressed p)" using uncompress_compact [OF assms(2) _ p(1)] assms(5) by blast
  have t: "typed (Uncompressed p)" using p(1) assms(4) by (cases pa) (auto simp: pc_patch_uncompress_def conversion_types)
  have d: "length (pu_data p) = pu_datasize p" "pu_data p = concat ws" using p(2) c holds_data(1,3) [OF p(2)] by (simp_all add: patch_ok_def)
  have b: "stats_bytes st' = stats_bytes st" by (rule stats_bytes_own [OF st'(2)])
  have st: "stats_ok (pa_schema p) (Some st')" using holds_points(3) [OF p(2)] st'(1) by simp
  have s: "pc_patch_serialize_to_uncompressed pg z laz pa = Inr (image pg (Uncompressed p) st')"
    using uncompressed_serialize_eq [OF assms(1) st'(1) st d(1)] by (simp add: pc_patch_serialize_to_uncompressed_def p(1))
  have sz: "stored_size pg (p_schema (Uncompressed p)) (body (Uncompressed p)) < 2 ^ 30"
    using assms(6) c d p(3,6) by (simp add: stored_size_def)
  have i: "sp_data (image pg (Uncompressed p) st') = stats_bytes st @ concat ws @ pad pg"
    "sp_compression (image pg (Uncompressed p) st') = PC_NONE" "sp_pcid (image pg (Uncompressed p) st') = sc_pcid (p_schema pa)"
    "sp_npoints (image pg (Uncompressed p) st') = length ws" "sp_bounds (image pg (Uncompressed p) st') = p_bounds pa"
    using b d(2) t p by (simp_all add: stored_patch_def)
  have "\<exists>q. pc_patch_deserialize pg (image pg (Uncompressed p) st') (pa_schema p) = Inr q \<and> patch_holds z laz q ws \<and> compact q \<and> typed q \<and>
    laz_genuine laz q ws \<and> p_schema q = pa_schema p \<and> p_bounds q = pa_bounds p \<and> p_stats q = Some (read_stats st') \<and> patch_type q = PC_NONE"
    using deserialize_image [OF assms(1) p(2) _ c t _ sz, of st'] st'(1) by simp
  then have "reads_as pg z laz (image pg (Uncompressed p) st') (p_schema pa) ws (p_bounds pa) st"
    using own_read st'(2) p(3,4) i(2) by (fastforce simp: reads_as_def)
  then show ?thesis using s i by blast
qed

section \<open>Fields written one after the other into fresh memory\<close>

lemma wr_next:
  assumes "length a = k" "k + length b \<le> length junk"
  shows "wr (a @ drop k junk) k b = Inr ((a @ b) @ drop (k + length b) junk)"
proof -
  have "drop k junk = take (length b) (drop k junk) @ drop (k + length b) junk" by (metis add.commute append_take_drop_id drop_drop)
  moreover have "wr (a @ take (length b) (drop k junk) @ drop (k + length b) junk) k b = Inr (a @ b @ drop (k + length b) junk)"
    by (rule wr_mid) (use assms in simp_all)
  ultimately show ?thesis by (metis append_assoc)
qed

lemma set_next:
  assumes "length a = k"
  shows "k + 1 \<le> length junk \<Longrightarrow> pc_patch_wkb_set_char (a @ drop k junk) k c = Inr ((a @ [c]) @ drop (k + 1) junk, k + 1)"
    "k + 4 \<le> length junk \<Longrightarrow> pc_patch_wkb_set_int32 (a @ drop k junk) k i = Inr ((a @ bytes_of_word i) @ drop (k + 4) junk, k + 4)"
    "k + 8 \<le> length junk \<Longrightarrow> pc_patch_wkb_set_double (a @ drop k junk) k d = Inr ((a @ bytes_of_word d) @ drop (k + 8) junk, k + 8)"
  using wr_next [OF assms, of "[c]" junk] wr_next [OF assms, of "bytes_of_word i" junk] wr_next [OF assms, of "bytes_of_word d" junk]
  by (simp_all add: pc_patch_wkb_set_char_def pc_patch_wkb_set_int32_def pc_patch_wkb_set_double_def word_size_def)

lemma set_doubles:
  "length a = k \<Longrightarrow> k + 8 * length ds \<le> length junk \<Longrightarrow>
    foldE (\<lambda>d (wkb, ptr). pc_patch_wkb_set_double wkb ptr d) ds (a @ drop k junk, k) =
      Inr ((a @ concat (map bytes_of_word ds)) @ drop (k + 8 * length ds) junk, k + 8 * length ds)"
proof (induction ds arbitrary: a k)
  case (Cons d ds)
  have "length (a @ bytes_of_word d) = k + 8" using Cons.prems by (simp add: word_size_def)
  from Cons.IH [OF this] Cons.prems set_next(3) [OF Cons.prems(1), of junk d] show ?case by (simp add: ac_simps)
qed simp

text \<open>The closed ring of the corners of the box of the patch.\<close>

definition ring :: "PCBOUNDS \<Rightarrow> double list" where
  "ring b = [b_xmin b, b_ymin b, b_xmin b, b_ymax b, b_xmax b, b_ymax b, b_xmax b, b_ymin b, b_xmin b, b_ymin b]"

lemma envelope_tail:
  assumes "length a = k" "length junk = k + 88"
  shows "bindE (pc_patch_wkb_set_int32 (a @ drop k junk) k 1) (\<lambda>(wkb, ptr). bindE (pc_patch_wkb_set_int32 wkb ptr 5) (\<lambda>(wkb, ptr).
      bindE (foldE (\<lambda>d (wkb, ptr). pc_patch_wkb_set_double wkb ptr d) (ring b) (wkb, ptr)) (\<lambda>(wkb, _). Inr (wkb, n)))) =
    Inr (a @ bytes_of_word (1 :: 32 word) @ bytes_of_word (5 :: 32 word) @ concat (map bytes_of_word (ring b)), n)"
proof -
  let ?x = "bytes_of_word (1 :: 32 word)" and ?y = "bytes_of_word (5 :: 32 word)"
  have l: "length (a @ ?x) = k + 4" "length ((a @ ?x) @ ?y) = k + 8" "length (ring b) = 10"
    using assms(1) by (simp_all add: word_size_def ring_def)
  have s1: "pc_patch_wkb_set_int32 (a @ drop k junk) k 1 = Inr ((a @ ?x) @ drop (k + 4) junk, k + 4)"
    using set_next(2) [OF assms(1), of junk 1] assms(2) by simp
  have s2: "pc_patch_wkb_set_int32 ((a @ ?x) @ drop (k + 4) junk) (k + 4) 5 = Inr (((a @ ?x) @ ?y) @ drop (k + 8) junk, k + 8)"
    using set_next(2) [OF l(1), of junk 5] assms(2) by (simp add: add.commute)
  have s3: "foldE (\<lambda>d (wkb, ptr). pc_patch_wkb_set_double wkb ptr d) (ring b) (((a @ ?x) @ ?y) @ drop (k + 8) junk, k + 8) =
      Inr (((a @ ?x) @ ?y) @ concat (map bytes_of_word (ring b)), k + 88)"
    using set_doubles [OF l(2), of "ring b" junk] assms(2) l(3) by simp
  show ?thesis unfolding s1 bindE_Inr prod.case s2 s3 by simp
qed

lemma envelope_eq:
  assumes "pg_works pg"
  shows "pc_patch_to_geometry_wkb_envelope pg pa schema = Inr (1 #
    (if 0 < sc_srid schema then bytes_of_word (3 OR srid_mask) @ bytes_of_word (word_of_nat (sc_srid schema) :: 32 word)
     else bytes_of_word (3 :: 32 word)) @ bytes_of_word (1 :: 32 word) @ bytes_of_word (5 :: 32 word) @
    concat (map bytes_of_word (ring (sp_bounds pa))), 93 + (if 0 < sc_srid schema then 4 else 0))"
proof -
  let ?n = "93 + (if 0 < sc_srid schema then 4 else 0) :: nat" and ?t = "if 0 < sc_srid schema then 3 OR srid_mask else 3 :: 32 word"
  define J where "J = pg_palloc pg ?n"
  have l: "length J = ?n" using assms by (simp add: J_def pg_works_def)
  have w: "length (bytes_of_word (x :: 32 word)) = 4" for x by (simp add: word_size_def)
  have c: "pc_patch_wkb_set_char J 0 1 = Inr ([1] @ drop 1 J, 1)" using set_next(1) [of "[]" 0 J 1] l by simp
  have t: "pc_patch_wkb_set_int32 ([1] @ drop 1 J) 1 ?t = Inr (([1] @ bytes_of_word ?t) @ drop 5 J, 5)"
    using set_next(2) [of "[1]" 1 J ?t] l by simp
  show ?thesis
  proof (cases "0 < sc_srid schema")
    case True
    let ?a = "[1] @ bytes_of_word (3 OR srid_mask)" and ?s = "bytes_of_word (word_of_nat (sc_srid schema) :: 32 word)"
    have "pc_patch_wkb_set_int32 (?a @ drop 5 J) 5 (word_of_nat (sc_srid schema)) = Inr ((?a @ ?s) @ drop 9 J, 9)"
      using set_next(2) [of ?a 5 J] w l True by simp
    moreover have "pg_palloc pg 97 = J" using True by (simp add: J_def)
    ultimately show ?thesis
      unfolding pc_patch_to_geometry_wkb_envelope_def Let_def ring_def [symmetric]
      using True c t l w envelope_tail [of "?a @ ?s" 9 J "sp_bounds pa" 97] by simp
  next
    case False
    moreover have "pg_palloc pg 93 = J" using False by (simp add: J_def)
    ultimately show ?thesis
      unfolding pc_patch_to_geometry_wkb_envelope_def Let_def ring_def [symmetric]
      using c t l w envelope_tail [of "[1] @ bytes_of_word (3 :: 32 word)" 5 J "sp_bounds pa" 93] by simp
  qed
qed

section \<open>Properties\<close>

text \<open>A machine with the layout of the length word and the alignment of a common build of PostgreSQL.\<close>

definition pg_little :: pg where
  "pg_little = \<lparr>pg_set_varsize = (\<lambda>n. word_of_nat (4 * n)), pg_varsize = (\<lambda>w. unat w div 4),
     pg_bufferalign = (\<lambda>n. (n + 31) div 32 * 32), pg_palloc = (\<lambda>n. replicate n 0)\<rparr>"

lemma pg_little_works: "pg_works pg_little"
proof -
  have w: "unat (word_of_nat m :: 32 word) = m" if "m < 2 ^ 32" for m using that by (simp add: unat_of_nat)
  have "unat (word_of_nat (4 * n) :: 32 word) div 4 = n" if "n < 2 ^ 30" for n
  proof -
    have "4 * n < 2 ^ 32" using that by simp
    then show ?thesis by (subst w) simp_all
  qed
  moreover have "n \<le> (n + 31) div 32 * 32" for n :: nat by linarith
  ultimately show ?thesis by (simp only: pg_works_def pg_little_def pg.select_convs length_replicate) simp
qed

definition demo_stats :: PCSTATS where
  "demo_stats = (let p = (\<lambda>d. \<lparr>pt_readonly = PC_FALSE, pt_schema = demo_dim, pt_data = d\<rparr>)
     in \<lparr>st_min = p [1, 2, 3, 4, 5], st_max = p [6, 7, 8, 9, 10], st_avg = p [1, 2, 3, 4, 8]\<rparr>)"

definition demo_stored :: PCPATCH_UNCOMPRESSED where
  "demo_stored = (patch_of demo_dim 0 1 demo_pts)\<lparr>pa_stats := Some demo_stats\<rparr>"

lemma demo_stored:
  "patch_holds store_zlib None (Uncompressed demo_stored) demo_pts" "storing store_zlib None None (Uncompressed demo_stored) demo_pts"
  "p_stats (Uncompressed demo_stored) = Some demo_stats" "p_schema (Uncompressed demo_stored) = demo_dim"
proof -
  have ok: "points_ok demo_dim demo_pts" using demo_dim_ready by (simp add: points_ok_def demo_pts_def widths_def)
  have s: "stats_ok demo_dim (Some demo_stats)" by (simp add: stats_ok_def demo_stats_def demo_dim_ready)
  show h: "patch_holds store_zlib None (Uncompressed demo_stored) demo_pts"
    using patch_of_holds [OF ok s, where b = "extent demo_dim 0 1 demo_pts" and ix = 0 and iy = 1]
    by (simp add: demo_stored_def) (simp add: patch_of_def)
  have "zlib_fits store_zlib (col_array demo_dim demo_pts j)" if "j < 2" for j
    by (rule store_zlib_fits [OF col_array_plain(1) [OF ok]])
      (use that less_2 [of j] demo_dim_ready in \<open>auto simp: demo_xy_facts demo_sizes col_array_def demo_pts_def\<close>)
  then have "compressible store_zlib None None (Uncompressed demo_stored) demo_pts"
    by (simp add: compressible_def demo_stored_def patch_of_def demo_dim_ready) (simp add: demo_dim_def demo_pts_def)
  then show "storing store_zlib None None (Uncompressed demo_stored) demo_pts"
    using h by (simp add: storing_def) (simp add: demo_stored_def patch_of_def demo_dim_def)
qed (simp_all add: demo_stored_def patch_of_def)

text \<open>A dimensional patch whose arrays are not compressed.\<close>

definition demo_plain :: PCPATCH_DIMENSIONAL where
  "demo_plain = \<lparr>pa_type = PC_DIMENSIONAL, pa_readonly = PC_FALSE, pa_schema = demo_dim, pa_npoints = 2,
     pa_bounds = extent demo_dim 0 1 demo_pts, pa_stats = Some demo_stats, pd_bytes = plain_arrays demo_dim demo_pts\<rparr>"

lemma demo_plain:
  "storing store_zlib None None (Dimensional demo_plain) demo_pts" "p_stats (Dimensional demo_plain) = Some demo_stats"
  "p_schema (Dimensional demo_plain) = demo_dim" "stored_size pg_little demo_dim (body (Dimensional demo_plain)) < 2 ^ 30"
proof -
  have ok: "points_ok demo_dim demo_pts" using demo_dim_ready by (simp add: points_ok_def demo_pts_def widths_def)
  have s: "stats_ok demo_dim (Some demo_stats)" by (simp add: stats_ok_def demo_stats_def demo_dim_ready)
  have "patch_holds store_zlib None (Dimensional demo_plain) demo_pts"
    using ok s plain_coded [OF ok] by (simp add: dim_holds_def demo_plain_def) (simp add: demo_pts_def)
  moreover have "sc_compression demo_dim = PC_DIMENSIONAL" by (simp add: demo_dim_def)
  ultimately show "storing store_zlib None None (Dimensional demo_plain) demo_pts"
    by (simp add: storing_def) (simp add: demo_plain_def)
  show "p_stats (Dimensional demo_plain) = Some demo_stats" "p_schema (Dimensional demo_plain) = demo_dim"
    by (simp_all add: demo_plain_def)
  have l: "length (serial (col_array demo_dim demo_pts j)) = 5 + 2 * dim_size (sdim demo_dim j)" if "j < 2" for j
  proof -
    have "length (concat (col demo_dim demo_pts j)) = length demo_pts * dim_size (sdim demo_dim j)"
      using col_array_plain(1) [OF ok, of j] that demo_dim_ready(2) by (simp add: plain_def) (simp add: col_array_def)
    then show ?thesis by (simp add: serial_def col_array_def word_size_def) (simp add: demo_pts_def)
  qed
  have "[0..<2] = [0, Suc 0]" by (simp add: upt_conv_Cons)
  then show "stored_size pg_little demo_dim (body (Dimensional demo_plain)) < 2 ^ 30"
    using l [of 0] l [of "Suc 0"]
    by (simp add: stored_size_def common_size_def pg_little_def demo_plain_def plain_arrays_def demo_dim_ready
        demo_xy_facts demo_sizes pc_stats_size_def)
qed

text \<open>
  C11: A patch of any representation is stored as one datum, compressed as its schema says if it is not
  yet, whose length word, schema number, compression, number of points and box are those of the patch;
  and if the datum is smaller than a gigabyte, reading it with the schema gives a patch of that
  representation with the same points, box and statistics. No access leaves the datum.
\<close>

theorem storage_roundtrip:
  assumes "pg_works pg" "storing z laz pds pa ws" "p_stats pa = Some st"
  shows "\<exists>sp pds'. pc_patch_serialize pg z laz pa pds = Inr (sp, pds') \<and>
    sp_size sp = pg_set_varsize pg (data_of_patch + length (sp_data sp)) \<and> sp_pcid sp = sc_pcid (p_schema pa) \<and>
    sp_compression sp = sc_compression (p_schema pa) \<and> sp_npoints sp = length ws \<and> sp_bounds sp = p_bounds pa \<and>
    (data_of_patch + length (sp_data sp) < 2 ^ 30 \<longrightarrow>
      (\<exists>q p. pc_patch_deserialize pg sp (p_schema pa) = Inr q \<and> patch_type q = sc_compression (p_schema pa) \<and>
        p_bounds q = p_bounds pa \<and> own (p_stats q) = Some (own_stats st) \<and>
        pc_patch_uncompress z laz q = Inr p \<and> patch_ok p \<and> pts p = ws))"
proof -
  obtain sp pds' where r: "pc_patch_serialize pg z laz pa pds = Inr (sp, pds')"
    "sp_size sp = pg_set_varsize pg (data_of_patch + length (sp_data sp))" "sp_pcid sp = sc_pcid (p_schema pa)"
    "sp_compression sp = sc_compression (p_schema pa)" "sp_npoints sp = length ws" "sp_bounds sp = p_bounds pa"
    "data_of_patch + length (sp_data sp) < 2 ^ 30 \<longrightarrow> reads_as pg z laz sp (p_schema pa) ws (p_bounds pa) st"
    using serialize_storing [OF assms] by blast
  moreover have "\<exists>q p. pc_patch_deserialize pg sp (p_schema pa) = Inr q \<and> patch_type q = sc_compression (p_schema pa) \<and>
      p_bounds q = p_bounds pa \<and> own (p_stats q) = Some (own_stats st) \<and>
      pc_patch_uncompress z laz q = Inr p \<and> patch_ok p \<and> pts p = ws"
    if "reads_as pg z laz sp (p_schema pa) ws (p_bounds pa) st"
  proof -
    obtain q where q: "pc_patch_deserialize pg sp (p_schema pa) = Inr q" "patch_holds z laz q ws" "p_bounds q = p_bounds pa"
      "own (p_stats q) = Some (own_stats st)" "patch_type q = sc_compression (p_schema pa)"
      using \<open>reads_as _ _ _ _ _ _ _ _\<close> r(4) by (auto simp: reads_as_def)
    obtain p where "pc_patch_uncompress z laz q = Inr p" "patch_holds z laz (Uncompressed p) ws" using uncompress_ok [OF q(2)] by blast
    then show ?thesis using q by auto
  qed
  ultimately show ?thesis by blast
qed

theorem storage_roundtrip_witness:
  "(\<exists>sp pds. pc_patch_serialize pg_little store_zlib None (Uncompressed demo_stored) None = Inr (sp, pds) \<and>
      sp_compression sp = PC_DIMENSIONAL \<and> sp_npoints sp = 2) \<and>
   (\<exists>sp q p. pc_patch_serialize pg_little store_zlib None (Dimensional demo_plain) None = Inr (sp, None) \<and>
      pc_patch_deserialize pg_little sp demo_dim = Inr q \<and> patch_type q = PC_DIMENSIONAL \<and>
      pc_patch_uncompress store_zlib None q = Inr p \<and> pts p = [[1, 2, 3, 4, 5], [6, 7, 8, 9, 10]])"
proof (intro conjI)
  show "\<exists>sp pds. pc_patch_serialize pg_little store_zlib None (Uncompressed demo_stored) None = Inr (sp, pds) \<and>
      sp_compression sp = PC_DIMENSIONAL \<and> sp_npoints sp = 2"
    using storage_roundtrip [OF pg_little_works demo_stored(2,3)] unfolding demo_stored(4)
    by (auto simp: demo_dim_def demo_pts_def)
  obtain sp pds where r: "pc_patch_serialize pg_little store_zlib None (Dimensional demo_plain) None = Inr (sp, pds)"
    "data_of_patch + length (sp_data sp) < 2 ^ 30 \<longrightarrow> (\<exists>q p. pc_patch_deserialize pg_little sp demo_dim = Inr q \<and>
       patch_type q = sc_compression demo_dim \<and> pc_patch_uncompress store_zlib None q = Inr p \<and> pts p = demo_pts)"
    using storage_roundtrip [OF pg_little_works demo_plain(1,2)] unfolding demo_plain(3) by blast
  have c: "sc_compression demo_dim = PC_DIMENSIONAL" by (simp add: demo_dim_def)
  have h: "patch_holds store_zlib None (Dimensional demo_plain) demo_pts" using demo_plain(1) by (simp add: storing_def)
  have ok: "stats_ok (p_schema (Dimensional demo_plain)) (Some demo_stats)" using holds_points(3) [OF h] demo_plain(2) by simp
  have "pc_patch_serialize pg_little store_zlib None (Dimensional demo_plain) None =
      Inr (image pg_little (Dimensional demo_plain) demo_stats, None)"
    unfolding pc_patch_serialize_def using serialize_image [OF pg_little_works h demo_plain(2)] demo_plain(2,3) c
    by (simp add: demo_plain_def)
  then have "pds = None" "sp = image pg_little (Dimensional demo_plain) demo_stats" using r(1) by simp_all
  then show "\<exists>sp q p. pc_patch_serialize pg_little store_zlib None (Dimensional demo_plain) None = Inr (sp, None) \<and>
      pc_patch_deserialize pg_little sp demo_dim = Inr q \<and> patch_type q = PC_DIMENSIONAL \<and>
      pc_patch_uncompress store_zlib None q = Inr p \<and> pts p = [[1, 2, 3, 4, 5], [6, 7, 8, 9, 10]]"
    using r image_size [OF ok pg_little_works] demo_plain(3,4) c by (auto simp: demo_pts_def)
qed

text \<open>
  A point is stored with its schema number and read back with the same bytes; reading it with a schema
  of another size is an error.
\<close>

theorem point_storage_roundtrip:
  assumes "pg_works pg" "point_ok pt" "sizeof_point + sc_size (pt_schema pt) < 2 ^ 30"
  shows "\<exists>sp q. pc_point_serialize pg pt = Inr sp \<and> spt_pcid sp = sc_pcid (pt_schema pt) \<and>
    pc_point_deserialize pg sp (pt_schema pt) = Inr q \<and> pt_schema q = pt_schema pt \<and>
    take (sc_size (pt_schema pt)) (pt_data q) = pt_data pt \<and>
    (\<forall>s. sc_size s \<noteq> sc_size (pt_schema pt) \<longrightarrow>
      pc_point_deserialize pg sp s = Inl (PcError ''schema size and disk size mismatch, repair the schema''))"
proof -
  let ?n = "sc_size (pt_schema pt)" and ?j = "drop 8 (pg_palloc pg (11 + sc_size (pt_schema pt)))"
  have l: "length (pt_data pt) = ?n" "length ?j = 3 + ?n" using assms(1,2) by (simp_all add: point_ok_def pg_works_def)
  have r: "rd (pt_data pt) 0 ?n = Inr (pt_data pt)" using rd_all [of "pt_data pt"] l by simp
  have w: "wr ?j 0 (pt_data pt) = Inr (pt_data pt @ drop ?n ?j)" using wr_ok [of 0 "pt_data pt" ?j] l by simp
  have v: "pg_varsize pg (pg_set_varsize pg (11 + ?n)) = 11 + ?n" using assms(1,3) by (simp add: pg_works_def)
  have m: "int ?n mod 2 ^ 64 = int ?n" using assms(3) by (intro mod_pos_pos_trivial) simp_all
  let ?sp = "\<lparr>spt_size = pg_set_varsize pg (11 + ?n), spt_pcid = sc_pcid (pt_schema pt), spt_data = pt_data pt @ drop ?n ?j\<rparr>"
  have s: "pc_point_serialize pg pt = Inr ?sp" using r w by (simp add: pc_point_serialize_def Let_def)
  have "nat ((int (11 + ?n) + 1 - int sizeof_point) mod 2 ^ 64) = ?n" using m by simp
  then have d: "pc_point_deserialize pg ?sp s = (if sc_size s \<noteq> ?n
      then Inl (PcError ''schema size and disk size mismatch, repair the schema'')
      else pc_point_from_data (Some s) (pt_data pt @ drop ?n ?j))" for s
    by (simp only: pc_point_deserialize_def Let_def SERIALIZED_POINT.select_convs v)
  show ?thesis by (intro exI [of _ ?sp]) (use s d l in \<open>simp add: pc_point_from_data_def\<close>)
qed

theorem point_storage_roundtrip_witness:
  "\<exists>sp q. pc_point_serialize pg_little (st_min demo_stats) = Inr sp \<and> pc_point_deserialize pg_little sp demo_dim = Inr q \<and>
     take 5 (pt_data q) = [1, 2, 3, 4, 5]"
proof -
  have m: "pt_schema (st_min demo_stats) = demo_dim" "pt_data (st_min demo_stats) = [1, 2, 3, 4, 5]"
    by (simp_all add: demo_stats_def Let_def)
  then show ?thesis
    using point_storage_roundtrip [OF pg_little_works, of "st_min demo_stats"] by (auto simp: point_ok_def demo_dim_ready)
qed

text \<open>
  The envelope of a stored patch is a polygon in the byte order of the machine with one closed ring of
  five points, the corners of the box of the patch, marked with the reference system of the schema when
  it has one; the buffer is filled exactly.
\<close>

theorem envelope_is_box:
  assumes "pg_works pg"
  shows "pc_patch_to_geometry_wkb_envelope pg sp s = (if 0 < sc_srid s
    then Inr (1 # bytes_of_word (3 OR srid_mask :: 32 word) @ bytes_of_word (word_of_nat (sc_srid s) :: 32 word) @
       bytes_of_word (1 :: 32 word) @ bytes_of_word (5 :: 32 word) @ concat (map bytes_of_word (ring (sp_bounds sp))), 97)
    else Inr (1 # bytes_of_word (3 :: 32 word) @
       bytes_of_word (1 :: 32 word) @ bytes_of_word (5 :: 32 word) @ concat (map bytes_of_word (ring (sp_bounds sp))), 93))"
  unfolding envelope_eq [OF assms] by simp

theorem envelope_is_box_witness:
  "pc_patch_to_geometry_wkb_envelope pg_little (stored_patch pg_little demo_plain demo_stats []) (demo_dim\<lparr>sc_srid := 0\<rparr>) =
     Inr (1 # [3, 0, 0, 0] @ [1, 0, 0, 0] @ [5, 0, 0, 0] @
       concat (map bytes_of_word (ring (extent demo_dim 0 1 demo_pts))), 93)"
proof -
  have w: "bytes_of_word (3 :: 32 word) = [3, 0, 0, 0]" "bytes_of_word (1 :: 32 word) = [1, 0, 0, 0]"
    "bytes_of_word (5 :: 32 word) = [5, 0, 0, 0]" by (simp_all add: bytes_of_word_def word_size_def le_bytes_numeral)
  have b: "sp_bounds (stored_patch pg_little demo_plain demo_stats []) = extent demo_dim 0 1 demo_pts" "\<not> 0 < sc_srid (demo_dim\<lparr>sc_srid := 0\<rparr>)"
    by (simp_all add: stored_patch_def demo_plain_def)
  show ?thesis unfolding envelope_is_box [OF pg_little_works] b(1) if_not_P [OF b(2)] w ..
qed

end
