(* ===== verification/PC_Schema_Xml.thy ===== *)
theory PC_Schema_Xml
  imports PC_Schema
begin

text \<open>
  \<open>pc_schema_from_xml\<close> of lib/pc_schema.c. libxml2 is the parameter \<open>read_xml\<close>: it maps the text
  from the first \<open><\<close> on to the answers of the two XPath queries of the code, or to nothing when
  the text does not parse. The lemmas show that a schema the function returns is complete and
  well-formed, whatever the document says.
\<close>

section \<open>Numbers in text\<close>

definition isspace :: "char \<Rightarrow> bool" where
  "isspace c = (of_char c \<in> {9 :: nat, 10, 11, 12, 13, 32})"

definition digit_of :: "nat \<Rightarrow> char \<Rightarrow> nat option" where
  "digit_of base c = (let n = of_char (tolower c) :: nat;
     v = (if 48 \<le> n \<and> n \<le> 57 then n - 48 else if 97 \<le> n \<and> n \<le> 122 then n - 87 else base)
   in if v < base then Some v else None)"

text \<open>The value of the leading digits, how many they are, and the rest.\<close>

fun digits :: "nat \<Rightarrow> nat \<Rightarrow> nat \<Rightarrow> string \<Rightarrow> nat \<times> nat \<times> string" where
  "digits base acc n [] = (acc, n, [])"
| "digits base acc n (c # cs) = (case digit_of base c of None \<Rightarrow> (acc, n, c # cs)
     | Some v \<Rightarrow> digits base (acc * base + v) (Suc n) cs)"

definition sign_of :: "string \<Rightarrow> bool \<times> string" where
  "sign_of s = (case s of [] \<Rightarrow> (False, [])
     | c # cs \<Rightarrow> if c = CHR ''-'' then (True, cs) else if c = CHR ''+'' then (False, cs) else (False, c # cs))"

text \<open>\<open>atoi\<close>: a value no \<open>int\<close> holds is undefined behaviour.\<close>

definition atoi :: "string \<Rightarrow> int res" where
  "atoi s = (let (neg, r) = sign_of (dropWhile isspace s); (m, n, _) = digits 10 0 0 r;
     v = (if neg then - int m else int m)
   in if - (2 ^ 31) \<le> v \<and> v < 2 ^ 31 then Inr v else Inl Unspecified)"

definition exponent_of :: "char \<Rightarrow> string \<Rightarrow> int" where
  "exponent_of mark s = (case s of [] \<Rightarrow> 0
     | c # cs \<Rightarrow> if tolower c \<noteq> mark then 0
         else let (neg, r) = sign_of cs; (m, n, _) = digits 10 0 0 r in if neg then - int m else int m)"

text \<open>Mantissa digits with at most one point, and the number of digits after it.\<close>

definition mantissa :: "nat \<Rightarrow> string \<Rightarrow> nat \<times> nat \<times> nat \<times> string" where
  "mantissa base s = (let (m, n, r) = digits base 0 0 s
     in case r of [] \<Rightarrow> (m, n, 0, r)
        | c # cs \<Rightarrow> if c \<noteq> CHR ''.'' then (m, n, 0, r)
            else let (m', n', r') = digits base m n cs in (m', n', n' - n, r'))"

definition scale10 :: "bool \<Rightarrow> nat \<Rightarrow> int \<Rightarrow> fp" where
  "scale10 neg m k = (if 0 \<le> k then FNum neg (m * 10 ^ nat k) 0
     else fp_div (FNum neg m 0) (FNum False (10 ^ nat (- k)) 0))"

definition prefix_nocase :: "string \<Rightarrow> string \<Rightarrow> bool" where
  "prefix_nocase p s = (map tolower (take (length p) s) = p)"

definition atof :: "string \<Rightarrow> double" where
  "atof s = (let (neg, r) = sign_of (dropWhile isspace s)
     in if prefix_nocase ''inf'' r then encode64 (FInf neg)
        else if prefix_nocase ''nan'' r then encode64 FNaN
        else let (xm, xn, xf, xr) = mantissa 16 (drop 2 r) in
          if prefix_nocase ''0x'' r \<and> xn \<noteq> 0
          then encode64 (FNum neg xm (exponent_of CHR ''p'' xr - 4 * int xf))
          else let (m, n, f, r') = mantissa 10 r in
            if n = 0 then d_zero else encode64 (scale10 neg m (exponent_of CHR ''e'' r' - int f)))"

section \<open>The document\<close>

text \<open>
  A child of a \<open>dimension\<close> node: whether it is an element, its name, and its first child if any,
  with the \<open>content\<close> pointer of that child (null for an element). \<open>xm_children\<close> of a
  \<open>Metadata\<close> node lists its children, whether each is text, and its content.
\<close>

record xml_child =
  xc_element :: bool
  xc_name :: string
  xc_first :: "string option option"

record xml_node =
  xn_element :: bool
  xn_children :: "xml_child list"

record xml_meta =
  xm_metadata :: bool
  xm_name :: "string option"
  xm_children :: "(bool \<times> string) list"

text \<open>
  The two queries: the outer option is the failure of the evaluation, the inner one a null node set.
\<close>

record xml_doc =
  xd_dimensions :: "xml_node list option option"
  xd_metadata :: "xml_meta list option option"

definition xml_node_get_content :: "xml_meta \<Rightarrow> string" where
  "xml_node_get_content node = (case find fst (xm_children node) of None \<Rightarrow> [] | Some (_, c) \<Rightarrow> c)"

definition u32 :: "int \<Rightarrow> nat" where
  "u32 i = nat (i mod 2 ^ 32)"

definition dim_child :: "xml_child \<Rightarrow> PCDIMENSION \<Rightarrow> PCDIMENSION res" where
  "dim_child child d =
     (if \<not> xc_element child then Inr d
      else case xc_first child of None \<Rightarrow> Inr d
      | Some c \<Rightarrow>
        (let name = xc_name child; content = (case c of None \<Rightarrow> Inl OutOfBounds | Some x \<Rightarrow> Inr x)
         in if name = ''name'' then bindE content (\<lambda>x. Inr (d\<lparr>dim_name := Some x\<rparr>))
            else if name = ''description'' then bindE content (\<lambda>x. Inr (d\<lparr>dim_description := Some x\<rparr>))
            else if name = ''size'' then bindE content (\<lambda>x. bindE (atoi x) (\<lambda>i. Inr (d\<lparr>dim_size := u32 i\<rparr>)))
            else if name = ''active'' then
              bindE content (\<lambda>x. bindE (atoi x) (\<lambda>i. Inr (d\<lparr>dim_active := nat (i mod 256)\<rparr>)))
            else if name = ''position'' then
              bindE content (\<lambda>x. bindE (atoi x) (\<lambda>i. Inr (d\<lparr>dim_position := u32 (i - 1)\<rparr>)))
            else if name = ''interpretation'' then
              bindE content (\<lambda>x. bindE (pc_interpretation_number x) (\<lambda>t. Inr (d\<lparr>dim_interpretation := t\<rparr>)))
            else if name = ''scale'' then bindE content (\<lambda>x. Inr (d\<lparr>dim_scale := atof x\<rparr>))
            else if name = ''offset'' then bindE content (\<lambda>x. Inr (d\<lparr>dim_offset := atof x\<rparr>))
            else Inr d))"

text \<open>
  The loop over the dimension nodes. The flag is false when the code jumps to its cleanup label.
\<close>

fun xml_dims :: "nat \<Rightarrow> xml_node list \<Rightarrow> PCSCHEMA \<Rightarrow> (bool \<times> PCSCHEMA) res" where
  "xml_dims ndims [] s = Inr (True, s)"
| "xml_dims ndims (node # nodes) s =
     (if \<not> xn_element node then xml_dims ndims nodes s
      else bindE (foldE dim_child (xn_children node) pc_dimension_new) (\<lambda>d.
           bindE (pc_interpretation_size (dim_interpretation d)) (\<lambda>sz.
           let d = d\<lparr>dim_size := sz mod 2 ^ 32\<rparr> in
           if ndims \<le> dim_position d then Inr (False, s)
           else if sc_dims s ! dim_position d \<noteq> None then Inr (False, s)
           else bindE (pc_schema_set_dimension s d) (xml_dims ndims nodes))))"

definition meta_step :: "xml_meta \<Rightarrow> PCSCHEMA option \<Rightarrow> PCSCHEMA option res" where
  "meta_step node s =
     bindE (if xm_metadata node then (case xm_name node of None \<Rightarrow> Inl OutOfBounds
              | Some n \<Rightarrow> Inr (n, xml_node_get_content node)) else Inr ([], [])) (\<lambda>(name, v).
     if name = ''compression''
     then bindE (pc_compression_number (Some v)) (\<lambda>c.
          case s of None \<Rightarrow> Inl OutOfBounds | Some s \<Rightarrow> Inr (Some (s\<lparr>sc_compression := c\<rparr>)))
     else Inr s)"

definition xml_cleanup :: "PCSCHEMA option \<Rightarrow> PCSCHEMA option" where
  "xml_cleanup s = (case s of None \<Rightarrow> None | Some s \<Rightarrow> if pc_schema_is_valid s then Some s else None)"

definition xml_build :: "xml_node list option \<Rightarrow> (bool \<times> PCSCHEMA option) res" where
  "xml_build nodes = (case nodes of None \<Rightarrow> Inr (True, None)
     | Some ns \<Rightarrow> bindE (xml_dims (length ns) ns (pc_schema_new (length ns))) (\<lambda>(cont, s).
         if \<not> cont then Inr (False, Some s)
         else bindE (pc_schema_calculate_byteoffsets s) (\<lambda>s.
              bindE (pc_schema_check_xyzm s) (\<lambda>s. Inr (True, Some s)))))"

definition xml_compression :: "xml_doc \<Rightarrow> bool \<times> PCSCHEMA option \<Rightarrow> PCSCHEMA option res" where
  "xml_compression doc st = (case st of (cont, s) \<Rightarrow>
     if \<not> cont then Inr s
     else (case xd_metadata doc of None \<Rightarrow> Inr s | Some None \<Rightarrow> Inr s
           | Some (Some ms) \<Rightarrow> foldE meta_step ms s))"

definition pc_schema_from_xml :: "(string \<Rightarrow> xml_doc option) \<Rightarrow> string \<Rightarrow> PCSCHEMA option res" where
  "pc_schema_from_xml read_xml xml_str =
     (case read_xml (dropWhile (\<lambda>c. c \<noteq> CHR ''<'') xml_str) of None \<Rightarrow> Inr None
      | Some doc \<Rightarrow> (case xd_dimensions doc of None \<Rightarrow> Inr None
        | Some nodes \<Rightarrow> bindE (xml_build nodes) (\<lambda>st.
            bindE (xml_compression doc st) (\<lambda>s. Inr (xml_cleanup s)))))"

section \<open>What the function returns\<close>

lemma wf_cong:
  "sc_ndims s' = sc_ndims s \<Longrightarrow> sc_size s' = sc_size s \<Longrightarrow> sc_dims s' = sc_dims s \<Longrightarrow>
   sc_namehash s' = sc_namehash s \<Longrightarrow> sc_heap s' = sc_heap s \<Longrightarrow> schema_wf s' = schema_wf s"
  by (simp add: schema_wf_def layout_ok_def)

lemma calculate_keeps_wf:
  assumes "schema_wf s"
  obtains s' where "pc_schema_calculate_byteoffsets s = Inr s'" "schema_wf s'" "sc_ndims s' = sc_ndims s"
    "sc_dims s' = sc_dims s" "laid_out (sc_heap s) (sc_dims s) (sc_ndims s) (sc_heap s')"
proof -
  obtain h where h: "sc_namehash s = Some h" "names_ok (sc_heap s) (sc_dims s) h"
    and r: "refs_ok (sc_heap s) (sc_dims s)" "length (sc_dims s) = sc_ndims s"
    "\<forall>i < sc_ndims s. \<forall>r. sc_dims s ! i = Some r \<longrightarrow> dim_position (sc_heap s ! r) = i"
    using assms unfolding schema_wf_def by blast
  show thesis
  proof (rule calculate_wf [OF r h])
    fix heap' sz
    assume "pc_schema_calculate_byteoffsets s = Inr (s\<lparr>sc_heap := heap', sc_size := sz\<rparr>)"
      "schema_wf (s\<lparr>sc_heap := heap', sc_size := sz\<rparr>)" "laid_out (sc_heap s) (sc_dims s) (sc_ndims s) heap'"
    then show thesis using that [of "s\<lparr>sc_heap := heap', sc_size := sz\<rparr>"] by simp
  qed
qed

lemma xml_dims_wf:
  "schema_wf s \<Longrightarrow> sc_ndims s = n \<Longrightarrow> xml_dims n nodes s = Inr (cont, s') \<Longrightarrow>
   schema_wf s' \<and> sc_ndims s' = n"
proof (induction nodes arbitrary: s)
  case (Cons node nodes)
  show ?case
  proof (cases "xn_element node")
    case False
    then show ?thesis using Cons by simp
  next
    case True
    from Cons.prems(3) True obtain d0 sz where
      sz: "pc_interpretation_size (dim_interpretation d0) = Inr sz" and
      r: "(let d = d0\<lparr>dim_size := sz mod 2 ^ 32\<rparr> in
           if n \<le> dim_position d then Inr (False, s)
           else if sc_dims s ! dim_position d \<noteq> None then Inr (False, s)
           else bindE (pc_schema_set_dimension s d) (xml_dims n nodes)) = Inr (cont, s')"
      by (auto simp: bindE_eq_Inr)
    define d where "d = d0\<lparr>dim_size := sz mod 2 ^ 32\<rparr>"
    have r': "(if n \<le> dim_position d then Inr (False, s)
           else if sc_dims s ! dim_position d \<noteq> None then Inr (False, s)
           else bindE (pc_schema_set_dimension s d) (xml_dims n nodes)) = Inr (cont, s')"
      using r by (simp only: Let_def d_def)
    have t: "dim_interpretation d < NUM_INTERPRETATIONS"
      using sz by (auto simp: d_def pc_interpretation_size_def split: if_splits)
    show ?thesis
    proof (cases "n \<le> dim_position d \<or> sc_dims s ! dim_position d \<noteq> None")
      case True
      then show ?thesis using r' Cons.prems(1,2) by (cases "n \<le> dim_position d") simp_all
    next
      case False
      obtain s1 where s1: "pc_schema_set_dimension s d = Inr s1" "schema_wf s1" "sc_ndims s1 = n"
        using set_dimension_wf [OF Cons.prems(1), of d] False t Cons.prems(2) by (metis not_le)
      then show ?thesis using Cons.IH [OF s1(2,3)] r' False by simp
    qed
  qed
qed simp

lemma check_xyzm_keeps:
  assumes "foldE check_xyzm_step is s = Inr s'"
  shows "sc_ndims s' = sc_ndims s \<and> sc_size s' = sc_size s \<and> sc_dims s' = sc_dims s \<and>
    sc_namehash s' = sc_namehash s \<and> sc_heap s' = sc_heap s"
  using assms
proof (induction "is" arbitrary: s)
  case (Cons i "is")
  then obtain s1 where s1: "check_xyzm_step i s = Inr s1" "foldE check_xyzm_step is s1 = Inr s'"
    by (auto simp: bindE_eq_Inr)
  have "sc_ndims s1 = sc_ndims s \<and> sc_size s1 = sc_size s \<and> sc_dims s1 = sc_dims s \<and>
    sc_namehash s1 = sc_namehash s \<and> sc_heap s1 = sc_heap s"
    using s1(1) by (auto simp: check_xyzm_step_def split: option.splits if_splits)
  then show ?case using Cons.IH [OF s1(2)] by simp
qed simp

lemma xml_build_wf:
  assumes "xml_build nodes = Inr (cont, Some u)"
  shows "schema_wf u"
proof (cases nodes)
  case None
  then show ?thesis using assms by (simp add: xml_build_def)
next
  case (Some ns)
  then obtain c t where t: "xml_dims (length ns) ns (pc_schema_new (length ns)) = Inr (c, t)"
    and r: "(if \<not> c then Inr (False, Some t)
              else bindE (pc_schema_calculate_byteoffsets t) (\<lambda>s.
                   bindE (pc_schema_check_xyzm s) (\<lambda>s. Inr (True, Some s)))) = Inr (cont, Some u)"
    using assms by (auto simp: xml_build_def bindE_eq_Inr)
  have wt: "schema_wf t"
    using xml_dims_wf [OF schema_new_wf _ t] by (simp add: pc_schema_new_def)
  show ?thesis
  proof (cases c)
    case False
    then show ?thesis using r wt by simp
  next
    case True
    obtain t' where t': "pc_schema_calculate_byteoffsets t = Inr t'" "schema_wf t'"
      by (rule calculate_keeps_wf [OF wt])
    then have "pc_schema_check_xyzm t' = Inr u" using r True by (auto simp: bindE_eq_Inr)
    then show ?thesis
      using check_xyzm_keeps [of _ t' u] t'(2) wf_cong [of u t'] by (auto simp: pc_schema_check_xyzm_def)
  qed
qed

lemma meta_step_wf:
  assumes "meta_step x u = Inr u'" "\<forall>t. u = Some t \<longrightarrow> schema_wf t"
  shows "\<forall>t. u' = Some t \<longrightarrow> schema_wf t"
  using assms by (auto simp: meta_step_def bindE_eq_Inr wf_cong [of "_\<lparr>sc_compression := _\<rparr>"]
      split: if_splits option.splits)

lemma xml_compression_wf:
  assumes "xml_compression doc (cont, s1) = Inr (Some s2)" "\<forall>t. s1 = Some t \<longrightarrow> schema_wf t"
  shows "schema_wf s2"
proof (cases "cont \<and> (\<exists>ms. xd_metadata doc = Some (Some ms))")
  case False
  then have "s1 = Some s2"
    using assms(1) by (cases "xd_metadata doc") (auto simp: xml_compression_def split: if_splits option.splits)
  then show ?thesis using assms(2) by simp
next
  case True
  then obtain ms where "foldE meta_step ms s1 = Inr (Some s2)" using assms(1) by (auto simp: xml_compression_def)
  from foldE_invariant [OF this, of "\<lambda>u. \<forall>t. u = Some t \<longrightarrow> schema_wf t"] show ?thesis
    using assms(2) meta_step_wf by blast
qed

lemma from_xml_wf:
  assumes "pc_schema_from_xml read_xml xml = Inr (Some s)"
  shows "schema_wf s \<and> pc_schema_is_valid s"
proof -
  obtain doc where doc: "read_xml (dropWhile (\<lambda>c. c \<noteq> CHR ''<'') xml) = Some doc"
    using assms by (cases "read_xml (dropWhile (\<lambda>c. c \<noteq> CHR ''<'') xml)") (auto simp: pc_schema_from_xml_def)
  obtain nodes where nodes: "xd_dimensions doc = Some nodes"
    using assms doc by (cases "xd_dimensions doc") (auto simp: pc_schema_from_xml_def)
  from assms obtain cont s1 s2 where s1: "xml_build nodes = Inr (cont, s1)"
    and s2: "xml_compression doc (cont, s1) = Inr s2" and s: "xml_cleanup s2 = Some s"
    by (auto simp: pc_schema_from_xml_def doc nodes bindE_eq_Inr)
  from s have v: "s2 = Some s" "pc_schema_is_valid s"
    by (auto simp: xml_cleanup_def split: option.splits if_splits)
  have "\<forall>t. s1 = Some t \<longrightarrow> schema_wf t" using xml_build_wf [of nodes cont] s1 by auto
  then show ?thesis using xml_compression_wf s2 v by blast
qed

section \<open>An example\<close>

definition demo_child :: "string \<Rightarrow> string \<Rightarrow> xml_child" where
  "demo_child tag txt = \<lparr>xc_element = True, xc_name = tag, xc_first = Some (Some txt)\<rparr>"

definition demo_node_x :: xml_node where
  "demo_node_x = \<lparr>xn_element = True, xn_children = [demo_child ''name'' ''X'',
     demo_child ''position'' ''1'', demo_child ''interpretation'' ''int32_t'']\<rparr>"

definition demo_node_y :: xml_node where
  "demo_node_y = \<lparr>xn_element = True, xn_children = [demo_child ''name'' ''Y'',
     demo_child ''position'' ''2'', demo_child ''interpretation'' ''uint8_t'']\<rparr>"

definition demo_doc :: xml_doc where
  "demo_doc = \<lparr>xd_dimensions = Some (Some [demo_node_x, demo_node_y]),
     xd_metadata = Some (Some [\<lparr>xm_metadata = True, xm_name = Some ''compression'',
        xm_children = [(True, ''dimensional'')]\<rparr>])\<rparr>"

lemma demo_atoi: "atoi ''1'' = Inr 1" "atoi ''2'' = Inr 2"
proof -
  have d: "digit_of 10 CHR ''1'' = Some 1" "digit_of 10 CHR ''2'' = Some 2" by code_simp+
  have n: "\<not> isspace CHR ''1''" "\<not> isspace CHR ''2''" by code_simp+
  show "atoi ''1'' = Inr 1" "atoi ''2'' = Inr 2"
    by (simp_all add: atoi_def sign_of_def d n)
qed

lemma demo_node:
  "foldE dim_child (xn_children demo_node_x) pc_dimension_new = Inr demo_x" "xn_element demo_node_x"
  "foldE dim_child (xn_children demo_node_y) pc_dimension_new = Inr demo_y" "xn_element demo_node_y"
  by (simp_all add: demo_node_x_def demo_node_y_def demo_child_def dim_child_def demo_atoi u32_def
      pc_interpretation_number_def char_at_def demo_x_def demo_y_def pc_dimension_new_def Let_def)

lemma demo_from_xml:
  "\<exists>s. pc_schema_from_xml (\<lambda>_. Some demo_doc) ''<xml>'' = Inr (Some s) \<and> sc_ndims s = 2 \<and> sc_dims s = [Some 0, Some 1] \<and>
    sc_xdim s = Some 0 \<and> sc_ydim s = Some 1 \<and> sc_compression s = PC_DIMENSIONAL \<and>
    dim_name (sc_heap s ! 0) = Some ''X'' \<and> dim_name (sc_heap s ! 1) = Some ''Y'' \<and>
    (\<exists>a b. sc_heap s ! 0 = demo_x\<lparr>dim_byteoffset := a, dim_size := b\<rparr>) \<and>
    (\<exists>a b. sc_heap s ! 1 = demo_y\<lparr>dim_byteoffset := a, dim_size := b\<rparr>) \<and>
    dim_interpretation (sc_heap s ! 0) = PC_INT32 \<and> dim_interpretation (sc_heap s ! 1) = PC_UINT8 \<and>
    (\<forall>i < 2. dim_scale (sc_heap s ! i) = d_one \<and> dim_offset (sc_heap s ! i) = d_zero)"
proof -
  let ?s0 = "pc_schema_new 2" and ?x = "demo_x\<lparr>dim_size := 4\<rparr>" and ?y = "demo_y\<lparr>dim_size := 1\<rparr>"
  have n: "sc_ndims ?s0 = 2" "sc_dims ?s0 = [None, None]" "sc_heap ?s0 = []" "sc_xdim ?s0 = None"
    by (simp_all add: pc_schema_new_def numeral_2_eq_2)
  obtain s1 where s1: "pc_schema_set_dimension ?s0 ?x = Inr s1" "schema_wf s1"
    "sc_dims s1 = [Some 0, None]" "sc_ndims s1 = 2" "length (sc_heap s1) = 1"
    and l1: "laid_out [?x] [Some 0, None] 2 (sc_heap s1)"
    by (rule set_dimension_wf [OF schema_new_wf, of ?x 2]) (simp_all add: n demo_x_def pc_dimension_new_def)
  obtain s2 where s2: "pc_schema_set_dimension s1 ?y = Inr s2" "schema_wf s2"
    "sc_dims s2 = [Some 0, Some 1]" "sc_ndims s2 = 2" "length (sc_heap s2) = 2"
    and l2: "laid_out (sc_heap s1 @ [?y]) [Some 0, Some 1] 2 (sc_heap s2)"
    by (rule set_dimension_wf [OF s1(2), of ?y]) (simp_all add: s1 demo_y_def pc_dimension_new_def)
  obtain s3 where s3: "pc_schema_calculate_byteoffsets s2 = Inr s3" "sc_dims s3 = [Some 0, Some 1]" "sc_ndims s3 = 2"
    and l3: "laid_out (sc_heap s2) [Some 0, Some 1] 2 (sc_heap s3)"
    by (rule calculate_keeps_wf [OF s2(2)]) (simp add: s2)
  note nm = laid_out_nth(1) [OF l1] laid_out_nth(1) [OF l2] laid_out_nth(1) [OF l3]
  have names: "dim_name (sc_heap s3 ! 0) = Some ''X''" "dim_name (sc_heap s3 ! Suc 0) = Some ''Y''"
    using nm s1(5) s2(5) by (simp_all add: nth_append demo_x_def demo_y_def pc_dimension_new_def)
  have types: "dim_interpretation (sc_heap s3 ! 0) = 5" "dim_interpretation (sc_heap s3 ! Suc 0) = 2"
    using laid_out_nth(3) [OF l1] laid_out_nth(3) [OF l2] laid_out_nth(3) [OF l3] s1(5) s2(5)
    by (simp_all add: nth_append demo_x_def demo_y_def pc_dimension_new_def)
  have scales: "dim_scale (sc_heap s3 ! 0) = d_one" "dim_scale (sc_heap s3 ! Suc 0) = d_one"
    using laid_out_nth(4) [OF l1] laid_out_nth(4) [OF l2] laid_out_nth(4) [OF l3] s1(5) s2(5)
    by (simp_all add: nth_append demo_x_def demo_y_def pc_dimension_new_def)
  have offsets: "dim_offset (sc_heap s3 ! 0) = d_zero" "dim_offset (sc_heap s3 ! Suc 0) = d_zero"
    using laid_out_nth(5) [OF l1] laid_out_nth(5) [OF l2] laid_out_nth(5) [OF l3] s1(5) s2(5)
    by (simp_all add: nth_append demo_x_def demo_y_def pc_dimension_new_def)
  have demo_fields: "dim_interpretation demo_x = 5" "dim_interpretation demo_y = 2" "dim_position demo_x = 0"
    "dim_position demo_y = Suc 0" by (simp_all add: demo_x_def demo_y_def pc_dimension_new_def)
  obtain a b a' b' a'' b'' where "sc_heap s1 ! 0 = ?x\<lparr>dim_byteoffset := a, dim_size := b\<rparr>"
    "sc_heap s2 ! 0 = (sc_heap s1 ! 0)\<lparr>dim_byteoffset := a', dim_size := b'\<rparr>"
    "sc_heap s3 ! 0 = (sc_heap s2 ! 0)\<lparr>dim_byteoffset := a'', dim_size := b''\<rparr>"
    using laid_out_shape [OF l1, of 0] laid_out_shape [OF l2, of 0] laid_out_shape [OF l3, of 0] s1(5) s2(5) by (auto simp: nth_append)
  then have x: "\<exists>a b. sc_heap s3 ! 0 = demo_x\<lparr>dim_byteoffset := a, dim_size := b\<rparr>" by auto
  obtain c d c' d' where "sc_heap s2 ! 1 = ?y\<lparr>dim_byteoffset := c, dim_size := d\<rparr>"
    "sc_heap s3 ! 1 = (sc_heap s2 ! 1)\<lparr>dim_byteoffset := c', dim_size := d'\<rparr>"
    using laid_out_shape [OF l2, of 1] laid_out_shape [OF l3, of 1] s1(5) s2(5) by (auto simp: nth_append)
  then have y: "\<exists>a b. sc_heap s3 ! Suc 0 = demo_y\<lparr>dim_byteoffset := a, dim_size := b\<rparr>" by auto
  have dims: "xml_dims 2 (the (the (xd_dimensions demo_doc))) ?s0 = Inr (True, s2)"
    using s1(1,3) s2(1) n demo_fields by (simp add: demo_doc_def demo_node pc_interpretation_size_lt)
  define s4 where "s4 = s3\<lparr>sc_xdim := Some 0, sc_ydim := Some 1\<rparr>"
  have "pc_schema_check_xyzm s3 = Inr s4"
    by (simp add: pc_schema_check_xyzm_def check_xyzm_step_def s3 names str_eq_def lower_letters s4_def
        upt_rec [of 0] upt_rec [of "Suc 0"] numeral_2_eq_2)
  then have b: "xml_build (Some (the (the (xd_dimensions demo_doc)))) = Inr (True, Some s4)"
    using dims s3(1) by (simp add: xml_build_def demo_doc_def numeral_2_eq_2)
  have "pc_compression_number (Some ''dimensional'') = Inr 1"
    by (simp add: pc_compression_number_def char_at_def str_eq_def)
  then have m: "xml_compression demo_doc (True, Some s4) = Inr (Some (s4\<lparr>sc_compression := 1\<rparr>))"
    by (simp add: xml_compression_def demo_doc_def meta_step_def xml_node_get_content_def)
  have "pc_schema_is_valid (s4\<lparr>sc_compression := 1\<rparr>)"
    by (simp add: pc_schema_is_valid_def s4_def s3 upt_rec [of 0] upt_rec [of "Suc 0"] numeral_2_eq_2)
  moreover have "\<forall>i < 2. dim_scale (sc_heap s3 ! i) = d_one \<and> dim_offset (sc_heap s3 ! i) = d_zero"
    using scales offsets by (auto simp: less_2)
  ultimately show ?thesis
    using b m names types x y by (simp add: pc_schema_from_xml_def xml_cleanup_def demo_doc_def s4_def s3)
qed

section \<open>Properties\<close>

text \<open>
  C35: Whatever document libxml2 returns, a schema that \<open>pc_schema_from_xml\<close> hands out is
  well-formed (positions, byte offsets, sizes and name table agree) and complete: it has an X and a Y
  dimension and no hole in its positions.
\<close>

theorem from_xml_gives_valid_schema:
  assumes "pc_schema_from_xml read_xml xml = Inr (Some s)"
  shows "schema_wf s \<and> sc_xdim s \<noteq> None \<and> sc_ydim s \<noteq> None \<and>
    (\<forall>i < sc_ndims s. \<exists>d. pc_schema_get_dimension s i = Some d \<and> dim_position d = i)"
proof -
  have w: "schema_wf s" and v: "pc_schema_is_valid s" using from_xml_wf [OF assms] by auto
  have "\<exists>d. pc_schema_get_dimension s i = Some d \<and> dim_position d = i" if "i < sc_ndims s" for i
  proof -
    have "sc_dims s ! i \<noteq> None" using v that by (auto simp: pc_schema_is_valid_def list_all_iff split: if_splits)
    then obtain r where "sc_dims s ! i = Some r" by blast
    moreover then have "dim_position (sc_heap s ! r) = i" using w that by (simp add: schema_wf_def)
    ultimately show ?thesis using that by (simp add: pc_schema_get_dimension_def deref_def)
  qed
  then show ?thesis using w v by (auto simp: pc_schema_is_valid_def split: if_splits)
qed

theorem from_xml_gives_valid_schema_witness:
  "\<exists>s. pc_schema_from_xml (\<lambda>_. Some demo_doc) ''<xml>'' = Inr (Some s) \<and> schema_wf s \<and> sc_xdim s \<noteq> None"
  using demo_from_xml from_xml_gives_valid_schema by blast

end
