(* ===== verification/PC_Schema_Cache.thy ===== *)
theory PC_Schema_Cache
  imports PC_Storage PC_Schema_Xml
begin

text \<open>
  The schema cache of pgsql/pc_pgsql.c, and the type modifiers of pgsql/pc_inout.c.

  What PostgreSQL answers is a parameter (\<open>db\<close>): the catalog, the result of the query for the schema of a
  number (the code asks for one row), and \<open>read_xml\<close> of PC_Schema_Xml. The state is the constant cache of
  the process and, for one call site of a function, the schema cache behind \<open>fn_extra\<close>; a function that
  ends in an error aborts the statement, so an error has no state. The lemmas show that the cache is a
  queue of the last 16 schemas that were loaded and cannot be told from loading every time.
\<close>

section \<open>Names of the format table\<close>

record PC_CONSTANTS =
  pcc_schema :: string
  pcc_formats :: string
  pcc_formats_srid :: string
  pcc_formats_schema :: string

datatype spi =
    SpiError
  | SpiRows "(string option \<times> string option) list"

record db =
  db_extension_oid :: nat
  db_extension_tuple :: "nat \<Rightarrow> nat option"
  db_candidates :: "nat list"
  db_namespace_name :: "nat \<Rightarrow> string"
  db_connect :: bool
  db_quote :: "string \<Rightarrow> string \<Rightarrow> string"
  db_exec :: "string \<Rightarrow> spi"
  db_read_xml :: "string \<Rightarrow> xml_doc option"

text \<open>The candidates are the namespaces of the functions named \<open>pointcloud_full_version\<close>; 0 is no namespace.\<close>

definition pointcloud_get_full_version_schema :: "db \<Rightarrow> nat" where
  "pointcloud_get_full_version_schema D = (case db_candidates D of [] \<Rightarrow> 0 | c # _ \<Rightarrow> c)"

definition pointcloud_get_extension_schema :: "db \<Rightarrow> nat \<Rightarrow> nat" where
  "pointcloud_get_extension_schema D ext_oid = (case db_extension_tuple D ext_oid of Some n \<Rightarrow> n | None \<Rightarrow> 0)"

definition pointcloud_init_constants_cache :: "db \<Rightarrow> PC_CONSTANTS option \<Rightarrow> PC_CONSTANTS res" where
  "pointcloud_init_constants_cache D cache = (case cache of Some c \<Rightarrow> Inr c
     | None \<Rightarrow> (let ext_oid = db_extension_oid D;
         nsp_oid = (if ext_oid \<noteq> 0 then pointcloud_get_extension_schema D ext_oid else pointcloud_get_full_version_schema D)
       in if nsp_oid = 0 then Inl (PcError ''Unable to determine 'pointcloud' install schema'')
          else Inr \<lparr>pcc_schema = db_namespace_name D nsp_oid, pcc_formats = ''pointcloud_formats'',
                    pcc_formats_srid = ''srid'', pcc_formats_schema = ''schema''\<rparr>))"

section \<open>Loading a schema\<close>

fun show_nat :: "nat \<Rightarrow> string" where
  "show_nat n = (if n < 10 then [char_of (48 + n)] else show_nat (n div 10) @ [char_of (48 + n mod 10)])"

declare show_nat.simps [simp del]

definition show_int :: "int \<Rightarrow> string" where
  "show_int i = (if i < 0 then CHR ''-'' # show_nat (nat (- i)) else show_nat (nat i))"

text \<open>The text is printed into an array of 256 characters, with a terminating zero; \<open>%d\<close> prints an \<open>int\<close>.\<close>

definition schema_query :: "db \<Rightarrow> PC_CONSTANTS \<Rightarrow> nat \<Rightarrow> string res" where
  "schema_query D k pcid = (let formats = db_quote D (pcc_schema k) (pcc_formats k);
     sql = ''select '' @ pcc_formats_schema k @ '', '' @ pcc_formats_srid k @ '' from '' @ formats @ '' where pcid = '' @ show_int (s32 (int pcid))
   in if length sql + 1 \<le> 256 then Inr sql else Inl OutOfBounds)"

definition pc_schema_from_pcid_uncached :: "db \<Rightarrow> PC_CONSTANTS option \<Rightarrow> nat \<Rightarrow> PCSCHEMA res" where
  "pc_schema_from_pcid_uncached D constants pcid =
     (if \<not> db_connect D then Inl (PcError ''%s: could not connect to SPI manager'')
      else case constants of None \<Rightarrow> Inl (PcError ''%s: constants cache is not initialized'')
      | Some k \<Rightarrow> bindE (schema_query D k pcid) (\<lambda>sql. case db_exec D sql of
            SpiError \<Rightarrow> Inl (PcError ''%s: error (%d) executing query: %s'')
          | SpiRows [] \<Rightarrow> Inl (PcError ''no entry in %s for pcid = %d'')
          | SpiRows ((xml_spi, srid_spi) # _) \<Rightarrow> (case (xml_spi, srid_spi) of
              (Some xml, Some srid) \<Rightarrow> bindE (atoi srid) (\<lambda>srid.
                bindE (pc_schema_from_xml (db_read_xml D) xml) (\<lambda>schema. case schema of
                  None \<Rightarrow> Inl (PcError ''unable to parse XML for pcid = %d in %s'')
                | Some schema \<Rightarrow> Inr (schema\<lparr>sc_pcid := pcid, sc_srid := u32 srid\<rparr>)))
            | _ \<Rightarrow> Inl (PcError ''unable to read row from %s for pcid = %d''))))"

section \<open>The cache\<close>

abbreviation (input) "SchemaCacheSize \<equiv> 16 :: nat"

record SchemaCache =
  next_slot :: nat
  pcids :: "nat list"
  schemas :: "PCSCHEMA option list"

text \<open>What outlives a call: the constants of the process, and the cache of the call site.\<close>

record session =
  ss_constants :: "PC_CONSTANTS option"
  fn_extra :: "SchemaCache option"

definition GetSchemaCache :: "session \<Rightarrow> SchemaCache \<times> session" where
  "GetSchemaCache ss = (case fn_extra ss of Some cache \<Rightarrow> (cache, ss)
     | None \<Rightarrow> (let cache = \<lparr>next_slot = 0, pcids = replicate SchemaCacheSize 0, schemas = replicate SchemaCacheSize None\<rparr>
                in (cache, ss\<lparr>fn_extra := Some cache\<rparr>)))"

definition pc_schema_from_pcid :: "db \<Rightarrow> nat \<Rightarrow> session \<Rightarrow> (PCSCHEMA option \<times> session) res" where
  "pc_schema_from_pcid D pcid ss = (let (cache, ss) = GetSchemaCache ss in
     case find (\<lambda>i. pcids cache ! i = pcid) [0..<SchemaCacheSize] of
       Some i \<Rightarrow> Inr (schemas cache ! i, ss)
     | None \<Rightarrow> bindE (pointcloud_init_constants_cache D (ss_constants ss)) (\<lambda>k.
         bindE (pc_schema_from_pcid_uncached D (Some k) pcid) (\<lambda>schema.
         Inr (Some schema, \<lparr>ss_constants = Some k,
           fn_extra = Some \<lparr>next_slot = (next_slot cache + 1) mod SchemaCacheSize,
             pcids = (pcids cache)[next_slot cache := pcid],
             schemas = (schemas cache)[next_slot cache := Some schema]\<rparr>\<rparr>))))"

section \<open>Text form of points and patches\<close>

text \<open>A null schema is dereferenced by the reader of points; the reader of patches has a test.\<close>

definition pc_point_from_hexwkb :: "db \<Rightarrow> byte list \<Rightarrow> nat \<Rightarrow> session \<Rightarrow> (PCPOINT \<times> session) res" where
  "pc_point_from_hexwkb D hexwkb hexlen ss =
     bindE (pc_bytes_from_hexbytes hexwkb hexlen) (\<lambda>wkb.
     bindE (pc_wkb_get_pcid wkb) (\<lambda>pcid.
     bindE (pc_schema_from_pcid D (unat pcid) ss) (\<lambda>(schema, ss). case schema of
         None \<Rightarrow> Inl OutOfBounds
       | Some schema \<Rightarrow> bindE (pc_point_from_wkb schema wkb (hexlen div 2)) (\<lambda>pt. Inr (pt, ss)))))"

text \<open>The printed text ends with the zero of the buffer.\<close>

definition pc_point_to_hexwkb :: "PCPOINT \<Rightarrow> byte list res" where
  "pc_point_to_hexwkb pt = bindE (pc_point_to_wkb pt) (\<lambda>(wkb, wkb_size). pc_hexbytes_from_bytes wkb wkb_size)"

definition pc_patch_from_hexwkb ::
  "db \<Rightarrow> zlib \<Rightarrow> lazperf option \<Rightarrow> byte list \<Rightarrow> nat \<Rightarrow> session \<Rightarrow> (patch \<times> session) res" where
  "pc_patch_from_hexwkb D z laz hexwkb hexlen ss =
     bindE (pc_bytes_from_hexbytes hexwkb hexlen) (\<lambda>wkb.
     bindE (pc_wkb_get_pcid wkb) (\<lambda>pcid.
     if pcid = 0 then Inl (PcError ''%s: pcid is zero'')
     else bindE (pc_schema_from_pcid D (unat pcid) ss) (\<lambda>(schema, ss). case schema of
         None \<Rightarrow> Inl (PcError ''%s: unable to look up schema entry'')
       | Some schema \<Rightarrow> bindE (pc_patch_from_wkb z laz schema wkb (hexlen div 2)) (\<lambda>patch. Inr (patch, ss)))))"

definition pc_patch_to_hexwkb :: "lazperf option \<Rightarrow> patch \<Rightarrow> byte list res" where
  "pc_patch_to_hexwkb laz patch = bindE (pc_patch_to_wkb laz patch) (\<lambda>(wkb, wkb_size). pc_hexbytes_from_bytes wkb wkb_size)"

section \<open>Type modifiers\<close>

text \<open>An \<open>int32\<close> is an integer; -1 stands for no modifier.\<close>

definition pcid_from_typmod :: "int \<Rightarrow> nat" where
  "pcid_from_typmod typmod = (if typmod = -1 then 0 else nat (typmod mod 65536))"

definition pcid_consistent :: "nat \<Rightarrow> nat \<Rightarrow> unit res" where
  "pcid_consistent pcid column_pcid = (if column_pcid \<noteq> 0 \<and> pcid \<noteq> column_pcid
     then Inl (PcError ''point/patch pcid (%u) does not match column pcid (%d)'') else Inr ())"

text \<open>
  An array of SQL: the element type, the sizes and lower bounds of its dimensions, the bitmap of the elements
  that are not null (absent when none is), and these elements in the order of their storage.
\<close>

record 'a ArrayType =
  arr_elemtype :: nat
  arr_dims :: "int list"
  arr_lbound :: "int list"
  arr_nullbitmap :: "byte list option"
  arr_items :: "'a list"

definition ArrayGetNItems :: "int list \<Rightarrow> int" where
  "ArrayGetNItems dims = (if dims = [] then 0 else prod_list dims)"

abbreviation (input) "CSTRINGOID \<equiv> 2275 :: nat"
abbreviation (input) "FLOAT8OID \<equiv> 701 :: nat"

text \<open>\<open>strtol\<close> in base 10: the value, whether it was out of range, and what follows, or nothing without digits.\<close>

definition strtol10 :: "string \<Rightarrow> (int \<times> bool \<times> string) option" where
  "strtol10 s = (let (neg, r) = sign_of (dropWhile isspace s); (m, n, rest) = digits 10 0 0 r;
     v = (if neg then - int m else int m)
   in if n = 0 then None
      else if v < - (2 ^ 63) then Some (- (2 ^ 63), True, rest)
      else if 2 ^ 63 \<le> v then Some (2 ^ 63 - 1, True, rest)
      else Some (v, False, rest))"

definition pc_typmod_in :: "string ArrayType \<Rightarrow> int res" where
  "pc_typmod_in arr =
     (if arr_elemtype arr \<noteq> CSTRINGOID then Inl (PcError ''typmod array must be type cstring[]'')
      else if length (arr_dims arr) \<noteq> 1 then Inl (PcError ''typmod array must be one-dimensional'')
      else if arr_nullbitmap arr \<noteq> None then Inl (PcError ''typmod array must not contain nulls'')
      else if 1 < ArrayGetNItems (arr_dims arr) then Inl (PcError ''typmod array must have one element'')
      else case arr_items arr of s # _ \<Rightarrow> (case strtol10 s of
            None \<Rightarrow> Inl (PcError ''invalid input syntax for type uint32: %s'')
          | Some (v, erange, rest) \<Rightarrow>
              if erange then Inl (PcError ''value %s is out of range for type uint32'')
              else if rest \<noteq> [] then Inl (PcError ''invalid input syntax for type uint32: %s'')
              else Inr (s32 v))
        | [] \<Rightarrow> Inr 0)"

definition pc_typmod_out :: "int \<Rightarrow> string" where
  "pc_typmod_out typmod = (let pcid = pcid_from_typmod typmod in
     if pcid = 0 then [] else ''('' @ show_nat pcid @ '')'')"

definition pc_typmod_pcid :: "int \<Rightarrow> int option" where
  "pc_typmod_pcid typmod = (let pcid = pcid_from_typmod typmod in if pcid = 0 then None else Some (int pcid))"

definition pcpatch_enforce_typmod :: "SERIALIZED_PATCH \<Rightarrow> int \<Rightarrow> SERIALIZED_PATCH res" where
  "pcpatch_enforce_typmod arg typmod = (if pcid_from_typmod typmod \<noteq> sp_pcid arg
     then Inl (PcError ''column pcid (%d) and patch pcid (%d) are not consistent'') else Inr arg)"

definition pcpoint_enforce_typmod :: "SERIALIZED_POINT \<Rightarrow> int \<Rightarrow> SERIALIZED_POINT res" where
  "pcpoint_enforce_typmod arg typmod = (if pcid_from_typmod typmod \<noteq> spt_pcid arg
     then Inl (PcError ''column pcid (%d) and point pcid (%d) are not consistent'') else Inr arg)"

section \<open>What the cache holds\<close>

text \<open>The schema of a number as it is loaded without a cache.\<close>

definition load_schema :: "db \<Rightarrow> nat \<Rightarrow> PCSCHEMA res" where
  "load_schema D pcid = bindE (pointcloud_init_constants_cache D None) (\<lambda>k. pc_schema_from_pcid_uncached D (Some k) pcid)"

text \<open>
  A session of which the cache has loaded the numbers \<open>h\<close>, the oldest first: the slots are a ring with the
  last 16 of them, and slots that were never used are zero.
\<close>

definition constants_ok :: "db \<Rightarrow> session \<Rightarrow> bool" where
  "constants_ok D ss = (case ss_constants ss of None \<Rightarrow> True | Some k \<Rightarrow> pointcloud_init_constants_cache D None = Inr k)"

definition ring_of :: "db \<Rightarrow> nat list \<Rightarrow> SchemaCache \<Rightarrow> bool" where
  "ring_of D h c = (next_slot c = length h mod 16 \<and> length (pcids c) = 16 \<and> length (schemas c) = 16 \<and>
     (length h < 16 \<longrightarrow> 0 \<notin> set h) \<and>
     (\<forall>i < 16. length h \<le> i \<longrightarrow> pcids c ! i = 0 \<and> schemas c ! i = None) \<and>
     (\<forall>j < length h. length h \<le> j + 16 \<longrightarrow> pcids c ! (j mod 16) = h ! j \<and>
        (\<exists>s. load_schema D (h ! j) = Inr s \<and> schemas c ! (j mod 16) = Some s)))"

definition recent :: "nat list \<Rightarrow> nat list" where
  "recent h = drop (length h - 16) h"

lemma init_constants: "constants_ok D ss \<Longrightarrow> pointcloud_init_constants_cache D (ss_constants ss) = pointcloud_init_constants_cache D None"
  by (cases "ss_constants ss") (simp_all add: constants_ok_def pointcloud_init_constants_cache_def)

lemma ring_slot:
  assumes "i < 16" "i < n"
  shows "\<exists>j < n. n \<le> j + 16 \<and> j mod 16 = (i :: nat)"
proof -
  let ?j = "i + 16 * ((n - 1 - i) div 16)"
  have "16 * ((n - 1 - i) div 16) \<le> n - 1 - i" "n - 1 - i < 16 * ((n - 1 - i) div 16) + 16" by simp_all
  then have "?j < n" "n \<le> ?j + 16" using assms by linarith+
  then show ?thesis using assms(1) by (intro exI [of _ ?j]) simp
qed

lemma recent_iff: "p \<in> set (recent h) \<longleftrightarrow> (\<exists>j < length h. length h \<le> j + 16 \<and> h ! j = p)"
proof
  assume "p \<in> set (recent h)"
  then obtain k where "k < length (recent h)" "recent h ! k = p" by (auto simp: in_set_conv_nth)
  then show "\<exists>j < length h. length h \<le> j + 16 \<and> h ! j = p"
    by (intro exI [of _ "length h - 16 + k"]) (auto simp: recent_def)
next
  assume "\<exists>j < length h. length h \<le> j + 16 \<and> h ! j = p"
  then obtain j where "j < length h" "length h \<le> j + 16" "h ! j = p" by blast
  then have "recent h ! (j - (length h - 16)) = p" "j - (length h - 16) < length (recent h)" by (auto simp: recent_def)
  then show "p \<in> set (recent h)" by (auto simp: in_set_conv_nth)
qed

lemma ring_hit:
  assumes r: "ring_of D h c" and p: "p \<noteq> 0 \<or> 16 \<le> length h"
  shows "case find (\<lambda>i. pcids c ! i = p) [0..<16] of
      Some i \<Rightarrow> p \<in> set (recent h) \<and> (\<exists>s. load_schema D p = Inr s \<and> schemas c ! i = Some s)
    | None \<Rightarrow> p \<notin> set (recent h)"
proof (cases "find (\<lambda>i. pcids c ! i = p) [0..<16]")
  case None
  then have n: "pcids c ! i \<noteq> p" if "i < 16" for i using that by (auto simp: find_None_iff)
  have "h ! j \<noteq> p" if "j < length h" "length h \<le> j + 16" for j
    using n [of "j mod 16"] r that by (auto simp: ring_of_def)
  then show ?thesis using None by (auto simp: recent_iff)
next
  case (Some i)
  then have i: "i < 16" "pcids c ! i = p" by (auto simp: find_Some_iff)
  have "i < length h" using r i p by (fastforce simp: ring_of_def not_less)
  from ring_slot [OF i(1) this] obtain j where j: "j < length h" "length h \<le> j + 16" "j mod 16 = i" by blast
  then have "h ! j = p" "\<exists>s. load_schema D p = Inr s \<and> schemas c ! i = Some s" using r i by (auto simp: ring_of_def)
  then show ?thesis using Some j by (auto simp: recent_iff)
qed

lemma ring_unset:
  assumes "ring_of D h c" "length h < 16"
  shows "\<exists>i. find (\<lambda>i. pcids c ! i = 0) [0..<16] = Some i \<and> schemas c ! i = None"
proof (cases "find (\<lambda>i. pcids c ! i = 0) [0..<16]")
  case None
  moreover have "pcids c ! length h = 0" using assms by (simp add: ring_of_def)
  ultimately show ?thesis using assms(2) by (auto simp: find_None_iff)
next
  case (Some i)
  then have i: "i < 16" "pcids c ! i = 0" by (auto simp: find_Some_iff)
  have "length h \<le> i"
  proof (rule ccontr)
    assume "\<not> length h \<le> i"
    then have l: "i < length h" by simp
    with i assms have "pcids c ! (i mod 16) = h ! i" by (auto simp: ring_of_def)
    then show False using i l assms nth_mem [of i h] by (simp add: ring_of_def)
  qed
  then show ?thesis using Some i assms(1) by (simp add: ring_of_def)
qed

lemma ring_load:
  assumes r: "ring_of D h c" and p: "p \<noteq> 0 \<or> 16 \<le> length h" and l: "load_schema D p = Inr s"
  shows "ring_of D (h @ [p]) \<lparr>next_slot = (next_slot c + 1) mod 16, pcids = (pcids c)[next_slot c := p],
    schemas = (schemas c)[next_slot c := Some s]\<rparr>"
proof -
  let ?n = "length h"
  have n: "next_slot c = ?n mod 16" "length (pcids c) = 16" "length (schemas c) = 16" using r by (simp_all add: ring_of_def)
  have j: "(pcids c)[?n mod 16 := p] ! (j mod 16) = (h @ [p]) ! j \<and>
      (\<exists>s'. load_schema D ((h @ [p]) ! j) = Inr s' \<and> (schemas c)[?n mod 16 := Some s] ! (j mod 16) = Some s')"
    if "j < ?n + 1" "?n + 1 \<le> j + 16" for j
  proof (cases "j = ?n")
    case True
    then show ?thesis using n l by simp
  next
    case False
    then have "j < ?n" "?n \<le> j + 16" using that by simp_all
    moreover have "j mod 16 \<noteq> ?n mod 16"
    proof
      assume "j mod 16 = ?n mod 16"
      then have "16 dvd ?n - j" using \<open>j < ?n\<close> by (metis less_imp_le mod_eq_dvd_iff_nat)
      then have "16 \<le> ?n - j" using \<open>j < ?n\<close> by (simp add: dvd_imp_le)
      then show False using that by simp
    qed
    ultimately show ?thesis using r by (simp add: ring_of_def nth_append)
  qed
  have i: "(pcids c)[?n mod 16 := p] ! i = 0 \<and> (schemas c)[?n mod 16 := Some s] ! i = None" if "i < 16" "?n + 1 \<le> i" for i
    using r that by (simp add: ring_of_def)
  have z: "0 \<notin> set (h @ [p])" if "?n + 1 < 16" using r p that by (auto simp: ring_of_def)
  show ?thesis
    unfolding ring_of_def n(1) SchemaCache.select_convs length_append_singleton length_list_update
    using n i j z by (simp add: mod_Suc_eq)
qed

definition cache_of :: "db \<Rightarrow> nat list \<Rightarrow> session \<Rightarrow> bool" where
  "cache_of D h ss = (constants_ok D ss \<and> (case fn_extra ss of None \<Rightarrow> h = [] | Some c \<Rightarrow> ring_of D h c))"

lemma get_cache:
  assumes "cache_of D h ss"
  shows "\<exists>c ss'. GetSchemaCache ss = (c, ss') \<and> ring_of D h c \<and> constants_ok D ss' \<and> fn_extra ss' = Some c \<and> (h \<noteq> [] \<longrightarrow> ss' = ss)"
proof (cases "fn_extra ss")
  case None
  then have "ring_of D h \<lparr>next_slot = 0, pcids = replicate 16 0, schemas = replicate 16 None\<rparr>" "h = []"
    using assms by (simp_all add: cache_of_def ring_of_def)
  then show ?thesis using assms None by (simp add: GetSchemaCache_def cache_of_def constants_ok_def Let_def)
next
  case (Some c)
  then show ?thesis using assms by (simp add: GetSchemaCache_def cache_of_def)
qed

text \<open>A number the cache has is answered by the cache, whatever the database.\<close>

lemma lookup_hit:
  assumes "cache_of D h ss" "p \<noteq> 0 \<or> 16 \<le> length h" "p \<in> set (recent h)"
  shows "\<exists>s. load_schema D p = Inr s \<and> pc_schema_from_pcid D' p ss = Inr (Some s, ss)"
proof -
  obtain c where c: "GetSchemaCache ss = (c, ss)" "ring_of D h c"
    using get_cache [OF assms(1)] assms(3) by (auto simp: recent_def)
  show ?thesis using ring_hit [OF c(2) assms(2)] assms(3) c(1)
    by (auto simp: pc_schema_from_pcid_def split: option.splits)
qed

lemma lookup_miss:
  assumes "cache_of D h ss" "p \<noteq> 0 \<or> 16 \<le> length h" "p \<notin> set (recent h)"
  shows "case load_schema D p of Inl e \<Rightarrow> pc_schema_from_pcid D p ss = Inl e
    | Inr s \<Rightarrow> \<exists>ss'. pc_schema_from_pcid D p ss = Inr (Some s, ss') \<and> cache_of D (h @ [p]) ss'"
proof -
  obtain c ss' where c: "GetSchemaCache ss = (c, ss')" "ring_of D h c" "constants_ok D ss'" using get_cache [OF assms(1)] by blast
  have f: "find (\<lambda>i. pcids c ! i = p) [0..<16] = None" using ring_hit [OF c(2) assms(2)] assms(3) by (auto split: option.splits)
  let ?ss = "\<lambda>k s. \<lparr>ss_constants = Some k, fn_extra = Some \<lparr>next_slot = (next_slot c + 1) mod 16,
      pcids = (pcids c)[next_slot c := p], schemas = (schemas c)[next_slot c := Some s]\<rparr>\<rparr>"
  have e: "pc_schema_from_pcid D p ss = bindE (pointcloud_init_constants_cache D None) (\<lambda>k.
      bindE (pc_schema_from_pcid_uncached D (Some k) p) (\<lambda>s. Inr (Some s, ?ss k s)))"
    by (simp add: pc_schema_from_pcid_def c(1) f init_constants [OF c(3)])
  show ?thesis
  proof (cases "pointcloud_init_constants_cache D None")
    case (Inl e)
    then show ?thesis by (simp add: e load_schema_def)
  next
    case (Inr k)
    show ?thesis
    proof (cases "pc_schema_from_pcid_uncached D (Some k) p")
      case (Inr s)
      have l: "load_schema D p = Inr s" using Inr \<open>_ = Inr k\<close> by (simp add: load_schema_def)
      have "cache_of D (h @ [p]) (?ss k s)"
        using ring_load [OF c(2) assms(2) l] \<open>_ = Inr k\<close> by (simp add: cache_of_def constants_ok_def)
      then show ?thesis using Inr \<open>_ = Inr k\<close> l by (simp add: e)
    qed (simp add: e Inr load_schema_def)
  qed
qed

lemma lookup_zero:
  assumes "cache_of D h ss" "length h < 16"
  shows "\<exists>ss'. pc_schema_from_pcid D' 0 ss = Inr (None, ss') \<and> cache_of D h ss'"
proof -
  obtain c ss' where c: "GetSchemaCache ss = (c, ss')" "ring_of D h c" "constants_ok D ss'" "fn_extra ss' = Some c"
    using get_cache [OF assms(1)] by blast
  obtain i where "find (\<lambda>i. pcids c ! i = 0) [0..<16] = Some i" "schemas c ! i = None" using ring_unset [OF c(2) assms(2)] by blast
  then show ?thesis using c by (auto simp: pc_schema_from_pcid_def cache_of_def)
qed

text \<open>The sessions that calls lead to, from a new process on.\<close>

inductive reachable :: "db \<Rightarrow> session \<Rightarrow> bool" for D where
  start: "reachable D \<lparr>ss_constants = None, fn_extra = None\<rparr>"
| call_site: "reachable D ss \<Longrightarrow> reachable D (ss\<lparr>fn_extra := None\<rparr>)"
| constants: "reachable D ss \<Longrightarrow> pointcloud_init_constants_cache D (ss_constants ss) = Inr k \<Longrightarrow> reachable D (ss\<lparr>ss_constants := Some k\<rparr>)"
| lookup: "reachable D ss \<Longrightarrow> pc_schema_from_pcid D p ss = Inr (s, ss') \<Longrightarrow> reachable D ss'"

lemma lookup_cache:
  assumes c: "cache_of D h ss" and r: "pc_schema_from_pcid D p ss = Inr (s, ss')"
  shows "\<exists>h'. cache_of D h' ss'"
proof (cases "p \<noteq> 0 \<or> 16 \<le> length h")
  case False
  then show ?thesis using lookup_zero [OF c, of D] r by auto
next
  case True
  show ?thesis
  proof (cases "p \<in> set (recent h)")
    case hit: True
    then show ?thesis using lookup_hit [OF c True hit, of D] r c by auto
  next
    case False
    from lookup_miss [OF c True False] r show ?thesis by (auto split: sum.splits)
  qed
qed

lemma reachable_cache: "reachable D ss \<Longrightarrow> \<exists>h. cache_of D h ss"
proof (induction rule: reachable.induct)
  case start
  then show ?case by (intro exI [of _ "[]"]) (simp add: cache_of_def constants_ok_def)
next
  case (call_site ss)
  then show ?case by (intro exI [of _ "[]"]) (auto simp: cache_of_def constants_ok_def)
next
  case (constants ss k)
  then obtain h where h: "cache_of D h ss" by blast
  then have "pointcloud_init_constants_cache D None = Inr k" using constants.hyps(2) init_constants [of D ss] by (simp add: cache_of_def)
  then show ?case using h by (intro exI [of _ h]) (simp add: cache_of_def constants_ok_def)
next
  case (lookup ss p s ss')
  then show ?case using lookup_cache by blast
qed

section \<open>The interface\<close>

text \<open>
  What the functions of SQL use of the cache: a number that is not zero and has a schema is looked up, and
  the state stays good for the next lookup.
\<close>

locale schema_source =
  fixes look :: "nat \<Rightarrow> 's \<Rightarrow> (PCSCHEMA option \<times> 's) res" and load :: "nat \<Rightarrow> PCSCHEMA res" and good :: "'s \<Rightarrow> bool"
  assumes look_ok: "good ss \<Longrightarrow> p \<noteq> 0 \<Longrightarrow> load p = Inr s \<Longrightarrow> \<exists>ss'. look p ss = Inr (Some s, ss') \<and> good ss'"
    and look_fails: "good ss \<Longrightarrow> p \<noteq> 0 \<Longrightarrow> load p = Inl e \<Longrightarrow> look p ss = Inl e"
begin

lemma look_two:
  assumes "good ss" "p \<noteq> 0" "q \<noteq> 0" "load p = Inr s" "load q = Inr t"
  shows "\<exists>ss'. bindE (look p ss) (\<lambda>(a, ss). bindE (look q ss) (\<lambda>(b, ss). Inr (a, b, ss))) = Inr (Some s, Some t, ss') \<and> good ss'"
proof -
  obtain s1 where s1: "look p ss = Inr (Some s, s1)" "good s1" using look_ok [OF assms(1,2,4)] by blast
  obtain s2 where "look q s1 = Inr (Some t, s2)" "good s2" using look_ok [OF s1(2) assms(3,5)] by blast
  then show ?thesis using s1 by simp
qed

lemma look_all:
  "good ss \<Longrightarrow> \<forall>p \<in> set ps. p \<noteq> 0 \<and> (\<exists>s. load p = Inr s) \<Longrightarrow>
    \<exists>ss'. foldE (\<lambda>p ss. bindE (look p ss) (\<lambda>(_, ss). Inr ss)) ps ss = Inr ss' \<and> good ss'"
proof (induction ps arbitrary: ss)
  case (Cons p ps)
  then obtain s where s: "p \<noteq> 0" "load p = Inr s" by auto
  obtain s1 where "look p ss = Inr (Some s, s1)" "good s1" using look_ok [OF Cons.prems(1) s] by blast
  then show ?case using Cons.IH [of s1] Cons.prems(2) by simp
qed simp

end

interpretation cached: schema_source "pc_schema_from_pcid D" "load_schema D" "reachable D" for D
proof
  fix ss p
  assume r: "reachable D ss" and p: "p \<noteq> (0 :: nat)"
  obtain h where h: "cache_of D h ss" using reachable_cache [OF r] by blast
  have "(case load_schema D p of Inl e \<Rightarrow> pc_schema_from_pcid D p ss = Inl e
      | Inr s \<Rightarrow> \<exists>ss'. pc_schema_from_pcid D p ss = Inr (Some s, ss'))"
  proof (cases "p \<in> set (recent h)")
    case True
    then show ?thesis using lookup_hit [OF h _ True, of D] p by auto
  next
    case False
    then show ?thesis using lookup_miss [OF h _ False] p by (auto split: sum.splits)
  qed
  then show "load_schema D p = Inr s \<Longrightarrow> \<exists>ss'. pc_schema_from_pcid D p ss = Inr (Some s, ss') \<and> reachable D ss'"
    "load_schema D p = Inl e \<Longrightarrow> pc_schema_from_pcid D p ss = Inl e" for s e
    using reachable.lookup [OF r] by auto
qed

section \<open>Numbers as text\<close>

lemma length_show_nat: "n < 10 ^ k \<Longrightarrow> 0 < k \<Longrightarrow> length (show_nat n) \<le> k"
proof (induction n arbitrary: k rule: show_nat.induct)
  case (1 n)
  show ?case
  proof (cases "n < 10")
    case True
    then show ?thesis using 1(3) by (simp add: show_nat.simps [of n])
  next
    case False
    obtain m where m: "k = Suc m" "0 < m" using 1(2,3) False by (cases k; cases "k - 1") auto
    have "n div 10 < 10 ^ m" using 1(2) m(1) by (simp add: less_mult_imp_div_less mult.commute)
    then show ?thesis using 1(1) [OF False, of m] m False by (simp add: show_nat.simps [of n])
  qed
qed

lemma length_show_int: "- (2 ^ 31) \<le> i \<Longrightarrow> i < 2 ^ 31 \<Longrightarrow> length (show_int i) \<le> 11"
proof -
  assume i: "- (2 ^ 31) \<le> i" "i < 2 ^ 31"
  then have "nat i < 10 ^ 10" "nat (- i) < 10 ^ 10" by simp_all
  then show ?thesis using length_show_nat [of "nat i" 10] length_show_nat [of "nat (- i)" 10] by (simp add: show_int_def)
qed

lemma digit_char: "v < 10 \<Longrightarrow> digit_of 10 (char_of (48 + v :: nat)) = Some v"
proof -
  assume v: "v < 10"
  then have "tolower (char_of (48 + v)) = char_of (48 + v)" by (auto simp: tolower_def)
  then show ?thesis using v by (simp add: digit_of_def of_char_of)
qed

lemma digits_show: "digits 10 a k (show_nat n @ r) = digits 10 (a * 10 ^ length (show_nat n) + n) (k + length (show_nat n)) r"
proof (induction n arbitrary: a k r rule: show_nat.induct)
  case (1 n)
  show ?case
  proof (cases "n < 10")
    case True
    then show ?thesis by (simp add: show_nat.simps [of n] digit_char)
  next
    case False
    have "n mod 10 < 10" by simp
    then show ?thesis using 1 [OF False, of a k "char_of (48 + n mod 10) # r"] False
      by (simp add: show_nat.simps [of n] digit_char algebra_simps)
  qed
qed

section \<open>An example\<close>

text \<open>A database with the schema of the example of PC_Schema_Xml for every number.\<close>

definition demo_db :: db where
  "demo_db = \<lparr>db_extension_oid = 1, db_extension_tuple = (\<lambda>_. Some 2), db_candidates = [], db_namespace_name = (\<lambda>_. ''public''),
     db_connect = True, db_quote = (\<lambda>a b. a @ ''.'' @ b), db_exec = (\<lambda>_. SpiRows [(Some ''<xml>'', Some ''0'')]),
     db_read_xml = (\<lambda>_. Some demo_doc)\<rparr>"

definition demo_constants :: PC_CONSTANTS where
  "demo_constants = \<lparr>pcc_schema = ''public'', pcc_formats = ''pointcloud_formats'', pcc_formats_srid = ''srid'', pcc_formats_schema = ''schema''\<rparr>"

lemma s32_range: "- (2 ^ 31) \<le> s32 i" "s32 i < 2 ^ 31"
  using sint_greater_eq [of "word_of_int i :: 32 word"] sint_less [of "word_of_int i :: 32 word"] by (simp_all add: s32_def)

lemma query_fits:
  assumes "length (db_quote D (pcc_schema k) (pcc_formats k)) \<le> 180" "pcc_formats_srid k = ''srid''" "pcc_formats_schema k = ''schema''"
  shows "\<exists>sql. schema_query D k pcid = Inr sql"
  using assms length_show_int [OF s32_range, of "int pcid"] by (simp add: schema_query_def)

lemma demo_atoi_0: "atoi ''0'' = Inr 0"
proof -
  have "digit_of 10 CHR ''0'' = Some 0" "\<not> isspace CHR ''0''" by code_simp+
  then show ?thesis by (simp add: atoi_def sign_of_def)
qed

definition demo_sql :: "nat \<Rightarrow> PCSCHEMA" where
  "demo_sql p = (case load_schema demo_db p of Inr s \<Rightarrow> s | Inl _ \<Rightarrow> demo_schema)"

lemma demo_sql:
  "load_schema demo_db p = Inr (demo_sql p)" "sc_pcid (demo_sql p) = p" "sc_srid (demo_sql p) = 0"
  "sc_compression (demo_sql p) = PC_DIMENSIONAL" "sc_ndims (demo_sql p) = 2" "sc_size (demo_sql p) = 5"
  "schema_ready (demo_sql p)" "has_xy (demo_sql p) 0 1" "distinct_names (demo_sql p)"
  "dim_interpretation (sdim (demo_sql p) 0) = PC_INT32" "dim_interpretation (sdim (demo_sql p) 1) = PC_UINT8"
  "dim_name (sdim (demo_sql p) 0) = Some ''X''" "dim_name (sdim (demo_sql p) 1) = Some ''Y''"
  "dim_scale (sdim (demo_sql p) 0) = d_one" "dim_scale (sdim (demo_sql p) 1) = d_one"
  "dim_offset (sdim (demo_sql p) 0) = d_zero" "dim_offset (sdim (demo_sql p) 1) = d_zero"
  "j < 2 \<Longrightarrow> sdim (demo_sql p) j = sdim demo_xy j"
proof -
  obtain s where s: "pc_schema_from_xml (\<lambda>_. Some demo_doc) ''<xml>'' = Inr (Some s)" "sc_ndims s = 2" "sc_dims s = [Some 0, Some 1]"
    "sc_xdim s = Some 0" "sc_ydim s = Some 1" "sc_compression s = PC_DIMENSIONAL"
    "dim_name (sc_heap s ! 0) = Some ''X''" "dim_name (sc_heap s ! 1) = Some ''Y''"
    "dim_interpretation (sc_heap s ! 0) = PC_INT32" "dim_interpretation (sc_heap s ! 1) = PC_UINT8"
    "\<forall>i < 2. dim_scale (sc_heap s ! i) = d_one \<and> dim_offset (sc_heap s ! i) = d_zero"
    and shape: "\<exists>a b. sc_heap s ! 0 = demo_x\<lparr>dim_byteoffset := a, dim_size := b\<rparr>"
    "\<exists>a b. sc_heap s ! 1 = demo_y\<lparr>dim_byteoffset := a, dim_size := b\<rparr>"
    using demo_from_xml by blast
  let ?t = "s\<lparr>sc_pcid := p, sc_srid := 0\<rparr>"
  have c: "pointcloud_init_constants_cache demo_db None = Inr demo_constants"
    by (simp add: pointcloud_init_constants_cache_def demo_db_def demo_constants_def pointcloud_get_extension_schema_def)
  have "\<exists>sql. schema_query demo_db demo_constants p = Inr sql"
    by (rule query_fits) (simp_all add: demo_db_def demo_constants_def)
  then have l: "load_schema demo_db p = Inr ?t"
    using c s(1) by (auto simp: load_schema_def pc_schema_from_pcid_uncached_def demo_db_def demo_atoi_0 u32_def)
  then show "load_schema demo_db p = Inr (demo_sql p)" by (simp add: demo_sql_def)
  from l have d: "demo_sql p = ?t" by (simp add: demo_sql_def)
  show "sc_pcid (demo_sql p) = p" "sc_srid (demo_sql p) = 0" "sc_compression (demo_sql p) = PC_DIMENSIONAL" "sc_ndims (demo_sql p) = 2"
    using s by (simp_all add: d)
  show x: "dim_interpretation (sdim (demo_sql p) 0) = PC_INT32" "dim_interpretation (sdim (demo_sql p) 1) = PC_UINT8"
    "dim_name (sdim (demo_sql p) 0) = Some ''X''" "dim_name (sdim (demo_sql p) 1) = Some ''Y''"
    "dim_scale (sdim (demo_sql p) 0) = d_one" "dim_scale (sdim (demo_sql p) 1) = d_one"
    "dim_offset (sdim (demo_sql p) 0) = d_zero" "dim_offset (sdim (demo_sql p) 1) = d_zero"
    using s by (simp_all add: d sdim_def)
  have "schema_wf s" using from_xml_wf [OF s(1)] by simp
  then have "schema_wf ?t" by (simp add: schema_wf_def layout_ok_def)
  then show r: "schema_ready (demo_sql p)"
    using s x by (auto simp: schema_ready_def d less_2 known_interp_def)
  show "has_xy (demo_sql p) 0 1" using s by (simp add: d has_xy_def)
  have n: "sc_ndims (demo_sql p) = 2" using s by (simp add: d)
  show "sc_size (demo_sql p) = 5"
    using ready_layout(3) [OF r, unfolded n numeral_2_eq_2] ready_layout(1) [OF r, of 0] ready_layout(1) [OF r, of 1] x n by simp
  note l = ready_layout(1,2) [OF r, of 0] ready_layout(1,2) [OF r, of 1]
  have f: "dim_size (sdim (demo_sql p) 0) = 4" "dim_byteoffset (sdim (demo_sql p) 0) = 0"
    "dim_size (sdim (demo_sql p) 1) = 1" "dim_byteoffset (sdim (demo_sql p) 1) = 4" using l x n by simp_all
  have eq: "d = e" if "\<exists>a b. d = k\<lparr>dim_byteoffset := a, dim_size := b\<rparr>" "\<exists>a b. e = k\<lparr>dim_byteoffset := a, dim_size := b\<rparr>"
    "dim_byteoffset d = dim_byteoffset e" "dim_size d = dim_size e" for d e k :: PCDIMENSION
    using that by (elim exE) simp
  have h: "sdim (demo_sql p) 0 = sc_heap s ! 0" "sdim (demo_sql p) 1 = sc_heap s ! 1" using s(3) by (simp_all add: d sdim_def)
  have "sdim (demo_sql p) 0 = sdim demo_schema 0"
    by (rule eq [OF shape(1) [folded h] demo_schema_dims(1)]) (simp_all only: f demo_schema_size)
  moreover have "sdim (demo_sql p) 1 = sdim demo_schema 1"
    by (rule eq [OF shape(2) [folded h] demo_schema_dims(2)]) (simp_all only: f demo_schema_size)
  ultimately show "j < 2 \<Longrightarrow> sdim (demo_sql p) j = sdim demo_xy j" using demo_xy_ready(5,6) by (auto simp: less_2)
  show "distinct_names (demo_sql p)"
    using s by (auto simp: distinct_names_def d less_2 deref_def str_eq_def lower_letters)
qed

section \<open>Properties\<close>

text \<open>
  C12: In every session that calls can lead to, looking a schema number up through the cache gives what
  loading it from the database gives, the errors included, and leads to such a session again.
\<close>

theorem cache_is_transparent:
  assumes "reachable D ss" "pcid \<noteq> 0"
  shows "case load_schema D pcid of Inl e \<Rightarrow> pc_schema_from_pcid D pcid ss = Inl e
    | Inr s \<Rightarrow> \<exists>ss'. pc_schema_from_pcid D pcid ss = Inr (Some s, ss') \<and> reachable D ss'"
  using cached.look_ok [OF assms] cached.look_fails [OF assms] by (auto split: sum.split)

theorem cache_is_transparent_witness:
  "\<exists>s ss. load_schema demo_db 7 = Inr s \<and>
     pc_schema_from_pcid demo_db 7 \<lparr>ss_constants = None, fn_extra = None\<rparr> = Inr (Some s, ss) \<and> sc_pcid s = 7"
  using cache_is_transparent [OF reachable.start, of 7 demo_db] demo_sql(1,2) [of 7] by auto

lemma lookups_cache:
  assumes "cache_of D [] ss" "foldE (\<lambda>p ss. bindE (pc_schema_from_pcid D p ss) (\<lambda>(_, ss). Inr ss)) ps ss = Inr ss'"
    and "0 \<notin> set ps" "card (set ps) \<le> 16"
  shows "\<exists>h. cache_of D h ss' \<and> distinct h \<and> set h = set ps"
  using assms(2-4)
proof (induction ps arbitrary: ss' rule: rev_induct)
  case Nil
  then show ?case using assms(1) by (intro exI [of _ "[]"]) simp
next
  case (snoc p ps)
  obtain s1 where s1: "foldE (\<lambda>p ss. bindE (pc_schema_from_pcid D p ss) (\<lambda>(_, ss). Inr ss)) ps ss = Inr s1"
    "bindE (pc_schema_from_pcid D p s1) (\<lambda>(_, ss). Inr ss) = Inr ss'"
    using snoc.prems(1) by (auto simp: foldE_append bindE_eq_Inr)
  have "card (set ps) \<le> card (set (ps @ [p]))" by (rule card_mono) auto
  then obtain h where h: "cache_of D h s1" "distinct h" "set h = set ps" using snoc.IH [OF s1(1)] snoc.prems by auto
  have l: "length h \<le> 16" using h(2,3) \<open>card (set ps) \<le> _\<close> snoc.prems(3) by (metis distinct_card le_trans)
  then have r: "recent h = h" by (simp add: recent_def)
  have p: "p \<noteq> 0 \<or> 16 \<le> length h" using snoc.prems(2) by auto
  show ?case
  proof (cases "p \<in> set h")
    case True
    then show ?thesis using lookup_hit [OF h(1) p, of D] r s1(2) h by (intro exI [of _ h]) auto
  next
    case False
    then have "\<exists>ss''. ss'' = ss' \<and> cache_of D (h @ [p]) ss''"
      using lookup_miss [OF h(1) p] r s1(2) by (auto split: sum.splits)
    then show ?thesis using h False by (intro exI [of _ "h @ [p]"]) auto
  qed
qed

text \<open>
  C23: After a call site has looked up any sequence of numbers, at most 16 different ones and none of them
  zero, each of them is answered from the cache: whatever the database would say now, the answer is the
  schema that was loaded, and the session does not change.
\<close>

theorem cache_keeps_sixteen:
  assumes "reachable D ss" "fn_extra ss = None" "0 \<notin> set ps" "card (set ps) \<le> 16" "p \<in> set ps"
    and "foldE (\<lambda>p ss. bindE (pc_schema_from_pcid D p ss) (\<lambda>(_, ss). Inr ss)) ps ss = Inr ss'"
  shows "\<exists>s. load_schema D p = Inr s \<and> (\<forall>D'. pc_schema_from_pcid D' p ss' = Inr (Some s, ss'))"
proof -
  have "cache_of D [] ss" using reachable_cache [OF assms(1)] assms(2) by (auto simp: cache_of_def)
  from lookups_cache [OF this assms(6,3,4)] obtain h where h: "cache_of D h ss'" "distinct h" "set h = set ps" by blast
  have "length h \<le> 16" using h(2,3) assms(4) by (metis distinct_card)
  then have "p \<in> set (recent h)" "p \<noteq> 0" using assms(3,5) h(3) by (auto simp: recent_def intro: ccontr)
  then have hit: "\<exists>s. load_schema D p = Inr s \<and> pc_schema_from_pcid D' p ss' = Inr (Some s, ss')" for D'
    by (intro lookup_hit [OF h(1)]) simp_all
  then obtain s where s: "load_schema D p = Inr s" by blast
  have "pc_schema_from_pcid D' p ss' = Inr (Some s, ss')" for D' using hit [of D'] s by auto
  then show ?thesis using s by blast
qed

theorem cache_keeps_sixteen_witness:
  "\<exists>ss s. foldE (\<lambda>p ss. bindE (pc_schema_from_pcid demo_db p ss) (\<lambda>(_, ss). Inr ss)) [3, 5, 3]
      \<lparr>ss_constants = None, fn_extra = None\<rparr> = Inr ss \<and>
    (\<forall>D. pc_schema_from_pcid D 5 ss = Inr (Some s, ss)) \<and> sc_pcid s = 5"
proof -
  have ok: "reachable demo_db \<lparr>ss_constants = None, fn_extra = None\<rparr>" by (rule reachable.start)
  obtain ss where r: "foldE (\<lambda>p ss. bindE (pc_schema_from_pcid demo_db p ss) (\<lambda>(_, ss). Inr ss)) [3, 5, 3]
      \<lparr>ss_constants = None, fn_extra = None\<rparr> = Inr ss"
    using cached.look_all [OF ok, of "[3, 5, 3]"] demo_sql(1) by auto
  have "card (set [3 :: nat, 5, 3]) \<le> 16" using card_length [of "[3 :: nat, 5, 3]"] by simp
  then have "\<exists>s. load_schema demo_db 5 = Inr s \<and> (\<forall>D'. pc_schema_from_pcid D' 5 ss = Inr (Some s, ss))"
    by (intro cache_keeps_sixteen [OF ok _ _ _ _ r]) simp_all
  then show ?thesis using demo_sql(1,2) [of 5] r by auto
qed

text \<open>
  C30: The text of the query never leaves its array of 256 characters, as the name of the schema of the
  extension is an identifier of PostgreSQL (at most 63 bytes), and quoting at most doubles a name and adds
  the quotes and the dot.
\<close>

theorem schema_query_in_bounds:
  assumes "pointcloud_init_constants_cache D None = Inr k"
    and "\<forall>n. length (db_namespace_name D n) \<le> 63" "\<forall>a b. length (db_quote D a b) \<le> 2 * length a + 2 * length b + 5"
  shows "\<exists>sql. schema_query D k pcid = Inr sql"
proof (rule query_fits)
  have k: "length (pcc_schema k) \<le> 63" "pcc_formats k = ''pointcloud_formats''" "pcc_formats_srid k = ''srid''" "pcc_formats_schema k = ''schema''"
    using assms(1,2) by (auto simp: pointcloud_init_constants_cache_def Let_def split: if_splits)
  then show "pcc_formats_srid k = ''srid''" "pcc_formats_schema k = ''schema''" by simp_all
  have "length (db_quote D (pcc_schema k) (pcc_formats k)) \<le> 2 * length (pcc_schema k) + 2 * length (pcc_formats k) + 5"
    using assms(3) by blast
  then show "length (db_quote D (pcc_schema k) (pcc_formats k)) \<le> 180" using k by simp
qed

theorem schema_query_in_bounds_witness:
  "\<exists>sql. schema_query demo_db demo_constants 7 = Inr sql"
  by (rule schema_query_in_bounds) (simp_all add: demo_db_def pointcloud_init_constants_cache_def demo_constants_def pointcloud_get_extension_schema_def)

text \<open>
  C24: The type modifier of a column is the number of a schema: for a number that the format table admits,
  the modifier is read from its decimal digits and printed as it was written; it stands for that number; and
  exactly the patches and points with the number pass the check of the column.
\<close>

theorem typmod_names_schema:
  assumes "0 < pcid" "pcid < 65536"
  shows "pc_typmod_in \<lparr>arr_elemtype = CSTRINGOID, arr_dims = [1], arr_lbound = [1], arr_nullbitmap = None, arr_items = [show_nat pcid]\<rparr> = Inr (int pcid) \<and>
    pc_typmod_pcid (int pcid) = Some (int pcid) \<and> pc_typmod_out (int pcid) = ''('' @ show_nat pcid @ '')'' \<and>
    (pcpatch_enforce_typmod sp (int pcid) = Inr sp \<longleftrightarrow> sp_pcid sp = pcid) \<and>
    (pcpoint_enforce_typmod spt (int pcid) = Inr spt \<longleftrightarrow> spt_pcid spt = pcid) \<and>
    (pcid_consistent q (pcid_from_typmod (int pcid)) = Inr () \<longleftrightarrow> q = pcid)"
proof -
  have p: "pcid_from_typmod (int pcid) = pcid" using assms by (simp add: pcid_from_typmod_def)
  obtain v cs where c: "show_nat pcid = char_of (48 + v :: nat) # cs" "v < 10"
  proof (induction pcid rule: show_nat.induct)
    case (1 n)
    show ?case
    proof (cases "n < 10")
      case True
      then show ?thesis using 1(2) [of n "[]"] by (simp add: show_nat.simps [of n])
    next
      case False
      show ?thesis by (rule 1(1) [OF False]) (use 1(2) False in \<open>auto simp: show_nat.simps [of n]\<close>)
    qed
  qed
  have v: "of_char (char_of (48 + v) :: char) = 48 + v" using c(2) by (simp add: of_char_of)
  have "char_of (48 + v) \<noteq> CHR ''-''" "char_of (48 + v) \<noteq> CHR ''+''"
  proof -
    have "of_char CHR ''-'' = (45 :: nat)" "of_char CHR ''+'' = (43 :: nat)" by code_simp+
    then show "char_of (48 + v) \<noteq> CHR ''-''" "char_of (48 + v) \<noteq> CHR ''+''" using v by fastforce+
  qed
  then have "sign_of (dropWhile isspace (show_nat pcid)) = (False, show_nat pcid)"
    using c v by (auto simp: isspace_def sign_of_def)
  moreover have "digits 10 0 0 (show_nat pcid) = (pcid, length (show_nat pcid), [])" using digits_show [of 0 0 pcid "[]"] by simp
  moreover have "length (show_nat pcid) \<noteq> 0" using c by simp
  ultimately have "strtol10 (show_nat pcid) = Some (int pcid, False, [])" using assms by (simp add: strtol10_def)
  moreover have "s32 (int pcid) = int pcid" using assms by (intro s32_id) simp_all
  ultimately show ?thesis
    using assms by (auto simp: pc_typmod_in_def ArrayGetNItems_def pc_typmod_pcid_def pc_typmod_out_def p pcpatch_enforce_typmod_def
        pcpoint_enforce_typmod_def pcid_consistent_def)
qed

theorem typmod_names_schema_witness:
  "pc_typmod_in \<lparr>arr_elemtype = CSTRINGOID, arr_dims = [1], arr_lbound = [1], arr_nullbitmap = None, arr_items = [''7'']\<rparr> = Inr 7 \<and>
   pc_typmod_out 7 = ''(7)'' \<and>
   (pcpoint_enforce_typmod \<lparr>spt_size = 0, spt_pcid = 8, spt_data = []\<rparr> 7 \<noteq> Inr \<lparr>spt_size = 0, spt_pcid = 8, spt_data = []\<rparr>)"
proof -
  have "show_nat 7 = ''7''" by (simp add: show_nat.simps [of 7]) code_simp
  then show ?thesis
    using typmod_names_schema [of 7 "stored_patch pg_little demo_plain demo_stats []" "\<lparr>spt_size = 0, spt_pcid = 8, spt_data = []\<rparr>" 7]
    by simp
qed

end
