(* ===== verification/PC_Filter.thy ===== *)
theory PC_Filter
  imports PC_Patch
begin

text \<open>
  Filtering patches by a condition on one dimension (lib/pc_filter.c). The bitmaps, and the filters of
  single byte arrays, are in PC_Bytes.
\<close>

section \<open>Operations\<close>

text \<open>State of the loop: the bitmap and the local \<open>d\<close>, uninitialised at first.\<close>

definition bitmap_step ::
  "PCPATCH_UNCOMPRESSED \<Rightarrow> nat \<Rightarrow> PC_FILTERTYPE \<Rightarrow> double \<Rightarrow> double \<Rightarrow> nat \<Rightarrow>
   PCBITMAP \<times> double option \<Rightarrow> (PCBITMAP \<times> double option) res" where
  "bitmap_step pa dimnum ft val1 val2 i st = (case st of (bm, d) \<Rightarrow>
     bindE (rdx (sc_dims (pa_schema pa)) dimnum) (\<lambda>dim.
     bindE (got (pc_point_get_double \<lparr>pt_readonly = PC_TRUE, pt_schema = pa_schema pa,
              pt_data = drop (i * sc_size (pa_schema pa)) (pu_data pa)\<rparr> (deref (pa_schema pa) dim)) d) (\<lambda>d.
     bindE (used d) (\<lambda>dv. bindE (pc_bitmap_filter bm ft i dv val1 val2) (\<lambda>bm. Inr (bm, d))))))"

definition pc_patch_uncompressed_bitmap ::
  "PCPATCH_UNCOMPRESSED \<Rightarrow> nat \<Rightarrow> PC_FILTERTYPE \<Rightarrow> double \<Rightarrow> double \<Rightarrow> PCBITMAP res" where
  "pc_patch_uncompressed_bitmap pa dimnum ft val1 val2 =
     bindE (foldE (bitmap_step pa dimnum ft val1 val2) [0..<pa_npoints pa] (pc_bitmap_new (pa_npoints pa), None))
       (\<lambda>(bm, _). Inr bm)"

text \<open>State of the loop: the buffer of the new patch and the position in it.\<close>

definition filter_point ::
  "PCPATCH_UNCOMPRESSED \<Rightarrow> PCBITMAP \<Rightarrow> nat \<Rightarrow> byte list \<times> nat \<Rightarrow> (byte list \<times> nat) res" where
  "filter_point pu bm i st = (case st of (fdata, fbuf) \<Rightarrow>
     let sz = sc_size (pa_schema pu) in
     bindE (rdx (bm_map bm) i) (\<lambda>g.
     if g \<noteq> 0 then bindE (rd (pu_data pu) (i * sz) sz) (\<lambda>v. bindE (wr fdata fbuf v) (\<lambda>fdata. Inr (fdata, fbuf + sz)))
     else Inr (fdata, fbuf)))"

definition pc_patch_uncompressed_filter :: "PCPATCH_UNCOMPRESSED \<Rightarrow> PCBITMAP \<Rightarrow> PCPATCH_UNCOMPRESSED res" where
  "pc_patch_uncompressed_filter pu bm =
     bindE (pc_patch_uncompressed_make (Some (pa_schema pu)) (bm_nset bm)) (\<lambda>fpu.
     if bm_npoints bm \<noteq> pa_npoints pu then Inl AssertFailed
     else bindE (foldE (filter_point pu bm) [0..<pa_npoints pu] (pu_data fpu, 0)) (\<lambda>(fdata, _).
          bindE (pc_patch_uncompressed_compute_extent
            (fpu\<lparr>pu_data := fdata, pu_maxpoints := bm_nset bm, pa_npoints := bm_nset bm\<rparr>))
          pc_patch_uncompressed_compute_stats))"

definition pc_patch_dimensional_bitmap ::
  "zlib \<Rightarrow> PCPATCH_DIMENSIONAL \<Rightarrow> nat \<Rightarrow> PC_FILTERTYPE \<Rightarrow> double \<Rightarrow> double \<Rightarrow> PCBITMAP res" where
  "pc_patch_dimensional_bitmap z pdl dimnum ft val1 val2 =
     (if sc_ndims (pa_schema pdl) \<le> dimnum then Inl AssertFailed
      else case deref (pa_schema pdl) (sc_dims (pa_schema pdl) ! dimnum) of
             None \<Rightarrow> Inl OutOfBounds
           | Some dim \<Rightarrow> bindE (rdx (pd_bytes pdl) dimnum) (\<lambda>pcb.
               pc_bytes_bitmap z pcb ft (pc_value_unscale_unoffset val1 dim) (pc_value_unscale_unoffset val2 dim)))"

text \<open>
  One dimension of the filter: the array, the box if the dimension is X or Y, and the statistics, which the
  code expects to be there.
\<close>

definition filter_stats :: "PCSTATS option \<Rightarrow> nat \<Rightarrow> PCDOUBLESTAT \<Rightarrow> nat \<Rightarrow> PCSTATS option res" where
  "filter_stats stats i ds n = (case stats of
       None \<Rightarrow> Inl OutOfBounds
     | Some st \<Rightarrow>
         bindE (set_or_keep (st_min st) (pc_schema_get_dimension (pt_schema (st_min st)) i) (ds_min ds)) (\<lambda>mn.
         bindE (set_or_keep (st_max st) (pc_schema_get_dimension (pt_schema (st_max st)) i) (ds_max ds)) (\<lambda>mx.
         bindE (set_or_keep (st_avg st) (pc_schema_get_dimension (pt_schema (st_avg st)) i)
                  (d_div (ds_sum ds) (d_of_int (int n)))) (\<lambda>av.
         Inr (Some \<lparr>st_min = mn, st_max = mx, st_avg = av\<rparr>)))))"

definition filter_dimension ::
  "zlib \<Rightarrow> PCPATCH_DIMENSIONAL \<Rightarrow> PCBITMAP \<Rightarrow> nat \<Rightarrow> PCPATCH_DIMENSIONAL \<Rightarrow> PCPATCH_DIMENSIONAL res" where
  "filter_dimension z pdl bm i fpdl =
     (let s = pa_schema pdl in
      bindE (rdx (pd_bytes pdl) i) (\<lambda>pcb.
      bindE (pc_bytes_filter z pcb bm (Some \<lparr>ds_min = FLT_MAX, ds_max = minus_FLT_MAX, ds_sum = d_zero\<rparr>)) (\<lambda>(b, r).
      bindE (wrx (pd_bytes fpdl) i b) (\<lambda>bytes.
      case (r, deref s (sc_dims s ! i)) of
        (Some r, Some dim) \<Rightarrow>
          let ds = \<lparr>ds_min = pc_value_scale_offset (ds_min r) dim, ds_max = pc_value_scale_offset (ds_max r) dim,
                    ds_sum = pc_value_scale_offset (ds_sum r) dim\<rparr>;
              bo = pa_bounds fpdl;
              bo = (if sc_dims s ! i = sc_xdim s then bo\<lparr>b_xmin := ds_min ds, b_xmax := ds_max ds\<rparr>
                    else if sc_dims s ! i = sc_ydim s then bo\<lparr>b_ymin := ds_min ds, b_ymax := ds_max ds\<rparr>
                    else bo)
          in bindE (filter_stats (pa_stats fpdl) i ds (pa_npoints fpdl)) (\<lambda>stats.
             Inr (fpdl\<lparr>pd_bytes := bytes, pa_bounds := bo, pa_stats := stats\<rparr>))
      | _ \<Rightarrow> Inl OutOfBounds))))"

definition pc_patch_dimensional_filter :: "zlib \<Rightarrow> PCPATCH_DIMENSIONAL \<Rightarrow> PCBITMAP \<Rightarrow> PCPATCH_DIMENSIONAL res" where
  "pc_patch_dimensional_filter z pdl bm =
     bindE (pc_stats_clone (pa_stats pdl)) (\<lambda>stats.
     foldE (filter_dimension z pdl bm) [0..<sc_ndims (pa_schema pdl)]
       ((pc_patch_dimensional_clone pdl)\<lparr>pa_stats := stats, pa_npoints := bm_nset bm\<rparr>))"

definition pc_patch_filter_has_results ::
  "PCSTATS \<Rightarrow> nat \<Rightarrow> PC_FILTERTYPE \<Rightarrow> double \<Rightarrow> double \<Rightarrow> bool res" where
  "pc_patch_filter_has_results stats dimnum ft val1 val2 =
     bindE (got (pc_point_get_double_by_index (st_min stats) dimnum) None) (\<lambda>mn. bindE (used mn) (\<lambda>mn.
     bindE (got (pc_point_get_double_by_index (st_max stats) dimnum) None) (\<lambda>mx. bindE (used mx) (\<lambda>mx.
     Inr (case ft of
         PC_GT \<Rightarrow> \<not> d_lt mx val1
       | PC_LT \<Rightarrow> \<not> d_lt val1 mn
       | PC_EQUAL \<Rightarrow> \<not> (d_lt val1 mn \<or> d_lt mx val1)
       | PC_BETWEEN \<Rightarrow> \<not> (d_lt val2 mn \<or> d_lt mx val1))))))"

definition empty_patch :: "PCSCHEMA \<Rightarrow> patch option res" where
  "empty_patch s = bindE (pc_patch_uncompressed_make (Some s) 0) (\<lambda>p. Inr (Some (Uncompressed p)))"

definition filter_uncompressed ::
  "PCPATCH_UNCOMPRESSED \<Rightarrow> nat \<Rightarrow> PC_FILTERTYPE \<Rightarrow> double \<Rightarrow> double \<Rightarrow> patch option res" where
  "filter_uncompressed pu dimnum ft val1 val2 =
     bindE (pc_patch_uncompressed_bitmap pu dimnum ft val1 val2) (\<lambda>bm.
     if bm_nset bm = 0 then empty_patch (pa_schema pu)
     else bindE (pc_patch_uncompressed_filter pu bm) (\<lambda>fpu. Inr (Some (Uncompressed fpu))))"

definition pc_patch_filter ::
  "zlib \<Rightarrow> lazperf option \<Rightarrow> patch option \<Rightarrow> nat \<Rightarrow> PC_FILTERTYPE \<Rightarrow> double \<Rightarrow> double \<Rightarrow> patch option res" where
  "pc_patch_filter z laz pa dimnum ft val1 val2 = (case pa of None \<Rightarrow> Inr None
     | Some pa \<Rightarrow>
         bindE (case p_stats pa of None \<Rightarrow> Inr True
                | Some st \<Rightarrow> pc_patch_filter_has_results st dimnum ft val1 val2) (\<lambda>some.
         if \<not> some then empty_patch (p_schema pa)
         else case pa of
             Uncompressed pu \<Rightarrow> filter_uncompressed pu dimnum ft val1 val2
           | Dimensional pdl \<Rightarrow>
               bindE (pc_patch_dimensional_bitmap z pdl dimnum ft val1 val2) (\<lambda>bm.
               if bm_nset bm = 0 then empty_patch (pa_schema pdl)
               else bindE (pc_patch_dimensional_filter z pdl bm) (\<lambda>fpdl. Inr (Some (Dimensional fpdl))))
           | Lazperf pl \<Rightarrow>
               bindE (pc_patch_uncompressed_from_lazperf laz pl) (\<lambda>pau. filter_uncompressed pau dimnum ft val1 val2)))"

text \<open>The dimension is looked up by name; without such a dimension the result is the null pointer.\<close>

definition pc_patch_filter_lt_by_name :: "zlib \<Rightarrow> lazperf option \<Rightarrow> patch \<Rightarrow> string \<Rightarrow> double \<Rightarrow> patch option res" where
  "pc_patch_filter_lt_by_name z laz pa name val =
     (case pc_schema_get_dimension_by_name (p_schema pa) name of None \<Rightarrow> Inr None
      | Some d \<Rightarrow> pc_patch_filter z laz (Some pa) (dim_position d) PC_LT val val)"

definition pc_patch_filter_gt_by_name :: "zlib \<Rightarrow> lazperf option \<Rightarrow> patch \<Rightarrow> string \<Rightarrow> double \<Rightarrow> patch option res" where
  "pc_patch_filter_gt_by_name z laz pa name val =
     (case pc_schema_get_dimension_by_name (p_schema pa) name of None \<Rightarrow> Inr None
      | Some d \<Rightarrow> pc_patch_filter z laz (Some pa) (dim_position d) PC_GT val val)"

definition pc_patch_filter_equal_by_name :: "zlib \<Rightarrow> lazperf option \<Rightarrow> patch \<Rightarrow> string \<Rightarrow> double \<Rightarrow> patch option res" where
  "pc_patch_filter_equal_by_name z laz pa name val =
     (case pc_schema_get_dimension_by_name (p_schema pa) name of None \<Rightarrow> Inr None
      | Some d \<Rightarrow> pc_patch_filter z laz (Some pa) (dim_position d) PC_EQUAL val val)"

definition pc_patch_filter_between_by_name ::
  "zlib \<Rightarrow> lazperf option \<Rightarrow> patch \<Rightarrow> string \<Rightarrow> double \<Rightarrow> double \<Rightarrow> patch option res" where
  "pc_patch_filter_between_by_name z laz pa name val1 val2 =
     (let (val1, val2) = (if d_lt val2 val1 then (val2, val1) else (val1, val2)) in
      case pc_schema_get_dimension_by_name (p_schema pa) name of None \<Rightarrow> Inr None
      | Some d \<Rightarrow> pc_patch_filter z laz (Some pa) (dim_position d) PC_BETWEEN val1 val2)"

section \<open>Uncompressed patches\<close>

definition point_cond :: "PCSCHEMA \<Rightarrow> nat \<Rightarrow> PC_FILTERTYPE \<Rightarrow> double \<Rightarrow> double \<Rightarrow> byte list \<Rightarrow> bool" where
  "point_cond s i ft val1 val2 w = filter_cond ft (pval s i w) val1 val2"

lemma uncompressed_bitmap_of:
  assumes p: "patch_holds z laz (Uncompressed p) ws" and s: "pa_schema p = s" and i: "i < sc_ndims s"
  shows "pc_patch_uncompressed_bitmap p i ft val1 val2 = Inr (bitmap_of (map (point_cond s i ft val1 val2) ws))"
proof -
  let ?P = "point_cond s i ft val1 val2" and ?new = "pc_bitmap_new (length ws)"
  have n: "pa_npoints p = length ws" using holds_data(3) [OF p] .
  have sr: "schema_ready s" using p s by (simp add: points_ok_def)
  have li: "i < length (sc_dims s)" using sr i by (simp add: schema_ready_def schema_wf_def)
  have "\<exists>d. foldE (bitmap_step p i ft val1 val2) [0..<k] (?new, None) = Inr (bm_puts 0 (map ?P (take k ws)) ?new, d)"
    if "k \<le> length ws" for k
    using that
  proof (induction k)
    case (Suc k)
    then obtain d where f: "foldE (bitmap_step p i ft val1 val2) [0..<k] (?new, None) = Inr (bm_puts 0 (map ?P (take k ws)) ?new, d)"
      by auto
    have k: "k < length ws" using Suc.prems by simp
    obtain rest where r: "drop (k * sc_size s) (pu_data p) = ws ! k @ rest" "length (ws ! k) = sc_size s"
      using data_at [OF p k] s by auto
    let ?bm = "bm_puts 0 (map ?P (take k ws)) ?new"
    have "pc_bitmap_filter ?bm ft k (pval s i (ws ! k)) val1 val2 = Inr (bm_put k (?P (ws ! k)) ?bm)"
      using k by (simp add: pc_bitmap_filter_def point_cond_def bitmap_set pc_bitmap_new_def)
    then have "bitmap_step p i ft val1 val2 k (?bm, d) = Inr (bm_put k (?P (ws ! k)) ?bm, Some (pval s i (ws ! k)))"
      using get_pval [OF sr i r(2), of _ rest] ready_dims(2) [OF sr i] li
      by (simp add: bitmap_step_def s r(1) rdx_def got_def used_def)
    moreover have "bm_put k (?P (ws ! k)) ?bm = bm_puts 0 (map ?P (take (Suc k) ws)) ?new"
      using k by (simp add: take_Suc_conv_app_nth bm_puts_append)
    ultimately show ?case by (simp only: foldE_upt_Suc f bindE_Inr) simp
  qed simp
  from this [of "length ws"] bm_puts_new [of "map ?P ws"] show ?thesis
    by (auto simp: pc_patch_uncompressed_bitmap_def n)
qed

lemma bitmap_of_fields [simp]:
  "bm_nset (bitmap_of (map P ws)) = length (filter P ws)" "bm_npoints (bitmap_of bs) = length bs"
  "length (bm_map (bitmap_of bs)) = length bs"
  by (simp_all add: bitmap_of_def filter_map comp_def)

lemma nth_bitmap_of: "i < length ws \<Longrightarrow> bm_map (bitmap_of (map P ws)) ! i = (if P (ws ! i) then 1 else 0)"
  by (simp add: bitmap_of_def)

lemma filter_points_eq:
  assumes p: "patch_holds z laz (Uncompressed p) ws" and s: "pa_schema p = s"
  shows "foldE (filter_point p (bitmap_of (map P ws))) [0..<length ws] (replicate (length (filter P ws) * sc_size s) 0, 0) =
    Inr (concat (filter P ws), length (filter P ws) * sc_size s)"
proof -
  let ?n = "sc_size s" and ?N = "length (filter P ws)" and ?f = "filter_point p (bitmap_of (map P ws))"
  have w: "length w = ?n" if "w \<in> set ws" for w using p s that by (auto simp: points_ok_def widths_def)
  have lc: "length (concat (filter P (take k ws))) = length (filter P (take k ws)) * ?n" for k
    by (rule length_concat_const) (use w in \<open>auto dest: in_set_takeD\<close>)
  have "foldE ?f [0..<k] (replicate (?N * ?n) 0, 0) =
      Inr (concat (filter P (take k ws)) @ replicate ((?N - length (filter P (take k ws))) * ?n) 0, length (filter P (take k ws)) * ?n)"
    if "k \<le> length ws" for k
    using that
  proof (induction k)
    case (Suc k)
    let ?F = "filter P (take k ws)"
    have k: "k < length ws" using Suc.prems by simp
    have tk: "filter P (take (Suc k) ws) = ?F @ (if P (ws ! k) then [ws ! k] else [])"
      using k by (simp add: take_Suc_conv_app_nth)
    have "length (filter P (take (Suc k) ws @ drop (Suc k) ws)) = length (filter P (take (Suc k) ws)) + length (filter P (drop (Suc k) ws))"
      by (simp only: filter_append length_append)
    then have le: "length (filter P (take (Suc k) ws)) \<le> ?N" by simp
    have rd: "rd (pu_data p) (k * ?n) ?n = Inr (ws ! k)"
    proof -
      obtain rest where r: "drop (k * ?n) (pu_data p) = ws ! k @ rest" "length (ws ! k) = ?n" using data_at [OF p k] s by auto
      then have "k * ?n + ?n \<le> length (pu_data p)"
        using holds_data(2) [OF p] elem_bound [OF k, of ?n] s by simp
      then show ?thesis using r by (simp add: rd_def)
    qed
    have "?f k (concat ?F @ replicate ((?N - length ?F) * ?n) 0, length ?F * ?n) =
        Inr (concat (filter P (take (Suc k) ws)) @ replicate ((?N - length (filter P (take (Suc k) ws))) * ?n) 0,
          length (filter P (take (Suc k) ws)) * ?n)"
    proof (cases "P (ws ! k)")
      case True
      have N: "length ?F < ?N" using True le tk by simp
      define m where "m = ?N - Suc (length ?F)"
      have m: "?N - length ?F = Suc m" "?N - Suc (length ?F) = m"
        using Suc_diff_Suc [OF N] by (simp_all only: m_def)
      have lk: "length (ws ! k) = ?n" using w k by simp
      have rep: "replicate (Suc m * ?n) (0 :: byte) = replicate ?n 0 @ replicate (m * ?n) 0" by (simp add: replicate_add)
      have "wr (concat ?F @ replicate (Suc m * ?n) 0) (length ?F * ?n) (ws ! k) = Inr (concat ?F @ ws ! k @ replicate (m * ?n) 0)"
        unfolding rep by (rule wr_mid) (simp_all only: lc lk length_replicate)
      then show ?thesis using True k rd by (simp add: filter_point_def s rdx_def nth_bitmap_of tk m)
    next
      case False
      then show ?thesis using k by (simp add: filter_point_def rdx_def nth_bitmap_of tk)
    qed
    then show ?case using Suc.IH Suc.prems by (simp only: foldE_upt_Suc) simp
  qed simp
  from this [of "length ws"] show ?thesis by simp
qed

lemma uncompressed_filter_points:
  assumes p: "patch_holds z laz (Uncompressed p) ws" and s: "pa_schema p = s" "0 < sc_size s" and xy: "has_xy s ix iy"
    and d: "stats_defined s (filter P ws)"
  shows "\<exists>st. stats_of s (filter P ws) = Inr st \<and>
    pc_patch_uncompressed_filter p (bitmap_of (map P ws)) = Inr ((patch_of s ix iy (filter P ws))\<lparr>pa_stats := Some st\<rparr>) \<and>
    patch_holds z laz (Uncompressed ((patch_of s ix iy (filter P ws))\<lparr>pa_stats := Some st\<rparr>)) (filter P ws)"
proof -
  let ?vs = "filter P ws"
  have ok: "points_ok s ws" using p s(1) by simp
  have "length ws < 2 ^ 26" using ok by (simp add: points_ok_def)
  then have lv: "length ?vs < 2 ^ 26" by (rule le_less_trans [OF length_filter_le])
  have okv: "points_ok s ?vs" and sr: "schema_ready s" and n: "length ?vs < 2 ^ 32"
    using ok lv by (auto simp: points_ok_def widths_def)
  obtain st where st: "stats_of s ?vs = Inr st" "pc_patch_uncompressed_compute_stats (patch_of s ix iy ?vs) =
      Inr ((patch_of s ix iy ?vs)\<lparr>pa_stats := Some st\<rparr>)"
    "patch_holds z laz (Uncompressed ((patch_of s ix iy ?vs)\<lparr>pa_stats := Some st\<rparr>)) ?vs"
    using with_stats [OF okv d, where ix = ix and iy = iy and b = "extent s ix iy ?vs"] by (auto simp: patch_of_def)
  let ?p = "\<lparr>pa_type = PC_NONE, pa_readonly = PC_FALSE, pa_schema = s, pa_npoints = length ?vs, pa_bounds = pc_bounds_init,
      pa_stats = None, pu_maxpoints = length ?vs, pu_datasize = length ?vs * sc_size s, pu_data = concat ?vs\<rparr>"
  have pe: "?p = (patch_of s ix iy ?vs)\<lparr>pa_bounds := pc_bounds_init, pa_stats := None\<rparr>" by (simp add: patch_of_def)
  have "patch_ok ?p" "pts ?p = ?vs" unfolding pe
    using patch_of_holds [OF okv, where st = None and b = pc_bounds_init] by (simp_all add: stats_ok_def)
  from compute_extent_eq [OF this(1)] this(2) xy
  have e: "pc_patch_uncompressed_compute_extent ?p = Inr (patch_of s ix iy ?vs)" by (simp add: patch_of_def)
  have "pc_patch_uncompressed_filter p (bitmap_of (map P ws)) = Inr ((patch_of s ix iy ?vs)\<lparr>pa_stats := Some st\<rparr>)"
    using make_eq [OF sr s(2) n] filter_points_eq [OF p s(1), of P] holds_data(3) [OF p] e st(2)
    by (simp add: pc_patch_uncompressed_filter_def s(1))
  then show ?thesis using st by blast
qed

section \<open>Dimensional patches\<close>

text \<open>The condition is tested on the stored value, against constants that are brought to its scale.\<close>

definition raw_cond :: "PCSCHEMA \<Rightarrow> nat \<Rightarrow> PC_FILTERTYPE \<Rightarrow> double \<Rightarrow> double \<Rightarrow> byte list \<Rightarrow> bool" where
  "raw_cond s i ft val1 val2 w = filter_cond ft (dval (dim_interpretation (sdim s i)) (fld s w i))
     (pc_value_unscale_unoffset val1 (sdim s i)) (pc_value_unscale_unoffset val2 (sdim s i))"

lemma dimensional_bitmap_of:
  assumes h: "dim_holds z d ws" and s: "pa_schema d = s" and i: "i < sc_ndims s"
  shows "pc_patch_dimensional_bitmap z d i ft val1 val2 = Inr (bitmap_of (map (raw_cond s i ft val1 val2) ws))"
proof -
  let ?a = "col_array s ws i"
  have ok: "points_ok s ws" "coded_arrays z s ws (pd_bytes d)" using h s by (simp_all add: dim_holds_def)
  have sr: "schema_ready s" using ok(1) by (simp add: points_ok_def)
  obtain c e r where c: "codec_fits z c ?a" "pc_bytes_encode z ?a c = Inr e" and b: "pd_bytes d ! i = e\<lparr>pb_readonly := r\<rparr>"
    by (rule codedE [OF ok(2) i])
  have l: "length (pd_bytes d) = sc_ndims s" using ok(2) by (simp add: coded_arrays_def)
  note plain = col_array_plain [OF ok(1) i]
  have "map (raw_cond s i ft val1 val2) ws = map (\<lambda>v. filter_cond ft (dval (pb_interpretation ?a) v)
      (pc_value_unscale_unoffset val1 (sdim s i)) (pc_value_unscale_unoffset val2 (sdim s i))) (vals ?a)"
    by (simp only: plain(2)) (simp add: col_def raw_cond_def col_array_def)
  then show ?thesis using bitmap_eq [OF plain(1) c] b i l ready_dims(2) [OF sr i]
    by (simp add: pc_patch_dimensional_bitmap_def s rdx_def)
qed

lemma kept_col: "kept (col s ws j) (bm_map (bitmap_of (map P ws))) = col s (filter P ws) j"
  unfolding bitmap_of_def col_def by (induction ws) simp_all

lemma sub_col: "sub_array (col_array s ws j) (col s vs j) = col_array s vs j"
  if "points_ok s vs" "j < sc_ndims s"
proof -
  have "length (concat (col s vs j)) = length vs * dim_size (sdim s j)"
    using length_concat_const [of "col s vs j", OF col_width [OF that]] by (simp add: col_def)
  then show ?thesis by (simp add: sub_array_def col_array_def col_def)
qed

text \<open>The results of the filters of the arrays can be stored, as for the statistics of a patch.\<close>

definition init_stat :: PCDOUBLESTAT where
  "init_stat = \<lparr>ds_min = FLT_MAX, ds_max = minus_FLT_MAX, ds_sum = d_zero\<rparr>"

definition stat_stored :: "PCSCHEMA \<Rightarrow> nat \<Rightarrow> double \<Rightarrow> bool" where
  "stat_stored s i v = (\<not> isl (stored (dim_interpretation (sdim s i)) (pc_value_unscale_unoffset v (sdim s i))))"

definition filter_stored :: "zlib \<Rightarrow> PCPATCH_DIMENSIONAL \<Rightarrow> PCBITMAP \<Rightarrow> bool" where
  "filter_stored z d bm = (\<forall>i < sc_ndims (pa_schema d). case pc_bytes_filter z (pd_bytes d ! i) bm (Some init_stat) of
       Inr (_, Some r) \<Rightarrow> stat_stored (pa_schema d) i (pc_value_scale_offset (ds_min r) (sdim (pa_schema d) i)) \<and>
         stat_stored (pa_schema d) i (pc_value_scale_offset (ds_max r) (sdim (pa_schema d) i)) \<and>
         stat_stored (pa_schema d) i (d_div (pc_value_scale_offset (ds_sum r) (sdim (pa_schema d) i)) (d_of_int (int (bm_nset bm))))
     | _ \<Rightarrow> True)"

lemma set_stat_ok:
  assumes s: "schema_ready s" and i: "i < sc_ndims s" and v: "stat_stored s i v"
    and p: "pt_schema pt = s" "length (pt_data pt) = sc_size s"
  shows "\<exists>pt'. set_or_keep pt (pc_schema_get_dimension (pt_schema pt) i) v = Inr pt' \<and>
    pt_schema pt' = s \<and> length (pt_data pt') = sc_size s"
proof -
  have ok: "point_ok pt" using s p by (simp add: point_ok_def)
  obtain b where b: "stored (dim_interpretation (sdim s i)) (pc_value_unscale_unoffset v (sdim s i)) = Inr b"
    using v unfolding stat_stored_def by (cases "stored (dim_interpretation (sdim s i)) (pc_value_unscale_unoffset v (sdim s i))") auto
  obtain d where d: "set_or_keep pt (Some (sdim s i)) v = Inr (pt\<lparr>pt_data := d\<rparr>)"
    "wr (pt_data pt) (dim_byteoffset (sdim s i)) b = Inr d" using keep_stored [OF ok p(1) i b] by blast
  then show ?thesis using p wr_length [OF d(2)] ready_dims(1) [OF s i] by simp
qed

lemma filter_stats_ok:
  assumes s: "schema_ready s" and i: "i < sc_ndims s" and st: "stats_ok s (Some st)"
    and v: "stat_stored s i (ds_min ds)" "stat_stored s i (ds_max ds)" "stat_stored s i (d_div (ds_sum ds) (d_of_int (int n)))"
  shows "\<exists>st'. filter_stats (Some st) i ds n = Inr (Some st') \<and> stats_ok s (Some st')"
proof -
  have p: "pt_schema (st_min st) = s" "length (pt_data (st_min st)) = sc_size s"
    "pt_schema (st_max st) = s" "length (pt_data (st_max st)) = sc_size s"
    "pt_schema (st_avg st) = s" "length (pt_data (st_avg st)) = sc_size s"
    using st by (simp_all add: stats_ok_def)
  show ?thesis
    using set_stat_ok [OF s i v(1) p(1,2)] set_stat_ok [OF s i v(2) p(3,4)] set_stat_ok [OF s i v(3) p(5,6)]
    by (auto simp: filter_stats_def stats_ok_def)
qed

lemma dimensional_filter_points:
  assumes h: "dim_holds z d ws" and s: "pa_schema d = s" and st: "pa_stats d \<noteq> None" and P: "filter P ws \<noteq> []"
    and zf: "\<forall>j < sc_ndims s. zlib_fits z (col_array s (filter P ws) j)"
    and fs: "filter_stored z d (bitmap_of (map P ws))"
  shows "\<exists>q. pc_patch_dimensional_filter z d (bitmap_of (map P ws)) = Inr q \<and> pa_schema q = s \<and>
    dim_decodes z q (filter P ws) \<and> pa_stats q \<noteq> None"
proof -
  let ?vs = "filter P ws" and ?bm = "bitmap_of (map P ws)"
  have ok: "points_ok s ws" "coded_arrays z s ws (pd_bytes d)" "pa_npoints d = length ws" "stats_ok s (pa_stats d)"
    using h s by (simp_all add: dim_holds_def)
  have sr: "schema_ready s" using ok(1) by (simp add: points_ok_def)
  have ls: "length (sc_dims s) = sc_ndims s" using sr by (simp add: schema_ready_def schema_wf_def)
  have lb: "length (pd_bytes d) = sc_ndims s" using ok(2) by (simp add: coded_arrays_def)
  have "length ws < 2 ^ 26" using ok(1) by (simp add: points_ok_def)
  then have lv: "length ?vs < 2 ^ 26" by (rule le_less_trans [OF length_filter_le])
  then have okv: "points_ok s ?vs" using ok(1) by (auto simp: points_ok_def widths_def)
  let ?start = "(pc_patch_dimensional_clone d)\<lparr>pa_stats := own (pa_stats d), pa_npoints := bm_nset ?bm\<rparr>"
  have "\<exists>q. foldE (filter_dimension z d ?bm) [0..<k] ?start = Inr q \<and> pa_schema q = s \<and> pa_npoints q = length ?vs \<and>
      length (pd_bytes q) = sc_ndims s \<and> (\<exists>st. pa_stats q = Some st \<and> stats_ok s (Some st)) \<and>
      (\<forall>j < k. pc_bytes_decode z (pd_bytes q ! j) = Inr (col_array s ?vs j))"
    if "k \<le> sc_ndims s" for k
    using that
  proof (induction k)
    case 0
    obtain st0 where "pa_stats d = Some st0" using st by blast
    then show ?case using ok(4) own_ok [of s "pa_stats d"] s by (auto simp: pc_patch_dimensional_clone_def)
  next
    case (Suc k)
    then obtain q st where q: "foldE (filter_dimension z d ?bm) [0..<k] ?start = Inr q" "pa_schema q = s" "pa_npoints q = length ?vs"
      "length (pd_bytes q) = sc_ndims s" "pa_stats q = Some st" "stats_ok s (Some st)"
      "\<forall>j < k. pc_bytes_decode z (pd_bytes q ! j) = Inr (col_array s ?vs j)" by auto
    have k: "k < sc_ndims s" using Suc.prems by simp
    note plain = col_array_plain [OF ok(1) k]
    obtain c e ro where c: "codec_fits z c (col_array s ws k)" "pc_bytes_encode z (col_array s ws k) c = Inr e"
      and b: "pd_bytes d ! k = e\<lparr>pb_readonly := ro\<rparr>" by (rule codedE [OF ok(2) k])
    have K: "col s ?vs k = kept (vals (col_array s ws k)) (bm_map ?bm)" "col s ?vs k \<noteq> []" "length (bm_map ?bm) = pb_npoints (col_array s ws k)"
      using kept_col [of s ws k P] plain(2) P by (simp_all add: col_def col_array_def)
    have zk: "zlib_fits z (sub_array (col_array s ws k) (col s ?vs k))" using zf k sub_col [OF okv k, of ws] by simp
    obtain a r where a: "pc_bytes_filter z (pd_bytes d ! k) ?bm (Some init_stat) = Inr (a, Some r)"
      "pc_bytes_decode z a = Inr (col_array s ?vs k)"
      using filter_eq [OF plain(1) c K(3,1,2) zk, of "Some init_stat"] b sub_col [OF okv k, of ws] by auto
    let ?dim = "sdim s k"
    let ?ds = "\<lparr>ds_min = pc_value_scale_offset (ds_min r) ?dim, ds_max = pc_value_scale_offset (ds_max r) ?dim,
      ds_sum = pc_value_scale_offset (ds_sum r) ?dim\<rparr>"
    have "stat_stored s k (ds_min ?ds)" "stat_stored s k (ds_max ?ds)"
      "stat_stored s k (d_div (ds_sum ?ds) (d_of_int (int (length ?vs))))"
      using fs [unfolded filter_stored_def, rule_format, of k] a(1) k s by simp_all
    from filter_stats_ok [OF sr k q(6) this] obtain st' where st': "filter_stats (Some st) k ?ds (length ?vs) = Inr (Some st')"
      "stats_ok s (Some st')" by blast
    obtain q' where q': "filter_dimension z d ?bm k q = Inr q'" "pa_schema q' = s" "pa_npoints q' = length ?vs" "pa_stats q' = Some st'"
      "pd_bytes q' = (pd_bytes q)[k := a]"
      using a(1) k lb q(2-5) st'(1) ready_dims(2) [OF sr k]
      by (simp add: filter_dimension_def Let_def s rdx_def wrx_def init_stat_def [symmetric])
    have "pc_bytes_decode z (pd_bytes q' ! j) = Inr (col_array s ?vs j)" if "j < Suc k" for j
      using that q(4,7) k a(2) by (cases "j = k") (auto simp: q'(5))
    then show ?case using q' q(4) st'(2) by (simp only: foldE_upt_Suc q(1) bindE_Inr) simp
  qed
  from this [of "sc_ndims s"] obtain q where q: "foldE (filter_dimension z d ?bm) [0..<sc_ndims s] ?start = Inr q" "pa_schema q = s"
    "pa_npoints q = length ?vs" "length (pd_bytes q) = sc_ndims s" "\<exists>st. pa_stats q = Some st \<and> stats_ok s (Some st)"
    "\<forall>j < sc_ndims s. pc_bytes_decode z (pd_bytes q ! j) = Inr (col_array s ?vs j)" by blast
  then have "dim_decodes z q ?vs" using okv by (auto simp: dim_decodes_def)
  moreover have "pc_patch_dimensional_filter z d ?bm = Inr q"
    using clone_ok [OF ok(4)] q(1) by (simp add: pc_patch_dimensional_filter_def s)
  ultimately show ?thesis using q(2,5) by blast
qed

section \<open>Patches of any kind\<close>

fun matches :: "patch \<Rightarrow> nat \<Rightarrow> PC_FILTERTYPE \<Rightarrow> double \<Rightarrow> double \<Rightarrow> byte list \<Rightarrow> bool" where
  "matches (Dimensional d) i ft val1 val2 w = raw_cond (pa_schema d) i ft val1 val2 w"
| "matches (Uncompressed p) i ft val1 val2 w = point_cond (pa_schema p) i ft val1 val2 w"
| "matches (Lazperf p) i ft val1 val2 w = point_cond (pa_schema p) i ft val1 val2 w"

text \<open>What the statistics say: there may be points that satisfy the condition.\<close>

definition range_allows :: "PC_FILTERTYPE \<Rightarrow> double \<Rightarrow> double \<Rightarrow> double \<Rightarrow> double \<Rightarrow> bool" where
  "range_allows ft mn mx val1 val2 = (case ft of
       PC_GT \<Rightarrow> \<not> d_lt mx val1
     | PC_LT \<Rightarrow> \<not> d_lt val1 mn
     | PC_EQUAL \<Rightarrow> \<not> (d_lt val1 mn \<or> d_lt mx val1)
     | PC_BETWEEN \<Rightarrow> \<not> (d_lt val2 mn \<or> d_lt mx val1))"

definition stats_allow :: "PCSCHEMA \<Rightarrow> PCSTATS option \<Rightarrow> nat \<Rightarrow> PC_FILTERTYPE \<Rightarrow> double \<Rightarrow> double \<Rightarrow> bool" where
  "stats_allow s stats i ft val1 val2 = (case stats of None \<Rightarrow> True
     | Some st \<Rightarrow> range_allows ft (pval s i (pt_data (st_min st))) (pval s i (pt_data (st_max st))) val1 val2)"

lemma has_results_eq:
  assumes "schema_ready s" "i < sc_ndims s" "stats_ok s (Some st)"
  shows "pc_patch_filter_has_results st i ft val1 val2 =
    Inr (range_allows ft (pval s i (pt_data (st_min st))) (pval s i (pt_data (st_max st))) val1 val2)"
proof -
  have p: "pt_schema (st_min st) = s" "length (pt_data (st_min st)) = sc_size s"
    "pt_schema (st_max st) = s" "length (pt_data (st_max st)) = sc_size s" using assms(3) by (simp_all add: stats_ok_def)
  have "pc_point_get_double_by_index (st_min st) i = Inr (Some (pval s i (pt_data (st_min st))))"
    "pc_point_get_double_by_index (st_max st) i = Inr (Some (pval s i (pt_data (st_max st))))"
    using get_pval [OF assms(1,2) p(2), of "st_min st" "[]"] get_pval [OF assms(1,2) p(4), of "st_max st" "[]"] p(1,3)
      ready_dims(1) [OF assms(1,2)] by (simp_all add: pc_point_get_double_by_index_def)
  then show ?thesis by (simp add: pc_patch_filter_has_results_def got_def used_def range_allows_def)
qed

text \<open>
  What is needed for the statistics of a result that has points, and for encoding it. A result without points
  needs nothing.
\<close>

fun filterable :: "zlib \<Rightarrow> patch \<Rightarrow> (byte list \<Rightarrow> bool) \<Rightarrow> byte list list \<Rightarrow> bool" where
  "filterable z (Dimensional d) P ws = (pa_stats d \<noteq> None \<and>
     (\<forall>j < sc_ndims (pa_schema d). zlib_fits z (col_array (pa_schema d) (filter P ws) j)) \<and>
     filter_stored z d (bitmap_of (map P ws)))"
| "filterable z (Uncompressed p) P ws = stats_defined (pa_schema p) (filter P ws)"
| "filterable z (Lazperf p) P ws = stats_defined (pa_schema p) (filter P ws)"

lemma empty_patch_eq:
  assumes "schema_ready s" "0 < sc_size s"
  shows "\<exists>p. empty_patch s = Inr (Some (Uncompressed p)) \<and> pa_schema p = s \<and> patch_ok p \<and> pts p = []"
proof -
  let ?p = "\<lparr>pa_type = PC_NONE, pa_readonly = PC_FALSE, pa_schema = s, pa_npoints = 0, pa_bounds = pc_bounds_init,
    pa_stats = None, pu_maxpoints = 0, pu_datasize = 0, pu_data = []\<rparr>"
  have "patch_ok ?p" "pts ?p = []" using assms by (simp_all add: patch_ok_def pts_def)
  moreover have "empty_patch s = Inr (Some (Uncompressed ?p))" using make_eq [OF assms, of 0] by (simp add: empty_patch_def)
  ultimately show ?thesis by auto
qed

lemma filter_uncompressed_points:
  assumes h: "patch_holds z laz (Uncompressed p) ws" and s: "pa_schema p = s" "0 < sc_size s" and i: "i < sc_ndims s"
    and xy: "has_xy s ix iy" and d: "filter (point_cond s i ft val1 val2) ws \<noteq> [] \<longrightarrow> stats_defined s (filter (point_cond s i ft val1 val2) ws)"
  shows "\<exists>q. filter_uncompressed p i ft val1 val2 = Inr (Some (Uncompressed q)) \<and> pa_schema q = s \<and> patch_ok q \<and>
    pts q = filter (point_cond s i ft val1 val2) ws"
proof -
  let ?P = "point_cond s i ft val1 val2"
  have sr: "schema_ready s" using h s by (simp add: points_ok_def)
  note b = uncompressed_bitmap_of [OF h s(1) i, of ft val1 val2]
  show ?thesis
  proof (cases "filter ?P ws = []")
    case True
    then show ?thesis using b empty_patch_eq [OF sr s(2)] by (auto simp: filter_uncompressed_def s(1))
  next
    case False
    obtain st where st: "pc_patch_uncompressed_filter p (bitmap_of (map ?P ws)) = Inr ((patch_of s ix iy (filter ?P ws))\<lparr>pa_stats := Some st\<rparr>)"
      "patch_holds z laz (Uncompressed ((patch_of s ix iy (filter ?P ws))\<lparr>pa_stats := Some st\<rparr>)) (filter ?P ws)"
      using uncompressed_filter_points [OF h s xy mp [OF d False]] by blast
    have "pa_schema ((patch_of s ix iy (filter ?P ws))\<lparr>pa_stats := Some st\<rparr>) = s" by (simp add: patch_of_def)
    with st b False show ?thesis
      by (intro exI [of _ "(patch_of s ix iy (filter ?P ws))\<lparr>pa_stats := Some st\<rparr>"]) (simp add: filter_uncompressed_def)
  qed
qed

lemma decoded_pts:
  assumes "dim_decodes z q ws"
  shows "\<exists>p. pc_patch_uncompress z laz (Dimensional q) = Inr p \<and> patch_ok p \<and> pts p = ws"
  using uncompressed_from_decoded [OF assms] by (simp add: pc_patch_uncompress_def)

lemma filter_dimensional_step:
  assumes "(case pa_stats d of None \<Rightarrow> Inr True | Some st \<Rightarrow> pc_patch_filter_has_results st i ft val1 val2) = Inr True"
    and "pc_patch_dimensional_bitmap z d i ft val1 val2 = Inr bm"
  shows "pc_patch_filter z laz (Some (Dimensional d)) i ft val1 val2 = (if bm_nset bm = 0 then empty_patch (pa_schema d)
    else bindE (pc_patch_dimensional_filter z d bm) (\<lambda>q. Inr (Some (Dimensional q))))"
  using assms by (simp add: pc_patch_filter_def)

lemma filter_points_step:
  assumes "(case p_stats pa of None \<Rightarrow> Inr True | Some st \<Rightarrow> pc_patch_filter_has_results st i ft val1 val2) = Inr True"
    and "\<And>d. pa \<noteq> Dimensional d" "pc_patch_uncompress z laz pa = Inr pu"
  shows "pc_patch_filter z laz (Some pa) i ft val1 val2 = filter_uncompressed pu i ft val1 val2"
  using assms by (cases pa) (auto simp: pc_patch_filter_def pc_patch_uncompress_def)

section \<open>Properties\<close>

text \<open>
  C25: The filter of a patch of any representation gives a patch with exactly the points that satisfy the
  condition, in order, unless the statistics exclude all of them, in which case it has no points; a patch
  without points is uncompressed, whatever the representation of the filtered one. In a dimensional patch the
  condition is tested on stored values. Only where points are kept their statistics have to be storable,
  and their arrays have to fit the compressor.
\<close>

theorem filter_keeps_matching:
  assumes "patch_holds z laz pa ws" "0 < sc_size (p_schema pa)" "i < sc_ndims (p_schema pa)" "has_xy (p_schema pa) ix iy"
    and "stats_allow (p_schema pa) (p_stats pa) i ft val1 val2 \<and> filter (matches pa i ft val1 val2) ws \<noteq> [] \<longrightarrow>
      filterable z pa (matches pa i ft val1 val2) ws"
  shows "\<exists>q p. pc_patch_filter z laz (Some pa) i ft val1 val2 = Inr (Some q) \<and> p_schema q = p_schema pa \<and>
    pc_patch_uncompress z laz q = Inr p \<and> patch_ok p \<and> (pts p = [] \<longrightarrow> q = Uncompressed p) \<and>
    pts p = (if stats_allow (p_schema pa) (p_stats pa) i ft val1 val2 then filter (matches pa i ft val1 val2) ws else [])"
proof -
  let ?s = "p_schema pa" and ?P = "matches pa i ft val1 val2" and ?ok = "stats_allow (p_schema pa) (p_stats pa) i ft val1 val2"
  have ok: "points_ok ?s ws" "stats_ok ?s (p_stats pa)" using holds_points [OF assms(1)] by blast+
  have sr: "schema_ready ?s" using ok(1) by (simp add: points_ok_def)
  have allow: "(case p_stats pa of None \<Rightarrow> Inr True | Some st \<Rightarrow> pc_patch_filter_has_results st i ft val1 val2) = Inr ?ok"
    using has_results_eq [OF sr assms(3)] ok(2) by (cases "p_stats pa") (simp_all add: stats_allow_def)
  obtain e where e: "empty_patch ?s = Inr (Some (Uncompressed e))" "pa_schema e = ?s" "patch_ok e" "pts e = []"
    using empty_patch_eq [OF sr assms(2)] by blast
  show ?thesis
  proof (cases ?ok)
    case False
    with allow e show ?thesis
      by (intro exI [of _ "Uncompressed e"] exI [of _ e]) (simp add: pc_patch_filter_def pc_patch_uncompress_def)
  next
    case True
    show ?thesis
    proof (cases "\<exists>d. pa = Dimensional d")
      case nd: False
      obtain pu where pu: "pc_patch_uncompress z laz pa = Inr pu" "patch_holds z laz (Uncompressed pu) ws" "pa_schema pu = ?s"
        using uncompress_ok [OF assms(1)] by blast
      have P: "?P = point_cond ?s i ft val1 val2" using nd by (cases pa) (simp_all add: fun_eq_iff)
      have d: "filter (point_cond ?s i ft val1 val2) ws \<noteq> [] \<longrightarrow> stats_defined ?s (filter (point_cond ?s i ft val1 val2) ws)"
        using assms(5) nd \<open>?ok\<close> unfolding P by (cases pa) simp_all
      obtain q where q: "filter_uncompressed pu i ft val1 val2 = Inr (Some (Uncompressed q))" "pa_schema q = ?s" "patch_ok q"
        "pts q = filter ?P ws"
        using filter_uncompressed_points [OF pu(2,3) assms(2,3,4) d] unfolding P by blast
      have "pc_patch_filter z laz (Some pa) i ft val1 val2 = Inr (Some (Uncompressed q))"
        using filter_points_step [OF _ _ pu(1)] allow True nd q(1) by simp
      moreover have "pc_patch_uncompress z laz (Uncompressed q) = Inr q" by (simp add: pc_patch_uncompress_def)
      ultimately show ?thesis using q(2-4) True by (metis p_schema.simps(1))
    next
      case True
      then obtain d where Dimensional: "pa = Dimensional d" by blast
      have h: "dim_holds z d ws" "pa_schema d = ?s" using assms(1) Dimensional by simp_all
      have P: "raw_cond ?s i ft val1 val2 = ?P" using Dimensional by (simp add: fun_eq_iff)
      note b = dimensional_bitmap_of [OF h assms(3), of ft val1 val2, unfolded P]
      have al: "(case pa_stats d of None \<Rightarrow> Inr True | Some st \<Rightarrow> pc_patch_filter_has_results st i ft val1 val2) = Inr True"
        using allow \<open>?ok\<close> Dimensional by simp
      have st: "pc_patch_filter z laz (Some pa) i ft val1 val2 = (if filter ?P ws = [] then empty_patch ?s
          else bindE (pc_patch_dimensional_filter z d (bitmap_of (map ?P ws))) (\<lambda>q. Inr (Some (Dimensional q))))"
        unfolding Dimensional filter_dimensional_step [OF al b [unfolded Dimensional]] by (simp del: matches.simps)
      show ?thesis
      proof (cases "filter ?P ws = []")
        case True
        have "pc_patch_filter z laz (Some pa) i ft val1 val2 = Inr (Some (Uncompressed e))" unfolding st if_P [OF True] by (rule e(1))
        moreover have "pc_patch_uncompress z laz (Uncompressed e) = Inr e" by (simp add: pc_patch_uncompress_def)
        ultimately show ?thesis using e(2-4) \<open>?ok\<close> True by (metis p_schema.simps(1))
      next
        case False
        have f: "pa_stats d \<noteq> None" "\<forall>j < sc_ndims ?s. zlib_fits z (col_array ?s (filter ?P ws) j)" "filter_stored z d (bitmap_of (map ?P ws))"
          using assms(5) Dimensional \<open>?ok\<close> False by simp_all
        obtain q where q: "pc_patch_dimensional_filter z d (bitmap_of (map ?P ws)) = Inr q" "pa_schema q = ?s" "dim_decodes z q (filter ?P ws)"
          using dimensional_filter_points [OF h f(1) False f(2,3)] by blast
        obtain p where p: "pc_patch_uncompress z laz (Dimensional q) = Inr p" "patch_ok p" "pts p = filter ?P ws"
          using decoded_pts [OF q(3)] by blast
        have "pc_patch_filter z laz (Some pa) i ft val1 val2 = Inr (Some (Dimensional q))"
          unfolding st if_not_P [OF False] q(1) bindE_Inr ..
        then show ?thesis using p q(2) \<open>?ok\<close> False by (metis p_schema.simps(2))
      qed
    qed
  qed
qed

theorem filter_keeps_matching_witness:
  "(\<exists>q p. pc_patch_filter store_zlib None (Some (Uncompressed demo_patch)) 1 PC_GT (d_of_int 5) (d_of_int 5) = Inr (Some q) \<and>
     pc_patch_uncompress store_zlib None q = Inr p \<and> pts p = [[6, 7, 8, 9, 10]]) \<and>
   (\<exists>p. pc_patch_filter store_zlib None (Some (Uncompressed demo_patch)) 1 PC_GT (d_of_int 10) (d_of_int 10) = Inr (Some (Uncompressed p)) \<and>
     pts p = [])"
proof
  have sn: "pa_stats demo_patch = None" by (simp add: demo_patch_def patch_of_def)
  let ?P = "matches (Uncompressed demo_patch) 1 PC_GT (d_of_int 5) (d_of_int 5)"
  have f: "filter ?P demo_pts = [[6, 7, 8, 9, 10]]"
    by (simp add: demo_pts_def point_cond_def filter_cond_def demo_patch_ok demo_stat_facts)
  have "filterable store_zlib (Uncompressed demo_patch) ?P demo_pts" using f demo_stats_last by (simp add: demo_patch_ok)
  then have g: "stats_allow (p_schema (Uncompressed demo_patch)) (p_stats (Uncompressed demo_patch)) 1 PC_GT (d_of_int 5) (d_of_int 5) \<and>
      filter ?P demo_pts \<noteq> [] \<longrightarrow> filterable store_zlib (Uncompressed demo_patch) ?P demo_pts" by blast
  from filter_keeps_matching [OF demo_holds(1) _ _ _ g, of 0 1 None]
  show "\<exists>q p. pc_patch_filter store_zlib None (Some (Uncompressed demo_patch)) 1 PC_GT (d_of_int 5) (d_of_int 5) = Inr (Some q) \<and>
      pc_patch_uncompress store_zlib None q = Inr p \<and> pts p = [[6, 7, 8, 9, 10]]"
    unfolding f using demo_xy_ready by (auto simp: demo_patch_ok stats_allow_def sn)
  let ?Q = "matches (Uncompressed demo_patch) 1 PC_GT (d_of_int 10) (d_of_int 10)"
  have e: "filter ?Q demo_pts = []"
    by (simp add: demo_pts_def point_cond_def filter_cond_def demo_patch_ok demo_stat_facts)
  show "\<exists>p. pc_patch_filter store_zlib None (Some (Uncompressed demo_patch)) 1 PC_GT (d_of_int 10) (d_of_int 10) = Inr (Some (Uncompressed p)) \<and>
      pts p = []"
    using filter_keeps_matching [OF demo_holds(1), of 1 0 1 PC_GT "d_of_int 10" "d_of_int 10" store_zlib None, unfolded e] demo_xy_ready
    by (auto simp: demo_patch_ok)
qed

text \<open>
  C28: When the statistics of a patch bound the values of the dimension, the test that skips a patch without
  looking at its points skips it only if no point satisfies the condition.
\<close>

theorem filter_skips_safely:
  assumes "schema_ready s" "i < sc_ndims s" "stats_ok s (Some st)"
    and "\<forall>w \<in> set ws. \<not> d_lt (pval s i w) (pval s i (pt_data (st_min st))) \<and> \<not> d_lt (pval s i (pt_data (st_max st))) (pval s i w)"
    and "pc_patch_filter_has_results st i ft val1 val2 = Inr False"
  shows "filter (point_cond s i ft val1 val2) ws = []"
proof -
  let ?mn = "pval s i (pt_data (st_min st))" and ?mx = "pval s i (pt_data (st_max st))"
  have r: "\<not> range_allows ft ?mn ?mx val1 val2" using has_results_eq [OF assms(1-3), of ft val1 val2] assms(5) by simp
  have "\<not> point_cond s i ft val1 val2 w" if "w \<in> set ws" for w
    using r bspec [OF assms(4) that]
    by (cases ft) (auto simp: range_allows_def point_cond_def filter_cond_def d_lt_def d_eq_def)
  then show ?thesis by (simp add: filter_empty_conv)
qed

theorem filter_skips_safely_witness:
  "filter (point_cond demo_xy 1 PC_GT (d_of_int 20) (d_of_int 20)) demo_pts = []"
proof -
  let ?pt = "\<lambda>w. \<lparr>pt_readonly = PC_FALSE, pt_schema = demo_xy, pt_data = w\<rparr>"
  let ?st = "\<lparr>st_min = ?pt [1, 2, 3, 4, 5], st_max = ?pt [6, 7, 8, 9, 10], st_avg = ?pt [1, 2, 3, 4, 5]\<rparr>"
  have st: "stats_ok demo_xy (Some ?st)" using demo_xy_ready by (simp add: stats_ok_def)
  have i: "1 < sc_ndims demo_xy" using demo_xy_ready by simp
  have l: "d_lt (d_of_int 10) (d_of_int 20)" by (simp add: exact_int_def)
  have b: "\<forall>w \<in> set demo_pts. \<not> d_lt (pval demo_xy 1 w) (pval demo_xy 1 (pt_data (st_min ?st))) \<and>
      \<not> d_lt (pval demo_xy 1 (pt_data (st_max ?st))) (pval demo_xy 1 w)"
    by (simp add: demo_pts_def demo_stat_facts)
  have "pc_patch_filter_has_results ?st 1 PC_GT (d_of_int 20) (d_of_int 20) = Inr False"
    using has_results_eq [OF demo_xy_ready(1) i st] l by (simp add: range_allows_def demo_stat_facts)
  from filter_skips_safely [OF demo_xy_ready(1) i st b this] show ?thesis .
qed

text \<open>A schema with other scales has the same layout.\<close>

definition rescaled :: "(PCDIMENSION \<Rightarrow> double) \<Rightarrow> PCSCHEMA \<Rightarrow> PCSCHEMA" where
  "rescaled k s = s\<lparr>sc_heap := map (\<lambda>d. d\<lparr>dim_scale := k d\<rparr>) (sc_heap s)\<rparr>"

lemma rescaled_ready:
  assumes "schema_ready s"
  shows "schema_ready (rescaled k s)" "i < sc_ndims s \<Longrightarrow> sdim (rescaled k s) i = (sdim s i)\<lparr>dim_scale := k (sdim s i)\<rparr>"
proof -
  let ?f = "\<lambda>d. d\<lparr>dim_scale := k d\<rparr>"
  have wf: "length (sc_dims s) = sc_ndims s" "refs_ok (sc_heap s) (sc_dims s)" "layout_ok s"
    using assms by (simp_all add: schema_ready_def schema_wf_def)
  have r: "r < length (sc_heap s)" if "Some r \<in> set (sc_dims s)" for r
    using wf(1,2) that by (auto simp: refs_ok_def in_set_conv_nth)
  have nth: "map ?f (sc_heap s) ! q = ?f (sc_heap s ! q)" if "Some q \<in> set (sc_dims s)" for q
    using nth_map [OF r [OF that], of ?f] by simp
  have mem: "Some q \<in> set (sc_dims s)" if "sc_dims s ! i = Some q" "i < sc_ndims s" for i q
    using that wf(1) by (metis nth_mem)
  have "slot_width (map ?f (sc_heap s)) (sc_dims s ! j) = slot_width (sc_heap s) (sc_dims s ! j)" if "j < sc_ndims s" for j
    using nth [OF mem [OF _ that]] by (cases "sc_dims s ! j") (simp_all add: slot_width_def width_def)
  then have lo: "layout_off (map ?f (sc_heap s)) (sc_dims s) i = layout_off (sc_heap s) (sc_dims s) i" if "i \<le> sc_ndims s" for i
    using that by (auto simp: layout_off_def intro!: sum.cong)
  have layout: "layout_ok (rescaled k s)"
    using wf(3) nth [OF mem] lo by (simp add: layout_ok_def rescaled_def width_def)
  obtain h where h: "sc_namehash s = Some h" "names_ok (sc_heap s) (sc_dims s) h"
    using assms by (auto simp: schema_ready_def schema_wf_def)
  have "names_ok (map ?f (sc_heap s)) (sc_dims s) h"
    using h(2) nth unfolding names_ok_def by auto
  moreover have "refs_ok (map ?f (sc_heap s)) (sc_dims s)"
    using wf(1,2) nth [OF mem] by (auto simp: refs_ok_def)
  moreover have "\<forall>i < sc_ndims s. \<forall>q. sc_dims s ! i = Some q \<longrightarrow> dim_position (map ?f (sc_heap s) ! q) = i"
    using assms nth [OF mem] by (simp add: schema_ready_def schema_wf_def)
  ultimately have wf': "schema_wf (rescaled k s)"
    using wf(1) layout h(1) by (simp add: schema_wf_def rescaled_def)
  have sd: "sdim (rescaled k s) i = (sdim s i)\<lparr>dim_scale := k (sdim s i)\<rparr>" if "i < sc_ndims s" for i
  proof -
    have "sc_dims s ! i \<noteq> None" using assms that by (simp add: schema_ready_def)
    then obtain q where "sc_dims s ! i = Some q" by auto
    with nth [OF mem [OF this that]] show ?thesis by (simp add: sdim_def rescaled_def)
  qed
  then show "i < sc_ndims s \<Longrightarrow> sdim (rescaled k s) i = (sdim s i)\<lparr>dim_scale := k (sdim s i)\<rparr>" .
  show "schema_ready (rescaled k s)" using assms wf' sd by (simp add: schema_ready_def) (simp add: rescaled_def)
qed
text \<open>The example schema with values in hundredths, and a point whose Y is stored as 7.\<close>

definition demo_cm :: PCSCHEMA where
  "demo_cm = rescaled (\<lambda>d. 0x3F847AE147AE147B) demo_xy"

definition demo_cm_patch :: PCPATCH_UNCOMPRESSED where
  "demo_cm_patch = patch_of demo_cm 0 1 [[1, 2, 3, 4, 7]]"

lemma demo_cm_ready: "schema_ready demo_cm" "sc_ndims demo_cm = 2" "sc_size demo_cm = 5"
  "i < 2 \<Longrightarrow> sdim demo_cm i = (sdim demo_xy i)\<lparr>dim_scale := 0x3F847AE147AE147B\<rparr>" "points_ok demo_cm [[1, 2, 3, 4, 7]]"
proof -
  show r: "schema_ready demo_cm" unfolding demo_cm_def by (rule rescaled_ready(1) [OF demo_xy_ready(1)])
  show n: "sc_ndims demo_cm = 2" "sc_size demo_cm = 5" by (simp_all add: demo_cm_def rescaled_def demo_xy_ready)
  show "i < 2 \<Longrightarrow> sdim demo_cm i = (sdim demo_xy i)\<lparr>dim_scale := 0x3F847AE147AE147B\<rparr>"
    unfolding demo_cm_def using rescaled_ready(2) [OF demo_xy_ready(1), of i] demo_xy_ready(4) by simp
  show "points_ok demo_cm [[1, 2, 3, 4, 7]]" using r n by (simp add: points_ok_def widths_def)
qed

lemma demo_cm_conds:
  "point_cond demo_cm 1 PC_EQUAL 0x3FB1EB851EB851EC 0x3FB1EB851EB851EC [1, 2, 3, 4, 7]"
  "\<not> raw_cond demo_cm 1 PC_EQUAL 0x3FB1EB851EB851EC 0x3FB1EB851EB851EC [1, 2, 3, 4, 7]"
proof -
  have v: "dval PC_UINT8 [7] = 0x401C000000000000" by (simp add: dval_def pc_double_from_ptr_def rd_def word_of_bytes_def fp_eval)
  have d: "dim_interpretation (sdim demo_cm 1) = PC_UINT8" "dim_offset (sdim demo_cm 1) = d_zero"
    "dim_scale (sdim demo_cm 1) = 0x3F847AE147AE147B" "fld demo_cm [1, 2, 3, 4, 7] 1 = [7]"
    using demo_cm_ready(4) [of 1] by (simp_all add: fld_def demo_xy_facts demo_facts demo_sizes)
  have e: "d_eq d_zero d_zero" "\<not> d_eq 0x3F847AE147AE147B d_one" by (simp_all add: d_zero_def d_one_def fp_eval)
  show "point_cond demo_cm 1 PC_EQUAL 0x3FB1EB851EB851EC 0x3FB1EB851EB851EC [1, 2, 3, 4, 7]"
    unfolding point_cond_def pval_def pc_value_scale_offset_def d v by (simp add: e filter_cond_def) (simp add: fp_eval)
  show "\<not> raw_cond demo_cm 1 PC_EQUAL 0x3FB1EB851EB851EC 0x3FB1EB851EB851EC [1, 2, 3, 4, 7]"
    unfolding raw_cond_def pc_value_unscale_unoffset_def d v by (simp add: e filter_cond_def) (simp add: fp_eval)
qed

text \<open>
  C40: The filter depends on the representation: for a value stored as 7 hundredths, the uncompressed patch
  has a point that equals 0.07, its dimensional form has none, since 7 times 0.01 is 0.07 in doubles but
  0.07 divided by 0.01 is not 7.
\<close>

theorem filter_depends_on_representation:
  "\<exists>bm d bd. pc_patch_uncompressed_bitmap demo_cm_patch 1 PC_EQUAL 0x3FB1EB851EB851EC 0x3FB1EB851EB851EC = Inr bm \<and> bm_nset bm = 1 \<and>
     pc_patch_dimensional_from_uncompressed demo_cm_patch = Inr (Some d) \<and>
     pc_patch_dimensional_bitmap store_zlib d 1 PC_EQUAL 0x3FB1EB851EB851EC 0x3FB1EB851EB851EC = Inr bd \<and> bm_nset bd = 0"
proof -
  let ?ws = "[[1, 2, 3, 4, 7 :: byte]]"
  have i: "1 < sc_ndims demo_cm" using demo_cm_ready(2) by simp
  have s: "pa_schema demo_cm_patch = demo_cm" "pa_npoints demo_cm_patch = 1" "pa_stats demo_cm_patch = None"
    by (simp_all add: demo_cm_patch_def patch_of_def)
  have h: "patch_holds store_zlib None (Uncompressed demo_cm_patch) ?ws"
    using patch_of_holds [OF demo_cm_ready(5), where st = None and b = "extent demo_cm 0 1 ?ws" and ix = 0 and iy = 1]
    by (simp add: stats_ok_def demo_cm_patch_def) (simp add: patch_of_def)
  have p: "patch_ok demo_cm_patch" "pts demo_cm_patch = ?ws" using h by simp_all
  obtain d where d: "pc_patch_dimensional_from_uncompressed demo_cm_patch = Inr (Some d)" "dim_holds store_zlib d ?ws" "pa_schema d = demo_cm"
    using from_uncompressed_eq [OF p(1), of store_zlib] p(2) s by (auto simp: stats_ok_def)
  show ?thesis
    using uncompressed_bitmap_of [OF h s(1) i] dimensional_bitmap_of [OF d(2,3) i] demo_cm_conds d(1)
    by (simp add: bitmap_of_def)
qed

end
