(* ===== verification/PC_Sort_R.thy ===== *)
theory PC_Sort_R
  imports PC_Prelude "HOL-Library.Multiset"
begin

text \<open>
  Sorting with a comparison function that takes an argument (lib/sort_r/sort_r.h). The array is the list
  of its elements, a pointer to an element its index. \<open>sort_r\<close> calls the qsort_r of the platform where
  there is one and otherwise its own quicksort, \<open>sort_r_simple\<close>, which is modelled here; what the callers
  need of either is the locale \<open>sorter\<close>, which \<open>sort_r_simple\<close> is shown to satisfy.
\<close>

section \<open>Quicksort\<close>

type_synonym 'a comparator = "'a \<Rightarrow> 'a \<Rightarrow> int res"

definition sort_r_greater :: "'a comparator \<Rightarrow> nat \<Rightarrow> nat \<Rightarrow> 'a list \<Rightarrow> bool res" where
  "sort_r_greater compar a b xs =
     bindE (rdx xs a) (\<lambda>x. bindE (rdx xs b) (\<lambda>y. bindE (compar x y) (\<lambda>c. Inr (0 < c))))"

definition sort_r_swap :: "nat \<Rightarrow> nat \<Rightarrow> 'a list \<Rightarrow> 'a list res" where
  "sort_r_swap a b xs =
     bindE (rdx xs a) (\<lambda>x. bindE (rdx xs b) (\<lambda>y. bindE (wrx xs a y) (\<lambda>xs. wrx xs b x)))"

definition sort_r_cmpswap :: "'a comparator \<Rightarrow> nat \<Rightarrow> nat \<Rightarrow> 'a list \<Rightarrow> (bool \<times> 'a list) res" where
  "sort_r_cmpswap compar a b xs = bindE (sort_r_greater compar a b xs) (\<lambda>g.
     if g then bindE (sort_r_swap a b xs) (\<lambda>xs. Inr (True, xs)) else Inr (False, xs))"

text \<open>The inner loop of the insertion sort: the element at \<open>pj\<close> moves down to its place.\<close>

fun insert_down :: "'a comparator \<Rightarrow> nat \<Rightarrow> 'a list \<Rightarrow> 'a list res" where
  "insert_down compar 0 xs = Inr xs"
| "insert_down compar (Suc j) xs = bindE (sort_r_cmpswap compar j (Suc j) xs) (\<lambda>(swapped, xs).
     if swapped then insert_down compar j xs else Inr xs)"

text \<open>The index of the median of the first, the middle and the last element.\<close>

definition sort_r_pivot :: "'a comparator \<Rightarrow> 'a list \<Rightarrow> nat res" where
  "sort_r_pivot compar xs =
     (let last = length xs - 1 in
      bindE (sort_r_greater compar 0 (length xs div 2) xs) (\<lambda>g.
      let (l0, l1) = (if g then (length xs div 2, 0) else (0, length xs div 2)) in
      bindE (sort_r_greater compar l1 last xs) (\<lambda>g.
      if g then bindE (sort_r_greater compar l0 last xs) (\<lambda>g. Inr (if g then l0 else last))
      else Inr l1)))"

text \<open>
  The two inner loops of the partition, as one loop with a flag: upwards the pivot is the element at
  \<open>pr\<close>, downwards the one at \<open>pl\<close>. A swap moves the pivot to the other end and leaves the inner loop.
\<close>

function sort_r_partition :: "'a comparator \<Rightarrow> bool \<Rightarrow> nat \<Rightarrow> nat \<Rightarrow> 'a list \<Rightarrow> (nat \<times> 'a list) res" where
  "sort_r_partition compar up pl pr xs =
     (if pr \<le> pl then Inr (pl, xs)
      else bindE (sort_r_cmpswap compar pl pr xs) (\<lambda>(swapped, xs).
        if up = swapped then sort_r_partition compar False pl (pr - 1) xs
        else sort_r_partition compar True (pl + 1) pr xs))"
  by pat_completeness auto
termination by (relation "measure (\<lambda>(_, _, pl, pr, _). pr - pl)") auto

declare sort_r_partition.simps [simp del]

lemma cmpswap_length: "sort_r_cmpswap compar a b xs = Inr (g, ys) \<Longrightarrow> length ys = length xs"
  by (auto simp: sort_r_cmpswap_def sort_r_swap_def bindE_eq_Inr rdx_def wrx_def split: if_splits)

lemma partition_length:
  assumes "sort_r_partition compar up pl pr xs = Inr (k, ys)" "pl \<le> pr"
  shows "pl \<le> k \<and> k \<le> pr \<and> length ys = length xs"
  using assms
proof (induction compar up pl pr xs rule: sort_r_partition.induct)
  case (1 compar up pl pr xs)
  show ?case
  proof (cases "pr \<le> pl")
    case True
    then show ?thesis using "1.prems"(2) "1.prems"(1) [unfolded sort_r_partition.simps [of compar up pl pr xs] if_P [OF True]] by simp
  next
    case False
    note e = "1.prems"(1) [unfolded sort_r_partition.simps [of compar up pl pr xs] if_not_P [OF False]]
    from e obtain g zs where c: "sort_r_cmpswap compar pl pr xs = Inr (g, zs)"
      and r: "(if up = g then sort_r_partition compar False pl (pr - 1) zs else sort_r_partition compar True (pl + 1) pr zs) = Inr (k, ys)"
      by (auto simp: bindE_eq_Inr)
    show ?thesis using "1.IH" [OF False c refl] r False cmpswap_length [OF c] by (cases "up = g") (simp_all, linarith+)
  qed
qed

lemma swap_length: "sort_r_swap a b xs = Inr ys \<Longrightarrow> length ys = length xs"
  by (auto simp: sort_r_swap_def bindE_eq_Inr rdx_def wrx_def split: if_splits)

function sort_r_simple :: "'a comparator \<Rightarrow> 'a list \<Rightarrow> 'a list res" where
  "sort_r_simple compar xs =
     (if length xs < 7 then foldE (insert_down compar) [1..<length xs] xs
      else bindE (sort_r_pivot compar xs) (\<lambda>p.
           bindE (sort_r_swap p (length xs - 1) xs) (\<lambda>ys.
           bindE (sort_r_partition compar True 0 (length ys - 1) ys) (\<lambda>(pl, zs).
           bindE (sort_r_simple compar (take pl zs)) (\<lambda>low.
           bindE (sort_r_simple compar (drop (Suc pl) zs)) (\<lambda>high.
           Inr (low @ take 1 (drop pl zs) @ high)))))))"
  by pat_completeness auto
termination by (relation "measure (\<lambda>(_, xs). length xs)") (auto dest!: partition_length swap_length)

declare sort_r_simple.simps [simp del]

section \<open>What the sorting functions rely on\<close>

text \<open>The comparison function computes \<open>c\<close> on the elements of \<open>S\<close>, and \<open>c\<close> orders them.\<close>

definition computes :: "'a comparator \<Rightarrow> ('a \<Rightarrow> 'a \<Rightarrow> int) \<Rightarrow> 'a set \<Rightarrow> bool" where
  "computes compar c S = (\<forall>x \<in> S. \<forall>y \<in> S. compar x y = Inr (c x y))"

definition orders :: "('a \<Rightarrow> 'a \<Rightarrow> int) \<Rightarrow> 'a set \<Rightarrow> bool" where
  "orders c S = (\<forall>x \<in> S. \<forall>y \<in> S. sgn (c y x) = - sgn (c x y) \<and> (\<forall>z \<in> S. c x y \<le> 0 \<longrightarrow> c y z \<le> 0 \<longrightarrow> c x z \<le> 0))"

lemma orders_dest:
  assumes "orders c S" "x \<in> S" "y \<in> S"
  shows "sgn (c y x) = - sgn (c x y)" "\<forall>z \<in> S. c x y \<le> 0 \<longrightarrow> c y z \<le> 0 \<longrightarrow> c x z \<le> 0"
  using bspec [OF bspec [OF assms(1) [unfolded orders_def] assms(2)] assms(3)] by blast+

lemma orders_total: "orders c S \<Longrightarrow> x \<in> S \<Longrightarrow> y \<in> S \<Longrightarrow> 0 < c x y \<Longrightarrow> c y x \<le> 0"
  using orders_dest(1) [of c S x y] by (simp add: sgn_if split: if_splits)

lemma orders_trans: "orders c S \<Longrightarrow> x \<in> S \<Longrightarrow> y \<in> S \<Longrightarrow> z \<in> S \<Longrightarrow> c x y \<le> 0 \<Longrightarrow> c y z \<le> 0 \<Longrightarrow> c x z \<le> 0"
  using orders_dest(2) [of c S x y] by simp

lemma subset_nth: "set xs \<subseteq> S \<Longrightarrow> i < length xs \<Longrightarrow> xs ! i \<in> S"
  by auto

lemma swap_eq: "a < length xs \<Longrightarrow> b < length xs \<Longrightarrow> sort_r_swap a b xs = Inr (xs[a := xs ! b, b := xs ! a])"
  by (simp add: sort_r_swap_def rdx_def wrx_def)

lemma greater_eq:
  "computes compar c S \<Longrightarrow> set xs \<subseteq> S \<Longrightarrow> a < length xs \<Longrightarrow> b < length xs \<Longrightarrow>
   sort_r_greater compar a b xs = Inr (0 < c (xs ! a) (xs ! b))"
  using subset_nth [of xs S] by (simp add: sort_r_greater_def rdx_def computes_def)

lemma cmpswap_eq:
  "computes compar c S \<Longrightarrow> set xs \<subseteq> S \<Longrightarrow> a < length xs \<Longrightarrow> b < length xs \<Longrightarrow>
   sort_r_cmpswap compar a b xs = Inr (if 0 < c (xs ! a) (xs ! b) then (True, xs[a := xs ! b, b := xs ! a]) else (False, xs))"
  by (simp add: sort_r_cmpswap_def greater_eq swap_eq)

lemma mset_swapped: "a < length xs \<Longrightarrow> b < length xs \<Longrightarrow> mset (xs[a := xs ! b, b := xs ! a]) = mset xs"
  by (rule mset_swap)

lemma set_of_mset: "mset ys = mset xs \<Longrightarrow> set ys = set xs"
  by (rule mset_eq_setD)

section \<open>Any comparison function: the result is a permutation\<close>

lemma insert_down_permutes:
  "computes compar c S \<Longrightarrow> set xs \<subseteq> S \<Longrightarrow> j < length xs \<Longrightarrow> \<exists>ys. insert_down compar j xs = Inr ys \<and> mset ys = mset xs"
proof (induction j arbitrary: xs)
  case (Suc j)
  let ?ys = "xs[j := xs ! Suc j, Suc j := xs ! j]"
  have m: "mset ?ys = mset xs" using Suc.prems by (intro mset_swapped) simp_all
  then have "set ?ys \<subseteq> S" "j < length ?ys" using Suc.prems set_of_mset [OF m] by simp_all
  from Suc.IH [OF Suc.prems(1) this] m Suc.prems show ?case by (auto simp: cmpswap_eq)
qed simp

lemma foldE_permutes:
  assumes "\<And>i xs. i \<in> set is \<Longrightarrow> mset xs = mset ys \<Longrightarrow> \<exists>zs. f i xs = Inr zs \<and> mset zs = mset xs"
  shows "\<exists>zs. foldE f is ys = Inr zs \<and> mset zs = mset ys"
  using assms
proof (induction "is" arbitrary: ys)
  case (Cons i "is")
  obtain zs where z: "f i ys = Inr zs" "mset zs = mset ys" using Cons.prems [of i ys] by auto
  have "\<exists>us. foldE f is zs = Inr us \<and> mset us = mset zs"
    by (rule Cons.IH) (use Cons.prems z(2) in auto)
  then show ?case using z by auto
qed simp

lemma partition_permutes:
  assumes "computes compar c S" "set xs \<subseteq> S" "pl \<le> pr" "pr < length xs"
  shows "\<exists>k ys. sort_r_partition compar up pl pr xs = Inr (k, ys) \<and> mset ys = mset xs"
  using assms
proof (induction "pr - pl" arbitrary: up pl pr xs)
  case 0
  then show ?case by (simp add: sort_r_partition.simps)
next
  case (Suc n)
  let ?g = "0 < c (xs ! pl) (xs ! pr)" and ?ys = "xs[pl := xs ! pr, pr := xs ! pl]"
  have lt: "\<not> pr \<le> pl" using Suc.hyps(2) by simp
  define zs where "zs = (if ?g then ?ys else xs)"
  have m: "mset zs = mset xs" using mset_swapped [of pl xs pr] Suc.prems by (simp add: zs_def)
  then have z: "set zs \<subseteq> S" "length zs = length xs" using set_of_mset [OF m] mset_eq_length [OF m] Suc.prems by simp_all
  have "sort_r_cmpswap compar pl pr xs = Inr (?g, zs)"
    using cmpswap_eq [OF Suc.prems(1,2), of pl pr] Suc.prems by (simp add: zs_def)
  then have e: "sort_r_partition compar up pl pr xs = (if up = ?g then sort_r_partition compar False pl (pr - 1) zs
      else sort_r_partition compar True (pl + 1) pr zs)"
    by (simp add: sort_r_partition.simps [of compar up pl pr xs] lt)
  have "\<exists>k ys. sort_r_partition compar False pl (pr - 1) zs = Inr (k, ys) \<and> mset ys = mset zs"
    using Suc.hyps(2) Suc.prems z by (intro Suc.hyps(1)) simp_all
  moreover have "\<exists>k ys. sort_r_partition compar True (pl + 1) pr zs = Inr (k, ys) \<and> mset ys = mset zs"
    using Suc.hyps(2) Suc.prems z by (intro Suc.hyps(1)) simp_all
  ultimately show ?case using e m by auto
qed

lemma pivot_in_range:
  assumes "computes compar c S" "set xs \<subseteq> S" "0 < length xs"
  shows "\<exists>p < length xs. sort_r_pivot compar xs = Inr p"
proof -
  have l: "length xs div 2 < length xs" "length xs - 1 < length xs" using assms(3) by simp_all
  have i: "0 < length xs" by (rule assms(3))
  show ?thesis unfolding sort_r_pivot_def Let_def
    using l i by (simp add: greater_eq [OF assms(1,2)] split: prod.split)
qed

text \<open>One round of the quicksort: the parts on both sides of the pivot, sorted on their own.\<close>

lemma quicksort_round:
  assumes c: "computes compar c S" "set xs \<subseteq> S" and n: "\<not> length xs < 7"
  shows "\<exists>ys pl zs. mset ys = mset xs \<and> mset zs = mset xs \<and> pl < length xs \<and>
    sort_r_partition compar True 0 (length xs - 1) ys = Inr (pl, zs) \<and>
    sort_r_simple compar xs = bindE (sort_r_simple compar (take pl zs)) (\<lambda>low.
      bindE (sort_r_simple compar (drop (Suc pl) zs)) (\<lambda>high. Inr (low @ [zs ! pl] @ high)))"
proof -
  obtain p where p: "p < length xs" "sort_r_pivot compar xs = Inr p"
    using pivot_in_range [OF c] n by force
  let ?ys = "xs[p := xs ! (length xs - 1), length xs - 1 := xs ! p]"
  have ys: "sort_r_swap p (length xs - 1) xs = Inr ?ys" "mset ?ys = mset xs"
    using swap_eq [OF p(1), of "length xs - 1"] mset_swapped [OF p(1), of "length xs - 1"] p(1) by simp_all
  have sy: "set ?ys \<subseteq> S" "length ?ys = length xs" using set_of_mset [OF ys(2)] c(2) by simp_all
  have l: "length xs - 1 < length ?ys" using n by simp
  obtain pl zs where z: "sort_r_partition compar True 0 (length xs - 1) ?ys = Inr (pl, zs)" "mset zs = mset ?ys"
    using partition_permutes [OF c(1) sy(1) _ l] by blast
  have pl: "pl < length xs" "length zs = length xs" using partition_length [OF z(1)] n sy(2) by auto
  have t: "take 1 (drop pl zs) = [zs ! pl]" using pl by (simp add: Cons_nth_drop_Suc [symmetric])
  have "sort_r_simple compar xs = bindE (sort_r_simple compar (take pl zs)) (\<lambda>low.
      bindE (sort_r_simple compar (drop (Suc pl) zs)) (\<lambda>high. Inr (low @ [zs ! pl] @ high)))"
    unfolding sort_r_simple.simps [of compar xs] if_not_P [OF n] p(2) bindE_Inr ys(1) sy(2) z(1) prod.case t ..
  then show ?thesis using pl(1) z ys(2) by (intro exI [of _ ?ys] exI [of _ pl] exI [of _ zs]) simp
qed

lemma mset_around: "pl < length zs \<Longrightarrow> mset (take pl zs) + add_mset (zs ! pl) (mset (drop (Suc pl) zs)) = mset zs"
  using arg_cong [OF id_take_nth_drop [of pl zs], of mset] by simp

lemma sort_r_simple_permutes:
  assumes "computes compar c S" "set xs \<subseteq> S"
  shows "\<exists>ys. sort_r_simple compar xs = Inr ys \<and> mset ys = mset xs"
  using assms(2)
proof (induction "length xs" arbitrary: xs rule: less_induct)
  case less
  show ?case
  proof (cases "length xs < 7")
    case True
    have "\<exists>ys. foldE (insert_down compar) [1..<length xs] xs = Inr ys \<and> mset ys = mset xs"
    proof (rule foldE_permutes)
      fix i ys
      assume i: "i \<in> set [1..<length xs]" and ys: "mset ys = mset xs"
      show "\<exists>zs. insert_down compar i ys = Inr zs \<and> mset zs = mset ys"
        using insert_down_permutes [OF assms(1), of ys i] i less.prems set_of_mset [OF ys] mset_eq_length [OF ys] by simp
    qed
    then show ?thesis using True by (simp add: sort_r_simple.simps [of compar xs])
  next
    case False
    obtain ys pl zs where z: "mset zs = mset xs" "pl < length xs"
      "sort_r_simple compar xs = bindE (sort_r_simple compar (take pl zs)) (\<lambda>low.
        bindE (sort_r_simple compar (drop (Suc pl) zs)) (\<lambda>high. Inr (low @ [zs ! pl] @ high)))"
      using quicksort_round [OF assms(1) less.prems False] by blast
    have l: "length zs = length xs" "set zs \<subseteq> S" using mset_eq_length [OF z(1)] set_of_mset [OF z(1)] less.prems by simp_all
    have "set (take pl zs) \<subseteq> S" "set (drop (Suc pl) zs) \<subseteq> S" using l(2) by (auto dest: in_set_takeD in_set_dropD)
    moreover have "length (take pl zs) < length xs" "length (drop (Suc pl) zs) < length xs" using z(2) l(1) by simp_all
    ultimately obtain low high where "sort_r_simple compar (take pl zs) = Inr low" "mset low = mset (take pl zs)"
      "sort_r_simple compar (drop (Suc pl) zs) = Inr high" "mset high = mset (drop (Suc pl) zs)"
      using less.hyps by meson
    then show ?thesis using z(1,3) mset_around [of pl zs] l(1) z(2) by simp
  qed
qed

section \<open>An order: the result is sorted\<close>

definition sorted_upto :: "('a \<Rightarrow> 'a \<Rightarrow> int) \<Rightarrow> nat \<Rightarrow> 'a list \<Rightarrow> bool" where
  "sorted_upto c n xs = (\<forall>a b. a < b \<longrightarrow> b < n \<longrightarrow> c (xs ! a) (xs ! b) \<le> 0)"

lemma sorted_upto_wrt: "sorted_upto c (length xs) xs \<longleftrightarrow> sorted_wrt (\<lambda>x y. c x y \<le> 0) xs"
  by (auto simp: sorted_upto_def sorted_wrt_iff_nth_less)

lemma insert_down_sorts:
  assumes "computes compar c S" "orders c S" "set xs \<subseteq> S" "j < n" "n \<le> length xs"
    and "\<forall>a b. a < b \<longrightarrow> b < n \<longrightarrow> b \<noteq> j \<longrightarrow> c (xs ! a) (xs ! b) \<le> 0"
    and "insert_down compar j xs = Inr ys"
  shows "sorted_upto c n ys"
  using assms(3-)
proof (induction j arbitrary: xs)
  case 0
  then show ?case by (auto simp: sorted_upto_def)
next
  case (Suc j)
  let ?e = "xs ! Suc j" and ?y = "xs ! j"
  let ?zs = "xs[j := ?e, Suc j := ?y]"
  have l: "j < length xs" "Suc j < length xs" using Suc.prems(2,3) by simp_all
  have in_S: "xs ! i \<in> S" if "i < length xs" for i using subset_nth [OF Suc.prems(1) that] .
  show ?case
  proof (cases "0 < c ?y ?e")
    case True
    have m: "mset ?zs = mset xs" by (rule mset_swapped [OF l])
    have e: "c ?e ?y \<le> 0" using orders_total [OF assms(2) in_S [OF l(1)] in_S [OF l(2)] True] .
    have "c (?zs ! a) (?zs ! b) \<le> 0" if ab: "a < b" "b < n" "b \<noteq> j" for a b
    proof (cases "b = Suc j")
      case True
      then show ?thesis using ab e l Suc.prems(4) by (cases "a = j") (simp_all add: nth_list_update)
    next
      case False
      then have b: "?zs ! b = xs ! b" using ab(3) by simp
      have le: "c (xs ! i) (xs ! b) \<le> 0" if "i < b" for i using Suc.prems(4) that ab(2) False by blast
      have "?zs ! a = xs ! a \<or> (j < b \<and> ?zs ! a = ?e) \<or> (j < b \<and> ?zs ! a = ?y)"
        using ab(1) l by (auto simp: nth_list_update)
      then show ?thesis using b le [of a] le [of j] le [of "Suc j"] ab(1,3) False by (elim disjE conjE) simp_all
    qed
    then have "\<forall>a b. a < b \<longrightarrow> b < n \<longrightarrow> b \<noteq> j \<longrightarrow> c (?zs ! a) (?zs ! b) \<le> 0" by blast
    moreover have "insert_down compar j ?zs = Inr ys"
      using Suc.prems(5) True l by (simp add: cmpswap_eq [OF assms(1) Suc.prems(1)])
    ultimately show ?thesis
      using Suc.prems(1-3) set_of_mset [OF m] by (intro Suc.IH [of ?zs]) simp_all
  next
    case False
    then have "ys = xs" using Suc.prems(5) l by (simp add: cmpswap_eq [OF assms(1) Suc.prems(1)])
    moreover have "c (xs ! a) (xs ! b) \<le> 0" if ab: "a < b" "b < n" for a b
    proof (cases "b = Suc j \<and> a \<noteq> j")
      case True
      then have "c (xs ! a) ?y \<le> 0" using ab Suc.prems(4) by simp
      then show ?thesis using orders_trans [OF assms(2) in_S in_S in_S, of a j b] False True ab l by simp
    qed (use ab False Suc.prems(4) in \<open>cases "b = Suc j"; auto\<close>)
    ultimately show ?thesis by (simp add: sorted_upto_def)
  qed
qed

lemma insertion_sorts:
  assumes c: "computes compar c S" "orders c S" and xs: "set xs \<subseteq> S" and n: "n \<le> length xs"
  shows "\<exists>ys. foldE (insert_down compar) [1..<n] xs = Inr ys \<and> mset ys = mset xs \<and> sorted_upto c n ys"
  using n
proof (induction n)
  case 0
  then show ?case by (simp add: sorted_upto_def)
next
  case (Suc n)
  show ?case
  proof (cases "n = 0")
    case False
    obtain ys where ys: "foldE (insert_down compar) [1..<n] xs = Inr ys" "mset ys = mset xs" "sorted_upto c n ys"
      using Suc by auto
    have y: "set ys \<subseteq> S" "length ys = length xs" using set_of_mset [OF ys(2)] mset_eq_length [OF ys(2)] xs by simp_all
    have l: "n < length ys" "Suc n \<le> length ys" using Suc.prems y(2) by simp_all
    obtain zs where zs: "insert_down compar n ys = Inr zs" "mset zs = mset ys"
      using insert_down_permutes [OF c(1) y(1) l(1)] by blast
    have "sorted_upto c (Suc n) zs"
      by (rule insert_down_sorts [OF c y(1) _ l(2) _ zs(1)]) (use ys(3) in \<open>auto simp: sorted_upto_def less_Suc_eq\<close>)
    moreover have "[1..<Suc n] = [1..<n] @ [n]" using False by simp
    ultimately show ?thesis using ys zs by (simp add: foldE_append del: upt_Suc)
  qed (simp add: sorted_upto_def)
qed

lemma partition_parts:
  assumes "computes compar c S" "orders c S" "set xs \<subseteq> S" "pl \<le> pr" "pr < length xs"
    and "\<forall>i < pl. c (xs ! i) (xs ! (if up then pr else pl)) \<le> 0"
    and "\<forall>i. pr < i \<longrightarrow> i < length xs \<longrightarrow> c (xs ! (if up then pr else pl)) (xs ! i) \<le> 0"
    and "sort_r_partition compar up pl pr xs = Inr (k, ys)"
  shows "(\<forall>i < k. c (ys ! i) (ys ! k) \<le> 0) \<and> (\<forall>i. k < i \<longrightarrow> i < length ys \<longrightarrow> c (ys ! k) (ys ! i) \<le> 0)"
  using assms(3-)
proof (induction "pr - pl" arbitrary: up pl pr xs)
  case 0
  then show ?case by (auto simp: sort_r_partition.simps split: if_splits)
next
  case (Suc n)
  note prem = Suc.prems
  let ?g = "0 < c (xs ! pl) (xs ! pr)" and ?ys = "xs[pl := xs ! pr, pr := xs ! pl]"
  have lt: "\<not> pr \<le> pl" using Suc.hyps(2) by simp
  define zs where "zs = (if ?g then ?ys else xs)"
  have m: "mset zs = mset xs" using mset_swapped [of pl xs pr] prem by (simp add: zs_def)
  then have z: "set zs \<subseteq> S" "length zs = length xs" using set_of_mset [OF m] mset_eq_length [OF m] prem by simp_all
  have "sort_r_cmpswap compar pl pr xs = Inr (?g, zs)"
    using cmpswap_eq [OF assms(1) prem(1), of pl pr] prem by (simp add: zs_def)
  then have e: "(if up = ?g then sort_r_partition compar False pl (pr - 1) zs else sort_r_partition compar True (pl + 1) pr zs) = Inr (k, ys)"
    using prem(6) lt by (simp add: sort_r_partition.simps [of compar up pl pr xs])
  have S: "xs ! pl \<in> S" "xs ! pr \<in> S" using subset_nth [OF prem(1)] prem(2,3) by simp_all
  have le: "if ?g then c (xs ! pr) (xs ! pl) \<le> 0 else c (xs ! pl) (xs ! pr) \<le> 0"
    using orders_total [OF assms(2) S] by simp
  have nth: "zs ! i = (if ?g then if i = pr then xs ! pl else if i = pl then xs ! pr else xs ! i else xs ! i)"
    if "i < length xs" for i
    using that prem(2,3) by (simp add: zs_def nth_list_update)
  have above: "pr - 1 < i \<longleftrightarrow> i = pr \<or> pr < i" for i using lt by auto
  show ?case
  proof (cases "up = ?g")
    case True
    show ?thesis
    proof (rule Suc.hyps(1) [of "pr - 1" pl zs False])
      show "\<forall>i<pl. c (zs ! i) (zs ! (if False then pr - 1 else pl)) \<le> 0"
        using prem(2-4) True lt by (auto simp: nth split: if_splits)
      show "\<forall>i. pr - 1 < i \<longrightarrow> i < length zs \<longrightarrow> c (zs ! (if False then pr - 1 else pl)) (zs ! i) \<le> 0"
        using prem(2,3,5) True lt le z(2) unfolding above by (auto simp: nth split: if_splits)
    qed (use e True z lt prem(2,3) Suc.hyps(2) in simp_all)
  next
    case False
    show ?thesis
    proof (rule Suc.hyps(1) [of pr "pl + 1" zs True])
      show "\<forall>i<pl + 1. c (zs ! i) (zs ! (if True then pr else pl + 1)) \<le> 0"
        using prem(2-4) False lt le by (auto simp: nth less_Suc_eq split: if_splits)
      show "\<forall>i. pr < i \<longrightarrow> i < length zs \<longrightarrow> c (zs ! (if True then pr else pl + 1)) (zs ! i) \<le> 0"
        using prem(2,3,5) False lt z(2) by (auto simp: nth split: if_splits)
    qed (use e False z lt prem(2,3) Suc.hyps(2) in simp_all)
  qed
qed

lemma sorted_around:
  assumes "orders c S" "set (low @ [p] @ high) \<subseteq> S"
    and "sorted_wrt (\<lambda>x y. c x y \<le> 0) low" "sorted_wrt (\<lambda>x y. c x y \<le> 0) high"
    and "\<forall>x \<in> set low. c x p \<le> 0" "\<forall>x \<in> set high. c p x \<le> 0"
  shows "sorted_wrt (\<lambda>x y. c x y \<le> 0) (low @ [p] @ high)"
proof -
  have "c x y \<le> 0" if "x \<in> set low" "y \<in> set high" for x y
    using orders_trans [OF assms(1), of x p y] assms(2,5,6) that by auto
  then show ?thesis using assms(3-6) by (auto simp: sorted_wrt_append)
qed

lemma sort_r_simple_sorts:
  assumes "computes compar c S" "orders c S" "set xs \<subseteq> S"
  shows "\<exists>ys. sort_r_simple compar xs = Inr ys \<and> mset ys = mset xs \<and> sorted_wrt (\<lambda>x y. c x y \<le> 0) ys"
  using assms(3)
proof (induction "length xs" arbitrary: xs rule: less_induct)
  case less
  show ?case
  proof (cases "length xs < 7")
    case True
    obtain ys where ys: "foldE (insert_down compar) [1..<length xs] xs = Inr ys" "mset ys = mset xs" "sorted_upto c (length xs) ys"
      using insertion_sorts [OF assms(1,2) less.prems le_refl] by blast
    then have "sorted_wrt (\<lambda>x y. c x y \<le> 0) ys" using sorted_upto_wrt [of c ys] mset_eq_length [OF ys(2)] by simp
    then show ?thesis using True ys by (simp add: sort_r_simple.simps [of compar xs])
  next
    case False
    obtain ys pl zs where z: "mset ys = mset xs" "mset zs = mset xs" "pl < length xs"
      "sort_r_partition compar True 0 (length xs - 1) ys = Inr (pl, zs)"
      "sort_r_simple compar xs = bindE (sort_r_simple compar (take pl zs)) (\<lambda>low.
        bindE (sort_r_simple compar (drop (Suc pl) zs)) (\<lambda>high. Inr (low @ [zs ! pl] @ high)))"
      using quicksort_round [OF assms(1) less.prems False] by blast
    have l: "length ys = length xs" "set ys \<subseteq> S" "length zs = length xs" "set zs \<subseteq> S"
      using mset_eq_length [OF z(1)] set_of_mset [OF z(1)] mset_eq_length [OF z(2)] set_of_mset [OF z(2)] less.prems by simp_all
    have last: "\<forall>i. length xs - 1 < i \<longrightarrow> i < length ys \<longrightarrow> c (ys ! (if True then length xs - 1 else 0)) (ys ! i) \<le> 0"
      "length xs - 1 < length ys" using l(1) z(3) by auto
    have parts: "\<forall>i < pl. c (zs ! i) (zs ! pl) \<le> 0" "\<forall>i. pl < i \<longrightarrow> i < length zs \<longrightarrow> c (zs ! pl) (zs ! i) \<le> 0"
      using partition_parts [OF assms(1,2) l(2) _ _ _ _ z(4)] last by simp_all
    have sub: "set (take pl zs) \<subseteq> S" "set (drop (Suc pl) zs) \<subseteq> S" using l(4) by (auto dest: in_set_takeD in_set_dropD)
    have "length (take pl zs) < length xs" "length (drop (Suc pl) zs) < length xs" using z(3) l(3) by simp_all
    with sub less.hyps obtain low high where
      low: "sort_r_simple compar (take pl zs) = Inr low" "mset low = mset (take pl zs)" "sorted_wrt (\<lambda>x y. c x y \<le> 0) low" and
      high: "sort_r_simple compar (drop (Suc pl) zs) = Inr high" "mset high = mset (drop (Suc pl) zs)" "sorted_wrt (\<lambda>x y. c x y \<le> 0) high"
      by meson
    have sets: "set low = set (take pl zs)" "set high = set (drop (Suc pl) zs)" using set_of_mset low(2) high(2) by blast+
    have "\<forall>x \<in> set low. c x (zs ! pl) \<le> 0" using parts(1) z(3) l(3) by (auto simp: sets in_set_conv_nth)
    moreover have "\<forall>x \<in> set high. c (zs ! pl) x \<le> 0" using parts(2) z(3) l(3) by (auto simp: sets in_set_conv_nth)
    moreover have "set (low @ [zs ! pl] @ high) \<subseteq> S" using sub subset_nth [OF l(4), of pl] z(3) l(3) by (auto simp: sets)
    ultimately have "sorted_wrt (\<lambda>x y. c x y \<le> 0) (low @ [zs ! pl] @ high)"
      using sorted_around [OF assms(2) _ low(3) high(3)] by blast
    then show ?thesis using z(2,3,5) mset_around [of pl zs] l(3) low(1,2) high(1,2) by simp
  qed
qed

section \<open>The interface\<close>

text \<open>
  What sorting promises for a comparison function that orders the elements: the same elements, sorted. For
  the qsort_r of a platform this is its documented behaviour.
\<close>

locale sorter =
  fixes qs :: "'a comparator \<Rightarrow> 'a list \<Rightarrow> 'a list res"
  assumes sorts: "computes compar c (set xs) \<Longrightarrow> orders c (set xs) \<Longrightarrow>
    \<exists>ys. qs compar xs = Inr ys \<and> mset ys = mset xs \<and> sorted_wrt (\<lambda>x y. c x y \<le> 0) ys"

interpretation simple: sorter sort_r_simple
  by unfold_locales (rule sort_r_simple_sorts [OF _ _ subset_refl])

section \<open>Properties\<close>

text \<open>
  C27: The quicksort returns, with a permutation of the array and without leaving it, for every comparison
  function that has a value for any two elements, even one that does not order them; if it orders them, the
  result is sorted.
\<close>

theorem quicksort_sorts:
  assumes "computes compar c (set xs)"
  shows "\<exists>ys. sort_r_simple compar xs = Inr ys \<and> mset ys = mset xs \<and>
    (orders c (set xs) \<longrightarrow> sorted_wrt (\<lambda>x y. c x y \<le> 0) ys)"
  using sort_r_simple_permutes [OF assms subset_refl] simple.sorts [OF assms] by metis

theorem quicksort_sorts_witness:
  "\<exists>ys. sort_r_simple (\<lambda>x y. Inr (if y < x then 1 else if x < y then - 1 else 0)) [3, 1, 2, 7, 6, 5, 9, 4 :: int] = Inr ys \<and>
     mset ys = {#1, 2, 3, 4, 5, 6, 7, 9#} \<and> sorted_wrt (\<le>) ys"
proof -
  let ?c = "\<lambda>x y :: int. if y < x then 1 else if x < y then - 1 else 0 :: int"
  let ?xs = "[3, 1, 2, 7, 6, 5, 9, 4 :: int]"
  have "computes (\<lambda>x y. Inr (?c x y)) ?c (set ?xs)" "orders ?c (set ?xs)" by (auto simp: computes_def orders_def)
  then obtain ys where ys: "sort_r_simple (\<lambda>x y. Inr (?c x y)) ?xs = Inr ys" "mset ys = mset ?xs" "sorted_wrt (\<lambda>x y. ?c x y \<le> 0) ys"
    using quicksort_sorts [of "\<lambda>x y. Inr (?c x y)" ?c ?xs] by blast
  moreover have "(\<lambda>x y. ?c x y \<le> 0) = (\<le>)" by (auto simp: fun_eq_iff)
  ultimately show ?thesis by (intro exI [of _ ys]) (simp add: add_mset_commute)
qed

end
