(* ===== verification/PC_Sort.thy ===== *)
theory PC_Sort
  imports PC_Patch PC_Sort_R
begin

text \<open>
  Sorting patches and testing whether they are sorted (lib/pc_sort.c). A null-terminated list of
  dimensions is the list of the dimensions; \<open>dim[0]\<close> of the empty list is the null pointer. The sorting
  function is an argument, since sort_r.h takes the qsort_r of the platform where it has one.
\<close>

section \<open>Comparison\<close>

definition dcmp :: "double \<Rightarrow> double \<Rightarrow> int" where
  "dcmp da db = (if d_lt db da then 1 else 0) - (if d_lt da db then 1 else 0)"

fun pc_compare_dim :: "PCDIMENSION list \<Rightarrow> byte list \<Rightarrow> byte list \<Rightarrow> int res" where
  "pc_compare_dim [] a b = Inl OutOfBounds"
| "pc_compare_dim (d # ds) a b =
     bindE (pc_double_from_ptr a (dim_byteoffset d) (dim_interpretation d)) (\<lambda>da.
     bindE (pc_double_from_ptr b (dim_byteoffset d) (dim_interpretation d)) (\<lambda>db.
     let cmp = dcmp da db in
     if cmp = 0 \<and> ds \<noteq> [] then pc_compare_dim ds a b else Inr cmp))"

definition pc_compare_pcb :: "PCBYTES \<Rightarrow> byte list \<Rightarrow> byte list \<Rightarrow> int res" where
  "pc_compare_pcb pcb a b =
     bindE (pc_double_from_ptr a 0 (pb_interpretation pcb)) (\<lambda>da.
     bindE (pc_double_from_ptr b 0 (pb_interpretation pcb)) (\<lambda>db. Inr (dcmp da db)))"

section \<open>Sorting\<close>

type_synonym sorting = "byte list comparator \<Rightarrow> byte list list \<Rightarrow> byte list list res"

definition sort_r :: "sorting \<Rightarrow> byte list \<Rightarrow> nat \<Rightarrow> nat \<Rightarrow> byte list comparator \<Rightarrow> byte list res" where
  "sort_r qs base nel w compar =
     bindE (rd base 0 (nel * w)) (\<lambda>d. bindE (qs compar (elems w nel d)) (\<lambda>es. wr base 0 (concat es)))"

definition pc_patch_uncompressed_sort ::
  "sorting \<Rightarrow> PCPATCH_UNCOMPRESSED \<Rightarrow> PCDIMENSION list \<Rightarrow> PCPATCH_UNCOMPRESSED res" where
  "pc_patch_uncompressed_sort qs pu dim =
     bindE (pc_patch_uncompressed_make (Some (pa_schema pu)) (pa_npoints pu)) (\<lambda>spu.
     bindE (rd (pu_data pu) 0 (pu_datasize pu)) (\<lambda>d. bindE (wr (pu_data spu) 0 d) (\<lambda>data.
     bindE (pc_stats_clone (pa_stats pu)) (\<lambda>stats.
     bindE (sort_r qs data (pa_npoints pu) (sc_size (pa_schema pu)) (pc_compare_dim dim)) (\<lambda>data.
     Inr (spu\<lparr>pu_data := data, pa_npoints := pa_npoints pu, pa_bounds := pa_bounds pu, pa_stats := stats\<rparr>))))))"

definition dimension_by_name :: "PCSCHEMA \<Rightarrow> string \<Rightarrow> PCDIMENSION res" where
  "dimension_by_name schema name = (case pc_schema_get_dimension_by_name schema name of
       None \<Rightarrow> Inl (PcError ''dimension \"%s\" does not exist'')
     | Some d \<Rightarrow> if d_lt d_zero (dim_scale d) then Inr d else Inl AssertFailed)"

definition pc_schema_get_dimensions_by_name :: "PCSCHEMA \<Rightarrow> string list \<Rightarrow> PCDIMENSION list res" where
  "pc_schema_get_dimensions_by_name schema names = mapE (dimension_by_name schema) names"

definition pc_patch_sort ::
  "sorting \<Rightarrow> zlib \<Rightarrow> lazperf option \<Rightarrow> patch \<Rightarrow> string list \<Rightarrow> PCPATCH_UNCOMPRESSED res" where
  "pc_patch_sort qs z laz pa names =
     bindE (pc_schema_get_dimensions_by_name (p_schema pa) names) (\<lambda>dim.
     bindE (pc_patch_uncompress z laz pa) (\<lambda>pu. pc_patch_uncompressed_sort qs pu dim))"

section \<open>Testing\<close>

text \<open>
  Two elements at \<open>buf\<close> and behind it at a time, as long as \<open>buf\<close> is before \<open>last\<close>; with elements of no
  bytes the loop would not come to an end.
\<close>

function sorted_loop :: "byte list comparator \<Rightarrow> nat \<Rightarrow> byte list \<Rightarrow> int \<Rightarrow> int \<Rightarrow> nat \<Rightarrow> bool res" where
  "sorted_loop compar sz data end_pos strict buf =
     (if end_pos \<le> int buf then Inr True
      else if sz = 0 then Inl Unspecified
      else bindE (rd data buf sz) (\<lambda>a. bindE (rd data (buf + sz) sz) (\<lambda>b. bindE (compar a b) (\<lambda>c.
        if strict \<le> c then Inr False else sorted_loop compar sz data end_pos strict (buf + sz)))))"
  by pat_completeness auto
termination by (relation "measure (\<lambda>(_, _, _, end_pos, _, buf). nat (end_pos - int buf))") auto

declare sorted_loop.simps [simp del]

definition pc_patch_uncompressed_is_sorted :: "PCPATCH_UNCOMPRESSED \<Rightarrow> PCDIMENSION list \<Rightarrow> int \<Rightarrow> bool res" where
  "pc_patch_uncompressed_is_sorted pu dim strict =
     (let sz = sc_size (pa_schema pu)
      in sorted_loop (pc_compare_dim dim) sz (pu_data pu) (int (pu_datasize pu) - int sz) strict 0)"

definition pc_bytes_uncompressed_is_sorted :: "PCBYTES \<Rightarrow> int \<Rightarrow> bool res" where
  "pc_bytes_uncompressed_is_sorted pcb strict =
     (if pb_compression pcb \<noteq> PC_DIM_NONE then Inl AssertFailed
      else bindE (pc_interpretation_size (pb_interpretation pcb)) (\<lambda>sz.
        sorted_loop (pc_compare_pcb pcb) sz (pb_bytes pcb) (int (pb_size pcb) - int sz) strict 0))"

definition pc_bytes_sigbits_is_sorted :: "zlib \<Rightarrow> PCBYTES \<Rightarrow> int \<Rightarrow> bool res" where
  "pc_bytes_sigbits_is_sorted z pcb strict = (if pb_compression pcb \<noteq> PC_DIM_SIGBITS then Inl AssertFailed
     else bindE (pc_bytes_decode z pcb) (\<lambda>dpcb. pc_bytes_uncompressed_is_sorted dpcb strict))"

definition pc_bytes_zlib_is_sorted :: "zlib \<Rightarrow> PCBYTES \<Rightarrow> int \<Rightarrow> bool res" where
  "pc_bytes_zlib_is_sorted z pcb strict = (if pb_compression pcb \<noteq> PC_DIM_ZLIB then Inl AssertFailed
     else bindE (pc_bytes_decode z pcb) (\<lambda>dpcb. pc_bytes_uncompressed_is_sorted dpcb strict))"

function rle_sorted_loop :: "PCBYTES \<Rightarrow> nat \<Rightarrow> int \<Rightarrow> nat \<Rightarrow> nat \<Rightarrow> bool res" where
  "rle_sorted_loop pcb sz strict curr_val next_val =
     (if int (pb_size pcb) - int sz \<le> int next_val then Inr True
      else bindE (rdx (pb_bytes pcb) (curr_val - 1)) (\<lambda>run.
           if run = 0 then Inl AssertFailed
           else bindE (rd (pb_bytes pcb) curr_val sz) (\<lambda>a. bindE (rd (pb_bytes pcb) next_val sz) (\<lambda>b.
                bindE (pc_compare_pcb pcb a b) (\<lambda>c.
                if strict \<le> c \<or> (strict \<noteq> 0 \<and> 1 < unat run) then Inr False
                else rle_sorted_loop pcb sz strict next_val (next_val + 1 + sz))))))"
  by pat_completeness auto
termination by (relation "measure (\<lambda>(pcb, sz, _, _, next_val). nat (int (pb_size pcb) - int sz - int next_val))") auto

declare rle_sorted_loop.simps [simp del]

definition pc_bytes_run_length_is_sorted :: "PCBYTES \<Rightarrow> int \<Rightarrow> bool res" where
  "pc_bytes_run_length_is_sorted pcb strict = (if pb_compression pcb \<noteq> PC_DIM_RLE then Inl AssertFailed
     else bindE (pc_interpretation_size (pb_interpretation pcb)) (\<lambda>sz. rle_sorted_loop pcb sz strict 1 (2 + sz)))"

definition pc_patch_dimensional_is_sorted ::
  "zlib \<Rightarrow> PCPATCH_DIMENSIONAL \<Rightarrow> PCDIMENSION list \<Rightarrow> int \<Rightarrow> bool res" where
  "pc_patch_dimensional_is_sorted z pdl dim strict = (case dim of
       [] \<Rightarrow> Inl OutOfBounds
     | d0 # rest \<Rightarrow>
         if rest \<noteq> [] then bindE (pc_patch_uncompressed_from_dimensional z pdl) (\<lambda>pu. pc_patch_uncompressed_is_sorted pu dim strict)
         else bindE (rdx (pd_bytes pdl) (dim_position d0)) (\<lambda>pcb.
           if pb_compression pcb = PC_DIM_RLE then pc_bytes_run_length_is_sorted pcb strict
           else if pb_compression pcb = PC_DIM_SIGBITS then pc_bytes_sigbits_is_sorted z pcb strict
           else if pb_compression pcb = PC_DIM_ZLIB then pc_bytes_zlib_is_sorted z pcb strict
           else if pb_compression pcb = PC_DIM_NONE then pc_bytes_uncompressed_is_sorted pcb strict
           else Inl (PcError ''pc_patch_dimensional_is_sorted: Uh oh'')))"

definition pc_patch_lazperf_is_sorted ::
  "lazperf option \<Rightarrow> PCPATCH_LAZPERF \<Rightarrow> PCDIMENSION list \<Rightarrow> int \<Rightarrow> bool res" where
  "pc_patch_lazperf_is_sorted laz pa dim strict =
     bindE (pc_patch_uncompressed_from_lazperf laz pa) (\<lambda>pu. pc_patch_uncompressed_is_sorted pu dim strict)"

definition pc_patch_is_sorted :: "zlib \<Rightarrow> lazperf option \<Rightarrow> patch \<Rightarrow> string list \<Rightarrow> int \<Rightarrow> bool res" where
  "pc_patch_is_sorted z laz pa names strict =
     bindE (pc_schema_get_dimensions_by_name (p_schema pa) names) (\<lambda>dim.
     let strict = (if 0 < strict then 1 else 0) in
     case pa of
       Uncompressed pu \<Rightarrow> pc_patch_uncompressed_is_sorted pu dim strict
     | Dimensional pdl \<Rightarrow> pc_patch_dimensional_is_sorted z pdl dim strict
     | Lazperf pl \<Rightarrow> pc_patch_lazperf_is_sorted laz pl dim strict)"

section \<open>The order of the points\<close>

text \<open>
  Points are compared by the stored values of the dimensions, the first dimension first. (The code asserts
  that the scales are positive, so that the values after scaling have the same order.)
\<close>

definition raw :: "PCDIMENSION \<Rightarrow> byte list \<Rightarrow> double" where
  "raw d w = dval (dim_interpretation d) (take (dim_size d) (drop (dim_byteoffset d) w))"

fun lexcmp :: "PCDIMENSION list \<Rightarrow> byte list \<Rightarrow> byte list \<Rightarrow> int" where
  "lexcmp [] a b = 0"
| "lexcmp (d # ds) a b = (if d_lt (raw d a) (raw d b) then - 1 else if d_lt (raw d b) (raw d a) then 1 else lexcmp ds a b)"

definition dims_of :: "PCSCHEMA \<Rightarrow> PCDIMENSION list \<Rightarrow> bool" where
  "dims_of s dims = (\<forall>d \<in> set dims. \<exists>j < sc_ndims s. d = sdim s j)"

definition numbers :: "PCDIMENSION list \<Rightarrow> byte list list \<Rightarrow> bool" where
  "numbers dims ws = (\<forall>d \<in> set dims. \<forall>w \<in> set ws. \<not> d_isnan (raw d w))"

lemma raw_read:
  assumes "schema_ready s" "j < sc_ndims s" "length w = sc_size s"
  shows "pc_double_from_ptr w (dim_byteoffset (sdim s j)) (dim_interpretation (sdim s j)) = Inr (raw (sdim s j) w)"
  using double_from_rd [OF ready_dims(3) [OF assms(1,2)], of w "dim_byteoffset (sdim s j)"]
    ready_inside [OF assms(1,2)] ready_layout(1) [OF assms(1,2)] assms(3) by (simp add: raw_def rd_def)

lemma compare_dim_eq:
  assumes "schema_ready s" "length a = sc_size s" "length b = sc_size s"
  shows "dims_of s dims \<Longrightarrow> dims \<noteq> [] \<Longrightarrow> pc_compare_dim dims a b = Inr (lexcmp dims a b)"
proof (induction dims)
  case (Cons d ds)
  obtain j where j: "j < sc_ndims s" "d = sdim s j" using Cons.prems(1) by (auto simp: dims_of_def)
  have rest: "ds \<noteq> [] \<Longrightarrow> pc_compare_dim ds a b = Inr (lexcmp ds a b)" using Cons by (simp add: dims_of_def)
  show ?case using raw_read [OF assms(1) j(1) assms(2)] raw_read [OF assms(1) j(1) assms(3)] rest j(2)
      d_lt_asym [of "raw d a" "raw d b"] by (cases "ds = []") (auto simp: dcmp_def)
qed simp

lemma lexcmp_computes:
  assumes "points_ok s ws" "dims_of s dims" "dims \<noteq> []"
  shows "computes (pc_compare_dim dims) (lexcmp dims) (set ws)"
  using compare_dim_eq [of s _ _ dims] assms by (simp add: computes_def points_ok_def widths_def)

lemma lexcmp_swap: "lexcmp dims b a = - lexcmp dims a b"
  by (induction dims) (auto dest: d_lt_asym)

lemma lexcmp_trans:
  assumes "\<forall>d \<in> set dims. \<not> d_isnan (raw d a) \<and> \<not> d_isnan (raw d b) \<and> \<not> d_isnan (raw d x)"
    and "lexcmp dims a b \<le> n" "lexcmp dims b x \<le> n" "n \<le> 0"
  shows "lexcmp dims a x \<le> n"
  using assms
proof (induction dims)
  case (Cons d ds)
  have k: "d_lt (raw d a) (raw d b) \<longleftrightarrow> d_key (raw d a) < d_key (raw d b)" "d_lt (raw d b) (raw d a) \<longleftrightarrow> d_key (raw d b) < d_key (raw d a)"
    "d_lt (raw d x) (raw d b) \<longleftrightarrow> d_key (raw d x) < d_key (raw d b)" "d_lt (raw d b) (raw d x) \<longleftrightarrow> d_key (raw d b) < d_key (raw d x)"
    "d_lt (raw d a) (raw d x) \<longleftrightarrow> d_key (raw d a) < d_key (raw d x)" "d_lt (raw d x) (raw d a) \<longleftrightarrow> d_key (raw d x) < d_key (raw d a)"
    using Cons.prems(1) by (simp_all add: lt_iff)
  have "n \<le> - 1 \<or> n = 0" using assms(4) by arith
  with Cons.prems(2-3) Cons.IH Cons.prems(1) assms(4) show ?case unfolding lexcmp.simps k by (auto split: if_splits)
qed simp

lemma lexcmp_range: "lexcmp dims a b \<in> {- 1, 0, 1}"
  by (induction dims) auto

lemma lexcmp_orders:
  assumes "numbers dims ws"
  shows "orders (lexcmp dims) (set ws)"
  unfolding orders_def
proof (intro ballI conjI impI)
  fix x y assume "x \<in> set ws" "y \<in> set ws"
  show "sgn (lexcmp dims y x) = - sgn (lexcmp dims x y)" using lexcmp_swap [of dims y x] by (simp only: sgn_minus)
next
  fix x y u assume "x \<in> set ws" "y \<in> set ws" "u \<in> set ws" "lexcmp dims x y \<le> 0" "lexcmp dims y u \<le> 0"
  then show "lexcmp dims x u \<le> 0" using lexcmp_trans [of dims x y u 0] assms by (simp add: numbers_def)
qed

section \<open>Sorted patches\<close>

text \<open>A patch without room behind its points: not one that points are still added to.\<close>

fun full :: "patch \<Rightarrow> bool" where
  "full (Uncompressed p) = (pu_datasize p = pa_npoints p * sc_size (pa_schema p))"
| "full _ = True"

lemma uncompress_full:
  assumes "patch_holds z laz pa ws" "full pa"
  shows "\<exists>p. pc_patch_uncompress z laz pa = Inr p \<and> patch_holds z laz (Uncompressed p) ws \<and> pa_schema p = p_schema pa \<and>
    pa_bounds p = p_bounds pa \<and> own (pa_stats p) = own (p_stats pa) \<and> pa_npoints p = length ws \<and> pu_data p = concat ws \<and>
    pu_datasize p = length ws * sc_size (p_schema pa)"
proof -
  obtain p where p: "pc_patch_uncompress z laz pa = Inr p" "patch_holds z laz (Uncompressed p) ws" "pa_schema p = p_schema pa"
    "pa_bounds p = p_bounds pa" "own (pa_stats p) = own (p_stats pa)" "pa_npoints p = length ws"
    using uncompress_ok [OF assms(1)] by blast
  have d: "pu_datasize p = length ws * sc_size (p_schema pa)"
  proof (cases pa)
    case (Uncompressed q)
    then show ?thesis using p(1,6) assms(2) by (simp add: pc_patch_uncompress_def)
  next
    case (Dimensional q)
    then show ?thesis using p(1) assms(1) uncompressed_from_dimensional_eq [of z q ws]
      by (simp add: pc_patch_uncompress_def) (simp add: as_uncompressed_def)
  next
    case (Lazperf q)
    then show ?thesis using p(1) assms(1) uncompressed_from_lazperf_eq [of laz q ws]
      by (simp add: pc_patch_uncompress_def) (simp add: as_uncompressed_def)
  qed
  have "length (pu_data p) = pu_datasize p" using p(2) by (simp add: patch_ok_def)
  then show ?thesis using p d holds_data(1) [OF p(2)] by simp
qed

lemma sort_r_eq:
  assumes "computes compar c (set ws)" "orders c (set ws)" "sorter qs" "\<forall>w \<in> set ws. length w = n"
  shows "\<exists>vs. sort_r qs (concat ws) (length ws) n compar = Inr (concat vs) \<and> mset vs = mset ws \<and>
    sorted_wrt (\<lambda>x y. c x y \<le> 0) vs"
proof -
  obtain vs where v: "qs compar ws = Inr vs" "mset vs = mset ws" "sorted_wrt (\<lambda>x y. c x y \<le> 0) vs"
    using sorter.sorts [OF assms(3,1,2)] by blast
  have l: "length (concat ws) = length ws * n" using length_concat_const [of ws n] assms(4) by simp
  have e: "elems n (length ws) (concat ws) = ws" using elems_concat [of ws n "[]"] assms(4) by simp
  have "length (concat vs) = length vs * n" using length_concat_const [of vs n] assms(4) set_of_mset [OF v(2)] by simp
  then have "length (concat vs) = length ws * n" using mset_eq_length [OF v(2)] by simp
  then show ?thesis using v l e by (intro exI [of _ vs]) (simp add: sort_r_def rd_def wr_def)
qed

lemma sort_eq:
  assumes h: "patch_holds z laz pa ws" "full pa" "0 < sc_size (p_schema pa)"
    and d: "pc_schema_get_dimensions_by_name (p_schema pa) names = Inr dims" "dims_of (p_schema pa) dims" "dims \<noteq> []"
    and n: "numbers dims ws" and q: "sorter qs"
  shows "\<exists>(p :: PCPATCH_UNCOMPRESSED) vs. pc_patch_sort qs z laz pa names = Inr (as_uncompressed p vs) \<and> pa_schema p = p_schema pa \<and>
    pa_bounds p = p_bounds pa \<and> own (pa_stats p) = own (p_stats pa) \<and> mset vs = mset ws \<and> sorted_wrt (\<lambda>x y. lexcmp dims x y \<le> 0) vs"
proof -
  let ?s = "p_schema pa" and ?n = "length ws"
  have ok: "points_ok ?s ws" "stats_ok ?s (p_stats pa)" using holds_points [OF h(1)] by blast+
  have s: "schema_ready ?s" "\<forall>w \<in> set ws. length w = sc_size ?s" "?n < 2 ^ 32" using ok(1) by (auto simp: points_ok_def widths_def)
  obtain p where p: "pc_patch_uncompress z laz pa = Inr p" "pa_schema p = ?s" "pa_bounds p = p_bounds pa" "own (pa_stats p) = own (p_stats pa)"
    "pa_npoints p = ?n" "pu_data p = concat ws" "pu_datasize p = ?n * sc_size ?s"
    using uncompress_full [OF h(1,2)] by blast
  obtain vs where v: "sort_r qs (concat ws) ?n (sc_size ?s) (pc_compare_dim dims) = Inr (concat vs)" "mset vs = mset ws"
    "sorted_wrt (\<lambda>x y. lexcmp dims x y \<le> 0) vs"
    using sort_r_eq [OF lexcmp_computes [OF ok(1) d(2,3)] lexcmp_orders [OF n] q s(2)] by blast
  have l: "length (concat ws) = ?n * sc_size ?s" "length vs = ?n"
    using length_concat_const [of ws "sc_size ?s"] s(2) mset_eq_length [OF v(2)] by simp_all
  have "stats_ok ?s (pa_stats p)" using ok(2) own_ok [of ?s "pa_stats p"] own_ok [of ?s "p_stats pa"] p(4) by simp
  note sp = clone_ok [OF this]
  have "pc_patch_uncompressed_sort qs p dims = Inr (as_uncompressed p vs)"
    using l p v(1) sp make_eq [OF s(1) h(3) s(3)]
    by (simp add: pc_patch_uncompressed_sort_def rd_def wr_def as_uncompressed_def)
  then show ?thesis using d(1) p(1-4) v(2,3) by (intro exI [of _ p] exI [of _ vs]) (simp add: pc_patch_sort_def)
qed

section \<open>What the test for sortedness tests\<close>

lemma sorted_loop_eq:
  assumes c: "computes compar c (set ws)" and l: "\<forall>w \<in> set ws. length w = n" "0 < n"
  shows "sorted_loop compar n (concat ws) (int (length ws * n) - int n) strict (i * n) =
    Inr (\<forall>k \<ge> i. Suc k < length ws \<longrightarrow> c (ws ! k) (ws ! Suc k) < strict)"
proof (induction "length ws - i" arbitrary: i)
  case 0
  then have "length ws * n \<le> i * n" by (intro mult_le_mono1) simp
  then have "int (length ws * n) - int n \<le> int (i * n)" by linarith
  then show ?case using 0 by (auto simp: sorted_loop.simps)
next
  case (Suc m)
  show ?case
  proof (cases "Suc i < length ws")
    case True
    have "i * n + n < length ws * n" using mult_strict_right_mono [OF True, of n] l(2) by simp
    then have lt: "\<not> int (length ws * n) - int n \<le> int (i * n)" by linarith
    have e: "elems n (length ws) (concat ws) = ws" using elems_concat [of ws n "[]"] l(1) by simp
    have lc: "length (concat ws) = length ws * n" using length_concat_const [of ws n] l(1) by simp
    have r: "rd (concat ws) (k * n) n = Inr (ws ! k)" if k: "k < length ws" for k
      using nth_elems [OF k, of n "concat ws"] elem_bound [OF k, of n] e lc by (simp add: rd_def)
    have cmp: "compar (ws ! i) (ws ! Suc i) = Inr (c (ws ! i) (ws ! Suc i))" using c True by (simp add: computes_def)
    have rs: "rd (concat ws) (i * n + n) n = Inr (ws ! Suc i)" using r [OF True] by (simp add: add.commute)
    have IH: "sorted_loop compar n (concat ws) (int (length ws * n) - int n) strict (i * n + n) =
        Inr (\<forall>k \<ge> Suc i. Suc k < length ws \<longrightarrow> c (ws ! k) (ws ! Suc k) < strict)"
      using Suc.hyps(1) [of "Suc i"] Suc.hyps(2) by (simp add: add.commute)
    have all: "(\<forall>k \<ge> i. Suc k < length ws \<longrightarrow> c (ws ! k) (ws ! Suc k) < strict) \<longleftrightarrow>
        c (ws ! i) (ws ! Suc i) < strict \<and> (\<forall>k \<ge> Suc i. Suc k < length ws \<longrightarrow> c (ws ! k) (ws ! Suc k) < strict)"
      using True by (auto simp: le_less [of i] Suc_le_eq)
    show ?thesis unfolding sorted_loop.simps [of _ _ _ _ _ "i * n"] if_not_P [OF lt] all
      using l(2) r [of i] True cmp rs IH by simp
  next
    case False
    then have "length ws = Suc i" using Suc.hyps(2) by simp
    then show ?thesis by (auto simp: sorted_loop.simps)
  qed
qed

lemma adjacent_sorted:
  assumes "numbers dims ws" "strict = 0 \<or> strict = 1"
  shows "(\<forall>k. Suc k < length ws \<longrightarrow> lexcmp dims (ws ! k) (ws ! Suc k) < strict) \<longleftrightarrow> sorted_wrt (\<lambda>x y. lexcmp dims x y < strict) ws"
proof -
  let ?P = "\<lambda>x y. x \<in> set ws \<and> y \<in> set ws \<and> lexcmp dims x y < strict"
  have "transp ?P"
  proof (rule transpI)
    fix x y u assume a: "?P x y" "?P y u"
    then show "?P x u" using lexcmp_trans [of dims x y u "strict - 1"] assms by (auto simp: numbers_def)
  qed
  then have "sorted_wrt ?P ws \<longleftrightarrow> (\<forall>k. Suc k < length ws \<longrightarrow> ?P (ws ! k) (ws ! Suc k))"
    by (rule sorted_wrt_iff_nth_Suc_transp)
  moreover have "sorted_wrt ?P ws \<longleftrightarrow> sorted_wrt (\<lambda>x y. lexcmp dims x y < strict) ws"
    by (auto simp: sorted_wrt_iff_nth_less)
  ultimately show ?thesis by simp
qed

lemma uncompressed_sorted_eq:
  assumes "points_ok (pa_schema p) ws" "dims_of (pa_schema p) dims" "dims \<noteq> []" "0 < sc_size (pa_schema p)" "numbers dims ws"
    and "strict = 0 \<or> strict = 1" "pu_data p = concat ws" "pu_datasize p = length ws * sc_size (pa_schema p)"
  shows "pc_patch_uncompressed_is_sorted p dims strict = Inr (sorted_wrt (\<lambda>x y. lexcmp dims x y < strict) ws)"
proof -
  have l: "\<forall>w \<in> set ws. length w = sc_size (pa_schema p)" using assms(1) by (simp add: points_ok_def widths_def)
  show ?thesis using sorted_loop_eq [OF lexcmp_computes [OF assms(1-3)] l assms(4), of strict 0] adjacent_sorted [OF assms(5,6)]
    by (simp add: pc_patch_uncompressed_is_sorted_def assms(7,8) Let_def)
qed

definition vcmp :: "nat \<Rightarrow> byte list \<Rightarrow> byte list \<Rightarrow> int" where
  "vcmp t a b = dcmp (dval t a) (dval t b)"

lemma compare_pcb_eq:
  assumes "known_interp (pb_interpretation pcb)" "length a = isize (pb_interpretation pcb)" "length b = isize (pb_interpretation pcb)"
  shows "pc_compare_pcb pcb a b = Inr (vcmp (pb_interpretation pcb) a b)"
  using double_from_rd [OF assms(1), of a 0 a] double_from_rd [OF assms(1), of b 0 b] assms(2,3)
  by (simp add: pc_compare_pcb_def vcmp_def rd_def)

lemma plain_sorted_eq:
  assumes "plain pcb"
  shows "pc_bytes_uncompressed_is_sorted pcb strict =
    Inr (\<forall>k. Suc k < pb_npoints pcb \<longrightarrow> vcmp (pb_interpretation pcb) (vals pcb ! k) (vals pcb ! Suc k) < strict)"
proof -
  let ?t = "pb_interpretation pcb"
  have t: "known_interp ?t" "pb_compression pcb = PC_DIM_NONE" "pb_size pcb = pb_npoints pcb * isize ?t"
    "length (pb_bytes pcb) = pb_size pcb" using assms by (simp_all add: plain_def)
  have l: "\<forall>w \<in> set (vals pcb). length w = isize ?t" using elems_lengths [of "pb_npoints pcb" "isize ?t" "pb_bytes pcb"] t(3,4) by (simp add: vals_def)
  then have c: "computes (pc_compare_pcb pcb) (vcmp ?t) (set (vals pcb))" using compare_pcb_eq [OF t(1)] by (simp add: computes_def)
  have e: "concat (vals pcb) = pb_bytes pcb" using concat_elems [of "pb_npoints pcb" "isize ?t" "pb_bytes pcb"] t(3,4) by (simp add: vals_def)
  show ?thesis using sorted_loop_eq [OF c l isize_pos [OF t(1)], of strict 0, unfolded e] t(2,3) plain_size [OF assms]
    by (simp add: pc_bytes_uncompressed_is_sorted_def)
qed

lemma vcmp_field:
  assumes "schema_ready s" "j < sc_ndims s"
  shows "vcmp (dim_interpretation (sdim s j)) (fld s a j) (fld s b j) = lexcmp [sdim s j] a b"
  by (auto simp: vcmp_def dcmp_def raw_def fld_def dest: d_lt_asym)

lemma sorted_owner [simp]:
  "pc_bytes_uncompressed_is_sorted (b\<lparr>pb_readonly := r\<rparr>) strict = pc_bytes_uncompressed_is_sorted b strict"
  by (simp add: pc_bytes_uncompressed_is_sorted_def pc_compare_pcb_def [abs_def] cong: if_cong)

lemma column_sorted_eq:
  assumes h: "dim_holds z d ws" and s: "pa_schema d = s" and j: "j < sc_ndims s" and c: "pb_compression (pd_bytes d ! j) \<noteq> PC_DIM_RLE"
    and n: "numbers [sdim s j] ws" and st: "strict = 0 \<or> strict = 1"
  shows "pc_patch_dimensional_is_sorted z d [sdim s j] strict = Inr (sorted_wrt (\<lambda>x y. lexcmp [sdim s j] x y < strict) ws)"
proof -
  let ?e = "pd_bytes d ! j" and ?a = "col_array s ws j"
  have ok: "points_ok s ws" "coded_arrays z s ws (pd_bytes d)" using h s by (simp_all add: dim_holds_def)
  have sr: "schema_ready s" using ok(1) by (simp add: points_ok_def)
  obtain k e r where k: "codec_fits z k ?a" "pc_bytes_encode z ?a k = Inr e" and b: "?e = e\<lparr>pb_readonly := r\<rparr>"
    by (rule codedE [OF ok(2) j])
  have l: "length (pd_bytes d) = sc_ndims s" using ok(2) by (simp add: coded_arrays_def)
  have plain: "plain ?a" "vals ?a = col s ws j" using col_array_plain [OF ok(1) j] by blast+
  have dec: "pc_bytes_decode z ?e = Inr ?a"
    using encoded_decode [OF plain(1) k] b by (simp add: col_array_def)
  have ke: "pb_compression ?e = k" using encode_fields [OF plain(1) k] b by simp
  have f: "pb_interpretation ?a = dim_interpretation (sdim s j)" "pb_npoints ?a = length ws" by (simp_all add: col_array_def)
  have "(\<forall>i. Suc i < length ws \<longrightarrow> vcmp (dim_interpretation (sdim s j)) (vals ?a ! i) (vals ?a ! Suc i) < strict) \<longleftrightarrow>
      (\<forall>i. Suc i < length ws \<longrightarrow> lexcmp [sdim s j] (ws ! i) (ws ! Suc i) < strict)"
    using vcmp_field [OF sr j] by (simp only: plain(2) col_def) simp
  then have u: "pc_bytes_uncompressed_is_sorted ?a strict = Inr (sorted_wrt (\<lambda>x y. lexcmp [sdim s j] x y < strict) ws)"
    using plain_sorted_eq [OF plain(1), of strict] adjacent_sorted [OF n st] by (simp only: f)
  have none: "?e = ?a\<lparr>pb_readonly := r\<rparr>" if "k = PC_DIM_NONE"
  proof -
    have "e = ?a" using encoded_none [OF plain(1)] k(2) that by (simp add: col_array_def)
    then show ?thesis by (simp only: b)
  qed
  from k(1) have "k = PC_DIM_NONE \<or> k = PC_DIM_SIGBITS \<or> k = PC_DIM_ZLIB" using c ke by (auto simp: codec_fits_def)
  then show ?thesis
    using j l dec u none ke ready_position [OF sr j]
    by (auto simp: pc_patch_dimensional_is_sorted_def rdx_def pc_bytes_sigbits_is_sorted_def pc_bytes_zlib_is_sorted_def)
qed

fun rle_column :: "patch \<Rightarrow> PCDIMENSION list \<Rightarrow> bool" where
  "rle_column (Dimensional d) [dim] = (pb_compression (pd_bytes d ! dim_position dim) = PC_DIM_RLE)"
| "rle_column _ _ = False"

lemma is_sorted_eq:
  assumes h: "patch_holds z laz pa ws" "full pa" "0 < sc_size (p_schema pa)"
    and d: "pc_schema_get_dimensions_by_name (p_schema pa) names = Inr dims" "dims_of (p_schema pa) dims" "dims \<noteq> []"
    and n: "numbers dims ws" and r: "\<not> rle_column pa dims"
  shows "pc_patch_is_sorted z laz pa names strict = Inr (sorted_wrt (\<lambda>x y. lexcmp dims x y < (if 0 < strict then 1 else 0)) ws)"
proof -
  let ?s = "p_schema pa" and ?st = "if 0 < strict then 1 else 0 :: int"
  have ok: "points_ok ?s ws" using holds_points [OF h(1)] by blast
  obtain p where p: "pc_patch_uncompress z laz pa = Inr p" "pa_schema p = ?s" "pu_data p = concat ws" "pu_datasize p = length ws * sc_size ?s"
    using uncompress_full [OF h(1,2)] by blast
  have u: "pc_patch_uncompressed_is_sorted p dims ?st = Inr (sorted_wrt (\<lambda>x y. lexcmp dims x y < ?st) ws)"
    by (rule uncompressed_sorted_eq) (use ok d(2,3) h(3) n p in simp_all)
  show ?thesis
  proof (cases pa)
    case (Dimensional q)
    show ?thesis
    proof (cases "\<exists>dim. dims = [dim]")
      case True
      then obtain j where j: "dims = [sdim ?s j]" "j < sc_ndims ?s" using d(2) by (auto simp: dims_of_def)
      have sr: "schema_ready ?s" using ok by (simp add: points_ok_def)
      have q: "dim_holds z q ws" "pa_schema q = ?s" "pb_compression (pd_bytes q ! j) \<noteq> PC_DIM_RLE"
        using h(1) r Dimensional ready_position [OF sr j(2)] by (simp_all add: j(1))
      show ?thesis using column_sorted_eq [OF q(1,2) j(2) q(3), of ?st] n d(1) Dimensional
        by (simp add: pc_patch_is_sorted_def j(1))
    next
      case False
      then obtain e f es where "dims = e # f # es" using d(3) by (cases dims; cases "tl dims") auto
      then show ?thesis using Dimensional d(1) p(1) u by (simp add: pc_patch_is_sorted_def pc_patch_dimensional_is_sorted_def pc_patch_uncompress_def)
    qed
  qed (use d(1) p(1) u in \<open>simp_all add: pc_patch_is_sorted_def pc_patch_lazperf_is_sorted_def pc_patch_uncompress_def\<close>)
qed

section \<open>Run-length arrays\<close>

lemma all_nat_split_0: "(\<forall>k :: nat. P k) \<longleftrightarrow> P 0 \<and> (\<forall>k. P (Suc k))"
  by (metis not0_implies_Suc)

lemma rle_sorted_loop_eq:
  assumes a: "rle_array pcb (pre @ rs)" "n = isize (pb_interpretation pcb)" "\<forall>(r, v) \<in> set rs. 0 < r"
  shows "rle_sorted_loop pcb n strict (length pre * (1 + n) + 1) (length pre * (1 + n) + 2 + n) =
    Inr (\<forall>k. k + 2 < length rs \<longrightarrow> vcmp (pb_interpretation pcb) (snd (rs ! k)) (snd (rs ! Suc k)) < strict \<and>
      (strict = 0 \<or> fst (rs ! k) = 1))"
  using a(1,3)
proof (induction rs arbitrary: pre)
  case Nil
  then have "pb_size pcb = length pre * (1 + n)" using a(2) length_rle_bytes [of n pre] by (simp add: rle_array_def)
  then show ?case by (simp add: rle_sorted_loop.simps)
next
  case (Cons rv rs)
  let ?t = "pb_interpretation pcb" and ?b = "length pre * (1 + n)"
  obtain r v where rv: "rv = (r, v)" by (cases rv)
  have sz: "pb_size pcb = (length pre + Suc (length rs)) * (1 + n)" and ok: "runs_ok n (pre @ rv # rs)" and t: "known_interp ?t"
    and bytes: "pb_bytes pcb = rle_bytes (pre @ rv # rs)"
    using Cons.prems(1) a(2) length_rle_bytes [of n "pre @ rv # rs"] by (simp_all add: rle_array_def)
  show ?case
  proof (cases "2 \<le> length rs")
    case False
    have "Suc (length rs) * (1 + n) \<le> 2 * (1 + n)" using False by (intro mult_le_mono1) simp
    moreover have "int (x + y) - int n \<le> int (x + 2 + n)" if "y \<le> 2 * (1 + n)" for x y :: nat using that by simp
    ultimately have "int (pb_size pcb) - int n \<le> int (?b + 2 + n)" unfolding sz add_mult_distrib by blast
    then show ?thesis using False by (simp add: rle_sorted_loop.simps)
  next
    case True
    then obtain r2 v2 qs where rs: "rs = (r2, v2) # qs" "qs \<noteq> []" by (cases rs; cases "tl rs") auto
    have "3 * (1 + n) \<le> Suc (length rs) * (1 + n)" using True by (intro mult_le_mono1) simp
    moreover have "\<not> int (x + y) - int n \<le> int (x + 2 + n)" if "3 * (1 + n) \<le> y" for x y :: nat using that by simp
    ultimately have lt: "\<not> int (pb_size pcb) - int n \<le> int (?b + 2 + n)" unfolding sz add_mult_distrib by blast
    have lens: "length v = n" "length v2 = n" "r < 256" "length (rle_bytes pre) = ?b"
      using ok length_rle_bytes [of n pre] by (auto simp: rv rs runs_ok_def)
    have b: "pb_bytes pcb = rle_bytes pre @ [word_of_nat r] @ v @ [word_of_nat r2] @ v2 @ rle_bytes qs"
      by (simp add: bytes rv rs rle_bytes_def)
    have run: "rdx (pb_bytes pcb) ?b = Inr (word_of_nat r)" using lens(4) by (simp add: b rdx_def nth_append)
    have "rd ((rle_bytes pre @ [word_of_nat r]) @ v @ ([word_of_nat r2] @ v2 @ rle_bytes qs)) (?b + 1) n = Inr v"
      by (rule rd_mid) (simp_all only: length_append lens list.size)
    then have v1: "rd (pb_bytes pcb) (?b + 1) n = Inr v" by (simp only: b append_assoc)
    have "rd ((rle_bytes pre @ [word_of_nat r] @ v @ [word_of_nat r2]) @ v2 @ rle_bytes qs) (?b + 2 + n) n = Inr v2"
      by (rule rd_mid) (simp_all only: length_append lens list.size)
    then have v2: "rd (pb_bytes pcb) (?b + 2 + n) n = Inr v2" by (simp only: b append_assoc)
    have cmp: "pc_compare_pcb pcb v v2 = Inr (vcmp ?t v v2)" using compare_pcb_eq [OF t] lens a(2) by simp
    have r0: "0 < r" using Cons.prems(2) rv by simp
    have IH: "rle_sorted_loop pcb n strict (?b + 2 + n) (?b + 2 + n + 1 + n) =
        Inr (\<forall>k. k + 2 < length rs \<longrightarrow> vcmp ?t (snd (rs ! k)) (snd (rs ! Suc k)) < strict \<and> (strict = 0 \<or> fst (rs ! k) = 1))"
      using Cons.IH [of "pre @ [rv]"] Cons.prems by (simp add: algebra_simps)
    have all: "(\<forall>k. k + 2 < length (rv # rs) \<longrightarrow> vcmp ?t (snd ((rv # rs) ! k)) (snd ((rv # rs) ! Suc k)) < strict \<and> (strict = 0 \<or> fst ((rv # rs) ! k) = 1)) \<longleftrightarrow>
        vcmp ?t v v2 < strict \<and> (strict = 0 \<or> r = 1) \<and>
        (\<forall>k. k + 2 < length rs \<longrightarrow> vcmp ?t (snd (rs ! k)) (snd (rs ! Suc k)) < strict \<and> (strict = 0 \<or> fst (rs ! k) = 1))"
      using True by (subst all_nat_split_0) (simp add: rv rs)
    show ?thesis unfolding rle_sorted_loop.simps [of _ _ _ _ "?b + 2 + n"] if_not_P [OF lt] all
      using run v1 v2 cmp IH r0 lens(3) by (auto simp: word_of_nat_eq_0_iff)
  qed
qed

section \<open>Properties\<close>

lemma dims_by_name:
  assumes "schema_ready s" "distinct_names s" "pc_schema_get_dimensions_by_name s names = Inr dims"
  shows "dims_of s dims" "length dims = length names"
proof -
  have m: "mapE (dimension_by_name s) names = Inr dims" using assms(3) by (simp add: pc_schema_get_dimensions_by_name_def)
  show l: "length dims = length names" using mapE_eq_Inr_length [OF m] .
  have "\<exists>j < sc_ndims s. dims ! i = sdim s j" if i: "i < length dims" for i
  proof -
    have "dimension_by_name s (names ! i) = Inr (dims ! i)" using mapE_eq_Inr_nth [OF m] i l by simp
    then have "pc_schema_get_dimension_by_name s (names ! i) = Some (dims ! i)"
      by (simp add: dimension_by_name_def split: option.splits if_splits)
    then obtain j where j: "pc_schema_get_dimension s j = Some (dims ! i)"
      using by_name_iff [OF _ assms(2)] assms(1) by (auto simp: schema_ready_def)
    then have "j < sc_ndims s" by (auto simp: pc_schema_get_dimension_def split: if_splits)
    then show ?thesis using j ready_dims(1) [OF assms(1), of j] by auto
  qed
  then show "dims_of s dims" by (auto simp: dims_of_def in_set_conv_nth)
qed

text \<open>
  C26: Sorting a patch of any representation by named dimensions gives the same points in the lexicographic
  order of these dimensions, in a patch with the same box and statistics; the sorting function is any that
  sorts by the comparison it is given.
\<close>

theorem sort_orders_points:
  assumes "patch_holds z laz pa ws" "full pa" "0 < sc_size (p_schema pa)" "distinct_names (p_schema pa)"
    and "pc_schema_get_dimensions_by_name (p_schema pa) names = Inr dims" "names \<noteq> []" "numbers dims ws" "sorter qs"
  shows "\<exists>ps. pc_patch_sort qs z laz pa names = Inr ps \<and> patch_ok ps \<and> pa_schema ps = p_schema pa \<and>
    mset (pts ps) = mset ws \<and> sorted_wrt (\<lambda>x y. lexcmp dims x y \<le> 0) (pts ps) \<and>
    pa_bounds ps = p_bounds pa \<and> pa_stats ps = own (p_stats pa)"
proof -
  have ok: "points_ok (p_schema pa) ws" using holds_points [OF assms(1)] by blast
  then have sr: "schema_ready (p_schema pa)" by (simp add: points_ok_def)
  note d = dims_by_name [OF sr assms(4,5)]
  have ne: "dims \<noteq> []" using d(2) assms(6) by auto
  obtain p :: PCPATCH_UNCOMPRESSED and vs where v: "pc_patch_sort qs z laz pa names = Inr (as_uncompressed p vs)" "pa_schema p = p_schema pa"
    "pa_bounds p = p_bounds pa" "own (pa_stats p) = own (p_stats pa)" "mset vs = mset ws" "sorted_wrt (\<lambda>x y. lexcmp dims x y \<le> 0) vs"
    using sort_eq [OF assms(1-3,5) d(1) ne assms(7,8)] by blast
  have "points_ok (pa_schema p) vs" using ok v(2) set_of_mset [OF v(5)] mset_eq_length [OF v(5)] by (simp add: points_ok_def widths_def)
  from as_uncompressed_ok [OF this] v show ?thesis by (simp add: as_uncompressed_def)
qed

lemma demo_by_name: "pc_schema_get_dimensions_by_name demo_xy [''Y''] = Inr [sdim demo_xy 1]"
proof -
  have "pc_schema_get_dimension_by_name demo_xy ''Y'' = Some (sdim demo_xy 1)"
    using by_name_iff [OF _ demo_xy_names, of "''Y''"] ready_dims(1) [OF demo_xy_ready(1), of 1] demo_xy_ready(1,4)
    by (auto simp: schema_ready_def str_eq_def demo_xy_facts demo_facts)
  moreover have "d_lt d_zero (dim_scale (sdim demo_xy 1))" by (simp add: demo_xy_facts demo_facts d_zero_def d_one_def fp_eval)
  ultimately show ?thesis
    by (simp add: pc_schema_get_dimensions_by_name_def dimension_by_name_def)
qed

definition demo_unsorted :: PCPATCH_UNCOMPRESSED where
  "demo_unsorted = patch_of demo_xy 0 1 [[6, 7, 8, 9, 10], [1, 2, 3, 4, 5]]"

lemma demo_unsorted_holds: "patch_holds z laz (Uncompressed demo_unsorted) [[6, 7, 8, 9, 10], [1, 2, 3, 4, 5]]"
  "pa_schema demo_unsorted = demo_xy" "full (Uncompressed demo_unsorted)"
proof -
  have "points_ok demo_xy [[6, 7, 8, 9, 10], [1, 2, 3, 4, 5]]" using demo_xy_ready by (simp add: points_ok_def widths_def)
  from patch_of_holds [OF this, where st = None and b = "extent demo_xy 0 1 [[6, 7, 8, 9, 10], [1, 2, 3, 4, 5]]" and ix = 0 and iy = 1]
  show "patch_holds z laz (Uncompressed demo_unsorted) [[6, 7, 8, 9, 10], [1, 2, 3, 4, 5]]"
    by (simp add: stats_ok_def demo_unsorted_def) (simp add: patch_of_def)
qed (simp_all add: demo_unsorted_def patch_of_def)

lemma demo_raw: "raw (sdim demo_xy 1) [1, 2, 3, 4, 5] = d_of_int 5" "raw (sdim demo_xy 1) [6, 7, 8, 9, 10] = d_of_int 10"
  by (simp_all add: raw_def dval_def demo_xy_facts demo_facts demo_sizes pc_double_from_ptr_def rd_def word_of_bytes_def)

lemma demo_numbers: "numbers [sdim demo_xy 1] [[6, 7, 8, 9, 10], [1, 2, 3, 4, 5]]"
  "lexcmp [sdim demo_xy 1] [6, 7, 8, 9, 10] [1, 2, 3, 4, 5] = 1" "lexcmp [sdim demo_xy 1] w w = 0"
proof -
  show "numbers [sdim demo_xy 1] [[6, 7, 8, 9, 10], [1, 2, 3, 4, 5]]"
    by (simp add: numbers_def demo_raw [unfolded One_nat_def] d_of_int_not_nan demo_exact)
  show "lexcmp [sdim demo_xy 1] [6, 7, 8, 9, 10] [1, 2, 3, 4, 5] = 1"
    by (simp add: demo_raw [unfolded One_nat_def] demo_exact)
qed simp

theorem sort_orders_points_witness:
  "\<exists>ps. pc_patch_sort sort_r_simple store_zlib None (Uncompressed demo_unsorted) [''Y''] = Inr ps \<and> pts ps = demo_pts"
proof -
  let ?a = "[6, 7, 8, 9, 10 :: byte]" and ?b = "[1, 2, 3, 4, 5 :: byte]"
  have size: "0 < sc_size (p_schema (Uncompressed demo_unsorted))" "distinct_names (p_schema (Uncompressed demo_unsorted))"
    "pc_schema_get_dimensions_by_name (p_schema (Uncompressed demo_unsorted)) [''Y''] = Inr [sdim demo_xy 1]"
    using demo_unsorted_holds(2) demo_xy_ready demo_xy_names demo_by_name by simp_all
  obtain ps where ps: "pc_patch_sort sort_r_simple store_zlib None (Uncompressed demo_unsorted) [''Y''] = Inr ps"
    "mset (pts ps) = mset [?a, ?b]" "sorted_wrt (\<lambda>x y. lexcmp [sdim demo_xy 1] x y \<le> 0) (pts ps)"
    using sort_orders_points [OF demo_unsorted_holds(1,3) size _ demo_numbers(1) simple.sorter_axioms, of store_zlib None] by blast
  have l: "length (pts ps) = 2" using mset_eq_length [OF ps(2)] by simp
  then obtain x y where xy: "pts ps = [x, y]" by (metis (no_types) One_nat_def Suc_1 length_0_conv length_Suc_conv)
  then have "{x, y} = {?a, ?b}" using set_of_mset [OF ps(2)] by simp
  then have "(x = ?a \<and> y = ?b) \<or> (x = ?b \<and> y = ?a)" by (simp only: doubleton_eq_iff)
  then have "pts ps = demo_pts" using ps(3) demo_numbers(2) xy
    by (elim disjE conjE) (simp_all add: demo_pts_def del: lexcmp.simps)
  then show ?thesis using ps(1) by blast
qed

text \<open>
  C39: With the flag \<open>strict\<close> the test is whether no point is less than the one before it, and without the
  flag whether every point is greater than the one before it: the flag has the opposite of its documented
  meaning. This holds for patches of any representation except for a single dimension in runs.
\<close>

theorem is_sorted_inverts_strict:
  assumes "patch_holds z laz pa ws" "full pa" "0 < sc_size (p_schema pa)" "distinct_names (p_schema pa)"
    and "pc_schema_get_dimensions_by_name (p_schema pa) names = Inr dims" "names \<noteq> []" "numbers dims ws"
    and "\<not> rle_column pa dims"
  shows "pc_patch_is_sorted z laz pa names 1 = Inr (sorted_wrt (\<lambda>x y. lexcmp dims x y \<le> 0) ws) \<and>
    pc_patch_is_sorted z laz pa names 0 = Inr (sorted_wrt (\<lambda>x y. lexcmp dims x y < 0) ws)"
proof -
  have "schema_ready (p_schema pa)" using holds_points [OF assms(1)] by (simp add: points_ok_def)
  note d = dims_by_name [OF this assms(4,5)]
  have ne: "dims \<noteq> []" using d(2) assms(6) by auto
  have "(lexcmp dims x y < 1) = (lexcmp dims x y \<le> 0)" for x y by arith
  then show ?thesis
    using is_sorted_eq [OF assms(1-3,5) d(1) ne assms(7,8), of 1] is_sorted_eq [OF assms(1-3,5) d(1) ne assms(7,8), of 0] by simp
qed

theorem is_sorted_inverts_strict_witness:
  "pc_patch_is_sorted store_zlib None (Uncompressed demo_unsorted) [''Y''] 1 = Inr False"
proof -
  have size: "0 < sc_size (p_schema (Uncompressed demo_unsorted))" "distinct_names (p_schema (Uncompressed demo_unsorted))"
    "pc_schema_get_dimensions_by_name (p_schema (Uncompressed demo_unsorted)) [''Y''] = Inr [sdim demo_xy 1]"
    using demo_unsorted_holds(2) demo_xy_ready demo_xy_names demo_by_name by simp_all
  show ?thesis
    using is_sorted_inverts_strict [OF demo_unsorted_holds(1,3) size _ demo_numbers(1), of store_zlib None] demo_numbers(2)
    by (simp del: lexcmp.simps)
qed

text \<open>
  The test of a run-length array compares neighbouring runs but never the last two, and with the flag
  it also wants single-element runs except in the last two: an array whose last run is out of order is
  found to be sorted.
\<close>

theorem run_length_test_skips_last:
  assumes "rle_array pcb rs" "\<forall>(r, v) \<in> set rs. 0 < r"
  shows "pc_bytes_run_length_is_sorted pcb strict =
    Inr (\<forall>k. k + 2 < length rs \<longrightarrow> vcmp (pb_interpretation pcb) (snd (rs ! k)) (snd (rs ! Suc k)) < strict \<and>
      (strict = 0 \<or> fst (rs ! k) = 1))"
proof -
  have t: "known_interp (pb_interpretation pcb)" "pb_compression pcb = PC_DIM_RLE" using assms(1) by (simp_all add: rle_array_def)
  show ?thesis using rle_sorted_loop_eq [of pcb "[]" rs "isize (pb_interpretation pcb)" strict] assms t
    by (simp add: pc_bytes_run_length_is_sorted_def add.commute)
qed

theorem run_length_test_skips_last_witness:
  "pc_bytes_run_length_is_sorted \<lparr>pb_size = 4, pb_npoints = 3, pb_interpretation = PC_UINT8, pb_compression = PC_DIM_RLE,
     pb_readonly = PC_FALSE, pb_bytes = [2, 9, 1, 4]\<rparr> 1 = Inr True"
proof -
  have "rle_array \<lparr>pb_size = 4, pb_npoints = 3, pb_interpretation = PC_UINT8, pb_compression = PC_DIM_RLE,
     pb_readonly = PC_FALSE, pb_bytes = [2, 9, 1, 4]\<rparr> [(2, [9]), (1, [4])]"
    by (simp add: rle_array_def known_interp_def)
  from run_length_test_skips_last [OF this] show ?thesis by simp
qed

text \<open>
  C38: Sorting a patch whose buffer has spare room writes behind the end of the new buffer: the whole buffer
  is copied, but the new one has room for the points only.
\<close>

theorem sort_overflows:
  assumes "patch_ok p" "pa_npoints p < pu_maxpoints p" "0 < sc_size (pa_schema p)"
    and "pc_schema_get_dimensions_by_name (pa_schema p) names = Inr dims"
  shows "pc_patch_sort qs z laz (Uncompressed p) names = Inl OutOfBounds"
proof -
  let ?s = "pa_schema p"
  have p: "schema_ready ?s" "pa_npoints p < 2 ^ 32" "pu_datasize p = pu_maxpoints p * sc_size ?s" "length (pu_data p) = pu_datasize p"
    using assms(1,2) by (simp_all add: patch_ok_def)
  have "\<not> pu_datasize p \<le> pa_npoints p * sc_size ?s" using assms(2,3) p(3) by simp
  then show ?thesis using make_eq [OF p(1) assms(3) p(2)] p(4) assms(4)
    by (simp add: pc_patch_sort_def pc_patch_uncompress_def pc_patch_uncompressed_sort_def rd_def wr_def)
qed

theorem sort_overflows_witness:
  "pc_patch_sort sort_r_simple store_zlib None
     (Uncompressed (demo_unsorted\<lparr>pu_maxpoints := 3, pu_datasize := 15, pu_data := pu_data demo_unsorted @ [0, 0, 0, 0, 0]\<rparr>)) [''Y''] =
   Inl OutOfBounds"
proof -
  let ?p = "demo_unsorted\<lparr>pu_maxpoints := 3, pu_datasize := 15, pu_data := pu_data demo_unsorted @ [0, 0, 0, 0, 0]\<rparr>"
  have p: "patch_ok ?p" using demo_xy_ready by (simp add: patch_ok_def demo_unsorted_def patch_of_def)
  show ?thesis
    by (rule sort_overflows [OF p]) (use demo_xy_ready demo_by_name in \<open>simp_all add: demo_unsorted_def patch_of_def\<close>)
qed

end
