(* ===== verification/PC_Patch_Reschema.thy ===== *)
theory PC_Patch_Reschema
  imports PC_Patch
begin

text \<open>
  Change of schema (lib/pc_patch.c: pc_patch_set_schema, pc_patch_transform), point by point. A patch of
  any representation becomes an uncompressed patch of the new schema whose dimensions are found in the old
  one by their names; pc_patch_set_schema copies the bytes of the fields (and the statistics), while
  pc_patch_transform stores the scaled values anew (and computes box and statistics from the points).
\<close>

section \<open>Change of schema, point by point\<close>

definition source :: "PCSCHEMA \<Rightarrow> PCSCHEMA \<Rightarrow> nat \<Rightarrow> PCDIMENSION option" where
  "source old new j = pc_schema_get_dimension_by_name old (the (dim_name (sdim new j)))"

definition bytes_or_none :: "byte list res \<Rightarrow> byte list" where
  "bytes_or_none r = (case r of Inl _ \<Rightarrow> [] | Inr b \<Rightarrow> b)"

definition stored_in :: "PCSCHEMA \<Rightarrow> nat \<Rightarrow> double \<Rightarrow> byte list res" where
  "stored_in s j v = stored (dim_interpretation (sdim s j)) (pc_value_unscale_unoffset v (sdim s j))"

text \<open>Every field is a copy of the old field of the same name, or the default.\<close>

definition set_field :: "PCSCHEMA \<Rightarrow> PCSCHEMA \<Rightarrow> double \<Rightarrow> byte list \<Rightarrow> nat \<Rightarrow> byte list" where
  "set_field old new def w j = (case source old new j of
       Some d \<Rightarrow> take (dim_size d) (drop (dim_byteoffset d) w)
     | None \<Rightarrow> bytes_or_none (stored_in new j def))"

definition set_point :: "PCSCHEMA \<Rightarrow> PCSCHEMA \<Rightarrow> double \<Rightarrow> byte list \<Rightarrow> byte list" where
  "set_point old new def w = concat (map (set_field old new def w) [0..<sc_ndims new])"

text \<open>Every field is the value of the old field of the same name, or the default, stored in the new dimension.\<close>

definition source_value :: "PCSCHEMA \<Rightarrow> PCSCHEMA \<Rightarrow> double \<Rightarrow> byte list \<Rightarrow> nat \<Rightarrow> double" where
  "source_value old new def w j = (case source old new j of
       Some d \<Rightarrow> pc_value_scale_offset (dval (dim_interpretation d) (take (dim_size d) (drop (dim_byteoffset d) w))) d
     | None \<Rightarrow> def)"

definition transform_point :: "PCSCHEMA \<Rightarrow> PCSCHEMA \<Rightarrow> double \<Rightarrow> byte list \<Rightarrow> byte list" where
  "transform_point old new def w =
     concat (map (\<lambda>j. bytes_or_none (stored_in new j (source_value old new def w j))) [0..<sc_ndims new])"

definition all_named :: "PCSCHEMA \<Rightarrow> bool" where
  "all_named s = (\<forall>j < sc_ndims s. dim_name (sdim s j) \<noteq> None)"

definition settable :: "PCSCHEMA \<Rightarrow> PCSCHEMA \<Rightarrow> double \<Rightarrow> bool" where
  "settable old new def = (\<forall>j < sc_ndims new. case source old new j of
       Some d \<Rightarrow> dim_interpretation d = dim_interpretation (sdim new j)
     | None \<Rightarrow> \<not> isl (stored_in new j def))"

definition transformable :: "PCSCHEMA \<Rightarrow> PCSCHEMA \<Rightarrow> double \<Rightarrow> byte list list \<Rightarrow> bool" where
  "transformable old new def ws = (\<forall>w \<in> set ws. \<forall>j < sc_ndims new. \<not> isl (stored_in new j (source_value old new def w j)))"

lemma bytes_of_stored: "\<not> isl (stored_in s j v) \<Longrightarrow> stored_in s j v = Inr (bytes_or_none (stored_in s j v))"
  by (cases "stored_in s j v") (simp_all add: bytes_or_none_def)

lemma stored_in_length: "schema_ready s \<Longrightarrow> j < sc_ndims s \<Longrightarrow> stored_in s j v = Inr b \<Longrightarrow> length b = dim_size (sdim s j)"
  using stored_length [OF ready_dims(3) [of s j]] ready_layout(1) [of s j] by (simp add: stored_in_def)

lemma old_dimension_eq: "schema_ready new \<Longrightarrow> all_named new \<Longrightarrow> j < sc_ndims new \<Longrightarrow> old_dimension old new j = Inr (source old new j)"
  using ready_dims(2) [of new j] by (auto simp: old_dimension_def source_def all_named_def)

lemma source_dim:
  assumes "schema_ready old" "distinct_names old" "source old new j = Some d"
  shows "\<exists>i < sc_ndims old. d = sdim old i"
proof -
  have "schema_wf old" using assms(1) by (simp add: schema_ready_def)
  then obtain i where "pc_schema_get_dimension old i = Some d"
    using by_name_iff [OF _ assms(2)] assms(3) unfolding source_def by blast
  moreover from this have "i < sc_ndims old" by (auto simp: pc_schema_get_dimension_def split: if_splits)
  ultimately show ?thesis using ready_dims(1) [OF assms(1)] by auto
qed

lemma set_field_length:
  assumes "schema_ready old" "distinct_names old" "schema_ready new" "settable old new def" "j < sc_ndims new" "length w = sc_size old"
  shows "length (set_field old new def w j) = dim_size (sdim new j)"
proof (cases "source old new j")
  case None
  then show ?thesis using assms(4,5) stored_in_length [OF assms(3,5)] bytes_of_stored [of new j def]
    by (fastforce simp: settable_def set_field_def)
next
  case (Some d)
  then obtain i where i: "i < sc_ndims old" "d = sdim old i" using source_dim [OF assms(1,2)] by blast
  then have "length (fld old w i) = dim_size d" using length_fld [OF assms(1)] assms(6) by simp
  moreover have "dim_interpretation d = dim_interpretation (sdim new j)" using assms(4,5) Some by (auto simp: settable_def)
  ultimately show ?thesis using Some i ready_layout(1) [OF assms(1)] ready_layout(1) [OF assms(3,5)]
    by (simp add: set_field_def fld_def)
qed

lemma default_steps:
  assumes s: "schema_ready new" "all_named new" "settable old new def" and d0: "point_ok d0" "pt_schema d0 = new"
  shows "\<exists>dpt. foldE (default_step old new def) [0..<sc_ndims new] (d0, []) = Inr (dpt, map (source old new) [0..<sc_ndims new]) \<and>
    point_ok dpt \<and> pt_schema dpt = new \<and>
    (\<forall>j < sc_ndims new. source old new j = None \<longrightarrow> fld new (pt_data dpt) j = bytes_or_none (stored_in new j def))"
proof -
  have "\<exists>dpt. foldE (default_step old new def) [0..<n] (d0, []) = Inr (dpt, map (source old new) [0..<n]) \<and>
    point_ok dpt \<and> pt_schema dpt = new \<and>
    (\<forall>j < n. source old new j = None \<longrightarrow> fld new (pt_data dpt) j = bytes_or_none (stored_in new j def))"
    if "n \<le> sc_ndims new" for n
    using that
  proof (induction n)
    case (Suc n)
    then obtain dpt where f: "foldE (default_step old new def) [0..<n] (d0, []) = Inr (dpt, map (source old new) [0..<n])"
      "point_ok dpt" "pt_schema dpt = new"
      "\<forall>j < n. source old new j = None \<longrightarrow> fld new (pt_data dpt) j = bytes_or_none (stored_in new j def)"
      by auto
    have n: "n < sc_ndims new" using Suc.prems by simp
    note od = old_dimension_eq [OF s(1,2) n, of old] and dd = ready_dims(2) [OF s(1) n]
    show ?case
    proof (cases "source old new n")
      case None
      then have b: "stored_in new n def = Inr (bytes_or_none (stored_in new n def))"
        using s(3) n by (intro bytes_of_stored) (auto simp: settable_def split: option.splits)
      let ?b = "bytes_or_none (stored_in new n def)"
      obtain d where d: "set_or_keep dpt (Some (sdim new n)) def = Inr (dpt\<lparr>pt_data := d\<rparr>)"
        "wr (pt_data dpt) (dim_byteoffset (sdim new n)) ?b = Inr d"
        using keep_stored [OF f(2,3) n b [unfolded stored_in_def]] unfolding stored_in_def by blast
      have set: "pc_point_set_double dpt (Some (sdim (pt_schema dpt) n)) def = Inr (Some (dpt\<lparr>pt_data := d\<rparr>))"
        using d(1) f(3) by (auto simp: set_or_keep_def bindE_eq_Inr pc_point_set_double_def Let_def)
      have nn: "n < sc_ndims (pt_schema dpt)" using n f(3) by simp
      note k = set_double_fields [OF f(2) nn set, unfolded f(3)]
      have "rd d (dim_byteoffset (sdim new n)) (dim_size (sdim new n)) = Inr ?b"
        using rd_wr_same [OF d(2)] stored_in_length [OF s(1) n b] by simp
      then have fn: "fld new d n = ?b" by (simp add: rd_eq_Inr fld_def)
      have st: "default_step old new def n (dpt, map (source old new) [0..<n]) = Inr (dpt\<lparr>pt_data := d\<rparr>, map (source old new) [0..<Suc n])"
        using od dd None d(1) by (simp add: default_step_def)
      have "fld new d j = bytes_or_none (stored_in new j def)" if "j < Suc n" "source old new j = None" for j
        using that f(4) k(3) [of j] n fn by (cases "j = n") auto
      then show ?thesis using k(1) f(3) by (simp only: foldE_upt_Suc f(1) bindE_Inr st) simp
    next
      case (Some d)
      then have "dim_interpretation (sdim new n) = dim_interpretation d" using s(3) n by (auto simp: settable_def)
      then have st: "default_step old new def n (dpt, map (source old new) [0..<n]) = Inr (dpt, map (source old new) [0..<Suc n])"
        using od dd Some by (simp add: default_step_def)
      show ?thesis using f(2-4) Some by (simp only: foldE_upt_Suc f(1) bindE_Inr st) (auto simp: less_Suc_eq)
    qed
  qed (use d0 in simp)
  from this [of "sc_ndims new"] show ?thesis by simp
qed

lemma point_set_eq:
  assumes s: "schema_ready old" "distinct_names old" "schema_ready new" "settable old new def"
    and d: "point_ok dpt" "pt_schema dpt = new"
      "\<forall>j < sc_ndims new. source old new j = None \<longrightarrow> fld new (pt_data dpt) j = bytes_or_none (stored_in new j def)"
    and w: "length w = sc_size old" and room: "off + sc_size new \<le> length buf"
  shows "pc_patch_point_set new (w @ rest) (map (source old new) [0..<sc_ndims new]) (pt_data dpt) off buf =
    wr buf off (set_point old new def w)"
  unfolding pc_patch_point_set_def set_point_def
proof (rule write_fields [OF s(3) _ _ room])
  fix j b
  assume j: "j < sc_ndims new"
  show "length (map (set_field old new def w) [0..<sc_ndims new] ! j) = dim_size (sdim new j)"
    using set_field_length [OF s j w] j by simp
  note dd = ready_dims(2) [OF s(3) j]
  show "point_set_field new (w @ rest) (map (source old new) [0..<sc_ndims new]) (pt_data dpt) off j b =
      wr b (off + dim_byteoffset (sdim new j)) (map (set_field old new def w) [0..<sc_ndims new] ! j)"
  proof (cases "source old new j")
    case None
    have "rd (pt_data dpt) (dim_byteoffset (sdim new j)) (dim_size (sdim new j)) = Inr (set_field old new def w j)"
      using point_read [of dpt j] d j None by (simp add: set_field_def)
    then show ?thesis using None dd j by (simp add: point_set_field_def rdx_def)
  next
    case (Some e)
    then obtain i where i: "i < sc_ndims old" "e = sdim old i" using source_dim [OF s(1,2)] by blast
    have "dim_interpretation e = dim_interpretation (sdim new j)" using s(4) j Some by (auto simp: settable_def)
    then have "dim_size e = dim_size (sdim new j)" using i ready_layout(1) [OF s(1)] ready_layout(1) [OF s(3) j] by simp
    moreover have "rd (w @ rest) (dim_byteoffset e) (dim_size e) = Inr (set_field old new def w j)"
      using ready_inside [OF s(1) i(1)] w Some i(2) by (simp add: rd_def set_field_def)
    ultimately show ?thesis using Some dd j by (simp add: point_set_field_def rdx_def)
  qed
qed simp

lemma set_point_length:
  assumes "schema_ready old" "distinct_names old" "schema_ready new" "settable old new def" "length w = sc_size old"
  shows "length (set_point old new def w) = sc_size new"
  unfolding set_point_def
  by (rule flds_concat(2) [OF assms(3)]) (use set_field_length [OF assms(1-4) _ assms(5)] in simp_all)

lemma set_points_eq:
  assumes s: "schema_ready old" "distinct_names old" "schema_ready new" "settable old new def"
    and d: "point_ok dpt" "pt_schema dpt = new"
      "\<forall>j < sc_ndims new. source old new j = None \<longrightarrow> fld new (pt_data dpt) j = bytes_or_none (stored_in new j def)"
    and p: "patch_holds z laz (Uncompressed p) ws" "pa_schema p = old"
  shows "foldE (\<lambda>i. pc_patch_point_set new (drop (i * sc_size old) (pu_data p)) (map (source old new) [0..<sc_ndims new])
      (pt_data dpt) (i * sc_size new)) [0..<length ws] (replicate (length ws * sc_size new) 0) =
    Inr (concat (map (set_point old new def) ws))"
proof -
  let ?f = "\<lambda>i. pc_patch_point_set new (drop (i * sc_size old) (pu_data p)) (map (source old new) [0..<sc_ndims new])
      (pt_data dpt) (i * sc_size new)"
  let ?vs = "map (set_point old new def) ws"
  have "foldE ?f [0..<length ?vs] (pcalloc (length ?vs * sc_size new)) = Inr (concat ?vs)"
  proof (rule fill_buffer)
    fix k and buf :: "byte list"
    assume k: "k < length ?vs" and l: "length buf = length ?vs * sc_size new"
    then obtain rest where r: "drop (k * sc_size old) (pu_data p) = ws ! k @ rest" "length (ws ! k) = sc_size old"
      using data_at [OF p(1), of k] p(2) by auto
    have "k * sc_size new + sc_size new \<le> length buf" using elem_bound [OF k, of "sc_size new"] l by simp
    then show "?f k buf = wr buf (k * sc_size new) (?vs ! k)"
      unfolding r(1) using point_set_eq [OF s d r(2)] k by simp
  next
    fix v assume "v \<in> set ?vs"
    then show "length v = sc_size new"
      using set_point_length [OF s] p by (auto simp: points_ok_def widths_def)
  qed
  then show ?thesis by (simp add: pcalloc_def)
qed


text \<open>The box that the code computes from the old box, with what it does to the greatest Y.\<close>

definition rescaled_box :: "PCDIMENSION \<Rightarrow> PCDIMENSION \<Rightarrow> PCDIMENSION \<Rightarrow> PCDIMENSION \<Rightarrow> PCBOUNDS \<Rightarrow> PCBOUNDS" where
  "rescaled_box ox nx oy ny b =
     (let x = (\<lambda>v. d_add (d_mul v (d_div (dim_scale nx) (dim_scale ox))) (d_sub (dim_offset nx) (dim_offset ox)));
          y = (\<lambda>v. d_add (d_mul v (d_div (dim_scale ny) (dim_scale oy))) (d_sub (dim_offset ny) (dim_offset oy)))
      in \<lparr>b_xmin = x (b_xmin b), b_xmax = y (b_ymax b), b_ymin = y (b_ymin b), b_ymax = minus_DBL_MAX\<rparr>)"

lemma set_schema_bounds_eq:
  assumes "schema_ready old" "schema_ready new" "has_xy old ox oy" "has_xy new ix iy"
  shows "set_schema_bounds old new b pc_bounds_init =
    Inr (rescaled_box (sdim old ox) (sdim new ix) (sdim old oy) (sdim new iy) b)"
  using assms ready_dims(2) [OF assms(1), of ox] ready_dims(2) [OF assms(1), of oy] ready_dims(2) [OF assms(2), of ix]
    ready_dims(2) [OF assms(2), of iy]
  by (simp add: set_schema_bounds_def has_xy_def rescaled_box_def Let_def pc_bounds_init_def)

definition set_stat :: "PCSCHEMA \<Rightarrow> PCSCHEMA \<Rightarrow> double \<Rightarrow> PCPOINT \<Rightarrow> PCPOINT" where
  "set_stat old new def pt = \<lparr>pt_readonly = PC_FALSE, pt_schema = new, pt_data = set_point old new def (pt_data pt)\<rparr>"

definition set_stats :: "PCSCHEMA \<Rightarrow> PCSCHEMA \<Rightarrow> double \<Rightarrow> PCSTATS \<Rightarrow> PCSTATS" where
  "set_stats old new def st = \<lparr>st_min = set_stat old new def (st_min st), st_max = set_stat old new def (st_max st),
     st_avg = set_stat old new def (st_avg st)\<rparr>"

definition stats_box :: "PCSCHEMA \<Rightarrow> nat \<Rightarrow> nat \<Rightarrow> PCSTATS \<Rightarrow> PCBOUNDS" where
  "stats_box s ix iy st = \<lparr>b_xmin = pval s ix (pt_data (st_min st)), b_xmax = pval s ix (pt_data (st_max st)),
     b_ymin = pval s iy (pt_data (st_min st)), b_ymax = pval s iy (pt_data (st_max st))\<rparr>"

lemma set_schema_stats_eq:
  assumes s: "schema_ready old" "distinct_names old" "schema_ready new" "settable old new def"
    and d: "point_ok dpt" "pt_schema dpt = new"
      "\<forall>j < sc_ndims new. source old new j = None \<longrightarrow> fld new (pt_data dpt) j = bytes_or_none (stored_in new j def)"
    and st: "stats_ok old (Some st)" and xy: "has_xy new ix iy"
  shows "set_schema_stats new (map (source old new) [0..<sc_ndims new]) (pt_data dpt) st p =
    Inr (p\<lparr>pa_stats := Some (set_stats old new def st), pa_bounds := stats_box new ix iy (set_stats old new def st)\<rparr>)"
proof -
  let ?od = "map (source old new) [0..<sc_ndims new]"
  let ?new = "\<lparr>pt_readonly = PC_FALSE, pt_schema = new, pt_data = pcalloc (sc_size new)\<rparr>"
  have set: "pc_patch_point_set new (pt_data pt) ?od (pt_data dpt) 0 (pcalloc (sc_size new)) = Inr (set_point old new def (pt_data pt))"
    if "length (pt_data pt) = sc_size old" for pt :: PCPOINT
    using point_set_eq [OF s d that, of 0 "pcalloc (sc_size new)" "[]"] set_point_length [OF s that] by (simp add: wr_def)
  have l: "length (pt_data (st_min st)) = sc_size old" "length (pt_data (st_max st)) = sc_size old" "length (pt_data (st_avg st)) = sc_size old"
    using st by (simp_all add: stats_ok_def)
  have get: "pc_point_get_x (set_stat old new def pt) = Inr (Some (pval new ix (set_point old new def (pt_data pt))))"
    "pc_point_get_y (set_stat old new def pt) = Inr (Some (pval new iy (set_point old new def (pt_data pt))))"
    if "length (pt_data pt) = sc_size old" for pt
    using get_xy [OF s(3) xy set_point_length [OF s that], of "set_stat old new def pt" "[]"] by (simp_all add: set_stat_def)
  have new: "?new\<lparr>pt_data := set_point old new def (pt_data pt)\<rparr> = set_stat old new def pt" for pt by (simp add: set_stat_def)
  show ?thesis
    unfolding set_schema_stats_def pc_stats_new_def Let_def PCSTATS.simps PCPOINT.simps set [OF l(1)] set [OF l(2)] set [OF l(3)]
      bindE_Inr get_into_def
    using get [OF l(1)] get [OF l(2)] by (simp add: set_stat_def set_stats_def stats_box_def)
qed

lemma set_schema_eq:
  assumes h: "patch_holds z laz pa ws" "p_schema pa = old"
    and s: "distinct_names old" "schema_ready new" "0 < sc_size new" "all_named new" "settable old new def"
    and xy: "has_xy old ox oy" "has_xy new ix iy"
  shows "pc_patch_set_schema z laz pa new def = Inr ((patch_of new ix iy (map (set_point old new def) ws))\<lparr>
    pa_bounds := (case p_stats pa of Some st \<Rightarrow> stats_box new ix iy (set_stats old new def st)
      | None \<Rightarrow> rescaled_box (sdim old ox) (sdim new ix) (sdim old oy) (sdim new iy) (p_bounds pa)),
    pa_stats := map_option (set_stats old new def) (p_stats pa)\<rparr>)"
proof -
  let ?vs = "map (set_point old new def) ws"
  have ok: "points_ok old ws" "p_npoints pa = length ws" "stats_ok old (p_stats pa)" using holds_points [OF h(1)] h(2) by auto
  have so: "schema_ready old" and n: "length ws < 2 ^ 32" using ok(1) by (simp_all add: points_ok_def)
  obtain p where p: "pc_patch_uncompress z laz pa = Inr p" "patch_holds z laz (Uncompressed p) ws" "pa_schema p = old"
    "pa_npoints p = length ws" using uncompress_ok [OF h(1)] h(2) by auto
  let ?d0 = "\<lparr>pt_readonly = PC_FALSE, pt_schema = new, pt_data = pcalloc (sc_size new)\<rparr>"
  have m: "pc_point_make (Some new) = Inr ?d0" using s(3) by (simp add: pc_point_make_def Let_def)
  obtain dpt where f: "foldE (default_step old new def) [0..<sc_ndims new] (?d0, []) = Inr (dpt, map (source old new) [0..<sc_ndims new])"
    and d: "point_ok dpt" "pt_schema dpt = new"
      "\<forall>j < sc_ndims new. source old new j = None \<longrightarrow> fld new (pt_data dpt) j = bytes_or_none (stored_in new j def)"
    using default_steps [OF s(2,4,5), of ?d0] s(2) by (auto simp: point_ok_def)
  note pts = set_points_eq [OF so s(1,2,5) d p(2,3)]
  let ?out = "\<lparr>pa_type = PC_NONE, pa_readonly = PC_FALSE, pa_schema = new, pa_npoints = length ws, pa_bounds = pc_bounds_init,
    pa_stats = None, pu_maxpoints = length ws, pu_datasize = length ws * sc_size new, pu_data = concat ?vs\<rparr>"
  have "pc_patch_set_schema z laz pa new def = (case p_stats pa of
       Some stats \<Rightarrow> set_schema_stats new (map (source old new) [0..<sc_ndims new]) (pt_data dpt) stats ?out
     | None \<Rightarrow> bindE (set_schema_bounds old new (p_bounds pa) pc_bounds_init) (\<lambda>b. Inr (?out\<lparr>pa_bounds := b\<rparr>)))"
    unfolding pc_patch_set_schema_def Let_def h(2) m bindE_Inr f prod.case p(1) ok(2) make_eq [OF s(2,3) n] PCPATCH_UNCOMPRESSED.simps pts
    using p(4) by (cases "p_stats pa") simp_all
  also have "\<dots> = Inr ((patch_of new ix iy ?vs)\<lparr>
    pa_bounds := (case p_stats pa of Some st \<Rightarrow> stats_box new ix iy (set_stats old new def st)
      | None \<Rightarrow> rescaled_box (sdim old ox) (sdim new ix) (sdim old oy) (sdim new iy) (p_bounds pa)),
    pa_stats := map_option (set_stats old new def) (p_stats pa)\<rparr>)"
  proof (cases "p_stats pa")
    case None
    then show ?thesis using set_schema_bounds_eq [OF so s(2) xy] by (simp add: patch_of_def)
  next
    case (Some st)
    then have "stats_ok old (Some st)" using ok(3) by simp
    from set_schema_stats_eq [OF so s(1,2,5) d this xy(2)] show ?thesis using Some by (simp add: patch_of_def)
  qed
  finally show ?thesis .
qed

lemma set_points_ok:
  assumes "points_ok old ws" "distinct_names old" "schema_ready new" "settable old new def"
  shows "points_ok new (map (set_point old new def) ws)"
  using assms set_point_length [OF _ assms(2-4)] by (auto simp: points_ok_def widths_def)

lemma set_stats_ok:
  assumes "schema_ready old" "distinct_names old" "schema_ready new" "settable old new def" "stats_ok old st"
  shows "stats_ok new (map_option (set_stats old new def) st)"
  using assms(5) set_point_length [OF assms(1-4)] by (cases st) (simp_all add: stats_ok_def set_stats_def set_stat_def)

section \<open>Transformation, point by point\<close>

lemma transform_step:
  assumes s: "schema_ready old" "distinct_names old" "schema_ready new" and w: "length w = sc_size old"
    and v: "\<not> isl (stored_in new j (source_value old new def w j))" and j: "j < sc_ndims new" and room: "off + sc_size new \<le> length buf"
  shows "transform_field old new (map (source old new) [0..<sc_ndims new]) def (w @ rest) off j buf =
    wr buf (off + dim_byteoffset (sdim new j)) (bytes_or_none (stored_in new j (source_value old new def w j)))"
proof -
  let ?v = "source_value old new def w j" and ?b = "bytes_or_none (stored_in new j (source_value old new def w j))"
  let ?pt = "\<lparr>pt_readonly = PC_TRUE, pt_schema = old, pt_data = w @ rest\<rparr>"
  have g: "get_into (pc_point_get_double ?pt (source old new j)) def = Inr ?v"
  proof (cases "source old new j")
    case None
    then show ?thesis by (simp add: get_into_def pc_point_get_double_def source_value_def)
  next
    case (Some d)
    then obtain i where i: "i < sc_ndims old" "d = sdim old i" using source_dim [OF s(1,2)] by blast
    then show ?thesis using get_pval [OF s(1) i(1) w, of ?pt rest] Some
      by (simp add: get_into_def source_value_def pval_def fld_def)
  qed
  obtain d where d: "pc_point_set_double \<lparr>pt_readonly = PC_TRUE, pt_schema = new, pt_data = drop off buf\<rparr> (Some (sdim new j)) ?v =
      Inr (Some \<lparr>pt_readonly = PC_TRUE, pt_schema = new, pt_data = d\<rparr>)"
    "Inr (take off buf @ d) = wr buf (off + dim_byteoffset (sdim new j)) ?b"
    using set_stored [OF s(3) j room bytes_of_stored [OF v, unfolded stored_in_def]] unfolding stored_in_def by blast
  show ?thesis using g j d ready_dims(2) [OF s(3) j]
    by (simp add: transform_field_def rdx_def set_or_keep_def)
qed

lemma transform_points_eq:
  assumes s: "schema_ready old" "distinct_names old" "schema_ready new" and t: "transformable old new def ws"
    and p: "patch_holds z laz (Uncompressed p) ws" "pa_schema p = old"
  shows "foldE (\<lambda>i buf. foldE (transform_field old new (map (source old new) [0..<sc_ndims new]) def
        (drop (i * sc_size old) (pu_data p)) (i * sc_size new)) [0..<sc_ndims new] buf) [0..<length ws]
      (replicate (length ws * sc_size new) 0) =
    Inr (concat (map (transform_point old new def) ws))"
    "widths new (map (transform_point old new def) ws)"
proof -
  let ?f = "\<lambda>i buf. foldE (transform_field old new (map (source old new) [0..<sc_ndims new]) def
        (drop (i * sc_size old) (pu_data p)) (i * sc_size new)) [0..<sc_ndims new] buf"
  let ?vs = "map (transform_point old new def) ws" and ?n = "sc_size new"
  let ?g = "\<lambda>w. map (\<lambda>j. bytes_or_none (stored_in new j (source_value old new def w j))) [0..<sc_ndims new]"
  have v: "\<not> isl (stored_in new j (source_value old new def w j))" if "w \<in> set ws" "j < sc_ndims new" for w j
    using t that by (simp add: transformable_def)
  have l: "length (?g w ! j) = dim_size (sdim new j)" if "w \<in> set ws" "j < sc_ndims new" for w j
    using stored_in_length [OF s(3) that(2) bytes_of_stored [OF v [OF that]]] that by simp
  have lt: "length (transform_point old new def w) = ?n" if "w \<in> set ws" for w
    unfolding transform_point_def by (rule flds_concat(2) [OF s(3)]) (use l [OF that] in simp_all)
  then show "widths new ?vs" by (auto simp: widths_def)
  have "foldE ?f [0..<length ?vs] (pcalloc (length ?vs * ?n)) = Inr (concat ?vs)"
  proof (rule fill_buffer)
    fix k and buf :: "byte list"
    assume k: "k < length ?vs" and lb: "length buf = length ?vs * ?n"
    then obtain rest where r: "drop (k * sc_size old) (pu_data p) = ws ! k @ rest" "length (ws ! k) = sc_size old"
      using data_at [OF p(1), of k] p(2) by auto
    have w: "ws ! k \<in> set ws" using k by simp
    have room: "k * ?n + ?n \<le> length buf" using elem_bound [OF k, of ?n] lb by simp
    have "?f k buf = wr buf (k * ?n) (concat (?g (ws ! k)))" unfolding r(1)
    proof (rule write_fields [OF s(3) _ l [OF w] room])
      fix j and b :: "byte list"
      assume "j < sc_ndims new" "length b = length buf"
      then show "transform_field old new (map (source old new) [0..<sc_ndims new]) def (ws ! k @ rest) (k * ?n) j b =
          wr b (k * ?n + dim_byteoffset (sdim new j)) (?g (ws ! k) ! j)"
        using transform_step [OF s r(2) v [OF w], of j "k * ?n" b rest] room by simp
    qed simp_all
    then show "?f k buf = wr buf (k * ?n) (?vs ! k)" using k by (simp add: transform_point_def)
  next
    fix v assume "v \<in> set ?vs"
    then show "length v = ?n" using lt by auto
  qed
  then show "foldE ?f [0..<length ws] (replicate (length ws * ?n) 0) = Inr (concat ?vs)" by (simp add: pcalloc_def)
qed

lemma transform_eq:
  assumes h: "patch_holds z laz pa ws" "p_schema pa = old"
    and s: "distinct_names old" "schema_ready new" "0 < sc_size new" "all_named new" "sc_srid old = sc_srid new"
    and t: "transformable old new def ws" and xy: "has_xy new ix iy" and d: "stats_defined new (map (transform_point old new def) ws)"
  shows "\<exists>st. stats_of new (map (transform_point old new def) ws) = Inr st \<and>
    pc_patch_transform z laz pa new def =
      Inr (Some ((patch_of new ix iy (map (transform_point old new def) ws))\<lparr>pa_stats := Some st\<rparr>)) \<and>
    patch_holds z laz (Uncompressed ((patch_of new ix iy (map (transform_point old new def) ws))\<lparr>pa_stats := Some st\<rparr>))
      (map (transform_point old new def) ws)"
proof -
  let ?vs = "map (transform_point old new def) ws"
  have ok: "points_ok old ws" "p_npoints pa = length ws" using holds_points [OF h(1)] h(2) by auto
  have so: "schema_ready old" and n: "length ws < 2 ^ 32" "length ws < 2 ^ 26" using ok(1) by (simp_all add: points_ok_def)
  obtain p where p: "pc_patch_uncompress z laz pa = Inr p" "patch_holds z laz (Uncompressed p) ws" "pa_schema p = old"
    "pa_npoints p = length ws" using uncompress_ok [OF h(1)] h(2) by auto
  note pts = transform_points_eq [OF so s(1,2) t p(2,3)]
  have okv: "points_ok new ?vs" using s(2) pts(2) n(2) by (simp add: points_ok_def)
  obtain st where st: "stats_of new ?vs = Inr st" "pc_patch_uncompressed_compute_stats (patch_of new ix iy ?vs) =
      Inr ((patch_of new ix iy ?vs)\<lparr>pa_stats := Some st\<rparr>)"
    "patch_holds z laz (Uncompressed ((patch_of new ix iy ?vs)\<lparr>pa_stats := Some st\<rparr>)) ?vs"
    using with_stats [OF okv d, where ix = ix and iy = iy and b = "extent new ix iy ?vs"] by (auto simp: patch_of_def)
  let ?p = "\<lparr>pa_type = PC_NONE, pa_readonly = PC_FALSE, pa_schema = new, pa_npoints = length ws, pa_bounds = pc_bounds_init,
      pa_stats = None, pu_maxpoints = length ws, pu_datasize = length ws * sc_size new, pu_data = concat ?vs\<rparr>"
  have pe: "?p = (patch_of new ix iy ?vs)\<lparr>pa_bounds := pc_bounds_init, pa_stats := None\<rparr>" by (simp add: patch_of_def)
  have "patch_ok ?p" "pts ?p = ?vs" unfolding pe
    using patch_of_holds [OF okv, where st = None and b = pc_bounds_init] by (simp_all add: stats_ok_def)
  from compute_extent_eq [OF this(1)] this(2) xy
  have e: "pc_patch_uncompressed_compute_extent ?p = Inr (patch_of new ix iy ?vs)" by (simp add: patch_of_def)
  have od: "mapE (old_dimension old new) [0..<sc_ndims new] = Inr (map (source old new) [0..<sc_ndims new])"
    by (rule mapE_Inr) (use old_dimension_eq [OF s(2,4)] in simp)
  have ns: "\<not> sc_srid old \<noteq> sc_srid new" using s(5) by simp
  have "pc_patch_transform z laz pa new def = Inr (Some ((patch_of new ix iy ?vs)\<lparr>pa_stats := Some st\<rparr>))"
    unfolding pc_patch_transform_def Let_def h(2) if_not_P [OF ns] od bindE_Inr p(1) ok(2) make_eq [OF s(2,3) n(1)]
      PCPATCH_UNCOMPRESSED.simps pts(1)
    using p(4) e st(2) by simp
  then show ?thesis using st by blast
qed

section \<open>Properties\<close>

text \<open>
  C9: A patch under a schema with the same types of its dimensions holds the same points with their fields
  rearranged by name, dimensions that the old schema does not have at the default value; its statistics are
  the old ones, rearranged in the same way, and give the box.
\<close>

theorem set_schema_maps_points:
  assumes "patch_holds z laz pa ws" "p_schema pa = old"
    and "distinct_names old" "schema_ready new" "0 < sc_size new" "all_named new" "settable old new def"
    and "has_xy old ox oy" "has_xy new ix iy"
  shows "\<exists>q. pc_patch_set_schema z laz pa new def = Inr q \<and> pa_schema q = new \<and>
    patch_holds z laz (Uncompressed q) (map (set_point old new def) ws) \<and>
    pa_stats q = map_option (set_stats old new def) (p_stats pa) \<and>
    (\<forall>st. p_stats pa = Some st \<longrightarrow> pa_bounds q = stats_box new ix iy (set_stats old new def st))"
proof -
  have ok: "points_ok old ws" "stats_ok old (p_stats pa)" "schema_ready old"
    using holds_points [OF assms(1)] assms(2) by (auto simp: points_ok_def)
  note v = set_points_ok [OF ok(1) assms(3,4,7)] and st = set_stats_ok [OF ok(3) assms(3,4,7) ok(2)]
  let ?b = "case p_stats pa of Some st \<Rightarrow> stats_box new ix iy (set_stats old new def st)
      | None \<Rightarrow> rescaled_box (sdim old ox) (sdim new ix) (sdim old oy) (sdim new iy) (p_bounds pa)"
  let ?q = "(patch_of new ix iy (map (set_point old new def) ws))\<lparr>pa_bounds := ?b,
      pa_stats := map_option (set_stats old new def) (p_stats pa)\<rparr>"
  have "pa_schema ?q = new" "pa_stats ?q = map_option (set_stats old new def) (p_stats pa)" "pa_bounds ?q = ?b"
    by (simp_all add: patch_of_def)
  moreover have "patch_holds z laz (Uncompressed ?q) (map (set_point old new def) ws)" by (rule patch_of_holds [OF v st])
  ultimately show ?thesis using set_schema_eq [OF assms]
    by (intro exI [of _ ?q] conjI) (assumption | simp)+
qed

lemma source_same:
  assumes "schema_ready s" "distinct_names s" "all_named s" and j: "j < sc_ndims s"
  shows "source s s j = Some (sdim s j)"
proof -
  have "schema_wf s" using assms(1) by (simp add: schema_ready_def)
  moreover obtain n where "dim_name (sdim s j) = Some n" using assms(3) j by (auto simp: all_named_def)
  moreover have "pc_schema_get_dimension s j = Some (sdim s j)" using ready_dims(1) [OF assms(1) j] .
  ultimately show ?thesis unfolding source_def using by_name_iff [OF _ assms(2)] by (fastforce simp: str_eq_def)
qed

lemma set_point_same:
  assumes "schema_ready s" "distinct_names s" "all_named s" "length w = sc_size s"
  shows "set_point s s def w = w"
proof -
  have "set_field s s def w j = fld s w j" if j: "j < sc_ndims s" for j
    using source_same [OF assms(1-3) j] by (simp add: set_field_def fld_def)
  then have "map (set_field s s def w) [0..<sc_ndims s] = flds s w" by (simp add: flds_def)
  then show ?thesis using concat_flds [OF assms(1,4)] by (simp add: set_point_def)
qed

lemma demo_reschema: "distinct_names demo_xy" "all_named demo_xy" "settable demo_xy demo_xy def"
  "j < 2 \<Longrightarrow> source demo_xy demo_xy j = Some (sdim demo_xy j)"
proof -
  show d: "distinct_names demo_xy" by (rule demo_xy_names)
  show n: "all_named demo_xy" by (auto simp: all_named_def demo_xy_facts less_2 demo_facts)
  have s: "source demo_xy demo_xy j = Some (sdim demo_xy j)" if "j < 2" for j
    using source_same [OF demo_xy_ready(1) d n] that by (simp add: demo_xy_ready)
  then show "j < 2 \<Longrightarrow> source demo_xy demo_xy j = Some (sdim demo_xy j)" .
  show "settable demo_xy demo_xy def" using s by (simp add: settable_def demo_xy_ready)
qed

theorem set_schema_maps_points_witness:
  "\<exists>q. pc_patch_set_schema store_zlib None (Uncompressed demo_patch) demo_xy d_zero = Inr q \<and> pts q = demo_pts"
proof -
  have "map (set_point demo_xy demo_xy d_zero) demo_pts = demo_pts"
    using set_point_same [OF demo_xy_ready(1) demo_reschema(1,2)] demo_xy_ready by (simp add: demo_pts_def)
  then show ?thesis
    using set_schema_maps_points [OF demo_holds(1) _ demo_reschema(1) demo_xy_ready(1) _ demo_reschema(2,3), of 0 1 0 1 store_zlib None d_zero]
      demo_holds(2) demo_xy_ready by auto
qed

text \<open>
  C37: Without statistics the box of the patch under the new schema is wrong: the greatest Y is never set and
  stays \<open>-DBL_MAX\<close>, and the greatest X is the rescaled greatest Y.
\<close>

theorem set_schema_box_wrong:
  assumes "patch_holds z laz pa ws" "p_schema pa = old" "p_stats pa = None"
    and "distinct_names old" "schema_ready new" "0 < sc_size new" "all_named new" "settable old new def"
    and "has_xy old ox oy" "has_xy new ix iy"
  shows "\<exists>q. pc_patch_set_schema z laz pa new def = Inr q \<and> b_ymax (pa_bounds q) = minus_DBL_MAX \<and>
    b_xmax (pa_bounds q) = d_add (d_mul (b_ymax (p_bounds pa)) (d_div (dim_scale (sdim new iy)) (dim_scale (sdim old oy))))
      (d_sub (dim_offset (sdim new iy)) (dim_offset (sdim old oy)))"
  using set_schema_eq [OF assms(1,2,4-10)] assms(3) by (simp add: rescaled_box_def Let_def)

theorem set_schema_box_wrong_witness:
  "\<exists>q. pc_patch_set_schema store_zlib None (Uncompressed demo_patch) demo_xy d_zero = Inr q \<and>
     b_ymax (pa_bounds q) \<noteq> b_ymax (pa_bounds demo_patch)"
proof -
  have "pa_stats demo_patch = None" by (simp add: demo_patch_def patch_of_def)
  moreover have "b_ymax (pa_bounds demo_patch) = d_of_int 10"
    by (simp add: demo_patch_def patch_of_def extent_def demo_pts_def pc_bounds_init_def bounds_add_def demo_stat_facts Let_def)
  moreover have "minus_DBL_MAX \<noteq> d_of_int 10" by (simp add: minus_DBL_MAX_def fp_eval)
  ultimately show ?thesis
    using set_schema_box_wrong [OF demo_holds(1) _ _ demo_reschema(1) demo_xy_ready(1) _ demo_reschema(2,3), of 0 1 0 1 store_zlib None d_zero]
      demo_holds(2) demo_xy_ready by auto
qed

lemma demo_bytes: "bytes_of_word (67305985::32 word) = [1,2,3,4]" "bytes_of_word (151521030::32 word) = [6,7,8,9]"
  "bytes_of_word (5::8 word) = [5]" "bytes_of_word (10::8 word) = [10]"
  using bytes_of_word_of_bytes [of "[1,2,3,4]", where 'a = 32] bytes_of_word_of_bytes [of "[6,7,8,9]", where 'a = 32]
    bytes_of_word_of_bytes [of "[5]", where 'a = 8] bytes_of_word_of_bytes [of "[10]", where 'a = 8]
  by (simp_all add: word_of_bytes_def word_size_def)
lemma demo_stored_values: "stored PC_INT32 (d_of_int 67305985) = Inr [1,2,3,4]" "stored PC_INT32 (d_of_int 151521030) = Inr [6,7,8,9]"
   "stored PC_UINT8 (d_of_int 5) = Inr [5]" "stored PC_UINT8 (d_of_int 10) = Inr [10]"
  by (simp_all add: stored_def lround_CLAMP demo_exact pc_double_to_ptr_def wr_def demo_bytes)

lemma demo_transform:
  "j < 2 \<Longrightarrow> w \<in> set demo_pts \<Longrightarrow> stored_in demo_xy j (source_value demo_xy demo_xy d_zero w j) = Inr (fld demo_xy w j)"
  "map (transform_point demo_xy demo_xy d_zero) demo_pts = demo_pts"
proof -
  show st: "stored_in demo_xy j (source_value demo_xy demo_xy d_zero w j) = Inr (fld demo_xy w j)" if "j < 2" "w \<in> set demo_pts" for j w
  proof -
    have "source_value demo_xy demo_xy d_zero w j = pval demo_xy j w"
      using demo_reschema(4) [OF that(1)] by (simp add: source_value_def pval_def fld_def)
    moreover have "stored_in demo_xy j (pval demo_xy j w) = Inr (fld demo_xy w j)"
      using that unfolding less_2 demo_pts_def
      by (auto simp: stored_in_def demo_stored_values demo_values [unfolded One_nat_def] demo_xy_facts demo_facts demo_sizes fld_def
          pc_value_unscale_unoffset_def unit_consts)
    ultimately show ?thesis by simp
  qed
  then have p: "transform_point demo_xy demo_xy d_zero w = concat (flds demo_xy w)" if "w \<in> set demo_pts" for w
    using that by (auto simp: transform_point_def bytes_or_none_def flds_def demo_xy_ready intro!: arg_cong [where f = concat])
  then show "map (transform_point demo_xy demo_xy d_zero) demo_pts = demo_pts"
    using concat_flds [OF demo_xy_ready(1)] demo_patch_ok(3) by (intro map_idI) (simp add: widths_def)
qed

text \<open>
  C8: The transformed patch holds the same points in the new schema: every dimension has the scaled value of
  the old dimension of its name, or the default, stored with the new type, scale and offset; box and
  statistics are those of the new points.
\<close>

theorem transform_maps_points:
  assumes "patch_holds z laz pa ws" "p_schema pa = old"
    and "distinct_names old" "schema_ready new" "0 < sc_size new" "all_named new" "sc_srid old = sc_srid new"
    and "transformable old new def ws" "has_xy new ix iy" "stats_defined new (map (transform_point old new def) ws)"
  shows "\<exists>q st. pc_patch_transform z laz pa new def = Inr (Some q) \<and> pa_schema q = new \<and>
    patch_holds z laz (Uncompressed q) (map (transform_point old new def) ws) \<and>
    pa_bounds q = extent new ix iy (map (transform_point old new def) ws) \<and>
    stats_of new (map (transform_point old new def) ws) = Inr st \<and> pa_stats q = Some st"
  using transform_eq [OF assms] by (fastforce simp: patch_of_def)

theorem transform_maps_points_witness:
  "\<exists>q. pc_patch_transform store_zlib None (Uncompressed demo_patch) demo_xy d_zero = Inr (Some q) \<and> pts q = demo_pts"
proof -
  have t: "transformable demo_xy demo_xy d_zero demo_pts"
    using demo_transform(1) by (simp add: transformable_def demo_xy_ready)
  then show ?thesis
    using transform_maps_points [OF demo_holds(1) _ demo_reschema(1) demo_xy_ready(1) _ demo_reschema(2) refl t, of 0 1 store_zlib None,
        unfolded demo_transform(2)] demo_holds(2) demo_xy_ready demo_stats_defined by auto
qed

end
