(* ===== verification/PC_Sql.thy ===== *)
theory PC_Sql
  imports PC_Schema_Cache PC_Filter PC_Sort PC_Patch_Reschema
begin

text \<open>
  The functions of SQL of pgsql/pc_inout.c and pgsql/pc_access.c that read points and patches: text and
  binary forms, values of points, and what the header and the statistics of a stored patch tell.

  A function takes the environment, its arguments and the session, and returns its value with the next
  session; an argument or a value that can be NULL is an option. An argument is the datum without
  compression, as \<open>PG_GETARG_SERPATCH_P\<close> gives it; the slices of the header that some functions ask for
  are a parameter.
\<close>

text \<open>A value of the type \<open>numeric\<close> of PostgreSQL is its datum.\<close>

type_synonym numeric = "byte list"

record env =
  e_db :: db
  e_pg :: pg
  e_zlib :: zlib
  e_laz :: "lazperf option"
  e_sort :: sorting
  e_slice :: "SERIALIZED_PATCH \<Rightarrow> nat \<Rightarrow> SERIALIZED_PATCH"
  e_numeric :: "double \<Rightarrow> numeric"

text \<open>
  The functions that return a value of a dimension convert it with \<open>float8_numeric\<close> of PostgreSQL, which need not
  keep all digits; it is the parameter \<open>e_numeric\<close>, and nothing is assumed of it.
\<close>

text \<open>A slice of a datum is the start of it: 4 bytes of length and \<open>n\<close> bytes.\<close>

definition slice_works :: "env \<Rightarrow> bool" where
  "slice_works E = (\<forall>sp n. sizeof_patch \<le> n \<longrightarrow> sp_pcid (e_slice E sp n) = sp_pcid sp \<and>
     sp_compression (e_slice E sp n) = sp_compression sp \<and> sp_npoints (e_slice E sp n) = sp_npoints sp \<and>
     sp_bounds (e_slice E sp n) = sp_bounds sp \<and> sp_data (e_slice E sp n) = take (4 + n - data_of_patch) (sp_data sp))"

text \<open>The functions dereference the schema they look up.\<close>

definition schema_of :: "env \<Rightarrow> nat \<Rightarrow> session \<Rightarrow> (PCSCHEMA \<times> session) res" where
  "schema_of E pcid ss = bindE (pc_schema_from_pcid (e_db E) pcid ss) (\<lambda>(schema, ss). case schema of
     None \<Rightarrow> Inl OutOfBounds | Some schema \<Rightarrow> Inr (schema, ss))"

section \<open>Text form\<close>

text \<open>The type modifier is missing when the argument is missing or null; \<open>str\<close> is the text without its zero.\<close>

definition pcpoint_in :: "env \<Rightarrow> byte list \<Rightarrow> int option \<Rightarrow> session \<Rightarrow> (SERIALIZED_POINT \<times> session) res" where
  "pcpoint_in E str typmod ss = (let pcid = (case typmod of None \<Rightarrow> 0 | Some t \<Rightarrow> pcid_from_typmod t) in
     if str = [] then Inl (PcError ''pcpoint parse error - empty string'')
     else if hd str = 48 then
       bindE (pc_point_from_hexwkb (e_db E) str (length str) ss) (\<lambda>(pt, ss).
       bindE (pcid_consistent (sc_pcid (pt_schema pt)) pcid) (\<lambda>_.
       bindE (pc_point_serialize (e_pg E) pt) (\<lambda>serpt. Inr (serpt, ss))))
     else Inl (PcError ''parse error - support for text format not yet implemented''))"

definition pcpoint_out :: "env \<Rightarrow> SERIALIZED_POINT \<Rightarrow> session \<Rightarrow> (byte list \<times> session) res" where
  "pcpoint_out E serpt ss = bindE (schema_of E (spt_pcid serpt) ss) (\<lambda>(schema, ss).
     bindE (pc_point_deserialize (e_pg E) serpt schema) (\<lambda>pcpt.
     bindE (pc_point_to_hexwkb pcpt) (\<lambda>hexwkb. Inr (hexwkb, ss))))"

definition pcpatch_in :: "env \<Rightarrow> byte list \<Rightarrow> int option \<Rightarrow> session \<Rightarrow> (SERIALIZED_PATCH \<times> session) res" where
  "pcpatch_in E str typmod ss = (let pcid = (case typmod of None \<Rightarrow> 0 | Some t \<Rightarrow> pcid_from_typmod t) in
     if str = [] then Inl (PcError ''pcpatch parse error - empty string'')
     else if hd str = 48 then
       bindE (pc_patch_from_hexwkb (e_db E) (e_zlib E) (e_laz E) str (length str) ss) (\<lambda>(patch, ss).
       bindE (pcid_consistent (sc_pcid (p_schema patch)) pcid) (\<lambda>_.
       bindE (pc_patch_serialize (e_pg E) (e_zlib E) (e_laz E) patch None) (\<lambda>(serpatch, _). Inr (serpatch, ss))))
     else Inl (PcError ''parse error - support for text format not yet implemented''))"

definition pcpatch_out :: "env \<Rightarrow> SERIALIZED_PATCH \<Rightarrow> session \<Rightarrow> (byte list \<times> session) res" where
  "pcpatch_out E serpatch ss = bindE (schema_of E (sp_pcid serpatch) ss) (\<lambda>(schema, ss).
     bindE (pc_patch_deserialize (e_pg E) serpatch schema) (\<lambda>patch.
     bindE (pc_patch_to_hexwkb (e_laz E) patch) (\<lambda>hexwkb. Inr (hexwkb, ss))))"

section \<open>Schemas and points\<close>

definition pcschema_is_valid :: "env \<Rightarrow> string \<Rightarrow> bool res" where
  "pcschema_is_valid E xml = bindE (pc_schema_from_xml (db_read_xml (e_db E)) xml) (\<lambda>schema. case schema of
     None \<Rightarrow> Inr False | Some schema \<Rightarrow> Inr (pc_schema_is_valid schema))"

definition pcschema_get_ndims :: "env \<Rightarrow> int \<Rightarrow> session \<Rightarrow> (int \<times> session) res" where
  "pcschema_get_ndims E pcid ss = bindE (pc_schema_from_pcid (e_db E) (u32 pcid) ss) (\<lambda>(schema, ss). case schema of
     None \<Rightarrow> Inl (PcError ''unable to load schema for pcid = %d'') | Some schema \<Rightarrow> Inr (s32 (int (sc_ndims schema)), ss))"

definition pcpoint_from_double_array :: "env \<Rightarrow> int \<Rightarrow> double ArrayType \<Rightarrow> session \<Rightarrow> (SERIALIZED_POINT \<times> session) res" where
  "pcpoint_from_double_array E pcid arrptr ss = bindE (pc_schema_from_pcid (e_db E) (u32 pcid) ss) (\<lambda>(schema, ss). case schema of
     None \<Rightarrow> Inl (PcError ''unable to load schema for pcid = %d'')
   | Some schema \<Rightarrow>
       if arr_elemtype arrptr \<noteq> FLOAT8OID then Inl (PcError ''array must be of float8[]'')
       else if length (arr_dims arrptr) \<noteq> 1 then Inl (PcError ''float8[] must have only one dimension'')
       else if arr_nullbitmap arrptr \<noteq> None then Inl (PcError ''float8[] must not have null elements'')
       else let nelems = arr_dims arrptr ! 0 in
         if u32 nelems \<noteq> sc_ndims schema \<or> 1 < arr_lbound arrptr ! 0
         then Inl (PcError ''array dimensions do not match schema dimensions of pcid = %d'')
         else bindE (pc_point_from_double_array (Some schema) (arr_items arrptr) 0 (u32 nelems)) (\<lambda>pt.
              bindE (pc_point_serialize (e_pg E) pt) (\<lambda>serpt. Inr (serpt, ss))))"

definition pcpoint_get_value :: "env \<Rightarrow> SERIALIZED_POINT \<Rightarrow> string \<Rightarrow> session \<Rightarrow> (numeric \<times> session) res" where
  "pcpoint_get_value E serpt name ss = bindE (schema_of E (spt_pcid serpt) ss) (\<lambda>(schema, ss).
     bindE (pc_point_deserialize (e_pg E) serpt schema) (\<lambda>pt.
     bindE (pc_point_get_double_by_name pt name) (\<lambda>r. case r of
         None \<Rightarrow> Inl (PcError ''dimension %s does not exist in schema'')
       | Some double_result \<Rightarrow> Inr (e_numeric E double_result, ss))))"

definition pcpoint_get_values :: "env \<Rightarrow> SERIALIZED_POINT \<Rightarrow> session \<Rightarrow> (double list \<times> session) res" where
  "pcpoint_get_values E serpt ss = bindE (schema_of E (spt_pcid serpt) ss) (\<lambda>(schema, ss).
     bindE (pc_point_deserialize (e_pg E) serpt schema) (\<lambda>pt.
     bindE (pc_point_to_double_array pt) (\<lambda>vals.
     bindE (mapE (rdx vals) [0..<sc_ndims schema]) (\<lambda>elems. Inr (elems, ss)))))"

definition pcpoint_size :: "env \<Rightarrow> SERIALIZED_POINT \<Rightarrow> int" where
  "pcpoint_size E serpt = s32 (int (pg_varsize (e_pg E) (spt_size serpt)))"

definition pcpoint_pcid :: "SERIALIZED_POINT \<Rightarrow> int" where
  "pcpoint_pcid serpt = s32 (int (spt_pcid serpt))"

section \<open>Binary form\<close>

text \<open>The contents of the new datum; the length word before it counts them.\<close>

definition bytea :: "byte list \<Rightarrow> nat \<Rightarrow> byte list res" where
  "bytea bytes bytes_size = rd bytes 0 bytes_size"

definition pcpoint_as_bytea :: "env \<Rightarrow> SERIALIZED_POINT \<Rightarrow> session \<Rightarrow> (byte list \<times> session) res" where
  "pcpoint_as_bytea E serpt ss = bindE (schema_of E (spt_pcid serpt) ss) (\<lambda>(schema, ss).
     bindE (pc_point_deserialize (e_pg E) serpt schema) (\<lambda>pt.
     bindE (pc_point_to_geometry_wkb pt) (\<lambda>r. case r of
         None \<Rightarrow> Inl Unspecified
       | Some (bytes, bytes_size) \<Rightarrow> bindE (bytea bytes bytes_size) (\<lambda>wkb. Inr (wkb, ss)))))"

definition pcpatch_envelope_as_bytea :: "env \<Rightarrow> SERIALIZED_PATCH \<Rightarrow> session \<Rightarrow> (byte list \<times> session) res" where
  "pcpatch_envelope_as_bytea E arg ss = (let serpatch = e_slice E arg sizeof_patch in
     bindE (schema_of E (sp_pcid serpatch) ss) (\<lambda>(schema, ss).
     bindE (pc_patch_to_geometry_wkb_envelope (e_pg E) serpatch schema) (\<lambda>(bytes, bytes_size).
     bindE (bytea bytes bytes_size) (\<lambda>wkb. Inr (wkb, ss)))))"

abbreviation (input) "stats_size_guess \<equiv> 400 :: nat"

definition pcpatch_bounding_diagonal_as_bytea :: "env \<Rightarrow> SERIALIZED_PATCH \<Rightarrow> session \<Rightarrow> (byte list \<times> session) res" where
  "pcpatch_bounding_diagonal_as_bytea E arg ss = (let serpatch = e_slice E arg (sizeof_patch + stats_size_guess) in
     bindE (schema_of E (sp_pcid serpatch) ss) (\<lambda>(schema, ss).
     bindE (if sc_zdim schema \<noteq> None \<or> sc_mdim schema \<noteq> None
            then let serpatch = (if stats_size_guess < pc_stats_size schema
                                 then e_slice E arg (sizeof_patch + pc_stats_size schema) else serpatch)
                 in pc_bounding_diagonal_wkb_from_stats (pc_patch_stats_deserialize schema (sp_data serpatch))
            else pc_bounding_diagonal_wkb_from_bounds (sp_bounds serpatch) schema) (\<lambda>(bytes, bytes_size).
     bindE (bytea bytes bytes_size) (\<lambda>wkb. Inr (wkb, ss)))))"

section \<open>What the header and the statistics tell\<close>

definition pcpatch_numpoints :: "env \<Rightarrow> SERIALIZED_PATCH \<Rightarrow> int" where
  "pcpatch_numpoints E arg = s32 (int (sp_npoints (e_slice E arg sizeof_patch)))"

definition pcpatch_pcid :: "env \<Rightarrow> SERIALIZED_PATCH \<Rightarrow> int" where
  "pcpatch_pcid E arg = s32 (int (sp_pcid (e_slice E arg sizeof_patch)))"

definition pcpatch_compression :: "env \<Rightarrow> SERIALIZED_PATCH \<Rightarrow> int" where
  "pcpatch_compression E arg = s32 (int (sp_compression (e_slice E arg sizeof_patch)))"

definition pcpatch_size :: "env \<Rightarrow> SERIALIZED_PATCH \<Rightarrow> int" where
  "pcpatch_size E serpa = s32 (int (pg_varsize (e_pg E) (sp_size serpa)))"

definition pcpatch_intersects :: "env \<Rightarrow> SERIALIZED_PATCH \<Rightarrow> SERIALIZED_PATCH \<Rightarrow> bool res" where
  "pcpatch_intersects E arg1 arg2 = (let serpa1 = e_slice E arg1 sizeof_patch; serpa2 = e_slice E arg2 sizeof_patch in
     if sp_pcid serpa1 \<noteq> sp_pcid serpa2 then Inl (PcError ''%s: pcid mismatch (%d != %d)'')
     else Inr (pc_bounds_intersects (sp_bounds serpa1) (sp_bounds serpa2)))"

text \<open>A point of the statistics, or with a name the value of a dimension in it.\<close>

definition pcpatch_get_stat ::
  "env \<Rightarrow> SERIALIZED_PATCH \<Rightarrow> int \<Rightarrow> string option \<Rightarrow> session \<Rightarrow> ((SERIALIZED_POINT + numeric) \<times> session) res" where
  "pcpatch_get_stat E arg statno dim_str ss = (let serpa = e_slice E arg (sizeof_patch + stats_size_guess) in
     bindE (schema_of E (sp_pcid serpa) ss) (\<lambda>(schema, ss).
     let serpa = (if stats_size_guess < pc_stats_size schema then e_slice E arg (sizeof_patch + pc_stats_size schema) else serpa);
         stats = pc_patch_stats_deserialize schema (sp_data serpa) in
     bindE (if statno = 0 then Inr (st_min stats) else if statno = 1 then Inr (st_max stats)
            else if statno = 2 then Inr (st_avg stats) else Inl (PcError ''stat number %d is not supported'')) (\<lambda>pt.
     case dim_str of
         None \<Rightarrow> bindE (pc_point_serialize (e_pg E) pt) (\<lambda>serpt. Inr (Inl serpt, ss))
       | Some dim_str \<Rightarrow> bindE (pc_point_get_double_by_name pt dim_str) (\<lambda>rv. case rv of
             None \<Rightarrow> Inl (PcError ''dimension %s does not exist in schema'')
           | Some double_result \<Rightarrow> Inr (Inr (e_numeric E double_result), ss)))))"

section \<open>Schemas of stored values\<close>

lemma load_pcid: "load_schema D pcid = Inr s \<Longrightarrow> sc_pcid s = pcid"
  unfolding load_schema_def pc_schema_from_pcid_uncached_def
  by (clarsimp simp: bindE_eq_Inr split: if_split_asm)
    (auto simp: bindE_eq_Inr split: spi.split_asm list.split_asm option.split_asm)

lemma schema_of_ok:
  assumes "reachable (e_db E) ss" "load_schema (e_db E) pcid = Inr s" "pcid \<noteq> 0"
  shows "\<exists>ss'. schema_of E pcid ss = Inr (s, ss') \<and> reachable (e_db E) ss'"
  using cached.look_ok [OF assms(1,3,2)] by (auto simp: schema_of_def)

text \<open>
  A datum of the schema number \<open>sc_pcid s\<close> that holds the points \<open>ws\<close> with the statistics \<open>st\<close>: its number
  leads to the schema, its header and statistics are these, and reading it gives the points.
\<close>

definition knows :: "env \<Rightarrow> PCSCHEMA \<Rightarrow> bool" where
  "knows E s = (load_schema (e_db E) (sc_pcid s) = Inr s \<and> 0 < sc_pcid s \<and> sc_pcid s < 2 ^ 32)"

definition stored_as :: "env \<Rightarrow> SERIALIZED_PATCH \<Rightarrow> PCSCHEMA \<Rightarrow> byte list list \<Rightarrow> PCBOUNDS \<Rightarrow> PCSTATS \<Rightarrow> bool" where
  "stored_as E sp s ws b st = (sp_pcid sp = sc_pcid s \<and> sp_npoints sp = length ws \<and> sp_bounds sp = b \<and>
     (\<exists>r. sp_data sp = stats_bytes st @ r) \<and> reads_as (e_pg E) (e_zlib E) (e_laz E) sp s ws b st)"

lemma stored_schema:
  assumes "reachable (e_db E) ss" "knows E s" "stored_as E sp s ws b st"
  shows "\<exists>ss'. schema_of E (sp_pcid sp) ss = Inr (s, ss') \<and> reachable (e_db E) ss'"
  using schema_of_ok [OF assms(1), of "sc_pcid s" s] assms(2,3) by (auto simp: knows_def stored_as_def)

lemma stored_patchE:
  assumes "stored_as E sp s ws b st"
  obtains q where "pc_patch_deserialize (e_pg E) sp s = Inr q" "patch_holds (e_zlib E) (e_laz E) q ws" "compact q" "typed q"
    "laz_genuine (e_laz E) q ws" "p_schema q = s" "p_bounds q = b" "own (p_stats q) = Some (own_stats st)"
    "patch_type q = sp_compression sp" "points_ok s ws" "schema_ready s"
proof -
  obtain q where q: "pc_patch_deserialize (e_pg E) sp s = Inr q" "patch_holds (e_zlib E) (e_laz E) q ws" "compact q" "typed q"
    "laz_genuine (e_laz E) q ws" "p_schema q = s" "p_bounds q = b" "own (p_stats q) = Some (own_stats st)"
    "patch_type q = sp_compression sp"
    using assms by (auto simp: stored_as_def reads_as_def)
  have "points_ok s ws" using holds_points(1) [OF q(2)] q(6) by simp
  then show ?thesis using that [OF q] by (simp add: points_ok_def)
qed

text \<open>Storing the result of a function.\<close>

lemma store_result:
  assumes "pg_works (e_pg E)" "storing (e_zlib E) (e_laz E) pds q ws" "p_stats q = Some st" "p_schema q = s"
  shows "\<exists>sp pds'. pc_patch_serialize (e_pg E) (e_zlib E) (e_laz E) q pds = Inr (sp, pds') \<and> sp_pcid sp = sc_pcid s \<and>
    sp_compression sp = sc_compression s \<and> sp_npoints sp = length ws \<and> sp_bounds sp = p_bounds q \<and>
    (data_of_patch + length (sp_data sp) < 2 ^ 30 \<longrightarrow> stored_as E sp s ws (p_bounds q) st)"
  using serialize_storing [OF assms(1-3)] assms(4) by (fastforce simp: stored_as_def)

section \<open>Text\<close>

lemma hex_one: "hex_pair 1 = [48, 49]"
  unfolding hex_pair_def by code_simp

lemma length_hex: "length (concat (map hex_pair bs)) = 2 * length bs"
  by (induction bs) (simp_all add: hex_pair_def)

lemma wkb_pcid: "pc_wkb_get_pcid (1 # bytes_of_word p @ r) = Inr p"
proof -
  have "rd ([1] @ bytes_of_word p @ r) 1 4 = Inr (bytes_of_word p)" by (rule rd_mid) (simp_all add: word_size_def)
  then show ?thesis by (simp add: pc_wkb_get_pcid_def rd_def word_of_bytes_of_word)
qed

text \<open>What the text of a binary form that starts with the byte order of the machine is read as.\<close>

lemma hex_text:
  assumes "str = concat (map hex_pair (1 # rest))"
  shows "str \<noteq> [] \<and> hd str = 48 \<and> pc_bytes_from_hexbytes str (length str) = Inr (1 # rest) \<and> length str div 2 = length (1 # rest)"
  using hex_roundtrip [of "1 # rest" "[]"] length_hex [of "1 # rest"] unfolding assms by (simp add: hex_one)

lemma serialized_point:
  assumes pg: "pg_works pg" and pt: "point_ok pt" "sizeof_point + sc_size (pt_schema pt) < 2 ^ 30" and s: "pc_point_serialize pg pt = Inr sp"
  shows "spt_pcid sp = sc_pcid (pt_schema pt)"
    "\<exists>junk. spt_data sp = pt_data pt @ junk \<and> pc_point_deserialize pg sp (pt_schema pt) =
      Inr \<lparr>pt_readonly = PC_TRUE, pt_schema = pt_schema pt, pt_data = pt_data pt @ junk\<rparr>"
proof -
  let ?n = "sc_size (pt_schema pt)" and ?j = "drop 8 (pg_palloc pg (11 + sc_size (pt_schema pt)))"
  have l: "length (pt_data pt) = ?n" "length ?j = 3 + ?n" using pg pt(1) by (simp_all add: point_ok_def pg_works_def)
  have r: "rd (pt_data pt) 0 ?n = Inr (pt_data pt)" using rd_all [of "pt_data pt"] l by simp
  have w: "wr ?j 0 (pt_data pt) = Inr (pt_data pt @ drop ?n ?j)" using wr_ok [of 0 "pt_data pt" ?j] l by simp
  have sp: "sp = \<lparr>spt_size = pg_set_varsize pg (11 + ?n), spt_pcid = sc_pcid (pt_schema pt), spt_data = pt_data pt @ drop ?n ?j\<rparr>"
    using s r w by (simp add: pc_point_serialize_def Let_def)
  then show "spt_pcid sp = sc_pcid (pt_schema pt)" by simp
  have v: "pg_varsize pg (spt_size sp) = 11 + ?n" using pg pt(2) by (simp add: pg_works_def sp)
  have "nat ((int (11 + ?n) + 1 - int sizeof_point) mod 2 ^ 64) = ?n" using pt(2) by simp
  then have "pc_point_deserialize pg sp (pt_schema pt) = pc_point_from_data (Some (pt_schema pt)) (spt_data sp)"
    by (simp only: pc_point_deserialize_def Let_def v) simp
  then show "\<exists>junk. spt_data sp = pt_data pt @ junk \<and> pc_point_deserialize pg sp (pt_schema pt) =
      Inr \<lparr>pt_readonly = PC_TRUE, pt_schema = pt_schema pt, pt_data = pt_data pt @ junk\<rparr>"
    by (simp add: sp pc_point_from_data_def)
qed

lemma point_serialize_total: "pg_works pg \<Longrightarrow> point_ok pt \<Longrightarrow> \<exists>sp. pc_point_serialize pg pt = Inr sp"
  by (simp add: pc_point_serialize_def Let_def rd_def wr_def point_ok_def pg_works_def)

lemma point_out_eq:
  assumes E: "pg_works (e_pg E)" "reachable (e_db E) ss" "knows E (pt_schema pt)"
    and pt: "point_ok pt" "sizeof_point + sc_size (pt_schema pt) < 2 ^ 30" "pc_point_serialize (e_pg E) pt = Inr sp"
  shows "\<exists>ss'. pcpoint_out E sp ss =
      Inr (concat (map hex_pair (1 # bytes_of_word (word_of_nat (sc_pcid (pt_schema pt)) :: 32 word) @ pt_data pt)) @ [0], ss') \<and>
    reachable (e_db E) ss'"
proof -
  let ?s = "pt_schema pt" and ?w = "1 # bytes_of_word (word_of_nat (sc_pcid (pt_schema pt)) :: 32 word) @ pt_data pt"
  obtain junk where j: "spt_pcid sp = sc_pcid ?s"
    "pc_point_deserialize (e_pg E) sp ?s = Inr \<lparr>pt_readonly = PC_TRUE, pt_schema = ?s, pt_data = pt_data pt @ junk\<rparr>"
    using serialized_point [OF E(1) pt] by blast
  obtain ss' where ss': "schema_of E (spt_pcid sp) ss = Inr (?s, ss')" "reachable (e_db E) ss'"
    using schema_of_ok [OF E(2), of "sc_pcid ?s" ?s] E(3) j(1) by (auto simp: knows_def)
  have l: "length (pt_data pt) = sc_size ?s" using pt(1) by (simp add: point_ok_def)
  have "pc_point_to_wkb \<lparr>pt_readonly = PC_TRUE, pt_schema = ?s, pt_data = pt_data pt @ junk\<rparr> = pc_point_to_wkb pt"
    using l by (simp add: pc_point_to_wkb_def rd_def)
  also have "\<dots> = Inr (?w, length ?w)" using point_to_wkb_eq [OF pt(1)] l by (simp add: word_size_def)
  finally show ?thesis using ss' j pc_hexbytes_from_bytes_eq [of ?w]
    by (simp add: pcpoint_out_def pc_point_to_hexwkb_def del: list.map concat.simps)
qed

lemma point_in_eq:
  assumes E: "pg_works (e_pg E)" "reachable (e_db E) ss" "knows E s" and d: "schema_ready s" "length data = sc_size s"
    and t: "\<forall>m. t = Some m \<longrightarrow> pcid_from_typmod m \<in> {0, sc_pcid s}"
  shows "\<exists>sp ss'. pcpoint_in E (concat (map hex_pair (1 # bytes_of_word (word_of_nat (sc_pcid s) :: 32 word) @ data))) t ss = Inr (sp, ss') \<and>
    reachable (e_db E) ss' \<and> pc_point_serialize (e_pg E) \<lparr>pt_readonly = PC_FALSE, pt_schema = s, pt_data = data\<rparr> = Inr sp"
proof -
  let ?w = "1 # bytes_of_word (word_of_nat (sc_pcid s) :: 32 word) @ data"
  let ?p = "\<lparr>pt_readonly = PC_FALSE, pt_schema = s, pt_data = data\<rparr>"
  have pc: "unat (word_of_nat (sc_pcid s) :: 32 word) = sc_pcid s" using E(3) by (simp add: knows_def unat_of_nat)
  obtain ss' where ss': "pc_schema_from_pcid (e_db E) (sc_pcid s) ss = Inr (Some s, ss')" "reachable (e_db E) ss'"
    using cached.look_ok [OF E(2), of "sc_pcid s" s] E(3) by (auto simp: knows_def)
  obtain sp where sp: "pc_point_serialize (e_pg E) ?p = Inr sp" using point_serialize_total [OF E(1), of ?p] d by (auto simp: point_ok_def)
  have f: "pc_point_from_wkb s ?w (length ?w) = Inr ?p" using point_from_wkb_eq [OF d, of _ 1] by (simp add: word_size_def)
  have c: "pcid_consistent (sc_pcid s) (case t of None \<Rightarrow> 0 | Some m \<Rightarrow> pcid_from_typmod m) = Inr ()"
    using t by (auto simp: pcid_consistent_def split: option.split)
  define str where "str = concat (map hex_pair ?w)"
  note h = hex_text [OF str_def]
  have "pc_point_from_hexwkb (e_db E) str (length str) ss = Inr (?p, ss')"
    unfolding pc_point_from_hexwkb_def using h wkb_pcid ss'(1) f pc by simp
  then have "pcpoint_in E str t ss = Inr (sp, ss')" using h c sp by (simp add: pcpoint_in_def)
  then show ?thesis unfolding str_def using ss'(2) sp by blast
qed

text \<open>A stored patch can be written in binary form.\<close>

lemma stored_wkb_ready:
  assumes "pc_patch_deserialize pg sp s = Inr q" "length (sp_data sp) < 2 ^ 30" "patch_holds z laz q ws" "typed q" "compact q"
  shows "wkb_ready q"
proof (cases q)
  case (Uncompressed p)
  then show ?thesis using assms by simp
next
  case (Dimensional d)
  then show ?thesis using assms(3,4) coded_storable [of "pa_schema d" ws z "pd_bytes d"] by (simp add: dim_holds_def)
next
  case (Lazperf d)
  then have "pc_patch_lazperf_deserialize sp s = Inr d"
    using assms(1) by (auto simp: pc_patch_deserialize_def bindE_eq_Inr split: if_splits)
  then obtain off n where "rd (sp_data sp) off n = Inr (lz_data d)" "lz_size d = n"
    by (auto simp: pc_patch_lazperf_deserialize_def Let_def bindE_eq_Inr)
  then have "lz_size d \<le> length (sp_data sp)" by (auto simp: rd_def split: if_splits)
  then show ?thesis using assms(2,4,5) Lazperf by simp
qed

lemma patch_out_in:
  assumes E: "pg_works (e_pg E)" "reachable (e_db E) ss" "knows E s"
    and p: "stored_as E sp s ws b st" "length (sp_data sp) < 2 ^ 30" "sp_compression sp = sc_compression s"
    and d: "has_xy s ix iy" "stats_defined s ws" and t: "\<forall>m. t = Some m \<longrightarrow> pcid_from_typmod m \<in> {0, sc_pcid s}"
  shows "\<exists>str ss1 sp' ss2 st'. pcpatch_out E sp ss = Inr (str @ [0], ss1) \<and> pcpatch_in E str t ss1 = Inr (sp', ss2) \<and>
    reachable (e_db E) ss2 \<and> sp_pcid sp' = sp_pcid sp \<and> sp_compression sp' = sp_compression sp \<and> sp_npoints sp' = length ws \<and>
    sp_bounds sp' = read_box (sp_compression sp) s ix iy ws \<and> stats_of s ws = Inr st' \<and>
    (data_of_patch + length (sp_data sp') < 2 ^ 30 \<longrightarrow> stored_as E sp' s ws (read_box (sp_compression sp) s ix iy ws) st')"
proof -
  obtain q where q: "pc_patch_deserialize (e_pg E) sp s = Inr q" "patch_holds (e_zlib E) (e_laz E) q ws" "compact q" "typed q"
    "laz_genuine (e_laz E) q ws" "p_schema q = s" "patch_type q = sp_compression sp"
    by (rule stored_patchE [OF p(1)]) blast
  have pcid: "sc_pcid s \<noteq> 0" "sc_pcid s < 2 ^ 32" "sp_pcid sp = sc_pcid s" using E(3) p(1) by (simp_all add: knows_def stored_as_def)
  have pc: "unat (word_of_nat (sc_pcid s) :: 32 word) = sc_pcid s" using pcid(2) by (simp add: unat_of_nat)
  obtain ss1 where ss1: "schema_of E (sp_pcid sp) ss = Inr (s, ss1)" "reachable (e_db E) ss1" using stored_schema [OF E(2,3) p(1)] by blast
  obtain ss2 where ss2: "pc_schema_from_pcid (e_db E) (sc_pcid s) ss1 = Inr (Some s, ss2)" "reachable (e_db E) ss2"
    using cached.look_ok [OF ss1(2), of "sc_pcid s" s] E(3) by (auto simp: knows_def)
  obtain wkb pa' st' rest where w: "pc_patch_to_wkb (e_laz E) q = Inr (wkb, length wkb)"
    "pc_patch_from_wkb (e_zlib E) (e_laz E) s wkb (length wkb) = Inr pa'" "patch_holds (e_zlib E) (e_laz E) pa' ws"
    "p_schema pa' = s" "patch_type pa' = patch_type q" "stats_of s ws = Inr st'" "p_stats pa' = Some st'" "typed pa'" "compact pa'"
    "p_bounds pa' = read_box (patch_type q) s ix iy ws" "laz_genuine (e_laz E) pa' ws" "wkb = 1 # bytes_of_word (word_of_nat (sc_pcid s) :: 32 word) @ rest"
    using wkb_read_back [OF q(2) stored_wkb_ready [OF q(1) p(2) q(2,4,3)] q(5,6) pcid(2) d] by blast
  have "storing (e_zlib E) (e_laz E) None pa' ws" using w q(7) p(3) by (simp add: storing_def)
  from store_result [OF E(1) this w(7,4)] obtain sp' pds where sp': "pc_patch_serialize (e_pg E) (e_zlib E) (e_laz E) pa' None = Inr (sp', pds)"
    "sp_pcid sp' = sc_pcid s" "sp_compression sp' = sc_compression s" "sp_npoints sp' = length ws" "sp_bounds sp' = p_bounds pa'"
    "data_of_patch + length (sp_data sp') < 2 ^ 30 \<longrightarrow> stored_as E sp' s ws (p_bounds pa') st'" by blast
  define str where "str = concat (map hex_pair wkb)"
  note h = hex_text [OF str_def [unfolded w(12)]]
  have out: "pcpatch_out E sp ss = Inr (str @ [0], ss1)"
    using ss1(1) q(1) w(1) pc_hexbytes_from_bytes_eq [of wkb] by (simp add: pcpatch_out_def pc_patch_to_hexwkb_def str_def)
  have nz: "(word_of_nat (sc_pcid s) :: 32 word) \<noteq> 0" using pc pcid(1) by (metis unat_0)
  have "pc_patch_from_hexwkb (e_db E) (e_zlib E) (e_laz E) str (length str) ss1 = Inr (pa', ss2)"
    unfolding pc_patch_from_hexwkb_def using h wkb_pcid nz ss2(1) w(2) pc unfolding w(12) by simp
  moreover have "pcid_consistent (sc_pcid s) (case t of None \<Rightarrow> 0 | Some m \<Rightarrow> pcid_from_typmod m) = Inr ()"
    using t by (auto simp: pcid_consistent_def split: option.split)
  ultimately have "pcpatch_in E str t ss1 = Inr (sp', ss2)" using h w(4) sp'(1) by (simp add: pcpatch_in_def)
  then show ?thesis using out ss2(2) sp' w(6,10) q(7) pcid(3) p(3) by auto
qed

section \<open>Statistics\<close>

lemma stored_stats:
  assumes "stored_as E sp s ws b st"
  shows "stats_ok s (Some st)"
proof -
  obtain q where q: "patch_holds (e_zlib E) (e_laz E) q ws" "own (p_stats q) = Some (own_stats st)" "p_schema q = s"
    by (rule stored_patchE [OF assms]) blast
  have "stats_ok s (own (p_stats q))" using holds_points(3) [OF q(1)] q(3) by simp
  then have "stats_ok s (own (Some st))" using q(2) by simp
  then show ?thesis by (simp only: own_ok)
qed

lemma stats_from_slice:
  assumes "slice_works E" "stored_as E sp s ws b st" "pc_stats_size s \<le> n"
  shows "pc_patch_stats_deserialize s (sp_data (e_slice E sp (sizeof_patch + n))) = read_stats st"
proof -
  obtain r where r: "sp_data sp = stats_bytes st @ r" using assms(2) by (auto simp: stored_as_def)
  have "sp_data (e_slice E sp (sizeof_patch + n)) = stats_bytes st @ take (12 + n - pc_stats_size s) r"
    using assms(1,3) length_stats_bytes [OF stored_stats [OF assms(2)]] by (simp add: slice_works_def r)
  then show ?thesis using stats_deserialize_eq [OF stored_stats [OF assms(2)]] by simp
qed

text \<open>The point of the statistics that a number selects.\<close>

definition stat_point :: "PCSTATS \<Rightarrow> int \<Rightarrow> PCPOINT" where
  "stat_point st n = (if n = 0 then st_min st else if n = 1 then st_max st else st_avg st)"

lemma get_stat_eq:
  assumes E: "slice_works E" "reachable (e_db E) ss" "knows E s" and p: "stored_as E sp s ws b st" and n: "n \<in> {0, 1, 2}"
  shows "\<exists>ss'. reachable (e_db E) ss' \<and> pcpatch_get_stat E sp n name ss = (case name of
      None \<Rightarrow> bindE (pc_point_serialize (e_pg E) (stat_point (read_stats st) n)) (\<lambda>serpt. Inr (Inl serpt, ss'))
    | Some name \<Rightarrow> bindE (pc_point_get_double_by_name (stat_point (read_stats st) n) name) (\<lambda>rv. case rv of
        None \<Rightarrow> Inl (PcError ''dimension %s does not exist in schema'') | Some d \<Rightarrow> Inr (Inr (e_numeric E d), ss')))"
proof -
  have "sp_pcid (e_slice E sp (sizeof_patch + 400)) = sp_pcid sp" using E(1) by (simp add: slice_works_def)
  moreover obtain ss' where "schema_of E (sp_pcid sp) ss = Inr (s, ss')" "reachable (e_db E) ss'" using stored_schema [OF E(2,3) p] by blast
  moreover have "pc_patch_stats_deserialize s (sp_data (if 400 < pc_stats_size s then e_slice E sp (sizeof_patch + pc_stats_size s)
      else e_slice E sp (sizeof_patch + 400))) = read_stats st"
    using stats_from_slice [OF E(1) p, of 400] stats_from_slice [OF E(1) p, of "pc_stats_size s"] by simp
  ultimately show ?thesis using n
    unfolding pcpatch_get_stat_def Let_def by (intro exI [of _ ss']) (auto simp: stat_point_def split: option.split)
qed

section \<open>An example\<close>

definition demo_env :: env where
  "demo_env = \<lparr>e_db = demo_db, e_pg = pg_little, e_zlib = store_zlib, e_laz = None, e_sort = sort_r_simple,
     e_slice = (\<lambda>sp n. sp\<lparr>sp_data := take (4 + n - data_of_patch) (sp_data sp)\<rparr>), e_numeric = bytes_of_word\<rparr>"

abbreviation (input) "demo_session \<equiv> \<lparr>ss_constants = None, fn_extra = None\<rparr>"

definition demo_sql_stats :: PCSTATS where
  "demo_sql_stats = (let p = (\<lambda>d. \<lparr>pt_readonly = PC_FALSE, pt_schema = demo_sql 7, pt_data = d\<rparr>)
     in \<lparr>st_min = p [1, 2, 3, 4, 5], st_max = p [6, 7, 8, 9, 10], st_avg = p [1, 2, 3, 4, 8]\<rparr>)"

definition demo_sql_patch :: PCPATCH_DIMENSIONAL where
  "demo_sql_patch = \<lparr>pa_type = PC_DIMENSIONAL, pa_readonly = PC_FALSE, pa_schema = demo_sql 7, pa_npoints = 2,
     pa_bounds = extent (demo_sql 7) 0 1 demo_pts, pa_stats = Some demo_sql_stats, pd_bytes = plain_arrays (demo_sql 7) demo_pts\<rparr>"

definition demo_datum :: SERIALIZED_PATCH where
  "demo_datum = image pg_little (Dimensional demo_sql_patch) demo_sql_stats"

lemma demo_env:
  "slice_works demo_env" "pg_works (e_pg demo_env)" "reachable (e_db demo_env) demo_session" "knows demo_env (demo_sql 7)"
  using pg_little_works reachable.start demo_sql(1,2) [of 7] by (simp_all add: demo_env_def slice_works_def knows_def)

lemma demo_sql_points: "points_ok (demo_sql 7) demo_pts" "stats_ok (demo_sql 7) (Some demo_sql_stats)"
  using demo_sql(6,7) by (simp_all add: points_ok_def demo_pts_def widths_def stats_ok_def demo_sql_stats_def Let_def)

lemma demo_sql_sdim: "sdim (demo_sql 7) 0 = sdim demo_schema 0" "sdim (demo_sql 7) (Suc 0) = sdim demo_schema (Suc 0)"
  using demo_sql(18) [of 0 7] demo_sql(18) [of 1 7] demo_xy_ready(5,6) by simp_all

lemma demo_datum:
  "stored_as demo_env demo_datum (demo_sql 7) demo_pts (extent (demo_sql 7) 0 1 demo_pts) demo_sql_stats"
  "length (sp_data demo_datum) < 2 ^ 30" "sp_compression demo_datum = sc_compression (demo_sql 7)" "sp_pcid demo_datum = 7"
  "unat (sp_size demo_datum) = 4 * (data_of_patch + length (sp_data demo_datum))"
proof -
  let ?s = "demo_sql 7" and ?pa = "Dimensional demo_sql_patch"
  note ok = demo_sql_points
  have h: "patch_holds store_zlib None ?pa demo_pts"
    using ok plain_coded [OF ok(1)] by (simp add: dim_holds_def demo_sql_patch_def) (simp add: demo_pts_def)
  have f: "p_stats ?pa = Some demo_sql_stats" "p_schema ?pa = ?s" "typed ?pa" "compact ?pa" "patch_type ?pa = sc_compression ?s"
    by (simp_all add: demo_sql_patch_def demo_sql(4))
  have st: "storing store_zlib None None ?pa demo_pts" using h f by (simp add: storing_def)
  have e: "pc_patch_serialize pg_little store_zlib None ?pa None = Inr (demo_datum, None)"
    unfolding pc_patch_serialize_def demo_datum_def using serialize_image [OF pg_little_works h f(1,4)] f by simp
  have l: "length (serial (col_array ?s demo_pts j)) = 5 + 2 * dim_size (sdim ?s j)" if "j < 2" for j
  proof -
    have "length (concat (col ?s demo_pts j)) = length demo_pts * dim_size (sdim ?s j)"
      using col_array_plain(1) [OF ok(1), of j] that demo_sql(5) by (simp add: plain_def) (simp add: col_array_def)
    then show ?thesis by (simp add: serial_def col_array_def word_size_def) (simp add: demo_pts_def)
  qed
  have "[0..<2] = [0, Suc 0]" by (simp add: upt_conv_Cons)
  then have "length (body ?pa) = 20"
    using l [of 0] l [of "Suc 0"] by (simp add: demo_sql_patch_def plain_arrays_def demo_sql(5) demo_sql_sdim demo_sizes)
  then have sz: "data_of_patch + length (sp_data demo_datum) = 98"
    using image_size [of ?pa demo_sql_stats pg_little] ok(2) f(2) pg_little_works
    by (simp add: demo_datum_def stored_size_def common_size_def pg_little_def pc_stats_size_def demo_sql(6))
  then show "length (sp_data demo_datum) < 2 ^ 30" by simp
  have "sp_size demo_datum = pg_set_varsize pg_little (stored_size pg_little ?s (body ?pa))"
    by (simp add: demo_datum_def stored_patch_def stored_size_def demo_sql_patch_def)
  moreover have "stored_size pg_little ?s (body ?pa) = data_of_patch + length (sp_data demo_datum)"
    using image_size [of ?pa demo_sql_stats pg_little] ok(2) f(2) pg_little_works by (simp add: demo_datum_def)
  ultimately have "sp_size demo_datum = word_of_nat (4 * (data_of_patch + length (sp_data demo_datum)))"
    by (simp only: pg_little_def pg.select_convs)
  then show "unat (sp_size demo_datum) = 4 * (data_of_patch + length (sp_data demo_datum))"
    unfolding sz by (simp add: unat_of_nat)
  have v: "e_pg demo_env = pg_little" "e_zlib demo_env = store_zlib" "e_laz demo_env = None" by (simp_all add: demo_env_def)
  have b: "p_bounds ?pa = extent ?s 0 1 demo_pts" by (simp add: demo_sql_patch_def)
  from store_result [OF demo_env(2), of None ?pa demo_pts demo_sql_stats ?s] st f(1,2)
  obtain sp pds where r: "pc_patch_serialize pg_little store_zlib None ?pa None = Inr (sp, pds)" "sp_pcid sp = sc_pcid ?s"
    "sp_compression sp = sc_compression ?s"
    "data_of_patch + length (sp_data sp) < 2 ^ 30 \<longrightarrow> stored_as demo_env sp ?s demo_pts (p_bounds ?pa) demo_sql_stats"
    unfolding v by blast
  have "sp = demo_datum" using e r(1) by simp
  then show "sp_compression demo_datum = sc_compression ?s" "sp_pcid demo_datum = 7"
    "stored_as demo_env demo_datum ?s demo_pts (extent ?s 0 1 demo_pts) demo_sql_stats"
    using r(2-4) sz demo_sql(2) [of 7] unfolding b by simp_all
qed

section \<open>Properties\<close>

text \<open>
  C13: A stored patch, printed by the output function of its type and read by the input function, in a column
  without modifier or with that of its schema, becomes a stored patch of the same schema and compression
  with the same points. Its statistics and its box are not those that were stored: they are computed anew from
  the points, the box of a patch by dimension from the extremes of its arrays; that of a LAZ patch is zero.
\<close>

theorem patch_text_roundtrip:
  assumes "pg_works (e_pg E)" "reachable (e_db E) ss" "knows E s" "stored_as E sp s ws b st" "length (sp_data sp) < 2 ^ 30"
    and "sp_compression sp = sc_compression s" "has_xy s ix iy" "stats_defined s ws"
    and "\<forall>m. typmod = Some m \<longrightarrow> pcid_from_typmod m \<in> {0, sc_pcid s}"
  shows "\<exists>str ss1 sp' ss2 st'. pcpatch_out E sp ss = Inr (str @ [0], ss1) \<and> pcpatch_in E str typmod ss1 = Inr (sp', ss2) \<and>
    sp_pcid sp' = sp_pcid sp \<and> sp_compression sp' = sp_compression sp \<and> sp_npoints sp' = length ws \<and>
    sp_bounds sp' = read_box (sp_compression sp) s ix iy ws \<and> stats_of s ws = Inr st' \<and>
    (data_of_patch + length (sp_data sp') < 2 ^ 30 \<longrightarrow> stored_as E sp' s ws (read_box (sp_compression sp) s ix iy ws) st')"
  using patch_out_in [OF assms] by blast

theorem patch_text_roundtrip_witness:
  "\<exists>str ss sp ss'. pcpatch_out demo_env demo_datum demo_session = Inr (str @ [0], ss) \<and>
     pcpatch_in demo_env str (Some 7) ss = Inr (sp, ss') \<and> sp_pcid sp = 7 \<and> sp_npoints sp = 2"
proof -
  have v: "pval (demo_sql 7) j w = pval demo_xy j w" if "j < 2" for j w using demo_sql(18) [OF that, of 7] by (simp add: pval_def fld_def)
  have "stats_defined (demo_sql 7) demo_pts"
    using demo_stats_defined demo_sql(18) [where p = 7] demo_sql(5) [of 7] demo_xy_ready(4) v by (simp add: stats_defined_def dim_stat_def)
  moreover have "pcid_from_typmod 7 = 7" by (simp add: pcid_from_typmod_def)
  ultimately show ?thesis
    using patch_text_roundtrip [OF demo_env(2-4) demo_datum(1-3) demo_sql(8), of "Some 7"] demo_datum(4) demo_sql(2) [of 7]
    by (fastforce simp: demo_pts_def)
qed

text \<open>
  A stored point, printed and read back in a column without modifier or with that of its schema, is a
  stored point of the same schema with the same bytes.
\<close>

theorem point_text_roundtrip:
  assumes "pg_works (e_pg E)" "reachable (e_db E) ss" "knows E (pt_schema pt)"
    and "point_ok pt" "sizeof_point + sc_size (pt_schema pt) < 2 ^ 30" "pc_point_serialize (e_pg E) pt = Inr sp"
    and "\<forall>m. typmod = Some m \<longrightarrow> pcid_from_typmod m \<in> {0, sc_pcid (pt_schema pt)}"
  shows "\<exists>str ss1 sp' ss2. pcpoint_out E sp ss = Inr (str @ [0], ss1) \<and> pcpoint_in E str typmod ss1 = Inr (sp', ss2) \<and>
    spt_pcid sp' = spt_pcid sp \<and> take (sc_size (pt_schema pt)) (spt_data sp') = pt_data pt"
proof -
  let ?s = "pt_schema pt"
  define str where "str = concat (map hex_pair (1 # bytes_of_word (word_of_nat (sc_pcid ?s) :: 32 word) @ pt_data pt))"
  obtain ss1 where o: "pcpoint_out E sp ss = Inr (str @ [0], ss1)" "reachable (e_db E) ss1"
    using point_out_eq [OF assms(1-6)] by (auto simp: str_def)
  let ?q = "\<lparr>pt_readonly = PC_FALSE, pt_schema = ?s, pt_data = pt_data pt\<rparr>"
  have q: "schema_ready ?s" "length (pt_data pt) = sc_size ?s" using assms(4) by (simp_all add: point_ok_def)
  obtain sp' ss2 where i: "pcpoint_in E str typmod ss1 = Inr (sp', ss2)" "pc_point_serialize (e_pg E) ?q = Inr sp'"
    using point_in_eq [OF assms(1) o(2) assms(3) q assms(7)] by (auto simp: str_def)
  have "point_ok ?q" using q by (simp add: point_ok_def)
  from serialized_point [OF assms(1) this _ i(2)] serialized_point [OF assms(1,4-6)] show ?thesis
    using o(1) i(1) q(2) assms(5) by fastforce
qed

theorem point_text_roundtrip_witness:
  "\<exists>str ss sp ss'. bindE (pc_point_serialize pg_little (st_avg demo_sql_stats)) (\<lambda>sp. pcpoint_out demo_env sp demo_session) = Inr (str @ [0], ss) \<and>
     pcpoint_in demo_env str (Some 7) ss = Inr (sp, ss') \<and> take 5 (spt_data sp) = [1, 2, 3, 4, 8]"
proof -
  have a: "pt_schema (st_avg demo_sql_stats) = demo_sql 7" "pt_data (st_avg demo_sql_stats) = [1, 2, 3, 4, 8]" "point_ok (st_avg demo_sql_stats)"
    using demo_sql(6,7) by (simp_all add: demo_sql_stats_def Let_def point_ok_def)
  have e: "e_pg demo_env = pg_little" by (simp add: demo_env_def)
  obtain sp where s: "pc_point_serialize pg_little (st_avg demo_sql_stats) = Inr sp"
    using point_serialize_total [OF pg_little_works a(3)] by blast
  have "pcid_from_typmod 7 = 7" by (simp add: pcid_from_typmod_def)
  then show ?thesis
    using point_text_roundtrip [OF demo_env(2,3) _ a(3), unfolded a(1) e, OF demo_env(4) _ s, of "Some 7"] s demo_sql(2,6) [of 7] a(2)
    by auto
qed

text \<open>
  C31: The input function of points does not check the text it is given: with fewer than five bytes the
  number is read behind the buffer, and with the number zero, in a fresh session, the null pointer that
  the cache returns for an unused slot is dereferenced. The input function of patches reports zero as an error.
\<close>

theorem malformed_point_text:
  assumes "pc_bytes_from_hexbytes str (length str) = Inr wkb" "str \<noteq> []" "hd str = 48"
  shows "(length wkb < 5 \<longrightarrow> pcpoint_in E str typmod ss = Inl OutOfBounds) \<and>
    (pc_wkb_get_pcid wkb = Inr 0 \<longrightarrow> pcpoint_in E str typmod demo_session = Inl OutOfBounds \<and>
      pcpatch_in E str typmod ss = Inl (PcError ''%s: pcid is zero''))"
proof (intro conjI impI)
  assume "length wkb < 5"
  then have "pc_wkb_get_pcid wkb = Inl OutOfBounds" by (simp add: pc_wkb_get_pcid_def rd_def)
  then show "pcpoint_in E str typmod ss = Inl OutOfBounds" using assms by (simp add: pcpoint_in_def pc_point_from_hexwkb_def)
next
  assume z: "pc_wkb_get_pcid wkb = Inr 0"
  have "cache_of (e_db E) [] demo_session" by (simp add: cache_of_def constants_ok_def)
  then obtain ss' where "pc_schema_from_pcid (e_db E) 0 demo_session = Inr (None, ss')" using lookup_zero by fastforce
  then show "pcpoint_in E str typmod demo_session = Inl OutOfBounds"
    using assms z by (simp add: pcpoint_in_def pc_point_from_hexwkb_def)
  show "pcpatch_in E str typmod ss = Inl (PcError ''%s: pcid is zero'')"
    using assms z by (simp add: pcpatch_in_def pc_patch_from_hexwkb_def)
qed

theorem malformed_point_text_witness:
  "pcpoint_in demo_env [48, 48] None demo_session = Inl OutOfBounds"
proof -
  have "pc_bytes_from_hexbytes (concat (map hex_pair [0]) @ []) (2 * length [0 :: byte]) = Inr [0]" by (rule hex_roundtrip)
  moreover have "hex_pair 0 = [48, 48]" unfolding hex_pair_def by code_simp
  ultimately have "pc_bytes_from_hexbytes [48, 48] (length [48, 48 :: byte]) = Inr [0]" by (simp add: numeral_2_eq_2)
  from malformed_point_text [OF this, of demo_env None demo_session] show ?thesis by simp
qed

text \<open>
  C22: The functions for the statistics of a patch read only the start of the datum, 400 bytes or as much as
  the statistics need; they return the minimum, maximum or average that was stored: what PostgreSQL makes a
  numeric of the value of a dimension by its name, or the whole point.
\<close>

theorem stat_from_header:
  assumes "slice_works E" "pg_works (e_pg E)" "reachable (e_db E) ss" "knows E s" "stored_as E sp s ws b st" "n \<in> {0, 1, 2}"
    and "distinct_names s" "i < sc_ndims s" "dim_name (sdim s i) = Some nm" "str_eq name nm"
  shows "(\<exists>ss'. pcpatch_get_stat E sp n (Some name) ss = Inr (Inr (e_numeric E (pval s i (pt_data (stat_point st n)))), ss')) \<and>
    (\<exists>q junk ss'. pcpatch_get_stat E sp n None ss = Inr (Inl q, ss') \<and> spt_pcid q = sc_pcid s \<and>
      spt_data q = pt_data (stat_point st n) @ junk)"
proof
  have s: "schema_ready s" using stored_patchE [OF assms(5)] by blast
  note st = stored_stats [OF assms(5)]
  let ?p = "stat_point (read_stats st) n"
  have p: "pt_schema ?p = s" "pt_data ?p = pt_data (stat_point st n)" "length (pt_data (stat_point st n)) = sc_size s"
    using st assms(6) by (auto simp: stat_point_def read_stats_def stats_ok_def)
  have g: "pc_schema_get_dimension_by_name s name = Some (sdim s i)"
    using by_name_iff [OF _ assms(7)] s assms(8-10) ready_dims(1) [OF s assms(8)] by (auto simp: schema_ready_def)
  have "pc_point_get_double_by_name ?p name = Inr (Some (pval s i (pt_data (stat_point st n))))"
    using get_pval [OF s assms(8) p(3,1), of "[]"] p g by (simp add: pc_point_get_double_by_name_def)
  then show "\<exists>ss'. pcpatch_get_stat E sp n (Some name) ss = Inr (Inr (e_numeric E (pval s i (pt_data (stat_point st n)))), ss')"
    using get_stat_eq [OF assms(1,3-6), of "Some name"] by auto
  let ?n = "sc_size s" and ?j = "drop 8 (pg_palloc (e_pg E) (11 + sc_size s))"
  have "length ?j = 3 + ?n" using assms(2) by (simp add: pg_works_def)
  then have w: "wr ?j 0 (pt_data ?p) = Inr (pt_data ?p @ drop ?n ?j)" using wr_ok [of 0 "pt_data ?p" ?j] p by simp
  have "pc_point_serialize (e_pg E) ?p = Inr \<lparr>spt_size = pg_set_varsize (e_pg E) (11 + ?n), spt_pcid = sc_pcid s,
      spt_data = pt_data ?p @ drop ?n ?j\<rparr>"
    using rd_all [of "pt_data ?p"] w p by (simp add: pc_point_serialize_def Let_def)
  then show "\<exists>q junk ss'. pcpatch_get_stat E sp n None ss = Inr (Inl q, ss') \<and> spt_pcid q = sc_pcid s \<and>
      spt_data q = pt_data (stat_point st n) @ junk"
    using get_stat_eq [OF assms(1,3-6), of None] p(2) by auto
qed

theorem stat_from_header_witness:
  "\<exists>ss. pcpatch_get_stat demo_env demo_datum 1 (Some ''y'') demo_session = Inr (Inr (e_numeric demo_env (d_of_int 10)), ss)"
proof -
  have v: "pval (demo_sql 7) 1 (pt_data (stat_point demo_sql_stats 1)) = d_of_int 10"
    using demo_values demo_sql(18) [of 1 7]
    by (simp add: stat_point_def demo_sql_stats_def Let_def pval_def fld_def demo_pts_def)
  have "str_eq ''y'' ''Y''" by (simp add: str_eq_def lower_letters)
  then show ?thesis
    using stat_from_header [OF demo_env(1-4) demo_datum(1), of 1 1 "''Y''" "''y''"] demo_sql(5,9,13) v by auto
qed

text \<open>
  The header of a stored patch tells its number of points, its schema and its compression; and two
  patches of a schema whose boxes are not empty and hold no NaN intersect exactly when some point is in both
  boxes, while two of different schemas cannot be compared.
\<close>

theorem header_tells:
  assumes "slice_works E" "stored_as E sp s ws b st" "stored_as E sp2 s2 ws2 b2 st2" "sc_pcid s < 2 ^ 31"
    and "box_ok b" "box_ok b2" "in_box x1 y1 b" "in_box x2 y2 b2"
  shows "pcpatch_numpoints E sp = int (length ws) \<and> pcpatch_pcid E sp = int (sc_pcid s) \<and>
    pcpatch_compression E sp = s32 (int (sp_compression sp)) \<and>
    pcpatch_intersects E sp sp2 = (if sc_pcid s = sc_pcid s2 then Inr (\<exists>x y. in_box x y b \<and> in_box x y b2)
      else Inl (PcError ''%s: pcid mismatch (%d != %d)''))"
proof -
  have "length ws < 2 ^ 26" using stored_patchE [OF assms(2)] by (auto simp: points_ok_def)
  then have "s32 (int (length ws)) = int (length ws)" "s32 (int (sc_pcid s)) = int (sc_pcid s)"
    using assms(4) by (simp_all add: s32_id)
  then show ?thesis using assms(1-3) intersects_iff [OF assms(5-8)]
    by (simp add: pcpatch_numpoints_def pcpatch_pcid_def pcpatch_compression_def pcpatch_intersects_def slice_works_def stored_as_def)
qed

theorem header_tells_witness:
  "pcpatch_numpoints demo_env demo_datum = 2 \<and> pcpatch_pcid demo_env demo_datum = 7 \<and>
   pcpatch_intersects demo_env demo_datum demo_datum = Inr True"
proof -
  let ?b = "extent (demo_sql 7) 0 1 demo_pts"
  have v: "pval (demo_sql 7) j w = pval demo_xy j w" if "j < 2" for j w using demo_sql(18) [OF that, of 7] by (simp add: pval_def fld_def)
  have e: "?b = \<lparr>b_xmin = d_of_int 67305985, b_xmax = d_of_int 151521030, b_ymin = d_of_int 5, b_ymax = d_of_int 10\<rparr>"
    by (simp add: extent_def demo_pts_def v bounds_add_def pc_bounds_init_def demo_stat_facts)
  have b: "box_ok ?b" "in_box (d_of_int 67305985) (d_of_int 5) ?b"
    unfolding e by (simp_all add: box_ok_def in_box_def d_of_int_not_nan demo_exact)
  then show ?thesis
    using header_tells [OF demo_env(1) demo_datum(1) demo_datum(1) _ b(1) b(1) b(2) b(2)] demo_sql(2) [of 7] by (auto simp: demo_pts_def)
qed

end
