(* ===== verification/PC_Sql_Patch.thy ===== *)
theory PC_Sql_Patch
  imports PC_Sql
begin

text \<open>
  The functions of SQL that make patches of patches (pgsql/pc_access.c, pgsql/pc_editor.c): each reads the
  stored patch with its schema, calls the library, and stores the result.
\<close>

section \<open>Arrays\<close>

text \<open>A set bit of the bitmap marks an element that is not null; the elements that are not null lie one after the other.\<close>

definition array_get_isnull :: "byte list option \<Rightarrow> nat \<Rightarrow> bool res" where
  "array_get_isnull nullbitmap offset = (case nullbitmap of None \<Rightarrow> Inr False
     | Some nullbitmap \<Rightarrow> bindE (rdx nullbitmap (offset div 8)) (\<lambda>b. Inr (\<not> bit b (offset mod 8))))"

definition array_to_cstring_array :: "string ArrayType \<Rightarrow> string list res" where
  "array_to_cstring_array array =
     bindE (foldE (\<lambda>i (cstring, offset). bindE (array_get_isnull (arr_nullbitmap array) i) (\<lambda>isnull.
              if isnull then Inr (cstring, offset)
              else bindE (rdx (arr_items array) offset) (\<lambda>array_text. Inr (cstring @ [array_text], offset + 1))))
            [0..<nat (ArrayGetNItems (arr_dims array))] ([], 0)) (\<lambda>(cstring, _). Inr cstring)"

section \<open>Points and parts of a patch\<close>

definition stored_patch_of :: "env \<Rightarrow> SERIALIZED_PATCH \<Rightarrow> session \<Rightarrow> (PCSCHEMA \<times> patch \<times> session) res" where
  "stored_patch_of E serpa ss = bindE (schema_of E (sp_pcid serpa) ss) (\<lambda>(schema, ss).
     bindE (pc_patch_deserialize (e_pg E) serpa schema) (\<lambda>patch. Inr (schema, patch, ss)))"

definition store_patch :: "env \<Rightarrow> patch \<Rightarrow> session \<Rightarrow> (SERIALIZED_PATCH option \<times> session) res" where
  "store_patch E patch ss = bindE (pc_patch_serialize (e_pg E) (e_zlib E) (e_laz E) patch None) (\<lambda>(serpatch, _).
     Inr (Some serpatch, ss))"

definition pcpatch_pointn :: "env \<Rightarrow> SERIALIZED_PATCH \<Rightarrow> int \<Rightarrow> session \<Rightarrow> (SERIALIZED_POINT option \<times> session) res" where
  "pcpatch_pointn E serpa n ss = bindE (stored_patch_of E serpa ss) (\<lambda>(_, patch, ss).
     bindE (pc_patch_pointn (e_zlib E) (e_laz E) (Some patch) n) (\<lambda>pt. case pt of
         None \<Rightarrow> Inr (None, ss)
       | Some pt \<Rightarrow> bindE (pc_point_serialize (e_pg E) pt) (\<lambda>serpt. Inr (Some serpt, ss))))"

definition pcpatch_range :: "env \<Rightarrow> SERIALIZED_PATCH \<Rightarrow> int \<Rightarrow> int \<Rightarrow> session \<Rightarrow> (SERIALIZED_PATCH option \<times> session) res" where
  "pcpatch_range E serpa first cnt ss = bindE (stored_patch_of E serpa ss) (\<lambda>(_, patch, ss).
     bindE (pc_patch_range (e_zlib E) (e_laz E) patch first cnt) (\<lambda>patchout. case patchout of
         None \<Rightarrow> Inr (None, ss) | Some patchout \<Rightarrow> store_patch E patchout ss))"

definition pcpatch_uncompress :: "env \<Rightarrow> SERIALIZED_PATCH \<Rightarrow> session \<Rightarrow> (SERIALIZED_PATCH \<times> session) res" where
  "pcpatch_uncompress E serpa ss = bindE (stored_patch_of E serpa ss) (\<lambda>(_, patch, ss).
     bindE (pc_patch_serialize_to_uncompressed (e_pg E) (e_zlib E) (e_laz E) patch) (\<lambda>serpa_out. Inr (serpa_out, ss)))"

section \<open>Filtering and sorting\<close>

definition pcpatch_filter ::
  "env \<Rightarrow> SERIALIZED_PATCH \<Rightarrow> string \<Rightarrow> double \<Rightarrow> double \<Rightarrow> int \<Rightarrow> session \<Rightarrow> (SERIALIZED_PATCH option \<times> session) res" where
  "pcpatch_filter E serpatch nm value1 value2 mode ss = bindE (stored_patch_of E serpatch ss) (\<lambda>(_, patch, ss).
     bindE (if mode = 0 then pc_patch_filter_lt_by_name (e_zlib E) (e_laz E) patch nm value1
            else if mode = 1 then pc_patch_filter_gt_by_name (e_zlib E) (e_laz E) patch nm value1
            else if mode = 2 then pc_patch_filter_equal_by_name (e_zlib E) (e_laz E) patch nm value1
            else if mode = 3 then pc_patch_filter_between_by_name (e_zlib E) (e_laz E) patch nm value1 value2
            else Inl (PcError ''unknown mode %d'')) (\<lambda>patch_filtered. case patch_filtered of
         None \<Rightarrow> Inl (PcError ''dimension %s does not exist'')
       | Some patch_filtered \<Rightarrow> if p_npoints patch_filtered = 0 then Inr (None, ss) else store_patch E patch_filtered ss))"

definition pcpatch_sort :: "env \<Rightarrow> SERIALIZED_PATCH \<Rightarrow> string ArrayType \<Rightarrow> session \<Rightarrow> (SERIALIZED_PATCH option \<times> session) res" where
  "pcpatch_sort E serpatch array ss = bindE (array_to_cstring_array array) (\<lambda>names.
     if names = [] then Inr (Some serpatch, ss)
     else bindE (stored_patch_of E serpatch ss) (\<lambda>(_, patch, ss).
          bindE (pc_patch_sort (e_sort E) (e_zlib E) (e_laz E) patch names) (\<lambda>patch_sorted.
          store_patch E (Uncompressed patch_sorted) ss)))"

definition pcpatch_is_sorted :: "env \<Rightarrow> SERIALIZED_PATCH \<Rightarrow> string ArrayType \<Rightarrow> bool \<Rightarrow> session \<Rightarrow> (bool \<times> session) res" where
  "pcpatch_is_sorted E serpatch array strict ss = bindE (array_to_cstring_array array) (\<lambda>names.
     if names = [] then Inr (True, ss)
     else bindE (stored_patch_of E serpatch ss) (\<lambda>(_, patch, ss).
          bindE (pc_patch_is_sorted (e_zlib E) (e_laz E) patch names (if strict then 1 else 0)) (\<lambda>res. Inr (res, ss))))"

section \<open>Change of schema\<close>

text \<open>
  The copy of the datum is as long as its raw length word says. What it would leave out of the header has
  no value.
\<close>

definition copy_datum :: "SERIALIZED_PATCH \<Rightarrow> nat \<Rightarrow> SERIALIZED_PATCH res" where
  "copy_datum serpa n = (if n < data_of_patch then Inl Unspecified
     else bindE (rd (sp_data serpa) 0 (n - data_of_patch)) (\<lambda>d. Inr (serpa\<lparr>sp_data := d\<rparr>)))"

fun set_p_schema :: "PCSCHEMA \<Rightarrow> patch \<Rightarrow> patch" where
  "set_p_schema s (Uncompressed p) = Uncompressed (p\<lparr>pa_schema := s\<rparr>)"
| "set_p_schema s (Dimensional p) = Dimensional (p\<lparr>pa_schema := s\<rparr>)"
| "set_p_schema s (Lazperf p) = Lazperf (p\<lparr>pa_schema := s\<rparr>)"

definition pcpatch_set_schema ::
  "env \<Rightarrow> SERIALIZED_PATCH \<Rightarrow> PCSCHEMA \<Rightarrow> PCSCHEMA \<Rightarrow> double \<Rightarrow> SERIALIZED_PATCH res" where
  "pcpatch_set_schema E serpa oschema nschema def =
     bindE (pc_schema_same_dimensions oschema nschema) (\<lambda>same.
     if same \<and> sc_compression oschema = sc_compression nschema then
       bindE (copy_datum serpa (unat (sp_size serpa))) (\<lambda>serpatch. Inr (serpatch\<lparr>sp_pcid := sc_pcid nschema\<rparr>))
     else bindE (pc_patch_deserialize (e_pg E) serpa oschema) (\<lambda>patch.
          bindE (if same then Inr (set_p_schema nschema patch)
                 else bindE (pc_patch_set_schema (e_zlib E) (e_laz E) patch nschema def) (\<lambda>p. Inr (Uncompressed p))) (\<lambda>paout.
          bindE (pc_patch_serialize (e_pg E) (e_zlib E) (e_laz E) paout None) (\<lambda>(serpatch, _). Inr serpatch))))"

text \<open>Both schemas are looked up before one is used; a null pointer that the cache returns is dereferenced then.\<close>

definition pcpatch_setpcid :: "env \<Rightarrow> SERIALIZED_PATCH \<Rightarrow> int \<Rightarrow> double \<Rightarrow> session \<Rightarrow> (SERIALIZED_PATCH option \<times> session) res" where
  "pcpatch_setpcid E serpa pcid def ss = bindE (pc_schema_from_pcid (e_db E) (sp_pcid serpa) ss) (\<lambda>(oschema, ss).
     bindE (pc_schema_from_pcid (e_db E) (u32 pcid) ss) (\<lambda>(nschema, ss). case (oschema, nschema) of
         (Some oschema, Some nschema) \<Rightarrow> bindE (pcpatch_set_schema E serpa oschema nschema def) (\<lambda>serpatch. Inr (Some serpatch, ss))
       | _ \<Rightarrow> Inl OutOfBounds))"

definition pcpatch_transform :: "env \<Rightarrow> SERIALIZED_PATCH \<Rightarrow> int \<Rightarrow> double \<Rightarrow> session \<Rightarrow> (SERIALIZED_PATCH option \<times> session) res" where
  "pcpatch_transform E serpa pcid def ss = bindE (pc_schema_from_pcid (e_db E) (sp_pcid serpa) ss) (\<lambda>(oschema, ss).
     bindE (pc_schema_from_pcid (e_db E) (u32 pcid) ss) (\<lambda>(nschema, ss). case oschema of None \<Rightarrow> Inl OutOfBounds
       | Some oschema \<Rightarrow> bindE (pc_patch_deserialize (e_pg E) serpa oschema) (\<lambda>patch. case nschema of None \<Rightarrow> Inl OutOfBounds
         | Some nschema \<Rightarrow> bindE (pc_patch_transform (e_zlib E) (e_laz E) patch nschema def) (\<lambda>paout. case paout of
             None \<Rightarrow> Inr (None, ss) | Some paout \<Rightarrow> store_patch E (Uncompressed paout) ss))))"

lemma schema_of_some: "schema_of E pcid ss = Inr (s, ss') \<longleftrightarrow> pc_schema_from_pcid (e_db E) pcid ss = Inr (Some s, ss')"
  by (auto simp: schema_of_def bindE_eq_Inr split: option.splits)

section \<open>Results that are stored\<close>

text \<open>
  What the compressors must be able to do to store the points \<open>ws\<close>; and a result of a function that is a
  datum with these points, readable if it is smaller than a gigabyte.
\<close>

definition can_store :: "env \<Rightarrow> PCSCHEMA \<Rightarrow> byte list list \<Rightarrow> bool" where
  "can_store E s ws = compressible (e_zlib E) (e_laz E) None (Uncompressed (patch_of s 0 0 ws)) ws"

definition gives :: "env \<Rightarrow> (SERIALIZED_PATCH option \<times> session) res \<Rightarrow> PCSCHEMA \<Rightarrow> byte list list \<Rightarrow> PCBOUNDS \<Rightarrow> PCSTATS \<Rightarrow> bool" where
  "gives E r s ws b st = (\<exists>sp ss. r = Inr (Some sp, ss) \<and> reachable (e_db E) ss \<and> sp_pcid sp = sc_pcid s \<and>
     sp_compression sp = sc_compression s \<and> sp_npoints sp = length ws \<and> sp_bounds sp = b \<and>
     (data_of_patch + length (sp_data sp) < 2 ^ 30 \<longrightarrow> stored_as E sp s ws b st))"

lemma store_gives:
  assumes "pg_works (e_pg E)" "reachable (e_db E) ss" "storing (e_zlib E) (e_laz E) None q ws" "p_stats q = Some st" "p_schema q = s"
  shows "gives E (store_patch E q ss) s ws (p_bounds q) st"
  using store_result [OF assms(1,3,4,5)] assms(2) by (fastforce simp: gives_def store_patch_def)

lemma store_fresh:
  assumes E: "pg_works (e_pg E)" "reachable (e_db E) ss" and c: "can_store E s ws"
    and p: "patch_holds (e_zlib E) (e_laz E) (Uncompressed p) ws" "pa_schema p = s" "pa_stats p = Some st" "pa_type p = PC_NONE"
      "compact (Uncompressed p)"
  shows "gives E (store_patch E (Uncompressed p) ss) s ws (pa_bounds p) st"
proof -
  have "compressible (e_zlib E) (e_laz E) None (Uncompressed p) ws"
    using c p(2) by (simp add: can_store_def compressible_def Let_def patch_of_def)
  then have "storing (e_zlib E) (e_laz E) None (Uncompressed p) ws" using p by (simp add: storing_def)
  from store_gives [OF E this, of st s] p(2,3) show ?thesis by simp
qed

lemma store_patch_of:
  assumes E: "pg_works (e_pg E)" "reachable (e_db E) ss" and c: "can_store E s ws" and w: "points_ok s ws" "stats_ok s (Some st)"
  shows "gives E (store_patch E (Uncompressed ((patch_of s ix iy ws)\<lparr>pa_bounds := b, pa_stats := Some st\<rparr>)) ss) s ws b st"
  using store_fresh [OF E c patch_of_holds [OF w, where z = "e_zlib E" and laz = "e_laz E" and ix = ix and iy = iy and b = b]] by (simp add: patch_of_def)

lemma stored_lookup:
  assumes "reachable (e_db E) ss" "knows E s" "stored_as E sp s ws b st"
  obtains q ss' where "stored_patch_of E sp ss = Inr (s, q, ss')" "reachable (e_db E) ss'"
    "patch_holds (e_zlib E) (e_laz E) q ws" "compact q" "typed q" "laz_genuine (e_laz E) q ws" "p_schema q = s" "p_bounds q = b"
    "own (p_stats q) = Some (own_stats st)" "patch_type q = sp_compression sp"
proof -
  obtain ss' where "schema_of E (sp_pcid sp) ss = Inr (s, ss')" "reachable (e_db E) ss'" using stored_schema [OF assms] by blast
  moreover obtain q where "pc_patch_deserialize (e_pg E) sp s = Inr q" "patch_holds (e_zlib E) (e_laz E) q ws" "compact q" "typed q"
    "laz_genuine (e_laz E) q ws" "p_schema q = s" "p_bounds q = b" "own (p_stats q) = Some (own_stats st)"
    "patch_type q = sp_compression sp"
    using stored_patchE [OF assms(3)] by blast
  ultimately show ?thesis using that by (simp add: stored_patch_of_def)
qed

lemma storing_again:
  assumes "patch_holds (e_zlib E) (e_laz E) q ws" "compact q" "typed q" "laz_genuine (e_laz E) q ws" "p_schema q = s" "p_stats q = Some st"
    and "can_store E s ws"
  shows "storing (e_zlib E) (e_laz E) None q ws"
proof (cases "patch_type q = sc_compression s")
  case True
  then show ?thesis using assms by (simp add: storing_def)
next
  case False
  have "compressible (e_zlib E) (e_laz E) None q ws"
    using False assms(5,7) by (auto simp: can_store_def compressible_def Let_def patch_of_def)
  then show ?thesis using False assms by (simp add: storing_def)
qed

lemma points_part: "points_ok s ws \<Longrightarrow> points_ok s (take n (drop m ws))"
  by (auto simp: points_ok_def widths_def dest: in_set_takeD in_set_dropD)

lemma own_box: "(patch_of s ix iy ws)\<lparr>pa_bounds := extent s ix iy ws, pa_stats := st\<rparr> = (patch_of s ix iy ws)\<lparr>pa_stats := st\<rparr>"
  by (simp add: patch_of_def)

text \<open>A datum of the schema \<open>s\<close> that holds the point \<open>w\<close>, and storing a point of which only the start is used.\<close>

definition point_stored :: "env \<Rightarrow> SERIALIZED_POINT \<Rightarrow> PCSCHEMA \<Rightarrow> byte list \<Rightarrow> bool" where
  "point_stored E sp s w = (spt_pcid sp = sc_pcid s \<and> length w = sc_size s \<and>
     (\<exists>junk. pc_point_deserialize (e_pg E) sp s = Inr \<lparr>pt_readonly = PC_TRUE, pt_schema = s, pt_data = w @ junk\<rparr>))"

lemma serialize_point:
  assumes "pg_works (e_pg E)" "schema_ready (pt_schema pt)" "take (sc_size (pt_schema pt)) (pt_data pt) = w"
    and "length w = sc_size (pt_schema pt)" "sizeof_point + sc_size (pt_schema pt) < 2 ^ 30"
  shows "\<exists>sp. pc_point_serialize (e_pg E) pt = Inr sp \<and> point_stored E sp (pt_schema pt) w"
proof -
  let ?pt = "pt\<lparr>pt_data := w\<rparr>"
  have "rd (pt_data pt) 0 (sc_size (pt_schema pt)) = rd w 0 (sc_size (pt_schema pt))" using assms(3,4) by (auto simp: rd_def)
  then have e: "pc_point_serialize (e_pg E) pt = pc_point_serialize (e_pg E) ?pt" by (simp add: pc_point_serialize_def)
  have ok: "point_ok ?pt" using assms(2,4) by (simp add: point_ok_def)
  obtain sp where sp: "pc_point_serialize (e_pg E) ?pt = Inr sp" using point_serialize_total [OF assms(1) ok] by blast
  from serialized_point [OF assms(1) ok _ sp] show ?thesis using assms(4,5) e sp by (auto simp: point_stored_def)
qed

lemma own_data:
  assumes "own_stats a = own_stats b"
  shows "pt_data (st_min a) = pt_data (st_min b)" "pt_data (st_max a) = pt_data (st_max b)" "pt_data (st_avg a) = pt_data (st_avg b)"
  using arg_cong [OF assms, of "\<lambda>s. pt_data (st_min s)"] arg_cong [OF assms, of "\<lambda>s. pt_data (st_max s)"]
    arg_cong [OF assms, of "\<lambda>s. pt_data (st_avg s)"] by (simp_all add: own_stats_def)

text \<open>The condition that a mode of the filter stands for.\<close>

definition mode_condition :: "int \<Rightarrow> double \<Rightarrow> double \<Rightarrow> PC_FILTERTYPE \<times> double \<times> double" where
  "mode_condition mode v1 v2 = (if mode = 0 then (PC_LT, v1, v1) else if mode = 1 then (PC_GT, v1, v1)
     else if mode = 2 then (PC_EQUAL, v1, v1) else if d_lt v2 v1 then (PC_BETWEEN, v2, v1) else (PC_BETWEEN, v1, v2))"

lemma find_dimension:
  assumes "schema_ready s" "distinct_names s" "i < sc_ndims s" "dim_name (sdim s i) = Some n" "str_eq nm n"
  shows "pc_schema_get_dimension_by_name s nm = Some (sdim s i)"
  using by_name_iff [OF _ assms(2), of nm "sdim s i"] ready_dims(1) [OF assms(1,3)] assms by (auto simp: schema_ready_def)

lemma filter_by_mode:
  assumes d: "pc_schema_get_dimension_by_name (p_schema q) nm = Some d" and m: "mode \<in> {0, 1, 2, 3}" "mode_condition mode v1 v2 = (ft, lo, hi)"
    and q: "stored_patch_of E sp ss = Inr (s, q, ss')"
  shows "pcpatch_filter E sp nm v1 v2 mode ss = bindE (pc_patch_filter (e_zlib E) (e_laz E) (Some q) (dim_position d) ft lo hi)
    (\<lambda>r. case r of None \<Rightarrow> Inl (PcError ''dimension %s does not exist'')
     | Some r \<Rightarrow> if p_npoints r = 0 then Inr (None, ss') else store_patch E r ss')"
  using m unfolding pcpatch_filter_def q
  by (auto simp: d mode_condition_def pc_patch_filter_lt_by_name_def pc_patch_filter_gt_by_name_def pc_patch_filter_equal_by_name_def
      pc_patch_filter_between_by_name_def Let_def split: if_splits)

section \<open>The example\<close>

lemma demo_sql_values: "pval (demo_sql p) j w = pval demo_xy j w" "stored_in (demo_sql p) j v = stored_in demo_xy j v" if "j < 2"
  using demo_sql(18) [OF that, of p] by (simp_all add: pval_def fld_def stored_in_def)

lemma demo_sql_defined: "stats_defined (demo_sql p) ws = stats_defined demo_xy ws"
  using demo_sql(18) [where p = p] demo_sql(5) [of p] demo_xy_ready(4) demo_sql_values(1) by (simp add: stats_defined_def dim_stat_def)

lemma demo_sql_widths: "points_ok (demo_sql p) ws \<longleftrightarrow> (\<forall>w \<in> set ws. length w = 5) \<and> length ws < 2 ^ 26"
  using demo_sql(6,7) [of p] by (simp add: points_ok_def widths_def)

lemma demo_zlib_fits:
  assumes "ws \<noteq> []" "\<forall>w \<in> set ws. length w = 5" "length ws < 2 ^ 26" "j < 2"
  shows "zlib_fits (e_zlib demo_env) (col_array (demo_sql p) ws j)"
proof -
  have ok: "points_ok (demo_sql p) ws" using assms(2,3) by (simp add: demo_sql_widths)
  have jn: "j < sc_ndims (demo_sql p)" using assms(4) demo_sql(5) by simp
  have "0 < dim_size (sdim (demo_sql p) j)"
    using ready_layout(1) [OF demo_sql(7) jn] ready_dims(3) [OF demo_sql(7) jn] isize_pos by simp
  then have "0 < pb_size (col_array (demo_sql p) ws j)"
    using col_array_plain(1) [OF ok jn] ready_layout(1) [OF demo_sql(7) jn] assms(1) by (auto simp: col_array_def plain_def)
  moreover have "pb_size (col_array (demo_sql p) ws j) < 2 ^ 30"
  proof -
    have "pb_size (col_array (demo_sql p) ws j) = length ws * isize (dim_interpretation (sdim (demo_sql p) j))"
      using col_array_plain(1) [OF ok jn] by (simp add: plain_def) (simp add: col_array_def)
    also have "\<dots> \<le> 2 ^ 26 * 8" using assms(3) isize_le_8 ready_dims(3) [OF demo_sql(7) jn] by (intro mult_le_mono) simp_all
    finally show ?thesis by simp
  qed
  ultimately show ?thesis using store_zlib_fits [OF col_array_plain(1) [OF ok jn]] by (simp add: demo_env_def)
qed

lemma demo_can_store:
  assumes "ws \<noteq> []" "\<forall>w \<in> set ws. length w = 5" "length ws < 2 ^ 26"
  shows "can_store demo_env (demo_sql p) ws"
  using assms(1) demo_zlib_fits [OF assms] demo_sql(4,5) [of p] by (simp add: can_store_def compressible_def patch_of_def)

section \<open>Properties\<close>

text \<open>
  C17: A range of a stored patch is stored as a patch of the same schema, with exactly that part of the points,
  their box and their statistics; the whole range is the patch again, and a range outside is null.
\<close>

theorem stored_range:
  assumes "pg_works (e_pg E)" "reachable (e_db E) ss" "knows E s" "stored_as E sp s ws b st"
    and "has_xy s ix iy" "0 < sc_size s" "- (2 ^ 31) < first" "first < 2 ^ 31"
    and "vs = take (nat cnt) (drop (nat (first - 1)) ws)" "vs \<noteq> [] \<longrightarrow> stats_defined s vs \<and> can_store E s vs"
  shows "if first < 1 \<or> int (length ws) < first \<or> cnt < 1 then \<exists>ss'. pcpatch_range E sp first cnt ss = Inr (None, ss')
    else \<exists>b' st'. gives E (pcpatch_range E sp first cnt ss) s vs b' st' \<and>
      (if first = 1 \<and> int (length ws) \<le> cnt then b' = b \<and> own_stats st' = own_stats st
       else b' = extent s ix iy vs \<and> stats_of s vs = Inr st')"
proof -
  obtain q ss' where q: "stored_patch_of E sp ss = Inr (s, q, ss')" "reachable (e_db E) ss'"
    "patch_holds (e_zlib E) (e_laz E) q ws" "compact q" "typed q" "laz_genuine (e_laz E) q ws" "p_schema q = s" "p_bounds q = b"
    "own (p_stats q) = Some (own_stats st)"
    using stored_lookup [OF assms(2-4)] by blast
  have def: "vs \<noteq> [] \<longrightarrow> stats_defined s vs" using assms(10) by blast
  note r = range_cases [OF q(3,7) assms(5-8) def [unfolded assms(9)], folded assms(9)]
  have run: "pcpatch_range E sp first cnt ss = bindE (pc_patch_range (e_zlib E) (e_laz E) q first cnt) (\<lambda>p. case p of
      None \<Rightarrow> Inr (None, ss') | Some p \<Rightarrow> store_patch E p ss')" by (simp add: pcpatch_range_def q(1))
  have ok: "points_ok s vs" "schema_ready s"
    using points_part holds_points(1) [OF q(3)] q(7) assms(9) by (auto simp: points_ok_def)
  consider "first < 1 \<or> int (length ws) < first \<or> cnt < 1" | "\<not> (first < 1 \<or> int (length ws) < first \<or> cnt < 1)" "first = 1 \<and> int (length ws) \<le> cnt"
    | "\<not> (first < 1 \<or> int (length ws) < first \<or> cnt < 1)" "\<not> (first = 1 \<and> int (length ws) \<le> cnt)" by blast
  then show ?thesis
  proof cases
    case 1
    then show ?thesis using r run by simp
  next
    case 2
    obtain st' where st': "p_stats q = Some st'" "own_stats st' = own_stats st" using q(9) by (cases "p_stats q") auto
    have "length ws \<le> nat cnt" using 2(2) by linarith
    then have v: "vs = ws" using 2(2) assms(9) by simp
    moreover have "ws \<noteq> []" using 2 by auto
    ultimately have "gives E (store_patch E q ss') s vs b st'"
      using store_gives [OF assms(1) q(2) storing_again [OF q(3-7) st'(1)] st'(1) q(7)] assms(10) q(8) by simp
    then show ?thesis using r run 2 st'(2) by auto
  next
    case 3
    then have "vs \<noteq> []" using assms(9) by auto
    then have c: "can_store E s vs" using assms(10) by blast
    from 3 obtain st' where st': "stats_of s vs = Inr st'" "pc_patch_range (e_zlib E) (e_laz E) q first cnt =
        Inr (Some (Uncompressed ((patch_of s ix iy vs)\<lparr>pa_stats := Some st'\<rparr>)))" using r by auto
    have "gives E (store_patch E (Uncompressed ((patch_of s ix iy vs)\<lparr>pa_stats := Some st'\<rparr>)) ss') s vs (extent s ix iy vs) st'"
      using store_patch_of [OF assms(1) q(2) c ok(1) stats_of_ok [OF ok(2) st'(1)], where ix = ix and iy = iy
          and b = "extent s ix iy vs"] by (simp add: own_box)
    then show ?thesis using st' run 3 by auto
  qed
qed

theorem stored_range_witness:
  "\<exists>b st. gives demo_env (pcpatch_range demo_env demo_datum 2 5 demo_session) (demo_sql 7) [[6, 7, 8, 9, 10]] b st"
proof -
  have v: "[[6, 7, 8, 9, 10]] = take (nat 5) (drop (nat (2 - 1)) demo_pts)" by (simp add: demo_pts_def)
  have d: "stats_defined (demo_sql 7) [[6, 7, 8, 9, 10]]" using demo_stats_last by (simp add: demo_sql_defined)
  have c: "can_store demo_env (demo_sql 7) [[6, 7, 8, 9, 10]]" by (rule demo_can_store) simp_all
  show ?thesis using stored_range [OF demo_env(2-4) demo_datum(1) demo_sql(8) _ _ _ v] d c demo_sql(6) [of 7]
    by (auto simp: demo_pts_def)
qed

text \<open>
  C29: Point \<open>n\<close> of a stored patch, counted from 1 or from the end with negative numbers, is stored as a point
  of the schema with its bytes; for every other number the result is null. (The values of an array of
  significant bits must be within reach of its random access.)
\<close>

theorem stored_pointn:
  assumes "pg_works (e_pg E)" "reachable (e_db E) ss" "knows E s" "stored_as E sp s ws b st"
    and "\<forall>q. pc_patch_deserialize (e_pg E) sp s = Inr q \<longrightarrow> accessible q"
    and "0 < sc_size s" "sizeof_point + sc_size s < 2 ^ 30" "- (2 ^ 31) \<le> n" "n < 2 ^ 31"
  shows "if n = 0 \<or> int (length ws) < \<bar>n\<bar> then \<exists>ss'. pcpatch_pointn E sp n ss = Inr (None, ss')
    else \<exists>p ss'. pcpatch_pointn E sp n ss = Inr (Some p, ss') \<and> point_stored E p s (ws ! nat (if n < 0 then int (length ws) + n else n - 1))"
proof -
  obtain q ss' where q: "stored_patch_of E sp ss = Inr (s, q, ss')" "patch_holds (e_zlib E) (e_laz E) q ws" "p_schema q = s"
    using stored_lookup [OF assms(2-4)] by blast
  have "accessible q" using q(1) assms(5) by (auto simp: stored_patch_of_def bindE_eq_Inr)
  have run: "pcpatch_pointn E sp n ss = bindE (pc_patch_pointn (e_zlib E) (e_laz E) (Some q) n) (\<lambda>pt. case pt of
      None \<Rightarrow> Inr (None, ss') | Some pt \<Rightarrow> bindE (pc_point_serialize (e_pg E) pt) (\<lambda>serpt. Inr (Some serpt, ss')))"
    by (simp add: pcpatch_pointn_def q(1))
  show ?thesis
  proof (cases "n = 0 \<or> int (length ws) < \<bar>n\<bar>")
    case True
    then show ?thesis using pointn_none [OF q(2) True assms(8,9)] run by simp
  next
    case False
    let ?i = "nat (if n < 0 then int (length ws) + n else n - 1)"
    have i: "?i < length ws" "n = int ?i + 1 \<or> n = int ?i - int (length ws)" using False by auto
    have "points_ok s ws" using holds_points(1) [OF q(2)] q(3) by simp
    then have w: "length (ws ! ?i) = sc_size s" "schema_ready s" using i(1) by (simp_all add: points_ok_def widths_def)
    obtain pt where pt: "pc_patch_pointn (e_zlib E) (e_laz E) (Some q) n = Inr (Some pt)" "pt_schema pt = s"
      "take (sc_size s) (pt_data pt) = ws ! ?i"
      using pointn_at [OF q(2) \<open>accessible q\<close> _ i] assms(6) q(3) by auto
    obtain p where "pc_point_serialize (e_pg E) pt = Inr p" "point_stored E p s (ws ! ?i)"
      using serialize_point [OF assms(1), of pt "ws ! ?i"] pt(2,3) w assms(7) by auto
    then show ?thesis using run pt(1) False by simp
  qed
qed

theorem stored_pointn_witness:
  "\<exists>p ss. pcpatch_pointn demo_env demo_datum (- 1) demo_session = Inr (Some p, ss) \<and> point_stored demo_env p (demo_sql 7) [6, 7, 8, 9, 10]"
proof -
  have a: "accessible q" if "pc_patch_deserialize (e_pg demo_env) demo_datum (demo_sql 7) = Inr q" for q
  proof -
    obtain q' where q': "pc_patch_deserialize (e_pg demo_env) demo_datum (demo_sql 7) = Inr q'"
      "patch_holds (e_zlib demo_env) (e_laz demo_env) q' demo_pts" "p_schema q' = demo_sql 7"
      using stored_patchE [OF demo_datum(1)] by blast
    then have e: "q' = q" using that by simp
    have "dim_size (sdim (demo_sql 7) j) \<in> {1, 4}" if "j < 2" for j
      using that demo_sql_sdim by (auto simp: less_2 demo_sizes)
    then have "access_ok d 2" if "pa_schema d = demo_sql 7" for d
      using that demo_sql(5) [of 7] by (fastforce simp: access_ok_def)
    then show ?thesis using q'(2,3) unfolding e by (cases q) (auto simp: dim_holds_def demo_pts_def numeral_2_eq_2)
  qed
  show ?thesis
    using stored_pointn [OF demo_env(2-4) demo_datum(1) _ _ _ , of "- 1"] a demo_sql(6) [of 7] by (auto simp: demo_pts_def )
qed

text \<open>
  Uncompressing a stored patch gives a datum of the same schema without compression, whatever the schema
  says: the statistics, then the bytes of the points one after the other.
\<close>

theorem stored_uncompressed:
  assumes "pg_works (e_pg E)" "reachable (e_db E) ss" "knows E s" "stored_as E sp s ws b st"
    and "common_size (e_pg E) + pc_stats_size s + length ws * sc_size s < 2 ^ 30"
  shows "\<exists>sp' ss'. pcpatch_uncompress E sp ss = Inr (sp', ss') \<and> sp_compression sp' = PC_NONE \<and>
    sp_data sp' = stats_bytes st @ concat ws @ pad (e_pg E) \<and> stored_as E sp' s ws b st"
proof -
  obtain q ss' where q: "stored_patch_of E sp ss = Inr (s, q, ss')" "reachable (e_db E) ss'"
    "patch_holds (e_zlib E) (e_laz E) q ws" "compact q" "typed q" "p_schema q = s" "p_bounds q = b" "own (p_stats q) = Some (own_stats st)"
    using stored_lookup [OF assms(2-4)] by blast
  obtain st' where st': "p_stats q = Some st'" "own_stats st' = own_stats st" using q(8) by (cases "p_stats q") auto
  obtain sp' where sp': "pc_patch_serialize_to_uncompressed (e_pg E) (e_zlib E) (e_laz E) q = Inr sp'" "sp_compression sp' = PC_NONE"
    "sp_pcid sp' = sc_pcid s" "sp_npoints sp' = length ws" "sp_bounds sp' = b" "sp_data sp' = stats_bytes st' @ concat ws @ pad (e_pg E)"
    "reads_as (e_pg E) (e_zlib E) (e_laz E) sp' s ws b st'"
    using serialize_uncompressed [OF assms(1) q(3) st'(1) q(5,4)] assms(5) q(6,7) by auto
  have "stats_bytes st' = stats_bytes st" by (rule stats_bytes_own [OF st'(2)])
  moreover have "reads_as (e_pg E) (e_zlib E) (e_laz E) sp' s ws b st" using sp'(7) st'(2) by (simp add: reads_as_def)
  ultimately show ?thesis using sp' q(1) by (auto simp: pcpatch_uncompress_def stored_as_def)
qed

theorem stored_uncompressed_witness:
  "\<exists>sp ss. pcpatch_uncompress demo_env demo_datum demo_session = Inr (sp, ss) \<and> sp_compression sp = PC_NONE \<and>
     sp_data sp = [1, 2, 3, 4, 5, 6, 7, 8, 9, 10, 1, 2, 3, 4, 8] @ [1, 2, 3, 4, 5, 6, 7, 8, 9, 10] @ replicate 15 0"
proof -
  have p: "common_size (e_pg demo_env) + pc_stats_size (demo_sql 7) + length demo_pts * sc_size (demo_sql 7) < 2 ^ 30"
    "pad (e_pg demo_env) = replicate 15 0" "stats_bytes demo_sql_stats = [1, 2, 3, 4, 5, 6, 7, 8, 9, 10, 1, 2, 3, 4, 8]"
    "concat demo_pts = [1, 2, 3, 4, 5, 6, 7, 8, 9, 10]"
    by (simp_all add: demo_env_def pad_def common_size_def pg_little_def pc_stats_size_def demo_sql(6) demo_pts_def stats_bytes_def
        demo_sql_stats_def Let_def)
  show ?thesis using stored_uncompressed [OF demo_env(2-4) demo_datum(1) p(1)] unfolding p(2-4) by blast
qed

text \<open>
  C18: Sorting a stored patch by dimensions gives a stored patch of the same schema, box and statistics with the
  same points in the lexicographic order of these dimensions; without dimensions the datum is returned as
  it is.
\<close>

theorem stored_sort:
  assumes "pg_works (e_pg E)" "reachable (e_db E) ss" "knows E s" "stored_as E sp s ws b st" "sorter (e_sort E)"
    and "0 < sc_size s" "distinct_names s" "array_to_cstring_array array = Inr names"
    and "pc_schema_get_dimensions_by_name s names = Inr dims" "numbers dims ws" "\<forall>vs. mset vs = mset ws \<longrightarrow> can_store E s vs"
  shows "if names = [] then pcpatch_sort E sp array ss = Inr (Some sp, ss)
    else \<exists>vs. mset vs = mset ws \<and> sorted_wrt (\<lambda>x y. lexcmp dims x y \<le> 0) vs \<and>
      gives E (pcpatch_sort E sp array ss) s vs b (own_stats st)"
proof (cases "names = []")
  case True
  then show ?thesis using assms(8) by (simp add: pcpatch_sort_def)
next
  case False
  obtain q ss' where q: "stored_patch_of E sp ss = Inr (s, q, ss')" "reachable (e_db E) ss'"
    "patch_holds (e_zlib E) (e_laz E) q ws" "compact q" "p_schema q = s" "p_bounds q = b" "own (p_stats q) = Some (own_stats st)"
    using stored_lookup [OF assms(2-4)] by blast
  have f: "full q" using q(4) by (cases q) simp_all
  have ok: "points_ok s ws" "stats_ok s (p_stats q)" "schema_ready s" using holds_points [OF q(3)] q(5) by (auto simp: points_ok_def)
  note d = dims_by_name [OF ok(3) assms(7,9)]
  have ne: "dims \<noteq> []" using d(2) False by auto
  obtain p :: PCPATCH_UNCOMPRESSED and vs where v: "pc_patch_sort (e_sort E) (e_zlib E) (e_laz E) q names = Inr (as_uncompressed p vs)"
    "pa_schema p = s" "pa_bounds p = b" "own (pa_stats p) = Some (own_stats st)" "mset vs = mset ws" "sorted_wrt (\<lambda>x y. lexcmp dims x y \<le> 0) vs"
    using sort_eq [OF q(3) f _ _ _ ne assms(10,5), of names] assms(6,9) d(1) q(5-7) by auto
  have okv: "points_ok s vs" using ok(1) set_of_mset [OF v(5)] mset_eq_length [OF v(5)] by (simp add: points_ok_def widths_def)
  have st: "stats_ok s (Some (own_stats st))" using own_ok [of s "p_stats q"] ok(2) q(7) by simp
  have e: "as_uncompressed p vs = (patch_of s 0 0 vs)\<lparr>pa_bounds := b, pa_stats := Some (own_stats st)\<rparr>"
    using v(2-4) by (simp add: as_uncompressed_def patch_of_def)
  have "gives E (store_patch E (Uncompressed (as_uncompressed p vs)) ss') s vs b (own_stats st)"
    unfolding e using store_patch_of [OF assms(1) q(2) _ okv st, of b 0 0] assms(11) v(5) by blast
  then have "gives E (pcpatch_sort E sp array ss) s vs b (own_stats st)"
    using False assms(8) q(1) v(1) by (simp add: pcpatch_sort_def)
  then show ?thesis using False v(5,6) by auto
qed

theorem stored_sort_witness:
  "\<exists>vs b st. mset vs = mset demo_pts \<and> gives demo_env (pcpatch_sort demo_env demo_datum
      \<lparr>arr_elemtype = 25, arr_dims = [1], arr_lbound = [1], arr_nullbitmap = None, arr_items = [''Y'']\<rparr> demo_session) (demo_sql 7) vs b st"
proof -
  let ?a = "\<lparr>arr_elemtype = 25, arr_dims = [1], arr_lbound = [1], arr_nullbitmap = None, arr_items = [''Y'']\<rparr>"
  have a: "array_to_cstring_array ?a = Inr [''Y'']"
    by (simp add: array_to_cstring_array_def array_get_isnull_def ArrayGetNItems_def rdx_def)
  have e: "sdim (demo_sql 7) 1 = sdim demo_xy 1" using demo_sql(18) [of 1 7] by simp
  have s: "d_lt d_zero (dim_scale (sdim (demo_sql 7) 1))" using demo_sql(15) [of 7] by (simp add: d_zero_def d_one_def fp_eval)
  have "pc_schema_get_dimension_by_name (demo_sql 7) ''Y'' = Some (sdim (demo_sql 7) 1)"
    by (rule find_dimension [OF demo_sql(7,9) _ demo_sql(13)]) (simp_all add: demo_sql(5) str_eq_def)
  then have d: "pc_schema_get_dimensions_by_name (demo_sql 7) [''Y''] = Inr [sdim demo_xy 1]"
    using s by (simp add: pc_schema_get_dimensions_by_name_def dimension_by_name_def e [unfolded One_nat_def])
  have n: "numbers [sdim demo_xy 1] demo_pts" using demo_numbers(1) by (simp add: numbers_def demo_pts_def)
  have q: "sorter (e_sort demo_env)" by (simp add: demo_env_def simple.sorter_axioms)
  have c: "\<forall>vs. mset vs = mset demo_pts \<longrightarrow> can_store demo_env (demo_sql 7) vs"
  proof (intro allI impI)
    fix vs assume m: "mset vs = mset demo_pts"
    then have "length vs = 2" "\<forall>w \<in> set vs. length w = 5"
      using mset_eq_length [OF m] set_of_mset [OF m] by (simp_all add: demo_pts_def)
    then show "can_store demo_env (demo_sql 7) vs" by (intro demo_can_store) auto
  qed
  from stored_sort [OF demo_env(2-4) demo_datum(1) q _ demo_sql(9) a d n c] demo_sql(6) [of 7] show ?thesis by auto
qed

text \<open>
  C20: Transforming a stored patch to the schema of another number with the same reference system gives a
  stored patch of that schema: every dimension has the scaled value of the old dimension of its name, or the
  default, stored with the new type, scale and offset; box and statistics are those of the new points. To a
  schema with another reference system the result is null.
\<close>

theorem stored_transform:
  assumes "pg_works (e_pg E)" "reachable (e_db E) ss" "knows E old" "stored_as E sp old ws b st"
    and "knows E new" "u32 pcid = sc_pcid new"
    and "distinct_names old" "schema_ready new" "0 < sc_size new" "all_named new" "has_xy new ix iy"
    and "transformable old new def ws" "vs = map (transform_point old new def) ws" "stats_defined new vs" "can_store E new vs"
  shows "if sc_srid old = sc_srid new then \<exists>st'. stats_of new vs = Inr st' \<and>
      gives E (pcpatch_transform E sp pcid def ss) new vs (extent new ix iy vs) st'
    else \<exists>ss'. pcpatch_transform E sp pcid def ss = Inr (None, ss')"
proof -
  obtain q ss1 where q: "schema_of E (sp_pcid sp) ss = Inr (old, ss1)" "pc_patch_deserialize (e_pg E) sp old = Inr q"
    "reachable (e_db E) ss1" "patch_holds (e_zlib E) (e_laz E) q ws" "p_schema q = old"
    using stored_schema [OF assms(2-4)] stored_patchE [OF assms(4)] by metis
  obtain ss2 where n: "pc_schema_from_pcid (e_db E) (u32 pcid) ss1 = Inr (Some new, ss2)" "reachable (e_db E) ss2"
    using cached.look_ok [OF q(3), of "sc_pcid new" new] assms(5,6) by (auto simp: knows_def)
  have run: "pcpatch_transform E sp pcid def ss = bindE (pc_patch_transform (e_zlib E) (e_laz E) q new def) (\<lambda>p. case p of
      None \<Rightarrow> Inr (None, ss2) | Some p \<Rightarrow> store_patch E (Uncompressed p) ss2)"
    using q(1,2) n(1) by (simp add: schema_of_some pcpatch_transform_def)
  show ?thesis
  proof (cases "sc_srid old = sc_srid new")
    case False
    then show ?thesis using run q(5) by (simp add: pc_patch_transform_def Let_def)
  next
    case True
    obtain st' where st': "stats_of new vs = Inr st'"
      "pc_patch_transform (e_zlib E) (e_laz E) q new def = Inr (Some ((patch_of new ix iy vs)\<lparr>pa_stats := Some st'\<rparr>))"
      "patch_holds (e_zlib E) (e_laz E) (Uncompressed ((patch_of new ix iy vs)\<lparr>pa_stats := Some st'\<rparr>)) vs"
      using transform_eq [OF q(4,5) assms(7-10) True assms(12,11) assms(14) [unfolded assms(13)], folded assms(13)] by blast
    have ok: "points_ok new vs" using holds_points(1) [OF st'(3)] by (simp add: patch_of_def)
    have "gives E (store_patch E (Uncompressed ((patch_of new ix iy vs)\<lparr>pa_stats := Some st'\<rparr>)) ss2) new vs (extent new ix iy vs) st'"
      using store_patch_of [OF assms(1) n(2) assms(15) ok stats_of_ok [OF assms(8) st'(1)], where ix = ix and iy = iy
          and b = "extent new ix iy vs"] by (simp add: own_box)
    then show ?thesis using st' run True by auto
  qed
qed

theorem stored_transform_witness:
  "\<exists>b st. gives demo_env (pcpatch_transform demo_env demo_datum 8 d_zero demo_session) (demo_sql 8) demo_pts b st"
proof -
  have k: "knows demo_env (demo_sql 8)" using demo_sql(1,2) [of 8] by (simp add: knows_def demo_env_def)
  have u: "u32 8 = sc_pcid (demo_sql 8)" using demo_sql(2) [of 8] by (simp add: u32_def)
  have src: "source (demo_sql 7) (demo_sql 8) j = source demo_xy demo_xy j" if j: "j < 2" for j
    unfolding source_def using j demo_sql(18) [OF j] demo_reschema(2,4)
      find_dimension [OF demo_sql(7,9), of j 7 "the (dim_name (sdim demo_xy j))" "the (dim_name (sdim demo_xy j))"] demo_sql(5)
    by (auto simp: all_named_def demo_xy_ready source_def str_eq_def)
  have v: "source_value (demo_sql 7) (demo_sql 8) d_zero w j = source_value demo_xy demo_xy d_zero w j" if "j < 2" for w j
    using src [OF that] by (simp add: source_value_def)
  have t: "transformable (demo_sql 7) (demo_sql 8) d_zero demo_pts"
    using demo_transform(1) v demo_sql_values(2) demo_sql(5) by (simp add: transformable_def)
  have m: "demo_pts = map (transform_point (demo_sql 7) (demo_sql 8) d_zero) demo_pts"
  proof -
    have "transform_point (demo_sql 7) (demo_sql 8) d_zero = transform_point demo_xy demo_xy d_zero"
      using v demo_sql_values(2) demo_sql(5) by (auto simp: transform_point_def demo_xy_ready intro!: ext arg_cong [where f = concat])
    then show ?thesis using demo_transform(2) by simp
  qed
  have n: "all_named (demo_sql 8)" using demo_reschema(2) demo_sql(5,18) by (simp add: all_named_def demo_xy_ready)
  have c: "can_store demo_env (demo_sql 8) demo_pts" by (rule demo_can_store) (simp_all add: demo_pts_def)
  have d: "stats_defined (demo_sql 8) demo_pts" using demo_stats_defined by (simp add: demo_sql_defined)
  show ?thesis
    using stored_transform [OF demo_env(2-4) demo_datum(1) k u demo_sql(9,7) _ n demo_sql(8) t m d c] demo_sql(3,6) by auto
qed

text \<open>
  Giving a stored patch the number of a schema with other dimensions makes a stored patch of that schema:
  the fields of the points are rearranged by name, with the default in dimensions that the old schema does not
  have, and so are the statistics, which give the box.
\<close>

lemma stored_setpcid:
  assumes "pg_works (e_pg E)" "reachable (e_db E) ss" "knows E old" "stored_as E sp old ws b st"
    and "knows E new" "u32 pcid = sc_pcid new" "pc_schema_same_dimensions old new = Inr False"
    and "distinct_names old" "schema_ready new" "0 < sc_size new" "all_named new" "settable old new def"
    and "has_xy old ox oy" "has_xy new ix iy" "vs = map (set_point old new def) ws" "can_store E new vs"
  shows "gives E (pcpatch_setpcid E sp pcid def ss) new vs (stats_box new ix iy (set_stats old new def st)) (set_stats old new def st)"
proof -
  obtain q ss1 where q: "schema_of E (sp_pcid sp) ss = Inr (old, ss1)" "pc_patch_deserialize (e_pg E) sp old = Inr q"
    "reachable (e_db E) ss1" "patch_holds (e_zlib E) (e_laz E) q ws" "p_schema q = old" "own (p_stats q) = Some (own_stats st)"
    using stored_schema [OF assms(2-4)] stored_patchE [OF assms(4)] by metis
  obtain ss2 where n: "schema_of E (u32 pcid) ss1 = Inr (new, ss2)" "reachable (e_db E) ss2"
    using schema_of_ok [OF q(3), of "sc_pcid new" new] assms(5,6) by (auto simp: knows_def)
  obtain st' where st': "p_stats q = Some st'" "own_stats st' = own_stats st" using q(6) by (cases "p_stats q") auto
  have "set_stats old new def st' = set_stats old new def st"
    using own_data [OF st'(2)] by (simp add: set_stats_def set_stat_def)
  then have e: "pc_patch_set_schema (e_zlib E) (e_laz E) q new def = Inr ((patch_of new ix iy vs)\<lparr>pa_bounds :=
      stats_box new ix iy (set_stats old new def st), pa_stats := Some (set_stats old new def st)\<rparr>)"
    using set_schema_eq [OF q(4,5) assms(8-14)] st'(1) assms(15) by simp
  have ok: "points_ok old ws" "stats_ok old (Some st')" "schema_ready old"
    using holds_points [OF q(4)] q(5) st'(1) by (auto simp: points_ok_def)
  have okv: "points_ok new vs" "stats_ok new (Some (set_stats old new def st))"
    using set_points_ok [OF ok(1) assms(8,9,12)] set_stats_ok [OF ok(3) assms(8,9,12) ok(2)] assms(15) \<open>set_stats old new def st' = _\<close> by simp_all
  have "pcpatch_setpcid E sp pcid def ss = store_patch E (Uncompressed ((patch_of new ix iy vs)\<lparr>pa_bounds :=
      stats_box new ix iy (set_stats old new def st), pa_stats := Some (set_stats old new def st)\<rparr>)) ss2"
    using q(1,2) n(1) e assms(7)
    by (simp add: schema_of_some pcpatch_setpcid_def pcpatch_set_schema_def store_patch_def bindE_assoc case_prod_unfold)
  then show ?thesis using store_patch_of [OF assms(1) n(2) assms(16) okv] by simp
qed

text \<open>
  C33: When the new schema has the same dimensions and the same compression, the datum is copied as far as its
  raw length word says. On a machine where this word is the length the copy is the patch with the new number;
  where it is four times the length, as in the long form of a datum on a little-endian machine, the copy reads
  behind the datum.
\<close>

theorem setpcid_overreads:
  assumes "reachable (e_db E) ss" "knows E old" "stored_as E sp old ws b st" "knows E new" "u32 pcid = sc_pcid new"
    and "pc_schema_same_dimensions old new = Inr True" "sc_compression old = sc_compression new"
  shows "(unat (sp_size sp) = data_of_patch + length (sp_data sp) \<longrightarrow>
      (\<exists>ss'. pcpatch_setpcid E sp pcid def ss = Inr (Some (sp\<lparr>sp_pcid := sc_pcid new\<rparr>), ss'))) \<and>
    (unat (sp_size sp) = 4 * (data_of_patch + length (sp_data sp)) \<longrightarrow> pcpatch_setpcid E sp pcid def ss = Inl OutOfBounds)"
proof -
  obtain ss1 where q: "schema_of E (sp_pcid sp) ss = Inr (old, ss1)" "reachable (e_db E) ss1"
    using stored_schema [OF assms(1-3)] by blast
  obtain ss2 where n: "schema_of E (u32 pcid) ss1 = Inr (new, ss2)"
    using schema_of_ok [OF q(2), of "sc_pcid new" new] assms(4,5) by (auto simp: knows_def)
  have "pcpatch_setpcid E sp pcid def ss = bindE (copy_datum sp (unat (sp_size sp))) (\<lambda>sp. Inr (Some (sp\<lparr>sp_pcid := sc_pcid new\<rparr>), ss2))"
    using q(1) n assms(6,7) by (simp add: schema_of_some pcpatch_setpcid_def pcpatch_set_schema_def bindE_assoc)
  then show ?thesis by (auto simp: copy_datum_def rd_def)
qed

theorem setpcid_overreads_witness:
  "pcpatch_setpcid demo_env demo_datum 8 d_zero demo_session = Inl OutOfBounds"
proof -
  have k: "knows demo_env (demo_sql 8)" using demo_sql(1,2) [of 8] by (simp add: knows_def demo_env_def)
  have u: "u32 8 = sc_pcid (demo_sql 8)" using demo_sql(2) [of 8] by (simp add: u32_def)
  have e: "deref (demo_sql p) (sc_dims (demo_sql p) ! j) = Some (sdim demo_xy j)" if "j < 2" for p j
    using ready_dims(2) [OF demo_sql(7), of j p] demo_sql(5,18) that by simp
  have d: "d_eq d_one d_one" "d_eq d_zero d_zero" by (simp_all add: d_eq_def d_one_def d_zero_def fp_eval)
  have s: "pc_schema_same_dimensions (demo_sql 7) (demo_sql 8) = Inr True"
    using e [of 0] e [of "Suc 0"] demo_sql(5) d
    by (simp add: pc_schema_same_dimensions_def numeral_2_eq_2 same_dim_def demo_xy_facts demo_facts str_eq_def)
  from setpcid_overreads [OF demo_env(3,4) demo_datum(1) k u s] demo_sql(4) demo_datum(5) show ?thesis by simp
qed

text \<open>
  C34: In a session that has looked up nothing yet, the schema of the number zero is the null pointer of an unused slot of
  the cache: changing a stored patch to the number zero, or transforming it, dereferences it.
\<close>

theorem zero_pcid_dereferenced:
  assumes "reachable (e_db E) ss" "fn_extra ss = None" "knows E s" "stored_as E sp s ws b st" "u32 pcid = 0"
  shows "pcpatch_setpcid E sp pcid def ss = Inl OutOfBounds \<and> pcpatch_transform E sp pcid def ss = Inl OutOfBounds"
proof -
  have c: "cache_of (e_db E) [] ss" using reachable_cache [OF assms(1)] assms(2) by (auto simp: cache_of_def)
  have k: "load_schema (e_db E) (sc_pcid s) = Inr s" "sc_pcid s \<noteq> 0" using assms(3) by (auto simp: knows_def)
  obtain ss1 where s1: "pc_schema_from_pcid (e_db E) (sc_pcid s) ss = Inr (Some s, ss1)" "cache_of (e_db E) [sc_pcid s] ss1"
    using lookup_miss [OF c, of "sc_pcid s"] k by (auto simp: recent_def)
  obtain ss2 where "pc_schema_from_pcid (e_db E) 0 ss1 = Inr (None, ss2)" using lookup_zero [OF s1(2), of "e_db E"] by auto
  moreover obtain q where "pc_patch_deserialize (e_pg E) sp s = Inr q" using stored_patchE [OF assms(4)] by blast
  moreover have "sp_pcid sp = sc_pcid s" using assms(4) by (simp add: stored_as_def)
  ultimately show ?thesis using s1(1) assms(5) by (simp add: pcpatch_setpcid_def pcpatch_transform_def)
qed

theorem zero_pcid_dereferenced_witness:
  "pcpatch_setpcid demo_env demo_datum 0 d_zero demo_session = Inl OutOfBounds"
  using zero_pcid_dereferenced [OF demo_env(3) _ demo_env(4) demo_datum(1), of 0] by (simp add: u32_def)

text \<open>
  Filtering a stored patch that is not dimensional by a condition on a dimension gives a stored patch with
  exactly the points that satisfy it, with their box and statistics; when the statistics exclude all points, or no point
  satisfies it, the result is null.
\<close>

lemma stored_filter:
  assumes "pg_works (e_pg E)" "reachable (e_db E) ss" "knows E s" "stored_as E sp s ws b st" "sp_compression sp \<noteq> PC_DIMENSIONAL"
    and "distinct_names s" "i < sc_ndims s" "dim_name (sdim s i) = Some n" "str_eq nm n"
    and "mode \<in> {0, 1, 2, 3}" "mode_condition mode v1 v2 = (ft, lo, hi)" "has_xy s ix iy" "0 < sc_size s"
    and "vs = (if stats_allow s (Some st) i ft lo hi then filter (point_cond s i ft lo hi) ws else [])"
    and "vs \<noteq> [] \<longrightarrow> stats_defined s vs \<and> can_store E s vs"
  shows "if vs = [] then \<exists>ss'. pcpatch_filter E sp nm v1 v2 mode ss = Inr (None, ss')
    else \<exists>st'. stats_of s vs = Inr st' \<and> gives E (pcpatch_filter E sp nm v1 v2 mode ss) s vs (extent s ix iy vs) st'"
proof -
  let ?P = "point_cond s i ft lo hi"
  obtain q ss' where q: "stored_patch_of E sp ss = Inr (s, q, ss')" "reachable (e_db E) ss'"
    "patch_holds (e_zlib E) (e_laz E) q ws" "p_schema q = s" "own (p_stats q) = Some (own_stats st)" "patch_type q = sp_compression sp"
    by (rule stored_lookup [OF assms(2-4)]) (rule that; assumption)
  obtain st' where st': "p_stats q = Some st'" "own_stats st' = own_stats st" using q(5) by (cases "p_stats q") auto
  have ok: "points_ok s ws" "stats_ok s (Some st')" "schema_ready s" using holds_points [OF q(3)] q(4) st'(1) by (auto simp: points_ok_def)
  have nd: "q \<noteq> Dimensional d" for d using q(6) assms(5) by auto
  have d: "pc_schema_get_dimension_by_name (p_schema q) nm = Some (sdim s i)"
    using find_dimension [OF ok(3) assms(6-9)] q(4) by simp
  note run = filter_by_mode [OF d assms(10,11) q(1), unfolded ready_position [OF ok(3) assms(7)]]
  obtain e where e: "empty_patch s = Inr (Some (Uncompressed e))" "patch_ok e" "pts e = []"
    using empty_patch_eq [OF ok(3) assms(13)] by blast
  have ne: "p_npoints (Uncompressed e) = 0" using length_pts [of e] e(3) by simp
  have allow: "pc_patch_filter_has_results st' i ft lo hi = Inr (stats_allow s (Some st) i ft lo hi)"
    using has_results_eq [OF ok(3) assms(7) ok(2)] own_data [OF st'(2)] by (simp add: stats_allow_def)
  show ?thesis
  proof (cases "stats_allow s (Some st) i ft lo hi")
    case False
    then have "pc_patch_filter (e_zlib E) (e_laz E) (Some q) i ft lo hi = Inr (Some (Uncompressed e))"
      using allow e(1) st'(1) q(4) by (simp add: pc_patch_filter_def)
    then show ?thesis using False run ne assms(14) by simp
  next
    case True
    obtain pu where pu: "pc_patch_uncompress (e_zlib E) (e_laz E) q = Inr pu" "patch_holds (e_zlib E) (e_laz E) (Uncompressed pu) ws" "pa_schema pu = s"
      using uncompress_ok [OF q(3)] q(4) by blast
    have f: "pc_patch_filter (e_zlib E) (e_laz E) (Some q) i ft lo hi = filter_uncompressed pu i ft lo hi"
      using filter_points_step [OF _ nd pu(1)] allow True st'(1) by simp
    note b = uncompressed_bitmap_of [OF pu(2,3) assms(7), of ft lo hi]
    have vs: "vs = filter ?P ws" using True assms(14) by simp
    show ?thesis
    proof (cases "vs = []")
      case True
      then have "filter_uncompressed pu i ft lo hi = Inr (Some (Uncompressed e))"
        using b e(1) vs by (simp add: filter_uncompressed_def pu(3))
      then show ?thesis using run f ne True by simp
    next
      case False
      then obtain t where t: "stats_of s vs = Inr t"
        "pc_patch_uncompressed_filter pu (bitmap_of (map ?P ws)) = Inr ((patch_of s ix iy vs)\<lparr>pa_stats := Some t\<rparr>)"
        using uncompressed_filter_points [OF pu(2,3) assms(13,12), of ?P] assms(15) vs by auto
      have w: "points_ok s vs" using ok(1) vs by (auto simp: points_ok_def widths_def intro: le_less_trans [OF length_filter_le])
      have "filter_uncompressed pu i ft lo hi = Inr (Some (Uncompressed ((patch_of s ix iy vs)\<lparr>pa_stats := Some t\<rparr>)))"
        using b t(2) False vs by (simp add: filter_uncompressed_def)
      moreover have "gives E (store_patch E (Uncompressed ((patch_of s ix iy vs)\<lparr>pa_stats := Some t\<rparr>)) ss') s vs (extent s ix iy vs) t"
        using store_patch_of [OF assms(1) q(2) _ w stats_of_ok [OF ok(3) t(1)], where ix = ix and iy = iy and b = "extent s ix iy vs"]
          assms(15) False by (simp add: own_box)
      moreover have "p_npoints (Uncompressed ((patch_of s ix iy vs)\<lparr>pa_stats := Some t\<rparr>)) \<noteq> 0" using False by (simp add: patch_of_def)
      ultimately show ?thesis using run f t(1) False by simp
    qed
  qed
qed

end
