(* ===== verification/PC_Schema_Clone.thy ===== *)
theory PC_Schema_Clone
  imports PC_Schema_Xml
begin

text \<open>
  The clone of a schema (pc_schema_clone): it has its own dimensions, in the order of their positions, and its
  pointers lead to them; apart from that it is the schema.
\<close>

definition copy_of :: "nat \<Rightarrow> PCSCHEMA \<Rightarrow> PCSCHEMA \<Rightarrow> bool" where
  "copy_of k s pcs = (schema_wf pcs \<and> sc_ndims pcs = sc_ndims s \<and> length (sc_heap pcs) = k \<and>
     sc_dims pcs = map Some [0..<k] @ replicate (sc_ndims s - k) None \<and>
     (\<forall>j < k. \<exists>a b. sc_heap pcs ! j = (sdim s j)\<lparr>dim_byteoffset := a, dim_size := b\<rparr>) \<and>
     sc_pcid pcs = sc_pcid s \<and> sc_srid pcs = sc_srid s \<and> sc_compression pcs = sc_compression s)"

lemma ready_position_dim:
  assumes "schema_ready s" "k < sc_ndims s"
  shows "dim_position (sdim s k) = k" "\<exists>r. sc_dims s ! k = Some r \<and> sc_heap s ! r = sdim s k"
    "dim_interpretation (sdim s k) < NUM_INTERPRETATIONS"
  using assms ready_dims(3) [OF assms] by (auto simp: schema_ready_def schema_wf_def sdim_def known_interp_def)

lemma clone_step:
  assumes s: "schema_ready s" "k < sc_ndims s" and c: "copy_of k s pcs"
  shows "\<exists>pcs'. pc_schema_set_dimension pcs (pc_dimension_clone (sdim s k)) = Inr pcs' \<and> copy_of (Suc k) s pcs'"
proof -
  note d = ready_position_dim [OF s]
  have c': "schema_wf pcs" "sc_ndims pcs = sc_ndims s" "length (sc_heap pcs) = k"
    "sc_dims pcs = map Some [0..<k] @ replicate (sc_ndims s - k) None"
    "\<forall>j < k. \<exists>a b. sc_heap pcs ! j = (sdim s j)\<lparr>dim_byteoffset := a, dim_size := b\<rparr>"
    "sc_pcid pcs = sc_pcid s" "sc_srid pcs = sc_srid s" "sc_compression pcs = sc_compression s"
    using c by (simp_all add: copy_of_def)
  have free: "dim_position (sdim s k) < sc_ndims pcs" "sc_dims pcs ! dim_position (sdim s k) = None"
    using s(2) c'(2,4) d(1) by (simp_all add: nth_append)
  obtain pcs' where p: "pc_schema_set_dimension pcs (sdim s k) = Inr pcs'" "schema_wf pcs'"
    "sc_dims pcs' = (sc_dims pcs)[k := Some k]" "sc_ndims pcs' = sc_ndims s" "length (sc_heap pcs') = Suc k"
    "laid_out (sc_heap pcs @ [sdim s k]) (sc_dims pcs') (sc_ndims s) (sc_heap pcs')"
    "sc_pcid pcs' = sc_pcid s" "sc_srid pcs' = sc_srid s" "sc_compression pcs' = sc_compression s"
    by (rule set_dimension_wf [OF c'(1) free d(3)]) (use c' d(1) in simp)
  have "\<exists>a b. sc_heap pcs' ! j = (sdim s j)\<lparr>dim_byteoffset := a, dim_size := b\<rparr>" if j: "j < Suc k" for j
  proof -
    obtain a b where ab: "sc_heap pcs' ! j = ((sc_heap pcs @ [sdim s k]) ! j)\<lparr>dim_byteoffset := a, dim_size := b\<rparr>"
      using laid_out_shape [OF p(6), of j] j c'(3) by auto
    have "\<exists>a b. (sc_heap pcs @ [sdim s k]) ! j = (sdim s j)\<lparr>dim_byteoffset := a, dim_size := b\<rparr>"
    proof (cases "j < k")
      case True
      then show ?thesis using c'(3,5) by (simp add: nth_append)
    next
      case False
      then have "(sc_heap pcs @ [sdim s k]) ! j = (sdim s j)\<lparr>dim_byteoffset := dim_byteoffset (sdim s j), dim_size := dim_size (sdim s j)\<rparr>"
        using j c'(3) by (simp add: nth_append less_Suc_eq)
      then show ?thesis by blast
    qed
    then show ?thesis using ab by (intro exI [of _ a] exI [of _ b]) auto
  qed
  moreover have "sc_dims pcs' = map Some [0..<Suc k] @ replicate (sc_ndims s - Suc k) None"
    using p(3) c'(4) s(2) by (cases "sc_ndims s - k") (simp_all add: list_update_append)
  ultimately have "copy_of (Suc k) s pcs'" using p by (simp add: copy_of_def)
  then show ?thesis using p(1) by (simp add: pc_dimension_clone_def)
qed

lemma clone_dims:
  assumes s: "schema_ready s"
  shows "k \<le> sc_ndims s \<Longrightarrow> \<exists>pcs. foldE (\<lambda>i pcs. case sc_dims s ! i of None \<Rightarrow> Inr pcs
      | Some r \<Rightarrow> pc_schema_set_dimension pcs (pc_dimension_clone (sc_heap s ! r))) [0..<k]
    ((pc_schema_new (sc_ndims s))\<lparr>sc_pcid := sc_pcid s, sc_srid := sc_srid s, sc_compression := sc_compression s\<rparr>) = Inr pcs \<and>
    copy_of k s pcs"
proof (induction k)
  case 0
  have "schema_wf ((pc_schema_new (sc_ndims s))\<lparr>sc_pcid := sc_pcid s, sc_srid := sc_srid s, sc_compression := sc_compression s\<rparr>)"
    using wf_cong [of "(pc_schema_new (sc_ndims s))\<lparr>sc_pcid := sc_pcid s, sc_srid := sc_srid s, sc_compression := sc_compression s\<rparr>"
        "pc_schema_new (sc_ndims s)"] schema_new_wf [of "sc_ndims s"] by simp
  then show ?case by (simp add: copy_of_def) (simp add: pc_schema_new_def)
next
  case (Suc k)
  then obtain pcs where pcs: "foldE (\<lambda>i pcs. case sc_dims s ! i of None \<Rightarrow> Inr pcs
      | Some r \<Rightarrow> pc_schema_set_dimension pcs (pc_dimension_clone (sc_heap s ! r))) [0..<k]
    ((pc_schema_new (sc_ndims s))\<lparr>sc_pcid := sc_pcid s, sc_srid := sc_srid s, sc_compression := sc_compression s\<rparr>) = Inr pcs"
    "copy_of k s pcs" by auto
  have k: "k < sc_ndims s" using Suc.prems by simp
  obtain r where "sc_dims s ! k = Some r" "sc_heap s ! r = sdim s k" using ready_position_dim(2) [OF s k] by blast
  then show ?case using clone_step [OF s k pcs(2)] pcs(1) by (auto simp: foldE_append bindE_return)
qed

text \<open>The pointers to X, Y, Z and M lead to dimensions of the schema.\<close>

definition refs_inside :: "PCSCHEMA \<Rightarrow> bool" where
  "refs_inside s = (\<forall>p \<in> {sc_xdim s, sc_ydim s, sc_zdim s, sc_mdim s}. p = None \<or> (\<exists>j < sc_ndims s. sc_dims s ! j = p))"

lemma clone_ref_eq:
  assumes s: "schema_ready s" and c: "copy_of (sc_ndims s) s pcs" and p: "p = None \<or> (\<exists>j < sc_ndims s. sc_dims s ! j = p)"
  shows "\<exists>p'. clone_ref s pcs p = Inr p' \<and> (p = None \<longleftrightarrow> p' = None) \<and> (\<forall>j < sc_ndims s. sc_dims s ! j = p \<longrightarrow> p' = Some j)"
proof (cases p)
  case None
  then show ?thesis using ready_position_dim(2) [OF s] by (auto simp: clone_ref_def)
next
  case (Some r)
  then obtain j where j: "j < sc_ndims s" "sc_dims s ! j = Some r" using p by auto
  have e: "i = j" if "i < sc_ndims s" "sc_dims s ! i = Some r" for i
    using that j s by (simp add: schema_ready_def schema_wf_def refs_ok_def)
  have "dim_position (sc_heap s ! r) = j" using ready_position_dim(1) [OF s j(1)] j(2) by (simp add: sdim_def)
  then have "clone_ref s pcs p = Inr (Some j)" using c j(1) by (simp add: clone_ref_def Some copy_of_def)
  then show ?thesis using Some e by auto
qed

text \<open>The fields of a copy with its pointers entered and its layout computed again.\<close>

lemma clone_laid_out:
  assumes s: "schema_ready s" and c: "copy_of (sc_ndims s) s pcs"
    and r: "pc_schema_calculate_byteoffsets (pcs\<lparr>sc_xdim := x, sc_ydim := y, sc_zdim := z, sc_mdim := m\<rparr>) = Inr t"
    and w: "schema_wf t" "sc_ndims t = sc_ndims s" "sc_dims t = sc_dims pcs" "laid_out (sc_heap pcs) (sc_dims pcs) (sc_ndims pcs) (sc_heap t)"
  shows "schema_ready t" "j < sc_ndims s \<Longrightarrow> sdim t j = sdim s j" "sc_size t = sc_size s"
    "sc_pcid t = sc_pcid s" "sc_srid t = sc_srid s" "sc_compression t = sc_compression s"
    "sc_xdim t = x" "sc_ydim t = y" "sc_zdim t = z" "sc_mdim t = m" "sc_dims t = map Some [0..<sc_ndims s]"
proof -
  let ?n = "sc_ndims s"
  have d: "sc_dims t = map Some [0..<?n]" using c w(3) by (simp add: copy_of_def)
  then show "sc_dims t = map Some [0..<?n]" .
  have sh: "\<exists>a b. sdim t j = (sdim s j)\<lparr>dim_byteoffset := a, dim_size := b\<rparr>" if j: "j < ?n" for j
  proof -
    obtain a b where ab: "sc_heap t ! j = (sc_heap pcs ! j)\<lparr>dim_byteoffset := a, dim_size := b\<rparr>"
      using laid_out_shape [OF w(4), of j] j c by (auto simp: copy_of_def)
    obtain u v where "sc_heap pcs ! j = (sdim s j)\<lparr>dim_byteoffset := u, dim_size := v\<rparr>" using c j by (auto simp: copy_of_def)
    then show ?thesis using ab d j by (intro exI [of _ a] exI [of _ b]) (simp add: sdim_def)
  qed
  have ty: "dim_interpretation (sdim t j) = dim_interpretation (sdim s j)" if "j < ?n" for j using sh [OF that] by auto
  show rt: "schema_ready t" using s w(1,2) d ty by (simp add: schema_ready_def)
  have sz: "dim_size (sdim t j) = dim_size (sdim s j)" if "j < ?n" for j
    using ready_layout(1) [OF s that] ready_layout(1) [OF rt, of j] that ty [OF that] w(2) by simp
  have off: "dim_byteoffset (sdim t j) = dim_byteoffset (sdim s j)" if "j < ?n" for j
    using ready_layout(2) [OF s that] ready_layout(2) [OF rt, of j] that sz w(2) by simp
  show "sdim t j = sdim s j" if j: "j < ?n"
  proof -
    obtain a b where ab: "sdim t j = (sdim s j)\<lparr>dim_byteoffset := a, dim_size := b\<rparr>" using sh [OF j] by blast
    then have "a = dim_byteoffset (sdim s j)" "b = dim_size (sdim s j)" using off [OF j] sz [OF j] by simp_all
    then show ?thesis using ab by simp
  qed
  show "sc_size t = sc_size s" using ready_layout(3) [OF s] ready_layout(3) [OF rt] sz w(2) by simp
  show "sc_pcid t = sc_pcid s" "sc_srid t = sc_srid s" "sc_compression t = sc_compression s"
    "sc_xdim t = x" "sc_ydim t = y" "sc_zdim t = z" "sc_mdim t = m"
    using r c by (auto simp: pc_schema_calculate_byteoffsets_def bindE_eq_Inr copy_of_def)
qed

text \<open>What a clone shares with the schema.\<close>

definition same_schema_as :: "PCSCHEMA \<Rightarrow> PCSCHEMA \<Rightarrow> bool" where
  "same_schema_as t s = (sc_ndims t = sc_ndims s \<and> sc_size t = sc_size s \<and> sc_pcid t = sc_pcid s \<and> sc_srid t = sc_srid s \<and>
     sc_compression t = sc_compression s \<and> (\<forall>j < sc_ndims s. sdim t j = sdim s j) \<and>
     (\<forall>f \<in> {sc_xdim, sc_ydim, sc_zdim, sc_mdim}. deref t (f t) = deref s (f s)))"

lemma clone_eq:
  assumes s: "schema_ready s" "refs_inside s"
  shows "\<exists>t. pc_schema_clone s = Inr t \<and> schema_ready t \<and> same_schema_as t s"
proof -
  let ?n = "sc_ndims s"
  obtain pcs where f: "foldE (\<lambda>i pcs. case sc_dims s ! i of None \<Rightarrow> Inr pcs
      | Some r \<Rightarrow> pc_schema_set_dimension pcs (pc_dimension_clone (sc_heap s ! r))) [0..<?n]
    ((pc_schema_new ?n)\<lparr>sc_pcid := sc_pcid s, sc_srid := sc_srid s, sc_compression := sc_compression s\<rparr>) = Inr pcs"
    and c: "copy_of ?n s pcs" using clone_dims [OF s(1), of ?n] by blast
  have inside: "p = None \<or> (\<exists>j < ?n. sc_dims s ! j = p)" if "p \<in> {sc_xdim s, sc_ydim s, sc_zdim s, sc_mdim s}" for p
    using s(2) [unfolded refs_inside_def] that by (rule bspec)
  note ref = clone_ref_eq [OF s(1) c inside]
  obtain x where x: "clone_ref s pcs (sc_xdim s) = Inr x" "sc_xdim s = None \<longleftrightarrow> x = None" "\<forall>j < ?n. sc_dims s ! j = sc_xdim s \<longrightarrow> x = Some j"
    using ref [of "sc_xdim s"] by auto
  obtain y where y: "clone_ref s pcs (sc_ydim s) = Inr y" "sc_ydim s = None \<longleftrightarrow> y = None" "\<forall>j < ?n. sc_dims s ! j = sc_ydim s \<longrightarrow> y = Some j"
    using ref [of "sc_ydim s"] by auto
  obtain z where z: "clone_ref s pcs (sc_zdim s) = Inr z" "sc_zdim s = None \<longleftrightarrow> z = None" "\<forall>j < ?n. sc_dims s ! j = sc_zdim s \<longrightarrow> z = Some j"
    using ref [of "sc_zdim s"] by auto
  obtain m where m: "clone_ref s pcs (sc_mdim s) = Inr m" "sc_mdim s = None \<longleftrightarrow> m = None" "\<forall>j < ?n. sc_dims s ! j = sc_mdim s \<longrightarrow> m = Some j"
    using ref [of "sc_mdim s"] by auto
  let ?p = "pcs\<lparr>sc_xdim := x, sc_ydim := y, sc_zdim := z, sc_mdim := m\<rparr>"
  have "schema_wf ?p" using c wf_cong [of ?p pcs] by (simp add: copy_of_def)
  then obtain t where t: "pc_schema_calculate_byteoffsets ?p = Inr t" "schema_wf t" "sc_ndims t = sc_ndims ?p"
    "sc_dims t = sc_dims ?p" "laid_out (sc_heap ?p) (sc_dims ?p) (sc_ndims ?p) (sc_heap t)" by (rule calculate_keeps_wf)
  have n: "sc_ndims t = ?n" using t(3) c by (simp add: copy_of_def)
  note l = clone_laid_out [OF s(1) c t(1,2) n, simplified, OF t(4,5) [simplified]]
  have r: "deref t q = deref s p" if q: "p = None \<longleftrightarrow> q = None" "\<forall>j < ?n. sc_dims s ! j = p \<longrightarrow> q = Some j"
    "p \<in> {sc_xdim s, sc_ydim s, sc_zdim s, sc_mdim s}" for p q
  proof (cases p)
    case None
    then show ?thesis using q(1) by (simp add: deref_def)
  next
    case (Some r)
    then obtain j where j: "j < ?n" "sc_dims s ! j = p" using inside [OF q(3)] by auto
    then have "q = Some j" "deref s p = Some (sdim s j)" using q(2) ready_dims(2) [OF s(1) j(1)] by auto
    moreover have "deref t (sc_dims t ! j) = Some (sdim t j)" using ready_dims(2) [OF l(1), of j] j(1) n by simp
    ultimately show ?thesis using l(2) [OF j(1)] l(11) j(1) t(4) by simp
  qed
  have "pc_schema_clone s = Inr t"
    unfolding pc_schema_clone_def f bindE_Inr x(1) y(1) z(1) m(1) by (rule t(1))
  moreover have "same_schema_as t s"
    using l n r [OF x(2,3)] r [OF y(2,3)] r [OF z(2,3)] r [OF m(2,3)] by (simp add: same_schema_as_def)
  ultimately show ?thesis using l(1) by blast
qed

section \<open>Schemas from XML documents\<close>

abbreviation "refs_of s \<equiv> (sc_xdim s, sc_ydim s, sc_zdim s, sc_mdim s)"

lemma refs_inside_cong:
  "refs_of s = refs_of t \<Longrightarrow> sc_dims s = sc_dims t \<Longrightarrow> sc_ndims s = sc_ndims t \<Longrightarrow> refs_inside s = refs_inside t"
  by (simp add: refs_inside_def)

lemma calculate_refs: "pc_schema_calculate_byteoffsets s = Inr t \<Longrightarrow> refs_of t = refs_of s \<and> sc_dims t = sc_dims s \<and> sc_ndims t = sc_ndims s"
  by (auto simp: pc_schema_calculate_byteoffsets_def bindE_eq_Inr)

lemma set_dimension_refs: "pc_schema_set_dimension s d = Inr t \<Longrightarrow> refs_of t = refs_of s"
  by (auto simp: pc_schema_set_dimension_def bindE_eq_Inr Let_def dest!: calculate_refs split: if_splits option.splits)

lemma xml_dims_refs: "xml_dims n nodes s = Inr (cont, t) \<Longrightarrow> refs_of t = refs_of s"
proof (induction nodes arbitrary: s)
  case (Cons node nodes)
  show ?case
  proof (cases "xn_element node")
    case False
    then show ?thesis using Cons by simp
  next
    case True
    from Cons.prems True obtain d0 sz where
      r: "(let d = d0\<lparr>dim_size := sz mod 2 ^ 32\<rparr> in
           if n \<le> dim_position d then Inr (False, s)
           else if sc_dims s ! dim_position d \<noteq> None then Inr (False, s)
           else bindE (pc_schema_set_dimension s d) (xml_dims n nodes)) = Inr (cont, t)"
      by (auto simp: bindE_eq_Inr)
    define d where "d = d0\<lparr>dim_size := sz mod 2 ^ 32\<rparr>"
    have "t = s \<or> bindE (pc_schema_set_dimension s d) (xml_dims n nodes) = Inr (cont, t)"
      using r by (simp only: Let_def flip: d_def) (auto split: if_split_asm)
    then show ?thesis using Cons.IH set_dimension_refs [of s d] by (auto simp: bindE_eq_Inr)
  qed
qed simp

lemma check_step_refs:
  assumes "check_xyzm_step i s = Inr t" "i < sc_ndims s" "refs_inside s"
  shows "refs_inside t \<and> sc_dims t = sc_dims s \<and> sc_ndims t = sc_ndims s"
proof -
  obtain r where r: "sc_dims s ! i = Some r" using assms(1) by (cases "sc_dims s ! i") (auto simp: check_xyzm_step_def)
  then have "t \<in> {s, s\<lparr>sc_xdim := Some r\<rparr>, s\<lparr>sc_ydim := Some r\<rparr>, s\<lparr>sc_zdim := Some r\<rparr>, s\<lparr>sc_mdim := Some r\<rparr>}"
    using assms(1) by (auto simp: check_xyzm_step_def split: option.splits if_splits)
  moreover have "\<exists>j < sc_ndims s. sc_dims s ! j = Some r" using r assms(2) by blast
  ultimately show ?thesis using assms(3) unfolding refs_inside_def by fastforce
qed

lemma check_xyzm_refs:
  assumes "pc_schema_check_xyzm s = Inr t" "refs_inside s"
  shows "refs_inside t"
proof -
  have "refs_inside t \<and> sc_dims t = sc_dims s \<and> sc_ndims t = sc_ndims s"
    using assms(1) unfolding pc_schema_check_xyzm_def
    by (rule foldE_invariant [where I = "\<lambda>t. refs_inside t \<and> sc_dims t = sc_dims s \<and> sc_ndims t = sc_ndims s"])
      (use assms(2) check_step_refs in auto)
  then show ?thesis ..
qed

lemma xml_build_refs:
  assumes "xml_build nodes = Inr (cont, Some u)"
  shows "refs_inside u"
proof -
  obtain ns where ns: "nodes = Some ns" using assms by (cases nodes) (auto simp: xml_build_def)
  then obtain c t where t: "xml_dims (length ns) ns (pc_schema_new (length ns)) = Inr (c, t)"
    and r: "(if \<not> c then Inr (False, Some t) else bindE (pc_schema_calculate_byteoffsets t) (\<lambda>s.
              bindE (pc_schema_check_xyzm s) (\<lambda>s. Inr (True, Some s)))) = Inr (cont, Some u)"
    using assms by (auto simp: xml_build_def bindE_eq_Inr)
  have i: "refs_inside t" using xml_dims_refs [OF t] by (simp add: refs_inside_def pc_schema_new_def)
  show ?thesis
  proof (cases c)
    case False
    then show ?thesis using r i by simp
  next
    case True
    then obtain t' where t': "pc_schema_calculate_byteoffsets t = Inr t'" "pc_schema_check_xyzm t' = Inr u"
      using r by (auto simp: bindE_eq_Inr)
    have "refs_inside t'" using calculate_refs [OF t'(1)] i refs_inside_cong [of t' t] by simp
    then show ?thesis by (rule check_xyzm_refs [OF t'(2)])
  qed
qed

lemma from_xml_refs:
  assumes "pc_schema_from_xml read_xml xml = Inr (Some s)"
  shows "refs_inside s"
proof -
  obtain doc nodes cont s1 s2 where s1: "xml_build nodes = Inr (cont, s1)"
    and s2: "xml_compression doc (cont, s1) = Inr s2" and s: "xml_cleanup s2 = Some s"
    using assms by (auto simp: pc_schema_from_xml_def bindE_eq_Inr split: option.splits)
  have v: "s2 = Some s" using s by (auto simp: xml_cleanup_def split: option.splits if_splits)
  let ?I = "\<lambda>u. \<forall>t. u = Some t \<longrightarrow> refs_inside t"
  have i: "?I s1" using xml_build_refs [of nodes cont] s1 by auto
  have step: "?I u'" if "meta_step x u = Inr u'" "?I u" for x u u'
    using that by (auto simp: meta_step_def bindE_eq_Inr refs_inside_def split: if_splits option.splits)
  have "?I s2"
  proof (cases "cont \<and> (\<exists>ms. xd_metadata doc = Some (Some ms))")
    case False
    then have "s1 = s2" using s2 by (cases "xd_metadata doc") (auto simp: xml_compression_def split: if_splits option.splits)
    then show ?thesis using i by simp
  next
    case True
    then obtain ms where "foldE meta_step ms s1 = Inr s2" using s2 by (auto simp: xml_compression_def)
    then show ?thesis by (rule foldE_invariant [where I = ?I]) (use i step in blast)+
  qed
  then show ?thesis using v by blast
qed

text \<open>Lookup by name depends on the dimensions at their positions only, when the names differ.\<close>

lemma same_lookups:
  assumes "schema_ready s" "schema_ready t" "same_schema_as t s" "distinct_names s"
  shows "pc_schema_get_dimension_by_name t nm = pc_schema_get_dimension_by_name s nm"
proof -
  have n: "sc_ndims t = sc_ndims s" and d: "\<And>j. j < sc_ndims s \<Longrightarrow> sdim t j = sdim s j" using assms(3) by (simp_all add: same_schema_as_def)
  have g: "pc_schema_get_dimension t j = pc_schema_get_dimension s j" for j
  proof (cases "j < sc_ndims s")
    case True
    then show ?thesis using ready_dims(1) [OF assms(1)] ready_dims(1) [OF assms(2)] n d by simp
  qed (simp add: pc_schema_get_dimension_def n)
  have "distinct_names t"
    using assms(4) ready_dims(2) [OF assms(1)] ready_dims(2) [OF assms(2)] n d by (simp add: distinct_names_def)
  then have "pc_schema_get_dimension_by_name t nm = Some x \<longleftrightarrow> pc_schema_get_dimension_by_name s nm = Some x" for x
    using by_name_iff [of t nm x] by_name_iff [of s nm x] assms g by (simp add: schema_ready_def)
  then show ?thesis by (metis not_None_eq)
qed

section \<open>Properties\<close>

text \<open>
  C21: The clone of a schema whose pointers to X, Y, Z and M lead to its dimensions is a schema ready for use
  that shares with it the number, the reference system, the compression, the size, every dimension at its
  position, and the dimensions for X, Y, Z and M. When the names of its dimensions differ, looking a name up in the
  clone gives the dimension that it gives in the schema.
\<close>

theorem clone_is_copy:
  assumes "schema_ready s" "refs_inside s"
  shows "\<exists>t. pc_schema_clone s = Inr t \<and> schema_ready t \<and> same_schema_as t s \<and>
    (distinct_names s \<longrightarrow> (\<forall>nm. pc_schema_get_dimension_by_name t nm = pc_schema_get_dimension_by_name s nm))"
proof -
  obtain t where t: "pc_schema_clone s = Inr t" "schema_ready t" "same_schema_as t s" using clone_eq [OF assms] by blast
  then show ?thesis using same_lookups [OF assms(1) t(2,3)] by blast
qed

theorem clone_is_copy_witness:
  "\<exists>t. pc_schema_clone demo_schema = Inr t \<and> schema_ready t \<and> sc_size t = sc_size demo_schema \<and>
     pc_schema_get_dimension_by_name t ''y'' = pc_schema_get_dimension_by_name demo_schema ''y''"
proof -
  have "refs_inside demo_schema" 
    by (auto simp: refs_inside_def demo_schema_def bindE_eq_Inr pc_schema_new_def dest!: set_dimension_refs split: sum.split)
  then show ?thesis using clone_is_copy [OF demo_schema_ready] demo_schema_names by (auto simp: same_schema_as_def)
qed

end
