(* ===== verification/PC_Sql_Compress.thy ===== *)
theory PC_Sql_Compress
  imports PC_Sql_Patch PC_Schema_Clone
begin

text \<open>
  Compressing a stored patch as the caller says (pcpatch_compress of pgsql/pc_access.c): by the method of the
  schema, by dimension with an encoding for each dimension, or with laz-perf.
\<close>

section \<open>The encodings of the dimensions\<close>

text \<open>The encoding that the text at the read position names, where \<open>None\<close> leaves the recommended one.\<close>

definition config_codec :: "string \<Rightarrow> nat option res" where
  "config_codec ptr = (if take 1 ptr = '','' \<or> take 4 ptr = ''auto'' then Inr None
     else if take 3 ptr = ''rle'' then Inr (Some PC_DIM_RLE)
     else if take 7 ptr = ''sigbits'' then Inr (Some PC_DIM_SIGBITS)
     else if take 4 ptr = ''zlib'' then Inr (Some PC_DIM_ZLIB)
     else Inl (PcError ''Unrecognized dimensional compression %s''))"

text \<open>The loop over the dimensions ends with the text; the read position moves behind the next comma.\<close>

fun compress_config :: "nat list \<Rightarrow> string \<Rightarrow> PCDIMSTAT list \<Rightarrow> PCDIMSTAT list res" where
  "compress_config [] ptr stats = Inr stats"
| "compress_config (i # is) ptr stats =
     bindE (rdx stats i) (\<lambda>stat. bindE (config_codec ptr) (\<lambda>codec.
     let stats = (case codec of None \<Rightarrow> stats | Some c \<Rightarrow> stats[i := stat\<lparr>dst_recommended_compression := c\<rparr>]) in
     case dropWhile (\<lambda>c. c \<noteq> CHR '','') ptr of
         [] \<Rightarrow> Inr stats
       | _ # ptr \<Rightarrow> compress_config is ptr stats))"

definition finish_compress ::
  "env \<Rightarrow> PCSCHEMA \<Rightarrow> patch \<Rightarrow> PCDIMSTATS option \<Rightarrow> session \<Rightarrow> (SERIALIZED_PATCH \<times> session) res" where
  "finish_compress E schema pa stats ss =
     bindE (pc_patch_serialize (e_pg E) (e_zlib E) (e_laz E) (set_p_schema schema pa) stats) (\<lambda>(serpa_out, _). Inr (serpa_out, ss))"

definition pcpatch_compress :: "env \<Rightarrow> SERIALIZED_PATCH \<Rightarrow> string \<Rightarrow> string \<Rightarrow> session \<Rightarrow> (SERIALIZED_PATCH \<times> session) res" where
  "pcpatch_compress E serpa compr_in config_in ss = bindE (stored_patch_of E serpa ss) (\<lambda>(schema, patch_in, ss).
     bindE (case patch_in of Uncompressed p \<Rightarrow> Inr p | _ \<Rightarrow> pc_patch_uncompress (e_zlib E) (e_laz E) patch_in) (\<lambda>pa.
     bindE (pc_schema_clone schema) (\<lambda>schema.
     if compr_in = [] \<or> str_eq compr_in ''auto'' then finish_compress E schema (Uncompressed pa) None ss
     else if compr_in = ''dimensional'' then
       bindE (pc_patch_dimensional_from_uncompressed pa) (\<lambda>pdl.
       let schema = schema\<lparr>sc_compression := PC_DIMENSIONAL\<rparr> in
       case pdl of None \<Rightarrow> Inl OutOfBounds | Some pdl \<Rightarrow>
       bindE (pc_dimstats_update (pc_dimstats_make schema) pdl) (\<lambda>stats.
       let stats = stats\<lparr>dts_total_points := PCDIMSTATS_MIN_SAMPLE + 1\<rparr> in
       bindE (if config_in = [] then Inr (dts_stats stats)
              else compress_config [0..<dts_ndims stats] config_in (dts_stats stats)) (\<lambda>ds.
       bindE (pc_patch_dimensional_compress (e_zlib E) pdl (Some (stats\<lparr>dts_stats := ds\<rparr>))) (\<lambda>(pa, stats).
       finish_compress E schema (Dimensional pa) stats ss))))
     else if compr_in = ''laz'' then finish_compress E (schema\<lparr>sc_compression := PC_LAZPERF\<rparr>) (Uncompressed pa) None ss
     else Inl (PcError ''Unrecognized compression %s''))))"

section \<open>What the text of the encodings means\<close>

definition codec_of_name :: "string \<Rightarrow> nat option" where
  "codec_of_name n = (if n = ''rle'' then Some PC_DIM_RLE else if n = ''sigbits'' then Some PC_DIM_SIGBITS
     else if n = ''zlib'' then Some PC_DIM_ZLIB else None)"

fun commas :: "string list \<Rightarrow> string" where
  "commas [] = []"
| "commas [n] = n"
| "commas (n # m # ns) = n @ '','' @ commas (m # ns)"

definition named_codec :: "string list \<Rightarrow> nat \<Rightarrow> PCDIMSTAT \<Rightarrow> PCDIMSTAT" where
  "named_codec ns j st = (if j < length ns then (case codec_of_name (ns ! j) of None \<Rightarrow> st
     | Some c \<Rightarrow> st\<lparr>dst_recommended_compression := c\<rparr>) else st)"

abbreviation "codec_names \<equiv> {''auto'', ''rle'', ''sigbits'', ''zlib''} :: string set"

lemma config_codec_name:
  assumes "n \<in> codec_names" "r = [] \<or> take 1 r = '',''"
  shows "config_codec (n @ r) = Inr (codec_of_name n)" "dropWhile (\<lambda>c. c \<noteq> CHR '','') (n @ r) = r"
proof -
  have "config_codec (n @ r) = Inr (codec_of_name n) \<and> dropWhile (\<lambda>c. c \<noteq> CHR '','') (n @ r) = r"
  proof (cases r)
    case Nil
    then show ?thesis using assms(1) by (elim insertE emptyE; simp add: config_codec_def codec_of_name_def)
  next
    case (Cons c t)
    then have "r = CHR '','' # t" using assms(2) by simp
    then show ?thesis using assms(1) by (elim insertE emptyE; simp add: config_codec_def codec_of_name_def)
  qed
  then show "config_codec (n @ r) = Inr (codec_of_name n)" "dropWhile (\<lambda>c. c \<noteq> CHR '','') (n @ r) = r" by simp_all
qed

lemma config_eq:
  assumes "ns \<noteq> []" "set ns \<subseteq> codec_names" "k + length ns \<le> n" "length stats = n"
  shows "\<exists>stats'. compress_config [k..<n] (commas ns) stats = Inr stats' \<and> length stats' = n \<and>
    (\<forall>j < n. stats' ! j = (if j < k then stats ! j else named_codec ns (j - k) (stats ! j)))"
  using assms
proof (induction ns arbitrary: k stats rule: commas.induct)
  case (2 m)
  then have k: "[k..<n] = k # [Suc k..<n]" by (simp add: upt_conv_Cons)
  have m: "m \<in> codec_names" using 2(2) by simp
  have c: "config_codec m = Inr (codec_of_name m)" "dropWhile (\<lambda>c. c \<noteq> CHR '','') m = []"
    using config_codec_name [OF m, of "[]"] by simp_all
  have r: "rdx stats k = Inr (stats ! k)" using 2(3,4) by (simp add: rdx_def)
  show ?case unfolding k commas.simps compress_config.simps r bindE_Inr c Let_def list.case
    using 2(3,4) by (cases "codec_of_name m") (auto simp: named_codec_def nth_list_update)
next
  case (3 a m ns)
  then have k: "[k..<n] = k # [Suc k..<n]" by (simp add: upt_conv_Cons)
  have a: "a \<in> codec_names" using 3(3) by simp
  have c: "config_codec (a @ '','' @ commas (m # ns)) = Inr (codec_of_name a)"
    "dropWhile (\<lambda>c. c \<noteq> CHR '','') (a @ '','' @ commas (m # ns)) = CHR '','' # commas (m # ns)"
    using config_codec_name [OF a, of "'','' @ commas (m # ns)"] by simp_all
  have r: "rdx stats k = Inr (stats ! k)" using 3(4,5) by (simp add: rdx_def)
  let ?stats = "case codec_of_name a of None \<Rightarrow> stats | Some c \<Rightarrow> stats[k := (stats ! k)\<lparr>dst_recommended_compression := c\<rparr>]"
  have l: "length ?stats = n" using 3(5) by (simp split: option.split)
  obtain stats' where s: "compress_config [Suc k..<n] (commas (m # ns)) ?stats = Inr stats'" "length stats' = n"
    "\<forall>j < n. stats' ! j = (if j < Suc k then ?stats ! j else named_codec (m # ns) (j - Suc k) (?stats ! j))"
    using 3(1) [of "Suc k" ?stats] 3(3,4) l by auto
  have "compress_config [k..<n] (commas (a # m # ns)) stats = Inr stats'"
    unfolding k commas.simps compress_config.simps r bindE_Inr c Let_def list.case using s(1) by simp
  moreover have "stats' ! j = (if j < k then stats ! j else named_codec (a # m # ns) (j - k) (stats ! j))" if "j < n" for j
  proof -
    consider "j < k" | "j = k" | i where "j = Suc k + i" by (metis less_iff_Suc_add linorder_neqE_nat add_Suc)
    then show ?thesis
    proof cases
      case 3
      then show ?thesis using s(3) that by (cases "codec_of_name a") (simp_all add: named_codec_def)
    qed (use s(3) that \<open>length stats = n\<close> in \<open>cases "codec_of_name a"; simp add: named_codec_def\<close>)+
  qed
  ultimately show ?case using s(2) by blast
qed simp

section \<open>Storing under the clone of a schema\<close>

lemma load_from_xml:
  assumes "load_schema D pcid = Inr s"
  shows "\<exists>xml y i. pc_schema_from_xml (db_read_xml D) xml = Inr (Some y) \<and> s = y\<lparr>sc_pcid := pcid, sc_srid := i\<rparr>"
proof -
  obtain k where "pc_schema_from_pcid_uncached D (Some k) pcid = Inr s" using assms by (auto simp: load_schema_def bindE_eq_Inr)
  then show ?thesis by (clarsimp simp: pc_schema_from_pcid_uncached_def bindE_eq_Inr split: if_split_asm)
    (clarsimp simp: bindE_eq_Inr split: spi.split_asm list.split_asm option.split_asm; blast)
qed

lemma knows_refs:
  assumes "knows E s"
  shows "refs_inside s"
proof -
  have "load_schema (e_db E) (sc_pcid s) = Inr s" using assms by (simp add: knows_def)
  then obtain xml y i where y: "pc_schema_from_xml (db_read_xml (e_db E)) xml = Inr (Some y)" "s = y\<lparr>sc_pcid := sc_pcid s, sc_srid := i\<rparr>"
    using load_from_xml by blast
  have "refs_inside y" by (rule from_xml_refs [OF y(1)])
  then have "refs_inside (y\<lparr>sc_pcid := sc_pcid s, sc_srid := i\<rparr>)" by (simp add: refs_inside_def)
  then show ?thesis using y(2) by metis
qed

lemma dimensional_serialize_schema:
  assumes "sc_size t = sc_size (pa_schema d)" "sc_ndims t = sc_ndims (pa_schema d)" "sc_pcid t = sc_pcid (pa_schema d)"
  shows "pc_patch_dimensional_serialize pg (d\<lparr>pa_schema := t\<rparr>) = pc_patch_dimensional_serialize pg d"
  using assms by (cases "pa_stats d") (simp_all add: pc_patch_dimensional_serialize_def pc_patch_serialized_size_def pc_stats_size_def
      pc_patch_dimensional_serialized_size_def pc_patch_stats_serialize_def Let_def)

text \<open>A dimensional patch that is stored as it is, under a schema with the same size and number.\<close>

lemma finish_dimensional:
  assumes E: "pg_works (e_pg E)" and c: "dim_holds (e_zlib E) c ws" "pa_schema c = s" "pa_type c = PC_DIMENSIONAL" "pa_stats c = Some st"
    and t: "sc_size t = sc_size s" "sc_ndims t = sc_ndims s" "sc_pcid t = sc_pcid s" "sc_compression t = PC_DIMENSIONAL"
  shows "\<exists>sp. finish_compress E t (Dimensional c) pds ss = Inr (sp, ss) \<and> sp_pcid sp = sc_pcid s \<and> sp_compression sp = PC_DIMENSIONAL \<and>
    (data_of_patch + length (sp_data sp) < 2 ^ 30 \<longrightarrow> stored_as E sp s ws (pa_bounds c) st \<and>
      (\<exists>d. pc_patch_deserialize (e_pg E) sp s = Inr (Dimensional d) \<and> pd_bytes d = marked True (pd_bytes c)))"
proof -
  let ?sp = "image (e_pg E) (Dimensional c) st"
  have h: "patch_holds (e_zlib E) (e_laz E) (Dimensional c) ws" using c(1) by simp
  have ok: "points_ok s ws" "stats_ok s (Some st)" "pa_npoints c = length ws" "coded_arrays (e_zlib E) s ws (pd_bytes c)"
    using c by (auto simp: dim_holds_def)
  have "pc_patch_dimensional_serialize (e_pg E) c = Inr ?sp"
    using serialize_image [OF E h, of st] c(4) by simp
  then have f: "finish_compress E t (Dimensional c) pds ss = Inr (?sp, ss)"
    using dimensional_serialize_schema [of t c "e_pg E"] t c(2,4) by (simp add: finish_compress_def pc_patch_serialize_def)
  have i: "sp_pcid ?sp = sc_pcid s" "sp_compression ?sp = PC_DIMENSIONAL" "sp_npoints ?sp = length ws" "sp_bounds ?sp = pa_bounds c"
    "sp_data ?sp = stats_bytes st @ body (Dimensional c) @ pad (e_pg E)"
    using c(2,3) ok(3) by (simp_all add: stored_patch_def)
  have "stored_as E ?sp s ws (pa_bounds c) st \<and> (\<exists>d. pc_patch_deserialize (e_pg E) ?sp s = Inr (Dimensional d) \<and> pd_bytes d = marked True (pd_bytes c))"
    if sz: "data_of_patch + length (sp_data ?sp) < 2 ^ 30"
  proof
    have "stored_size (e_pg E) s (body (Dimensional c)) < 2 ^ 30" using sz image_size [of "Dimensional c" st "e_pg E"] ok(2) E c(2) by simp
    then have "\<exists>q. pc_patch_deserialize (e_pg E) ?sp s = Inr q \<and> patch_holds (e_zlib E) (e_laz E) q ws \<and> compact q \<and> typed q \<and>
        laz_genuine (e_laz E) q ws \<and> p_schema q = s \<and> p_bounds q = pa_bounds c \<and> p_stats q = Some (read_stats st) \<and> patch_type q = PC_DIMENSIONAL"
      using deserialize_image [OF E h, of st] c(2-4) by simp
    then have "reads_as (e_pg E) (e_zlib E) (e_laz E) ?sp s ws (pa_bounds c) st"
      using own_read i(2) by (fastforce simp: reads_as_def)
    then show "stored_as E ?sp s ws (pa_bounds c) st" using i by (auto simp: stored_as_def)
    have "storable s (pa_npoints c) (pd_bytes c)" using coded_storable [OF ok(1,4)] ok(3) by simp
    moreover have "schema_ready s" using ok(1) by (simp add: points_ok_def)
    ultimately have "pc_patch_dimensional_deserialize ?sp s = Inr (c\<lparr>pa_readonly := PC_TRUE, pa_stats := Some (read_stats st), pd_bytes := marked True (pd_bytes c)\<rparr>)"
      using dimensional_deserialize_eq [of c st "e_pg E"] ok(2) c(2) by simp
    then show "\<exists>d. pc_patch_deserialize (e_pg E) ?sp s = Inr (Dimensional d) \<and> pd_bytes d = marked True (pd_bytes c)"
      using i(2) by (simp add: pc_patch_deserialize_def del: image.simps)
  qed
  then show ?thesis using f i(1,2) by blast
qed

text \<open>The statistics that the text of the encodings leaves.\<close>

lemma config_stats:
  assumes "set ns \<subseteq> codec_names" "length ns \<le> dts_ndims p" "length (dts_stats p) = dts_ndims p"
  shows "\<exists>ds. (if commas ns = [] then Inr (dts_stats p) else compress_config [0..<dts_ndims p] (commas ns) (dts_stats p)) = Inr ds \<and>
    length ds = dts_ndims p \<and> (\<forall>j < dts_ndims p. ds ! j = named_codec ns j (dts_stats p ! j))"
proof (cases "ns = []")
  case True
  then show ?thesis using assms(3) by (simp add: named_codec_def)
next
  case False
  then have "commas ns \<noteq> []" using assms(1) by (cases ns rule: commas.cases) auto
  then show ?thesis using config_eq [OF False assms(1), of 0 "dts_ndims p" "dts_stats p"] assms(2,3) by simp
qed

lemma named_range: "dst_recommended_compression st \<in> {0, 1, 2, 3} \<Longrightarrow> dst_recommended_compression (named_codec ns j st) \<in> {0, 1, 2, 3}"
  by (auto simp: named_codec_def codec_of_name_def)

section \<open>Properties\<close>

text \<open>
  C19: Compressing a stored patch by dimension gives a datum of the same schema whose representation is
  dimensional, whatever the schema says, with the same points, box and statistics; the array of every
  dimension for which the text names an encoding has that encoding.
\<close>

theorem compress_as_named:
  assumes "pg_works (e_pg E)" "reachable (e_db E) ss" "knows E s" "stored_as E sp s ws b st" "ws \<noteq> []"
    and "\<forall>j < sc_ndims s. zlib_fits (e_zlib E) (col_array s ws j)" "set ns \<subseteq> codec_names" "length ns \<le> sc_ndims s"
  shows "\<exists>sp' ss'. pcpatch_compress E sp ''dimensional'' (commas ns) ss = Inr (sp', ss') \<and> sp_pcid sp' = sc_pcid s \<and>
    sp_compression sp' = PC_DIMENSIONAL \<and> (data_of_patch + length (sp_data sp') < 2 ^ 30 \<longrightarrow> (\<exists>st'. own_stats st' = own_stats st \<and>
      stored_as E sp' s ws b st') \<and> (\<exists>d. pc_patch_deserialize (e_pg E) sp' s = Inr (Dimensional d) \<and>
        (\<forall>j < length ns. \<forall>c. codec_of_name (ns ! j) = Some c \<longrightarrow> pb_compression (pd_bytes d ! j) = c)))"
proof -
  let ?z = "e_zlib E" and ?laz = "e_laz E"
  obtain q ss' where q: "stored_patch_of E sp ss = Inr (s, q, ss')" "patch_holds ?z ?laz q ws" "p_schema q = s" "p_bounds q = b"
    "own (p_stats q) = Some (own_stats st)"
    by (rule stored_lookup [OF assms(2-4)]) (rule that; assumption)
  obtain p where p: "pc_patch_uncompress ?z ?laz q = Inr p" "patch_holds ?z ?laz (Uncompressed p) ws" "pa_schema p = s" "pa_bounds p = b"
    "own (pa_stats p) = Some (own_stats st)" "pa_npoints p = length ws" using uncompress_ok [OF q(2)] q(3-5) by auto
  have u: "(case q of Uncompressed p \<Rightarrow> Inr p | _ \<Rightarrow> pc_patch_uncompress ?z ?laz q) = Inr p"
    using p(1) by (cases q) (simp_all add: pc_patch_uncompress_def)
  have ok: "points_ok s ws" "schema_ready s" "stats_ok s (pa_stats p)" using p(2,3) by (auto simp: points_ok_def)
  obtain t where t: "pc_schema_clone s = Inr t" "same_schema_as t s" using clone_eq [OF ok(2) knows_refs [OF assms(3)]] by blast
  let ?t = "t\<lparr>sc_compression := PC_DIMENSIONAL\<rparr>"
  have n: "pa_npoints p < 2 ^ 26" "pa_npoints p \<noteq> 0" using ok(1) p(6) assms(5) by (simp_all add: points_ok_def)
  obtain d where d: "pc_patch_dimensional_from_uncompressed p = Inr (Some d)" "dim_holds ?z d ws" "pa_schema d = s" "pa_bounds d = b"
    "pa_stats d = Some (own_stats st)" "pd_bytes d = plain_arrays s ws"
    using from_uncompressed_eq [OF _ n, of ?z] p ok(3) by auto
  have dt: "pa_type d = PC_DIMENSIONAL" by (rule conversion_types(2) [OF d(1)])
  have dn: "dts_ndims (pc_dimstats_make ?t) = sc_ndims s" "dimstats_for s (pc_dimstats_make ?t)"
    using t(2) by (simp_all add: pc_dimstats_make_def same_schema_as_def dimstats_for_def)
  obtain p1 where p1: "pc_dimstats_update (pc_dimstats_make ?t) d = Inr p1" "recommends s p1" "length (dts_stats p1) = sc_ndims s"
    "dts_ndims p1 = sc_ndims s"
    using update_ok [of d ws "pc_dimstats_make ?t"] ok(1) assms(5) d(3,6) dn by auto
  define p2 where "p2 = p1\<lparr>dts_total_points := PCDIMSTATS_MIN_SAMPLE + 1\<rparr>"
  obtain ds where ds: "(if commas ns = [] then Inr (dts_stats p2) else compress_config [0..<dts_ndims p2] (commas ns) (dts_stats p2)) = Inr ds"
    "length ds = sc_ndims s" "\<forall>j < sc_ndims s. ds ! j = named_codec ns j (dts_stats p1 ! j)"
    using config_stats [OF assms(7), of p2] assms(8) p1(3,4) by (auto simp: p2_def)
  let ?p3 = "p2\<lparr>dts_stats := ds\<rparr>"
  have r: "recommends s ?p3" using p1(2) ds(3) named_range by (auto simp: recommends_def)
  obtain es where es: "mapE (\<lambda>i. bindE (rdx (pd_bytes d) i) (\<lambda>b. bindE (rdx (dts_stats ?p3) i) (\<lambda>st.
      pc_bytes_encode ?z b (dst_recommended_compression st)))) [0..<sc_ndims s] = Inr es" "coded_arrays ?z s ws es"
    "\<forall>j < sc_ndims s. pc_bytes_encode ?z (col_array s ws j) (dst_recommended_compression (ds ! j)) = Inr (es ! j)"
    using encode_all [of ?z d ws ?p3] d(2,3,6) assms(5,6) r ds(2) by auto
  let ?c = "d\<lparr>pa_stats := Some (own_stats st), pd_bytes := es\<rparr>"
  have sd: "stats_ok s (pa_stats d)" using d(2,3) by (simp add: dim_holds_def)
  have c: "pc_patch_dimensional_compress ?z d (Some ?p3) = Inr (?c, Some ?p3)"
    using es(1) clone_ok [OF sd] d(3,5) by (simp add: pc_patch_dimensional_compress_def p2_def own_own)
  have ch: "dim_holds ?z ?c ws" using d(2,3) es(2) sd d(5) by (simp add: dim_holds_def)
  obtain sp' where sp': "finish_compress E ?t (Dimensional ?c) (Some ?p3) ss' = Inr (sp', ss')" "sp_pcid sp' = sc_pcid s"
    "sp_compression sp' = PC_DIMENSIONAL" "data_of_patch + length (sp_data sp') < 2 ^ 30 \<longrightarrow> stored_as E sp' s ws b (own_stats st) \<and>
      (\<exists>x. pc_patch_deserialize (e_pg E) sp' s = Inr (Dimensional x) \<and> pd_bytes x = marked True es)"
    using finish_dimensional [OF assms(1) ch, of s "own_stats st" ?t "Some ?p3" ss'] d(3,4) dt t(2) by (auto simp: same_schema_as_def)
  have auto: "\<not> (''dimensional'' = [] \<or> str_eq ''dimensional'' ''auto'')" by (simp add: str_eq_def)
  have run: "pcpatch_compress E sp ''dimensional'' (commas ns) ss = Inr (sp', ss')"
    unfolding pcpatch_compress_def q(1) bindE_Inr prod.case u t(1) if_not_P [OF auto] if_P [OF refl] d(1) Let_def option.case p1(1)
      p2_def [symmetric] ds(1) c by (rule sp'(1))
  have "pb_compression (marked True es ! j) = c" if j: "j < length ns" "codec_of_name (ns ! j) = Some c" for j c
  proof -
    have jn: "j < sc_ndims s" using j(1) assms(8) by simp
    have "dst_recommended_compression (ds ! j) = c" using ds(3) jn j by (simp add: named_codec_def)
    then have e: "pc_bytes_encode ?z (col_array s ws j) c = Inr (es ! j)" using es(3) jn by auto
    have "c \<in> {0, 1, 2, 3}" using j(2) by (auto simp: codec_of_name_def split: if_splits)
    then have "codec_fits ?z c (col_array s ws j)" using all_codecs_fit [OF ok(1) assms(5) jn] assms(6) jn by blast
    then have "pb_compression (es ! j) = c" using encode_fields(3) [OF col_array_plain(1) [OF ok(1) jn] _ e] by blast
    moreover have "length es = sc_ndims s" using es(2) by (simp add: coded_arrays_def)
    ultimately show ?thesis using jn marked_nth [of j es True] by simp
  qed
  moreover have "own_stats (own_stats st) = own_stats st" by (simp add: own_stats_def)
  ultimately show ?thesis using run sp'(2-4) by (metis (no_types, lifting))
qed

theorem compress_as_named_witness:
  "\<exists>sp ss. pcpatch_compress demo_env demo_datum ''dimensional'' ''rle,zlib'' demo_session = Inr (sp, ss) \<and> sp_pcid sp = 7 \<and>
     sp_compression sp = PC_DIMENSIONAL"
proof -
  have z: "\<forall>j < sc_ndims (demo_sql 7). zlib_fits (e_zlib demo_env) (col_array (demo_sql 7) demo_pts j)"
    using demo_zlib_fits [of demo_pts] demo_sql(5) [of 7] by (simp add: demo_pts_def)
  have l: "length [''rle'', ''zlib''] \<le> sc_ndims (demo_sql 7)" "commas [''rle'', ''zlib''] = ''rle,zlib''"
    using demo_sql(5) by simp_all
  have "demo_pts \<noteq> []" by (simp add: demo_pts_def)
  from compress_as_named [OF demo_env(2-4) demo_datum(1) this z _ l(1)] show ?thesis
    unfolding l(2) using demo_sql(2) [of 7] by auto
qed

text \<open>
  The pointer to the dimensional form of a patch without points is null, and the statistics are taken of it
  all the same.
\<close>

lemma compress_empty_dereferences:
  assumes "reachable (e_db E) ss" "knows E s" "stored_as E sp s [] b st"
  shows "pcpatch_compress E sp ''dimensional'' config ss = Inl OutOfBounds"
proof -
  obtain q ss' where q: "stored_patch_of E sp ss = Inr (s, q, ss')" "patch_holds (e_zlib E) (e_laz E) q []" "p_schema q = s"
    by (rule stored_lookup [OF assms]) (rule that; assumption)
  obtain p where p: "pc_patch_uncompress (e_zlib E) (e_laz E) q = Inr p" "pa_npoints p = 0"
    using uncompress_ok [OF q(2)] by auto
  have u: "(case q of Uncompressed p \<Rightarrow> Inr p | _ \<Rightarrow> pc_patch_uncompress (e_zlib E) (e_laz E) q) = Inr p"
    using p(1) by (cases q) (simp_all add: pc_patch_uncompress_def)
  have "schema_ready s" using stored_patchE [OF assms(3)] by blast
  then obtain t where t: "pc_schema_clone s = Inr t" using clone_eq [OF _ knows_refs [OF assms(2)]] by blast
  have auto: "\<not> (''dimensional'' = [] \<or> str_eq ''dimensional'' ''auto'')" by (simp add: str_eq_def)
  have "pc_patch_dimensional_from_uncompressed p = Inr None" using p(2) by (simp add: pc_patch_dimensional_from_uncompressed_def)
  then show ?thesis
    unfolding pcpatch_compress_def q(1) bindE_Inr prod.case u t(1) if_not_P [OF auto] if_P [OF refl] by (simp add: Let_def)
qed

end
