(* ===== verification/PC_Sql_Unnest.thy ===== *)
theory PC_Sql_Unnest
  imports PC_Sql_Patch
begin

text \<open>
  The function of SQL that returns the points of a patch as a set (pcpatch_unnest of pgsql/pc_access.c). It is
  called once for each row; what it keeps from call to call is the context of the first one.
\<close>

section \<open>The state of the calls\<close>

record pcpatch_unnest_fctx =
  nextelem :: int
  numelems :: int
  pointlist :: PCPOINTLIST

text \<open>
  The constants of the process, and the context, which is missing before the first call and after the end. The
  place where other functions keep their cache of schemas holds the context here.
\<close>

record srf =
  srf_constants :: "PC_CONSTANTS option"
  user_fctx :: "pcpatch_unnest_fctx option"

datatype srf_return = SRF_NEXT SERIALIZED_POINT | SRF_DONE

definition unnest_firstcall ::
  "env \<Rightarrow> SERIALIZED_PATCH \<Rightarrow> PC_CONSTANTS option \<Rightarrow> (PC_CONSTANTS option \<times> pcpatch_unnest_fctx) res" where
  "unnest_firstcall E serpatch constants = bindE (pointcloud_init_constants_cache (e_db E) constants) (\<lambda>k.
     bindE (pc_schema_from_pcid_uncached (e_db E) (Some k) (sp_pcid serpatch)) (\<lambda>schema.
     bindE (pc_patch_deserialize (e_pg E) serpatch schema) (\<lambda>patch.
     bindE (pc_pointlist_from_patch (e_zlib E) (e_laz E) patch) (\<lambda>pl.
     Inr (Some k, \<lparr>nextelem = 0, numelems = s32 (int (p_npoints patch)), pointlist = pl\<rparr>)))))"

text \<open>A null element of the list would be dereferenced.\<close>

definition pcpatch_unnest :: "env \<Rightarrow> SERIALIZED_PATCH \<Rightarrow> srf \<Rightarrow> (srf_return \<times> srf) res" where
  "pcpatch_unnest E serpatch st = bindE (case user_fctx st of
       None \<Rightarrow> unnest_firstcall E serpatch (srf_constants st) | Some fctx \<Rightarrow> Inr (srf_constants st, fctx)) (\<lambda>(k, fctx).
     if nextelem fctx < numelems fctx then
       bindE (pc_pointlist_get_point (pointlist fctx) (nextelem fctx)) (\<lambda>pt. case pt of None \<Rightarrow> Inl OutOfBounds
         | Some pt \<Rightarrow> bindE (pc_point_serialize (e_pg E) pt) (\<lambda>serpt.
             Inr (SRF_NEXT serpt, \<lparr>srf_constants = k, user_fctx = Some (fctx\<lparr>nextelem := nextelem fctx + 1\<rparr>)\<rparr>)))
     else Inr (SRF_DONE, \<lparr>srf_constants = k, user_fctx = None\<rparr>))"

text \<open>What \<open>n\<close> calls in a row return, and the state after them.\<close>

fun unnest_calls :: "env \<Rightarrow> SERIALIZED_PATCH \<Rightarrow> nat \<Rightarrow> srf \<Rightarrow> (srf_return list \<times> srf) res" where
  "unnest_calls E serpatch 0 st = Inr ([], st)"
| "unnest_calls E serpatch (Suc n) st = bindE (pcpatch_unnest E serpatch st) (\<lambda>(r, st).
     bindE (unnest_calls E serpatch n st) (\<lambda>(rs, st). Inr (r # rs, st)))"

section \<open>The calls after the first\<close>

text \<open>The list of the context delivers the points \<open>ps\<close>.\<close>

definition delivers :: "env \<Rightarrow> pcpatch_unnest_fctx \<Rightarrow> SERIALIZED_POINT list \<Rightarrow> bool" where
  "delivers E f ps = (numelems f = int (length ps) \<and> (\<forall>i < length ps. \<exists>pt.
     pc_pointlist_get_point (pointlist f) (int i) = Inr (Some pt) \<and> pc_point_serialize (e_pg E) pt = Inr (ps ! i)))"

text \<open>A call in a state from which the element \<open>i\<close> is next.\<close>

definition ready_at :: "env \<Rightarrow> SERIALIZED_PATCH \<Rightarrow> PC_CONSTANTS option \<Rightarrow> pcpatch_unnest_fctx \<Rightarrow> nat \<Rightarrow> srf \<Rightarrow> bool" where
  "ready_at E sp k f i st = (user_fctx st = Some (f\<lparr>nextelem := int i\<rparr>) \<and> srf_constants st = k \<or>
     i = 0 \<and> nextelem f = 0 \<and> user_fctx st = None \<and> unnest_firstcall E sp (srf_constants st) = Inr (k, f))"

lemma unnest_context:
  "ready_at E sp k f i st \<Longrightarrow> (case user_fctx st of None \<Rightarrow> unnest_firstcall E sp (srf_constants st)
     | Some fctx \<Rightarrow> Inr (srf_constants st, fctx)) = Inr (k, f\<lparr>nextelem := int i\<rparr>)"
  by (auto simp: ready_at_def)

lemma unnest_next:
  assumes "delivers E f ps" "ready_at E sp k f i st" "i < length ps"
  shows "\<exists>st'. pcpatch_unnest E sp st = Inr (SRF_NEXT (ps ! i), st') \<and> ready_at E sp k f (Suc i) st'"
  unfolding pcpatch_unnest_def unnest_context [OF assms(2)] using assms(1,3)
  by (auto simp: delivers_def ready_at_def add.commute dest!: spec [of _ i])

lemma unnest_done:
  assumes "delivers E f ps" "ready_at E sp k f (length ps) st"
  shows "pcpatch_unnest E sp st = Inr (SRF_DONE, \<lparr>srf_constants = k, user_fctx = None\<rparr>)"
  unfolding pcpatch_unnest_def unnest_context [OF assms(2)] using assms(1) by (simp add: delivers_def)

lemma unnest_some:
  assumes "delivers E f ps" "ready_at E sp k f i st" "i + n \<le> length ps"
  shows "\<exists>st'. unnest_calls E sp n st = Inr (map SRF_NEXT (take n (drop i ps)), st') \<and> ready_at E sp k f (i + n) st'"
  using assms(2,3)
proof (induction n arbitrary: i st)
  case (Suc n)
  obtain st1 where s: "pcpatch_unnest E sp st = Inr (SRF_NEXT (ps ! i), st1)" "ready_at E sp k f (Suc i) st1"
    using unnest_next [OF assms(1) Suc.prems(1)] Suc.prems(2) by auto
  obtain st' where "unnest_calls E sp n st1 = Inr (map SRF_NEXT (take n (drop (Suc i) ps)), st')" "ready_at E sp k f (Suc i + n) st'"
    using Suc.IH [OF s(2)] Suc.prems(2) by auto
  moreover have "drop i ps = ps ! i # drop (Suc i) ps" using Suc.prems(2) by (simp add: Cons_nth_drop_Suc)
  ultimately show ?case using s(1) by simp
qed simp

lemma unnest_calls_Suc:
  "unnest_calls E sp (Suc n) st = bindE (unnest_calls E sp n st) (\<lambda>(rs, st).
     bindE (pcpatch_unnest E sp st) (\<lambda>(r, st). Inr (rs @ [r], st)))"
proof (induction n arbitrary: st)
  case (Suc n)
  have l: "unnest_calls E sp (Suc (Suc n)) st = bindE (pcpatch_unnest E sp st) (\<lambda>(r, st). bindE (bindE (unnest_calls E sp n st)
      (\<lambda>(rs, st). bindE (pcpatch_unnest E sp st) (\<lambda>(r, st). Inr (rs @ [r], st)))) (\<lambda>(rs, st). Inr (r # rs, st)))"
    by (simp only: unnest_calls.simps(2) [of E sp "Suc n" st] Suc.IH)
  show ?case unfolding l unnest_calls.simps(2) [of E sp n st] by (simp add: bindE_assoc case_prod_unfold)
qed (simp add: case_prod_unfold)

lemma unnest_all:
  assumes "delivers E f ps" "ready_at E sp k f 0 st"
  shows "\<forall>n \<le> length ps. \<exists>st'. unnest_calls E sp n st = Inr (map SRF_NEXT (take n ps), st')"
    "unnest_calls E sp (Suc (length ps)) st = Inr (map SRF_NEXT ps @ [SRF_DONE], \<lparr>srf_constants = k, user_fctx = None\<rparr>)"
proof -
  show "\<forall>n \<le> length ps. \<exists>st'. unnest_calls E sp n st = Inr (map SRF_NEXT (take n ps), st')"
    using unnest_some [OF assms] by fastforce
  obtain st' where "unnest_calls E sp (length ps) st = Inr (map SRF_NEXT ps, st')" "ready_at E sp k f (length ps) st'"
    using unnest_some [OF assms, of "length ps"] by auto
  then show "unnest_calls E sp (Suc (length ps)) st = Inr (map SRF_NEXT ps @ [SRF_DONE], \<lparr>srf_constants = k, user_fctx = None\<rparr>)"
    unfolding unnest_calls_Suc using unnest_done [OF assms(1)] by simp
qed

section \<open>The first call\<close>

lemma unnest_starts:
  assumes "pg_works (e_pg E)" "knows E s" "stored_as E sp s ws b st" "sizeof_point + sc_size s < 2 ^ 30"
    and k: "pointcloud_init_constants_cache (e_db E) None = Inr k" "c \<in> {None, Some k}"
  shows "\<exists>f ps. unnest_firstcall E sp c = Inr (Some k, f) \<and> nextelem f = 0 \<and> delivers E f ps \<and>
    list_all2 (\<lambda>p w. point_stored E p s w) ps ws"
proof -
  obtain q where q: "pc_patch_deserialize (e_pg E) sp s = Inr q" "patch_holds (e_zlib E) (e_laz E) q ws" "p_schema q = s"
    "points_ok s ws" "schema_ready s" by (rule stored_patchE [OF assms(3)]) blast
  obtain pl where pl: "pc_pointlist_from_patch (e_zlib E) (e_laz E) q = Inr pl" "pl_npoints pl = length ws"
    "\<forall>i < length ws. \<exists>pt. pc_pointlist_get_point pl (int i) = Inr (Some pt) \<and> pt_schema pt = s \<and> take (sc_size s) (pt_data pt) = ws ! i"
    using pointlist_eq [OF q(2)] q(3) by auto
  have "\<exists>p. (\<exists>pt. pc_pointlist_get_point pl (int i) = Inr (Some pt) \<and> pc_point_serialize (e_pg E) pt = Inr p) \<and> point_stored E p s (ws ! i)"
    if i: "i < length ws" for i
  proof -
    obtain pt where pt: "pc_pointlist_get_point pl (int i) = Inr (Some pt)" "pt_schema pt = s" "take (sc_size s) (pt_data pt) = ws ! i"
      using pl(3) i by blast
    have "length (ws ! i) = sc_size s" using q(4) i by (simp add: points_ok_def widths_def)
    then show ?thesis using serialize_point [OF assms(1), of pt "ws ! i"] pt q(5) assms(4) by auto
  qed
  then obtain g where g: "\<And>i. i < length ws \<Longrightarrow>
      (\<exists>pt. pc_pointlist_get_point pl (int i) = Inr (Some pt) \<and> pc_point_serialize (e_pg E) pt = Inr (g i)) \<and> point_stored E (g i) s (ws ! i)"
    by metis
  let ?ps = "map g [0..<length ws]" and ?f = "\<lparr>nextelem = 0, numelems = int (length ws), pointlist = pl\<rparr>"
  have d: "delivers E ?f ?ps" using g by (simp add: delivers_def)
  have l: "list_all2 (\<lambda>p w. point_stored E p s w) ?ps ws" using g by (simp add: list_all2_conv_all_nth)
  have n: "s32 (int (p_npoints q)) = int (length ws)"
    using holds_points(2) [OF q(2)] q(4) by (simp add: points_ok_def s32_id)
  have "pc_schema_from_pcid_uncached (e_db E) (Some k) (sp_pcid sp) = Inr s"
    using assms(2,3) k(1) by (simp add: knows_def load_schema_def stored_as_def)
  moreover have "pointcloud_init_constants_cache (e_db E) c = Inr k"
    using k by (auto simp: pointcloud_init_constants_cache_def)
  ultimately have "unnest_firstcall E sp c = Inr (Some k, ?f)" using q(1) pl(1) n by (simp add: unnest_firstcall_def)
  then show ?thesis using d l by fastforce
qed

lemma explode_eq:
  assumes "pg_works (e_pg E)" "knows E s" "stored_as E sp s ws b st" "sizeof_point + sc_size s < 2 ^ 30"
    and "pointcloud_init_constants_cache (e_db E) None = Inr k" "c \<in> {None, Some k}"
  shows "\<exists>ps. list_all2 (\<lambda>p w. point_stored E p s w) ps ws \<and>
    (\<forall>n \<le> length ws. \<exists>st'. unnest_calls E sp n \<lparr>srf_constants = c, user_fctx = None\<rparr> = Inr (map SRF_NEXT (take n ps), st')) \<and>
    unnest_calls E sp (length ws + 1) \<lparr>srf_constants = c, user_fctx = None\<rparr> =
      Inr (map SRF_NEXT ps @ [SRF_DONE], \<lparr>srf_constants = Some k, user_fctx = None\<rparr>)"
proof -
  obtain f ps where f: "unnest_firstcall E sp c = Inr (Some k, f)" "nextelem f = 0" "delivers E f ps"
    "list_all2 (\<lambda>p w. point_stored E p s w) ps ws"
    using unnest_starts [OF assms] by blast
  have "ready_at E sp (Some k) f 0 \<lparr>srf_constants = c, user_fctx = None\<rparr>" using f(1,2) by (simp add: ready_at_def)
  note all = unnest_all [OF f(3) this]
  show ?thesis using all f(4) list_all2_lengthD [OF f(4)] by (intro exI [of _ ps]) simp
qed

section \<open>Properties\<close>

text \<open>
  C14: Calling the function on a stored patch returns its points one after the other, each as a stored point of the
  schema, in as many calls as there are points; the next call says that there are no more and drops the context.
  This holds from the start of the process and when the constants are already there.
\<close>

theorem unnest_delivers_all:
  assumes "pg_works (e_pg E)" "knows E s" "stored_as E sp s ws b st" "sizeof_point + sc_size s < 2 ^ 30"
    and "pointcloud_init_constants_cache (e_db E) None = Inr k" "c \<in> {None, Some k}"
  shows "\<exists>ps. list_all2 (\<lambda>p w. point_stored E p s w) ps ws \<and>
    (\<forall>n \<le> length ws. \<exists>st'. unnest_calls E sp n \<lparr>srf_constants = c, user_fctx = None\<rparr> = Inr (map SRF_NEXT (take n ps), st')) \<and>
    unnest_calls E sp (length ws + 1) \<lparr>srf_constants = c, user_fctx = None\<rparr> =
      Inr (map SRF_NEXT ps @ [SRF_DONE], \<lparr>srf_constants = Some k, user_fctx = None\<rparr>)"
  by (rule explode_eq [OF assms])

theorem unnest_delivers_all_witness:
  "\<exists>p q st. unnest_calls demo_env demo_datum 3 \<lparr>srf_constants = None, user_fctx = None\<rparr> = Inr ([SRF_NEXT p, SRF_NEXT q, SRF_DONE], st) \<and>
     point_stored demo_env p (demo_sql 7) [1, 2, 3, 4, 5] \<and> point_stored demo_env q (demo_sql 7) [6, 7, 8, 9, 10]"
proof -
  obtain k where k: "pointcloud_init_constants_cache (e_db demo_env) None = Inr k"
    using demo_env(4) by (auto simp: knows_def load_schema_def bindE_eq_Inr)
  from unnest_delivers_all [OF demo_env(2,4) demo_datum(1) _ k, of None] demo_sql(6) [of 7]
  obtain ps where ps: "list_all2 (\<lambda>p w. point_stored demo_env p (demo_sql 7) w) ps demo_pts"
    "unnest_calls demo_env demo_datum (length demo_pts + 1) \<lparr>srf_constants = None, user_fctx = None\<rparr> =
      Inr (map SRF_NEXT ps @ [SRF_DONE], \<lparr>srf_constants = Some k, user_fctx = None\<rparr>)" by auto
  have "length demo_pts + 1 = 3" by (simp add: demo_pts_def)
  moreover obtain p q where "ps = [p, q]" "point_stored demo_env p (demo_sql 7) [1, 2, 3, 4, 5]" "point_stored demo_env q (demo_sql 7) [6, 7, 8, 9, 10]"
    using ps(1) by (auto simp: demo_pts_def list_all2_Cons2)
  ultimately show ?thesis using ps(2) by (simp del: unnest_calls.simps)
qed

end
