(* ===== verification/PC_Sql_Array.thy ===== *)
theory PC_Sql_Array
  imports PC_Sql_Unnest
begin

text \<open>
  Patches from arrays of points, patches or numbers, and the aggregates that collect points and patches
  (pgsql/pc_access.c). Building an array is PostgreSQL's; its functions are a parameter.
\<close>

section \<open>Patches from arrays\<close>

text \<open>The schema of the first element is looked up; the numbers of the others are compared with its number.\<close>

definition element_schema ::
  "env \<Rightarrow> string \<Rightarrow> nat \<Rightarrow> PCSCHEMA option \<times> nat \<times> session \<Rightarrow> (PCSCHEMA \<times> PCSCHEMA option \<times> nat \<times> session) res" where
  "element_schema E mismatch elem_pcid = (\<lambda>(schema, pcid, ss).
     bindE (case schema of None \<Rightarrow> pc_schema_from_pcid (e_db E) elem_pcid ss | Some s \<Rightarrow> Inr (Some s, ss)) (\<lambda>(schema, ss).
     bindE (if pcid = 0 then Inr elem_pcid else if pcid \<noteq> elem_pcid then Inl (PcError mismatch) else Inr pcid) (\<lambda>pcid.
     case schema of None \<Rightarrow> Inl OutOfBounds | Some s \<Rightarrow> Inr (s, schema, pcid, ss))))"

text \<open>The loop over the elements: what \<open>f\<close> does with an element that is not null, and the place of the next.\<close>

definition each_element :: "('a \<Rightarrow> 's \<Rightarrow> 's res) \<Rightarrow> 'a ArrayType \<Rightarrow> nat \<Rightarrow> 's \<times> nat \<Rightarrow> ('s \<times> nat) res" where
  "each_element f array i = (\<lambda>(st, offset). bindE (array_get_isnull (arr_nullbitmap array) i) (\<lambda>isnull.
     if isnull then Inr (st, offset)
     else bindE (rdx (arr_items array) offset) (\<lambda>x. bindE (f x st) (\<lambda>st. Inr (st, offset + 1)))))"

definition add_element ::
  "env \<Rightarrow> SERIALIZED_POINT \<Rightarrow> PCPOINTLIST \<times> PCSCHEMA option \<times> nat \<times> session \<Rightarrow> (PCPOINTLIST \<times> PCSCHEMA option \<times> nat \<times> session) res" where
  "add_element E serpt = (\<lambda>(pl, sc).
     bindE (element_schema E ''pcpatch_from_point_array: pcid mismatch (%d != %d)'' (spt_pcid serpt) sc) (\<lambda>(schema, sc).
     bindE (pc_point_deserialize (e_pg E) serpt schema) (\<lambda>pt.
     bindE (pc_pointlist_add_point pl (Some pt)) (\<lambda>pl. Inr (pl, sc)))))"

definition pcpatch_from_point_array :: "env \<Rightarrow> SERIALIZED_POINT ArrayType \<Rightarrow> session \<Rightarrow> (patch option \<times> session) res" where
  "pcpatch_from_point_array E array ss = (let nelems = ArrayGetNItems (arr_dims array) in
     if nelems = 0 then Inr (None, ss)
     else bindE (foldE (each_element (add_element E) array) [0..<nat nelems] ((pc_pointlist_make (nat nelems), None, 0, ss), 0))
       (\<lambda>((pl, _, _, ss), _). if pl_npoints pl = 0 then Inr (None, ss)
         else bindE (pc_patch_from_pointlist (Some pl)) (\<lambda>pa. Inr (Some pa, ss))))"

definition list_element ::
  "env \<Rightarrow> SERIALIZED_PATCH \<Rightarrow> patch list \<times> PCSCHEMA option \<times> nat \<times> session \<Rightarrow> (patch list \<times> PCSCHEMA option \<times> nat \<times> session) res" where
  "list_element E serpatch = (\<lambda>(palist, sc).
     bindE (element_schema E ''pcpatch_from_patch_array: pcid mismatch (%d != %d)'' (sp_pcid serpatch) sc) (\<lambda>(schema, sc).
     bindE (pc_patch_deserialize (e_pg E) serpatch schema) (\<lambda>pa. Inr (palist @ [pa], sc))))"

definition pcpatch_from_patch_array :: "env \<Rightarrow> SERIALIZED_PATCH ArrayType \<Rightarrow> session \<Rightarrow> (patch option \<times> session) res" where
  "pcpatch_from_patch_array E array ss = (let nelems = ArrayGetNItems (arr_dims array) in
     if nelems = 0 then Inr (None, ss)
     else bindE (foldE (each_element (list_element E) array) [0..<nat nelems] (([], None, 0, ss), 0))
       (\<lambda>((palist, _, _, ss), _). if palist = [] then Inr (None, ss)
         else bindE (pc_patch_from_patchlist (e_zlib E) (e_laz E) palist) (\<lambda>pa. Inr (Some (Uncompressed pa), ss))))"

text \<open>What the functions of SQL do with the patch, if there is one.\<close>

definition store_if_any :: "env \<Rightarrow> (patch option \<times> session) res \<Rightarrow> (SERIALIZED_PATCH option \<times> session) res" where
  "store_if_any E r = bindE r (\<lambda>(pa, ss). case pa of None \<Rightarrow> Inr (None, ss) | Some pa \<Rightarrow> store_patch E pa ss)"

definition pcpatch_from_pcpatch_array :: "env \<Rightarrow> SERIALIZED_PATCH ArrayType option \<Rightarrow> session \<Rightarrow> (SERIALIZED_PATCH option \<times> session) res" where
  "pcpatch_from_pcpatch_array E arg ss = (case arg of None \<Rightarrow> Inr (None, ss)
     | Some array \<Rightarrow> store_if_any E (pcpatch_from_patch_array E array ss))"

definition pcpatch_from_pcpoint_array :: "env \<Rightarrow> SERIALIZED_POINT ArrayType option \<Rightarrow> session \<Rightarrow> (SERIALIZED_PATCH option \<times> session) res" where
  "pcpatch_from_pcpoint_array E arg ss = (case arg of None \<Rightarrow> Inr (None, ss)
     | Some array \<Rightarrow> store_if_any E (pcpatch_from_point_array E array ss))"

text \<open>Dividing by the number of dimensions has no result when a schema has none.\<close>

definition pcpatch_from_float_array :: "env \<Rightarrow> int \<Rightarrow> double ArrayType \<Rightarrow> session \<Rightarrow> (SERIALIZED_PATCH option \<times> session) res" where
  "pcpatch_from_float_array E pcid arrptr ss = bindE (pc_schema_from_pcid (e_db E) (u32 pcid) ss) (\<lambda>(schema, ss). case schema of
     None \<Rightarrow> Inl (PcError ''unable to load schema for pcid = %d'')
   | Some schema \<Rightarrow>
       if arr_elemtype arrptr \<noteq> FLOAT8OID then Inl (PcError ''array must be of float8[]'')
       else if length (arr_dims arrptr) \<noteq> 1 then Inl (PcError ''float8[] must have one dimension'')
       else if arr_nullbitmap arrptr \<noteq> None then Inl (PcError ''float8[] must not have null elements'')
       else let ndims = sc_ndims schema; nelems = nat (arr_dims arrptr ! 0) in
         if ndims = 0 then Inl Unspecified
         else if nelems mod ndims \<noteq> 0 then Inl (PcError ''array dimensions do not match schema dimensions of pcid = %d'')
         else let npoints = nelems div ndims in
           bindE (foldE (\<lambda>i pl. bindE (pc_point_from_double_array (Some schema) (arr_items arrptr) (i * ndims) ndims) (\<lambda>pt.
               pc_pointlist_add_point pl (Some pt))) [0..<npoints] (pc_pointlist_make nelems)) (\<lambda>pl.
           bindE (pc_patch_from_pointlist (Some pl)) (\<lambda>pa. store_patch E pa ss)))"

section \<open>Aggregates\<close>

text \<open>
  The functions of PostgreSQL that build an array: appending an element, or null, to a state that may be missing;
  the number of elements of a state; and the array of a state with given dimensions and lower bounds.
\<close>

record ('s, 'a) builder =
  accumArrayResult :: "'s option \<Rightarrow> 'a option \<Rightarrow> 's"
  state_nelems :: "'s \<Rightarrow> int"
  makeMdArrayResult :: "'s \<Rightarrow> int list \<Rightarrow> int list \<Rightarrow> 'a ArrayType"

record 's abs_trans =
  abs_s :: "'s option"

definition pointcloud_agg_transfn ::
  "('s, 'a) builder \<Rightarrow> nat \<Rightarrow> bool \<Rightarrow> 's abs_trans option \<Rightarrow> 'a option \<Rightarrow> 's abs_trans res" where
  "pointcloud_agg_transfn B arg1_typeid in_aggregate arg0 elem =
     (if arg1_typeid = 0 then Inl (PcError ''could not determine input data type'')
      else if \<not> in_aggregate then Inl (PcError ''pointcloud_agg_transfn called in non-aggregate context'')
      else let a = (case arg0 of None \<Rightarrow> \<lparr>abs_s = None\<rparr> | Some a \<Rightarrow> a)
           in Inr (a\<lparr>abs_s := Some (accumArrayResult B (abs_s a) elem)\<rparr>))"

definition pointcloud_agg_final :: "('s, 'a) builder \<Rightarrow> 's abs_trans \<Rightarrow> 'a ArrayType res" where
  "pointcloud_agg_final B a = (case abs_s a of None \<Rightarrow> Inl OutOfBounds
     | Some state \<Rightarrow> Inr (makeMdArrayResult B state [state_nelems B state] [1]))"

definition pcpoint_agg_final_array :: "('s, SERIALIZED_POINT) builder \<Rightarrow> 's abs_trans option \<Rightarrow> SERIALIZED_POINT ArrayType option res" where
  "pcpoint_agg_final_array B arg = (case arg of None \<Rightarrow> Inr None
     | Some a \<Rightarrow> bindE (pointcloud_agg_final B a) (\<lambda>result. Inr (Some result)))"

definition pcpatch_agg_final_array :: "('s, SERIALIZED_PATCH) builder \<Rightarrow> 's abs_trans option \<Rightarrow> SERIALIZED_PATCH ArrayType option res" where
  "pcpatch_agg_final_array B arg = (case arg of None \<Rightarrow> Inr None
     | Some a \<Rightarrow> bindE (pointcloud_agg_final B a) (\<lambda>result. Inr (Some result)))"

definition pcpoint_agg_final_pcpatch ::
  "env \<Rightarrow> ('s, SERIALIZED_POINT) builder \<Rightarrow> 's abs_trans option \<Rightarrow> session \<Rightarrow> (SERIALIZED_PATCH option \<times> session) res" where
  "pcpoint_agg_final_pcpatch E B arg ss = (case arg of None \<Rightarrow> Inr (None, ss)
     | Some a \<Rightarrow> bindE (pointcloud_agg_final B a) (\<lambda>array. store_if_any E (pcpatch_from_point_array E array ss)))"

definition pcpatch_agg_final_pcpatch ::
  "env \<Rightarrow> ('s, SERIALIZED_PATCH) builder \<Rightarrow> 's abs_trans option \<Rightarrow> session \<Rightarrow> (SERIALIZED_PATCH option \<times> session) res" where
  "pcpatch_agg_final_pcpatch E B arg ss = (case arg of None \<Rightarrow> Inr (None, ss)
     | Some a \<Rightarrow> bindE (pointcloud_agg_final B a) (\<lambda>array. store_if_any E (pcpatch_from_patch_array E array ss)))"

section \<open>The elements of an array\<close>

text \<open>The array has the elements \<open>xs\<close>, null where \<open>None\<close>.\<close>

definition elements :: "'a option list \<Rightarrow> 'a list" where
  "elements xs = map the (filter (\<lambda>x. x \<noteq> None) xs)"

definition array_of :: "'a ArrayType \<Rightarrow> 'a option list \<Rightarrow> bool" where
  "array_of a xs = (ArrayGetNItems (arr_dims a) = int (length xs) \<and> arr_items a = elements xs \<and>
     (case arr_nullbitmap a of None \<Rightarrow> None \<notin> set xs
      | Some b \<Rightarrow> length xs \<le> 8 * length b \<and> (\<forall>i < length xs. bit (b ! (i div 8)) (i mod 8) = (xs ! i \<noteq> None))))"

text \<open>The law of the functions that build an array: it has the elements that were appended.\<close>

fun accumulate :: "('s, 'a) builder \<Rightarrow> 's option \<Rightarrow> 'a option list \<Rightarrow> 's option" where
  "accumulate B s [] = s"
| "accumulate B s (x # xs) = accumulate B (Some (accumArrayResult B s x)) xs"

definition builds :: "('s, 'a) builder \<Rightarrow> bool" where
  "builds B = (\<forall>xs s. accumulate B None xs = Some s \<longrightarrow> state_nelems B s = int (length xs) \<and>
     array_of (makeMdArrayResult B s [state_nelems B s] [1]) xs)"

lemma elements_snoc: "elements (xs @ [x]) = elements xs @ (case x of None \<Rightarrow> [] | Some y \<Rightarrow> [y])"
  by (simp add: elements_def split: option.split)

lemma isnull_at:
  assumes "array_of a xs" "i < length xs"
  shows "array_get_isnull (arr_nullbitmap a) i = Inr (xs ! i = None)"
proof (cases "arr_nullbitmap a")
  case None
  then show ?thesis using assms by (force simp: array_of_def array_get_isnull_def in_set_conv_nth)
next
  case (Some b)
  then have "i div 8 < length b" using assms by (auto simp: array_of_def)
  then show ?thesis using Some assms by (simp add: array_of_def array_get_isnull_def rdx_def)
qed

text \<open>The loop does \<open>f\<close> with the elements that are not null, in their order.\<close>

lemma each_element_eq:
  assumes "array_of a xs"
  shows "foldE (each_element f a) [0..<length xs] (st, 0) = bindE (foldE f (elements xs) st) (\<lambda>st. Inr (st, length (elements xs)))"
proof -
  have "foldE (each_element f a) [0..<n] (st, 0) =
      bindE (foldE f (elements (take n xs)) st) (\<lambda>st. Inr (st, length (elements (take n xs))))" if "n \<le> length xs" for n
    using that
  proof (induction n)
    case (Suc n)
    have e: "elements (take (Suc n) xs) = elements (take n xs) @ (case xs ! n of None \<Rightarrow> [] | Some y \<Rightarrow> [y])"
      using Suc.prems by (simp add: take_Suc_conv_app_nth elements_snoc)
    note ih = Suc.IH [OF Suc_leD [OF Suc.prems]]
    show ?case
    proof (cases "xs ! n")
      case None
      then show ?thesis unfolding foldE_upt_Suc e ih using Suc.prems isnull_at [OF assms, of n] by (simp add: each_element_def bindE_assoc)
    next
      case (Some y)
      have "elements xs = elements (take (Suc n) xs) @ elements (drop (Suc n) xs)"
        by (simp add: elements_def flip: map_append filter_append)
      then have "rdx (arr_items a) (length (elements (take n xs))) = Inr y"
        using assms Some by (simp add: array_of_def rdx_def e nth_append)
      then show ?thesis unfolding foldE_upt_Suc e ih using Suc.prems Some isnull_at [OF assms, of n]
        by (simp add: each_element_def bindE_assoc foldE_append)
    qed
  qed (simp add: elements_def)
  from this [of "length xs"] show ?thesis by simp
qed

section \<open>Loops over elements of one schema\<close>

text \<open>The schema is not known yet, or it is that of the elements.\<close>

definition schema_state :: "env \<Rightarrow> PCSCHEMA \<Rightarrow> PCSCHEMA option \<times> nat \<times> session \<Rightarrow> bool" where
  "schema_state E s sc = ((fst sc = None \<and> fst (snd sc) = 0 \<or> fst sc = Some s \<and> fst (snd sc) = sc_pcid s) \<and> reachable (e_db E) (snd (snd sc)))"

lemma element_schema_ok:
  assumes "knows E s" "schema_state E s sc"
  shows "\<exists>sc'. element_schema E m (sc_pcid s) sc = Inr (s, sc') \<and> schema_state E s sc' \<and> fst sc' = Some s"
proof -
  obtain sch pcid ss where sc: "sc = (sch, pcid, ss)" by (cases sc)
  show ?thesis
  proof (cases "sch = None")
    case True
    obtain ss' where "pc_schema_from_pcid (e_db E) (sc_pcid s) ss = Inr (Some s, ss')" "reachable (e_db E) ss'"
      using cached.look_ok [of "e_db E" ss "sc_pcid s" s] assms by (auto simp: knows_def schema_state_def sc)
    then show ?thesis using True assms by (auto simp: schema_state_def sc element_schema_def knows_def)
  next
    case False
    then show ?thesis using assms by (auto simp: schema_state_def sc element_schema_def knows_def)
  qed
qed

lemma element_schema_mismatch:
  assumes "knows E s" "schema_state E s sc" "fst sc = Some s" "elem_pcid \<noteq> sc_pcid s"
  shows "element_schema E m elem_pcid sc = Inl (PcError m)"
  using assms by (cases sc) (auto simp: schema_state_def element_schema_def knows_def)

lemma add_elements:
  assumes "knows E s" "schema_ready s" "list_all2 (\<lambda>x w. point_stored E x s w) xs ws" "schema_state E s sc"
    and "pl_ok pl ps" "same_schema ps s" "length ps + length xs \<le> 2 ^ 31"
  shows "\<exists>pl' ps' sc'. foldE (add_element E) xs (pl, sc) = Inr (pl', sc') \<and> pl_ok pl' ps' \<and> same_schema ps' s \<and>
    point_bytes s ps' = point_bytes s ps @ ws \<and> schema_state E s sc' \<and> (xs \<noteq> [] \<longrightarrow> fst sc' = Some s)"
  using assms(3-)
proof (induction xs ws arbitrary: pl ps sc rule: list_all2_induct)
  case Nil
  then show ?case by auto
next
  case (Cons x xs w ws)
  obtain sc1 where sc1: "element_schema E ''pcpatch_from_point_array: pcid mismatch (%d != %d)'' (sc_pcid s) sc = Inr (s, sc1)"
    "schema_state E s sc1" "fst sc1 = Some s" using element_schema_ok [OF assms(1) Cons.prems(1)] by blast
  obtain junk where d: "spt_pcid x = sc_pcid s" "length w = sc_size s"
    "pc_point_deserialize (e_pg E) x s = Inr \<lparr>pt_readonly = PC_TRUE, pt_schema = s, pt_data = w @ junk\<rparr>"
    using Cons.hyps(1) by (auto simp: point_stored_def)
  let ?p = "\<lparr>pt_readonly = PC_TRUE, pt_schema = s, pt_data = w @ junk\<rparr>"
  obtain pl1 where pl1: "pc_pointlist_add_point pl (Some ?p) = Inr pl1" "pl_ok pl1 (ps @ [?p])"
    using pointlist_add_ok [OF Cons.prems(2), of ?p] Cons.prems(4) by auto
  have "same_schema (ps @ [?p]) s" "length (ps @ [?p]) + length xs \<le> 2 ^ 31"
    using Cons.prems(3,4) d(2) assms(2) by (simp_all add: same_schema_def)
  from Cons.IH [OF sc1(2) pl1(2) this] obtain pl' ps' sc' where "foldE (add_element E) xs (pl1, sc1) = Inr (pl', sc')" "pl_ok pl' ps'"
    "same_schema ps' s" "point_bytes s ps' = point_bytes s (ps @ [?p]) @ ws" "schema_state E s sc'" "xs \<noteq> [] \<longrightarrow> fst sc' = Some s"
    by blast
  moreover have "add_element E x (pl, sc) = Inr (pl1, sc1)" using sc1(1) d(1,3) pl1(1) by (simp add: add_element_def)
  moreover have "xs = [] \<Longrightarrow> sc' = sc1" using calculation(1) by simp
  ultimately show ?case using d(2) sc1(3) by (cases "xs = []") (auto simp: point_bytes_def)
qed

lemma list_elements:
  assumes "knows E s" "list_all2 (\<lambda>x ws. \<exists>b st. stored_as E x s ws b st) xs wss" "schema_state E s sc"
  shows "\<exists>qs sc'. foldE (list_element E) xs (pas, sc) = Inr (pas @ qs, sc') \<and> holds_all (e_zlib E) (e_laz E) s qs wss \<and>
    map p_bounds qs = map sp_bounds xs \<and> schema_state E s sc' \<and> (xs \<noteq> [] \<longrightarrow> fst sc' = Some s)"
  using assms(2-)
proof (induction xs wss arbitrary: pas sc rule: list_all2_induct)
  case Nil
  then show ?case by (auto simp: holds_all_def)
next
  case (Cons x xs ws wss)
  obtain b st where x: "stored_as E x s ws b st" using Cons.hyps(1) by blast
  then have h: "sp_pcid x = sc_pcid s" "sp_bounds x = b" by (simp_all add: stored_as_def)
  obtain sc1 where sc1: "element_schema E ''pcpatch_from_patch_array: pcid mismatch (%d != %d)'' (sc_pcid s) sc = Inr (s, sc1)"
    "schema_state E s sc1" "fst sc1 = Some s" using element_schema_ok [OF assms(1) Cons.prems] by blast
  obtain q where q: "pc_patch_deserialize (e_pg E) x s = Inr q" "patch_holds (e_zlib E) (e_laz E) q ws" "p_schema q = s" "p_bounds q = b"
    by (rule stored_patchE [OF x]) blast
  obtain qs sc' where r: "foldE (list_element E) xs (pas @ [q], sc1) = Inr ((pas @ [q]) @ qs, sc')" "holds_all (e_zlib E) (e_laz E) s qs wss"
    "map p_bounds qs = map sp_bounds xs" "schema_state E s sc'" "xs \<noteq> [] \<longrightarrow> fst sc' = Some s"
    using Cons.IH [OF sc1(2)] by blast
  have "list_element E x (pas, sc) = Inr (pas @ [q], sc1)" using sc1(1) h(1) q(1) by (simp add: list_element_def)
  moreover have "xs = [] \<Longrightarrow> sc' = sc1" using r(1) by simp
  moreover have "holds_all (e_zlib E) (e_laz E) s (q # qs) (ws # wss)" using r(2) q(2,3) by (simp add: holds_all_def)
  ultimately show ?case using r q(4) h(2) sc1(3) by (intro exI [of _ "q # qs"] exI [of _ sc']) (cases "xs = []"; simp)
qed

section \<open>The patches that the loops make\<close>

lemma array_size: "array_of a xs \<Longrightarrow> nat (ArrayGetNItems (arr_dims a)) = length xs \<and> (ArrayGetNItems (arr_dims a) = 0 \<longleftrightarrow> xs = [])"
  by (auto simp: array_of_def)

lemma no_elements: "elements xs = [] \<longleftrightarrow> set xs \<subseteq> {None}"
  by (auto simp: elements_def filter_empty_conv)

lemma from_point_array_eq:
  assumes E: "knows E s" "reachable (e_db E) ss" and a: "array_of a xs" "length xs < 2 ^ 26"
    and w: "list_all2 (\<lambda>x w. point_stored E x s w) (elements xs) ws" and s: "schema_ready s" "has_xy s ix iy" "0 < sc_size s"
  shows "if ws = [] then \<exists>ss'. pcpatch_from_point_array E a ss = Inr (None, ss')
    else \<exists>ss'. pcpatch_from_point_array E a ss = bindE (stats_of s ws) (\<lambda>st.
        Inr (Some (Uncompressed ((patch_of s ix iy ws)\<lparr>pa_stats := Some st\<rparr>)), ss')) \<and> reachable (e_db E) ss'"
proof (cases "xs = []")
  case True
  then show ?thesis using array_size [OF a(1)] w by (simp add: pcpatch_from_point_array_def elements_def)
next
  case False
  let ?pl = "pc_pointlist_make (length xs)"
  have pl: "pl_ok ?pl []" using a(2) by (intro pointlist_make_ok) simp
  have sc: "schema_state E s (None, 0, ss)" using E(2) by (simp add: schema_state_def)
  have ne: "length (elements xs) \<le> length xs" by (simp add: elements_def)
  obtain pl' ps' sch pcid ss' where f: "foldE (add_element E) (elements xs) (?pl, None, 0, ss) = Inr (pl', sch, pcid, ss')" "pl_ok pl' ps'"
    "same_schema ps' s" "point_bytes s ps' = ws" "reachable (e_db E) ss'"
    using add_elements [OF E(1) s(1) w sc pl] ne a(2) s(1) by (fastforce simp: same_schema_def point_bytes_def schema_state_def)
  have n: "pl_npoints pl' = length ws" using f(2,4) by (auto simp: pl_ok_def point_bytes_def)
  have run: "pcpatch_from_point_array E a ss = (if ws = [] then Inr (None, ss')
      else bindE (pc_patch_from_pointlist (Some pl')) (\<lambda>pa. Inr (Some pa, ss')))"
    using array_size [OF a(1)] False n by (simp add: pcpatch_from_point_array_def Let_def each_element_eq [OF a(1)] f(1))
  show ?thesis
  proof (cases "ws = []")
    case False
    then have "ps' \<noteq> []" using f(4) by (auto simp: point_bytes_def)
    moreover have "length ps' = length ws" using f(4) by (auto simp: point_bytes_def)
    ultimately
    have "pc_patch_from_pointlist (Some pl') = bindE (stats_of s ws) (\<lambda>st. Inr (Uncompressed ((patch_of s ix iy ws)\<lparr>pa_stats := Some st\<rparr>)))"
      using from_pointlist_eq [OF f(2) _ f(3) s(2,3)] f(4) by (simp add: pc_patch_from_pointlist_def stats_of_def bindE_assoc)
    then have "pcpatch_from_point_array E a ss = bindE (stats_of s ws) (\<lambda>st.
        Inr (Some (Uncompressed ((patch_of s ix iy ws)\<lparr>pa_stats := Some st\<rparr>)), ss'))" using run False by (simp add: bindE_assoc)
    then show ?thesis unfolding if_not_P [OF False] using f(5) by blast
  qed (use run in simp)
qed

lemma points_stored_ok:
  assumes "schema_ready s" "list_all2 (\<lambda>x w. point_stored E x s w) xs ws" "length xs < 2 ^ 26"
  shows "points_ok s ws"
proof -
  have "length w = sc_size s" if "w \<in> set ws" for w
    using assms(2) that by (auto simp: list_all2_conv_all_nth in_set_conv_nth point_stored_def)
  then show ?thesis using assms(1,3) list_all2_lengthD [OF assms(2)] by (simp add: points_ok_def widths_def)
qed

lemma point_array_stored:
  assumes E: "pg_works (e_pg E)" "reachable (e_db E) ss" "knows E s" and a: "array_of a xs" "length xs < 2 ^ 26"
    and w: "list_all2 (\<lambda>x w. point_stored E x s w) (elements xs) ws" and s: "schema_ready s" "has_xy s ix iy" "0 < sc_size s"
    and v: "ws \<noteq> [] \<longrightarrow> stats_defined s ws \<and> can_store E s ws"
  shows "if ws = [] then \<exists>ss'. store_if_any E (pcpatch_from_point_array E a ss) = Inr (None, ss')
    else \<exists>st. stats_of s ws = Inr st \<and> gives E (store_if_any E (pcpatch_from_point_array E a ss)) s ws (extent s ix iy ws) st"
proof (cases "ws = []")
  case True
  then show ?thesis using from_point_array_eq [OF E(3,2) a w s] by (auto simp: store_if_any_def)
next
  case False
  obtain st where st: "stats_of s ws = Inr st" using stats_of_total [OF s(1)] v False by blast
  obtain ss' where f: "pcpatch_from_point_array E a ss = Inr (Some (Uncompressed ((patch_of s ix iy ws)\<lparr>pa_stats := Some st\<rparr>)), ss')"
    "reachable (e_db E) ss'" using from_point_array_eq [OF E(3,2) a w s] False st by auto
  have "length (elements xs) \<le> length xs" by (simp add: elements_def)
  then have "points_ok s ws" using points_stored_ok [OF s(1) w] a(2) by simp
  then have "gives E (store_patch E (Uncompressed ((patch_of s ix iy ws)\<lparr>pa_stats := Some st\<rparr>)) ss') s ws (extent s ix iy ws) st"
    using store_patch_of [OF E(1) f(2) _ _ stats_of_ok [OF s(1) st], where ws = ws and ix = ix and iy = iy and b = "extent s ix iy ws"] v False by (simp add: own_box)
  then show ?thesis using False st f(1) by (simp add: store_if_any_def)
qed

lemma patch_array_stored:
  assumes E: "pg_works (e_pg E)" "reachable (e_db E) ss" "knows E s" and a: "array_of a xs"
    and w: "list_all2 (\<lambda>x ws. \<exists>b st. stored_as E x s ws b st) (elements xs) wss" "length (concat wss) < 2 ^ 26"
    and s: "0 < sc_size s" and v: "wss \<noteq> [] \<longrightarrow> stats_defined s (concat wss) \<and> can_store E s (concat wss)"
  shows "if wss = [] then \<exists>ss'. store_if_any E (pcpatch_from_patch_array E a ss) = Inr (None, ss')
    else \<exists>st. stats_of s (concat wss) = Inr st \<and> gives E (store_if_any E (pcpatch_from_patch_array E a ss)) s (concat wss)
      (fold (\<lambda>x b. pc_bounds_merge b (sp_bounds x)) (elements xs) pc_bounds_init) st"
proof (cases "wss = []")
  case True
  then have "elements xs = []" using w(1) by simp
  then show ?thesis using True array_size [OF a]
    by (simp add: store_if_any_def pcpatch_from_patch_array_def Let_def each_element_eq [OF a])
next
  case False
  have sc: "schema_state E s (None, 0, ss)" using E(2) by (simp add: schema_state_def)
  obtain qs sch pcid ss' where f: "foldE (list_element E) (elements xs) ([], None, 0, ss) = Inr (qs, sch, pcid, ss')"
    "holds_all (e_zlib E) (e_laz E) s qs wss" "map p_bounds qs = map sp_bounds (elements xs)" "reachable (e_db E) ss'"
    using list_elements [OF E(3) w(1) sc, of "[]"] by (fastforce simp: schema_state_def)
  have qs: "qs \<noteq> []" using f(2) False by (auto simp: holds_all_def)
  have xs: "xs \<noteq> []" using w(1) False by (auto simp: elements_def)
  let ?b = "fold (\<lambda>x b. pc_bounds_merge b (sp_bounds x)) (elements xs) pc_bounds_init"
  have b: "fold (\<lambda>pa b. pc_bounds_merge b (p_bounds pa)) qs pc_bounds_init = ?b"
    using arg_cong [OF f(3), of "\<lambda>bs. fold (\<lambda>x b. pc_bounds_merge b x) bs pc_bounds_init"] by (simp add: fold_map comp_def)
  obtain st where st: "stats_of s (concat wss) = Inr st" "pc_patch_from_patchlist (e_zlib E) (e_laz E) qs =
      Inr ((patch_of s 0 0 (concat wss))\<lparr>pa_bounds := ?b, pa_stats := Some st\<rparr>)"
    using from_patchlist_eq [OF f(2) qs s w(2)] v False b by metis
  have ok: "points_ok s (concat wss)" by (rule holds_all_points [OF f(2) qs w(2)])
  then have "schema_ready s" by (simp add: points_ok_def)
  have "gives E (store_patch E (Uncompressed ((patch_of s 0 0 (concat wss))\<lparr>pa_bounds := ?b, pa_stats := Some st\<rparr>)) ss') s (concat wss) ?b st"
    using store_patch_of [OF E(1) f(4) _ ok stats_of_ok [OF \<open>schema_ready s\<close> st(1)]] v False by blast
  moreover have "pcpatch_from_patch_array E a ss =
      Inr (Some (Uncompressed ((patch_of s 0 0 (concat wss))\<lparr>pa_bounds := ?b, pa_stats := Some st\<rparr>)), ss')"
    using array_size [OF a] xs qs st(2) by (simp add: pcpatch_from_patch_array_def Let_def each_element_eq [OF a] f(1))
  ultimately show ?thesis using False st(1) by (simp add: store_if_any_def)
qed

section \<open>Runs of an aggregate\<close>

text \<open>The transition function for one value after the other, from the state that is missing.\<close>

definition agg_run :: "('s, 'a) builder \<Rightarrow> nat \<Rightarrow> 'a option list \<Rightarrow> 's abs_trans option res" where
  "agg_run B t xs = foldE (\<lambda>x arg. bindE (pointcloud_agg_transfn B t True arg x) (\<lambda>a. Inr (Some a))) xs None"

lemma agg_run_eq:
  assumes "t \<noteq> 0" "xs \<noteq> []"
  shows "\<exists>s. agg_run B t xs = Inr (Some \<lparr>abs_s = Some s\<rparr>) \<and> accumulate B None xs = Some s"
proof -
  let ?f = "\<lambda>x arg. bindE (pointcloud_agg_transfn B t True arg x) (\<lambda>a. Inr (Some a))"
  have some: "foldE ?f ys (Some \<lparr>abs_s = s\<rparr>) = Inr (Some \<lparr>abs_s = accumulate B s ys\<rparr>)" for ys s
    using assms(1) by (induction ys arbitrary: s) (simp_all add: pointcloud_agg_transfn_def)
  have state: "\<exists>s'. accumulate B (Some s) ys = Some s'" for s ys by (induction ys arbitrary: s) simp_all
  obtain x ys where "xs = x # ys" using assms(2) by (cases xs) simp_all
  then show ?thesis using some assms(1) state [of "accumArrayResult B None x" ys]
    by (auto simp: agg_run_def pointcloud_agg_transfn_def)
qed

lemma agg_final:
  assumes "builds B" "t \<noteq> 0" "xs \<noteq> []"
  shows "\<exists>a arr. agg_run B t xs = Inr (Some a) \<and> pointcloud_agg_final B a = Inr arr \<and> array_of arr xs"
  using agg_run_eq [OF assms(2,3), of B] assms(1) by (fastforce simp: builds_def pointcloud_agg_final_def)

text \<open>Elements of which one has another schema number than those before it.\<close>

lemma add_elements_mismatch:
  assumes "knows E s" "schema_ready s" "list_all2 (\<lambda>x w. point_stored E x s w) pre ws" "pre \<noteq> []" "spt_pcid x \<noteq> sc_pcid s"
    and "schema_state E s sc" "length pre < 2 ^ 31" "n < 2 ^ 32"
  shows "foldE (add_element E) (pre @ x # post) (pc_pointlist_make n, sc) =
    Inl (PcError ''pcpatch_from_point_array: pcid mismatch (%d != %d)'')"
proof -
  obtain pl' sc' where "foldE (add_element E) pre (pc_pointlist_make n, sc) = Inr (pl', sc')" "schema_state E s sc'" "fst sc' = Some s"
    using add_elements [OF assms(1-3,6) pointlist_make_ok [OF assms(8)]] assms(2,4,7) by (fastforce simp: same_schema_def)
  then show ?thesis using element_schema_mismatch [OF assms(1) _ _ assms(5)] by (simp add: foldE_append add_element_def)
qed

lemma list_elements_mismatch:
  assumes "knows E s" "list_all2 (\<lambda>x ws. \<exists>b st. stored_as E x s ws b st) pre wss" "pre \<noteq> []" "sp_pcid x \<noteq> sc_pcid s" "schema_state E s sc"
  shows "foldE (list_element E) (pre @ x # post) ([], sc) = Inl (PcError ''pcpatch_from_patch_array: pcid mismatch (%d != %d)'')"
proof -
  obtain qs sc' where "foldE (list_element E) pre ([], sc) = Inr (qs, sc')" "schema_state E s sc'" "fst sc' = Some s"
    using list_elements [OF assms(1,2,5), of "[]"] assms(3) by auto
  then show ?thesis using element_schema_mismatch [OF assms(1) _ _ assms(4)] by (simp add: foldE_append list_element_def)
qed

section \<open>The example\<close>

text \<open>Arrays that are built as lists.\<close>

definition null_bitmap :: "'a option list \<Rightarrow> byte list" where
  "null_bitmap l = map (\<lambda>k. horner_sum of_bool 2 (map (\<lambda>j. 8 * k + j < length l \<and> l ! (8 * k + j) \<noteq> None) [0..<8])) [0..<length l div 8 + 1]"

definition list_builder :: "('a option list, 'a) builder" where
  "list_builder = \<lparr>accumArrayResult = (\<lambda>s x. (case s of None \<Rightarrow> [] | Some l \<Rightarrow> l) @ [x]), state_nelems = (\<lambda>l. int (length l)),
     makeMdArrayResult = (\<lambda>l dims lbs. \<lparr>arr_elemtype = 1, arr_dims = dims, arr_lbound = lbs, arr_nullbitmap = Some (null_bitmap l),
       arr_items = elements l\<rparr>)\<rparr>"

lemma null_bitmap_bit:
  assumes "i < length l"
  shows "i div 8 < length (null_bitmap l)" "bit (null_bitmap l ! (i div 8)) (i mod 8) = (l ! i \<noteq> None)"
proof -
  show "i div 8 < length (null_bitmap l)" using assms by (simp add: null_bitmap_def less_Suc_eq_le div_le_mono)
  have "i div 8 < length l div 8 + 1" using assms by (simp add: less_Suc_eq_le div_le_mono)
  then show "bit (null_bitmap l ! (i div 8)) (i mod 8) = (l ! i \<noteq> None)"
    using assms by (simp add: null_bitmap_def bit_horner_sum_bit_word_iff nth_append del: upt_Suc)
qed

lemma list_builder_works: "builds list_builder"
proof -
  have a: "accumulate list_builder (Some l) xs = Some (l @ xs)" for l xs
    by (induction xs arbitrary: l) (simp_all add: list_builder_def)
  have n: "l = xs" if "accumulate list_builder None xs = Some l" for xs l
    using that a [of "[hd xs]" "tl xs"] by (cases xs) (simp_all add: list_builder_def)
  have "length l \<le> 8 * length (null_bitmap l)" for l :: "'a option list"
    by (simp add: null_bitmap_def)
  then have "array_of (makeMdArrayResult list_builder l [int (length l)] [1]) l" for l :: "'a option list"
    by (simp add: array_of_def list_builder_def ArrayGetNItems_def null_bitmap_bit(2))
  moreover have "state_nelems list_builder l = int (length l)" for l :: "'a option list" by (simp add: list_builder_def)
  ultimately show ?thesis using n by (auto simp: builds_def)
qed

lemma demo_stats_twice: "stats_defined demo_xy (demo_pts @ demo_pts)"
proof -
  have ds: "dim_stat demo_xy 0 (demo_pts @ demo_pts) = \<lparr>ds_min = d_of_int 67305985, ds_max = d_of_int 151521030, ds_sum = d_of_int 437654030\<rparr>"
    "dim_stat demo_xy 1 (demo_pts @ demo_pts) = \<lparr>ds_min = d_of_int 5, ds_max = d_of_int 10, ds_sum = d_of_int 30\<rparr>"
    by (simp_all add: dim_stat_def demo_pts_def stat_add_def demo_stat_facts d_add_of_int exact_int_def)
  have a: "d_div (d_of_int 437654030) (d_of_int 4) = 0x419a16120e000000" "d_div (d_of_int 30) (d_of_int 4) = 0x401E000000000000"
    by (simp_all add: fp_eval)
  have c: "lround (CLAMP 0x419a16120e000000 (- 2147483648) 2147483647) = Inr 109413508" "lround (CLAMP 0x401E000000000000 0 255) = Inr 8"
    by (simp_all add: CLAMP_def fp_eval)
  have l: "length (demo_pts @ demo_pts) = 4" by (simp add: demo_pts_def)
  show ?thesis unfolding stats_defined_def l
    by (auto simp: demo_xy_facts less_2 demo_facts demo_sizes ds [unfolded One_nat_def] Let_def a c stored_def
        lround_CLAMP demo_exact pc_value_unscale_unoffset_def unit_consts pc_double_to_ptr_def wr_def)
qed

lemma demo_points:
  "\<exists>p. point_stored demo_env p (demo_sql pcid) [1, 2, 3, 4, 5]" "\<exists>q. point_stored demo_env q (demo_sql pcid) [6, 7, 8, 9, 10]"
proof -
  have "\<exists>p. point_stored demo_env p (demo_sql pcid) w" if "length w = 5" for w
    using serialize_point [OF demo_env(2), of "\<lparr>pt_readonly = PC_FALSE, pt_schema = demo_sql pcid, pt_data = w\<rparr>" w]
      demo_sql(6,7) that by auto
  then show "\<exists>p. point_stored demo_env p (demo_sql pcid) [1, 2, 3, 4, 5]" "\<exists>q. point_stored demo_env q (demo_sql pcid) [6, 7, 8, 9, 10]"
    by simp_all
qed

section \<open>Properties\<close>

text \<open>
  C15: The aggregate that makes a patch of points, followed by the function that returns the points of a patch,
  gives the points that are not null, in their order, each as a stored point with the same bytes, and then ends; the
  patch has their box and statistics. Without any point the patch is null.
\<close>

theorem collect_then_explode:
  assumes "pg_works (e_pg E)" "reachable (e_db E) ss" "knows E s" "builds B" "t \<noteq> 0" "length xs < 2 ^ 26"
    and "list_all2 (\<lambda>x w. point_stored E x s w) (elements xs) ws" "schema_ready s" "has_xy s ix iy" "0 < sc_size s"
    and "sizeof_point + sc_size s < 2 ^ 30" "ws \<noteq> [] \<longrightarrow> stats_defined s ws \<and> can_store E s ws"
    and "pointcloud_init_constants_cache (e_db E) None = Inr k"
  shows "if ws = [] then \<exists>ss'. bindE (agg_run B t xs) (\<lambda>arg. pcpoint_agg_final_pcpatch E B arg ss) = Inr (None, ss')
    else \<exists>sp ss' st. bindE (agg_run B t xs) (\<lambda>arg. pcpoint_agg_final_pcpatch E B arg ss) = Inr (Some sp, ss') \<and>
      stats_of s ws = Inr st \<and> (data_of_patch + length (sp_data sp) < 2 ^ 30 \<longrightarrow> stored_as E sp s ws (extent s ix iy ws) st \<and>
        (\<exists>ps. list_all2 (\<lambda>p w. point_stored E p s w) ps ws \<and>
          unnest_calls E sp (length ws + 1) \<lparr>srf_constants = None, user_fctx = None\<rparr> =
            Inr (map SRF_NEXT ps @ [SRF_DONE], \<lparr>srf_constants = Some k, user_fctx = None\<rparr>)))"
proof (cases "xs = []")
  case True
  then show ?thesis using assms(7) by (simp add: agg_run_def elements_def pcpoint_agg_final_pcpatch_def)
next
  case False
  obtain a arr where a: "agg_run B t xs = Inr (Some a)" "pointcloud_agg_final B a = Inr arr" "array_of arr xs"
    using agg_final [OF assms(4,5) False] by blast
  have run: "bindE (agg_run B t xs) (\<lambda>arg. pcpoint_agg_final_pcpatch E B arg ss) = store_if_any E (pcpatch_from_point_array E arr ss)"
    using a(1,2) by (simp add: pcpoint_agg_final_pcpatch_def)
  note r = point_array_stored [OF assms(1-3) a(3) assms(6-10,12), folded run]
  have calls: "\<exists>ps. list_all2 (\<lambda>p w. point_stored E p s w) ps ws \<and>
      unnest_calls E sp (length ws + 1) \<lparr>srf_constants = None, user_fctx = None\<rparr> =
        Inr (map SRF_NEXT ps @ [SRF_DONE], \<lparr>srf_constants = Some k, user_fctx = None\<rparr>)" if p: "stored_as E sp s ws b st" for sp b st
    using explode_eq [OF assms(1,3) p assms(11,13)] by auto
  show ?thesis using r calls by (cases "ws = []") (fastforce simp: gives_def)+
qed

theorem collect_then_explode_witness:
  "\<exists>p q sp ss. point_stored demo_env p (demo_sql 7) [1, 2, 3, 4, 5] \<and> point_stored demo_env q (demo_sql 7) [6, 7, 8, 9, 10] \<and>
     bindE (agg_run list_builder 1 [Some p, None, Some q]) (\<lambda>arg. pcpoint_agg_final_pcpatch demo_env list_builder arg demo_session) = Inr (Some sp, ss)"
proof -
  obtain p q where p: "point_stored demo_env p (demo_sql 7) [1, 2, 3, 4, 5]" "point_stored demo_env q (demo_sql 7) [6, 7, 8, 9, 10]"
    using demo_points by blast
  have l: "list_all2 (\<lambda>x w. point_stored demo_env x (demo_sql 7) w) (elements [Some p, None, Some q]) demo_pts"
    using p by (simp add: elements_def demo_pts_def)
  obtain k where k: "pointcloud_init_constants_cache (e_db demo_env) None = Inr k"
    using demo_env(4) by (auto simp: knows_def load_schema_def bindE_eq_Inr)
  have c: "can_store demo_env (demo_sql 7) demo_pts" by (rule demo_can_store) (simp_all add: demo_pts_def)
  have d: "stats_defined (demo_sql 7) demo_pts" using demo_stats_defined by (simp add: demo_sql_defined)
  have "demo_pts \<noteq> []" by (simp add: demo_pts_def)
  then show ?thesis
    using collect_then_explode [OF demo_env(2-4) list_builder_works _ _ l demo_sql(7,8) _ _ _ k, of 1] c d p demo_sql(6) [of 7] by auto
qed

text \<open>
  C16: The aggregate of patches is the patch of all their points, in the order of the patches that are not null;
  its box is made of their boxes and its statistics are those of the points. The aggregate of arrays is an array with
  the values that were given, the nulls among them.
\<close>

theorem aggregate_concatenates:
  assumes "pg_works (e_pg E)" "reachable (e_db E) ss" "knows E s" "builds B" "t \<noteq> 0"
    and "list_all2 (\<lambda>x ws. \<exists>b st. stored_as E x s ws b st) (elements xs) wss" "length (concat wss) < 2 ^ 26"
    and "0 < sc_size s" "wss \<noteq> [] \<longrightarrow> stats_defined s (concat wss) \<and> can_store E s (concat wss)"
  shows "(if wss = [] then \<exists>ss'. bindE (agg_run B t xs) (\<lambda>arg. pcpatch_agg_final_pcpatch E B arg ss) = Inr (None, ss')
      else \<exists>st. stats_of s (concat wss) = Inr st \<and>
        gives E (bindE (agg_run B t xs) (\<lambda>arg. pcpatch_agg_final_pcpatch E B arg ss)) s (concat wss)
          (fold (\<lambda>x b. pc_bounds_merge b (sp_bounds x)) (elements xs) pc_bounds_init) st) \<and>
    (if xs = [] then bindE (agg_run B t xs) (pcpatch_agg_final_array B) = Inr None
      else \<exists>arr. bindE (agg_run B t xs) (pcpatch_agg_final_array B) = Inr (Some arr) \<and> array_of arr xs)"
proof (cases "xs = []")
  case True
  then show ?thesis using assms(6) by (simp add: agg_run_def elements_def pcpatch_agg_final_pcpatch_def pcpatch_agg_final_array_def)
next
  case False
  obtain a arr where a: "agg_run B t xs = Inr (Some a)" "pointcloud_agg_final B a = Inr arr" "array_of arr xs"
    using agg_final [OF assms(4,5) False] by blast
  have run: "bindE (agg_run B t xs) (\<lambda>arg. pcpatch_agg_final_pcpatch E B arg ss) = store_if_any E (pcpatch_from_patch_array E arr ss)"
    using a(1,2) by (simp add: pcpatch_agg_final_pcpatch_def)
  show ?thesis using patch_array_stored [OF assms(1-3) a(3) assms(6-9), folded run] a False by (simp add: pcpatch_agg_final_array_def)
qed

theorem aggregate_concatenates_witness:
  "\<exists>b st. gives demo_env (bindE (agg_run list_builder 1 [Some demo_datum, None, Some demo_datum])
     (\<lambda>arg. pcpatch_agg_final_pcpatch demo_env list_builder arg demo_session)) (demo_sql 7) (demo_pts @ demo_pts) b st"
proof -
  let ?xs = "[Some demo_datum, None, Some demo_datum]"
  have l: "list_all2 (\<lambda>x ws. \<exists>b st. stored_as demo_env x (demo_sql 7) ws b st) (elements ?xs) [demo_pts, demo_pts]"
    using demo_datum(1) by (auto simp: elements_def)
  have c: "can_store demo_env (demo_sql 7) (concat [demo_pts, demo_pts])" by (rule demo_can_store) (simp_all add: demo_pts_def)
  have d: "stats_defined (demo_sql 7) (concat [demo_pts, demo_pts])" using demo_stats_twice by (simp add: demo_sql_defined)
  show ?thesis using aggregate_concatenates [OF demo_env(2-4) list_builder_works _ l, of 1] c d demo_sql(6) [of 7] by (auto simp: demo_pts_def)
qed

text \<open>
  C32: An array with elements of two schema numbers is an error: as soon as an element follows elements of another
  number, no patch is made, whatever comes after it.
\<close>

theorem arrays_of_one_schema:
  assumes "knows E s" "schema_ready s" "reachable (e_db E) ss" "array_of a xs" "length xs < 2 ^ 31"
    and "elements xs = pre @ x # post" "pre \<noteq> []" "list_all2 (\<lambda>x w. point_stored E x s w) pre ws" "spt_pcid x \<noteq> sc_pcid s"
  shows "pcpatch_from_pcpoint_array E (Some a) ss = Inl (PcError ''pcpatch_from_point_array: pcid mismatch (%d != %d)'')"
proof -
  have sc: "schema_state E s (None, 0, ss)" using assms(3) by (simp add: schema_state_def)
  have "length (elements xs) \<le> length xs" by (simp add: elements_def)
  then have n: "length pre < 2 ^ 31" "length xs < 2 ^ 32" "xs \<noteq> []" using assms(5,6) by auto
  show ?thesis using array_size [OF assms(4)] n(3) add_elements_mismatch [OF assms(1,2,8,7,9) sc n(1,2)]
    by (simp add: pcpatch_from_pcpoint_array_def pcpatch_from_point_array_def Let_def each_element_eq [OF assms(4)] assms(6) store_if_any_def)
qed

theorem arrays_of_one_schema_witness:
  "\<exists>p q. spt_pcid p = 7 \<and> spt_pcid q = 8 \<and> pcpatch_from_pcpoint_array demo_env
     (Some \<lparr>arr_elemtype = 1, arr_dims = [2], arr_lbound = [1], arr_nullbitmap = None, arr_items = [p, q]\<rparr>) demo_session =
       Inl (PcError ''pcpatch_from_point_array: pcid mismatch (%d != %d)'')"
proof -
  obtain p where p: "point_stored demo_env p (demo_sql 7) [1, 2, 3, 4, 5]" using demo_points by blast
  obtain q where q: "point_stored demo_env q (demo_sql 8) [1, 2, 3, 4, 5]" using demo_points by blast
  have n: "spt_pcid p = 7" "spt_pcid q = 8" using p q demo_sql(2) by (simp_all add: point_stored_def)
  have a: "array_of \<lparr>arr_elemtype = 1, arr_dims = [2], arr_lbound = [1], arr_nullbitmap = None, arr_items = [p, q]\<rparr> [Some p, Some q]"
    by (simp add: array_of_def ArrayGetNItems_def elements_def)
  have e: "elements [Some p, Some q] = [p] @ q # []" by (simp add: elements_def)
  show ?thesis using arrays_of_one_schema [OF demo_env(4) demo_sql(7) demo_env(3) a _ e, of "[[1, 2, 3, 4, 5]]"] p n demo_sql(2) by auto
qed

end
