(* ===== verification/Spec2Isabelle.thy ===== *)
theory Spec2Isabelle
  imports PC_Sql_Compress PC_Sql_Array
begin

text \<open>
  The pointcloud library (src/lib), the part of pgpointcloud that is independent of PostgreSQL, and the
  functions that PostgreSQL calls (src/pgsql). In the library, schemas describe how a point is laid out as
  bytes, points and patches of points hold values in that layout, and the values of one dimension of a
  patch form an array of bytes that can be compressed in three ways. The functions of PostgreSQL read a stored
  patch with the schema of its number, which they look up through a cache, call the library, and store the
  result. The theories follow the files of the program.

  \<^bold>\<open>The model.\<close> A C struct is a record with the fields of the struct; memory behind a pointer is the
  list of its bytes (a pointer into the middle of it is an offset, or the rest of the list from there
  on). Every read and write of memory is checked: \<open>rd\<close>, \<open>wr\<close>, \<open>rdx\<close> and \<open>wrx\<close> of PC_Prelude return
  \<open>Inl OutOfBounds\<close> where the C code would leave its buffer, so that a theorem that ends in \<open>Inr\<close> says
  that this does not happen. The other errors are the value \<open>PcError\<close> for a call of pcerror, with its
  format string, \<open>AssertFailed\<close> for a failed assert, and \<open>Unspecified\<close> for what C leaves undefined (an
  uninitialised variable that is read, a conversion out of range). Sizes and counters are natural
  numbers reduced modulo the width of their C type where the code computes with them; bit operations
  work on words. A shift by the full width, which C leaves undefined and the code does where all values of an
  array agree, is what the machines do (\<open>c_shl\<close>, \<open>c_shr\<close>). An IEEE-754 double is the 64-bit word that holds it, and PC_Double defines comparison,
  conversion and arithmetic on these words, with round-to-nearest. The machine is little-endian, as
  \<open>machine_endian\<close> computes it. Memory is never exhausted, and free is not modelled.

  \<^bold>\<open>The theories.\<close>
  \<^item> PC_Prelude: the error monad, folds over it, checked memory, bytes of words, elements of a buffer.
  \<^item> PC_Double: doubles and floats as words. PC_Val (pc_val.c): typed values read and written as doubles.
  \<^item> PC_Util (pc_util.c): hexadecimal text, byte order, fields of the binary form.
  \<^item> PC_Hashtable (hashtable.c): the table of dimension names; its interface is a locale, interpreted on
    the string table. PC_Schema (pc_schema.c): dimensions, offsets, lookup; the invariant \<open>schema_wf\<close>,
    and \<open>schema_ready\<close> for the schemas that points use. PC_Schema_Xml: schemas from XML documents.
    PC_Schema_Clone: the clone of a schema has the same dimensions and, where names differ, the same lookups.
  \<^item> PC_Bytes_Base, PC_Bytes_RLE, PC_Sigbits_Words, PC_Bytes_Sigbits, PC_Bytes (pc_bytes.c): byte arrays,
    their run-length and significant-bits encodings, and the functions that dispatch on the encoding.
    PC_Bytes_Laws states what the encodings have in common, PC_Bytes_Values what bitmaps, filters and
    extremes compute on the values, and PC_Bytes_Serial the serialised form. zlib is a parameter, with
    the documented law that inflate undoes deflate; its counters of 32 bits are in the model, so the laws of
    PC_Bytes_Laws hold for arrays that fit them (\<open>zlib_fits\<close>). PC_Bytes_Owner follows which arrays own their buffer.
  \<^item> PC_Point (pc_point.c, pc_util.c): points, their binary form and their geometry.
  \<^item> PC_Bounds (pc_util.c, pc_stats.c): bounding boxes, diagonals and statistics.
  \<^item> PC_Patch_Uncompressed (pc_pointlist.c, pc_patch_uncompressed.c): point lists and patches as arrays of
    points. PC_Patch_Dimensional (pc_patch_dimensional.c, pc_dimstats.c): patches as one byte array for
    each dimension, and the statistics that choose their compression. PC_Patch_Lazperf
    (pc_patch_lazperf.c): patches compressed by the laz-perf library, whose compressor is a parameter with
    the law that uncompressing undoes compressing.
  \<^item> PC_Patch (pc_patch.c): patches of any of the three kinds, the functions that dispatch on the kind and
    those that compose patches. \<open>patch_holds z laz pa ws\<close> is the abstraction: the patch \<open>pa\<close> holds the list
    \<open>ws\<close> of points. PC_Patch_Points shows each function to be an operation on that list (compression,
    concatenation, ranges, points by number, the binary form), PC_Patch_Reschema does so for the change of
    schema.
  \<^item> PC_Filter (pc_filter.c): filtering a patch by a condition on a dimension. PC_Sort_R (sort_r.h): the
    quicksort, and the locale \<open>sorter\<close> of what sorting promises; PC_Sort (pc_sort.c): sorting patches, and
    testing whether they are sorted. The functions of PC_Sort take the sorting function as an argument, as
    the library takes the qsort_r of the platform where there is one.
  \<^item> PC_Storage (pgsql/pc_pgsql.c): points and patches as data of the database. \<open>reads_as\<close> says that a datum is
    read as a patch with given points, box and statistics. PC_Schema_Cache (pgsql/pc_pgsql.c,
    pgsql/pc_inout.c): the query for a schema, the cache of 16 schemas of a session, as a ring whose reachable
    states keep an invariant, and type modifiers.
  \<^item> PC_Sql (pgsql/pc_inout.c, pgsql/pc_access.c): text form, values of points, header and statistics of
    patches. \<open>stored_as E sp s ws b st\<close> is the abstraction: the datum \<open>sp\<close> is a patch of the schema \<open>s\<close> with the
    points \<open>ws\<close>, the box \<open>b\<close> and the statistics \<open>st\<close>. PC_Sql_Patch (pgsql/pc_access.c, pgsql/pc_editor.c): the functions
    that make patches of patches; \<open>gives\<close> says that a result is such a datum. PC_Sql_Compress
    (pgsql/pc_access.c): compression as the caller says. PC_Sql_Unnest (pgsql/pc_access.c): the set-returning
    function as a state machine, which delivers every point and then ends. PC_Sql_Array (pgsql/pc_access.c): patches
    from arrays of points, patches or numbers, and the aggregates.

  \<^bold>\<open>What the theorems show.\<close> Each encoding is inverted by its decoder, stays inside its buffers, and is
  transparent: random access, bitmaps, filters and extremes of an encoded array are those of the plain
  one. Schemas keep their invariant, and their layout, computed anew whatever was there, places fields side by side; setting one field of a point leaves
  the others. Patches hold the points they were made of; binary forms are read back from machines of
  either byte order. Looking a schema up through the cache is the same as loading it, in every reachable
  session. A stored patch is read back with its points, from text with its statistics and box computed anew; the functions of PC_Sql_Patch and
  PC_Sql_Compress are operations on the list of points of a stored patch, and the aggregates and the
  set-returning function are inverse to each other on points. Loops are bounded by the data
  they run over, so no fuel is needed.

  \<^bold>\<open>Hypotheses.\<close> The bounds that appear as hypotheses (fewer than 2^32 points, fewer than 2^31 for lists)
  are those of the C types; a datum of PostgreSQL is smaller than a gigabyte. What PostgreSQL does is a
  parameter: \<open>pg\<close> for the length word, the alignment and the contents of fresh memory (law \<open>pg_works\<close>: a length
  below a gigabyte is read as it was written), \<open>db\<close> for the catalog and the query interface (the result of a query is
  the same throughout a session), \<open>builder\<close> for its functions that build arrays (law \<open>builds\<close>: the array has the
  elements that were appended), \<open>e_slice\<close> for the first bytes of a datum (law \<open>slice_works\<close>), \<open>e_sort\<close> for the
  qsort_r of the platform (locale \<open>sorter\<close>), and \<open>e_numeric\<close> for the conversion of a double to numeric, of which
  nothing is assumed: a value that the functions return as numeric is the converted one.

  \<^bold>\<open>Not modelled.\<close> Text output (to_string, JSON, the summary) goes through the string buffer over vsnprintf;
  free functions, the allocator and message hooks with _PG_init; the adapter of the external laz-perf
  library; the version functions; the unit tests. Data reach the functions of PostgreSQL uncompressed by
  its own compression, and the elements of an array are a list, not bytes with alignment between them.
\<close>

end
